(* ===== verification/Prelude.thy ===== *)
theory Prelude
  imports Main "HOL-Library.Word"
begin

text \<open>
  Shared vocabulary of the development: the names of the machine integer types, memory
  buffers as byte lists with read and write at an offset, the little-endian image of an
  integer in memory, the list of offsets that a pointer-stepping loop of the C code visits,
  and the lemmas about them that the components share.  The collection \<open>buf_simps\<close> gathers
  the equations about buffers.
\<close>

unbundle bit_operations_syntax

named_theorems buf_simps "reads and writes of byte buffers"

type_synonym byte = "8 word"
type_synonym u16 = "16 word"
type_synonym u32 = "32 word"
type_synonym u64 = "64 word"

subsection \<open>Buffers: read and write at an offset\<close>

definition buf_read :: "nat \<Rightarrow> nat \<Rightarrow> 'a list \<Rightarrow> 'a list" where
  "buf_read off len b = take len (drop off b)"

definition buf_write :: "nat \<Rightarrow> 'a list \<Rightarrow> 'a list \<Rightarrow> 'a list" where
  "buf_write off xs b = take off b @ xs @ drop (off + length xs) b"

lemma length_buf_write [simp, buf_simps]:
  "off + length xs \<le> length b \<Longrightarrow> length (buf_write off xs b) = length b"
  by (simp add: buf_write_def)

lemma length_buf_read [simp, buf_simps]:
  "off + len \<le> length b \<Longrightarrow> length (buf_read off len b) = len"
  by (simp add: buf_read_def)

lemma nth_buf_write:
  assumes "off + length xs \<le> length b" and "i < length b"
  shows "buf_write off xs b ! i
    = (if off \<le> i \<and> i < off + length xs then xs ! (i - off) else b ! i)"
  using assms by (auto simp: buf_write_def nth_append)

lemma nth_buf_read:
  "off + len \<le> length b \<Longrightarrow> i < len \<Longrightarrow> buf_read off len b ! i = b ! (off + i)"
  by (simp add: buf_read_def)

lemma buf_read_write_same [buf_simps]:
  assumes "off + length xs \<le> length b" and "len = length xs"
  shows "buf_read off len (buf_write off xs b) = xs"
  using assms by (simp add: buf_read_def buf_write_def)

lemma buf_read_write_disjoint [buf_simps]:
  assumes "off + length xs \<le> length b"
    and "a + len \<le> off \<or> off + length xs \<le> a"
  shows "buf_read a len (buf_write off xs b) = buf_read a len b"
proof (cases "a + len \<le> off")
  case True
  then show ?thesis using assms(1)
    by (simp add: buf_read_def buf_write_def min_def take_drop add.commute)
next
  case False
  with assms have "off + length xs \<le> a" by simp
  then obtain k where a: "a = off + length xs + k" using le_Suc_ex by blast
  then show ?thesis using assms(1)
    by (simp add: buf_read_def buf_write_def add.commute add.left_commute)
qed

lemma buf_write_write_adjacent:
  assumes "off + length xs + length ys \<le> length b"
  shows "buf_write (off + length xs) ys (buf_write off xs b) = buf_write off (xs @ ys) b"
  using assms by (simp add: buf_write_def add.commute add.left_commute)

subsection \<open>Little-endian integers in memory\<close>

fun le_enc :: "nat \<Rightarrow> nat \<Rightarrow> byte list" where
  "le_enc 0 x = []"
| "le_enc (Suc n) x = word_of_nat (x mod 256) # le_enc n (x div 256)"

fun le_dec :: "byte list \<Rightarrow> nat" where
  "le_dec [] = 0"
| "le_dec (b # bs) = unat b + 256 * le_dec bs"

lemma length_le_enc [simp, buf_simps]: "length (le_enc n x) = n"
  by (induction n arbitrary: x) auto

lemma unat_byte_of_mod [simp]: "unat (word_of_nat (x mod 256) :: byte) = x mod 256"
  by (simp add: unat_of_nat)

lemma le_dec_enc [simp, buf_simps]: "le_dec (le_enc n x) = x mod 256 ^ n"
proof (induction n arbitrary: x)
  case (Suc n)
  have "x mod 256 ^ Suc n = x mod 256 + 256 * (x div 256 mod 256 ^ n)"
    by (simp add: mod_mult2_eq)
  then show ?case by (simp add: Suc)
qed simp

lemma le_dec_bound: "le_dec bs < 256 ^ length bs"
proof (induction bs)
  case (Cons b bs)
  have "unat b < 256" using unsigned_less [of b] by simp
  with Cons show ?case by simp
qed simp

lemma le_enc_inj:
  assumes "le_enc n x = le_enc n y" "x < 256 ^ n" "y < 256 ^ n"
  shows "x = y"
proof -
  have "x mod 256 ^ n = y mod 256 ^ n" using assms(1) by (metis le_dec_enc)
  with assms(2,3) show ?thesis by simp
qed

subsection \<open>Pointer-stepping loops\<close>

text \<open>
  \<open>for_offs p step lim\<close> lists the offsets that \<open>for (; p <= lim; p += step)\<close> visits.
  The limit is an integer because the code computes it as a pointer that may lie below
  the start of the page.  A zero step never occurs (the entry size is 64 in every mounted
  file system), and gives the empty list here.
\<close>

function for_offs :: "nat \<Rightarrow> nat \<Rightarrow> int \<Rightarrow> nat list" where
  "for_offs p step lim =
     (if step = 0 \<or> lim < int p then [] else p # for_offs (p + step) step lim)"
  by pat_completeness auto
termination
  by (relation "measure (\<lambda>(p, step, lim). nat (lim + 1 - int p))") auto

declare for_offs.simps [simp del]

lemma for_offs_from:
  assumes "0 < step" and "i \<le> n"
  shows "for_offs (i * step) step (int (n * step) - int step) = map (\<lambda>j. j * step) [i..<n]"
  using assms(2)
proof (induction "n - i" arbitrary: i)
  case 0
  then have "i = n" by simp
  then show ?case using assms(1) by (simp add: for_offs.simps [of "n * step"])
next
  case (Suc k)
  then have "i < n" and k: "k = n - Suc i" by auto
  have "Suc i * step \<le> n * step" using \<open>i < n\<close> by (intro mult_le_mono1) simp
  then have "int (Suc i * step) \<le> int (n * step)" by (rule of_nat_mono)
  then have "\<not> int (n * step) - int step < int (i * step)" by (simp add: algebra_simps)
  then have "for_offs (i * step) step (int (n * step) - int step)
      = i * step # for_offs (Suc i * step) step (int (n * step) - int step)"
    using assms(1) by (subst for_offs.simps) (simp add: add.commute)
  also have "\<dots> = i * step # map (\<lambda>j. j * step) [Suc i..<n]"
    using Suc.hyps(1) [OF k] \<open>i < n\<close> by simp
  also have "\<dots> = map (\<lambda>j. j * step) [i..<n]" using \<open>i < n\<close> by (simp add: upt_conv_Cons)
  finally show ?case .
qed

lemma for_offs_multiple:
  "0 < step \<Longrightarrow> for_offs 0 step (int (n * step) - int step) = map (\<lambda>i. i * step) [0..<n]"
  using for_offs_from [of step 0 n] by simp

subsection \<open>The order of byte strings\<close>

text \<open>
  The sign of the comparison of two byte strings, bytes first and then lengths, and the length of
  their longest common prefix.
\<close>

fun lex3 :: "'a::linorder list \<Rightarrow> 'a list \<Rightarrow> int" where
  "lex3 [] [] = 0"
| "lex3 [] (y # ys) = - 1"
| "lex3 (x # xs) [] = 1"
| "lex3 (x # xs) (y # ys) = (if x = y then lex3 xs ys else if x < y then - 1 else 1)"

fun lcp :: "'a list \<Rightarrow> 'a list \<Rightarrow> nat" where
  "lcp (x # xs) (y # ys) = (if x = y then Suc (lcp xs ys) else 0)"
| "lcp _ _ = 0"

lemma lcp_le: "lcp xs ys \<le> length xs" "lcp xs ys \<le> length ys"
  by (induction xs ys rule: lcp.induct) auto

lemma lcp_Nil [simp]: "lcp xs [] = 0" "lcp [] ys = 0"
  by (cases xs; simp)+

lemma lcp_commute: "lcp xs ys = lcp ys xs"
  by (induction xs ys rule: lcp.induct) auto

lemma lex3_refl [simp]: "lex3 xs xs = 0"
  by (induction xs) auto

lemma lex3_0 [simp]: "lex3 xs ys = 0 \<longleftrightarrow> xs = ys"
  by (induction xs ys rule: lex3.induct) auto

lemma lex3_swap: "lex3 ys xs = - lex3 xs ys"
  by (induction xs ys rule: lex3.induct) auto

lemma lex3_cases: "lex3 xs ys = - 1 \<or> lex3 xs ys = 0 \<or> lex3 xs ys = 1"
  by (induction xs ys rule: lex3.induct) auto

lemma sgn_lex3 [simp]: "sgn (lex3 xs ys) = lex3 xs ys"
  using lex3_cases [of xs ys] by auto

lemma lex3_trans: "lex3 xs ys \<le> 0 \<Longrightarrow> lex3 ys zs \<le> 0 \<Longrightarrow> lex3 xs zs \<le> 0"
proof (induction xs ys arbitrary: zs rule: lex3.induct)
  case (2 y ys)
  then show ?case by (cases zs) auto
next
  case (4 x xs y ys)
  then show ?case by (cases zs) (auto split: if_splits)
next
  case 1
  then show ?case by simp
qed auto

lemma lex3_less_trans: "lex3 xs ys < 0 \<Longrightarrow> lex3 ys zs \<le> 0 \<Longrightarrow> lex3 xs zs < 0"
  using lex3_trans [of xs ys zs] lex3_swap [of ys xs] lex3_trans [of ys zs xs] lex3_0 [of xs zs]
    lex3_cases [of xs zs] by (cases "xs = zs") (simp, linarith)

lemma lex3_lexord: "lex3 xs ys < 0 \<longleftrightarrow> (xs, ys) \<in> lexord {(x, y). x < y}"
  by (induction xs ys rule: lex3.induct) auto

text \<open>A string between two others shares what they both share with a fourth between them.\<close>

lemma lcp_between:
  assumes "lex3 lo x \<le> 0" "lex3 x hi \<le> 0" "lex3 lo k \<le> 0" "lex3 k hi \<le> 0" "p \<le> lcp k lo" "p \<le> lcp k hi"
  shows "p \<le> lcp k x"
  using assms
proof (induction p arbitrary: lo x hi k)
  case (Suc p)
  obtain a k' where k: "k = a # k'" using Suc.prems(5) by (cases k) auto
  obtain lo' where lo: "lo = a # lo'" using Suc.prems(5) k by (cases lo) (auto split: if_splits)
  obtain hi' where hi: "hi = a # hi'" using Suc.prems(6) k by (cases hi) (auto split: if_splits)
  obtain b x' where x: "x = b # x'" using Suc.prems(1) lo by (cases x) auto
  have "b = a" using Suc.prems(1,2) lo hi x by (auto split: if_splits)
  then show ?case using Suc.IH [of lo' x' hi' k'] Suc.prems k lo hi x by simp
qed simp

lemma lcp_drop:
  assumes "n \<le> lcp xs ys"
  shows "lcp xs ys = n + lcp (drop n xs) (drop n ys)" "lex3 xs ys = lex3 (drop n xs) (drop n ys)"
  using assms
proof (induction n arbitrary: xs ys)
  case (Suc n)
  {
    case 1
    then show ?case using Suc.IH(1) by (cases xs; cases ys) (auto split: if_splits)
  next
    case 2
    then show ?case using Suc.IH(2) by (cases xs; cases ys) (auto split: if_splits)
  }
qed simp_all

end
