(* ===== verification/Gbfs_Types.thy ===== *)
theory Gbfs_Types
  imports Prelude
begin

text \<open>
  The data of the file system \<open>src/fs\<close>: error numbers, the in-core inode, the page of the
  page cache, the superblock information, the raw inode record kept in the database, and
  the state the operations pass along.

  Linux inodes are objects with an address, so an in-core inode is named by a handle (a
  natural number) and carries its inode number \<open>i_ino\<close>; a page of the page cache is named
  by the handle of the inode whose mapping holds it and its index in that mapping.  The
  record \<open>kernel\<close> collects the Linux and database functions that are not under \<open>src/fs\<close>
  and whose outcome the code must handle: they are parameters of every operation.  The
  field updates of the trivial Linux helpers (\<open>lock_page\<close>, \<open>mark_inode_dirty\<close>, \<open>inc_nlink\<close>
  and their kin) are written out as the state changes that the code relies on.
\<close>

subsection \<open>Constants of the platform and of gbfs\<close>

abbreviation PAGE_SIZE :: nat where "PAGE_SIZE \<equiv> 4096"
abbreviation PAGE_SHIFT :: nat where "PAGE_SHIFT \<equiv> 12"

definition GBFS_SUPER_MAGIC :: u16 where "GBFS_SUPER_MAGIC = 0x4d5a"
definition GBFS_ROOT_INO :: nat where "GBFS_ROOT_INO = 1"
definition GBFS_LINK_MAX :: nat where "GBFS_LINK_MAX = 65530"
definition GBFS_VALID_FS :: u16 where "GBFS_VALID_FS = 1"
definition GBFS_ERROR_FS :: u16 where "GBFS_ERROR_FS = 2"

definition S_IFMT :: u16 where "S_IFMT = 0xF000"
definition S_IFREG :: u16 where "S_IFREG = 0x8000"
definition S_IFDIR :: u16 where "S_IFDIR = 0x4000"
definition S_IFLNK :: u16 where "S_IFLNK = 0xA000"

definition S_ISREG :: "u16 \<Rightarrow> bool" where "S_ISREG m \<longleftrightarrow> m AND S_IFMT = S_IFREG"
definition S_ISDIR :: "u16 \<Rightarrow> bool" where "S_ISDIR m \<longleftrightarrow> m AND S_IFMT = S_IFDIR"
definition S_ISLNK :: "u16 \<Rightarrow> bool" where "S_ISLNK m \<longleftrightarrow> m AND S_IFMT = S_IFLNK"

text \<open>
  Error numbers as values.  \<open>EDB c\<close> is a code \<open>c\<close> of the database that the file system
  passes through.  An \<open>int err\<close> of the code is an \<open>rc\<close>: zero, a negated error number, or
  a kernel \<open>BUG()\<close> (or a write outside the page) that does not return.
\<close>

datatype errno = EPERM | ENOENT | EIO | ENOMEM | EEXIST | EINVAL | ENOTEMPTY | ENAMETOOLONG
  | EDB int

datatype rc = Ok | Err errno | Bug

type_synonym timespec = "int \<times> int"

subsection \<open>In-core objects\<close>

datatype iops = NoOps | FileOps | DirOps | SymlinkOps | SpecialOps u32

record inode =
  i_ino :: nat
  i_mode :: u16
  i_nlink :: u32
  i_uid :: u32
  i_gid :: u32
  i_size :: nat
  i_atime :: timespec
  i_mtime :: timespec
  i_ctime :: timespec
  i_blocks :: nat
  i_ops :: iops
  i_dirty :: bool
  i_new :: bool
  i_hashed :: bool
  i_dirsync :: bool
  i_count :: int

record page =
  p_data :: "byte list"
  p_uptodate :: bool
  p_dirty :: bool
  p_writeback :: bool
  p_locked :: bool
  p_ref :: int
  p_kmap :: int

record gbfs_super_block =
  s_magic :: u16
  s_blocksize :: u16

record gbfs_sb_info =
  s_dirsize :: nat
  s_namelen :: nat
  s_ms :: gbfs_super_block
  s_mount_state :: u16
  dbp :: bool
  dbenv :: bool

text \<open>The raw inode of the database (\<open>struct gbfs_inode\<close>): 24 bytes.\<close>

record gbfs_inode =
  ri_mode :: u16
  ri_nlinks :: u16
  ri_uid :: u16
  ri_gid :: u16
  ri_size :: u32
  ri_atime :: u32
  ri_mtime :: u32
  ri_ctime :: u32

text \<open>
  A dentry: its name, the handle of the parent directory's inode, and the handle of its
  own inode when it is positive.
\<close>

record dentry =
  d_name :: "byte list"
  d_parent :: nat
  d_inode :: "nat option"

subsection \<open>The state and the environment\<close>

record 'd gstate =
  inodes :: "nat \<Rightarrow> inode"
  pcache :: "nat \<times> nat \<Rightarrow> page option"
  kdb :: 'd
  next_ino :: nat
  sbi :: gbfs_sb_info
  sb_blocksize :: nat

text \<open>An attribute change request: the valid mask and the new size.\<close>

record iattr =
  ia_valid :: u32
  ia_size :: nat

record 'd kernel =
  read_mapping_page :: "'d gstate \<Rightarrow> nat \<Rightarrow> nat \<Rightarrow> 'd gstate \<times> errno option"
  grab_cache_page :: "'d gstate \<Rightarrow> nat \<Rightarrow> nat \<Rightarrow> 'd gstate \<times> bool"
  write_one_page :: "'d gstate \<Rightarrow> nat \<Rightarrow> nat \<Rightarrow> 'd gstate \<times> rc"
  current_time :: "'d gstate \<Rightarrow> timespec"
  jiffies :: "'d gstate \<Rightarrow> u64"
  kmalloc_ok :: "'d gstate \<Rightarrow> bool"
  new_inode :: "'d gstate \<Rightarrow> 'd gstate \<times> nat option"
  inode_init_owner :: "'d gstate \<Rightarrow> nat \<Rightarrow> nat \<Rightarrow> u16 \<Rightarrow> 'd gstate"
  iget_locked :: "'d gstate \<Rightarrow> nat \<Rightarrow> 'd gstate \<times> nat option"
  iput :: "'d gstate \<Rightarrow> nat \<Rightarrow> 'd gstate"
  iget_failed :: "'d gstate \<Rightarrow> nat \<Rightarrow> 'd gstate"
  page_symlink :: "'d gstate \<Rightarrow> nat \<Rightarrow> byte list \<Rightarrow> 'd gstate \<times> rc"
  truncate_inode_pages_final :: "'d gstate \<Rightarrow> nat \<Rightarrow> 'd gstate"
  d_tmpfile :: "'d gstate \<Rightarrow> dentry \<Rightarrow> nat \<Rightarrow> 'd gstate \<times> dentry"
  setattr_prepare :: "'d gstate \<Rightarrow> nat \<Rightarrow> iattr \<Rightarrow> rc"
  inode_newsize_ok :: "'d gstate \<Rightarrow> nat \<Rightarrow> nat \<Rightarrow> rc"
  truncate_setsize :: "'d gstate \<Rightarrow> nat \<Rightarrow> nat \<Rightarrow> 'd gstate"
  setattr_copy :: "'d gstate \<Rightarrow> nat \<Rightarrow> iattr \<Rightarrow> 'd gstate"
  fs_high2lowid :: "u32 \<Rightarrow> u16"
  old_valid_dev :: "u32 \<Rightarrow> bool"
  db_get :: "'d \<Rightarrow> byte list \<Rightarrow> int + byte list"
  db_put :: "'d \<Rightarrow> byte list \<Rightarrow> byte list \<Rightarrow> 'd \<times> int"

definition blank_page :: page where
  "blank_page = \<lparr>p_data = replicate PAGE_SIZE 0, p_uptodate = False, p_dirty = False,
     p_writeback = False, p_locked = False, p_ref = 0, p_kmap = 0\<rparr>"

definition page_of :: "'d gstate \<Rightarrow> nat \<Rightarrow> nat \<Rightarrow> page" where
  "page_of s h n = (case pcache s (h, n) of Some p \<Rightarrow> p | None \<Rightarrow> blank_page)"

definition upd_page :: "'d gstate \<Rightarrow> nat \<Rightarrow> nat \<Rightarrow> (page \<Rightarrow> page) \<Rightarrow> 'd gstate" where
  "upd_page s h n f = s\<lparr>pcache := (pcache s)((h, n) \<mapsto> f (page_of s h n))\<rparr>"

definition upd_inode :: "'d gstate \<Rightarrow> nat \<Rightarrow> (inode \<Rightarrow> inode) \<Rightarrow> 'd gstate" where
  "upd_inode s h f = s\<lparr>inodes := (inodes s)(h := f (inodes s h))\<rparr>"

definition mark_inode_dirty :: "'d gstate \<Rightarrow> nat \<Rightarrow> 'd gstate" where
  "mark_inode_dirty s h = upd_inode s h (\<lambda>i. i\<lparr>i_dirty := True\<rparr>)"

definition inode_inc_link_count :: "'d gstate \<Rightarrow> nat \<Rightarrow> 'd gstate" where
  "inode_inc_link_count s h =
     mark_inode_dirty (upd_inode s h (\<lambda>i. i\<lparr>i_nlink := i_nlink i + 1\<rparr>)) h"

definition drop_nlink :: "'d gstate \<Rightarrow> nat \<Rightarrow> 'd gstate" where
  "drop_nlink s h = upd_inode s h (\<lambda>i. i\<lparr>i_nlink := i_nlink i - 1\<rparr>)"

definition inode_dec_link_count :: "'d gstate \<Rightarrow> nat \<Rightarrow> 'd gstate" where
  "inode_dec_link_count s h = mark_inode_dirty (drop_nlink s h) h"

definition ihold :: "'d gstate \<Rightarrow> nat \<Rightarrow> 'd gstate" where
  "ihold s h = upd_inode s h (\<lambda>i. i\<lparr>i_count := i_count i + 1\<rparr>)"

definition lock_page :: "'d gstate \<Rightarrow> nat \<Rightarrow> nat \<Rightarrow> 'd gstate" where
  "lock_page s h n = upd_page s h n (\<lambda>p. p\<lparr>p_locked := True\<rparr>)"

definition unlock_page :: "'d gstate \<Rightarrow> nat \<Rightarrow> nat \<Rightarrow> 'd gstate" where
  "unlock_page s h n = upd_page s h n (\<lambda>p. p\<lparr>p_locked := False\<rparr>)"

definition write_page_data :: "'d gstate \<Rightarrow> nat \<Rightarrow> nat \<Rightarrow> nat \<Rightarrow> byte list \<Rightarrow> 'd gstate" where
  "write_page_data s h n off bs = upd_page s h n (\<lambda>p. p\<lparr>p_data := buf_write off bs (p_data p)\<rparr>)"

subsection \<open>Frame lemmas of the updates\<close>

lemma page_of_upd_page [simp]:
  "page_of (upd_page s h n f) h' n' = (if h' = h \<and> n' = n then f (page_of s h n) else page_of s h' n')"
  by (simp add: page_of_def upd_page_def)

lemma upd_page_frame [simp]:
  "inodes (upd_page s h n f) = inodes s" "kdb (upd_page s h n f) = kdb s"
  "next_ino (upd_page s h n f) = next_ino s" "sbi (upd_page s h n f) = sbi s"
  by (simp_all add: upd_page_def)

lemma pcache_upd_page:
  "pcache (upd_page s h n f) = (pcache s)((h, n) \<mapsto> f (page_of s h n))"
  by (simp add: upd_page_def)

lemma upd_inode_frame [simp]:
  "pcache (upd_inode s h f) = pcache s" "kdb (upd_inode s h f) = kdb s"
  "next_ino (upd_inode s h f) = next_ino s" "sbi (upd_inode s h f) = sbi s"
  "page_of (upd_inode s h f) = page_of s"
  by (simp_all add: upd_inode_def page_of_def fun_eq_iff)

lemma inodes_upd_inode [simp]:
  "inodes (upd_inode s h f) h' = (if h' = h then f (inodes s h) else inodes s h')"
  by (simp add: upd_inode_def)

text \<open>
  Normal form of a state change: the collection \<open>gstate_norm\<close> fuses updates of the same
  page or inode and moves page updates inside inode updates, and database updates outside.
\<close>

named_theorems gstate_norm "fusing and reordering state updates"

lemma upd_page_fuse [gstate_norm]:
  "upd_page (upd_page s h n f) h n g = upd_page s h n (\<lambda>p. g (f p))"
  by (simp add: upd_page_def page_of_def)

lemma upd_inode_fuse [gstate_norm]:
  "upd_inode (upd_inode s h f) h g = upd_inode s h (\<lambda>i. g (f i))"
  by (simp add: upd_inode_def)

lemma upd_page_upd_inode [gstate_norm]:
  "upd_page (upd_inode s h f) d n g = upd_inode (upd_page s d n g) h f"
  by (simp add: upd_inode_def upd_page_def page_of_def)

lemma upd_page_kdb [gstate_norm]:
  "upd_page (s\<lparr>kdb := k\<rparr>) d n g = (upd_page s d n g)\<lparr>kdb := k\<rparr>"
  by (simp add: upd_page_def page_of_def)

lemma upd_inode_kdb [gstate_norm]:
  "upd_inode (s\<lparr>kdb := k\<rparr>) h f = (upd_inode s h f)\<lparr>kdb := k\<rparr>"
  by (simp add: upd_inode_def)

lemma upd_inode_id: "f (inodes s h) = inodes s h \<Longrightarrow> upd_inode s h f = s"
  by (simp add: upd_inode_def)

lemma upd_inode_cong: "f (inodes s h) = g (inodes s h) \<Longrightarrow> upd_inode s h f = upd_inode s h g"
  by (simp add: upd_inode_def)

lemma upd_page_cong: "f (page_of s h n) = g (page_of s h n) \<Longrightarrow> upd_page s h n f = upd_page s h n g"
  by (simp add: upd_page_def)

lemma kdb_self: "kdb s = k \<Longrightarrow> s\<lparr>kdb := k\<rparr> = s"
  by simp

lemma page_of_kdb [simp]: "page_of (s\<lparr>kdb := k\<rparr>) = page_of s"
  by (simp add: page_of_def fun_eq_iff)

end
