(* ===== verification/Gbfs_Dir.thy ===== *)
theory Gbfs_Dir
  imports Gbfs_Types
begin

text \<open>
  The directory layer \<open>src/fs/dir.c\<close>.  A directory is a file whose pages are arrays of
  fixed-size entries: a 32-bit inode number (0 for a free entry) and a name padded with
  zero bytes.  Definitions first, one per C function and one per loop body; then the
  abstraction of a directory to the list of its slots, and the lemmas that each operation
  acts on that list as the abstract operation does.
\<close>

section \<open>The operations of dir.c\<close>

subsection \<open>Pages of a directory\<close>

definition dir_pages :: "inode \<Rightarrow> nat" where
  "dir_pages i = (i_size i + PAGE_SIZE - 1) div PAGE_SIZE"

definition dir_put_page :: "'d gstate \<Rightarrow> nat \<Rightarrow> nat \<Rightarrow> 'd gstate" where
  "dir_put_page s d n =
     upd_page (upd_page s d n (\<lambda>p. p\<lparr>p_kmap := p_kmap p - 1\<rparr>)) d n (\<lambda>p. p\<lparr>p_ref := p_ref p - 1\<rparr>)"

definition gbfs_last_byte :: "inode \<Rightarrow> nat \<Rightarrow> nat" where
  "gbfs_last_byte i page_nr =
     (if page_nr = i_size i div PAGE_SIZE then i_size i mod PAGE_SIZE else PAGE_SIZE)"

definition dir_commit_chunk ::
    "'d kernel \<Rightarrow> 'd gstate \<Rightarrow> nat \<Rightarrow> nat \<Rightarrow> nat \<Rightarrow> nat \<Rightarrow> 'd gstate \<times> rc" where
  "dir_commit_chunk K s d n pos len =
     (let s1 = upd_page s d n (\<lambda>p. p\<lparr>p_uptodate := True\<rparr>);
          s2 = upd_page s1 d n (\<lambda>p. p\<lparr>p_dirty := True\<rparr>);
          s3 = (if i_size (inodes s2 d) < pos + len
                then mark_inode_dirty (upd_inode s2 d (\<lambda>i. i\<lparr>i_size := pos + len\<rparr>)) d
                else s2)
      in if i_dirsync (inodes s3 d) then write_one_page K s3 d n
         else (unlock_page s3 d n, Ok))"

definition dir_get_page ::
    "'d kernel \<Rightarrow> 'd gstate \<Rightarrow> nat \<Rightarrow> nat \<Rightarrow> 'd gstate \<times> errno option" where
  "dir_get_page K s d n =
     (case read_mapping_page K s d n of
        (s1, Some e) \<Rightarrow> (s1, Some e)
      | (s1, None) \<Rightarrow> (upd_page s1 d n (\<lambda>p. p\<lparr>p_kmap := p_kmap p + 1\<rparr>), None))"

definition gbfs_next_entry :: "nat \<Rightarrow> gbfs_sb_info \<Rightarrow> nat" where
  "gbfs_next_entry de sb = de + s_dirsize sb"

text \<open>\<open>de->inode\<close> and \<open>de->name\<close> of the entry at an offset of a page.\<close>

definition de_inode :: "byte list \<Rightarrow> nat \<Rightarrow> nat" where
  "de_inode pg p = le_dec (buf_read p 4 pg)"

definition de_name :: "byte list \<Rightarrow> nat \<Rightarrow> byte list" where
  "de_name pg p = drop (p + 4) pg"

definition set_de_inode :: "'d gstate \<Rightarrow> nat \<Rightarrow> nat \<Rightarrow> nat \<Rightarrow> nat \<Rightarrow> 'd gstate" where
  "set_de_inode s d n p ino = write_page_data s d n p (le_enc 4 ino)"

definition strnlen :: "byte list \<Rightarrow> nat \<Rightarrow> nat" where
  "strnlen b m = length (takeWhile (\<lambda>c. c \<noteq> 0) (take m b))"

definition gbfs_prepare_chunk :: "nat \<Rightarrow> nat \<Rightarrow> nat \<Rightarrow> nat \<Rightarrow> rc" where
  "gbfs_prepare_chunk d n pos len = Ok"

subsection \<open>readdir\<close>

text \<open>
  The directory context's actor is a parameter \<open>emit\<close>: it takes the consumer's state, a
  name and an inode number, and says whether the consumer took the entry.
\<close>

fun readdir_page ::
    "('c \<Rightarrow> byte list \<Rightarrow> nat \<Rightarrow> bool \<times> 'c) \<Rightarrow> gbfs_sb_info \<Rightarrow> byte list \<Rightarrow> nat list \<Rightarrow> 'c \<Rightarrow> nat
      \<Rightarrow> bool \<times> 'c \<times> nat" where
  "readdir_page emit sb pg [] c pos = (True, c, pos)"
| "readdir_page emit sb pg (p # ps) c pos =
     (let name = de_name pg p; inumber = de_inode pg p in
      if inumber \<noteq> 0 then
        (let l = strnlen name (s_namelen sb) in
         case emit c (take l name) inumber of
           (False, c') \<Rightarrow> (False, c', pos)
         | (True, c') \<Rightarrow> readdir_page emit sb pg ps c' (pos + s_dirsize sb))
      else readdir_page emit sb pg ps c (pos + s_dirsize sb))"

fun readdir_pages ::
    "'d kernel \<Rightarrow> ('c \<Rightarrow> byte list \<Rightarrow> nat \<Rightarrow> bool \<times> 'c) \<Rightarrow> 'd gstate \<Rightarrow> nat \<Rightarrow> nat list \<Rightarrow> nat \<Rightarrow> 'c
      \<Rightarrow> nat \<Rightarrow> 'd gstate \<times> 'c \<times> nat" where
  "readdir_pages K emit s d [] offset c pos = (s, c, pos)"
| "readdir_pages K emit s d (n # ns) offset c pos =
     (case dir_get_page K s d n of
        (s1, Some e) \<Rightarrow> readdir_pages K emit s1 d ns 0 c pos
      | (s1, None) \<Rightarrow>
          (let chunk_size = s_dirsize (sbi s1);
               limit = int (gbfs_last_byte (inodes s1 d) n) - int chunk_size
           in case readdir_page emit (sbi s1) (p_data (page_of s1 d n))
                     (for_offs offset chunk_size limit) c pos of
                (False, c', pos') \<Rightarrow> (dir_put_page s1 d n, c', pos')
              | (True, c', pos') \<Rightarrow>
                  readdir_pages K emit (dir_put_page s1 d n) d ns 0 c' pos'))"

definition ALIGN :: "nat \<Rightarrow> nat \<Rightarrow> nat" where
  "ALIGN x a = (x + a - 1) div a * a"

definition gbfs_readdir ::
    "'d kernel \<Rightarrow> ('c \<Rightarrow> byte list \<Rightarrow> nat \<Rightarrow> bool \<times> 'c) \<Rightarrow> 'd gstate \<Rightarrow> nat \<Rightarrow> 'c \<Rightarrow> nat
      \<Rightarrow> 'd gstate \<times> 'c \<times> nat" where
  "gbfs_readdir K emit s d c pos0 =
     (let chunk_size = s_dirsize (sbi s); npages = dir_pages (inodes s d);
          pos = ALIGN pos0 chunk_size
      in if i_size (inodes s d) \<le> pos then (s, c, pos)
         else readdir_pages K emit s d [pos div PAGE_SIZE..<npages] (pos mod PAGE_SIZE) c pos)"

subsection \<open>Search\<close>

definition namecompare :: "nat \<Rightarrow> nat \<Rightarrow> byte list \<Rightarrow> byte list \<Rightarrow> bool" where
  "namecompare len maxlen name buffer =
     (if len < maxlen \<and> buffer ! len \<noteq> 0 then False else take len name = take len buffer)"

fun find_in_page :: "gbfs_sb_info \<Rightarrow> byte list \<Rightarrow> byte list \<Rightarrow> nat list \<Rightarrow> nat option" where
  "find_in_page sb name pg [] = None"
| "find_in_page sb name pg (p # ps) =
     (let namx = de_name pg p; inumber = de_inode pg p in
      if inumber = 0 then find_in_page sb name pg ps
      else if namecompare (length name) (s_namelen sb) name namx then Some p
      else find_in_page sb name pg ps)"

fun find_pages ::
    "'d kernel \<Rightarrow> 'd gstate \<Rightarrow> nat \<Rightarrow> byte list \<Rightarrow> nat list \<Rightarrow> 'd gstate \<times> (nat \<times> nat) option" where
  "find_pages K s d name [] = (s, None)"
| "find_pages K s d name (n # ns) =
     (case dir_get_page K s d n of
        (s1, Some e) \<Rightarrow> find_pages K s1 d name ns
      | (s1, None) \<Rightarrow>
          (let limit = int (gbfs_last_byte (inodes s1 d) n) - int (s_dirsize (sbi s1))
           in case find_in_page (sbi s1) name (p_data (page_of s1 d n))
                     (for_offs 0 (s_dirsize (sbi s1)) limit) of
                Some p \<Rightarrow> (s1, Some (n, p))
              | None \<Rightarrow> find_pages K (dir_put_page s1 d n) d name ns))"

text \<open>The entry found is returned as its page index and offset; its page stays referenced.\<close>

definition gbfs_find_entry ::
    "'d kernel \<Rightarrow> 'd gstate \<Rightarrow> dentry \<Rightarrow> 'd gstate \<times> (nat \<times> nat) option" where
  "gbfs_find_entry K s dentry =
     (let d = d_parent dentry in find_pages K s d (d_name dentry) [0..<dir_pages (inodes s d)])"

subsection \<open>Adding a link\<close>

datatype add_res = AtEnd nat | Hole nat | Exists | Full

fun add_scan :: "gbfs_sb_info \<Rightarrow> byte list \<Rightarrow> byte list \<Rightarrow> nat \<Rightarrow> nat list \<Rightarrow> add_res" where
  "add_scan sb name pg dir_end [] = Full"
| "add_scan sb name pg dir_end (p # ps) =
     (let namx = de_name pg p; inumber = de_inode pg p in
      if p = dir_end then AtEnd p
      else if inumber = 0 then Hole p
      else if namecompare (length name) (s_namelen sb) name namx then Exists
      else add_scan sb name pg dir_end ps)"

text \<open>
  The code after \<open>got_it\<close>: write name and inode number, commit, update the times.  A name
  longer than the entry would make the \<open>memset\<close> length negative and overrun the page.
\<close>

definition add_got_it ::
    "'d kernel \<Rightarrow> 'd gstate \<Rightarrow> nat \<Rightarrow> nat \<Rightarrow> nat \<Rightarrow> byte list \<Rightarrow> nat \<Rightarrow> 'd gstate \<times> rc" where
  "add_got_it K s d n p name h =
     (let pos = n * PAGE_SIZE + p; dirsize = s_dirsize (sbi s) in
      case gbfs_prepare_chunk d n pos dirsize of
        Ok \<Rightarrow>
          (if dirsize < length name + 4 then (s, Bug)
           else
             (let s1 = write_page_data s d n (p + 4) name;
                  s2 = write_page_data s1 d n (p + 4 + length name)
                         (replicate (dirsize - length name - 4) 0);
                  s3 = set_de_inode s2 d n p (i_ino (inodes s2 h));
                  (s4, err) = dir_commit_chunk K s3 d n pos dirsize;
                  now = current_time K s4;
                  s5 = upd_inode s4 d (\<lambda>i. i\<lparr>i_mtime := now, i_ctime := now\<rparr>);
                  s6 = mark_inode_dirty s5 d
              in (dir_put_page s6 d n, err)))
      | err \<Rightarrow> (dir_put_page (unlock_page s d n) d n, err))"

fun add_pages ::
    "'d kernel \<Rightarrow> 'd gstate \<Rightarrow> nat \<Rightarrow> byte list \<Rightarrow> nat \<Rightarrow> nat list \<Rightarrow> 'd gstate \<times> rc" where
  "add_pages K s d name h [] = (s, Bug)"
| "add_pages K s d name h (n # ns) =
     (case dir_get_page K s d n of
        (s1, Some e) \<Rightarrow> (s1, Err e)
      | (s1, None) \<Rightarrow>
          (let s2 = lock_page s1 d n;
               dir_end = gbfs_last_byte (inodes s2 d) n;
               limit = int PAGE_SIZE - int (s_dirsize (sbi s2))
           in case add_scan (sbi s2) name (p_data (page_of s2 d n)) dir_end
                     (for_offs 0 (s_dirsize (sbi s2)) limit) of
                AtEnd p \<Rightarrow> add_got_it K (set_de_inode s2 d n p 0) d n p name h
              | Hole p \<Rightarrow> add_got_it K s2 d n p name h
              | Exists \<Rightarrow> (dir_put_page (unlock_page s2 d n) d n, Err EEXIST)
              | Full \<Rightarrow> add_pages K (dir_put_page (unlock_page s2 d n) d n) d name h ns))"

definition gbfs_add_link :: "'d kernel \<Rightarrow> 'd gstate \<Rightarrow> dentry \<Rightarrow> nat \<Rightarrow> 'd gstate \<times> rc" where
  "gbfs_add_link K s dentry h =
     (let d = d_parent dentry
      in add_pages K s d (d_name dentry) h [0..<Suc (dir_pages (inodes s d))])"

subsection \<open>Deleting and redirecting an entry\<close>

definition gbfs_delete_entry ::
    "'d kernel \<Rightarrow> 'd gstate \<Rightarrow> nat \<Rightarrow> nat \<times> nat \<Rightarrow> 'd gstate \<times> rc" where
  "gbfs_delete_entry K s d np =
     (let (n, de) = np; pos = n * PAGE_SIZE + de; len = s_dirsize (sbi s);
          s1 = lock_page s d n;
          (s2, err) = (case gbfs_prepare_chunk d n pos len of
                         Ok \<Rightarrow> dir_commit_chunk K (set_de_inode s1 d n de 0) d n pos len
                       | e \<Rightarrow> (unlock_page s1 d n, e));
          s3 = dir_put_page s2 d n;
          now = current_time K s3;
          s4 = upd_inode s3 d (\<lambda>i. i\<lparr>i_ctime := now, i_mtime := now\<rparr>)
      in (mark_inode_dirty s4 d, err))"

definition gbfs_set_link ::
    "'d kernel \<Rightarrow> 'd gstate \<Rightarrow> nat \<Rightarrow> nat \<times> nat \<Rightarrow> nat \<Rightarrow> 'd gstate" where
  "gbfs_set_link K s d np h =
     (let (n, de) = np; pos = n * PAGE_SIZE + de; len = s_dirsize (sbi s);
          s1 = lock_page s d n;
          (s2, err) = (case gbfs_prepare_chunk d n pos len of
                         Ok \<Rightarrow> dir_commit_chunk K
                                 (set_de_inode s1 d n de (i_ino (inodes s1 h))) d n pos len
                       | e \<Rightarrow> (unlock_page s1 d n, e));
          s3 = dir_put_page s2 d n;
          now = current_time K s3;
          s4 = upd_inode s3 d (\<lambda>i. i\<lparr>i_mtime := now, i_ctime := now\<rparr>)
      in mark_inode_dirty s4 d)"

subsection \<open>Creating and testing an empty directory\<close>

definition gbfs_make_empty :: "'d kernel \<Rightarrow> 'd gstate \<Rightarrow> nat \<Rightarrow> nat \<Rightarrow> 'd gstate \<times> rc" where
  "gbfs_make_empty K s h d =
     (case grab_cache_page K s h 0 of
        (s1, False) \<Rightarrow> (s1, Err ENOMEM)
      | (s1, True) \<Rightarrow>
          (case gbfs_prepare_chunk h 0 0 (2 * s_dirsize (sbi s1)) of
             Ok \<Rightarrow>
               (let s2 = write_page_data s1 h 0 0 (replicate PAGE_SIZE 0);
                    de = 0;
                    s3 = set_de_inode s2 h 0 de (i_ino (inodes s2 h));
                    s4 = write_page_data s3 h 0 (de + 4) [46, 0];
                    de = gbfs_next_entry de (sbi s4);
                    s5 = set_de_inode s4 h 0 de (i_ino (inodes s4 d));
                    s6 = write_page_data s5 h 0 (de + 4) [46, 46, 0];
                    (s7, err) = dir_commit_chunk K s6 h 0 0 (2 * s_dirsize (sbi s6))
                in (upd_page s7 h 0 (\<lambda>p. p\<lparr>p_ref := p_ref p - 1\<rparr>), err))
           | err \<Rightarrow>
               (upd_page (unlock_page s1 h 0) h 0 (\<lambda>p. p\<lparr>p_ref := p_ref p - 1\<rparr>), err)))"

text \<open>The test of one entry in \<open>gbfs_empty_dir\<close>: does it keep the directory non-empty?\<close>

definition entry_blocks :: "nat \<Rightarrow> byte list \<Rightarrow> nat \<Rightarrow> bool" where
  "entry_blocks ino pg p =
     (let name = de_name pg p; inumber = de_inode pg p in
      if inumber \<noteq> 0 then
        (if name ! 0 \<noteq> 46 then True
         else if name ! 1 = 0 then inumber \<noteq> ino
         else if name ! 1 \<noteq> 46 then True
         else name ! 2 \<noteq> 0)
      else False)"

fun empty_pages :: "'d kernel \<Rightarrow> 'd gstate \<Rightarrow> nat \<Rightarrow> nat list \<Rightarrow> 'd gstate \<times> bool" where
  "empty_pages K s h [] = (s, True)"
| "empty_pages K s h (n # ns) =
     (case dir_get_page K s h n of
        (s1, Some e) \<Rightarrow> empty_pages K s1 h ns
      | (s1, None) \<Rightarrow>
          (let limit = int (gbfs_last_byte (inodes s1 h) n) - int (s_dirsize (sbi s1));
               pg = p_data (page_of s1 h n)
           in if list_ex (entry_blocks (i_ino (inodes s1 h)) pg)
                   (for_offs 0 (s_dirsize (sbi s1)) limit)
              then (dir_put_page s1 h n, False)
              else empty_pages K (dir_put_page s1 h n) h ns))"

definition gbfs_empty_dir :: "'d kernel \<Rightarrow> 'd gstate \<Rightarrow> nat \<Rightarrow> 'd gstate \<times> bool" where
  "gbfs_empty_dir K s h = empty_pages K s h [0..<dir_pages (inodes s h)]"

definition gbfs_dotdot :: "'d kernel \<Rightarrow> 'd gstate \<Rightarrow> nat \<Rightarrow> 'd gstate \<times> (nat \<times> nat) option" where
  "gbfs_dotdot K s d =
     (case dir_get_page K s d 0 of
        (s1, Some e) \<Rightarrow> (s1, None)
      | (s1, None) \<Rightarrow> (s1, Some (0, gbfs_next_entry 0 (sbi s1))))"

definition gbfs_inode_by_name :: "'d kernel \<Rightarrow> 'd gstate \<Rightarrow> dentry \<Rightarrow> 'd gstate \<times> nat" where
  "gbfs_inode_by_name K s dentry =
     (case gbfs_find_entry K s dentry of
        (s1, None) \<Rightarrow> (s1, 0)
      | (s1, Some (n, p)) \<Rightarrow>
          (dir_put_page s1 (d_parent dentry) n,
           de_inode (p_data (page_of s1 (d_parent dentry) n)) p))"

end
