(* ===== verification/Gbfs_Inode.thy ===== *)
theory Gbfs_Inode
  imports Gbfs_Types
begin

text \<open>
  The storage layer of gbfs, \<open>src/fs/bitmap.c\<close>, \<open>src/fs/inode.c\<close> and \<open>src/fs/keys.h\<close>: the
  keys and records kept in the database, reading and writing raw inodes and pages, creating
  and loading in-core inodes, mounting and unmounting.  The database is reached through
  \<open>db_get\<close> and \<open>db_put\<close> of the \<open>kernel\<close> record; what the layer relies on is the locale
  \<open>kv_store\<close>, and its round trips are proved there.
\<close>

section \<open>Keys and records\<close>

definition GBFS_DB_PAGE :: nat where "GBFS_DB_PAGE = 0"
definition GBFS_DB_INODE :: nat where "GBFS_DB_INODE = 1"

text \<open>The packed key structures: a type byte, the inode number, the byte offset of a page.\<close>

definition gbfs_data_key :: "nat \<Rightarrow> nat \<Rightarrow> byte list" where
  "gbfs_data_key ino pgoff = le_enc 1 GBFS_DB_PAGE @ le_enc 8 ino @ le_enc 8 pgoff"

definition gbfs_inode_key :: "nat \<Rightarrow> byte list" where
  "gbfs_inode_key ino = le_enc 1 GBFS_DB_INODE @ le_enc 8 ino"

definition sizeof_gbfs_inode :: nat where "sizeof_gbfs_inode = 24"

definition raw_bytes :: "gbfs_inode \<Rightarrow> byte list" where
  "raw_bytes r = le_enc 2 (unat (ri_mode r)) @ le_enc 2 (unat (ri_nlinks r))
     @ le_enc 2 (unat (ri_uid r)) @ le_enc 2 (unat (ri_gid r))
     @ le_enc 4 (unat (ri_size r)) @ le_enc 4 (unat (ri_atime r))
     @ le_enc 4 (unat (ri_mtime r)) @ le_enc 4 (unat (ri_ctime r))"

definition raw_of_bytes :: "byte list \<Rightarrow> gbfs_inode" where
  "raw_of_bytes b = \<lparr>ri_mode = word_of_nat (le_dec (buf_read 0 2 b)),
     ri_nlinks = word_of_nat (le_dec (buf_read 2 2 b)),
     ri_uid = word_of_nat (le_dec (buf_read 4 2 b)),
     ri_gid = word_of_nat (le_dec (buf_read 6 2 b)),
     ri_size = word_of_nat (le_dec (buf_read 8 4 b)),
     ri_atime = word_of_nat (le_dec (buf_read 12 4 b)),
     ri_mtime = word_of_nat (le_dec (buf_read 16 4 b)),
     ri_ctime = word_of_nat (le_dec (buf_read 20 4 b))\<rparr>"

section \<open>Raw inodes\<close>

definition zero_raw :: gbfs_inode where
  "zero_raw = \<lparr>ri_mode = 0, ri_nlinks = 0, ri_uid = 0, ri_gid = 0, ri_size = 0, ri_atime = 0,
     ri_mtime = 0, ri_ctime = 0\<rparr>"

definition minix_raw_inode :: "u64 \<Rightarrow> gbfs_inode" where
  "minix_raw_inode now = \<lparr>ri_mode = S_IFDIR + 0x1ED, ri_nlinks = 2, ri_uid = 0, ri_gid = 0,
     ri_size = 0, ri_atime = ucast now, ri_mtime = ucast now, ri_ctime = ucast now\<rparr>"

datatype raw_res = RawNull | Raw gbfs_inode | RawBug

definition DB_NOTFOUND :: int where "DB_NOTFOUND = -30987"

definition gbfs_raw_inode :: "'d kernel \<Rightarrow> 'd gstate \<Rightarrow> nat \<Rightarrow> raw_res" where
  "gbfs_raw_inode K s ino =
     (if \<not> kmalloc_ok K s then RawNull
      else case db_get K (kdb s) (gbfs_inode_key ino) of
        Inr v \<Rightarrow> if length v \<noteq> sizeof_gbfs_inode then RawBug else Raw (raw_of_bytes v)
      | Inl err \<Rightarrow>
          if err = DB_NOTFOUND then
            (if ino = GBFS_ROOT_INO then Raw (minix_raw_inode (jiffies K s)) else Raw zero_raw)
          else RawNull)"

text \<open>A database return code as the function's own result.\<close>

definition rc_of_db :: "int \<Rightarrow> rc" where
  "rc_of_db c = (if c = 0 then Ok else Err (EDB c))"

definition gbfs_update_inode :: "'d kernel \<Rightarrow> 'd gstate \<Rightarrow> nat \<Rightarrow> gbfs_inode \<Rightarrow> 'd gstate \<times> rc" where
  "gbfs_update_inode K s h raw =
     (case db_put K (kdb s) (gbfs_inode_key (i_ino (inodes s h))) (raw_bytes raw) of
        (d, err) \<Rightarrow> (s\<lparr>kdb := d\<rparr>, rc_of_db err))"

definition gbfs_clear_inode :: "'d kernel \<Rightarrow> 'd gstate \<Rightarrow> nat \<Rightarrow> 'd gstate \<times> rc" where
  "gbfs_clear_inode K s h =
     (case gbfs_raw_inode K s (i_ino (inodes s h)) of
        RawNull \<Rightarrow> (s, Ok)
      | RawBug \<Rightarrow> (s, Bug)
      | Raw r \<Rightarrow> (fst (gbfs_update_inode K s h (r\<lparr>ri_nlinks := 0, ri_mode := 0\<rparr>)), Ok))"

definition gbfs_free_inode :: "'d kernel \<Rightarrow> 'd gstate \<Rightarrow> nat \<Rightarrow> 'd gstate \<times> rc" where
  "gbfs_free_inode K s h = gbfs_clear_inode K s h"

definition gbfs_new_inode :: "'d kernel \<Rightarrow> 'd gstate \<Rightarrow> nat \<Rightarrow> u16 \<Rightarrow> 'd gstate \<times> (errno + nat)" where
  "gbfs_new_inode K s dir mode =
     (case new_inode K s of
        (s1, None) \<Rightarrow> (s1, Inl ENOMEM)
      | (s1, Some h) \<Rightarrow>
          (let s2 = inode_init_owner K s1 h dir mode;
               s3 = upd_inode s2 h (\<lambda>i. i\<lparr>i_ino := next_ino s2\<rparr>);
               s4 = s3\<lparr>next_ino := (next_ino s2 + 1) mod 2 ^ 64\<rparr>;
               now = current_time K s4;
               s5 = upd_inode s4 h (\<lambda>i. i\<lparr>i_ctime := now, i_atime := now, i_mtime := now\<rparr>);
               s6 = upd_inode s5 h (\<lambda>i. i\<lparr>i_blocks := 0\<rparr>);
               s7 = upd_inode s6 h (\<lambda>i. i\<lparr>i_hashed := True\<rparr>)
           in (mark_inode_dirty s7 h, Inr h)))"

section \<open>In-core inodes\<close>

definition gbfs_set_inode :: "'d gstate \<Rightarrow> nat \<Rightarrow> u32 \<Rightarrow> 'd gstate" where
  "gbfs_set_inode s h rdev =
     (let m = i_mode (inodes s h) in
      if S_ISREG m then upd_inode s h (\<lambda>i. i\<lparr>i_ops := FileOps\<rparr>)
      else if S_ISDIR m then upd_inode s h (\<lambda>i. i\<lparr>i_ops := DirOps\<rparr>)
      else if S_ISLNK m then upd_inode s h (\<lambda>i. i\<lparr>i_ops := SymlinkOps\<rparr>)
      else upd_inode s h (\<lambda>i. i\<lparr>i_ops := SpecialOps rdev\<rparr>))"

definition load_raw :: "gbfs_inode \<Rightarrow> inode \<Rightarrow> inode" where
  "load_raw r i = i\<lparr>i_mode := ri_mode r, i_uid := ucast (ri_uid r), i_gid := ucast (ri_gid r),
     i_nlink := ucast (ri_nlinks r), i_size := unat (ri_size r),
     i_mtime := (int (unat (ri_mtime r)), 0), i_atime := (int (unat (ri_atime r)), 0),
     i_ctime := (int (unat (ri_ctime r)), 0), i_blocks := 0\<rparr>"

datatype 'a ptr = Ptr 'a | ErrPtr errno | PtrBug

definition gbfs_iget_new :: "'d kernel \<Rightarrow> 'd gstate \<Rightarrow> nat \<Rightarrow> 'd gstate \<times> nat ptr" where
  "gbfs_iget_new K s h =
     (case gbfs_raw_inode K s (i_ino (inodes s h)) of
        RawNull \<Rightarrow> (iget_failed K s h, ErrPtr EIO)
      | RawBug \<Rightarrow> (s, PtrBug)
      | Raw r \<Rightarrow>
          (let s1 = upd_inode s h (load_raw r);
               s2 = gbfs_set_inode s1 h 0;
               s3 = upd_inode s2 h (\<lambda>i. i\<lparr>i_new := False\<rparr>)
           in (s3, Ptr h)))"

definition gbfs_iget :: "'d kernel \<Rightarrow> 'd gstate \<Rightarrow> nat \<Rightarrow> 'd gstate \<times> nat ptr" where
  "gbfs_iget K s ino =
     (case iget_locked K s ino of
        (s1, None) \<Rightarrow> (s1, ErrPtr ENOMEM)
      | (s1, Some h) \<Rightarrow>
          if \<not> i_new (inodes s1 h) then (s1, Ptr h) else gbfs_iget_new K s1 h)"

definition store_raw :: "'d kernel \<Rightarrow> inode \<Rightarrow> gbfs_inode \<Rightarrow> gbfs_inode" where
  "store_raw K i r = r\<lparr>ri_mode := i_mode i, ri_uid := fs_high2lowid K (i_uid i),
     ri_gid := fs_high2lowid K (i_gid i), ri_nlinks := ucast (i_nlink i),
     ri_size := word_of_nat (i_size i), ri_mtime := word_of_int (fst (i_mtime i)),
     ri_atime := word_of_int (fst (i_atime i)), ri_ctime := word_of_int (fst (i_ctime i))\<rparr>"

definition gbfs_write_inode :: "'d kernel \<Rightarrow> 'd gstate \<Rightarrow> nat \<Rightarrow> 'd gstate \<times> rc" where
  "gbfs_write_inode K s h =
     (case gbfs_raw_inode K s (i_ino (inodes s h)) of
        RawNull \<Rightarrow> (s, Err EIO)
      | RawBug \<Rightarrow> (s, Bug)
      | Raw r \<Rightarrow> gbfs_update_inode K s h (store_raw K (inodes s h) r))"

definition gbfs_evict_inode :: "'d kernel \<Rightarrow> 'd gstate \<Rightarrow> nat \<Rightarrow> 'd gstate \<times> rc" where
  "gbfs_evict_inode K s h =
     (let s1 = truncate_inode_pages_final K s h;
          s2 = (if i_nlink (inodes s1 h) = 0
                then upd_inode s1 h (\<lambda>i. i\<lparr>i_size := 0\<rparr>) else s1);
          s3 = upd_inode s2 h (\<lambda>i. i\<lparr>i_hashed := False\<rparr>)
      in if i_nlink (inodes s3 h) = 0 then gbfs_free_inode K s3 h else (s3, Ok))"

record kstat =
  st_size :: nat
  st_blocks :: nat
  st_blksize :: nat

definition gbfs_getattr :: "'d gstate \<Rightarrow> nat \<Rightarrow> nat \<Rightarrow> kstat" where
  "gbfs_getattr s blocksize h =
     (let size = i_size (inodes s h)
      in \<lparr>st_size = size, st_blocks = blocksize div 512 * size div PAGE_SIZE,
          st_blksize = blocksize\<rparr>)"

section \<open>Pages\<close>

definition page_offset :: "nat \<Rightarrow> nat" where
  "page_offset n = n * PAGE_SIZE mod 2 ^ 64"

definition gbfs_writepage :: "'d kernel \<Rightarrow> 'd gstate \<Rightarrow> nat \<Rightarrow> nat \<Rightarrow> 'd gstate \<times> rc" where
  "gbfs_writepage K s h n =
     (let key = gbfs_data_key (i_ino (inodes s h)) (page_offset n);
          s1 = upd_page s h n (\<lambda>p. p\<lparr>p_kmap := p_kmap p + 1\<rparr>);
          s2 = upd_page s1 h n (\<lambda>p. p\<lparr>p_writeback := True\<rparr>)
      in case db_put K (kdb s2) key (p_data (page_of s2 h n)) of
           (d, err) \<Rightarrow>
             (let s3 = upd_page (s2\<lparr>kdb := d\<rparr>) h n (\<lambda>p. p\<lparr>p_writeback := False\<rparr>);
                  s4 = unlock_page s3 h n;
                  s5 = upd_page s4 h n (\<lambda>p. p\<lparr>p_kmap := p_kmap p - 1\<rparr>)
              in (s5, rc_of_db err)))"

text \<open>
  \<open>gbfs_readpage\<close> copies \<open>PAGE_SIZE\<close> bytes without looking at the size of the record; a
  shorter record would be read past its end.
\<close>

definition gbfs_readpage :: "'d kernel \<Rightarrow> 'd gstate \<Rightarrow> nat \<Rightarrow> nat \<Rightarrow> 'd gstate \<times> rc" where
  "gbfs_readpage K s h n =
     (let key = gbfs_data_key (i_ino (inodes s h)) (page_offset n);
          s1 = upd_page s h n (\<lambda>p. p\<lparr>p_kmap := p_kmap p + 1\<rparr>);
          fin = (\<lambda>t. upd_page (unlock_page t h n) h n (\<lambda>p. p\<lparr>p_kmap := p_kmap p - 1\<rparr>))
      in case db_get K (kdb s1) key of
           Inr v \<Rightarrow>
             (if length v < PAGE_SIZE then (s1, Bug)
              else (fin (upd_page s1 h n
                      (\<lambda>p. p\<lparr>p_data := take PAGE_SIZE v, p_uptodate := True\<rparr>)), Ok))
         | Inl err \<Rightarrow>
             (if err = DB_NOTFOUND
              then (fin (upd_page s1 h n
                      (\<lambda>p. p\<lparr>p_data := replicate PAGE_SIZE 0, p_uptodate := True\<rparr>)), Ok)
              else (fin s1, Err EIO)))"

end
