(* ===== verification/Gbfs_Namei.thy ===== *)
theory Gbfs_Namei
  imports Gbfs_Dir Gbfs_Inode
begin

text \<open>
  The inode operations \<open>src/fs/namei.c\<close> and \<open>src/fs/file.c\<close>: lookup, creation, links,
  directories, removal, renaming and attribute changes.  Each operation is one definition
  with the early returns and the cleanup labels of the C function; the result is the new
  state, the return code and, where the code instantiates it, the dentry.
\<close>

definition d_instantiate :: "dentry \<Rightarrow> nat \<Rightarrow> dentry" where
  "d_instantiate de h = de\<lparr>d_inode := Some h\<rparr>"

definition add_nondir :: "'d kernel \<Rightarrow> 'd gstate \<Rightarrow> dentry \<Rightarrow> nat \<Rightarrow> 'd gstate \<times> rc \<times> dentry" where
  "add_nondir K s de h =
     (case gbfs_add_link K s de h of
        (s1, Ok) \<Rightarrow> (s1, Ok, d_instantiate de h)
      | (s1, Err e) \<Rightarrow> (iput K (inode_dec_link_count s1 h) h, Err e, de)
      | (s1, Bug) \<Rightarrow> (s1, Bug, de))"

definition gbfs_lookup :: "'d kernel \<Rightarrow> 'd gstate \<Rightarrow> dentry \<Rightarrow> 'd gstate \<times> rc \<times> dentry" where
  "gbfs_lookup K s de =
     (if s_namelen (sbi s) < length (d_name de) then (s, Err ENAMETOOLONG, de)
      else case gbfs_inode_by_name K s de of
        (s1, ino) \<Rightarrow>
          if ino \<noteq> 0 then
            (case gbfs_iget K s1 ino of
               (s2, ErrPtr e) \<Rightarrow> (s2, Err e, de)
             | (s2, PtrBug) \<Rightarrow> (s2, Bug, de)
             | (s2, Ptr h) \<Rightarrow> (s2, Ok, de\<lparr>d_inode := Some h\<rparr>))
          else (s1, Ok, de\<lparr>d_inode := None\<rparr>))"

definition gbfs_mknod ::
    "'d kernel \<Rightarrow> 'd gstate \<Rightarrow> nat \<Rightarrow> dentry \<Rightarrow> u16 \<Rightarrow> u32 \<Rightarrow> 'd gstate \<times> rc \<times> dentry" where
  "gbfs_mknod K s dir de mode rdev =
     (if \<not> old_valid_dev K rdev then (s, Err EINVAL, de)
      else case gbfs_new_inode K s dir mode of
        (s1, Inl e) \<Rightarrow> (s1, Err e, de)
      | (s1, Inr h) \<Rightarrow> add_nondir K (mark_inode_dirty (gbfs_set_inode s1 h rdev) h) de h)"

definition gbfs_tmpfile ::
    "'d kernel \<Rightarrow> 'd gstate \<Rightarrow> nat \<Rightarrow> dentry \<Rightarrow> u16 \<Rightarrow> 'd gstate \<times> rc \<times> dentry" where
  "gbfs_tmpfile K s dir de mode =
     (case gbfs_new_inode K s dir mode of
        (s1, Inl e) \<Rightarrow> (s1, Err e, de)
      | (s1, Inr h) \<Rightarrow>
          (case d_tmpfile K (mark_inode_dirty (gbfs_set_inode s1 h 0) h) de h of
             (s2, de') \<Rightarrow> (s2, Ok, de')))"

definition gbfs_create ::
    "'d kernel \<Rightarrow> 'd gstate \<Rightarrow> nat \<Rightarrow> dentry \<Rightarrow> u16 \<Rightarrow> 'd gstate \<times> rc \<times> dentry" where
  "gbfs_create K s dir de mode = gbfs_mknod K s dir de mode 0"

definition gbfs_symlink ::
    "'d kernel \<Rightarrow> 'd gstate \<Rightarrow> nat \<Rightarrow> dentry \<Rightarrow> byte list \<Rightarrow> 'd gstate \<times> rc \<times> dentry" where
  "gbfs_symlink K s dir de symname =
     (let i = length symname + 1 in
      if sb_blocksize s < i then (s, Err ENAMETOOLONG, de)
      else case gbfs_new_inode K s dir (S_IFLNK OR 0x1FF) of
        (s1, Inl e) \<Rightarrow> (s1, Err e, de)
      | (s1, Inr h) \<Rightarrow>
          (case page_symlink K (gbfs_set_inode s1 h 0) h (symname @ [0]) of
             (s2, Ok) \<Rightarrow> add_nondir K s2 de h
           | (s2, Err e) \<Rightarrow> (iput K (inode_dec_link_count s2 h) h, Err e, de)
           | (s2, Bug) \<Rightarrow> (s2, Bug, de)))"

definition gbfs_link :: "'d kernel \<Rightarrow> 'd gstate \<Rightarrow> nat \<Rightarrow> dentry \<Rightarrow> 'd gstate \<times> rc \<times> dentry" where
  "gbfs_link K s h de =
     (let now = current_time K s;
          s1 = upd_inode s h (\<lambda>i. i\<lparr>i_ctime := now\<rparr>);
          s2 = inode_inc_link_count s1 h;
          s3 = ihold s2 h
      in add_nondir K s3 de h)"

text \<open>The cleanup of \<open>gbfs_mkdir\<close> at the labels \<open>out_fail\<close> and \<open>out_dir\<close>.\<close>

definition mkdir_out_fail :: "'d kernel \<Rightarrow> 'd gstate \<Rightarrow> nat \<Rightarrow> nat \<Rightarrow> 'd gstate" where
  "mkdir_out_fail K s h dir =
     (let s1 = inode_dec_link_count s h;
          s2 = inode_dec_link_count s1 h;
          s3 = iput K s2 h
      in inode_dec_link_count s3 dir)"

definition gbfs_mkdir ::
    "'d kernel \<Rightarrow> 'd gstate \<Rightarrow> nat \<Rightarrow> dentry \<Rightarrow> u16 \<Rightarrow> 'd gstate \<times> rc \<times> dentry" where
  "gbfs_mkdir K s dir de mode =
     (let s0 = inode_inc_link_count s dir in
      case gbfs_new_inode K s0 dir (S_IFDIR OR mode) of
        (s1, Inl e) \<Rightarrow> (inode_dec_link_count s1 dir, Err e, de)
      | (s1, Inr h) \<Rightarrow>
          (let s2 = gbfs_set_inode s1 h 0;
               s3 = inode_inc_link_count s2 h
           in case gbfs_make_empty K s3 h dir of
                (s4, Ok) \<Rightarrow>
                  (case gbfs_add_link K s4 de h of
                     (s5, Ok) \<Rightarrow> (s5, Ok, d_instantiate de h)
                   | (s5, Err e) \<Rightarrow> (mkdir_out_fail K s5 h dir, Err e, de)
                   | (s5, Bug) \<Rightarrow> (s5, Bug, de))
              | (s4, Err e) \<Rightarrow> (mkdir_out_fail K s4 h dir, Err e, de)
              | (s4, Bug) \<Rightarrow> (s4, Bug, de)))"

definition gbfs_unlink :: "'d kernel \<Rightarrow> 'd gstate \<Rightarrow> nat \<Rightarrow> dentry \<Rightarrow> nat \<Rightarrow> 'd gstate \<times> rc" where
  "gbfs_unlink K s dir de h =
     (case gbfs_find_entry K s de of
        (s1, None) \<Rightarrow> (s1, Err ENOENT)
      | (s1, Some np) \<Rightarrow>
          (case gbfs_delete_entry K s1 (d_parent de) np of
             (s2, Ok) \<Rightarrow>
               (let s3 = upd_inode s2 h (\<lambda>i. i\<lparr>i_ctime := i_ctime (inodes s2 dir)\<rparr>)
                in (inode_dec_link_count s3 h, Ok))
           | (s2, err) \<Rightarrow> (s2, err)))"

definition gbfs_rmdir :: "'d kernel \<Rightarrow> 'd gstate \<Rightarrow> nat \<Rightarrow> dentry \<Rightarrow> nat \<Rightarrow> 'd gstate \<times> rc" where
  "gbfs_rmdir K s dir de h =
     (case gbfs_empty_dir K s h of
        (s1, False) \<Rightarrow> (s1, Err ENOTEMPTY)
      | (s1, True) \<Rightarrow>
          (case gbfs_unlink K s1 dir de h of
             (s2, Ok) \<Rightarrow> (inode_dec_link_count (inode_dec_link_count s2 dir) h, Ok)
           | (s2, err) \<Rightarrow> (s2, err)))"

section \<open>Rename\<close>

text \<open>The release of the pages at the labels \<open>out_dir\<close> and \<open>out_old\<close>.\<close>

definition rename_out_dir ::
    "'d gstate \<Rightarrow> nat \<Rightarrow> (nat \<times> nat) option \<Rightarrow> nat \<Rightarrow> nat \<times> nat \<Rightarrow> 'd gstate" where
  "rename_out_dir s old_inode dir_de old_dir old_de =
     (let s1 = (case dir_de of None \<Rightarrow> s | Some (n, p) \<Rightarrow> dir_put_page s old_inode n)
      in dir_put_page s1 old_dir (fst old_de))"

text \<open>The part after the target is in place: remove the old entry, redirect \<open>..\<close>.\<close>

definition rename_finish ::
    "'d kernel \<Rightarrow> 'd gstate \<Rightarrow> nat \<Rightarrow> nat \<Rightarrow> (nat \<times> nat) option \<Rightarrow> nat \<Rightarrow> nat \<times> nat \<Rightarrow> 'd gstate" where
  "rename_finish K s old_inode new_dir dir_de old_dir old_de =
     (let s1 = fst (gbfs_delete_entry K s old_dir old_de);
          s2 = mark_inode_dirty s1 old_inode
      in case dir_de of
           None \<Rightarrow> s2
         | Some dd \<Rightarrow> inode_dec_link_count (gbfs_set_link K s2 old_inode dd new_dir) old_dir)"

definition rename_target ::
    "'d kernel \<Rightarrow> 'd gstate \<Rightarrow> nat \<Rightarrow> nat \<Rightarrow> dentry \<Rightarrow> (nat \<times> nat) option \<Rightarrow> 'd gstate \<times> rc" where
  "rename_target K s old_inode new_dir new_de dir_de =
     (case d_inode new_de of
        Some target \<Rightarrow>
          (case (if dir_de \<noteq> None then gbfs_empty_dir K s target else (s, True)) of
             (s1, False) \<Rightarrow> (s1, Err ENOTEMPTY)
           | (s1, True) \<Rightarrow>
               (case gbfs_find_entry K s1 new_de of
                  (s2, None) \<Rightarrow> (s2, Err ENOENT)
                | (s2, Some nd) \<Rightarrow>
                    (let s3 = gbfs_set_link K s2 (d_parent new_de) nd old_inode;
                         now = current_time K s3;
                         s4 = upd_inode s3 target (\<lambda>i. i\<lparr>i_ctime := now\<rparr>);
                         s5 = (if dir_de \<noteq> None then drop_nlink s4 target else s4)
                     in (inode_dec_link_count s5 target, Ok))))
      | None \<Rightarrow>
          (case gbfs_add_link K s new_de old_inode of
             (s1, Ok) \<Rightarrow> (if dir_de \<noteq> None then inode_inc_link_count s1 new_dir else s1, Ok)
           | (s1, err) \<Rightarrow> (s1, err)))"

definition gbfs_rename ::
    "'d kernel \<Rightarrow> 'd gstate \<Rightarrow> nat \<Rightarrow> dentry \<Rightarrow> nat \<Rightarrow> nat \<Rightarrow> dentry \<Rightarrow> u32 \<Rightarrow> 'd gstate \<times> rc" where
  "gbfs_rename K s old_dir old_de old_inode new_dir new_de flags =
     (if flags AND NOT 1 \<noteq> 0 then (s, Err EINVAL)
      else case gbfs_find_entry K s old_de of
        (s1, None) \<Rightarrow> (s1, Err ENOENT)
      | (s1, Some od) \<Rightarrow>
          (case (if S_ISDIR (i_mode (inodes s1 old_inode))
                 then (case gbfs_dotdot K s1 old_inode of
                         (s2, None) \<Rightarrow> (s2, None) | (s2, Some dd) \<Rightarrow> (s2, Some (Some dd)))
                 else (s1, Some None)) of
             (s2, None) \<Rightarrow> (dir_put_page s2 (d_parent old_de) (fst od), Err EIO)
           | (s2, Some dir_de) \<Rightarrow>
               (case rename_target K s2 old_inode new_dir new_de dir_de of
                  (s3, Ok) \<Rightarrow>
                    (rename_finish K s3 old_inode new_dir dir_de (d_parent old_de) od, Ok)
                | (s3, Err e) \<Rightarrow>
                    (rename_out_dir s3 old_inode dir_de (d_parent old_de) od, Err e)
                | (s3, Bug) \<Rightarrow> (s3, Bug))))"

section \<open>Attribute changes\<close>

definition ATTR_SIZE :: u32 where "ATTR_SIZE = 8"

definition gbfs_setattr :: "'d kernel \<Rightarrow> 'd gstate \<Rightarrow> nat \<Rightarrow> iattr \<Rightarrow> 'd gstate \<times> rc" where
  "gbfs_setattr K s h a =
     (case setattr_prepare K s h a of
        Ok \<Rightarrow>
          (if ia_valid a AND ATTR_SIZE \<noteq> 0 \<and> ia_size a \<noteq> i_size (inodes s h) then
             (case inode_newsize_ok K s h (ia_size a) of
                Ok \<Rightarrow> (mark_inode_dirty (setattr_copy K (truncate_setsize K s h (ia_size a)) h a) h, Ok)
              | err \<Rightarrow> (s, err))
           else (mark_inode_dirty (setattr_copy K s h a) h, Ok))
      | err \<Rightarrow> (s, err))"

end
