(* ===== verification/Gbfs_Slots.thy ===== *)
theory Gbfs_Slots
  imports Prelude
begin

text \<open>
  The abstract directory: a list of slots, each an inode number (0 when the slot is free)
  and a name.  The search and the choice of a slot for a new entry are stated here on the
  list; \<open>Gbfs_Dir_Refine\<close> shows that the page walks of \<open>dir.c\<close> compute them.  The locale
  \<open>name_space\<close> is the contract that the inode operations of \<open>namei.c\<close> rest on: what a lookup
  returns after an entry was added, removed or redirected.  Slot lists with distinct live
  names provide it.
\<close>

type_synonym slot = "nat \<times> byte list"

definition live :: "slot \<Rightarrow> bool" where "live sl \<longleftrightarrow> fst sl \<noteq> 0"

fun slots_find :: "byte list \<Rightarrow> slot list \<Rightarrow> nat \<Rightarrow> nat option" where
  "slots_find nm [] i = None"
| "slots_find nm (sl # sls) i =
     (if live sl \<and> snd sl = nm then Some i else slots_find nm sls (Suc i))"

text \<open>The first free slot before an entry of the same name, the end, or the conflict.\<close>

datatype slot_pos = SAt nat | SExists

fun slots_scan :: "byte list \<Rightarrow> slot list \<Rightarrow> nat \<Rightarrow> slot_pos" where
  "slots_scan nm [] i = SAt i"
| "slots_scan nm (sl # sls) i =
     (if \<not> live sl then SAt i
      else if snd sl = nm then SExists
      else slots_scan nm sls (Suc i))"

definition slots_put :: "nat \<Rightarrow> slot \<Rightarrow> slot list \<Rightarrow> slot list" where
  "slots_put i sl sls = (if i < length sls then sls[i := sl] else sls @ [sl])"

definition live_names :: "slot list \<Rightarrow> byte list list" where
  "live_names sls = map snd (filter live sls)"

definition slots_map :: "slot list \<Rightarrow> byte list \<Rightarrow> nat option" where
  "slots_map sls = map_of (map (\<lambda>sl. (snd sl, fst sl)) (filter live sls))"

definition slots_distinct :: "slot list \<Rightarrow> bool" where
  "slots_distinct sls \<longleftrightarrow> distinct (live_names sls)"

lemma slots_find_append:
  "slots_find nm (xs @ ys) i =
     (case slots_find nm xs i of Some j \<Rightarrow> Some j | None \<Rightarrow> slots_find nm ys (i + length xs))"
  by (induction xs arbitrary: i) (auto split: option.splits)

lemma slots_find_Some:
  "slots_find nm sls i = Some j \<Longrightarrow>
     i \<le> j \<and> j < i + length sls \<and> live (sls ! (j - i)) \<and> snd (sls ! (j - i)) = nm"
proof (induction sls arbitrary: i)
  case (Cons sl sls)
  show ?case
  proof (cases "live sl \<and> snd sl = nm")
    case True
    with Cons.prems show ?thesis by auto
  next
    case False
    with Cons.prems have "slots_find nm sls (Suc i) = Some j" by auto
    from Cons.IH [OF this] show ?thesis
      by (auto simp: nth_Cons' Suc_diff_Suc)
  qed
qed simp

lemma slots_find_None:
  "slots_find nm sls i = None \<longleftrightarrow> (\<forall>sl \<in> set sls. live sl \<longrightarrow> snd sl \<noteq> nm)"
  by (induction sls arbitrary: i) auto

lemma slots_scan_append:
  "slots_scan nm (xs @ ys) i =
     (if slots_scan nm xs i = SAt (i + length xs) then slots_scan nm ys (i + length xs)
      else slots_scan nm xs i)"
proof (induction xs arbitrary: i)
  case (Cons x xs)
  have "slots_scan nm xs (Suc i) = SAt j \<Longrightarrow> Suc i \<le> j" for j
    by (induction xs arbitrary: i) (auto split: if_splits dest: Suc_leD)
  then show ?case using Cons [of "Suc i"] by auto
qed simp

lemma slots_scan_SAt:
  "slots_scan nm sls i = SAt j \<Longrightarrow>
     i \<le> j \<and> j \<le> i + length sls \<and> (j < i + length sls \<longrightarrow> \<not> live (sls ! (j - i)))
     \<and> (\<forall>k < j - i. live (sls ! k) \<and> snd (sls ! k) \<noteq> nm)"
proof (induction sls arbitrary: i)
  case (Cons sl sls)
  show ?case
  proof (cases "\<not> live sl")
    case True
    with Cons.prems show ?thesis by auto
  next
    case False
    with Cons.prems have ne: "snd sl \<noteq> nm" and r: "slots_scan nm sls (Suc i) = SAt j"
      by (auto split: if_splits)
    have IH: "Suc i \<le> j" "j \<le> Suc i + length sls"
      "j < Suc i + length sls \<longrightarrow> \<not> live (sls ! (j - Suc i))"
      "\<forall>k < j - Suc i. live (sls ! k) \<and> snd (sls ! k) \<noteq> nm"
      using Cons.IH [OF r] by auto
    have "live ((sl # sls) ! k) \<and> snd ((sl # sls) ! k) \<noteq> nm" if "k < j - i" for k
      using that IH(1,4) False ne by (cases k) auto
    moreover have "(sl # sls) ! (j - i) = sls ! (j - Suc i)"
      using IH(1) by (simp add: nth_Cons')
    ultimately show ?thesis using IH(1,2,3) by auto
  qed
qed simp

lemma slots_scan_SExists:
  "slots_scan nm sls i = SExists \<Longrightarrow> slots_find nm sls i \<noteq> None"
  by (induction sls arbitrary: i) (auto split: if_splits)

lemma slots_scan_before:
  "j < length sls \<Longrightarrow> snd (sls ! j) = nm \<Longrightarrow> \<forall>k\<le>j. live (sls ! k) \<Longrightarrow> slots_scan nm sls i = SExists"
proof (induction sls arbitrary: i j)
  case (Cons sl sls)
  have l: "live sl" using Cons.prems(3) by (metis le0 nth_Cons_0)
  show ?case
  proof (cases j)
    case (Suc j')
    then have "\<forall>k\<le>j'. live (sls ! k)" using Cons.prems(3) by (metis Suc_le_mono nth_Cons_Suc)
    then show ?thesis using Cons.IH [of j' "Suc i"] Cons.prems Suc l by simp
  qed (use Cons.prems l in simp)
qed simp

lemma slots_scan_absent:
  "slots_find nm sls 0 = None \<Longrightarrow> \<exists>i \<le> length sls. slots_scan nm sls 0 = SAt i"
proof (cases "slots_scan nm sls 0")
  case (SAt i)
  then show ?thesis using slots_scan_SAt [of nm sls 0 i] by auto
next
  case SExists
  assume "slots_find nm sls 0 = None"
  with slots_scan_SExists [OF SExists] show ?thesis by simp
qed

subsection \<open>Slots as a map from names to inode numbers\<close>

lemma slots_map_find:
  "slots_map sls nm = map_option (\<lambda>j. fst (sls ! (j - i))) (slots_find nm sls i)"
proof (induction sls arbitrary: i)
  case (Cons sl sls)
  show ?case
  proof (cases "live sl \<and> snd sl = nm")
    case True
    then show ?thesis by (simp add: slots_map_def)
  next
    case False
    then have "slots_map (sl # sls) nm = slots_map sls nm" by (auto simp: slots_map_def)
    also have "\<dots> = map_option (\<lambda>j. fst (sls ! (j - Suc i))) (slots_find nm sls (Suc i))"
      by (rule Cons)
    also have "\<dots> = map_option (\<lambda>j. fst ((sl # sls) ! (j - i))) (slots_find nm sls (Suc i))"
      using slots_find_Some [of nm sls "Suc i"]
      by (cases "slots_find nm sls (Suc i)") (auto simp: nth_Cons')
    finally show ?thesis using False by auto
  qed
qed (simp add: slots_map_def)

lemma live_names_simps [simp]:
  "live_names [] = []"
  "live_names (sl # sls) = (if live sl then snd sl # live_names sls else live_names sls)"
  "live_names (xs @ ys) = live_names xs @ live_names ys"
  by (simp_all add: live_names_def)

lemma live_names_parts:
  assumes "i < length sls"
  shows "live_names sls = live_names (take i sls) @ live_names [sls ! i] @ live_names (drop (Suc i) sls)"
  by (subst id_take_nth_drop [OF assms]) simp

lemma live_names_set: "nm \<in> set (live_names sls) \<longleftrightarrow> slots_map sls nm \<noteq> None"
  by (auto simp: live_names_def slots_map_def map_of_eq_None_iff image_iff)

lemma slots_map_append: "slots_map (xs @ ys) = slots_map ys ++ slots_map xs"
  by (simp add: slots_map_def)

lemma slots_map_single: "slots_map [sl] = (if live sl then [snd sl \<mapsto> fst sl] else Map.empty)"
  by (simp add: slots_map_def)

lemma slots_map_none: "nm \<notin> set (live_names sls) \<Longrightarrow> slots_map sls nm = None"
  by (simp add: live_names_set)

lemma slots_twice:
  assumes "i < j" "j < length sls" "live sl" "snd sl = nm" "live (sls ! j)" "snd (sls ! j) = nm"
  shows "\<not> slots_distinct (sls[i := sl])"
proof -
  let ?a = "sls[i := sl]"
  have "nm \<in> set (live_names (take (Suc i) ?a))" "nm \<in> set (live_names (drop (Suc i) ?a))"
  proof -
    have "sl \<in> set (take (Suc i) ?a)" using assms(1,2) by (auto simp: in_set_conv_nth intro!: exI [of _ i])
    then show "nm \<in> set (live_names (take (Suc i) ?a))" using assms(3,4) by (force simp: live_names_def)
    have "sls ! j \<in> set (drop (Suc i) ?a)" using assms(1,2) by (auto simp: in_set_conv_nth intro!: exI [of _ "j - Suc i"])
    then show "nm \<in> set (live_names (drop (Suc i) ?a))" using assms(5,6) by (force simp: live_names_def)
  qed
  moreover have "live_names ?a = live_names (take (Suc i) ?a) @ live_names (drop (Suc i) ?a)"
    by (metis append_take_drop_id live_names_simps(3))
  ultimately show ?thesis unfolding slots_distinct_def by auto
qed

text \<open>Replacing one slot, with the names of the other live slots apart from the new one.\<close>

lemma slots_put_split:
  assumes "slots_distinct (xs @ sl # ys)" and "ino \<noteq> 0"
    and "nm \<notin> set (live_names xs)" "nm \<notin> set (live_names ys)" "live sl \<Longrightarrow> snd sl = nm"
  shows "slots_distinct (xs @ (ino, nm) # ys)"
    and "slots_map (xs @ (ino, nm) # ys) = (slots_map (xs @ sl # ys))(nm \<mapsto> ino)"
proof -
  show "slots_distinct (xs @ (ino, nm) # ys)"
    using assms by (auto simp: slots_distinct_def live_def split: if_splits)
  have m: "slots_map (xs @ z # ys) = (slots_map ys ++ slots_map [z]) ++ slots_map xs" for z
    using slots_map_append [of xs "z # ys"] slots_map_append [of "[z]" ys] by simp
  show "slots_map (xs @ (ino, nm) # ys) = (slots_map (xs @ sl # ys))(nm \<mapsto> ino)"
    using assms(2,5) slots_map_none [OF assms(3)] slots_map_none [OF assms(4)]
    by (auto simp: m slots_map_single map_add_def fun_eq_iff live_def split: option.splits)
qed

lemma slots_put_fresh:
  assumes "slots_distinct sls" and "ino \<noteq> 0" and "i \<le> length sls"
    and "slots_map sls nm = None" and "i < length sls \<Longrightarrow> \<not> live (sls ! i)"
  shows "slots_distinct (slots_put i (ino, nm) sls)"
    and "slots_map (slots_put i (ino, nm) sls) = (slots_map sls)(nm \<mapsto> ino)"
proof -
  have n: "nm \<notin> set (live_names sls)" using assms(4) by (simp add: live_names_set)
  have both: "slots_distinct (slots_put i (ino, nm) sls)
      \<and> slots_map (slots_put i (ino, nm) sls) = (slots_map sls)(nm \<mapsto> ino)"
  proof (cases "i < length sls")
    case True
    let ?xs = "take i sls" and ?ys = "drop (Suc i) sls"
    have sls: "sls = ?xs @ sls ! i # ?ys" using True by (rule id_take_nth_drop)
    have put: "slots_put i (ino, nm) sls = ?xs @ (ino, nm) # ?ys"
      using True by (simp add: slots_put_def upd_conv_take_nth_drop)
    have nn: "nm \<notin> set (live_names ?xs)" "nm \<notin> set (live_names ?ys)"
      using n by (simp_all add: live_names_parts [OF True])
    have "slots_distinct (?xs @ sls ! i # ?ys)" using assms(1) sls by metis
    from slots_put_split [OF this assms(2) nn] assms(5) True sls put show ?thesis by metis
  next
    case False
    then show ?thesis using assms n
      by (auto simp: slots_put_def slots_distinct_def live_def slots_map_append
          slots_map_single map_add_def fun_eq_iff split: option.splits)
  qed
  then show "slots_distinct (slots_put i (ino, nm) sls)"
    and "slots_map (slots_put i (ino, nm) sls) = (slots_map sls)(nm \<mapsto> ino)" by blast+
qed

text \<open>Updates of the slot that a search finds: redirecting and freeing it.\<close>

lemma slots_found_parts:
  assumes "slots_distinct sls" and "slots_find nm sls 0 = Some i"
  shows "i < length sls" and "live (sls ! i)" and "snd (sls ! i) = nm"
    and "sls = take i sls @ sls ! i # drop (Suc i) sls"
    and "nm \<notin> set (live_names (take i sls))" and "nm \<notin> set (live_names (drop (Suc i) sls))"
proof -
  show i: "i < length sls" "live (sls ! i)" "snd (sls ! i) = nm"
    using slots_find_Some [OF assms(2)] by auto
  show "sls = take i sls @ sls ! i # drop (Suc i) sls" using i(1) by (rule id_take_nth_drop)
  have "distinct (live_names (take i sls) @ [nm] @ live_names (drop (Suc i) sls))"
    using assms(1) live_names_parts [OF i(1)] i(2,3)
    by (simp add: slots_distinct_def)
  then show "nm \<notin> set (live_names (take i sls))" "nm \<notin> set (live_names (drop (Suc i) sls))"
    by auto
qed

lemma slots_redirect:
  assumes "slots_distinct sls" and "slots_find nm sls 0 = Some i" and "ino \<noteq> 0"
  shows "slots_distinct (sls[i := (ino, nm)])"
    and "slots_map (sls[i := (ino, nm)]) = (slots_map sls)(nm \<mapsto> ino)"
proof -
  note p = slots_found_parts [OF assms(1,2)]
  have upd: "sls[i := (ino, nm)] = take i sls @ (ino, nm) # drop (Suc i) sls"
    using p(1) by (simp add: upd_conv_take_nth_drop)
  have d: "slots_distinct (take i sls @ sls ! i # drop (Suc i) sls)" using assms(1) p(4) by metis
  show "slots_distinct (sls[i := (ino, nm)])"
    unfolding upd using slots_put_split(1) [OF d assms(3) p(5,6)] p(3) by blast
  show "slots_map (sls[i := (ino, nm)]) = (slots_map sls)(nm \<mapsto> ino)"
    unfolding upd using slots_put_split(2) [OF d assms(3) p(5,6)] p(3,4) by metis
qed

lemma slots_clear:
  assumes "slots_distinct sls" and "slots_find nm sls 0 = Some i"
  shows "slots_distinct (sls[i := (0, m)])"
    and "slots_map (sls[i := (0, m)]) = (slots_map sls)(nm := None)"
proof -
  note p = slots_found_parts [OF assms]
  have upd: "sls[i := (0, m)] = take i sls @ (0, m) # drop (Suc i) sls"
    using p(1) by (simp add: upd_conv_take_nth_drop)
  have dead: "live_names (take i sls @ (0, m) # drop (Suc i) sls)
      = live_names (take i sls) @ live_names (drop (Suc i) sls)"
    by (simp add: live_def)
  show "slots_distinct (sls[i := (0, m)])"
    using assms(1) live_names_parts [OF p(1)] by (auto simp: slots_distinct_def upd live_def [of "(0, m)"] split: if_splits)
  have m: "slots_map (xs @ z # ys) = (slots_map ys ++ slots_map [z]) ++ slots_map xs" for xs z ys
    using slots_map_append [of xs "z # ys"] slots_map_append [of "[z]" ys] by simp
  have "slots_map sls
      = (slots_map (drop (Suc i) sls) ++ slots_map [sls ! i]) ++ slots_map (take i sls)"
    using m p(4) by metis
  then show "slots_map (sls[i := (0, m)]) = (slots_map sls)(nm := None)"
    using p(2,3) slots_map_none [OF p(5)] slots_map_none [OF p(6)]
    by (auto simp: upd m slots_map_single map_add_def fun_eq_iff live_def split: option.splits)
qed

section \<open>The contract of a name space\<close>

locale name_space =
  fixes inv :: "'s \<Rightarrow> bool"
    and lookup :: "'s \<Rightarrow> 'n \<Rightarrow> nat option"
    and insert :: "'s \<Rightarrow> 'n \<Rightarrow> nat \<Rightarrow> 's option"
    and remove :: "'s \<Rightarrow> 'n \<Rightarrow> 's option"
    and redirect :: "'s \<Rightarrow> 'n \<Rightarrow> nat \<Rightarrow> 's option"
  assumes insert_fresh: "inv s \<Longrightarrow> lookup s nm = None \<Longrightarrow> ino \<noteq> 0 \<Longrightarrow>
      \<exists>s'. insert s nm ino = Some s' \<and> inv s' \<and> lookup s' = (lookup s)(nm \<mapsto> ino)"
    and remove_bound: "inv s \<Longrightarrow> lookup s nm \<noteq> None \<Longrightarrow>
      \<exists>s'. remove s nm = Some s' \<and> inv s' \<and> lookup s' = (lookup s)(nm := None)"
    and redirect_bound: "inv s \<Longrightarrow> lookup s nm \<noteq> None \<Longrightarrow> ino \<noteq> 0 \<Longrightarrow>
      \<exists>s'. redirect s nm ino = Some s' \<and> inv s' \<and> lookup s' = (lookup s)(nm \<mapsto> ino)"
    and lookup_nonzero: "inv s \<Longrightarrow> lookup s nm = Some ino \<Longrightarrow> ino \<noteq> 0"
begin

lemma insert_remove:
  assumes "inv s" and "lookup s nm = None" and "ino \<noteq> 0"
  shows "\<exists>s1 s2. insert s nm ino = Some s1 \<and> remove s1 nm = Some s2 \<and> inv s2
    \<and> lookup s2 = lookup s"
proof -
  obtain s1 where s1: "insert s nm ino = Some s1" "inv s1" "lookup s1 = (lookup s)(nm \<mapsto> ino)"
    using insert_fresh [OF assms] by blast
  then obtain s2 where "remove s1 nm = Some s2" "inv s2" "lookup s2 = (lookup s1)(nm := None)"
    using remove_bound [of s1 nm] by auto
  with s1 assms(2) show ?thesis by (auto simp: fun_upd_idem)
qed

lemma rename_fresh:
  assumes "inv s" and "lookup s old = Some ino" and "lookup s new = None"
  shows "\<exists>s1 s2. insert s new ino = Some s1 \<and> remove s1 old = Some s2 \<and> inv s2
    \<and> lookup s2 = (lookup s)(new \<mapsto> ino, old := None)"
proof -
  have ne: "ino \<noteq> 0" using lookup_nonzero assms(1,2) by blast
  obtain s1 where s1: "insert s new ino = Some s1" "inv s1" "lookup s1 = (lookup s)(new \<mapsto> ino)"
    using insert_fresh [OF assms(1,3) ne] by blast
  have "lookup s1 old \<noteq> None" using s1(3) assms(2) by auto
  then obtain s2 where "remove s1 old = Some s2" "inv s2" "lookup s2 = (lookup s1)(old := None)"
    using remove_bound s1(2) by blast
  with s1 show ?thesis by auto
qed

lemma rename_replace:
  assumes "inv s" and "lookup s old = Some ino" and "lookup s new \<noteq> None" and "old \<noteq> new"
  shows "\<exists>s1 s2. redirect s new ino = Some s1 \<and> remove s1 old = Some s2 \<and> inv s2
    \<and> lookup s2 = (lookup s)(new \<mapsto> ino, old := None)"
proof -
  have ne: "ino \<noteq> 0" using lookup_nonzero assms(1,2) by blast
  obtain s1 where s1: "redirect s new ino = Some s1" "inv s1" "lookup s1 = (lookup s)(new \<mapsto> ino)"
    using redirect_bound [OF assms(1,3) ne] by blast
  have "lookup s1 old \<noteq> None" using s1(3) assms(2) by auto
  then obtain s2 where "remove s1 old = Some s2" "inv s2" "lookup s2 = (lookup s1)(old := None)"
    using remove_bound s1(2) by blast
  with s1 show ?thesis by auto
qed

end

definition slots_insert :: "slot list \<Rightarrow> byte list \<Rightarrow> nat \<Rightarrow> slot list option" where
  "slots_insert sls nm ino =
     (case slots_scan nm sls 0 of SExists \<Rightarrow> None | SAt i \<Rightarrow> Some (slots_put i (ino, nm) sls))"

definition slots_remove :: "slot list \<Rightarrow> byte list \<Rightarrow> slot list option" where
  "slots_remove sls nm = map_option (\<lambda>i. sls[i := (0, nm)]) (slots_find nm sls 0)"

definition slots_redirect_to :: "slot list \<Rightarrow> byte list \<Rightarrow> nat \<Rightarrow> slot list option" where
  "slots_redirect_to sls nm ino = map_option (\<lambda>i. sls[i := (ino, nm)]) (slots_find nm sls 0)"

lemma slots_map_None_find: "slots_map sls nm = None \<longleftrightarrow> slots_find nm sls 0 = None"
  by (simp add: slots_map_find [of sls nm 0])

interpretation slots: name_space slots_distinct slots_map slots_insert slots_remove slots_redirect_to
proof (unfold_locales, goal_cases)
  case (1 s nm ino)
  then obtain i where "i \<le> length s" and i: "slots_scan nm s 0 = SAt i"
    using slots_scan_absent by (auto simp: slots_map_None_find)
  then show ?case using slots_put_fresh [of s ino i nm] slots_scan_SAt [OF i] 1
    by (auto simp: slots_insert_def)
next
  case (2 s nm)
  then obtain i where "slots_find nm s 0 = Some i" by (auto simp: slots_map_None_find)
  then show ?case using slots_clear [OF 2(1), of nm i nm] by (auto simp: slots_remove_def)
next
  case (3 s nm ino)
  then obtain i where "slots_find nm s 0 = Some i" by (auto simp: slots_map_None_find)
  then show ?case using slots_redirect [OF 3(1), of nm i ino] 3(3)
    by (auto simp: slots_redirect_to_def)
next
  case (4 s nm ino)
  then obtain i where "slots_find nm s 0 = Some i" "ino = fst (s ! i)"
    by (auto simp: slots_map_find [of s nm 0])
  then show ?case using slots_find_Some [of nm s 0 i] by (auto simp: live_def)
qed

text \<open>A live slot of a list with distinct names is the one that the search finds.\<close>

lemma slots_find_unique:
  assumes "slots_distinct sls" "i < length sls" "live (sls ! i)" "snd (sls ! i) = nm"
  shows "slots_find nm sls 0 = Some i"
proof -
  have "sls = take i sls @ sls ! i # drop (Suc i) sls" using assms(2) by (rule id_take_nth_drop)
  moreover have "nm \<notin> set (live_names (take i sls))"
    using assms live_names_parts [OF assms(2)] by (auto simp: slots_distinct_def)
  then have "slots_find nm (take i sls) 0 = None"
    by (auto simp: slots_find_None live_names_def)
  moreover have "slots_find nm (sls ! i # drop (Suc i) sls) (length (take i sls)) = Some i"
    using assms by simp
  ultimately show ?thesis
    using slots_find_append [of nm "take i sls" "sls ! i # drop (Suc i) sls" 0] by simp
qed

lemma slots_insert_scan:
  "slots_scan nm sls 0 = SAt i \<Longrightarrow> slots_insert sls nm ino = Some (slots_put i (ino, nm) sls)"
  by (simp add: slots_insert_def)

lemma slots_put_other:
  assumes "slots_scan nm sls 0 = SAt j" "i < length sls" "live (sls ! i)"
  shows "slots_put j sl sls ! i = sls ! i" "i < length (slots_put j sl sls)"
  using assms slots_scan_SAt [OF assms(1)] by (auto simp: slots_put_def nth_append nth_list_update)

end
