(* ===== verification/Gbfs_Dir_Refine.thy ===== *)
theory Gbfs_Dir_Refine
  imports Gbfs_Dir Gbfs_Slots
begin

text \<open>
  Refinement of \<open>dir.c\<close> to the slot lists of \<open>Gbfs_Slots\<close>: the abstraction \<open>dir_slots\<close>
  reads a directory's cached pages, \<open>dir_ok\<close> is the well-formedness the operations keep,
  \<open>cache_ok\<close> and \<open>fill_ok\<close> name the documented behaviour of the page cache that the code
  relies on.  Then one group of lemmas per operation: search, insertion, deletion,
  redirection, the emptiness test and \<open>readdir\<close>.
\<close>

section \<open>Abstraction and well-formedness\<close>

definition page_slot :: "byte list \<Rightarrow> nat \<Rightarrow> slot" where
  "page_slot pg i = (de_inode pg (i * 64), takeWhile (\<lambda>c. c \<noteq> 0) (take 60 (de_name pg (i * 64))))"

definition dir_slot :: "'d gstate \<Rightarrow> nat \<Rightarrow> nat \<Rightarrow> slot" where
  "dir_slot s d i = page_slot (p_data (page_of s d (i div 64))) (i mod 64)"

definition nslots :: "'d gstate \<Rightarrow> nat \<Rightarrow> nat" where
  "nslots s d = i_size (inodes s d) div 64"

definition dir_slots :: "'d gstate \<Rightarrow> nat \<Rightarrow> slot list" where
  "dir_slots s d = map (dir_slot s d) [0..<nslots s d]"

definition sb_ok :: "'d gstate \<Rightarrow> bool" where
  "sb_ok s \<longleftrightarrow> s_dirsize (sbi s) = 64 \<and> s_namelen (sbi s) = 60"

definition page_ok :: "'d gstate \<Rightarrow> nat \<Rightarrow> nat \<Rightarrow> bool" where
  "page_ok s d n \<longleftrightarrow> (\<exists>pg. pcache s (d, n) = Some pg \<and> p_uptodate pg \<and> \<not> p_locked pg
     \<and> length (p_data pg) = PAGE_SIZE)"

definition dir_ok :: "'d gstate \<Rightarrow> nat \<Rightarrow> bool" where
  "dir_ok s d \<longleftrightarrow> sb_ok s \<and> 64 dvd i_size (inodes s d) \<and> (\<forall>n < dir_pages (inodes s d). page_ok s d n)"

definition valid_name :: "byte list \<Rightarrow> bool" where
  "valid_name nm \<longleftrightarrow> length nm \<le> 60 \<and> 0 \<notin> set nm"

text \<open>A page reference taken and mapped, as \<open>dir_get_page\<close> leaves it.\<close>

definition hold :: "'d gstate \<Rightarrow> nat \<Rightarrow> nat \<Rightarrow> 'd gstate" where
  "hold s d n = upd_page s d n (\<lambda>p. p\<lparr>p_ref := p_ref p + 1, p_kmap := p_kmap p + 1\<rparr>)"

text \<open>
  The page cache: an uptodate cached page is returned with a reference taken; a page that
  is not cached is read in, or the read fails.
\<close>

definition cache_ok :: "'d kernel \<Rightarrow> bool" where
  "cache_ok K \<longleftrightarrow> (\<forall>s h n pg. pcache s (h, n) = Some pg \<and> p_uptodate pg \<longrightarrow>
     read_mapping_page K s h n = (upd_page s h n (\<lambda>p. p\<lparr>p_ref := p_ref p + 1\<rparr>), None))"

definition fill_ok :: "'d kernel \<Rightarrow> bool" where
  "fill_ok K \<longleftrightarrow> (\<forall>s h n. pcache s (h, n) = None \<longrightarrow>
     (\<exists>e. read_mapping_page K s h n = (s, Some e)) \<or>
     (\<exists>data. length data = PAGE_SIZE \<and> read_mapping_page K s h n =
        (upd_page s h n (\<lambda>p. blank_page\<lparr>p_data := data, p_uptodate := True, p_ref := 1\<rparr>), None)))"

lemma page_okD:
  assumes "page_ok s d n"
  shows "pcache s (d, n) = Some (page_of s d n)" "p_uptodate (page_of s d n)"
    "\<not> p_locked (page_of s d n)" "length (p_data (page_of s d n)) = PAGE_SIZE"
  using assms by (auto simp: page_ok_def page_of_def)

lemma dir_okD:
  assumes "dir_ok s d"
  shows "sb_ok s" "s_dirsize (sbi s) = 64" "s_namelen (sbi s) = 60"
    "i_size (inodes s d) = nslots s d * 64"
    "n < dir_pages (inodes s d) \<Longrightarrow> page_ok s d n"
  using assms by (auto simp: dir_ok_def sb_ok_def nslots_def)

lemma length_dir_slots [simp]: "length (dir_slots s d) = nslots s d"
  by (simp add: dir_slots_def)

lemma nth_dir_slots [simp]: "i < nslots s d \<Longrightarrow> dir_slots s d ! i = dir_slot s d i"
  by (simp add: dir_slots_def)

text \<open>Sizes in slots: pages of a directory and valid slots of a page.\<close>

definition page_nslots :: "'d gstate \<Rightarrow> nat \<Rightarrow> nat \<Rightarrow> nat" where
  "page_nslots s d n = (if n = nslots s d div 64 then nslots s d mod 64 else 64)"

lemma dir_pages_slots: "dir_ok s d \<Longrightarrow> dir_pages (inodes s d) = (nslots s d + 63) div 64"
  using dir_okD(4) [of s d] by (simp add: dir_pages_def)

lemma last_byte_slots: "dir_ok s d \<Longrightarrow> gbfs_last_byte (inodes s d) n = page_nslots s d n * 64"
  using dir_okD(4) [of s d] mod_mult_mult2 [of "nslots s d" 64 64]
  by (auto simp: gbfs_last_byte_def page_nslots_def)

lemma page_nslots_le: "page_nslots s d n \<le> 64"
  by (simp add: page_nslots_def less_imp_le)

lemma drop_dir_slots:
  assumes "dir_ok s d" and "n < dir_pages (inodes s d)"
  shows "drop (64 * n) (dir_slots s d)
    = map (page_slot (p_data (page_of s d n))) [0..<page_nslots s d n]
      @ drop (64 * Suc n) (dir_slots s d)"
proof -
  let ?N = "nslots s d" and ?k = "page_nslots s d n"
  have lt: "64 * n < ?N" using assms dir_pages_slots [OF assms(1)] by simp
  define q m where "q = ?N div 64" and "m = ?N mod 64"
  have N: "?N = 64 * q + m" "m < 64" by (simp_all add: q_def m_def)
  have kq: "?k = (if n = q then m else 64)" by (simp only: page_nslots_def q_def m_def)
  have k: "64 * n + ?k = min (64 * Suc n) ?N"
  proof (cases "n = q")
    case True
    then show ?thesis using N kq by simp
  next
    case False
    have "n \<le> q" using lt N by linarith
    with False have "Suc n \<le> q" by simp
    then have "64 * Suc n \<le> 64 * q" by (rule mult_le_mono2)
    then have "64 * Suc n \<le> ?N" using N(1) by simp
    with False show ?thesis using kq by simp
  qed
  obtain r where r: "?N = (64 * n + ?k) + r" using k le_Suc_ex [of "64 * n + ?k" ?N] by auto
  have "[64 * n..<?N] = [64 * n..<64 * n + ?k] @ [64 * n + ?k..<?N]"
    unfolding r by (rule upt_add_eq_append) simp
  moreover have "[64 * n + ?k..<?N] = [64 * Suc n..<?N]" using k by (auto simp: min_def)
  moreover have "map (dir_slot s d) [64 * n..<64 * n + ?k]
      = map (page_slot (p_data (page_of s d n))) [0..<?k]"
  proof -
    have "dir_slot s d (64 * n + i) = page_slot (p_data (page_of s d n)) i" if "i < ?k" for i
      using that page_nslots_le [of s d n] by (simp add: dir_slot_def)
    then show ?thesis by (auto intro!: nth_equalityI)
  qed
  ultimately show ?thesis by (simp add: dir_slots_def drop_map)
qed

section \<open>Taking and releasing pages\<close>

lemma dir_get_page_ok:
  assumes "cache_ok K" and "page_ok s d n"
  shows "dir_get_page K s d n = (hold s d n, None)"
proof -
  have "read_mapping_page K s d n = (upd_page s d n (\<lambda>p. p\<lparr>p_ref := p_ref p + 1\<rparr>), None)"
    using assms page_okD(1,2) [OF assms(2)] by (auto simp: cache_ok_def)
  then show ?thesis by (simp add: dir_get_page_def hold_def upd_page_def page_of_def)
qed

lemma hold_frame [simp]:
  "inodes (hold s d n) = inodes s" "kdb (hold s d n) = kdb s" "sbi (hold s d n) = sbi s"
  "next_ino (hold s d n) = next_ino s"
  "p_data (page_of (hold s d n) d' n') = p_data (page_of s d' n')"
  by (simp_all add: hold_def)

lemma dir_put_hold [simp]:
  "page_ok s d n \<Longrightarrow> dir_put_page (hold s d n) d n = s"
  by (auto simp: dir_put_page_def hold_def upd_page_def page_of_def page_ok_def fun_upd_idem)

lemma unlock_lock_hold:
  "page_ok s d n \<Longrightarrow> unlock_page (lock_page (hold s d n) d n) d n = hold s d n"
proof -
  assume "page_ok s d n"
  then obtain pg where pg: "pcache s (d, n) = Some pg" "\<not> p_locked pg" by (auto simp: page_ok_def)
  then show ?thesis
    by (cases pg) (simp add: unlock_page_def lock_page_def hold_def upd_page_def page_of_def)
qed

section \<open>Search\<close>

lemma takeWhile_name:
  assumes "0 \<notin> set nm" "length nm \<le> length b"
  shows "takeWhile (\<lambda>c. c \<noteq> 0) b = nm \<longleftrightarrow>
    take (length nm) b = nm \<and> (length nm < length b \<longrightarrow> b ! length nm = (0 :: byte))"
  using assms
proof (induction b arbitrary: nm)
  case (Cons x b)
  show ?case
  proof (cases nm)
    case Nil
    then show ?thesis by simp
  next
    case (Cons y nm')
    then show ?thesis using Cons.IH [of nm'] Cons.prems by auto
  qed
qed simp

lemma namecompare_iff:
  assumes "valid_name nm" and "60 \<le> length buf"
  shows "namecompare (length nm) 60 nm buf \<longleftrightarrow> takeWhile (\<lambda>c. c \<noteq> 0) (take 60 buf) = nm"
proof -
  have "takeWhile (\<lambda>c. c \<noteq> 0) (take 60 buf) = nm \<longleftrightarrow>
      take (length nm) (take 60 buf) = nm
      \<and> (length nm < length (take 60 buf) \<longrightarrow> take 60 buf ! length nm = 0)"
    using assms by (intro takeWhile_name) (auto simp: valid_name_def)
  then show ?thesis using assms by (auto simp: namecompare_def valid_name_def min_def)
qed

lemma page_slot_match:
  assumes "valid_name nm" "length pg = PAGE_SIZE" "i < 64" "s_namelen sb = 60"
  shows "namecompare (length nm) (s_namelen sb) nm (de_name pg (i * 64)) \<longleftrightarrow> snd (page_slot pg i) = nm"
  using assms by (simp add: namecompare_iff page_slot_def de_name_def)

lemma slots_find_shift:
  "slots_find nm sls (c + i) = map_option ((+) c) (slots_find nm sls i)"
proof (induction sls arbitrary: i)
  case (Cons sl sls)
  from Cons [of "Suc i"] show ?case by simp
qed simp

lemma find_in_page_slots:
  assumes "valid_name nm" "length pg = PAGE_SIZE" "k \<le> 64" "s_namelen sb = 60"
  shows "find_in_page sb nm pg (map (\<lambda>i. i * 64) [j..<k])
    = map_option (\<lambda>i. i * 64) (slots_find nm (map (page_slot pg) [j..<k]) j)"
proof (induction "k - j" arbitrary: j)
  case (Suc x)
  then have "j < k" by simp
  have "fst (page_slot pg j) = de_inode pg (j * 64)" by (simp add: page_slot_def)
  moreover have "namecompare (length nm) (s_namelen sb) nm (de_name pg (j * 64))
      \<longleftrightarrow> snd (page_slot pg j) = nm"
    using assms \<open>j < k\<close> by (intro page_slot_match) auto
  ultimately show ?case using Suc(1) [of "Suc j"] Suc(2) \<open>j < k\<close>
    by (simp add: upt_conv_Cons live_def Let_def)
qed simp

lemma find_pages_slots:
  assumes "cache_ok K" "dir_ok s d" "valid_name nm" "n \<le> dir_pages (inodes s d)"
  shows "find_pages K s d nm [n..<dir_pages (inodes s d)]
    = (case slots_find nm (drop (64 * n) (dir_slots s d)) (64 * n) of
         None \<Rightarrow> (s, None)
       | Some i \<Rightarrow> (hold s d (i div 64), Some (i div 64, i mod 64 * 64)))"
  using assms(4)
proof (induction "dir_pages (inodes s d) - n" arbitrary: n)
  case 0
  then have "n = dir_pages (inodes s d)" by simp
  moreover from this have "nslots s d \<le> 64 * n" using dir_pages_slots [OF assms(2)] by simp
  ultimately show ?case by simp
next
  case (Suc x)
  then have n: "n < dir_pages (inodes s d)" by simp
  let ?k = "page_nslots s d n" and ?pg = "p_data (page_of s d n)"
  have pok: "page_ok s d n" using dir_okD(5) [OF assms(2)] n by blast
  have offs: "for_offs 0 64 (int (?k * 64) - 64) = map (\<lambda>i. i * 64) [0..<?k]"
    using for_offs_multiple [of 64 ?k] by simp
  have fip: "find_in_page (sbi s) nm ?pg (map (\<lambda>i. i * 64) [0..<?k])
      = map_option (\<lambda>i. i * 64) (slots_find nm (map (page_slot ?pg) [0..<?k]) 0)"
    using assms page_okD(4) [OF pok] page_nslots_le dir_okD(3) by (intro find_in_page_slots) auto
  have page: "slots_find nm (map (page_slot ?pg) [0..<?k]) (64 * n)
      = map_option ((+) (64 * n)) (slots_find nm (map (page_slot ?pg) [0..<?k]) 0)"
    using slots_find_shift [of _ _ "64 * n" 0] by simp
  have unf: "find_pages K s d nm [n..<dir_pages (inodes s d)]
      = (case find_in_page (sbi s) nm ?pg (map (\<lambda>i. i * 64) [0..<?k]) of
           Some p \<Rightarrow> (hold s d n, Some (n, p))
         | None \<Rightarrow> find_pages K s d nm [Suc n..<dir_pages (inodes s d)])"
    using n dir_okD(2) [OF assms(2)] last_byte_slots [OF assms(2)] offs pok
    by (simp add: upt_conv_Cons dir_get_page_ok [OF assms(1) pok] Let_def split: option.split)
  show ?case
  proof (cases "slots_find nm (map (page_slot ?pg) [0..<?k]) 0")
    case None
    then have drp: "slots_find nm (drop (64 * n) (dir_slots s d)) (64 * n)
        = slots_find nm (drop (64 * Suc n) (dir_slots s d)) (64 * Suc n)"
    proof (cases "?k = 64")
      case True
      then show ?thesis using None page
        by (simp add: drop_dir_slots [OF assms(2) n] slots_find_append add.commute)
    next
      case False
      then have "n = nslots s d div 64" by (auto simp: page_nslots_def split: if_splits)
      then have "nslots s d \<le> 64 * Suc n" by simp
      then show ?thesis using None page
        by (simp add: drop_dir_slots [OF assms(2) n] slots_find_append)
    qed
    show ?thesis using Suc.hyps(1) [of "Suc n"] Suc.hyps(2) n None fip unf drp by simp
  next
    case (Some i)
    then have i: "i < ?k" using slots_find_Some [OF Some] by simp
    then have "i < 64" using page_nslots_le [of s d n] by simp
    then have "(64 * n + i) div 64 = n" "(64 * n + i) mod 64 = i" by simp_all
    then show ?thesis using Some fip unf page
      by (simp add: drop_dir_slots [OF assms(2) n] slots_find_append)
  qed
qed

lemma find_entry_slots:
  assumes "cache_ok K" "dir_ok s (d_parent de)" "valid_name (d_name de)"
  shows "gbfs_find_entry K s de
    = (case slots_find (d_name de) (dir_slots s (d_parent de)) 0 of
         None \<Rightarrow> (s, None)
       | Some i \<Rightarrow> (hold s (d_parent de) (i div 64), Some (i div 64, i mod 64 * 64)))"
  using find_pages_slots [OF assms, of 0] by (simp add: gbfs_find_entry_def Let_def)

lemma inode_by_name_slots:
  assumes "cache_ok K" "dir_ok s (d_parent de)" "valid_name (d_name de)"
  shows "gbfs_inode_by_name K s de
    = (s, case slots_map (dir_slots s (d_parent de)) (d_name de) of None \<Rightarrow> 0 | Some i \<Rightarrow> i)"
proof (cases "slots_find (d_name de) (dir_slots s (d_parent de)) 0")
  case None
  then show ?thesis
    by (simp add: gbfs_inode_by_name_def find_entry_slots [OF assms] slots_map_find [of _ _ 0])
next
  case (Some i)
  then have i: "i < nslots s (d_parent de)" using slots_find_Some [OF Some] by simp
  then have "i div 64 < dir_pages (inodes s (d_parent de))"
    using dir_pages_slots [OF assms(2)] by simp
  then have pok: "page_ok s (d_parent de) (i div 64)" using dir_okD(5) [OF assms(2)] by blast
  have "fst (dir_slots s (d_parent de) ! i)
      = de_inode (p_data (page_of s (d_parent de) (i div 64))) (i mod 64 * 64)"
    using i by (simp add: dir_slot_def page_slot_def)
  with Some pok show ?thesis
    by (simp add: gbfs_inode_by_name_def find_entry_slots [OF assms] slots_map_find [of _ _ 0])
qed

section \<open>Writing one entry\<close>

text \<open>
  The page cache's \<open>write_one_page\<close>: it may change the database, clears the dirty flag and
  unlocks the page, and leaves the page's bytes alone.
\<close>

definition wop_ok :: "'d kernel \<Rightarrow> bool" where
  "wop_ok K \<longleftrightarrow> (\<forall>s h n. \<exists>k err. write_one_page K s h n =
     ((upd_page s h n (\<lambda>p. p\<lparr>p_dirty := False, p_locked := False\<rparr>))\<lparr>kdb := k\<rparr>, err))"

text \<open>
  The normal form of a directory modification: the inode of the directory with its new
  size and times, one page with its new bytes, possibly another database.
\<close>

definition dir_upd ::
    "'d gstate \<Rightarrow> nat \<Rightarrow> nat \<Rightarrow> byte list \<Rightarrow> nat \<Rightarrow> timespec \<Rightarrow> bool \<Rightarrow> 'd \<Rightarrow> 'd gstate" where
  "dir_upd s d n data sz now b k =
     (upd_inode
       (upd_page s d n (\<lambda>p. p\<lparr>p_data := data, p_uptodate := True, p_dirty := b, p_locked := False\<rparr>))
       d (\<lambda>i. i\<lparr>i_size := sz, i_mtime := now, i_ctime := now, i_dirty := True\<rparr>))\<lparr>kdb := k\<rparr>"

definition commit_inode :: "nat \<Rightarrow> inode \<Rightarrow> inode" where
  "commit_inode m i = (if i_size i < m then i\<lparr>i_size := m, i_dirty := True\<rparr> else i)"

lemma dir_upd_frame [simp]:
  "sbi (dir_upd s d n data sz now b k) = sbi s"
  "next_ino (dir_upd s d n data sz now b k) = next_ino s"
  "kdb (dir_upd s d n data sz now b k) = k"
  "h \<noteq> d \<Longrightarrow> inodes (dir_upd s d n data sz now b k) h = inodes s h"
  "i_size (inodes (dir_upd s d n data sz now b k) d) = sz"
  "h \<noteq> d \<or> m \<noteq> n \<Longrightarrow> page_of (dir_upd s d n data sz now b k) h m = page_of s h m"
  "h \<noteq> d \<or> m \<noteq> n \<Longrightarrow> pcache (dir_upd s d n data sz now b k) (h, m) = pcache s (h, m)"
  "page_of (dir_upd s d n data sz now b k) d n = (page_of s d n)
     \<lparr>p_data := data, p_uptodate := True, p_dirty := b, p_locked := False\<rparr>"
  by (auto simp: dir_upd_def pcache_upd_page)

lemma dir_commit_shape:
  assumes "wop_ok K"
  shows "\<exists>b k err. dir_commit_chunk K s d n pos len =
      ((upd_inode (upd_page s d n (\<lambda>p. p\<lparr>p_uptodate := True, p_dirty := b, p_locked := False\<rparr>))
          d (commit_inode (pos + len)))\<lparr>kdb := k\<rparr>, err)
    \<and> (\<not> i_dirsync (inodes s d) \<longrightarrow> k = kdb s \<and> err = Ok)"
proof -
  obtain wk wr where w: "\<And>s h n. write_one_page K s h n =
      ((upd_page s h n (\<lambda>p. p\<lparr>p_dirty := False, p_locked := False\<rparr>))\<lparr>kdb := wk s h n\<rparr>, wr s h n)"
    using assms unfolding wop_ok_def by metis
  let ?s2 = "upd_page (upd_page s d n (\<lambda>p. p\<lparr>p_uptodate := True\<rparr>)) d n (\<lambda>p. p\<lparr>p_dirty := True\<rparr>)"
  let ?s3 = "upd_inode ?s2 d (commit_inode (pos + len))"
  have s3: "(if i_size (inodes ?s2 d) < pos + len
      then mark_inode_dirty (upd_inode ?s2 d (\<lambda>i. i\<lparr>i_size := pos + len\<rparr>)) d else ?s2) = ?s3"
    by (auto simp: mark_inode_dirty_def gstate_norm commit_inode_def intro: upd_inode_cong
        upd_inode_id [symmetric])
  have ds: "i_dirsync (inodes ?s3 d) = i_dirsync (inodes s d)"
    by (simp add: commit_inode_def)
  have eq: "dir_commit_chunk K s d n pos len =
      (if i_dirsync (inodes s d) then write_one_page K ?s3 d n else (unlock_page ?s3 d n, Ok))"
    unfolding dir_commit_chunk_def Let_def s3 ds ..
  show ?thesis
  proof (cases "i_dirsync (inodes s d)")
    case True
    then show ?thesis by (auto simp: eq w gstate_norm intro!: exI)
  next
    case False
    then show ?thesis
      by (intro exI [of _ True] exI [of _ "kdb s"] exI [of _ Ok])
        (simp add: eq unlock_page_def gstate_norm kdb_self)
  qed
qed

text \<open>Both ways of naming the state of a locked, referenced page fuse into one update.\<close>

lemma dir_upd_eqI:
  assumes "F (page_of s d n) = (page_of s d n)
      \<lparr>p_data := data, p_uptodate := True, p_dirty := b, p_locked := False\<rparr>"
    and "G (inodes s d) = (inodes s d)
      \<lparr>i_size := sz, i_mtime := now, i_ctime := now, i_dirty := True\<rparr>"
  shows "(upd_inode (upd_page s d n F) d G)\<lparr>kdb := k\<rparr> = dir_upd s d n data sz now b k"
  using assms by (simp add: dir_upd_def upd_inode_def upd_page_def)

lemma commit_finish:
  assumes "F (page_of s d n) = (page_of s d n)\<lparr>p_data := data, p_uptodate := True, p_dirty := b,
      p_locked := False, p_ref := p_ref (page_of s d n) + 1, p_kmap := p_kmap (page_of s d n) + 1\<rparr>"
  shows "mark_inode_dirty (upd_inode (dir_put_page
        ((upd_inode (upd_page s d n F) d (commit_inode m))\<lparr>kdb := k\<rparr>) d n) d
        (\<lambda>i. i\<lparr>i_mtime := now, i_ctime := now\<rparr>)) d
      = dir_upd s d n data (max (i_size (inodes s d)) m) now b k"
    and "dir_put_page (mark_inode_dirty (upd_inode
        ((upd_inode (upd_page s d n F) d (commit_inode m))\<lparr>kdb := k\<rparr>) d
        (\<lambda>i. i\<lparr>i_mtime := now, i_ctime := now\<rparr>)) d) d n
      = dir_upd s d n data (max (i_size (inodes s d)) m) now b k"
  using assms
  by (auto simp: mark_inode_dirty_def dir_put_page_def gstate_norm commit_inode_def max_def
      intro!: dir_upd_eqI)

text \<open>
  The three writers start from a locked and referenced page whose bytes they have changed;
  what remains is the commit, the release of the page and the update of the times.
\<close>

definition dirtied :: "'d gstate \<Rightarrow> nat \<Rightarrow> nat \<Rightarrow> byte list \<Rightarrow> 'd gstate" where
  "dirtied s d n data = upd_page s d n (\<lambda>p. p\<lparr>p_data := data, p_locked := True,
     p_ref := p_ref p + 1, p_kmap := p_kmap p + 1\<rparr>)"

lemma commit_dirtied:
  assumes "wop_ok K"
  obtains F b k err where
    "dir_commit_chunk K (dirtied s d n data) d n pos len
       = ((upd_inode (upd_page s d n F) d (commit_inode (pos + len)))\<lparr>kdb := k\<rparr>, err)"
    "F (page_of s d n) = (page_of s d n)\<lparr>p_data := data, p_uptodate := True, p_dirty := b,
      p_locked := False, p_ref := p_ref (page_of s d n) + 1, p_kmap := p_kmap (page_of s d n) + 1\<rparr>"
    "\<not> i_dirsync (inodes s d) \<longrightarrow> k = kdb s \<and> err = Ok"
proof -
  obtain b k err where c: "dir_commit_chunk K (dirtied s d n data) d n pos len =
      ((upd_inode (upd_page (dirtied s d n data) d n
          (\<lambda>p. p\<lparr>p_uptodate := True, p_dirty := b, p_locked := False\<rparr>))
          d (commit_inode (pos + len)))\<lparr>kdb := k\<rparr>, err)"
    and e: "\<not> i_dirsync (inodes (dirtied s d n data) d) \<longrightarrow> k = kdb (dirtied s d n data) \<and> err = Ok"
    using dir_commit_shape [OF assms] by metis
  let ?F = "\<lambda>p. p\<lparr>p_data := data, p_locked := True, p_ref := p_ref p + 1, p_kmap := p_kmap p + 1,
      p_uptodate := True, p_dirty := b, p_locked := False\<rparr>"
  have "upd_page (dirtied s d n data) d n (\<lambda>p. p\<lparr>p_uptodate := True, p_dirty := b, p_locked := False\<rparr>)
      = upd_page s d n ?F"
    by (simp only: dirtied_def upd_page_fuse)
  with c have "dir_commit_chunk K (dirtied s d n data) d n pos len
      = ((upd_inode (upd_page s d n ?F) d (commit_inode (pos + len)))\<lparr>kdb := k\<rparr>, err)" by simp
  then show ?thesis by (rule that [where b = b]) (use e in \<open>auto simp: dirtied_def\<close>)
qed

lemma set_de_inode_dirtied:
  "set_de_inode (lock_page (hold s d n) d n) d n p ino
     = dirtied s d n (buf_write p (le_enc 4 ino) (p_data (page_of s d n)))"
  unfolding set_de_inode_def lock_page_def hold_def write_page_data_def dirtied_def upd_page_fuse
  by (rule upd_page_cong) simp

lemma delete_entry_shape:
  assumes "wop_ok K"
  shows "\<exists>now b k err. gbfs_delete_entry K (hold s d n) d (n, p) =
      (dir_upd s d n (buf_write p (le_enc 4 0) (p_data (page_of s d n)))
         (max (i_size (inodes s d)) (n * PAGE_SIZE + p + s_dirsize (sbi s))) now b k, err)
    \<and> (\<not> i_dirsync (inodes s d) \<longrightarrow> k = kdb s \<and> err = Ok)"
proof -
  obtain F b k err where c: "dir_commit_chunk K
      (dirtied s d n (buf_write p (le_enc 4 0) (p_data (page_of s d n)))) d n
        (n * PAGE_SIZE + p) (s_dirsize (sbi s))
       = ((upd_inode (upd_page s d n F) d
            (commit_inode (n * PAGE_SIZE + p + s_dirsize (sbi s))))\<lparr>kdb := k\<rparr>, err)"
    and F: "F (page_of s d n) = (page_of s d n)
      \<lparr>p_data := buf_write p (le_enc 4 0) (p_data (page_of s d n)), p_uptodate := True, p_dirty := b,
       p_locked := False, p_ref := p_ref (page_of s d n) + 1, p_kmap := p_kmap (page_of s d n) + 1\<rparr>"
    and e: "\<not> i_dirsync (inodes s d) \<longrightarrow> k = kdb s \<and> err = Ok"
    using commit_dirtied [OF assms] by metis
  have sw: "(\<lambda>i. i\<lparr>i_ctime := t, i_mtime := t\<rparr>) = (\<lambda>i. i\<lparr>i_mtime := t, i_ctime := t\<rparr>)" for t
    by (simp add: fun_eq_iff)
  show ?thesis
    unfolding gbfs_delete_entry_def Let_def gbfs_prepare_chunk_def prod.case rc.case
      set_de_inode_dirtied hold_frame c sw commit_finish(1) [of F, OF F]
    using e by blast
qed

lemma set_link_shape:
  assumes "wop_ok K"
  shows "\<exists>now b k. gbfs_set_link K (hold s d n) d (n, p) h =
      dir_upd s d n (buf_write p (le_enc 4 (i_ino (inodes s h))) (p_data (page_of s d n)))
         (max (i_size (inodes s d)) (n * PAGE_SIZE + p + s_dirsize (sbi s))) now b k
    \<and> (\<not> i_dirsync (inodes s d) \<longrightarrow> k = kdb s)"
proof -
  let ?data = "buf_write p (le_enc 4 (i_ino (inodes s h))) (p_data (page_of s d n))"
  have li: "inodes (lock_page (hold s d n) d n) h = inodes s h" by (simp add: lock_page_def)
  obtain F b k err where c: "dir_commit_chunk K (dirtied s d n ?data) d n
        (n * PAGE_SIZE + p) (s_dirsize (sbi s))
       = ((upd_inode (upd_page s d n F) d
            (commit_inode (n * PAGE_SIZE + p + s_dirsize (sbi s))))\<lparr>kdb := k\<rparr>, err)"
    and F: "F (page_of s d n) = (page_of s d n)\<lparr>p_data := ?data, p_uptodate := True, p_dirty := b,
       p_locked := False, p_ref := p_ref (page_of s d n) + 1, p_kmap := p_kmap (page_of s d n) + 1\<rparr>"
    and e: "\<not> i_dirsync (inodes s d) \<longrightarrow> k = kdb s \<and> err = Ok"
    using commit_dirtied [OF assms] by metis
  show ?thesis
    unfolding gbfs_set_link_def Let_def gbfs_prepare_chunk_def prod.case rc.case li
      set_de_inode_dirtied hold_frame c commit_finish(1) [of F, OF F]
    using e by blast
qed

lemma write_page_data_dirtied:
  "write_page_data (dirtied s d n data) d n off bs = dirtied s d n (buf_write off bs data)"
  unfolding write_page_data_def dirtied_def upd_page_fuse by (rule upd_page_cong) simp

lemma lock_hold_dirtied: "lock_page (hold s d n) d n = dirtied s d n (p_data (page_of s d n))"
  unfolding lock_page_def hold_def dirtied_def upd_page_fuse by (rule upd_page_cong) simp

lemma dirtied_frame [simp]:
  "inodes (dirtied s d n data) = inodes s" "sbi (dirtied s d n data) = sbi s"
  by (simp_all add: dirtied_def)

text \<open>The bytes of an entry after \<open>gbfs_add_link\<close> filled it.\<close>

definition fill_entry :: "nat \<Rightarrow> byte list \<Rightarrow> nat \<Rightarrow> byte list \<Rightarrow> byte list" where
  "fill_entry p nm ino data =
     buf_write p (le_enc 4 ino)
       (buf_write (p + 4 + length nm) (replicate (64 - length nm - 4) 0)
          (buf_write (p + 4) nm data))"

lemma add_got_it_shape:
  assumes "wop_ok K" "s_dirsize (sbi s) = 64" "length nm \<le> 60"
  shows "\<exists>now b k err. add_got_it K (dirtied s d n data) d n p nm h =
      (dir_upd s d n (fill_entry p nm (i_ino (inodes s h)) data)
         (max (i_size (inodes s d)) (n * PAGE_SIZE + p + 64)) now b k, err)
    \<and> (\<not> i_dirsync (inodes s d) \<longrightarrow> k = kdb s \<and> err = Ok)"
proof -
  let ?data = "fill_entry p nm (i_ino (inodes s h)) data"
  obtain F b k err where c: "dir_commit_chunk K (dirtied s d n ?data) d n
        (n * PAGE_SIZE + p) 64
       = ((upd_inode (upd_page s d n F) d (commit_inode (n * PAGE_SIZE + p + 64)))\<lparr>kdb := k\<rparr>, err)"
    and F: "F (page_of s d n) = (page_of s d n)\<lparr>p_data := ?data, p_uptodate := True, p_dirty := b,
       p_locked := False, p_ref := p_ref (page_of s d n) + 1, p_kmap := p_kmap (page_of s d n) + 1\<rparr>"
    and e: "\<not> i_dirsync (inodes s d) \<longrightarrow> k = kdb s \<and> err = Ok"
    using commit_dirtied [OF assms(1)] by metis
  have len: "\<not> (64::nat) < length nm + 4" using assms(3) by simp
  have "add_got_it K (dirtied s d n data) d n p nm h =
      (dir_upd s d n ?data (max (i_size (inodes s d)) (n * PAGE_SIZE + p + 64))
        (current_time K ((upd_inode (upd_page s d n F) d
          (commit_inode (n * PAGE_SIZE + p + 64)))\<lparr>kdb := k\<rparr>)) b k, err)"
    unfolding add_got_it_def Let_def gbfs_prepare_chunk_def prod.case rc.case dirtied_frame
      assms(2) if_not_P [OF len] set_de_inode_def write_page_data_dirtied
      fill_entry_def [symmetric] c commit_finish(2) [of F, OF F] ..
  then show ?thesis using e by blast
qed

section \<open>The effect of a write on the slots\<close>

lemma page_slot_alt:
  "page_slot pg i = (le_dec (buf_read (i * 64) 4 pg), takeWhile (\<lambda>c. c \<noteq> 0) (buf_read (i * 64 + 4) 60 pg))"
  by (simp add: page_slot_def de_inode_def de_name_def buf_read_def)

lemma slots_apart: "i \<noteq> j \<Longrightarrow> i * 64 + 64 \<le> j * 64 \<or> j * 64 + 64 \<le> i * (64::nat)"
  by (cases "i < j") auto

lemma page_slot_set_inode:
  assumes "length pg = PAGE_SIZE" "i < 64"
  shows "page_slot (buf_write (i * 64) (le_enc 4 ino) pg) j
    = (if j = i then (ino mod 2 ^ 32, snd (page_slot pg i)) else page_slot pg j)"
proof -
  have fit: "i * 64 + length (le_enc 4 ino) \<le> length pg" using assms by simp
  show ?thesis
  proof (cases "j = i")
    case True
    have "buf_read (i * 64 + 4) 60 (buf_write (i * 64) (le_enc 4 ino) pg) = buf_read (i * 64 + 4) 60 pg"
      using fit by (intro buf_read_write_disjoint) auto
    moreover have "buf_read (i * 64) 4 (buf_write (i * 64) (le_enc 4 ino) pg) = le_enc 4 ino"
      using fit by (intro buf_read_write_same) auto
    ultimately show ?thesis using True by (simp add: page_slot_alt)
  next
    case False
    from slots_apart [OF False [symmetric]]
    have "buf_read (j * 64 + 4) 60 (buf_write (i * 64) (le_enc 4 ino) pg) = buf_read (j * 64 + 4) 60 pg"
      and "buf_read (j * 64) 4 (buf_write (i * 64) (le_enc 4 ino) pg) = buf_read (j * 64) 4 pg"
      using fit by (intro buf_read_write_disjoint, simp, auto)+
    with False show ?thesis by (simp add: page_slot_alt)
  qed
qed

lemma takeWhile_pad:
  "0 \<notin> set nm \<Longrightarrow> takeWhile (\<lambda>c. c \<noteq> (0 :: byte)) (nm @ replicate k 0) = nm"
  by (induction nm) (auto simp: takeWhile_replicate)

lemma fill_entry_name:
  assumes "length pg = PAGE_SIZE" "i < 64" "length nm \<le> 60"
  shows "fill_entry (i * 64) nm ino pg = buf_write (i * 64) (le_enc 4 ino)
    (buf_write (i * 64 + 4) (nm @ replicate (60 - length nm) 0) pg)"
  using assms by (simp add: fill_entry_def buf_write_write_adjacent)

lemma page_slot_fill:
  assumes "length pg = PAGE_SIZE" "i < 64" "valid_name nm"
  shows "page_slot (fill_entry (i * 64) nm ino pg) j
    = (if j = i then (ino mod 2 ^ 32, nm) else page_slot pg j)"
proof -
  let ?b = "nm @ replicate (60 - length nm) 0"
  let ?pg = "buf_write (i * 64 + 4) ?b pg"
  have nm: "length nm \<le> 60" "0 \<notin> set nm" using assms(3) by (auto simp: valid_name_def)
  have fit: "i * 64 + 4 + length ?b \<le> length pg" using assms nm by simp
  have l: "length ?pg = PAGE_SIZE" using fit assms(1) by simp
  have "snd (page_slot ?pg i) = nm"
    using fit nm by (simp add: page_slot_alt buf_read_write_same takeWhile_pad)
  moreover have "page_slot ?pg j = page_slot pg j" if "j \<noteq> i"
  proof -
    from slots_apart [OF that]
    have "buf_read (j * 64 + 4) 60 ?pg = buf_read (j * 64 + 4) 60 pg"
      "buf_read (j * 64) 4 ?pg = buf_read (j * 64) 4 pg"
      using fit nm by (intro buf_read_write_disjoint, simp, auto)+
    then show ?thesis by (simp add: page_slot_alt)
  qed
  ultimately show ?thesis
    using page_slot_set_inode [OF l assms(2), of ino j] fill_entry_name [OF assms(1,2) nm(1), of ino]
    by auto
qed

lemma length_fill_entry:
  assumes "length pg = PAGE_SIZE" "i < 64" "length nm \<le> 60"
  shows "length (fill_entry (i * 64) nm ino pg) = PAGE_SIZE"
  using assms by (simp add: fill_entry_name)

section \<open>The operations on slot lists\<close>

text \<open>
  What a directory operation leaves alone: every other inode and page, the superblock
  data, the identity and link count of the directory, and the reference counts of its
  pages (each page taken is released).
\<close>

definition dir_frame :: "'d gstate \<Rightarrow> 'd gstate \<Rightarrow> nat \<Rightarrow> bool" where
  "dir_frame s s' d \<longleftrightarrow> sbi s' = sbi s \<and> next_ino s' = next_ino s
     \<and> (\<forall>h. h \<noteq> d \<longrightarrow> inodes s' h = inodes s h)
     \<and> (\<forall>h m. h \<noteq> d \<longrightarrow> pcache s' (h, m) = pcache s (h, m))
     \<and> i_ino (inodes s' d) = i_ino (inodes s d) \<and> i_mode (inodes s' d) = i_mode (inodes s d)
     \<and> i_nlink (inodes s' d) = i_nlink (inodes s d)
     \<and> i_dirsync (inodes s' d) = i_dirsync (inodes s d)
     \<and> (\<forall>m. page_ok s d m \<longrightarrow> page_ok s' d m \<and> p_ref (page_of s' d m) = p_ref (page_of s d m)
          \<and> p_kmap (page_of s' d m) = p_kmap (page_of s d m))"

lemma page_ok_dir_upd:
  assumes "length data = PAGE_SIZE"
  shows "page_ok (dir_upd s d n data sz now b k) d m \<longleftrightarrow> m = n \<or> page_ok s d m"
  using assms by (cases "m = n") (auto simp: page_ok_def dir_upd_def pcache_upd_page)

lemma dir_frame_dir_upd:
  assumes "length data = PAGE_SIZE"
  shows "dir_frame s (dir_upd s d n data sz now b k) d"
proof -
  have "p_ref (page_of (dir_upd s d n data sz now b k) d m) = p_ref (page_of s d m)
      \<and> p_kmap (page_of (dir_upd s d n data sz now b k) d m) = p_kmap (page_of s d m)" for m
    by (cases "m = n") auto
  moreover have "inodes (dir_upd s d n data sz now b k) d = (inodes s d)
      \<lparr>i_size := sz, i_mtime := now, i_ctime := now, i_dirty := True\<rparr>"
    by (simp add: dir_upd_def)
  ultimately show ?thesis using assms by (auto simp: dir_frame_def page_ok_dir_upd)
qed

lemma dir_ok_dir_upd:
  assumes "dir_ok s d" "length data = PAGE_SIZE" "64 dvd sz"
    and "\<And>m. m < (4095 + sz) div PAGE_SIZE \<Longrightarrow> m = n \<or> m < dir_pages (inodes s d)"
  shows "dir_ok (dir_upd s d n data sz now b k) d"
  using assms(1,3) assms(4) [unfolded dir_pages_def]
  by (auto simp: dir_ok_def sb_ok_def dir_pages_def page_ok_dir_upd [OF assms(2)] add.commute)

lemma nslots_dir_upd [simp]: "nslots (dir_upd s d n data sz now b k) d = sz div 64"
  by (simp add: nslots_def)

lemma dir_slot_dir_upd:
  assumes "\<And>j. j < 64 \<Longrightarrow> page_slot data j
      = (if j = i then x else page_slot (p_data (page_of s d n)) j)" and "i < 64"
  shows "dir_slot (dir_upd s d n data sz now b k) d j = (if j = 64 * n + i then x else dir_slot s d j)"
proof (cases "j div 64 = n")
  case True
  then have j: "j = 64 * n + j mod 64" by auto
  then have "j = 64 * n + i \<longleftrightarrow> j mod 64 = i" using assms(2) by auto
  with True assms(1) [of "j mod 64"] show ?thesis by (simp add: dir_slot_def)
next
  case False
  then have "j \<noteq> 64 * n + i" using assms(2) by auto
  with False show ?thesis by (simp add: dir_slot_def)
qed

lemma dir_slots_dir_upd_same:
  assumes "\<And>j. j < 64 \<Longrightarrow> page_slot data j
      = (if j = i then x else page_slot (p_data (page_of s d n)) j)" and "i < 64"
    and "sz div 64 = nslots s d"
  shows "dir_slots (dir_upd s d n data sz now b k) d = (dir_slots s d)[64 * n + i := x]"
proof (rule nth_equalityI)
  show "length (dir_slots (dir_upd s d n data sz now b k) d)
      = length ((dir_slots s d)[64 * n + i := x])" using assms(3) by simp
next
  fix j
  assume "j < length (dir_slots (dir_upd s d n data sz now b k) d)"
  then have "j < nslots s d" using assms(3) by simp
  then show "dir_slots (dir_upd s d n data sz now b k) d ! j = (dir_slots s d)[64 * n + i := x] ! j"
    using dir_slot_dir_upd [OF assms(1,2)] assms(3) by (simp add: nth_list_update)
qed

lemma dir_slots_dir_upd_append:
  assumes "\<And>j. j < 64 \<Longrightarrow> page_slot data j
      = (if j = i then x else page_slot (p_data (page_of s d n)) j)" and "i < 64"
    and "nslots s d = 64 * n + i" and "sz div 64 = Suc (nslots s d)"
  shows "dir_slots (dir_upd s d n data sz now b k) d = dir_slots s d @ [x]"
proof (rule nth_equalityI)
  show "length (dir_slots (dir_upd s d n data sz now b k) d) = length (dir_slots s d @ [x])"
    using assms(4) by simp
next
  fix j
  assume "j < length (dir_slots (dir_upd s d n data sz now b k) d)"
  then have "j < Suc (nslots s d)" using assms(4) by simp
  then show "dir_slots (dir_upd s d n data sz now b k) d ! j = (dir_slots s d @ [x]) ! j"
    using dir_slot_dir_upd [OF assms(1,2)] assms(3,4) by (auto simp: nth_append less_Suc_eq)
qed

lemma slot_page_ok:
  assumes "dir_ok s d" "i < nslots s d"
  shows "page_ok s d (i div 64)"
  using dir_okD(5) [OF assms(1)] dir_pages_slots [OF assms(1)] assms(2) by simp

lemma slot_index: "64 * (i div 64) + i mod 64 = (i :: nat)"
  by simp

text \<open>A write inside the directory does not change its size.\<close>

lemma slot_write_size:
  assumes "dir_ok s d" "i < nslots s d"
  shows "max (i_size (inodes s d)) (i div 64 * PAGE_SIZE + i mod 64 * 64 + 64) = i_size (inodes s d)"
proof -
  have "i div 64 * PAGE_SIZE + i mod 64 * 64 = i * 64" using div_mult_mod_eq [of i 64] by linarith
  then show ?thesis using dir_okD(4) [OF assms(1)] assms(2) by (simp add: max_def)
qed

lemma slot_inode_write:
  assumes "dir_ok s d" "i < nslots s d"
    and s': "s' = dir_upd s d (i div 64)
      (buf_write (i mod 64 * 64) (le_enc 4 ino) (p_data (page_of s d (i div 64))))
      (i_size (inodes s d)) now b k"
  shows "dir_slots s' d = (dir_slots s d)[i := (ino mod 2 ^ 32, snd (dir_slot s d i))]"
    and "dir_ok s' d" and "dir_frame s s' d"
proof -
  let ?pg = "p_data (page_of s d (i div 64))"
  have len: "length ?pg = PAGE_SIZE" using page_okD(4) [OF slot_page_ok [OF assms(1,2)]] .
  have len': "length (buf_write (i mod 64 * 64) (le_enc 4 ino) ?pg) = PAGE_SIZE"
    using len by simp
  have "page_slot (buf_write (i mod 64 * 64) (le_enc 4 ino) ?pg) j
      = (if j = i mod 64 then (ino mod 2 ^ 32, snd (dir_slot s d i)) else page_slot ?pg j)" for j
    using page_slot_set_inode [OF len, of "i mod 64" ino j] by (simp add: dir_slot_def)
  moreover have "i_size (inodes s d) div 64 = nslots s d" by (simp add: nslots_def)
  ultimately have "dir_slots s' d
      = (dir_slots s d)[64 * (i div 64) + i mod 64 := (ino mod 2 ^ 32, snd (dir_slot s d i))]"
    unfolding s' by (intro dir_slots_dir_upd_same) auto
  then show "dir_slots s' d = (dir_slots s d)[i := (ino mod 2 ^ 32, snd (dir_slot s d i))]"
    by (simp only: slot_index)
  show "dir_ok s' d" unfolding s' using assms(1) len'
    by (intro dir_ok_dir_upd) (auto simp: dir_ok_def dir_pages_def)
  show "dir_frame s s' d" unfolding s' by (rule dir_frame_dir_upd [OF len'])
qed

lemma delete_entry_slots:
  assumes "wop_ok K" "dir_ok s d" "i < nslots s d"
  obtains s' err where
    "gbfs_delete_entry K (hold s d (i div 64)) d (i div 64, i mod 64 * 64) = (s', err)"
    "dir_slots s' d = (dir_slots s d)[i := (0, snd (dir_slot s d i))]"
    "dir_ok s' d" "dir_frame s s' d"
    "\<not> i_dirsync (inodes s d) \<longrightarrow> err = Ok \<and> kdb s' = kdb s"
proof -
  note sz = dir_okD(2) [OF assms(2)] slot_write_size [OF assms(2,3)]
  obtain now b k err where r: "gbfs_delete_entry K (hold s d (i div 64)) d (i div 64, i mod 64 * 64) =
      (dir_upd s d (i div 64) (buf_write (i mod 64 * 64) (le_enc 4 0) (p_data (page_of s d (i div 64))))
         (i_size (inodes s d)) now b k, err)"
    and e: "\<not> i_dirsync (inodes s d) \<longrightarrow> k = kdb s \<and> err = Ok"
    using delete_entry_shape [OF assms(1), of s d "i div 64" "i mod 64 * 64"]
    unfolding sz by blast
  note w = slot_inode_write [OF assms(2,3) refl, of 0 now b k]
  show ?thesis
    by (rule that [OF r]) (use w e in auto)
qed

lemma set_link_slots:
  assumes "wop_ok K" "dir_ok s d" "i < nslots s d"
  obtains s' where
    "gbfs_set_link K (hold s d (i div 64)) d (i div 64, i mod 64 * 64) h = s'"
    "dir_slots s' d = (dir_slots s d)[i := (i_ino (inodes s h) mod 2 ^ 32, snd (dir_slot s d i))]"
    "dir_ok s' d" "dir_frame s s' d" "\<not> i_dirsync (inodes s d) \<longrightarrow> kdb s' = kdb s"
proof -
  note sz = dir_okD(2) [OF assms(2)] slot_write_size [OF assms(2,3)]
  obtain now b k where r: "gbfs_set_link K (hold s d (i div 64)) d (i div 64, i mod 64 * 64) h =
      dir_upd s d (i div 64)
        (buf_write (i mod 64 * 64) (le_enc 4 (i_ino (inodes s h))) (p_data (page_of s d (i div 64))))
        (i_size (inodes s d)) now b k"
    and e: "\<not> i_dirsync (inodes s d) \<longrightarrow> k = kdb s"
    using set_link_shape [OF assms(1), of s d "i div 64" "i mod 64 * 64" h]
    unfolding sz by blast
  note w = slot_inode_write [OF assms(2,3) refl, of "i_ino (inodes s h)" now b k]
  show ?thesis by (rule that [OF r]) (use w e in auto)
qed

section \<open>Adding a link\<close>

lemma slots_scan_shift:
  "slots_scan nm sls (c + i) = (case slots_scan nm sls i of SAt j \<Rightarrow> SAt (c + j) | SExists \<Rightarrow> SExists)"
proof (induction sls arbitrary: i)
  case (Cons sl sls)
  from Cons [of "Suc i"] show ?case by simp
qed simp

lemma add_scan_slots:
  assumes "valid_name nm" "length pg = PAGE_SIZE" "k \<le> 64" "s_namelen sb = 60" "j \<le> k"
  shows "add_scan sb nm pg (k * 64) (map (\<lambda>i. i * 64) [j..<64])
    = (case slots_scan nm (map (page_slot pg) [j..<k]) j of
         SExists \<Rightarrow> Exists
       | SAt i \<Rightarrow> if i < k then Hole (i * 64) else if k < 64 then AtEnd (k * 64) else Full)"
  using assms(5)
proof (induction "k - j" arbitrary: j)
  case 0
  then have "j = k" by simp
  then show ?case using assms(3) by (cases "k < 64") (auto simp: upt_conv_Cons)
next
  case (Suc x)
  then have j: "j < k" by simp
  have "live (page_slot pg j) \<longleftrightarrow> de_inode pg (j * 64) \<noteq> 0" by (simp add: page_slot_def live_def)
  moreover have "namecompare (length nm) (s_namelen sb) nm (de_name pg (j * 64))
      \<longleftrightarrow> snd (page_slot pg j) = nm"
    using assms j by (intro page_slot_match) auto
  ultimately show ?case using Suc(1) [of "Suc j"] Suc(2) j assms(3)
    by (simp add: upt_conv_Cons [of j 64] upt_conv_Cons [of j k] Let_def)
qed

lemma for_offs_page: "for_offs 0 64 (int PAGE_SIZE - int 64) = map (\<lambda>i. i * 64) [0..<64]"
  using for_offs_multiple [of 64 64] by simp

text \<open>One round of the loop of \<open>gbfs_add_link\<close>, on the page \<open>n\<close> obtained in state \<open>hold s0\<close>.\<close>

lemma add_pages_step:
  assumes "dir_get_page K s d n = (hold s0 d n, None)" "dir_ok s0 d" "page_ok s0 d n"
    "valid_name nm" "n \<le> nslots s0 d div 64"
  shows "add_pages K s d nm h (n # ns) =
    (case slots_scan nm (map (page_slot (p_data (page_of s0 d n))) [0..<page_nslots s0 d n]) 0 of
       SExists \<Rightarrow> (s0, Err EEXIST)
     | SAt i \<Rightarrow>
         if i < page_nslots s0 d n
         then add_got_it K (dirtied s0 d n (p_data (page_of s0 d n))) d n (i * 64) nm h
         else if page_nslots s0 d n < 64
         then add_got_it K (dirtied s0 d n (buf_write (page_nslots s0 d n * 64) (le_enc 4 0)
                (p_data (page_of s0 d n)))) d n (page_nslots s0 d n * 64) nm h
         else add_pages K s0 d nm h ns)"
proof -
  let ?k = "page_nslots s0 d n" and ?pg = "p_data (page_of s0 d n)"
  let ?s2 = "lock_page (hold s0 d n) d n"
  have l2: "inodes ?s2 = inodes s0" "sbi ?s2 = sbi s0" "p_data (page_of ?s2 d n) = ?pg"
    by (simp_all add: lock_page_def)
  have sc: "add_scan (sbi s0) nm ?pg (?k * 64) (map (\<lambda>i. i * 64) [0..<64])
      = (case slots_scan nm (map (page_slot ?pg) [0..<?k]) 0 of
         SExists \<Rightarrow> Exists
       | SAt i \<Rightarrow> if i < ?k then Hole (i * 64) else if ?k < 64 then AtEnd (?k * 64) else Full)"
    using assms page_okD(4) [OF assms(3)] page_nslots_le dir_okD(3) [OF assms(2)]
    by (intro add_scan_slots) auto
  have rel: "dir_put_page (unlock_page ?s2 d n) d n = s0"
    using unlock_lock_hold [OF assms(3)] dir_put_hold [OF assms(3)] by simp
  have A: "add_scan (sbi ?s2) nm (p_data (page_of ?s2 d n)) (gbfs_last_byte (inodes ?s2 d) n)
        (for_offs 0 (s_dirsize (sbi ?s2)) (int PAGE_SIZE - int (s_dirsize (sbi ?s2))))
      = (case slots_scan nm (map (page_slot ?pg) [0..<?k]) 0 of
         SExists \<Rightarrow> Exists
       | SAt i \<Rightarrow> if i < ?k then Hole (i * 64) else if ?k < 64 then AtEnd (?k * 64) else Full)"
    by (simp only: l2 last_byte_slots [OF assms(2)] dir_okD(2) [OF assms(2)] for_offs_page sc)
  have z: "set_de_inode ?s2 d n p 0 = dirtied s0 d n (buf_write p (le_enc 4 0) ?pg)" for p
    by (rule set_de_inode_dirtied)
  show ?thesis
    unfolding add_pages.simps(2) assms(1) prod.case option.case Let_def A rel z
    by (simp add: lock_hold_dirtied split: slot_pos.split del: add_pages.simps)
qed

lemma page_nslots_full: "dir_ok s d \<Longrightarrow> n < nslots s d div 64 \<Longrightarrow> page_nslots s d n = 64"
  by (simp add: page_nslots_def)

lemma slots_scan_page:
  assumes "dir_ok s d" "n < dir_pages (inodes s d)"
  shows "slots_scan nm (drop (64 * n) (dir_slots s d)) (64 * n) =
    (let r = slots_scan nm (map (page_slot (p_data (page_of s d n))) [0..<page_nslots s d n]) 0 in
     if r = SAt (page_nslots s d n)
     then slots_scan nm (drop (64 * Suc n) (dir_slots s d)) (64 * n + page_nslots s d n)
     else case r of SAt j \<Rightarrow> SAt (64 * n + j) | SExists \<Rightarrow> SExists)"
proof -
  let ?P = "map (page_slot (p_data (page_of s d n))) [0..<page_nslots s d n]"
  have sh: "slots_scan nm ?P (64 * n)
      = (case slots_scan nm ?P 0 of SAt j \<Rightarrow> SAt (64 * n + j) | SExists \<Rightarrow> SExists)"
    using slots_scan_shift [of nm ?P "64 * n" 0] by simp
  show ?thesis
    by (simp add: drop_dir_slots [OF assms] slots_scan_append sh Let_def split: slot_pos.split)
qed

lemma page_nslots_last:
  assumes "dir_ok s d" "n < dir_pages (inodes s d)" "page_nslots s d n \<noteq> 64"
  shows "nslots s d = 64 * n + page_nslots s d n"
proof -
  have "n = nslots s d div 64" using assms(3) by (auto simp: page_nslots_def split: if_splits)
  then show ?thesis by (simp add: page_nslots_def)
qed

text \<open>The pages before the slot that is chosen are walked without a trace.\<close>

lemma add_pages_reach:
  assumes "cache_ok K" "dir_ok s d" "valid_name nm"
    and "slots_scan nm (drop (64 * n) (dir_slots s d)) (64 * n) = SAt i" and "n \<le> i div 64"
    and "i \<le> nslots s d"
  shows "add_pages K s d nm h [n..<Suc (dir_pages (inodes s d))]
       = add_pages K s d nm h [i div 64..<Suc (dir_pages (inodes s d))]
    \<and> slots_scan nm (drop (64 * (i div 64)) (dir_slots s d)) (64 * (i div 64)) = SAt i"
  using assms(4,5)
proof (induction "i div 64 - n" arbitrary: n)
  case 0
  then show ?case by simp
next
  case (Suc x)
  then have lt: "n < i div 64" by simp
  then have n: "n < nslots s d div 64" "n < dir_pages (inodes s d)"
    using assms(6) dir_pages_slots [OF assms(2)] div_le_mono [OF assms(6), of 64] by auto
  let ?r = "slots_scan nm (map (page_slot (p_data (page_of s d n))) [0..<64]) 0"
  have k: "page_nslots s d n = 64" using page_nslots_full [OF assms(2) n(1)] .
  have pok: "page_ok s d n" using dir_okD(5) [OF assms(2) n(2)] .
  have r: "?r = SAt 64"
  proof (rule ccontr)
    assume ne: "?r \<noteq> SAt 64"
    then obtain j where j: "?r = SAt j" "i = 64 * n + j"
      using slots_scan_page [OF assms(2) n(2), of nm] Suc.prems(1) k
      by (auto simp: Let_def split: slot_pos.splits)
    then have "j \<le> 64" using slots_scan_SAt [OF j(1)] by simp
    with j ne have "j < 64" by (cases "j = 64") auto
    with j lt show False by simp
  qed
  have "slots_scan nm (drop (64 * Suc n) (dir_slots s d)) (64 * Suc n) = SAt i"
    using slots_scan_page [OF assms(2) n(2), of nm] Suc.prems(1) r k by (simp add: add.commute)
  moreover have "add_pages K s d nm h [n..<Suc (dir_pages (inodes s d))]
      = add_pages K s d nm h [Suc n..<Suc (dir_pages (inodes s d))]"
    using add_pages_step [OF dir_get_page_ok [OF assms(1) pok] assms(2) pok assms(3)] n r k
    by (simp add: upt_conv_Cons del: upt_Suc add_pages.simps)
  ultimately show ?case using Suc.hyps(1) [of "Suc n"] Suc.hyps(2) lt by simp
qed

lemma add_pages_exists:
  assumes "cache_ok K" "dir_ok s d" "valid_name nm"
    and "slots_scan nm (drop (64 * n) (dir_slots s d)) (64 * n) = SExists"
    and "n \<le> dir_pages (inodes s d)"
  shows "add_pages K s d nm h [n..<Suc (dir_pages (inodes s d))] = (s, Err EEXIST)"
  using assms(4,5)
proof (induction "dir_pages (inodes s d) - n" arbitrary: n)
  case 0
  then have "length (dir_slots s d) \<le> 64 * n" using dir_pages_slots [OF assms(2)] by simp
  with 0 show ?case by simp
next
  case (Suc x)
  then have n: "n < dir_pages (inodes s d)" by simp
  then have n': "n \<le> nslots s d div 64" using dir_pages_slots [OF assms(2)] by linarith
  let ?k = "page_nslots s d n"
  let ?r = "slots_scan nm (map (page_slot (p_data (page_of s d n))) [0..<?k]) 0"
  have pok: "page_ok s d n" using dir_okD(5) [OF assms(2) n] .
  note step = add_pages_step [OF dir_get_page_ok [OF assms(1) pok] assms(2) pok assms(3) n']
  note page = slots_scan_page [OF assms(2) n, of nm]
  have up: "[n..<Suc (dir_pages (inodes s d))] = n # [Suc n..<Suc (dir_pages (inodes s d))]"
    using n by (simp add: upt_conv_Cons del: upt_Suc)
  show ?case
  proof (cases ?r)
    case SExists
    then show ?thesis by (simp only: up step slot_pos.case)
  next
    case (SAt j)
    have "j = ?k" using SAt page Suc.prems(1) by (auto simp: Let_def split: if_splits)
    have k: "?k = 64"
    proof (rule ccontr)
      assume "?k \<noteq> 64"
      then have "nslots s d \<le> 64 * Suc n"
        using page_nslots_last [OF assms(2) n] page_nslots_le [of s d n] by simp
      then show False using SAt \<open>j = ?k\<close> page Suc.prems(1) by simp
    qed
    then have "slots_scan nm (drop (64 * Suc n) (dir_slots s d)) (64 * Suc n) = SExists"
      using SAt \<open>j = ?k\<close> page Suc.prems(1) by (simp add: add.commute)
    moreover have "add_pages K s d nm h [n..<Suc (dir_pages (inodes s d))]
        = add_pages K s d nm h [Suc n..<Suc (dir_pages (inodes s d))]"
      unfolding up step SAt using k \<open>j = ?k\<close> by simp
    ultimately show ?thesis using Suc.hyps(1) [of "Suc n"] Suc.hyps(2) n by simp
  qed
qed

text \<open>
  The page that the chosen slot lies in is either resident, or, when the directory grows
  by a page, read in; \<open>s0\<close> is the state with that page present.
\<close>

definition page_ready :: "'d kernel \<Rightarrow> 'd gstate \<Rightarrow> nat \<Rightarrow> nat \<Rightarrow> 'd gstate \<Rightarrow> bool" where
  "page_ready K s d n s0 \<longleftrightarrow> dir_get_page K s d n = (hold s0 d n, None)
     \<and> dir_ok s0 d \<and> page_ok s0 d n \<and> dir_frame s s0 d \<and> inodes s0 = inodes s
     \<and> kdb s0 = kdb s \<and> dir_slots s0 d = dir_slots s d"

lemma slots_scan_at_page:
  assumes "dir_ok s0 d" "i \<le> nslots s0 d"
    and sc: "slots_scan nm (drop (64 * (i div 64)) (dir_slots s0 d)) (64 * (i div 64)) = SAt i"
  defines "n \<equiv> i div 64"
  shows "slots_scan nm (map (page_slot (p_data (page_of s0 d n))) [0..<page_nslots s0 d n]) 0
      = SAt (i mod 64)"
    and "i mod 64 < page_nslots s0 d n \<or> i = nslots s0 d \<and> page_nslots s0 d n = i mod 64"
proof -
  let ?r = "slots_scan nm (map (page_slot (p_data (page_of s0 d n))) [0..<page_nslots s0 d n]) 0"
  have n: "64 * n + i mod 64 = i" by (simp add: n_def)
  have sc': "slots_scan nm (drop (64 * n) (dir_slots s0 d)) (64 * n) = SAt i"
    using sc by (simp only: n_def)
  have both: "?r = SAt (i mod 64) \<and>
      (i mod 64 < page_nslots s0 d n \<or> i = nslots s0 d \<and> page_nslots s0 d n = i mod 64)"
  proof (cases "n < dir_pages (inodes s0 d)")
    case False
    then have "nslots s0 d \<le> 64 * n" using dir_pages_slots [OF assms(1)] by simp
    then have "i = nslots s0 d" "i mod 64 = 0" using assms(2) n by linarith+
    then show ?thesis by (simp add: page_nslots_def n_def)
  next
    case True
    note page = slots_scan_page [OF assms(1) True, of nm]
    show ?thesis
    proof (cases "?r = SAt (page_nslots s0 d n)")
      case eq: True
      have "page_nslots s0 d n < 64"
      proof (rule ccontr)
        assume "\<not> page_nslots s0 d n < 64"
        then have "page_nslots s0 d n = 64" using page_nslots_le [of s0 d n] by simp
        then have "slots_scan nm (drop (64 * Suc n) (dir_slots s0 d)) (64 * Suc n) = SAt i"
          using page eq sc' by (simp add: add.commute)
        then have "64 * Suc n \<le> i" using slots_scan_SAt by blast
        moreover have "i < 64 * n + 64" using n mod_less_divisor [of 64 i] by linarith
        ultimately show False by simp
      qed
      then have N: "nslots s0 d = 64 * n + page_nslots s0 d n"
        using page_nslots_last [OF assms(1) True] by simp
      have "drop (64 * Suc n) (dir_slots s0 d) = []"
        using N page_nslots_le [of s0 d n] by simp
      then have "slots_scan nm (drop (64 * n) (dir_slots s0 d)) (64 * n) = SAt (nslots s0 d)"
        using page eq N by simp
      with sc' have "i = nslots s0 d" by simp
      moreover from this N n have "page_nslots s0 d n = i mod 64" by linarith
      ultimately show ?thesis using eq by metis
    next
      case False
      then obtain j where j: "?r = SAt j" "i = 64 * n + j"
        using page sc' by (cases ?r) (auto simp: Let_def)
      then have "j < page_nslots s0 d n" using slots_scan_SAt [OF j(1)] False
        by (cases "j = page_nslots s0 d n") auto
      with j n show ?thesis by simp
    qed
  qed
  then show "?r = SAt (i mod 64)"
    and "i mod 64 < page_nslots s0 d n \<or> i = nslots s0 d \<and> page_nslots s0 d n = i mod 64"
    by blast+
qed

lemma dir_frame_trans:
  assumes "dir_frame s s1 d" "dir_frame s1 s2 d"
  shows "dir_frame s s2 d"
  using assms by (auto simp: dir_frame_def)

text \<open>Filling the chosen slot: the free one found, or the one at the end of the directory.\<close>

lemma add_hole:
  assumes "wop_ok K" "dir_ok s d" "i < nslots s d" "valid_name nm"
  obtains s' err where
    "add_got_it K (dirtied s d (i div 64) (p_data (page_of s d (i div 64)))) d (i div 64)
       (i mod 64 * 64) nm h = (s', err)"
    "dir_slots s' d = (dir_slots s d)[i := (i_ino (inodes s h) mod 2 ^ 32, nm)]"
    "dir_ok s' d" "dir_frame s s' d" "\<not> i_dirsync (inodes s d) \<longrightarrow> err = Ok \<and> kdb s' = kdb s"
proof -
  let ?n = "i div 64" and ?pg = "p_data (page_of s d (i div 64))" and ?ino = "i_ino (inodes s h)"
  let ?data = "fill_entry (i mod 64 * 64) nm ?ino ?pg"
  have nm: "length nm \<le> 60" using assms(4) by (simp add: valid_name_def)
  have len: "length ?pg = PAGE_SIZE" using page_okD(4) [OF slot_page_ok [OF assms(2,3)]] .
  have len': "length ?data = PAGE_SIZE" using length_fill_entry [OF len _ nm] by simp
  obtain now b k err where r: "add_got_it K (dirtied s d ?n ?pg) d ?n (i mod 64 * 64) nm h =
      (dir_upd s d ?n ?data (i_size (inodes s d)) now b k, err)"
    and e: "\<not> i_dirsync (inodes s d) \<longrightarrow> k = kdb s \<and> err = Ok"
    using add_got_it_shape [OF assms(1) dir_okD(2) [OF assms(2)] nm, of d ?n ?pg "i mod 64 * 64" h]
    unfolding slot_write_size [OF assms(2,3)] by blast
  let ?s' = "dir_upd s d ?n ?data (i_size (inodes s d)) now b k"
  have "dir_slots ?s' d = (dir_slots s d)[64 * ?n + i mod 64 := (?ino mod 2 ^ 32, nm)]"
    using page_slot_fill [OF len _ assms(4), of "i mod 64" ?ino]
    by (intro dir_slots_dir_upd_same) (auto simp: nslots_def)
  then have "dir_slots ?s' d = (dir_slots s d)[i := (?ino mod 2 ^ 32, nm)]"
    by (simp only: slot_index)
  moreover have "dir_ok ?s' d" using assms(2) len'
    by (intro dir_ok_dir_upd) (auto simp: dir_ok_def dir_pages_def)
  moreover have "dir_frame s ?s' d" by (rule dir_frame_dir_upd [OF len'])
  ultimately show ?thesis by (rule that [OF r]) (use e in auto)
qed

lemma add_at_end:
  assumes "wop_ok K" "dir_ok s d" "i = nslots s d" "page_ok s d (i div 64)" "valid_name nm"
  obtains s' err where
    "add_got_it K (dirtied s d (i div 64)
       (buf_write (i mod 64 * 64) (le_enc 4 0) (p_data (page_of s d (i div 64))))) d (i div 64)
       (i mod 64 * 64) nm h = (s', err)"
    "dir_slots s' d = dir_slots s d @ [(i_ino (inodes s h) mod 2 ^ 32, nm)]"
    "dir_ok s' d" "dir_frame s s' d" "\<not> i_dirsync (inodes s d) \<longrightarrow> err = Ok \<and> kdb s' = kdb s"
proof -
  let ?n = "i div 64" and ?pg = "p_data (page_of s d (i div 64))" and ?ino = "i_ino (inodes s h)"
  let ?zpg = "buf_write (i mod 64 * 64) (le_enc 4 0) ?pg"
  let ?data = "fill_entry (i mod 64 * 64) nm ?ino ?zpg"
  have nm: "length nm \<le> 60" using assms(5) by (simp add: valid_name_def)
  have len: "length ?pg = PAGE_SIZE" using page_okD(4) [OF assms(4)] .
  have len0: "length ?zpg = PAGE_SIZE" using len by simp
  have len': "length ?data = PAGE_SIZE" using length_fill_entry [OF len0 _ nm] by simp
  have size: "i_size (inodes s d) = i * 64" using dir_okD(4) [OF assms(2)] assms(3) by simp
  have pos: "?n * PAGE_SIZE + i mod 64 * 64 = i * 64" using div_mult_mod_eq [of i 64] by linarith
  then have mx: "max (i_size (inodes s d)) (?n * PAGE_SIZE + i mod 64 * 64 + 64) = i * 64 + 64"
    using size by simp
  obtain now b k err where r: "add_got_it K (dirtied s d ?n ?zpg) d ?n (i mod 64 * 64) nm h =
      (dir_upd s d ?n ?data (i * 64 + 64) now b k, err)"
    and e: "\<not> i_dirsync (inodes s d) \<longrightarrow> k = kdb s \<and> err = Ok"
    using add_got_it_shape [OF assms(1) dir_okD(2) [OF assms(2)] nm, of d ?n ?zpg "i mod 64 * 64" h]
    unfolding mx by blast
  let ?s' = "dir_upd s d ?n ?data (i * 64 + 64) now b k"
  have "page_slot ?data j = (if j = i mod 64 then (?ino mod 2 ^ 32, nm) else page_slot ?pg j)" for j
    using page_slot_fill [OF len0 _ assms(5), of "i mod 64" ?ino j]
      page_slot_set_inode [OF len, of "i mod 64" 0 j] by simp
  then have "dir_slots ?s' d = dir_slots s d @ [(?ino mod 2 ^ 32, nm)]"
    using assms(3) by (intro dir_slots_dir_upd_append [where i = "i mod 64"]) auto
  moreover have "dir_ok ?s' d"
  proof (rule dir_ok_dir_upd [OF assms(2) len'])
    fix m
    assume "m < (4095 + (i * 64 + 64)) div PAGE_SIZE"
    then have "m \<le> i div 64" by linarith
    then show "m = ?n \<or> m < dir_pages (inodes s d)"
      using dir_pages_slots [OF assms(2)] assms(3) by linarith
  qed simp
  moreover have "dir_frame s ?s' d" by (rule dir_frame_dir_upd [OF len'])
  ultimately show ?thesis by (rule that [OF r]) (use e in auto)
qed

lemma add_link_slots:
  assumes "cache_ok K" "wop_ok K" "dir_ok s d" "valid_name (d_name de)" "d_parent de = d"
    and sc: "slots_scan (d_name de) (dir_slots s d) 0 = SAt i"
    and ready: "page_ready K s d (i div 64) s0"
  obtains s' err where
    "gbfs_add_link K s de h = (s', err)"
    "dir_slots s' d = slots_put i (i_ino (inodes s h) mod 2 ^ 32, d_name de) (dir_slots s d)"
    "dir_ok s' d" "dir_frame s s' d" "\<not> i_dirsync (inodes s d) \<longrightarrow> err = Ok \<and> kdb s' = kdb s"
proof -
  let ?nm = "d_name de" and ?n = "i div 64" and ?P = "dir_pages (inodes s d)"
  have i: "i \<le> nslots s d" using slots_scan_SAt [OF sc] by simp
  note s0 = ready [unfolded page_ready_def]
  have sl: "dir_slots s0 d = dir_slots s d" and ns: "nslots s0 d = nslots s d"
    using s0 by (auto simp: nslots_def)
  have n: "?n < Suc ?P" using i dir_pages_slots [OF assms(3)] by linarith
  have "add_pages K s d ?nm h [0..<Suc ?P] = add_pages K s d ?nm h [?n..<Suc ?P]
      \<and> slots_scan ?nm (drop (64 * ?n) (dir_slots s d)) (64 * ?n) = SAt i"
    using add_pages_reach [OF assms(1,3,4), of 0 i h] sc i by simp
  then have walk: "gbfs_add_link K s de h = add_pages K s d ?nm h (?n # [Suc ?n..<Suc ?P])"
    and sc': "slots_scan ?nm (drop (64 * ?n) (dir_slots s0 d)) (64 * ?n) = SAt i"
    using n assms(5) sl by (simp_all add: gbfs_add_link_def Let_def upt_conv_Cons del: upt_Suc)
  have "?n \<le> nslots s0 d div 64" using i ns div_le_mono by simp
  note step = add_pages_step [of K s d ?n s0 ?nm h, OF _ _ _ assms(4) this]
  have i0: "i \<le> nslots s0 d" using i ns by simp
  note at = slots_scan_at_page [OF _ i0 sc']
  have ok0: "dir_ok s0 d" "page_ok s0 d ?n" "inodes s0 = inodes s" using s0 by auto
  show ?thesis
  proof (cases "i < nslots s d")
    case True
    then have lt: "i mod 64 < page_nslots s0 d ?n" using at(2) [OF ok0(1)] ns by auto
    obtain s' err where r: "add_got_it K (dirtied s0 d ?n (p_data (page_of s0 d ?n))) d ?n
         (i mod 64 * 64) ?nm h = (s', err)"
      and p: "dir_slots s' d = (dir_slots s0 d)[i := (i_ino (inodes s0 h) mod 2 ^ 32, ?nm)]"
        "dir_ok s' d" "dir_frame s0 s' d"
        "\<not> i_dirsync (inodes s0 d) \<longrightarrow> err = Ok \<and> kdb s' = kdb s0"
      using add_hole [OF assms(2) ok0(1) _ assms(4), of i h] True ns by metis
    have "gbfs_add_link K s de h = (s', err)"
      unfolding walk using step at(1) [OF ok0(1)] lt r s0 by (simp del: add_pages.simps)
    then show ?thesis
      by (rule that) (use p s0 sl True dir_frame_trans in \<open>auto simp: slots_put_def\<close>)
  next
    case False
    then have ie: "i = nslots s0 d" using i ns by simp
    then have k: "page_nslots s0 d ?n = i mod 64" by (simp add: page_nslots_def)
    obtain s' err where r: "add_got_it K (dirtied s0 d ?n
          (buf_write (i mod 64 * 64) (le_enc 4 0) (p_data (page_of s0 d ?n)))) d ?n
         (i mod 64 * 64) ?nm h = (s', err)"
      and p: "dir_slots s' d = dir_slots s0 d @ [(i_ino (inodes s0 h) mod 2 ^ 32, ?nm)]"
        "dir_ok s' d" "dir_frame s0 s' d"
        "\<not> i_dirsync (inodes s0 d) \<longrightarrow> err = Ok \<and> kdb s' = kdb s0"
      using add_at_end [OF assms(2) ok0(1) ie ok0(2) assms(4), of h] by metis
    have "gbfs_add_link K s de h = (s', err)"
      unfolding walk using step at(1) [OF ok0(1)] k r s0 by (simp del: add_pages.simps)
    then show ?thesis
      by (rule that) (use p s0 sl ie ns dir_frame_trans in \<open>auto simp: slots_put_def\<close>)
  qed
qed

lemma add_link_exists:
  assumes "cache_ok K" "dir_ok s (d_parent de)" "valid_name (d_name de)"
    and "slots_scan (d_name de) (dir_slots s (d_parent de)) 0 = SExists"
  shows "gbfs_add_link K s de h = (s, Err EEXIST)"
  using add_pages_exists [OF assms(1-3), of 0] assms(4)
  by (simp add: gbfs_add_link_def Let_def del: upt_Suc)

text \<open>The two ways a page gets ready.\<close>

lemma page_ready_resident:
  assumes "cache_ok K" "dir_ok s d" "page_ok s d n"
  shows "page_ready K s d n s"
  using assms dir_get_page_ok by (auto simp: page_ready_def dir_frame_def)

definition grown :: "'d gstate \<Rightarrow> nat \<Rightarrow> nat \<Rightarrow> byte list \<Rightarrow> 'd gstate" where
  "grown s d n data = upd_page s d n (\<lambda>p. blank_page\<lparr>p_data := data, p_uptodate := True\<rparr>)"

lemma page_ready_grown:
  assumes "dir_ok s d" "pcache s (d, n) = None" "length data = PAGE_SIZE"
    and r: "read_mapping_page K s d n =
      (upd_page s d n (\<lambda>p. blank_page\<lparr>p_data := data, p_uptodate := True, p_ref := 1\<rparr>), None)"
  shows "page_ready K s d n (grown s d n data)"
proof -
  have other: "page_ok (grown s d n data) d m \<longleftrightarrow> m = n \<or> page_ok s d m" for m
    using assms(3) by (auto simp: page_ok_def grown_def pcache_upd_page blank_page_def)
  have nok: "\<not> page_ok s d n" using assms(2) by (simp add: page_ok_def)
  have "dir_get_page K s d n = (hold (grown s d n data) d n, None)"
    by (simp add: dir_get_page_def r hold_def grown_def gstate_norm blank_page_def)
  moreover have "dir_ok (grown s d n data) d"
    using assms(1) other by (auto simp: dir_ok_def sb_ok_def grown_def)
  moreover have "dir_slots (grown s d n data) d = dir_slots s d"
  proof (rule nth_equalityI)
    fix j
    assume "j < length (dir_slots (grown s d n data) d)"
    then have j: "j < nslots s d" by (simp add: nslots_def grown_def)
    then have "j div 64 \<noteq> n" using slot_page_ok [OF assms(1) j] nok by auto
    then show "dir_slots (grown s d n data) d ! j = dir_slots s d ! j"
      using j by (simp add: dir_slots_def nslots_def dir_slot_def grown_def)
  qed (simp add: nslots_def grown_def)
  ultimately show ?thesis
    using other nok by (auto simp: page_ready_def dir_frame_def grown_def pcache_upd_page)
qed

section \<open>The emptiness test\<close>

definition slot_blocks :: "nat \<Rightarrow> slot \<Rightarrow> bool" where
  "slot_blocks ino sl \<longleftrightarrow> live sl \<and> \<not> (snd sl = [46] \<and> fst sl = ino) \<and> snd sl \<noteq> [46, 46]"

lemma takeWhile_dot_names:
  assumes "3 \<le> length b"
  shows "takeWhile (\<lambda>c. c \<noteq> 0) b = [46 :: byte] \<longleftrightarrow> b ! 0 = 46 \<and> b ! 1 = 0"
    and "takeWhile (\<lambda>c. c \<noteq> 0) b = [46 :: byte, 46] \<longleftrightarrow> b ! 0 = 46 \<and> b ! 1 = 46 \<and> b ! 2 = 0"
proof -
  obtain x y z r where b: "b = x # y # z # r"
    using assms by (auto simp: numeral_3_eq_3 Suc_le_length_iff)
  have ne: "(46 :: byte) \<noteq> 0" by simp
  show "takeWhile (\<lambda>c. c \<noteq> 0) b = [46 :: byte] \<longleftrightarrow> b ! 0 = 46 \<and> b ! 1 = 0"
    and "takeWhile (\<lambda>c. c \<noteq> 0) b = [46 :: byte, 46] \<longleftrightarrow> b ! 0 = 46 \<and> b ! 1 = 46 \<and> b ! 2 = 0"
    unfolding b using ne by (auto simp: nth_Cons')
qed

lemma entry_blocks_slot:
  assumes "length pg = PAGE_SIZE" "i < 64"
  shows "entry_blocks ino pg (i * 64) \<longleftrightarrow> slot_blocks ino (page_slot pg i)"
proof -
  have "3 \<le> length (take 60 (de_name pg (i * 64)))" using assms by (simp add: de_name_def)
  note dots = takeWhile_dot_names [OF this]
  have n: "take 60 (de_name pg (i * 64)) ! k = de_name pg (i * 64) ! k" if "k < 60" for k
    using that by simp
  show ?thesis
    unfolding entry_blocks_def slot_blocks_def page_slot_def live_def Let_def fst_conv snd_conv dots
    by (auto simp: n)
qed

lemma empty_pages_slots:
  assumes "cache_ok K" "dir_ok s d" "n \<le> dir_pages (inodes s d)"
  shows "empty_pages K s d [n..<dir_pages (inodes s d)]
    = (s, \<not> list_ex (slot_blocks (i_ino (inodes s d))) (drop (64 * n) (dir_slots s d)))"
  using assms(3)
proof (induction "dir_pages (inodes s d) - n" arbitrary: n)
  case 0
  then have "n = dir_pages (inodes s d)" by simp
  moreover from this have "nslots s d \<le> 64 * n" using dir_pages_slots [OF assms(2)] by simp
  ultimately show ?case by simp
next
  case (Suc x)
  then have n: "n < dir_pages (inodes s d)" by simp
  let ?k = "page_nslots s d n" and ?pg = "p_data (page_of s d n)" and ?B = "slot_blocks (i_ino (inodes s d))"
  have pok: "page_ok s d n" using dir_okD(5) [OF assms(2)] n by blast
  have offs: "for_offs 0 64 (int (?k * 64) - int 64) = map (\<lambda>i. i * 64) [0..<?k]"
    using for_offs_multiple [of 64 ?k] by simp
  have "list_ex (entry_blocks (i_ino (inodes s d)) ?pg) (map (\<lambda>i. i * 64) [0..<?k])
      \<longleftrightarrow> (\<exists>i \<in> {0..<?k}. entry_blocks (i_ino (inodes s d)) ?pg (i * 64))"
    by (simp add: list_ex_iff)
  also have "\<dots> \<longleftrightarrow> (\<exists>i \<in> {0..<?k}. ?B (page_slot ?pg i))"
    using entry_blocks_slot [OF page_okD(4) [OF pok]] page_nslots_le [of s d n]
    by (intro bex_cong) auto
  also have "\<dots> \<longleftrightarrow> list_ex ?B (map (page_slot ?pg) [0..<?k])" by (simp add: list_ex_iff)
  finally have pg: "list_ex (entry_blocks (i_ino (inodes s d)) ?pg) (map (\<lambda>i. i * 64) [0..<?k])
      \<longleftrightarrow> list_ex ?B (map (page_slot ?pg) [0..<?k])" .
  have unf: "empty_pages K s d [n..<dir_pages (inodes s d)]
      = (if list_ex ?B (map (page_slot ?pg) [0..<?k]) then (s, False)
         else empty_pages K s d [Suc n..<dir_pages (inodes s d)])"
    unfolding upt_conv_Cons [OF n] empty_pages.simps(2) dir_get_page_ok [OF assms(1) pok] prod.case
      option.case Let_def hold_frame last_byte_slots [OF assms(2)] dir_okD(2) [OF assms(2)] offs pg
      dir_put_hold [OF pok] ..
  show ?case using Suc.hyps(1) [of "Suc n"] Suc.hyps(2) n
    by (simp add: unf drop_dir_slots [OF assms(2) n])
qed

lemma empty_dir_slots:
  assumes "cache_ok K" "dir_ok s d"
  shows "gbfs_empty_dir K s d
    = (s, \<forall>sl \<in> set (dir_slots s d). \<not> slot_blocks (i_ino (inodes s d)) sl)"
  using empty_pages_slots [OF assms, of 0] by (auto simp: gbfs_empty_dir_def list_ex_iff)

section \<open>readdir\<close>

fun slots_emit ::
    "('c \<Rightarrow> byte list \<Rightarrow> nat \<Rightarrow> bool \<times> 'c) \<Rightarrow> slot list \<Rightarrow> 'c \<Rightarrow> nat \<Rightarrow> bool \<times> 'c \<times> nat" where
  "slots_emit emit [] c pos = (True, c, pos)"
| "slots_emit emit (sl # sls) c pos =
     (if live sl then
        (case emit c (snd sl) (fst sl) of
           (False, c') \<Rightarrow> (False, c', pos)
         | (True, c') \<Rightarrow> slots_emit emit sls c' (pos + 64))
      else slots_emit emit sls c (pos + 64))"

lemma slots_emit_append:
  "slots_emit emit (xs @ ys) c pos =
     (case slots_emit emit xs c pos of
        (False, c', pos') \<Rightarrow> (False, c', pos')
      | (True, c', pos') \<Rightarrow> slots_emit emit ys c' pos')"
  by (induction xs arbitrary: c pos) (auto split: prod.splits bool.splits)

lemma take_strnlen: "take (strnlen b m) b = takeWhile (\<lambda>c. c \<noteq> 0) (take m b)"
proof -
  have "take (length (takeWhile (\<lambda>c. c \<noteq> 0) (take m b))) (take m b)
      = takeWhile (\<lambda>c. c \<noteq> 0) (take m b)"
    by (metis takeWhile_eq_take)
  moreover have "length (takeWhile (\<lambda>c. c \<noteq> 0) (take m b)) \<le> m"
    by (metis length_takeWhile_le length_take le_trans min.cobounded2)
  ultimately show ?thesis by (simp add: strnlen_def min_absorb1)
qed

lemma readdir_page_slots:
  assumes "s_namelen sb = 60" "s_dirsize sb = 64"
  shows "readdir_page emit sb pg (map (\<lambda>i. i * 64) is) c pos
    = slots_emit emit (map (page_slot pg) is) c pos"
proof (induction "is" arbitrary: c pos)
  case (Cons i "is")
  have "take (strnlen (de_name pg (i * 64)) 60) (de_name pg (i * 64)) = snd (page_slot pg i)"
    and "de_inode pg (i * 64) = fst (page_slot pg i)"
    by (simp_all add: take_strnlen page_slot_def)
  then show ?case using Cons assms
    by (simp add: live_def Let_def split: prod.split bool.split)
qed simp

lemma readdir_pages_slots:
  assumes "cache_ok K" "dir_ok s d" "n \<le> dir_pages (inodes s d)" "j \<le> 64"
    and "n < dir_pages (inodes s d) \<Longrightarrow> j \<le> page_nslots s d n"
    and "n = dir_pages (inodes s d) \<Longrightarrow> j = 0"
  shows "readdir_pages K emit s d [n..<dir_pages (inodes s d)] (j * 64) c pos
    = (case slots_emit emit (drop (64 * n + j) (dir_slots s d)) c pos of (_, c', pos') \<Rightarrow> (s, c', pos'))"
  using assms(3-)
proof (induction "dir_pages (inodes s d) - n" arbitrary: n j c pos)
  case 0
  then have "n = dir_pages (inodes s d)" by simp
  moreover from this have "nslots s d \<le> 64 * n" using dir_pages_slots [OF assms(2)] by simp
  ultimately show ?case by simp
next
  case (Suc x)
  then have n: "n < dir_pages (inodes s d)" by simp
  let ?k = "page_nslots s d n" and ?pg = "p_data (page_of s d n)"
  have jk: "j \<le> ?k" using Suc.prems(3) n by simp
  have pok: "page_ok s d n" using dir_okD(5) [OF assms(2)] n by blast
  have offs: "for_offs (j * 64) 64 (int (?k * 64) - int 64) = map (\<lambda>i. i * 64) [j..<?k]"
    using for_offs_from [of 64 j ?k] jk by simp
  have "drop j (map (page_slot ?pg) [0..<?k] @ drop (64 * Suc n) (dir_slots s d))
      = map (page_slot ?pg) [j..<?k] @ drop (64 * Suc n) (dir_slots s d)"
    using jk by (simp add: drop_map)
  then have drp: "drop (64 * n + j) (dir_slots s d)
      = map (page_slot ?pg) [j..<?k] @ drop (64 * Suc n) (dir_slots s d)"
    by (simp only: drop_drop [symmetric] add.commute [of "64 * n" j] drop_dir_slots [OF assms(2) n])
  have unf: "readdir_pages K emit s d [n..<dir_pages (inodes s d)] (j * 64) c pos
      = (case slots_emit emit (map (page_slot ?pg) [j..<?k]) c pos of
           (False, c', pos') \<Rightarrow> (s, c', pos')
         | (True, c', pos') \<Rightarrow> readdir_pages K emit s d [Suc n..<dir_pages (inodes s d)] (0 * 64) c' pos')"
    unfolding upt_conv_Cons [OF n] readdir_pages.simps(2) dir_get_page_ok [OF assms(1) pok] prod.case
      option.case Let_def hold_frame last_byte_slots [OF assms(2)] dir_okD(2) [OF assms(2)] offs
      readdir_page_slots [OF dir_okD(3,2) [OF assms(2)]] dir_put_hold [OF pok]
    by (simp split: prod.split bool.split)
  have IH: "readdir_pages K emit s d [Suc n..<dir_pages (inodes s d)] (0 * 64) c' pos'
      = (case slots_emit emit (drop (64 * Suc n) (dir_slots s d)) c' pos' of
           (_, c', pos') \<Rightarrow> (s, c', pos'))" for c' pos'
    using Suc.hyps(1) [of "Suc n" 0 c' pos'] Suc.hyps(2) n by simp
  show ?case unfolding unf IH drp slots_emit_append
    by (auto split: prod.split bool.split)
qed

lemma readdir_slots:
  assumes "cache_ok K" "dir_ok s d"
  shows "gbfs_readdir K emit s d c pos0 =
    (case slots_emit emit (drop (ALIGN pos0 64 div 64) (dir_slots s d)) c (ALIGN pos0 64) of
       (_, c', pos') \<Rightarrow> (s, c', pos'))"
proof -
  define q where "q = (pos0 + 63) div 64"
  have al: "ALIGN pos0 64 = q * 64" by (simp add: ALIGN_def q_def)
  have sz: "i_size (inodes s d) = nslots s d * 64" using dir_okD(4) [OF assms(2)] .
  show ?thesis
  proof (cases "nslots s d \<le> q")
    case True
    then show ?thesis using sz dir_okD(2) [OF assms(2)]
      by (simp add: gbfs_readdir_def Let_def al)
  next
    case False
    let ?n = "q div 64" and ?j = "q mod 64"
    have n: "?n < dir_pages (inodes s d)" using False dir_pages_slots [OF assms(2)] by simp
    have "?n \<le> nslots s d div 64" using False by (simp add: div_le_mono)
    moreover have "?n = nslots s d div 64 \<Longrightarrow> ?j < nslots s d mod 64"
      using False div_mult_mod_eq [of q 64] div_mult_mod_eq [of "nslots s d" 64] by linarith
    ultimately have j: "?j \<le> page_nslots s d ?n" by (auto simp: page_nslots_def less_imp_le)
    have d1: "q * 64 div PAGE_SIZE = ?n"
      using div_mult_mult2 [of 64 q 64] by simp
    have d2: "q * 64 mod PAGE_SIZE = ?j * 64"
      using mod_mult_mult2 [of q 64 64] by simp
    have "gbfs_readdir K emit s d c pos0
        = readdir_pages K emit s d [?n..<dir_pages (inodes s d)] (?j * 64) c (q * 64)"
      using False sz dir_okD(2) [OF assms(2)] d1 d2
      by (simp add: gbfs_readdir_def Let_def al)
    also have "\<dots> = (case slots_emit emit (drop (64 * ?n + ?j) (dir_slots s d)) c (q * 64) of
        (_, c', pos') \<Rightarrow> (s, c', pos'))"
      using n j less_imp_le [OF mod_less_divisor [of 64 q]]
      by (intro readdir_pages_slots [OF assms]) auto
    finally show ?thesis by (simp add: al)
  qed
qed

end
