(* ===== verification/Gbfs_Namei_Refine.thy ===== *)
theory Gbfs_Namei_Refine
  imports Gbfs_Namei Gbfs_Dir_Refine
begin

text \<open>
  The inode operations of \<open>namei.c\<close> against the name-space contract of \<open>Gbfs_Slots\<close>: each
  operation on a well-formed directory acts on its slot list as \<open>slots_insert\<close>,
  \<open>slots_remove\<close> or \<open>slots_redirect_to\<close>, keeps the well-formedness, changes the link counts
  it should and releases every page it took.
\<close>

section \<open>Directories seen through other updates\<close>

lemma dir_view_cong:
  assumes "i_size (inodes s' d) = i_size (inodes s d)" "\<And>n. p_data (page_of s' d n) = p_data (page_of s d n)"
  shows "dir_slots s' d = dir_slots s d"
  using assms by (auto simp: dir_slots_def nslots_def dir_slot_def)

lemma page_ok_upd_inode [simp]: "page_ok (upd_inode s h f) d n = page_ok s d n"
  by (simp add: page_ok_def)

lemma dir_view_upd_inode [simp]:
  assumes "i_size (f (inodes s h)) = i_size (inodes s h)"
  shows "dir_slots (upd_inode s h f) d = dir_slots s d" "dir_ok (upd_inode s h f) d = dir_ok s d"
  using assms
  by (auto intro!: dir_view_cong simp: dir_ok_def sb_ok_def dir_pages_def)

lemma link_count_upd:
  "inode_dec_link_count s h = upd_inode s h (\<lambda>i. i\<lparr>i_nlink := i_nlink i - 1, i_dirty := True\<rparr>)"
  "inode_inc_link_count s h = upd_inode s h (\<lambda>i. i\<lparr>i_nlink := i_nlink i + 1, i_dirty := True\<rparr>)"
  by (simp_all add: inode_dec_link_count_def inode_inc_link_count_def drop_nlink_def
      mark_inode_dirty_def gstate_norm)

lemma page_ok_hold [simp]: "page_ok s d n \<Longrightarrow> page_ok (hold s d n) d' m = page_ok s d' m"
  by (auto simp: page_ok_def hold_def pcache_upd_page page_of_def)

lemma dir_view_hold:
  assumes "page_ok s d n"
  shows "dir_slots (hold s d n) d' = dir_slots s d'" "dir_ok (hold s d n) d' = dir_ok s d'"
proof -
  show "dir_slots (hold s d n) d' = dir_slots s d'" by (rule dir_view_cong) simp_all
  show "dir_ok (hold s d n) d' = dir_ok s d'" using assms by (simp add: dir_ok_def sb_ok_def)
qed

text \<open>A held page: what one operation holds while another works on the same directory.\<close>

lemma hold_put:
  assumes "pcache s (d, n) = Some pg"
  shows "hold (dir_put_page s d n) d n = s"
  using assms by (cases pg) (auto simp: hold_def dir_put_page_def upd_page_def page_of_def fun_upd_idem)

lemma page_ok_put [simp]: "page_ok s d n \<Longrightarrow> page_ok (dir_put_page s d n) d' m = page_ok s d' m"
  by (auto simp: page_ok_def dir_put_page_def pcache_upd_page page_of_def)

lemma dir_put_frame [simp]:
  "inodes (dir_put_page s d n) = inodes s" "sbi (dir_put_page s d n) = sbi s"
  "kdb (dir_put_page s d n) = kdb s" "next_ino (dir_put_page s d n) = next_ino s"
  "p_data (page_of (dir_put_page s d n) d' m) = p_data (page_of s d' m)"
  by (simp_all add: dir_put_page_def)

lemma dir_view_put:
  assumes "page_ok s d n"
  shows "dir_slots (dir_put_page s d n) d' = dir_slots s d'" "dir_ok (dir_put_page s d n) d' = dir_ok s d'"
proof -
  show "dir_slots (dir_put_page s d n) d' = dir_slots s d'" by (rule dir_view_cong) simp_all
  show "dir_ok (dir_put_page s d n) d' = dir_ok s d'" using assms by (simp add: dir_ok_def sb_ok_def)
qed

text \<open>
  The counters of a directory's pages: \<open>pins s s' d\<close> says that the references and mappings
  of its resident pages are the same in both states.
\<close>

definition pins :: "'d gstate \<Rightarrow> 'd gstate \<Rightarrow> nat \<Rightarrow> bool" where
  "pins s s' d \<longleftrightarrow> (\<forall>m. page_ok s d m \<longrightarrow> page_ok s' d m
     \<and> p_ref (page_of s' d m) = p_ref (page_of s d m) \<and> p_kmap (page_of s' d m) = p_kmap (page_of s d m))"

lemma pins_refl [simp]: "pins s s d" by (simp add: pins_def)

lemma pins_trans: "pins s s1 d \<Longrightarrow> pins s1 s2 d \<Longrightarrow> pins s s2 d"
  by (auto simp: pins_def)

lemma dir_frameD:
  assumes "dir_frame s s' d"
  shows "sbi s' = sbi s" "next_ino s' = next_ino s" "h \<noteq> d \<Longrightarrow> inodes s' h = inodes s h"
    "h \<noteq> d \<Longrightarrow> pcache s' (h, m) = pcache s (h, m)" "i_ino (inodes s' d) = i_ino (inodes s d)"
    "i_nlink (inodes s' d) = i_nlink (inodes s d)" "i_mode (inodes s' d) = i_mode (inodes s d)"
    "i_dirsync (inodes s' d) = i_dirsync (inodes s d)" "pins s s' d"
  using assms by (auto simp: dir_frame_def pins_def)

lemma dir_frame_other:
  assumes "dir_frame s s' d" "h \<noteq> d"
  shows "dir_slots s' h = dir_slots s h" "dir_ok s' h = dir_ok s h" "pins s s' h"
proof -
  have i: "inodes s' h = inodes s h" "\<And>m. pcache s' (h, m) = pcache s (h, m)" "sbi s' = sbi s"
    using assms by (auto simp: dir_frame_def)
  then have p: "page_of s' h m = page_of s h m" for m by (simp add: page_of_def)
  show "dir_slots s' h = dir_slots s h" by (rule dir_view_cong) (simp_all add: i p)
  show "dir_ok s' h = dir_ok s h" by (simp add: dir_ok_def sb_ok_def page_ok_def i)
  show "pins s s' h" by (simp add: pins_def page_ok_def i p)
qed

section \<open>Search, insertion and removal by name\<close>

lemma find_entry_absent:
  assumes "cache_ok K" "dir_ok s (d_parent de)" "valid_name (d_name de)"
    and "slots_map (dir_slots s (d_parent de)) (d_name de) = None"
  shows "gbfs_find_entry K s de = (s, None)"
  using find_entry_slots [OF assms(1-3)] assms(4) by (simp add: slots_map_None_find)

lemma find_entry_present:
  assumes "cache_ok K" "dir_ok s (d_parent de)" "valid_name (d_name de)"
    and "slots_map (dir_slots s (d_parent de)) (d_name de) = Some ino"
  obtains i where "slots_find (d_name de) (dir_slots s (d_parent de)) 0 = Some i"
    "i < nslots s (d_parent de)" "dir_slot s (d_parent de) i = (ino, d_name de)"
    "gbfs_find_entry K s de = (hold s (d_parent de) (i div 64), Some (i div 64, i mod 64 * 64))"
    "page_ok s (d_parent de) (i div 64)"
proof -
  obtain i where i: "slots_find (d_name de) (dir_slots s (d_parent de)) 0 = Some i"
      "ino = fst (dir_slots s (d_parent de) ! i)"
    using assms(4) by (auto simp: slots_map_find [of _ _ 0])
  from slots_find_Some [OF i(1)]
  have lt: "i < nslots s (d_parent de)" and nm: "snd (dir_slots s (d_parent de) ! i) = d_name de"
    by auto
  show ?thesis
  proof (rule that [OF i(1) lt])
    show "dir_slot s (d_parent de) i = (ino, d_name de)"
      using i(2) nm lt by (simp add: prod_eq_iff)
    show "gbfs_find_entry K s de
        = (hold s (d_parent de) (i div 64), Some (i div 64, i mod 64 * 64))"
      using find_entry_slots [OF assms(1-3)] i(1) by simp
  qed (rule slot_page_ok [OF assms(2) lt])
qed

lemma add_link_insert:
  assumes "cache_ok K" "wop_ok K" "dir_ok s (d_parent de)" "valid_name (d_name de)"
    and "slots_scan (d_name de) (dir_slots s (d_parent de)) 0 = SAt i"
    and "page_ready K s (d_parent de) (i div 64) s0" "\<not> i_dirsync (inodes s (d_parent de))"
  obtains s' where "gbfs_add_link K s de h = (s', Ok)"
    "slots_insert (dir_slots s (d_parent de)) (d_name de) (i_ino (inodes s h) mod 2 ^ 32)
       = Some (dir_slots s' (d_parent de))"
    "dir_slots s' (d_parent de)
       = slots_put i (i_ino (inodes s h) mod 2 ^ 32, d_name de) (dir_slots s (d_parent de))"
    "dir_ok s' (d_parent de)" "dir_frame s s' (d_parent de)" "kdb s' = kdb s"
proof -
  obtain s' err where r: "gbfs_add_link K s de h = (s', err)"
    and p: "dir_slots s' (d_parent de)
        = slots_put i (i_ino (inodes s h) mod 2 ^ 32, d_name de) (dir_slots s (d_parent de))"
      "dir_ok s' (d_parent de)" "dir_frame s s' (d_parent de)"
      "\<not> i_dirsync (inodes s (d_parent de)) \<longrightarrow> err = Ok \<and> kdb s' = kdb s"
    using add_link_slots [OF assms(1-4) refl assms(5,6), of h] by metis
  then show ?thesis using that slots_insert_scan [OF assms(5)] assms(7) by simp
qed

text \<open>Deleting the entry at a slot that is held in the present state.\<close>

lemma delete_held:
  assumes "wop_ok K" "dir_ok s d" "slots_find nm (dir_slots s d) 0 = Some i"
    and "\<not> i_dirsync (inodes s d)"
  obtains s' where
    "gbfs_delete_entry K s d (i div 64, i mod 64 * 64) = (s', Ok)"
    "slots_remove (dir_slots s d) nm = Some (dir_slots s' d)"
    "dir_ok s' d" "dir_frame (dir_put_page s d (i div 64)) s' d" "kdb s' = kdb s"
proof -
  let ?t = "dir_put_page s d (i div 64)"
  have i: "i < nslots s d" "snd (dir_slot s d i) = nm"
    using slots_find_Some [OF assms(3)] by auto
  then have pok: "page_ok s d (i div 64)" using slot_page_ok [OF assms(2)] by blast
  have t: "hold ?t d (i div 64) = s" using hold_put page_okD(1) [OF pok] by blast
  have v: "dir_slots ?t d = dir_slots s d" "dir_ok ?t d" "nslots ?t d = nslots s d"
    using dir_view_put [OF pok, of d] assms(2) by (auto simp: nslots_def)
  have sl: "dir_slot ?t d i = dir_slot s d i" by (simp add: dir_slot_def)
  obtain s' err where "gbfs_delete_entry K (hold ?t d (i div 64)) d (i div 64, i mod 64 * 64) = (s', err)"
    "dir_slots s' d = (dir_slots ?t d)[i := (0, snd (dir_slot ?t d i))]"
    "dir_ok s' d" "dir_frame ?t s' d" "\<not> i_dirsync (inodes ?t d) \<longrightarrow> err = Ok \<and> kdb s' = kdb ?t"
    using delete_entry_slots [OF assms(1) v(2), of i] i v(3) by metis
  then show ?thesis using that assms(3,4) i unfolding t v sl by (auto simp: slots_remove_def)
qed

lemma set_link_held:
  assumes "wop_ok K" "dir_ok s d" "i < nslots s d" "\<not> i_dirsync (inodes s d)"
  obtains s' where
    "gbfs_set_link K s d (i div 64, i mod 64 * 64) h = s'"
    "dir_slots s' d = (dir_slots s d)[i := (i_ino (inodes s h) mod 2 ^ 32, snd (dir_slot s d i))]"
    "dir_ok s' d" "dir_frame (dir_put_page s d (i div 64)) s' d" "kdb s' = kdb s"
proof -
  let ?t = "dir_put_page s d (i div 64)"
  have pok: "page_ok s d (i div 64)" using slot_page_ok [OF assms(2,3)] .
  have t: "hold ?t d (i div 64) = s" using hold_put page_okD(1) [OF pok] by blast
  have v: "dir_slots ?t d = dir_slots s d" "dir_ok ?t d" "nslots ?t d = nslots s d"
    using dir_view_put [OF pok, of d] assms(2) by (auto simp: nslots_def)
  have sl: "dir_slot ?t d i = dir_slot s d i" by (simp add: dir_slot_def)
  obtain s' where "gbfs_set_link K (hold ?t d (i div 64)) d (i div 64, i mod 64 * 64) h = s'"
    "dir_slots s' d = (dir_slots ?t d)[i := (i_ino (inodes ?t h) mod 2 ^ 32, snd (dir_slot ?t d i))]"
    "dir_ok s' d" "dir_frame ?t s' d" "\<not> i_dirsync (inodes ?t d) \<longrightarrow> kdb s' = kdb ?t"
    using set_link_slots [OF assms(1) v(2), of i h] assms(3) v(3) by metis
  then show ?thesis using that assms(4) unfolding t v sl by auto
qed

lemma pins_hold_put:
  assumes "page_ok s d n" "pins (hold s d n) t d"
  shows "pins s (dir_put_page t d n) d"
proof -
  have "page_ok t d n" using assms by (auto simp: pins_def)
  then show ?thesis using assms
    by (auto simp: pins_def dir_put_page_def hold_def pcache_upd_page page_ok_def page_of_def split: if_splits)
qed

section \<open>Unlink\<close>

lemma unlink_remove:
  assumes "cache_ok K" "wop_ok K" "dir_ok s dir" "valid_name (d_name de)" "d_parent de = dir"
    and "slots_map (dir_slots s dir) (d_name de) = Some ino" "\<not> i_dirsync (inodes s dir)" "h \<noteq> dir"
  obtains s' where "gbfs_unlink K s dir de h = (s', Ok)"
    "slots_remove (dir_slots s dir) (d_name de) = Some (dir_slots s' dir)"
    "dir_ok s' dir" "pins s s' dir" "kdb s' = kdb s" "sbi s' = sbi s" "next_ino s' = next_ino s"
    "inodes s' h = (inodes s h)\<lparr>i_nlink := i_nlink (inodes s h) - 1,
       i_ctime := i_ctime (inodes s' dir), i_dirty := True\<rparr>"
    "\<And>x. x \<noteq> dir \<Longrightarrow> x \<noteq> h \<Longrightarrow> inodes s' x = inodes s x"
    "\<And>x m. x \<noteq> dir \<Longrightarrow> pcache s' (x, m) = pcache s (x, m)"
    "i_nlink (inodes s' dir) = i_nlink (inodes s dir)" "i_ino (inodes s' dir) = i_ino (inodes s dir)"
    "i_dirsync (inodes s' dir) = i_dirsync (inodes s dir)"
proof -
  obtain i where i: "slots_find (d_name de) (dir_slots s dir) 0 = Some i"
    and f: "gbfs_find_entry K s de = (hold s dir (i div 64), Some (i div 64, i mod 64 * 64))"
    and pok: "page_ok s dir (i div 64)"
    using find_entry_present [OF assms(1) _ assms(4), of s ino] assms(3,5,6) by metis
  let ?s1 = "hold s dir (i div 64)"
  have v: "dir_slots ?s1 dir = dir_slots s dir" "dir_ok ?s1 dir"
    using dir_view_hold [OF pok] assms(3) by auto
  obtain s2 where d: "gbfs_delete_entry K ?s1 dir (i div 64, i mod 64 * 64) = (s2, Ok)"
    and r: "slots_remove (dir_slots s dir) (d_name de) = Some (dir_slots s2 dir)"
    and ok2: "dir_ok s2 dir" and fr: "dir_frame s s2 dir" and db: "kdb s2 = kdb s"
    using delete_held [OF assms(2) v(2), of "d_name de" i] i assms(7) v(1) dir_put_hold [OF pok]
    by (metis hold_frame(1,2))
  let ?s' = "upd_inode s2 h (\<lambda>x. x\<lparr>i_ctime := i_ctime (inodes s2 dir), i_nlink := i_nlink x - 1,
      i_dirty := True\<rparr>)"
  have u: "gbfs_unlink K s dir de h = (?s', Ok)"
    using f d assms(5) by (simp add: gbfs_unlink_def link_count_upd gstate_norm Let_def)
  note F = dir_frameD [OF fr]
  have p: "pins s ?s' dir" using F(9) by (simp add: pins_def)
  show ?thesis
    by (rule that [OF u]) (use r ok2 F p assms(8) db in auto)
qed

section \<open>Rename\<close>

lemma mark_dirty_view [simp]:
  "dir_slots (mark_inode_dirty s h) d = dir_slots s d" "dir_ok (mark_inode_dirty s h) d = dir_ok s d"
  "page_ok (mark_inode_dirty s h) d n = page_ok s d n" "page_of (mark_inode_dirty s h) = page_of s"
  "pcache (mark_inode_dirty s h) = pcache s" "kdb (mark_inode_dirty s h) = kdb s"
  by (simp_all add: mark_inode_dirty_def)

lemma pins_same_pages: "page_of s' d = page_of s d \<Longrightarrow> (\<And>m. page_ok s' d m = page_ok s d m) \<Longrightarrow> pins s s' d"
  by (simp add: pins_def)

lemma flags_noreplace: "flags = 0 \<or> flags = 1 \<Longrightarrow> (flags :: u32) AND NOT 1 = 0"
  by auto

text \<open>
  Adding an entry to \<open>d2\<close> and then deleting the slot \<open>i\<close> of \<open>d1\<close>, whose page is held
  throughout, as \<open>gbfs_rename\<close> does when the target does not exist.
\<close>

lemma add_then_delete:
  assumes K: "cache_ok K" "wop_ok K" and d1: "dir_ok s d1" "\<not> i_dirsync (inodes s d1)"
    and d2: "dir_ok s d2" "\<not> i_dirsync (inodes s d2)" and parent: "d_parent de = d2"
    and nm: "valid_name (d_name de)" "slots_distinct (dir_slots s d1)"
    and old: "slots_find old (dir_slots s d1) 0 = Some i" and new: "d1 = d2 \<Longrightarrow> old \<noteq> d_name de"
    and sc: "slots_scan (d_name de) (dir_slots s d2) 0 = SAt j" and res: "page_ok s d2 (j div 64)"
    and h: "i_ino (inodes s h) mod 2 ^ 32 \<noteq> 0"
    and absent: "slots_map (dir_slots s d2) (d_name de) = None"
  obtains t1 t2 where "gbfs_add_link K (hold s d1 (i div 64)) de h = (t1, Ok)"
    "dir_ok t1 d1" "dir_frame (hold s d1 (i div 64)) t1 d2"
    "slots_insert (dir_slots s d2) (d_name de) (i_ino (inodes s h) mod 2 ^ 32) = Some (dir_slots t1 d2)"
    "slots_find old (dir_slots t1 d1) 0 = Some i" "\<not> i_dirsync (inodes t1 d1)" "kdb t1 = kdb s"
    "page_ok t1 d1 (i div 64)" "pins s (dir_put_page t1 d1 (i div 64)) d1"
    "d1 \<noteq> d2 \<Longrightarrow> dir_slots t1 d1 = dir_slots s d1 \<and> dir_ok t1 d2 \<and> pins s t1 d2"
proof -
  let ?s1 = "hold s d1 (i div 64)"
  have i: "i < nslots s d1" "live (dir_slots s d1 ! i)" "snd (dir_slots s d1 ! i) = old"
    using slots_find_Some [OF old] by auto
  have pok: "page_ok s d1 (i div 64)" using slot_page_ok [OF d1(1) i(1)] .
  note v = dir_view_hold [OF pok]
  have ready: "page_ready K ?s1 (d_parent de) (j div 64) ?s1"
    using page_ready_resident [OF K(1), of ?s1 d2 "j div 64"] parent d2(1) res pok v by simp
  have "dir_ok ?s1 (d_parent de)" "slots_scan (d_name de) (dir_slots ?s1 (d_parent de)) 0 = SAt j"
    "\<not> i_dirsync (inodes ?s1 (d_parent de))"
    using d2 sc parent v by auto
  from add_link_insert [OF K this(1) nm(1) this(2) ready this(3)] parent
  obtain t1 where a: "gbfs_add_link K ?s1 de h = (t1, Ok)"
    "slots_insert (dir_slots s d2) (d_name de) (i_ino (inodes s h) mod 2 ^ 32) = Some (dir_slots t1 d2)"
    "dir_slots t1 d2 = slots_put j (i_ino (inodes s h) mod 2 ^ 32, d_name de) (dir_slots s d2)"
    "dir_ok t1 d2" "dir_frame ?s1 t1 d2" "kdb t1 = kdb s"
    using v by (metis hold_frame(1,2))
  have pins1: "pins ?s1 t1 d1"
    using dir_frameD(9) [OF a(5)] dir_frame_other(3) [OF a(5), of d1] by (cases "d1 = d2") auto
  have f: "slots_find old (dir_slots t1 d1) 0 = Some i \<and> dir_ok t1 d1 \<and> \<not> i_dirsync (inodes t1 d1)"
  proof (cases "d1 = d2")
    case True
    have "slots_distinct (dir_slots t1 d2)"
      using slots.insert_fresh [OF _ absent h] nm(2) True a(2) by auto
    moreover have "dir_slots t1 d2 ! i = dir_slots s d2 ! i" "i < length (dir_slots t1 d2)"
      using slots_put_other [OF sc, of i] i True a(3) by auto
    ultimately show ?thesis
      using slots_find_unique [of "dir_slots t1 d2" i old] i True a(4) d2(2)
        dir_frameD(8) [OF a(5)] by simp
  next
    case False
    then show ?thesis using dir_frame_other [OF a(5) False] old d1 v dir_frameD(3) [OF a(5) False]
      by simp
  qed
  have "page_ok t1 d1 (i div 64)" using pins1 pok by (simp add: pins_def)
  moreover have "d1 \<noteq> d2 \<Longrightarrow> pins s t1 d2"
  proof -
    assume "d1 \<noteq> d2"
    then have "page_of ?s1 d2 = page_of s d2" by (simp add: hold_def fun_eq_iff)
    then have "pins s ?s1 d2" using pok by (intro pins_same_pages) auto
    then show ?thesis using dir_frameD(9) [OF a(5)] pins_trans by blast
  qed
  ultimately show ?thesis
    using that [OF a(1) _ a(5,2) _ _ a(6)] f a(4) pins_hold_put [OF pok pins1]
      dir_frame_other(1) [OF a(5)] v by auto
qed

lemma rename_file_fresh:
  assumes K: "cache_ok K" "wop_ok K" and d: "dir_ok s dir" "\<not> i_dirsync (inodes s dir)"
    and dist: "slots_distinct (dir_slots s dir)"
    and de: "d_parent old_de = dir" "d_parent new_de = dir" "d_inode new_de = None"
    and nm: "valid_name (d_name old_de)" "valid_name (d_name new_de)" "d_name old_de \<noteq> d_name new_de"
    and old: "slots_map (dir_slots s dir) (d_name old_de) = Some (i_ino (inodes s f))"
    and new: "slots_map (dir_slots s dir) (d_name new_de) = None"
    and res: "slots_scan (d_name new_de) (dir_slots s dir) 0 = SAt j" "page_ok s dir (j div 64)"
    and f: "i_ino (inodes s f) < 2 ^ 32" "\<not> S_ISDIR (i_mode (inodes s f))" "f \<noteq> dir"
    and flags: "flags = 0 \<or> flags = 1"
  obtains s' where "gbfs_rename K s dir old_de f dir new_de flags = (s', Ok)"
    "slots_map (dir_slots s' dir) = (slots_map (dir_slots s dir))
       (d_name new_de \<mapsto> i_ino (inodes s f), d_name old_de := None)"
    "slots_distinct (dir_slots s' dir)" "dir_ok s' dir" "pins s s' dir" "kdb s' = kdb s"
    "i_nlink (inodes s' f) = i_nlink (inodes s f)" "i_nlink (inodes s' dir) = i_nlink (inodes s dir)"
    "\<And>x. x \<noteq> dir \<Longrightarrow> x \<noteq> f \<Longrightarrow> inodes s' x = inodes s x"
proof -
  obtain i where i: "slots_find (d_name old_de) (dir_slots s dir) 0 = Some i"
    and fe: "gbfs_find_entry K s old_de = (hold s dir (i div 64), Some (i div 64, i mod 64 * 64))"
    using find_entry_present [OF K(1) _ nm(1), of s] d(1) old de(1) by metis
  have nz: "i_ino (inodes s f) \<noteq> 0" using slots.lookup_nonzero [OF dist old] .
  have ino: "i_ino (inodes s f) mod 2 ^ 32 = i_ino (inodes s f)" using f(1) by simp
  then have ne0: "i_ino (inodes s f) mod 2 ^ 32 \<noteq> 0" using nz by simp
  obtain t1 where a: "gbfs_add_link K (hold s dir (i div 64)) new_de f = (t1, Ok)"
    "dir_ok t1 dir" "dir_frame (hold s dir (i div 64)) t1 dir"
    "slots_insert (dir_slots s dir) (d_name new_de) (i_ino (inodes s f)) = Some (dir_slots t1 dir)"
    "slots_find (d_name old_de) (dir_slots t1 dir) 0 = Some i" "\<not> i_dirsync (inodes t1 dir)"
    "kdb t1 = kdb s" "pins s (dir_put_page t1 dir (i div 64)) dir"
    using add_then_delete [OF K d d de(2) nm(2) dist i nm(3) res ne0 new] ino by metis
  obtain t2 where b: "gbfs_delete_entry K t1 dir (i div 64, i mod 64 * 64) = (t2, Ok)"
    "slots_remove (dir_slots t1 dir) (d_name old_de) = Some (dir_slots t2 dir)"
    "dir_ok t2 dir" "dir_frame (dir_put_page t1 dir (i div 64)) t2 dir" "kdb t2 = kdb t1"
    using delete_held [OF K(2) a(2,5,6)] by metis
  let ?s' = "mark_inode_dirty t2 f"
  have run: "gbfs_rename K s dir old_de f dir new_de flags = (?s', Ok)"
    using fe a(1) b(1) f(2) de flags_noreplace [OF flags]
    by (simp add: gbfs_rename_def rename_target_def rename_finish_def)
  have m: "slots_map (dir_slots t2 dir) = (slots_map (dir_slots s dir))
       (d_name new_de \<mapsto> i_ino (inodes s f), d_name old_de := None) \<and> slots_distinct (dir_slots t2 dir)"
    using slots.rename_fresh [OF dist old new] a(4) b(2) by auto
  have p: "pins s ?s' dir" using pins_trans [OF a(8) dir_frameD(9) [OF b(4)]] by (simp add: pins_def)
  note fr = dir_frameD [OF a(3)] dir_frameD [OF b(4)]
  have other: "inodes t2 x = inodes s x" if "x \<noteq> dir" for x using that fr by simp
  show ?thesis
    by (rule that [OF run])
      (use m p b(3,5) a(7) fr other f(3) in \<open>auto simp: mark_inode_dirty_def\<close>)
qed

text \<open>
  Redirecting the entry \<open>nm\<close> of a directory whose page \<open>n\<close> is held: what the branch with
  an existing target does before the old entry goes.
\<close>

lemma find_set_link:
  assumes K: "cache_ok K" "wop_ok K" and d: "dir_ok s (d_parent de)" "\<not> i_dirsync (inodes s (d_parent de))"
    and nm: "valid_name (d_name de)" "slots_map (dir_slots s (d_parent de)) (d_name de) = Some ino"
  obtains j t s' where "gbfs_find_entry K s de = (t, Some (j div 64, j mod 64 * 64))"
    "gbfs_set_link K t (d_parent de) (j div 64, j mod 64 * 64) h = s'"
    "slots_find (d_name de) (dir_slots s (d_parent de)) 0 = Some j"
    "dir_slots s' (d_parent de) = (dir_slots s (d_parent de))[j := (i_ino (inodes s h) mod 2 ^ 32, d_name de)]"
    "slots_redirect_to (dir_slots s (d_parent de)) (d_name de) (i_ino (inodes s h) mod 2 ^ 32)
       = Some (dir_slots s' (d_parent de))"
    "dir_ok s' (d_parent de)" "dir_frame s s' (d_parent de)" "kdb s' = kdb s"
proof -
  let ?d = "d_parent de"
  obtain j where j: "slots_find (d_name de) (dir_slots s ?d) 0 = Some j" "j < nslots s ?d"
    "dir_slot s ?d j = (ino, d_name de)"
    "gbfs_find_entry K s de = (hold s ?d (j div 64), Some (j div 64, j mod 64 * 64))"
    "page_ok s ?d (j div 64)"
    using find_entry_present [OF K(1) d(1) nm] by metis
  let ?t = "hold s ?d (j div 64)"
  note v = dir_view_hold [OF j(5)]
  have t: "dir_ok ?t ?d" "j < nslots ?t ?d" "\<not> i_dirsync (inodes ?t ?d)"
    using d j(2) v by (auto simp: nslots_def)
  have sl: "snd (dir_slot ?t ?d j) = d_name de" using j(3) by (simp add: dir_slot_def)
  from set_link_held [OF K(2) t, of h]
  obtain s' where s': "gbfs_set_link K ?t ?d (j div 64, j mod 64 * 64) h = s'"
    "dir_slots s' ?d = (dir_slots s ?d)[j := (i_ino (inodes s h) mod 2 ^ 32, d_name de)]"
    "dir_ok s' ?d" "dir_frame (dir_put_page ?t ?d (j div 64)) s' ?d" "kdb s' = kdb s"
    unfolding sl v hold_frame by metis
  show ?thesis
    by (rule that [OF j(4) s'(1) j(1) s'(2) _ s'(3) _ s'(5)])
      (use s' j in \<open>simp_all add: slots_redirect_to_def\<close>)
qed

lemma slots_find_update_other:
  assumes "slots_find nm sls 0 = Some i" "slots_find nm' sls 0 = Some j" "nm \<noteq> nm'"
    "slots_distinct (sls[j := (ino, nm')])"
  shows "slots_find nm (sls[j := (ino, nm')]) 0 = Some i"
proof -
  have "i \<noteq> j" "i < length sls" "live (sls ! i)" "snd (sls ! i) = nm"
    using slots_find_Some [OF assms(1)] slots_find_Some [OF assms(2)] assms(3) by auto
  then show ?thesis using slots_find_unique [OF assms(4), of i nm] by simp
qed

lemma rename_file_replace:
  assumes K: "cache_ok K" "wop_ok K" and d: "dir_ok s dir" "\<not> i_dirsync (inodes s dir)"
    and dist: "slots_distinct (dir_slots s dir)"
    and de: "d_parent old_de = dir" "d_parent new_de = dir" "d_inode new_de = Some tgt"
    and nm: "valid_name (d_name old_de)" "valid_name (d_name new_de)" "d_name old_de \<noteq> d_name new_de"
    and old: "slots_map (dir_slots s dir) (d_name old_de) = Some (i_ino (inodes s f))"
    and new: "slots_map (dir_slots s dir) (d_name new_de) \<noteq> None"
    and f: "i_ino (inodes s f) < 2 ^ 32" "\<not> S_ISDIR (i_mode (inodes s f))" "f \<noteq> dir" "tgt \<noteq> dir" "f \<noteq> tgt"
    and flags: "flags = 0 \<or> flags = 1"
  obtains s' where "gbfs_rename K s dir old_de f dir new_de flags = (s', Ok)"
    "slots_map (dir_slots s' dir) = (slots_map (dir_slots s dir))
       (d_name new_de \<mapsto> i_ino (inodes s f), d_name old_de := None)"
    "slots_distinct (dir_slots s' dir)" "dir_ok s' dir" "pins s s' dir" "kdb s' = kdb s"
    "i_nlink (inodes s' f) = i_nlink (inodes s f)" "i_nlink (inodes s' dir) = i_nlink (inodes s dir)"
    "i_nlink (inodes s' tgt) = i_nlink (inodes s tgt) - 1"
    "\<And>x. x \<noteq> dir \<Longrightarrow> x \<noteq> f \<Longrightarrow> x \<noteq> tgt \<Longrightarrow> inodes s' x = inodes s x"
proof -
  obtain i where i: "slots_find (d_name old_de) (dir_slots s dir) 0 = Some i" "page_ok s dir (i div 64)"
    and fe: "gbfs_find_entry K s old_de = (hold s dir (i div 64), Some (i div 64, i mod 64 * 64))"
    using find_entry_present [OF K(1) _ nm(1), of s] d(1) old de(1) by metis
  have ino: "i_ino (inodes s f) mod 2 ^ 32 = i_ino (inodes s f)" using f(1) by simp
  let ?s1 = "hold s dir (i div 64)"
  note v = dir_view_hold [OF i(2)]
  have "dir_ok ?s1 (d_parent new_de)" "\<not> i_dirsync (inodes ?s1 (d_parent new_de))" using de d v by auto
  moreover obtain tino where "slots_map (dir_slots ?s1 (d_parent new_de)) (d_name new_de) = Some tino"
    using new v de(2) by auto
  ultimately obtain j t s3 where g: "gbfs_find_entry K ?s1 new_de = (t, Some (j div 64, j mod 64 * 64))"
    "gbfs_set_link K t dir (j div 64, j mod 64 * 64) f = s3"
    "slots_find (d_name new_de) (dir_slots s dir) 0 = Some j"
    "dir_slots s3 dir = (dir_slots s dir)[j := (i_ino (inodes s f), d_name new_de)]"
    "slots_redirect_to (dir_slots s dir) (d_name new_de) (i_ino (inodes s f)) = Some (dir_slots s3 dir)"
    "dir_ok s3 dir" "dir_frame ?s1 s3 dir" "kdb s3 = kdb s"
    using find_set_link [OF K, of ?s1 new_de _ f] nm(2) de(2) ino v unfolding hold_frame by metis
  let ?s4 = "inode_dec_link_count
      (upd_inode s3 tgt (\<lambda>x. x\<lparr>i_ctime := current_time K s3\<rparr>)) tgt"
  have v4: "dir_slots ?s4 dir = dir_slots s3 dir" "dir_ok ?s4 dir" "i_dirsync (inodes ?s4 dir) = i_dirsync (inodes s3 dir)"
    using g(6) by (simp_all add: link_count_upd)
  have m: "slots_distinct (dir_slots s3 dir)"
    using slots.redirect_bound [OF dist new, of "i_ino (inodes s f)"]
      slots.lookup_nonzero [OF dist old] g(5) by auto
  have old4: "slots_find (d_name old_de) (dir_slots ?s4 dir) 0 = Some i"
    using slots_find_update_other [OF i(1) g(3) nm(3)] m unfolding v4(1) g(4) by blast
  have "\<not> i_dirsync (inodes ?s4 dir)" using v4(3) dir_frameD(8) [OF g(7)] d(2) by simp
  then obtain t2 where b: "gbfs_delete_entry K ?s4 dir (i div 64, i mod 64 * 64) = (t2, Ok)"
    "slots_remove (dir_slots s3 dir) (d_name old_de) = Some (dir_slots t2 dir)"
    "dir_ok t2 dir" "dir_frame (dir_put_page ?s4 dir (i div 64)) t2 dir" "kdb t2 = kdb ?s4"
    using delete_held [OF K(2) v4(2) old4] v4(1) by metis
  let ?s' = "mark_inode_dirty t2 f"
  have run: "gbfs_rename K s dir old_de f dir new_de flags = (?s', Ok)"
    using fe g(1,2) b(1) f(2) de flags_noreplace [OF flags]
    by (simp add: gbfs_rename_def rename_target_def rename_finish_def Let_def)
  have map: "slots_map (dir_slots t2 dir) = (slots_map (dir_slots s dir))
       (d_name new_de \<mapsto> i_ino (inodes s f), d_name old_de := None) \<and> slots_distinct (dir_slots t2 dir)"
    using slots.rename_replace [OF dist old new nm(3)] g(5) b(2) by auto
  have "pins ?s1 ?s4 dir" using dir_frameD(9) [OF g(7)] by (simp add: pins_def link_count_upd)
  then have "pins s ?s' dir" using pins_trans [OF pins_hold_put [OF i(2)] dir_frameD(9) [OF b(4)]]
    by (simp add: pins_def)
  moreover note fr = dir_frameD [OF g(7)] dir_frameD [OF b(4)]
  moreover have "inodes t2 x = (if x = tgt then inodes ?s4 tgt else inodes s x)" if "x \<noteq> dir" for x
    using that fr by (simp add: link_count_upd)
  ultimately show ?thesis
    by (intro that [OF run]) (use map b(3,5) g(8) f in \<open>auto simp: mark_inode_dirty_def link_count_upd\<close>)
qed

section \<open>Directories: removal\<close>

lemma rmdir_not_empty:
  assumes "cache_ok K" "dir_ok s h" "sl \<in> set (dir_slots s h)" "slot_blocks (i_ino (inodes s h)) sl"
  shows "gbfs_rmdir K s dir de h = (s, Err ENOTEMPTY)"
proof -
  have "gbfs_empty_dir K s h = (s, False)" using empty_dir_slots [OF assms(1,2)] assms(3,4) by auto
  then show ?thesis by (simp add: gbfs_rmdir_def)
qed

lemma rmdir_remove:
  assumes "cache_ok K" "wop_ok K" "dir_ok s dir" "valid_name (d_name de)" "d_parent de = dir"
    and "slots_map (dir_slots s dir) (d_name de) = Some ino" "\<not> i_dirsync (inodes s dir)" "h \<noteq> dir"
    and "dir_ok s h" "\<And>sl. sl \<in> set (dir_slots s h) \<Longrightarrow> \<not> slot_blocks (i_ino (inodes s h)) sl"
  obtains s' where "gbfs_rmdir K s dir de h = (s', Ok)"
    "slots_remove (dir_slots s dir) (d_name de) = Some (dir_slots s' dir)"
    "dir_ok s' dir" "pins s s' dir" "kdb s' = kdb s" "next_ino s' = next_ino s"
    "i_nlink (inodes s' h) = i_nlink (inodes s h) - 2"
    "i_nlink (inodes s' dir) = i_nlink (inodes s dir) - 1"
    "\<And>x. x \<noteq> dir \<Longrightarrow> x \<noteq> h \<Longrightarrow> inodes s' x = inodes s x"
    "\<And>x m. x \<noteq> dir \<Longrightarrow> pcache s' (x, m) = pcache s (x, m)"
proof -
  have e: "gbfs_empty_dir K s h = (s, True)"
    using empty_dir_slots [OF assms(1,9)] assms(10) by auto
  obtain s2 where u: "gbfs_unlink K s dir de h = (s2, Ok)"
    "slots_remove (dir_slots s dir) (d_name de) = Some (dir_slots s2 dir)"
    "dir_ok s2 dir" "pins s s2 dir" "kdb s2 = kdb s" "next_ino s2 = next_ino s"
    "i_nlink (inodes s2 h) = i_nlink (inodes s h) - 1"
    "\<And>x. x \<noteq> dir \<Longrightarrow> x \<noteq> h \<Longrightarrow> inodes s2 x = inodes s x"
    "\<And>x m. x \<noteq> dir \<Longrightarrow> pcache s2 (x, m) = pcache s (x, m)"
    "i_nlink (inodes s2 dir) = i_nlink (inodes s dir)"
    by (rule unlink_remove [OF assms(1-8)]) auto
  let ?s' = "inode_dec_link_count (inode_dec_link_count s2 dir) h"
  have r: "gbfs_rmdir K s dir de h = (?s', Ok)" using e u(1) by (simp add: gbfs_rmdir_def)
  have p: "pins s ?s' dir" using u(4) by (simp add: pins_def link_count_upd)
  show ?thesis
    by (rule that [OF r]) (use p u assms(8) in \<open>simp_all add: link_count_upd\<close>)
qed

section \<open>Failing operations\<close>

lemma link_exists:
  assumes "cache_ok K" "dir_ok s (d_parent de)" "valid_name (d_name de)" "h \<noteq> d_parent de"
    and "slots_scan (d_name de) (dir_slots s (d_parent de)) 0 = SExists"
  shows "gbfs_link K s h de = (iput K (upd_inode s h (\<lambda>i. i\<lparr>i_ctime := current_time K s,
      i_count := i_count i + 1, i_dirty := True\<rparr>)) h, Err EEXIST, de)"
proof -
  let ?s3 = "ihold (inode_inc_link_count (upd_inode s h (\<lambda>i. i\<lparr>i_ctime := current_time K s\<rparr>)) h) h"
  have "gbfs_add_link K ?s3 de h = (?s3, Err EEXIST)"
    by (rule add_link_exists [OF assms(1)]) (use assms in \<open>simp_all add: ihold_def link_count_upd\<close>)
  moreover have "inode_dec_link_count ?s3 h = upd_inode s h (\<lambda>i. i\<lparr>i_ctime := current_time K s,
      i_count := i_count i + 1, i_dirty := True\<rparr>)"
    by (simp add: ihold_def link_count_upd gstate_norm)
  ultimately show ?thesis by (simp add: gbfs_link_def add_nondir_def Let_def)
qed

text \<open>Reading a page into the cache and writing one do not change inodes.\<close>

definition io_keeps_inodes :: "'d kernel \<Rightarrow> bool" where
  "io_keeps_inodes K \<longleftrightarrow>
     (\<forall>s h n. inodes (fst (read_mapping_page K s h n)) = inodes s) \<and> (\<forall>s h n. inodes (fst (write_one_page K s h n)) = inodes s)"

lemma dir_get_page_inodes:
  assumes "io_keeps_inodes K" "dir_get_page K s d n = (t, r)"
  shows "inodes t = inodes s"
proof -
  obtain s1 o1 where 1: "read_mapping_page K s d n = (s1, o1)" by fastforce
  have "inodes (fst (read_mapping_page K s d n)) = inodes s" using assms(1) unfolding io_keeps_inodes_def by blast
  then have "inodes s1 = inodes s" by (simp add: 1)
  then show ?thesis using assms(2) by (cases o1) (auto simp: dir_get_page_def 1)
qed

lemma commit_inodes:
  assumes "io_keeps_inodes K" "dir_commit_chunk K s d n pos len = (t, r)" "x \<noteq> d"
  shows "inodes t x = inodes s x"
proof -
  define u where "u = upd_page (upd_page s d n (\<lambda>p. p\<lparr>p_uptodate := True\<rparr>)) d n (\<lambda>p. p\<lparr>p_dirty := True\<rparr>)"
  define v where "v = (if i_size (inodes u d) < pos + len then mark_inode_dirty (upd_inode u d (\<lambda>i. i\<lparr>i_size := pos + len\<rparr>)) d else u)"
  have v: "inodes v x = inodes s x" using assms(3) by (simp add: v_def u_def mark_inode_dirty_def)
  have w: "inodes (fst (write_one_page K v d n)) = inodes v" using assms(1) unfolding io_keeps_inodes_def by blast
  have "(if i_dirsync (inodes v d) then write_one_page K v d n else (unlock_page v d n, Ok)) = (t, r)"
    using assms(2) unfolding dir_commit_chunk_def Let_def u_def [symmetric] v_def [symmetric] .
  then have "inodes t = inodes v" using w by (cases "i_dirsync (inodes v d)") (simp_all add: unlock_page_def, fastforce)
  then show ?thesis using v by simp
qed

lemma got_it_inodes:
  assumes "io_keeps_inodes K" "add_got_it K s d n p name h = (t, r)" "x \<noteq> d"
  shows "inodes t x = inodes s x"
  using assms(2,3) commit_inodes [OF assms(1) _ assms(3)]
  by (auto simp: add_got_it_def Let_def gbfs_prepare_chunk_def dir_put_page_def mark_inode_dirty_def set_de_inode_def write_page_data_def
      split: if_splits prod.splits)

lemma add_pages_inodes:
  assumes "io_keeps_inodes K" "x \<noteq> d"
  shows "add_pages K s d name h ns = (t, r) \<Longrightarrow> inodes t x = inodes s x"
proof (induction ns arbitrary: s)
  case (Cons n ns)
  obtain s1 r1 where 1: "dir_get_page K s d n = (s1, r1)" by fastforce
  note g = dir_get_page_inodes [OF assms(1) 1]
  show ?case
    using Cons.prems g Cons.IH got_it_inodes [OF assms(1) _ assms(2)]
    by (auto simp: 1 Let_def lock_page_def unlock_page_def dir_put_page_def set_de_inode_def write_page_data_def
        split: option.splits add_res.splits)
qed simp

lemma link_undo:
  assumes "io_keeps_inodes K" "h \<noteq> d_parent de" "gbfs_link K s h de = (s', Err e, de')"
  shows "\<exists>t. s' = iput K t h \<and> de' = de \<and> i_nlink (inodes t h) = i_nlink (inodes s h)
    \<and> i_count (inodes t h) = i_count (inodes s h) + 1 \<and> (\<forall>x. x \<noteq> h \<and> x \<noteq> d_parent de \<longrightarrow> inodes t x = inodes s x)"
proof -
  let ?s3 = "ihold (inode_inc_link_count (upd_inode s h (\<lambda>i. i\<lparr>i_ctime := current_time K s\<rparr>)) h) h"
  obtain u where u: "gbfs_add_link K ?s3 de h = (u, Err e)" "s' = iput K (inode_dec_link_count u h) h" "de' = de"
    using assms(3) by (auto simp: gbfs_link_def add_nondir_def Let_def split: prod.splits rc.splits)
  have i: "inodes u x = inodes ?s3 x" if "x \<noteq> d_parent de" for x
    using add_pages_inodes [OF assms(1) that] u(1) by (simp add: gbfs_add_link_def Let_def del: upt_Suc)
  show ?thesis
    using i assms(2) u(2,3) by (intro exI [of _ "inode_dec_link_count u h"]) (simp add: link_count_upd ihold_def)
qed

end
