(* ===== verification/Kv_Store.thy ===== *)
theory Kv_Store
  imports Prelude
begin

text \<open>
  The contract of a key/value store, between the file system, which calls \<open>DB->get\<close> and \<open>DB->put\<close>, and the
  database.  \<open>ok\<close> is the invariant of the provider, and \<open>fits\<close> says which records it takes.  A put that
  succeeds changes one record, and one that fails changes none.  \<open>Bt_Store\<close> interprets it on the btree.
\<close>

locale kv_store =
  fixes ok :: "'d \<Rightarrow> bool"
    and fits :: "'d \<Rightarrow> byte list \<Rightarrow> byte list \<Rightarrow> bool"
    and get :: "'d \<Rightarrow> byte list \<Rightarrow> int + byte list"
    and put :: "'d \<Rightarrow> byte list \<Rightarrow> byte list \<Rightarrow> 'd \<times> int"
  assumes get_put_same: "ok d \<Longrightarrow> fits d k v \<Longrightarrow> put d k v = (d', 0) \<Longrightarrow> get d' k = Inr v"
    and get_put_other: "ok d \<Longrightarrow> fits d k v \<Longrightarrow> put d k v = (d', 0) \<Longrightarrow> k' \<noteq> k \<Longrightarrow> get d' k' = get d k'"
    and put_failed: "ok d \<Longrightarrow> fits d k v \<Longrightarrow> put d k v = (d', e) \<Longrightarrow> e \<noteq> 0 \<Longrightarrow> get d' k' = get d k'"
    and put_keeps: "ok d \<Longrightarrow> fits d k v \<Longrightarrow> put d k v = (d', e) \<Longrightarrow> ok d'"
begin

lemma get_put:
  assumes "ok d" "fits d k v" "put d k v = (d', e)"
  shows "get d' k' = (if e = 0 \<and> k' = k then Inr v else get d k')"
proof (cases "e = 0")
  case True
  then show ?thesis using assms get_put_same get_put_other by auto
next
  case False
  then show ?thesis using put_failed [OF assms] by simp
qed

text \<open>Reading a record back after others were written.\<close>

lemma get_after_puts:
  assumes "ok d" "get d k = Inr v" "\<forall>(k', v') \<in> set kvs. k' \<noteq> k"
    and "\<And>d k' v'. ok d \<Longrightarrow> (k', v') \<in> set kvs \<Longrightarrow> fits d k' v'"
  shows "get (fold (\<lambda>(k', v') d. fst (put d k' v')) kvs d) k = Inr v"
  using assms
proof (induction kvs arbitrary: d)
  case (Cons kv kvs)
  obtain k' v' where kv: "kv = (k', v')" by (cases kv)
  obtain d' e where p: "put d k' v' = (d', e)" by (cases "put d k' v'")
  have f: "fits d k' v'" using Cons.prems(4) [OF Cons.prems(1)] kv by simp
  have "get d' k = Inr v" using get_put [OF Cons.prems(1) f p] Cons.prems(2,3) kv by auto
  then have "get (fold (\<lambda>(k', v') d. fst (put d k' v')) kvs d') k = Inr v"
    using Cons.IH [OF put_keeps [OF Cons.prems(1) f p]] Cons.prems(3,4) by (metis list.set_intros(2))
  then show ?case using kv p by simp
qed simp

end

end
