(* ===== verification/Gbfs_Store.thy ===== *)
theory Gbfs_Store
  imports Gbfs_Inode Kv_Store
begin

text \<open>
  What the storage layer of gbfs guarantees on top of a key/value store: the keys of inodes
  and pages never collide, an inode record survives encoding, a page written back is the
  page read later, an in-core inode written and loaded again is the same up to the widths of
  the record.  The store is the locale \<open>kv_store\<close>.
\<close>

section \<open>Keys\<close>

lemma inode_key_inj:
  assumes "i < 2 ^ 64" "j < 2 ^ 64" "gbfs_inode_key i = gbfs_inode_key j"
  shows "i = j"
  using assms le_enc_inj [of 8 i j] by (simp add: gbfs_inode_key_def)

lemma data_key_inj:
  assumes "i < 2 ^ 64" "j < 2 ^ 64" "p < 2 ^ 64" "q < 2 ^ 64" "gbfs_data_key i p = gbfs_data_key j q"
  shows "i = j \<and> p = q"
  using assms le_enc_inj [of 8 i j] le_enc_inj [of 8 p q]
  by (simp add: gbfs_data_key_def append_eq_append_conv)

lemma keys_disjoint: "gbfs_data_key i p \<noteq> gbfs_inode_key j"
proof
  assume "gbfs_data_key i p = gbfs_inode_key j"
  then have "length (gbfs_data_key i p) = length (gbfs_inode_key j)" by simp
  then show False by (simp add: gbfs_data_key_def gbfs_inode_key_def)
qed

section \<open>Records\<close>

lemma length_raw_bytes [simp]: "length (raw_bytes r) = sizeof_gbfs_inode"
  by (simp add: raw_bytes_def sizeof_gbfs_inode_def)

lemma buf_read_append_skip: "length a \<le> off \<Longrightarrow> buf_read off n (a @ b) = buf_read (off - length a) n b"
  by (simp add: buf_read_def)

lemma buf_read_append_here: "length a = n \<Longrightarrow> buf_read 0 n (a @ b) = a"
  by (simp add: buf_read_def)

lemma buf_read_here: "length a = n \<Longrightarrow> buf_read 0 n a = a"
  by (simp add: buf_read_def)

lemma unat_mod_width:
  "unat (w :: u16) mod 65536 = unat w" "unat (x :: u32) mod 4294967296 = unat x"
proof -
  have "unat w < 2 ^ LENGTH(16)" "unat x < 2 ^ LENGTH(32)" by (rule unsigned_less)+
  then show "unat w mod 65536 = unat w" "unat x mod 4294967296 = unat x" by simp_all
qed

lemma raw_round_trip: "raw_of_bytes (raw_bytes r) = r"
  by (simp add: raw_of_bytes_def raw_bytes_def buf_read_append_skip buf_read_append_here
      buf_read_here unat_mod_width)

section \<open>Pages written back and read again\<close>

lemma writepage_run:
  "gbfs_writepage K s h n =
     (case db_put K (kdb s) (gbfs_data_key (i_ino (inodes s h)) (page_offset n)) (p_data (page_of s h n)) of
        (d, err) \<Rightarrow> ((upd_page s h n (\<lambda>p. p\<lparr>p_writeback := False, p_locked := False\<rparr>))\<lparr>kdb := d\<rparr>, rc_of_db err))"
proof -
  have "upd_page s h n (\<lambda>p. p\<lparr>p_kmap := p_kmap p + 1 - 1, p_writeback := False, p_locked := False\<rparr>)
      = upd_page s h n (\<lambda>p. p\<lparr>p_writeback := False, p_locked := False\<rparr>)"
    by (rule upd_page_cong) simp
  then show ?thesis
    by (simp add: gbfs_writepage_def unlock_page_def gstate_norm split: prod.split)
qed

lemma readpage_run:
  "gbfs_readpage K s h n =
     (let fill = (\<lambda>v. upd_page s h n (\<lambda>p. p\<lparr>p_data := v, p_uptodate := True, p_locked := False\<rparr>))
      in case db_get K (kdb s) (gbfs_data_key (i_ino (inodes s h)) (page_offset n)) of
        Inr v \<Rightarrow> (if length v < PAGE_SIZE then (upd_page s h n (\<lambda>p. p\<lparr>p_kmap := p_kmap p + 1\<rparr>), Bug)
                  else (fill (take PAGE_SIZE v), Ok))
      | Inl e \<Rightarrow> (if e = DB_NOTFOUND then (fill (replicate PAGE_SIZE 0), Ok)
                  else (upd_page s h n (\<lambda>p. p\<lparr>p_locked := False\<rparr>), Err EIO)))"
proof -
  have "upd_page s h n (\<lambda>p. p\<lparr>p_kmap := p_kmap p + 1 - 1, p_locked := False\<rparr>)
      = upd_page s h n (\<lambda>p. p\<lparr>p_locked := False\<rparr>)"
    "upd_page s h n (\<lambda>p. p\<lparr>p_data := v, p_kmap := p_kmap p + 1 - 1, p_uptodate := True, p_locked := False\<rparr>)
      = upd_page s h n (\<lambda>p. p\<lparr>p_data := v, p_uptodate := True, p_locked := False\<rparr>)" for v
    by (rule upd_page_cong, simp)+
  then show ?thesis
    by (simp add: gbfs_readpage_def unlock_page_def Let_def gstate_norm split: sum.split)
qed

lemma rc_of_db_Ok [simp]: "rc_of_db e = Ok \<longleftrightarrow> e = 0"
  by (simp add: rc_of_db_def)

lemma page_write_read:
  assumes "kv_store ok fits (db_get K) (db_put K)" "ok (kdb s)" "gbfs_writepage K s h n = (s', Ok)"
    and "length (p_data (page_of s h n)) = PAGE_SIZE"
    and fits: "fits (kdb s) (gbfs_data_key (i_ino (inodes s h)) (page_offset n)) (p_data (page_of s h n))"
    and "kdb t = kdb s'" "i_ino (inodes t h') = i_ino (inodes s h)"
  shows "gbfs_readpage K t h' n = (upd_page t h' n (\<lambda>p. p\<lparr>p_data := p_data (page_of s h n),
      p_uptodate := True, p_locked := False\<rparr>), Ok)"
proof -
  let ?k = "gbfs_data_key (i_ino (inodes s h)) (page_offset n)"
  obtain d where p: "db_put K (kdb s) ?k (p_data (page_of s h n)) = (d, 0)" and "kdb s' = d"
    using assms(3) by (auto simp: writepage_run split: prod.splits)
  then have "db_get K (kdb t) ?k = Inr (p_data (page_of s h n))"
    using kv_store.get_put_same [OF assms(1,2) fits p] assms(6) by simp
  then show ?thesis using assms(4,7) by (simp add: readpage_run)
qed

text \<open>Writing one page leaves every other page and every inode record of the database alone.\<close>

lemma page_write_frame:
  assumes "kv_store ok fits (db_get K) (db_put K)" "ok (kdb s)" "gbfs_writepage K s h n = (s', err)"
    and "k \<noteq> gbfs_data_key (i_ino (inodes s h)) (page_offset n)"
    and fits: "fits (kdb s) (gbfs_data_key (i_ino (inodes s h)) (page_offset n)) (p_data (page_of s h n))"
  shows "db_get K (kdb s') k = db_get K (kdb s) k" "ok (kdb s')"
    "inodes s' = inodes s" "next_ino s' = next_ino s" "p_data (page_of s' h' m) = p_data (page_of s h' m)"
proof -
  obtain d e where p: "db_put K (kdb s) (gbfs_data_key (i_ino (inodes s h)) (page_offset n))
      (p_data (page_of s h n)) = (d, e)" and s': "s' = (upd_page s h n
        (\<lambda>p. p\<lparr>p_writeback := False, p_locked := False\<rparr>))\<lparr>kdb := d\<rparr>"
    using assms(3) by (auto simp: writepage_run split: prod.splits)
  show "db_get K (kdb s') k = db_get K (kdb s) k"
    using kv_store.get_put [OF assms(1,2) fits p, of k] assms(4) s' by simp
  show "ok (kdb s')" using kv_store.put_keeps [OF assms(1,2) fits p] s' by simp
qed (use assms(3) in \<open>auto simp: writepage_run split: prod.splits\<close>)

section \<open>Inodes written and loaded again\<close>

lemma update_inode_raw:
  assumes "kv_store ok fits (db_get K) (db_put K)" "ok (kdb s)" "gbfs_update_inode K s h r = (s', Ok)"
    and "kdb t = kdb s'" "kmalloc_ok K t" and fits: "fits (kdb s) (gbfs_inode_key (i_ino (inodes s h))) (raw_bytes r)"
  shows "gbfs_raw_inode K t (i_ino (inodes s h)) = Raw r"
proof -
  obtain d where p: "db_put K (kdb s) (gbfs_inode_key (i_ino (inodes s h))) (raw_bytes r) = (d, 0)"
    and "kdb s' = d"
    using assms(3) by (auto simp: gbfs_update_inode_def split: prod.splits)
  then have "db_get K (kdb t) (gbfs_inode_key (i_ino (inodes s h))) = Inr (raw_bytes r)"
    using kv_store.get_put_same [OF assms(1,2) fits p] assms(4) by simp
  then show ?thesis using assms(5) by (simp add: gbfs_raw_inode_def raw_round_trip)
qed

lemma write_inode_update:
  assumes "gbfs_write_inode K s h = (s', Ok)"
  obtains r where "gbfs_update_inode K s h (store_raw K (inodes s h) r) = (s', Ok)"
  using assms that by (auto simp: gbfs_write_inode_def split: raw_res.splits)

lemma set_inode_view:
  "i_mode (inodes (gbfs_set_inode s h 0) x) = i_mode (inodes s x)"
  "i_nlink (inodes (gbfs_set_inode s h 0) x) = i_nlink (inodes s x)"
  "i_size (inodes (gbfs_set_inode s h 0) x) = i_size (inodes s x)"
  "i_uid (inodes (gbfs_set_inode s h 0) x) = i_uid (inodes s x)"
  "i_mtime (inodes (gbfs_set_inode s h 0) x) = i_mtime (inodes s x)"
  "i_ino (inodes (gbfs_set_inode s h 0) x) = i_ino (inodes s x)"
  "kdb (gbfs_set_inode s h 0) = kdb s" "next_ino (gbfs_set_inode s h 0) = next_ino s"
  by (simp_all add: gbfs_set_inode_def Let_def)

lemma inode_write_load:
  assumes "kv_store ok fits (db_get K) (db_put K)" "ok (kdb s)" "gbfs_write_inode K s h = (s', Ok)"
    and "kdb t = kdb s'" "kmalloc_ok K t" "i_ino (inodes t h') = i_ino (inodes s h)"
    and fits: "\<And>r. fits (kdb s) (gbfs_inode_key (i_ino (inodes s h))) (raw_bytes r)"
  shows "\<exists>t'. gbfs_iget_new K t h' = (t', Ptr h') \<and> kdb t' = kdb t
    \<and> i_mode (inodes t' h') = i_mode (inodes s h)
    \<and> unat (i_nlink (inodes t' h')) = unat (i_nlink (inodes s h)) mod 2 ^ 16
    \<and> i_size (inodes t' h') = i_size (inodes s h) mod 2 ^ 32
    \<and> i_uid (inodes t' h') = ucast (fs_high2lowid K (i_uid (inodes s h)))
    \<and> i_mtime (inodes t' h') = (fst (i_mtime (inodes s h)) mod 2 ^ 32, 0)
    \<and> \<not> i_new (inodes t' h')"
proof -
  obtain r where "gbfs_update_inode K s h (store_raw K (inodes s h) r) = (s', Ok)"
    using write_inode_update [OF assms(3)] .
  from update_inode_raw [OF assms(1,2) this assms(4,5) fits]
  have "gbfs_raw_inode K t (i_ino (inodes t h')) = Raw (store_raw K (inodes s h) r)"
    using assms(6) by simp
  then show ?thesis
    by (simp add: gbfs_iget_new_def set_inode_view load_raw_def store_raw_def unat_of_nat
        unsigned_ucast_eq take_bit_eq_mod uint_word_of_int_eq unat_mod_distrib flip: uint_nat)
qed

section \<open>Inode numbers and freed inodes\<close>

text \<open>
  The kernel's inode allocation does not touch the counter of \<open>bitmap.c\<close>.
\<close>

definition alloc_ok :: "'d kernel \<Rightarrow> bool" where
  "alloc_ok K \<longleftrightarrow> (\<forall>s. next_ino (fst (new_inode K s)) = next_ino s)
     \<and> (\<forall>s h dir mode. next_ino (inode_init_owner K s h dir mode) = next_ino s)"

lemma new_inode_number:
  assumes "alloc_ok K" "gbfs_new_inode K s dir mode = (s', Inr h)"
  shows "i_ino (inodes s' h) = next_ino s" "next_ino s' = (next_ino s + 1) mod 2 ^ 64"
proof -
  obtain s1 where s1: "new_inode K s = (s1, Some h)"
    using assms(2) by (auto simp: gbfs_new_inode_def Let_def split: prod.splits option.splits)
  then have n: "next_ino (inode_init_owner K s1 h dir mode) = next_ino s"
    using assms(1) by (metis alloc_ok_def fst_conv)
  show "i_ino (inodes s' h) = next_ino s" "next_ino s' = (next_ino s + 1) mod 2 ^ 64"
    using assms(2) s1 n by (auto simp: gbfs_new_inode_def Let_def mark_inode_dirty_def)
qed

lemma free_inode_keeps_pages:
  assumes "kv_store ok fits (db_get K) (db_put K)" "ok (kdb s)" "gbfs_free_inode K s h = (s', Ok)"
    and fits: "\<And>r. fits (kdb s) (gbfs_inode_key (i_ino (inodes s h))) (raw_bytes r)"
  shows "db_get K (kdb s') (gbfs_data_key ino p) = db_get K (kdb s) (gbfs_data_key ino p)"
proof (cases "gbfs_raw_inode K s (i_ino (inodes s h))")
  case (Raw r)
  let ?r = "raw_bytes (r\<lparr>ri_nlinks := 0, ri_mode := 0\<rparr>)"
  obtain d e where p: "db_put K (kdb s) (gbfs_inode_key (i_ino (inodes s h))) ?r = (d, e)"
    by (cases "db_put K (kdb s) (gbfs_inode_key (i_ino (inodes s h))) ?r")
  then have "kdb s' = d" using assms(3) Raw
    by (auto simp: gbfs_free_inode_def gbfs_clear_inode_def gbfs_update_inode_def)
  then show ?thesis using kv_store.get_put [OF assms(1,2) fits p] keys_disjoint by simp
qed (use assms(3) in \<open>auto simp: gbfs_free_inode_def gbfs_clear_inode_def\<close>)

lemma free_inode_record:
  assumes "kv_store ok fits (db_get K) (db_put K)" "ok (kdb s)" "gbfs_raw_inode K s (i_ino (inodes s h)) = Raw r"
    and "gbfs_free_inode K s h = (s', Ok)" "kmalloc_ok K s'"
    and fits: "\<And>r. fits (kdb s) (gbfs_inode_key (i_ino (inodes s h))) (raw_bytes r)"
  shows "gbfs_raw_inode K s' (i_ino (inodes s h)) = Raw (r\<lparr>ri_nlinks := 0, ri_mode := 0\<rparr>)
    \<or> db_get K (kdb s') k = db_get K (kdb s) k"
proof -
  let ?r = "r\<lparr>ri_nlinks := 0, ri_mode := 0\<rparr>"
  obtain s2 e where u: "gbfs_update_inode K s h ?r = (s2, e)" by (cases "gbfs_update_inode K s h ?r")
  then have s': "s' = s2" using assms(3,4) by (simp add: gbfs_free_inode_def gbfs_clear_inode_def)
  show ?thesis
  proof (cases "e = Ok")
    case True
    then show ?thesis using update_inode_raw [OF assms(1,2) _ _ _ fits] u s' assms(5) by metis
  next
    case False
    then have "db_get K (kdb s2) k = db_get K (kdb s) k" using u kv_store.put_failed [OF assms(1,2) fits]
      by (auto simp: gbfs_update_inode_def split: prod.splits)
    then show ?thesis using s' by simp
  qed
qed

end
