(* ===== verification/Gbfs_Demo.thy ===== *)
theory Gbfs_Demo
  imports Gbfs_Namei_Refine Gbfs_Store
begin

text \<open>
  A concrete kernel and a concrete directory, on which the properties of the file system are
  instantiated: a page cache that returns the resident pages and reads zero pages, a clock
  that stands still, a database kept as an association list, and a directory of two entries.
\<close>

type_synonym assoc_db = "(byte list \<times> byte list) list"

definition assoc_get :: "assoc_db \<Rightarrow> byte list \<Rightarrow> int + byte list" where
  "assoc_get d k = (case map_of d k of None \<Rightarrow> Inl DB_NOTFOUND | Some v \<Rightarrow> Inr v)"

definition assoc_put :: "assoc_db \<Rightarrow> byte list \<Rightarrow> byte list \<Rightarrow> assoc_db \<times> int" where
  "assoc_put d k v = ((k, v) # d, 0)"

definition demo_read :: "'d gstate \<Rightarrow> nat \<Rightarrow> nat \<Rightarrow> 'd gstate \<times> errno option" where
  "demo_read s h n =
     (case pcache s (h, n) of
        Some pg \<Rightarrow> if p_uptodate pg then (upd_page s h n (\<lambda>p. p\<lparr>p_ref := p_ref p + 1\<rparr>), None)
                   else (s, Some EIO)
      | None \<Rightarrow> (upd_page s h n (\<lambda>p. blank_page\<lparr>p_data := replicate PAGE_SIZE 0,
                   p_uptodate := True, p_ref := 1\<rparr>), None))"

definition demo_kernel :: "('d \<Rightarrow> byte list \<Rightarrow> int + byte list) \<Rightarrow>
    ('d \<Rightarrow> byte list \<Rightarrow> byte list \<Rightarrow> 'd \<times> int) \<Rightarrow> 'd kernel" where
  "demo_kernel get put = \<lparr>read_mapping_page = demo_read,
     grab_cache_page = (\<lambda>s h n. (upd_page s h n (\<lambda>p. p\<lparr>p_locked := True, p_ref := p_ref p + 1\<rparr>), True)),
     write_one_page = (\<lambda>s h n. (upd_page s h n (\<lambda>p. p\<lparr>p_dirty := False, p_locked := False\<rparr>), Ok)),
     current_time = (\<lambda>s. (1000, 0)), jiffies = (\<lambda>s. 7), kmalloc_ok = (\<lambda>s. True),
     new_inode = (\<lambda>s. (s, Some 100)), inode_init_owner = (\<lambda>s h d m. upd_inode s h (\<lambda>i. i\<lparr>i_mode := m\<rparr>)),
     iget_locked = (\<lambda>s ino. (upd_inode s ino (\<lambda>i. i\<lparr>i_ino := ino, i_new := True\<rparr>), Some ino)),
     iput = (\<lambda>s h. upd_inode s h (\<lambda>i. i\<lparr>i_count := i_count i - 1\<rparr>)), iget_failed = (\<lambda>s h. s),
     page_symlink = (\<lambda>s h b. (s, Ok)), truncate_inode_pages_final = (\<lambda>s h. s),
     d_tmpfile = (\<lambda>s de h. (s, de)), setattr_prepare = (\<lambda>s h a. Ok), inode_newsize_ok = (\<lambda>s h n. Ok),
     truncate_setsize = (\<lambda>s h n. upd_inode s h (\<lambda>i. i\<lparr>i_size := n\<rparr>)), setattr_copy = (\<lambda>s h a. s),
     fs_high2lowid = ucast, old_valid_dev = (\<lambda>r. True), db_get = get, db_put = put\<rparr>"

abbreviation demo_K :: "assoc_db kernel" where "demo_K \<equiv> demo_kernel assoc_get assoc_put"

lemma demo_kernel_sel [simp]:
  "db_get (demo_kernel g p) = g" "db_put (demo_kernel g p) = p" "kmalloc_ok (demo_kernel g p) s"
  "current_time (demo_kernel g p) s = (1000, 0)" "read_mapping_page (demo_kernel g p) = demo_read"
  "fs_high2lowid (demo_kernel g p) = ucast"
  by (simp_all add: demo_kernel_def)

lemma demo_cache_ok: "cache_ok (demo_kernel g p)"
  by (auto simp: cache_ok_def demo_read_def)

lemma demo_wop_ok: "wop_ok (demo_kernel g p)"
  by (auto simp: wop_ok_def demo_kernel_def intro!: exI [of _ "kdb _"] kdb_self [symmetric])

lemma demo_alloc_ok: "alloc_ok (demo_kernel g p)"
  by (simp add: alloc_ok_def demo_kernel_def)

lemma demo_store: "kv_store (\<lambda>_. True) (\<lambda>_ _ _. True) assoc_get assoc_put"
  by unfold_locales (auto simp: assoc_get_def assoc_put_def)

definition demo_inode :: "nat \<Rightarrow> u16 \<Rightarrow> nat \<Rightarrow> inode" where
  "demo_inode ino mode sz = \<lparr>i_ino = ino, i_mode = mode, i_nlink = 2, i_uid = 0, i_gid = 0,
     i_size = sz, i_atime = (0, 0), i_mtime = (0, 0), i_ctime = (0, 0), i_blocks = 0, i_ops = NoOps,
     i_dirty = False, i_new = False, i_hashed = True, i_dirsync = False, i_count = 1\<rparr>"

definition demo_page :: "byte list" where
  "demo_page = fill_entry (1 * 64) [98] 8 (fill_entry (0 * 64) [97] 7 (replicate PAGE_SIZE 0))"

text \<open>Handle 0 is a directory with the entries \<open>a\<close> (inode 7) and \<open>b\<close> (inode 8); 1 and 2 are those inodes, 3 an empty directory.\<close>

definition demo_state :: "assoc_db gstate" where
  "demo_state = \<lparr>inodes = (\<lambda>h. demo_inode (if h = 0 then 5 else h + 6)
        (if h = 0 \<or> h = 3 then S_IFDIR else S_IFREG) (if h = 0 then 128 else 0)),
     pcache = [(0, 0) \<mapsto> blank_page\<lparr>p_data := demo_page, p_uptodate := True\<rparr>],
     kdb = [], next_ino = 20,
     sbi = \<lparr>s_dirsize = 64, s_namelen = 60, s_ms = \<lparr>s_magic = GBFS_SUPER_MAGIC, s_blocksize = 4096\<rparr>,
       s_mount_state = GBFS_VALID_FS, dbp = True, dbenv = True\<rparr>,
     sb_blocksize = 4096\<rparr>"

lemma demo_page_length: "length demo_page = PAGE_SIZE"
  unfolding demo_page_def by (rule length_fill_entry [OF length_fill_entry]) simp_all

lemma demo_page_slot: "page_slot demo_page 0 = (7, [97])" "page_slot demo_page 1 = (8, [98])"
proof -
  have l: "length (fill_entry (0 * 64) [97] 7 (replicate PAGE_SIZE (0 :: byte))) = PAGE_SIZE"
    by (rule length_fill_entry) simp_all
  note s1 = page_slot_fill [OF l, of 1 "[98]" 8] and
    s0 = page_slot_fill [of "replicate PAGE_SIZE 0" 0 "[97]" 7]
  show "page_slot demo_page 0 = (7, [97])" "page_slot demo_page 1 = (8, [98])"
    using s1 s0 unfolding demo_page_def by (simp_all add: valid_name_def)
qed

lemma demo_dir_ok: "dir_ok demo_state 0" "dir_ok demo_state 3"
  by (auto simp: dir_ok_def sb_ok_def page_ok_def dir_pages_def demo_state_def demo_inode_def
      blank_page_def demo_page_length)

lemma demo_slots [simp]:
  "dir_slots demo_state 0 = [(7, [97]), (8, [98])]" "dir_slots demo_state 3 = []"
  by (simp_all add: dir_slots_def nslots_def dir_slot_def demo_state_def demo_inode_def page_of_def
      demo_page_slot [unfolded One_nat_def] upt_rec)

lemma demo_inodes [simp]:
  "i_ino (inodes demo_state 0) = 5" "i_ino (inodes demo_state (Suc n)) = n + 7" "i_ino (inodes demo_state 3) = 9"
  "i_size (inodes demo_state 0) = 128" "\<not> i_dirsync (inodes demo_state h)" "i_nlink (inodes demo_state h) = 2"
  "kdb demo_state = []" "next_ino demo_state = 20"
  by (simp_all add: demo_state_def demo_inode_def)

lemma demo_page_ok: "page_ok demo_state 0 0"
  by (auto simp: page_ok_def demo_state_def blank_page_def demo_page_length)

definition demo_dentry :: "byte list \<Rightarrow> nat option \<Rightarrow> dentry" where
  "demo_dentry nm h = \<lparr>d_name = nm, d_parent = 0, d_inode = h\<rparr>"

lemma demo_dentry_sel [simp]:
  "d_name (demo_dentry nm h) = nm" "d_parent (demo_dentry nm h) = 0" "d_inode (demo_dentry nm h) = h"
  by (simp_all add: demo_dentry_def)

lemmas demo_ok = demo_cache_ok [of assoc_get assoc_put] demo_wop_ok [of assoc_get assoc_put]

lemma demo_map [simp]:
  "slots_map [(7, [97]), (8, [98])] = [[98] \<mapsto> 8, [97] \<mapsto> 7]"
  "slots_distinct [(7, [97]), (8, [98])]"
  by (simp_all add: slots_map_def live_def slots_distinct_def live_names_def)

lemma demo_valid [simp]: "valid_name [97]" "valid_name [98]" "valid_name [99]"
  by (simp_all add: valid_name_def)

lemma demo_file: "\<not> S_ISDIR (i_mode (inodes demo_state 1))"
  by (simp add: demo_state_def demo_inode_def S_ISDIR_def S_IFMT_def S_IFDIR_def S_IFREG_def)

lemma demo_ready: "page_ready demo_K demo_state 0 0 demo_state"
  by (rule page_ready_resident [OF demo_cache_ok demo_dir_ok(1) demo_page_ok])

end
