(* ===== verification/Gbfs_Super.thy ===== *)
theory Gbfs_Super
  imports Gbfs_Types
begin

text \<open>
  Mounting and unmounting, the superblock half of \<open>src/fs/inode.c\<close>, and the bitmap helpers of
  \<open>src/fs/gbfs.h\<close>.  What these functions acquire is a record of flags: the two allocations, the
  environment and database handles (live from creation to their close), the pointers the code
  keeps to them.  Outcomes of the calls that leave \<open>src/fs\<close> are the record \<open>mcalls\<close>: return
  codes as the database returns them, zero for success.
\<close>

section \<open>State and outcomes\<close>

record mount_st =
  m_sbi :: bool
  m_ms :: bool
  m_fs_info :: bool
  live_env :: bool
  live_dbp :: bool
  sbi_env :: bool
  sbi_dbp :: bool
  m_state :: u16
  m_dirsize :: nat
  m_namelen :: nat
  m_root :: "nat option"

definition unmounted :: mount_st where
  "unmounted = \<lparr>m_sbi = False, m_ms = False, m_fs_info = False, live_env = False, live_dbp = False,
     sbi_env = False, sbi_dbp = False, m_state = 0, m_dirsize = 0, m_namelen = 0, m_root = None\<rparr>"

record mcalls =
  alloc_sbi :: bool
  alloc_ms :: bool
  blocksize_ok :: bool
  env_create :: int
  env_open :: int
  db_create :: int
  db_open :: int
  db_close :: int
  env_close :: int
  root_iget :: "errno + nat"
  d_make_root :: bool

section \<open>The database connection\<close>

text \<open>
  \<open>close\<close> of a handle ends its life whatever it returns, as the database documents; the
  pointer of \<open>sbi\<close> is only reset when it returns zero.
\<close>

definition kdb_close_env :: "mcalls \<Rightarrow> mount_st \<Rightarrow> mount_st" where
  "kdb_close_env c m =
     (if sbi_env m then
        (let m1 = m\<lparr>live_env := False\<rparr>
         in if env_close c \<noteq> 0 then m1 else m1\<lparr>sbi_env := False\<rparr>)
      else m)"

definition kdb_close :: "mcalls \<Rightarrow> mount_st \<Rightarrow> mount_st" where
  "kdb_close c m =
     (if sbi_dbp m then
        (let m1 = m\<lparr>live_dbp := False\<rparr>
         in if db_close c \<noteq> 0 then m1 else kdb_close_env c (m1\<lparr>sbi_dbp := False\<rparr>))
      else kdb_close_env c m)"

text \<open>The label \<open>err\<close> of \<open>__kdb_open\<close>: close what was created, and keep the last error.\<close>

definition kdb_open_err :: "mcalls \<Rightarrow> mount_st \<Rightarrow> bool \<Rightarrow> int \<Rightarrow> mount_st \<times> int" where
  "kdb_open_err c m has_db ret =
     (let (m1, ret1) = (if has_db then (m\<lparr>live_dbp := False\<rparr>, if db_close c \<noteq> 0 then db_close c else ret)
                        else (m, ret))
      in (m1\<lparr>live_env := False\<rparr>, if env_close c \<noteq> 0 then env_close c else ret1))"

definition kdb_open :: "mcalls \<Rightarrow> mount_st \<Rightarrow> mount_st \<times> int" where
  "kdb_open c m =
     (if env_create c \<noteq> 0 then (m, env_create c)
      else let m1 = m\<lparr>live_env := True\<rparr> in
        if env_open c \<noteq> 0 then kdb_open_err c m1 False (env_open c)
        else if db_create c \<noteq> 0 then kdb_open_err c m1 False (db_create c)
        else let m2 = m1\<lparr>live_dbp := True\<rparr> in
          if db_open c \<noteq> 0 then kdb_open_err c m2 True (db_open c)
          else (m2\<lparr>sbi_env := True, sbi_dbp := True\<rparr>, 0))"

section \<open>Mount, remount and unmount\<close>

definition fill_super_out :: "mount_st \<Rightarrow> mount_st" where
  "fill_super_out m = m\<lparr>m_fs_info := False, m_sbi := False\<rparr>"

definition gbfs_fill_super :: "mcalls \<Rightarrow> mount_st \<Rightarrow> mount_st \<times> rc" where
  "gbfs_fill_super c m =
     (if \<not> alloc_sbi c then (m, Err ENOMEM)
      else let m1 = m\<lparr>m_sbi := True, sbi_env := False, sbi_dbp := False, m_fs_info := True\<rparr> in
        if \<not> blocksize_ok c then (fill_super_out m1, Err EINVAL)
        else if \<not> alloc_ms c then (m1, Err ENOMEM)
        else let m2 = m1\<lparr>m_ms := True, m_dirsize := 64, m_namelen := 60, m_state := GBFS_VALID_FS\<rparr> in
          case kdb_open c m2 of
            (m3, ret) \<Rightarrow>
              if ret \<noteq> 0 then (fill_super_out m3, Err (EDB ret))
              else case root_iget c of
                Inl e \<Rightarrow> (fill_super_out m3, Err e)
              | Inr h \<Rightarrow>
                  if \<not> d_make_root c then (fill_super_out m3, Err ENOMEM)
                  else (m3\<lparr>m_root := Some h\<rparr>, Ok))"

definition gbfs_put_super :: "mcalls \<Rightarrow> mount_st \<Rightarrow> mount_st" where
  "gbfs_put_super c m = (kdb_close c m)\<lparr>m_fs_info := False, m_sbi := False\<rparr>"

text \<open>\<open>flags\<close> and \<open>sflags\<close> are the \<open>MS_RDONLY\<close> bits of the request and of the superblock.\<close>

definition gbfs_remount :: "bool \<Rightarrow> bool \<Rightarrow> mount_st \<Rightarrow> mount_st \<times> rc" where
  "gbfs_remount flags sflags m =
     (if flags = sflags then (m, Ok)
      else if flags then (m, Ok)
      else (m\<lparr>m_state := GBFS_VALID_FS\<rparr>, Ok))"

record kstatfs =
  f_type :: u16
  f_bsize :: nat
  f_blocks :: nat
  f_bfree :: nat
  f_bavail :: nat
  f_files :: nat
  f_namelen :: nat
  f_fsid :: "u32 \<times> u32"

text \<open>The caller's buffer comes in; \<open>f_bfree\<close> is not assigned and flows into \<open>f_bavail\<close>.\<close>

definition gbfs_statfs :: "u64 \<Rightarrow> u16 \<Rightarrow> nat \<Rightarrow> mount_st \<Rightarrow> kstatfs \<Rightarrow> kstatfs \<times> rc" where
  "gbfs_statfs fsid magic blocksize m buf =
     (buf\<lparr>f_type := magic, f_bsize := blocksize, f_blocks := 0, f_bavail := f_bfree buf,
        f_files := 0, f_namelen := m_namelen m, f_fsid := (ucast fsid, ucast (drop_bit 32 fsid))\<rparr>, Ok)"

section \<open>Bitmaps of sixteen-bit words\<close>

text \<open>
  \<open>ffz\<close> of the kernel: the position of the first zero bit.  A bitmap is its list of words;
  a read past the list is \<open>None\<close>.
\<close>

fun ffz_from :: "nat \<Rightarrow> u16 \<Rightarrow> nat \<Rightarrow> nat" where
  "ffz_from 0 w i = i"
| "ffz_from (Suc n) w i = (if bit w i then ffz_from n w (Suc i) else i)"

definition ffz :: "u16 \<Rightarrow> nat" where "ffz w = ffz_from 16 w 0"

fun zero_scan :: "u16 list \<Rightarrow> nat \<Rightarrow> nat \<Rightarrow> nat option" where
  "zero_scan [] sz i = None"
| "zero_scan (w # ws) sz i =
     (if w = 0xffff then
        (if sz = Suc i then Some (16 * Suc i) else zero_scan ws sz (Suc i))
      else Some (16 * i + ffz w))"

definition gbfs_find_first_zero_bit :: "u16 list \<Rightarrow> nat \<Rightarrow> nat option" where
  "gbfs_find_first_zero_bit ws sz = (if sz = 0 then Some 0 else zero_scan ws (sz div 16) 0)"

definition gbfs_test_bit :: "nat \<Rightarrow> u16 list \<Rightarrow> bool" where
  "gbfs_test_bit nr ws \<longleftrightarrow> ws ! (nr div 16) AND push_bit (nr mod 16) 1 \<noteq> 0"

section \<open>What mounting leaves behind\<close>

lemma kdb_open_ok:
  assumes "kdb_open c m = (m', 0)"
  shows "m' = m\<lparr>live_env := True, live_dbp := True, sbi_env := True, sbi_dbp := True\<rparr>"
  using assms by (auto simp: kdb_open_def kdb_open_err_def Let_def split: if_splits)

lemma kdb_open_failed:
  assumes "kdb_open c m = (m', ret)" "ret \<noteq> 0" "\<not> live_env m" "\<not> live_dbp m"
  shows "m' = m"
  using assms by (auto simp: kdb_open_def kdb_open_err_def Let_def split: if_splits)

lemma kdb_close_closed:
  assumes "live_env m \<longrightarrow> sbi_env m" "live_dbp m \<longrightarrow> sbi_dbp m" "db_close c = 0"
  shows "\<not> live_env (kdb_close c m)" "\<not> live_dbp (kdb_close c m)"
  using assms by (auto simp: kdb_close_def kdb_close_env_def Let_def)

lemma fill_super_ok:
  assumes "gbfs_fill_super c unmounted = (m, Ok)"
  shows "m_sbi m" "m_ms m" "m_fs_info m" "live_env m" "live_dbp m" "sbi_env m" "sbi_dbp m"
    "m_dirsize m = 64" "m_namelen m = 60" "m_state m = GBFS_VALID_FS" "m_root m \<noteq> None"
  using assms by (auto simp: gbfs_fill_super_def unmounted_def Let_def
      dest!: kdb_open_ok split: if_splits prod.splits sum.splits)

lemma kdb_open_ret: "snd (kdb_open c m) = snd (kdb_open c m')"
  by (simp add: kdb_open_def kdb_open_err_def Let_def)

text \<open>
  A failed mount: the superblock information is freed except when the second allocation
  fails, that allocation is never freed, and the handles stay open exactly when the database
  had been opened.
\<close>

lemma fill_super_failed:
  assumes "gbfs_fill_super c unmounted = (m, Err e)"
  shows "m_root m = None \<and> (m_sbi m \<longleftrightarrow> alloc_sbi c \<and> blocksize_ok c \<and> \<not> alloc_ms c)
    \<and> (m_ms m \<longleftrightarrow> alloc_sbi c \<and> blocksize_ok c \<and> alloc_ms c)
    \<and> (live_env m \<longleftrightarrow> m_ms m \<and> snd (kdb_open c unmounted) = 0) \<and> (live_dbp m \<longleftrightarrow> live_env m)"
proof (cases "alloc_sbi c \<and> blocksize_ok c \<and> alloc_ms c")
  case False
  then show ?thesis using assms
    by (auto simp: gbfs_fill_super_def unmounted_def fill_super_out_def Let_def split: if_splits)
next
  case True
  let ?m2 = "unmounted\<lparr>m_sbi := True, sbi_env := False, sbi_dbp := False, m_fs_info := True, m_ms := True,
      m_dirsize := 64, m_namelen := 60, m_state := GBFS_VALID_FS\<rparr>"
  obtain m3 ret where o: "kdb_open c ?m2 = (m3, ret)" by (cases "kdb_open c ?m2")
  have r: "snd (kdb_open c unmounted) = ret" using kdb_open_ret [of c unmounted ?m2] o by simp
  show ?thesis
  proof (cases "ret = 0")
    case True
    then show ?thesis using assms o r kdb_open_ok [of c ?m2 m3] \<open>alloc_sbi c \<and> _\<close>
      by (auto simp: gbfs_fill_super_def fill_super_out_def unmounted_def Let_def split: if_splits sum.splits)
  next
    case False
    then have "m3 = ?m2" using kdb_open_failed [OF o False] by (simp add: unmounted_def)
    then show ?thesis using assms o r False \<open>alloc_sbi c \<and> _\<close>
      by (auto simp: gbfs_fill_super_def fill_super_out_def unmounted_def Let_def)
  qed
qed

lemma mount_unmount:
  assumes "gbfs_fill_super c unmounted = (m, Ok)" "db_close c = 0"
  shows "\<not> live_env (gbfs_put_super c m)" "\<not> live_dbp (gbfs_put_super c m)" "\<not> m_sbi (gbfs_put_super c m)"
  using fill_super_ok [OF assms(1)] kdb_close_closed [of m c] assms(2) by (auto simp: gbfs_put_super_def)

section \<open>What the bitmap search finds\<close>

lemma ffz_from_props:
  "i \<le> ffz_from n w i \<and> ffz_from n w i \<le> i + n
   \<and> (\<forall>j. i \<le> j \<and> j < ffz_from n w i \<longrightarrow> bit w j) \<and> (ffz_from n w i < i + n \<longrightarrow> \<not> bit w (ffz_from n w i))"
proof (induction n arbitrary: i)
  case (Suc n)
  show ?case
  proof (cases "bit w i")
    case True
    have "bit w j" if "i \<le> j" "j < ffz_from n w (Suc i)" for j
      using that True Suc [of "Suc i"] by (cases "j = i") auto
    then show ?thesis using True Suc [of "Suc i"] by auto
  next
    case False
    then have "ffz_from (Suc n) w i = i" by simp
    moreover have "\<not> (i \<le> j \<and> j < i)" for j :: nat by linarith
    ultimately show ?thesis using False by (metis le_add1 order_refl)
  qed
next
  case 0
  have "\<not> (i \<le> j \<and> j < i)" for j :: nat by linarith
  then show ?case by (simp, metis)
qed

lemma test_bit_word: "gbfs_test_bit nr ws \<longleftrightarrow> bit (ws ! (nr div 16)) (nr mod 16)"
  by (simp add: gbfs_test_bit_def bit_iff_and_push_bit_not_eq_0)

lemma ffz_props:
  assumes "w \<noteq> 0xffff"
  shows "ffz w < 16" "\<not> bit w (ffz w)" "j < ffz w \<Longrightarrow> bit w j"
proof -
  note p = ffz_from_props [of 0 16 w, folded ffz_def]
  have "ffz w < 16"
  proof (rule ccontr)
    assume "\<not> ffz w < 16"
    then have "bit w j" if "j < 16" for j using p that by auto
    then have "w = mask 16" by (auto simp: bit_eq_iff bit_simps)
    then show False using assms by (simp add: mask_eq_exp_minus_1)
  qed
  then show "ffz w < 16" "\<not> bit w (ffz w)" "j < ffz w \<Longrightarrow> bit w j" using p by auto
qed

lemma full_word:
  fixes j :: nat
  assumes that: "j < 16"
  shows "bit (65535 :: int) j"
proof -
  have m: "(65535 :: int) = mask 16" by (simp add: mask_eq_exp_minus_1)
  show ?thesis unfolding m bit_mask_iff using that by simp
qed

lemma test_bit_Cons:
  "gbfs_test_bit (n + 16) (w # ws) = gbfs_test_bit n ws" "n < 16 \<Longrightarrow> gbfs_test_bit n (w # ws) = bit w n"
proof -
  have "(n + 16) div 16 = Suc (n div 16)" by simp
  then show "gbfs_test_bit (n + 16) (w # ws) = gbfs_test_bit n ws"
    by (simp add: test_bit_word del: div_add_self1 div_add_self2)
qed (simp add: test_bit_word)

definition first_zero :: "u16 list \<Rightarrow> nat \<Rightarrow> nat \<Rightarrow> bool" where
  "first_zero ws sz r \<longleftrightarrow> r \<le> sz \<and> (\<forall>k < r. gbfs_test_bit k ws)
     \<and> (r < sz \<longrightarrow> \<not> gbfs_test_bit r ws)"

lemma first_zero_shift:
  assumes "first_zero ws n r"
  shows "first_zero (0xffff # ws) (n + 16) (r + 16)"
  unfolding first_zero_def
proof (intro conjI allI impI)
  fix k assume k: "k < r + 16"
  show "gbfs_test_bit k (0xffff # ws)"
  proof (cases "k < 16")
    case False
    then show ?thesis using assms k test_bit_Cons(1) [of "k - 16" "0xffff" ws] by (simp add: first_zero_def)
  qed (simp add: test_bit_Cons(2) full_word)
qed (use assms in \<open>simp_all add: first_zero_def test_bit_Cons(1)\<close>)

lemma zero_scan_props:
  assumes "zero_scan ws sz i = Some r" "i < sz"
  shows "\<exists>r'. r = 16 * i + r' \<and> first_zero ws (16 * (sz - i)) r'"
  using assms
proof (induction ws arbitrary: i)
  case (Cons w ws)
  consider "w = 0xffff" "sz = Suc i" | "w = 0xffff" "sz \<noteq> Suc i" | "w \<noteq> 0xffff" by blast
  then show ?case
  proof cases
    case 1
    then show ?thesis using Cons.prems
      by (auto simp: first_zero_def test_bit_Cons(2) intro: full_word intro!: exI [of _ 16])
  next
    case 2
    then obtain r' where r': "r = 16 * Suc i + r'" "first_zero ws (16 * (sz - Suc i)) r'"
      using Cons.IH [of "Suc i"] Cons.prems by auto
    moreover have "16 * (sz - Suc i) + 16 = 16 * (sz - i)" using 2 Cons.prems(2) by auto
    ultimately show ?thesis using first_zero_shift [OF r'(2)] 2
      by (intro exI [of _ "r' + 16"]) simp
  next
    case 3
    have "16 \<le> 16 * (sz - i)" using Cons.prems(2) by simp
    then show ?thesis using Cons.prems 3 ffz_props [OF 3]
      by (intro exI [of _ "ffz w"]) (auto simp: first_zero_def test_bit_Cons(2))
  qed
qed simp

lemma find_first_zero:
  assumes "gbfs_find_first_zero_bit ws sz = Some r" "16 \<le> sz"
  shows "first_zero ws (16 * (sz div 16)) r"
proof -
  have "zero_scan ws (sz div 16) 0 = Some r" "0 < sz div 16"
    using assms by (auto simp: gbfs_find_first_zero_bit_def split: if_splits)
  from zero_scan_props [OF this] show ?thesis by auto
qed

end
