(* ===== verification/Gbfs_Properties.thy ===== *)
theory Gbfs_Properties
  imports Gbfs_Demo Gbfs_Super
begin

text \<open>
  The properties of the file system, each with an instance on the concrete kernel and
  directory of \<open>Gbfs_Demo\<close>.
\<close>

section \<open>Names\<close>

text \<open>C12: a lookup by name in a well-formed directory reads the map of its slots, returns
  number 0 for a free name, and leaves the state, page references included, as it was.\<close>

theorem lookup_reads_directory:
  assumes "cache_ok K" "dir_ok s (d_parent de)" "valid_name (d_name de)"
  shows "gbfs_inode_by_name K s de
    = (s, case slots_map (dir_slots s (d_parent de)) (d_name de) of None \<Rightarrow> 0 | Some ino \<Rightarrow> ino)"
  by (rule inode_by_name_slots [OF assms])

lemma lookup_reads_directory_witness:
  "gbfs_inode_by_name demo_K demo_state (demo_dentry [98] None) = (demo_state, 8)"
  using lookup_reads_directory [OF demo_ok(1), of demo_state "demo_dentry [98] None"] demo_dir_ok
  by simp

text \<open>C13: adding a link under a free name, when the page of the first free slot is resident or
  can be read in, binds exactly that name, keeps the directory well-formed with distinct names,
  writes only this directory's inode and pages and releases every page reference it took.\<close>

theorem add_link_binds_name:
  assumes "cache_ok K" "wop_ok K" "dir_ok s (d_parent de)" "valid_name (d_name de)"
    and "slots_distinct (dir_slots s (d_parent de))"
    and "slots_map (dir_slots s (d_parent de)) (d_name de) = None"
    and "i_ino (inodes s h) mod 2 ^ 32 \<noteq> 0" "\<not> i_dirsync (inodes s (d_parent de))"
    and "slots_scan (d_name de) (dir_slots s (d_parent de)) 0 = SAt i"
    and "page_ready K s (d_parent de) (i div 64) s0"
  shows "\<exists>s'. gbfs_add_link K s de h = (s', Ok)
    \<and> slots_map (dir_slots s' (d_parent de))
      = (slots_map (dir_slots s (d_parent de)))(d_name de \<mapsto> i_ino (inodes s h) mod 2 ^ 32)
    \<and> slots_distinct (dir_slots s' (d_parent de)) \<and> dir_ok s' (d_parent de)
    \<and> dir_frame s s' (d_parent de)"
proof -
  obtain s' where "gbfs_add_link K s de h = (s', Ok)"
    "slots_insert (dir_slots s (d_parent de)) (d_name de) (i_ino (inodes s h) mod 2 ^ 32)
       = Some (dir_slots s' (d_parent de))" "dir_ok s' (d_parent de)" "dir_frame s s' (d_parent de)"
    using add_link_insert [OF assms(1-4,9,10,8)] by metis
  then show ?thesis using slots.insert_fresh [OF assms(5,6,7)] by auto
qed

lemma add_link_binds_name_witness:
  "\<exists>s'. gbfs_add_link demo_K demo_state (demo_dentry [99] None) 3 = (s', Ok)
    \<and> slots_map (dir_slots s' 0) = [[98] \<mapsto> 8, [97] \<mapsto> 7, [99] \<mapsto> 9]"
  using add_link_binds_name [OF demo_ok, of demo_state "demo_dentry [99] None" 3 2 demo_state]
    demo_dir_ok demo_ready by (simp add: live_def) blast

text \<open>C18: adding a link whose name is in a slot before every free slot of the directory returns \<open>EEXIST\<close> and
  changes nothing: no page is written, created or left referenced.\<close>

theorem add_link_refuses_duplicate:
  assumes "cache_ok K" "dir_ok s (d_parent de)" "valid_name (d_name de)"
    and "j < length (dir_slots s (d_parent de))" "snd (dir_slots s (d_parent de) ! j) = d_name de"
    and "\<forall>k\<le>j. live (dir_slots s (d_parent de) ! k)"
  shows "gbfs_add_link K s de h = (s, Err EEXIST)"
  by (rule add_link_exists [OF assms(1-3) slots_scan_before [OF assms(4-6)]])

lemma add_link_refuses_duplicate_witness:
  "gbfs_add_link demo_K demo_state (demo_dentry [98] None) 3 = (demo_state, Err EEXIST)"
  by (rule add_link_refuses_duplicate [OF demo_ok(1), of _ _ 1])
    (auto simp: demo_dir_ok live_def le_Suc_eq)

text \<open>C25: a free slot before the slot of the name hides it: \<open>gbfs_add_link\<close> succeeds
  and stores a second entry of the name in the free slot, so the directory no longer has distinct names.  The
  caller has to look the name up first, as the VFS does.\<close>

theorem add_link_duplicates_behind_hole:
  assumes "cache_ok K" "wop_ok K" "dir_ok s (d_parent de)" "valid_name (d_name de)"
    and "slots_scan (d_name de) (dir_slots s (d_parent de)) 0 = SAt i" "page_ready K s (d_parent de) (i div 64) s0"
    and "i < j" "j < length (dir_slots s (d_parent de))" "live (dir_slots s (d_parent de) ! j)"
    and "snd (dir_slots s (d_parent de) ! j) = d_name de"
    and "i_ino (inodes s h) mod 2 ^ 32 \<noteq> 0" "\<not> i_dirsync (inodes s (d_parent de))"
  shows "\<exists>s'. gbfs_add_link K s de h = (s', Ok)
    \<and> dir_slots s' (d_parent de) = (dir_slots s (d_parent de))[i := (i_ino (inodes s h) mod 2 ^ 32, d_name de)]
    \<and> \<not> slots_distinct (dir_slots s' (d_parent de))"
proof -
  let ?sls = "dir_slots s (d_parent de)" and ?sl = "(i_ino (inodes s h) mod 2 ^ 32, d_name de)"
  obtain s' where s': "gbfs_add_link K s de h = (s', Ok)" "dir_slots s' (d_parent de) = slots_put i ?sl ?sls"
    by (rule add_link_slots [OF assms(1-4) refl assms(5,6)]) (use assms(12) in auto)
  have put: "slots_put i ?sl ?sls = ?sls[i := ?sl]" using assms(7,8) by (simp add: slots_put_def)
  have "\<not> slots_distinct (?sls[i := ?sl])"
    using assms(7-11) by (intro slots_twice [where i = i and j = j and nm = "d_name de"]) (auto simp: live_def)
  then show ?thesis using s' put by auto
qed

text \<open>The directory \<open>a\<close>, \<open>b\<close> after \<open>a\<close> was unlinked.\<close>

lemma add_link_duplicates_behind_hole_witness:
  "\<exists>s s'. gbfs_unlink demo_K demo_state 0 (demo_dentry [97] None) 1 = (s, Ok)
    \<and> gbfs_add_link demo_K s (demo_dentry [98] None) 3 = (s', Ok) \<and> dir_slots s' 0 = [(9, [98]), (8, [98])]"
proof -
  obtain s where s: "gbfs_unlink demo_K demo_state 0 (demo_dentry [97] None) 1 = (s, Ok)"
    "slots_remove (dir_slots demo_state 0) [97] = Some (dir_slots s 0)" "dir_ok s 0" "pins demo_state s 0"
    "\<And>x. x \<noteq> 0 \<Longrightarrow> x \<noteq> 1 \<Longrightarrow> inodes s x = inodes demo_state x" "\<not> i_dirsync (inodes s 0)"
    by (rule unlink_remove [OF demo_ok demo_dir_ok(1), where de = "demo_dentry [97] None" and ino = 7 and h = 1]) auto
  have sl: "dir_slots s 0 = [(0, [97]), (8, [98])]" using s(2) by (auto simp: slots_remove_def live_def)
  have "page_ok s 0 0" using s(4) demo_page_ok by (simp add: pins_def)
  then have rd: "page_ready demo_K s 0 0 s" using page_ready_resident [OF demo_ok(1) s(3)] by blast
  have "i_ino (inodes s 3) = 9" using s(5) [of 3] by simp
  then show ?thesis
    using add_link_duplicates_behind_hole [OF demo_ok, of s "demo_dentry [98] None" 0 s 1 3] s(1,3,6) sl rd
    by (auto simp: live_def)
qed

text \<open>C14: unlinking a bound name removes exactly that binding, decrements the link count of
  the inode, keeps the directory well-formed and its pages' references balanced, and leaves
  every other inode alone.\<close>

theorem unlink_unbinds_name:
  assumes "cache_ok K" "wop_ok K" "dir_ok s dir" "valid_name (d_name de)" "d_parent de = dir"
    and "slots_distinct (dir_slots s dir)"
    and "slots_map (dir_slots s dir) (d_name de) = Some ino" "\<not> i_dirsync (inodes s dir)" "h \<noteq> dir"
  shows "\<exists>s'. gbfs_unlink K s dir de h = (s', Ok)
    \<and> slots_map (dir_slots s' dir) = (slots_map (dir_slots s dir))(d_name de := None)
    \<and> slots_distinct (dir_slots s' dir) \<and> dir_ok s' dir \<and> pins s s' dir
    \<and> i_nlink (inodes s' h) = i_nlink (inodes s h) - 1
    \<and> (\<forall>x. x \<noteq> dir \<and> x \<noteq> h \<longrightarrow> inodes s' x = inodes s x)"
proof -
  obtain s' where s': "gbfs_unlink K s dir de h = (s', Ok)"
    "slots_remove (dir_slots s dir) (d_name de) = Some (dir_slots s' dir)"
    "dir_ok s' dir" "pins s s' dir" "i_nlink (inodes s' h) = i_nlink (inodes s h) - 1"
    "\<And>x. x \<noteq> dir \<Longrightarrow> x \<noteq> h \<Longrightarrow> inodes s' x = inodes s x"
    by (rule unlink_remove [OF assms(1-5,7-9)]) auto
  then show ?thesis using slots.remove_bound [OF assms(6), of "d_name de"] assms(7) by auto
qed

lemma unlink_unbinds_name_witness:
  "\<exists>s'. gbfs_unlink demo_K demo_state 0 (demo_dentry [97] None) 1 = (s', Ok)
    \<and> slots_map (dir_slots s' 0) = [[98] \<mapsto> 8] \<and> i_nlink (inodes s' 1) = 1"
  using unlink_unbinds_name [OF demo_ok, of demo_state 0 "demo_dentry [97] None" 7 1] demo_dir_ok
  by auto

section \<open>Rename\<close>

text \<open>C16: renaming a file inside a directory to a free name moves the binding, keeps link
  counts, well-formedness and page references, and leaves every other inode alone.\<close>

theorem rename_to_free_name:
  assumes "cache_ok K" "wop_ok K" "dir_ok s dir" "\<not> i_dirsync (inodes s dir)"
    and "slots_distinct (dir_slots s dir)"
    and "d_parent old_de = dir" "d_parent new_de = dir" "d_inode new_de = None"
    and "valid_name (d_name old_de)" "valid_name (d_name new_de)" "d_name old_de \<noteq> d_name new_de"
    and "slots_map (dir_slots s dir) (d_name old_de) = Some (i_ino (inodes s f))"
    and "slots_map (dir_slots s dir) (d_name new_de) = None"
    and "slots_scan (d_name new_de) (dir_slots s dir) 0 = SAt j" "page_ok s dir (j div 64)"
    and "i_ino (inodes s f) < 2 ^ 32" "\<not> S_ISDIR (i_mode (inodes s f))" "f \<noteq> dir"
    and "flags = 0 \<or> flags = 1"
  shows "\<exists>s'. gbfs_rename K s dir old_de f dir new_de flags = (s', Ok)
    \<and> slots_map (dir_slots s' dir) = (slots_map (dir_slots s dir))
       (d_name new_de \<mapsto> i_ino (inodes s f), d_name old_de := None)
    \<and> slots_distinct (dir_slots s' dir) \<and> dir_ok s' dir \<and> pins s s' dir
    \<and> i_nlink (inodes s' f) = i_nlink (inodes s f) \<and> i_nlink (inodes s' dir) = i_nlink (inodes s dir)
    \<and> (\<forall>x. x \<noteq> dir \<and> x \<noteq> f \<longrightarrow> inodes s' x = inodes s x)"
  by (rule rename_file_fresh [OF assms]) blast

lemma rename_to_free_name_witness:
  "\<exists>s'. gbfs_rename demo_K demo_state 0 (demo_dentry [97] (Some 1)) 1 0 (demo_dentry [99] None) 0 = (s', Ok)
    \<and> slots_map (dir_slots s' 0) [99] = Some 7 \<and> slots_map (dir_slots s' 0) [97] = None"
  using rename_to_free_name [OF demo_ok demo_dir_ok(1), of "demo_dentry [97] (Some 1)"
      "demo_dentry [99] None" 1 2 0] demo_file demo_page_ok by (simp add: live_def) fastforce

text \<open>C15: renaming a file over an existing name redirects that name to the moved inode,
  removes the old name and drops one link of the inode that was there.\<close>

theorem rename_over_target:
  assumes "cache_ok K" "wop_ok K" "dir_ok s dir" "\<not> i_dirsync (inodes s dir)"
    and "slots_distinct (dir_slots s dir)"
    and "d_parent old_de = dir" "d_parent new_de = dir" "d_inode new_de = Some tgt"
    and "valid_name (d_name old_de)" "valid_name (d_name new_de)" "d_name old_de \<noteq> d_name new_de"
    and "slots_map (dir_slots s dir) (d_name old_de) = Some (i_ino (inodes s f))"
    and "slots_map (dir_slots s dir) (d_name new_de) \<noteq> None"
    and "i_ino (inodes s f) < 2 ^ 32" "\<not> S_ISDIR (i_mode (inodes s f))" "f \<noteq> dir" "tgt \<noteq> dir" "f \<noteq> tgt"
    and "flags = 0 \<or> flags = 1"
  shows "\<exists>s'. gbfs_rename K s dir old_de f dir new_de flags = (s', Ok)
    \<and> slots_map (dir_slots s' dir) = (slots_map (dir_slots s dir))
       (d_name new_de \<mapsto> i_ino (inodes s f), d_name old_de := None)
    \<and> slots_distinct (dir_slots s' dir) \<and> dir_ok s' dir \<and> pins s s' dir
    \<and> i_nlink (inodes s' f) = i_nlink (inodes s f)
    \<and> i_nlink (inodes s' tgt) = i_nlink (inodes s tgt) - 1
    \<and> (\<forall>x. x \<noteq> dir \<and> x \<noteq> f \<and> x \<noteq> tgt \<longrightarrow> inodes s' x = inodes s x)"
  by (rule rename_file_replace [OF assms]) blast

lemma rename_over_target_witness:
  "\<exists>s'. gbfs_rename demo_K demo_state 0 (demo_dentry [97] (Some 1)) 1 0 (demo_dentry [98] (Some 2)) 1 = (s', Ok)
    \<and> slots_map (dir_slots s' 0) [98] = Some 7 \<and> slots_map (dir_slots s' 0) [97] = None
    \<and> i_nlink (inodes s' 2) = 1"
  using rename_over_target [OF demo_ok demo_dir_ok(1), of "demo_dentry [97] (Some 1)"
      "demo_dentry [98] (Some 2)" 2 1 1] demo_file by auto

section \<open>Listing and emptiness\<close>

text \<open>A \<open>dir_emit\<close> with room for \<open>k\<close> entries: it stores the entry and refuses when full.\<close>

definition buf_emit :: "nat \<Rightarrow> slot list \<Rightarrow> byte list \<Rightarrow> nat \<Rightarrow> bool \<times> slot list" where
  "buf_emit k c nm ino = (if length c < k then (True, c @ [(ino, nm)]) else (False, c))"

lemma buf_emit_slot:
  "buf_emit k c (snd sl) (fst sl) = (if length c < k then (True, c @ [sl]) else (False, c))"
  by (simp add: buf_emit_def)

lemma slots_emit_buf:
  "\<exists>n \<le> length sls. slots_emit (buf_emit k) sls c pos
     = (n = length sls, c @ filter live (take n sls), pos + 64 * n)
     \<and> (n < length sls \<longrightarrow> live (sls ! n) \<and> k \<le> length (c @ filter live (take n sls)))"
proof (induction sls arbitrary: c pos)
  case (Cons sl sls)
  show ?case
  proof (cases "live sl \<and> k \<le> length c")
    case True
    then show ?thesis by (intro exI [of _ 0]) (simp add: buf_emit_slot)
  next
    case False
    let ?c = "if live sl then c @ [sl] else c"
    obtain n where "n \<le> length sls" "slots_emit (buf_emit k) sls ?c (pos + 64)
        = (n = length sls, ?c @ filter live (take n sls), pos + 64 + 64 * n)"
      "n < length sls \<longrightarrow> live (sls ! n) \<and> k \<le> length (?c @ filter live (take n sls))"
      using Cons [of ?c "pos + 64"] by blast
    then show ?thesis using False
      by (intro exI [of _ "Suc n"]) (auto simp: buf_emit_slot add.assoc split: if_splits)
  qed
qed simp

text \<open>C24: \<open>readdir\<close> with a buffer of \<open>k\<close> entries, started at slot \<open>q\<close>, emits the live entries of a
  prefix of the remaining slots in order, stops early only when the buffer is full, leaves the
  state unchanged and sets the position to the first slot not consumed, so that the next call
  goes on without losing or repeating an entry.\<close>

theorem readdir_resumes:
  assumes "cache_ok K" "dir_ok s d" "q \<le> nslots s d"
  shows "\<exists>n. gbfs_readdir K (buf_emit k) s d [] (q * 64)
      = (s, filter live (take n (drop q (dir_slots s d))), (q + n) * 64)
    \<and> q + n \<le> nslots s d
    \<and> (q + n < nslots s d \<longrightarrow> k \<le> length (filter live (take n (drop q (dir_slots s d)))))"
proof -
  have "ALIGN (q * 64) 64 = q * 64" by (simp add: ALIGN_def)
  moreover obtain n where "n \<le> length (drop q (dir_slots s d))"
    "slots_emit (buf_emit k) (drop q (dir_slots s d)) [] (q * 64)
      = (n = length (drop q (dir_slots s d)), filter live (take n (drop q (dir_slots s d))), q * 64 + 64 * n)"
    "n < length (drop q (dir_slots s d)) \<longrightarrow> k \<le> length (filter live (take n (drop q (dir_slots s d))))"
    using slots_emit_buf [of "drop q (dir_slots s d)" k "[]" "q * 64"] by auto
  ultimately show ?thesis using assms(3)
    by (intro exI [of _ n]) (auto simp: readdir_slots [OF assms(1,2)])
qed

lemma readdir_resumes_witness:
  "\<exists>n. gbfs_readdir demo_K (buf_emit 1) demo_state 0 [] 64
      = (demo_state, filter live (take n [(8, [98])]), (1 + n) * 64) \<and> n \<le> 1"
  using readdir_resumes [OF demo_ok(1) demo_dir_ok(1), of 1 1] by (auto simp: nslots_def)

text \<open>\<open>gbfs_empty_dir\<close> accepts a directory exactly when every live entry is \<open>..\<close> or a
  \<open>.\<close> that names the directory itself, and does not change the state.\<close>

theorem empty_dir_accepts:
  assumes "cache_ok K" "dir_ok s d"
  shows "gbfs_empty_dir K s d = (s, list_all (\<lambda>(ino, nm). ino = 0 \<or> nm = [46, 46]
      \<or> nm = [46] \<and> ino = i_ino (inodes s d)) (dir_slots s d))"
  unfolding empty_dir_slots [OF assms]
  by (auto simp: list_all_iff slot_blocks_def live_def)

lemma empty_dir_accepts_witness:
  "gbfs_empty_dir demo_K demo_state 0 = (demo_state, False)"
  using empty_dir_accepts [OF demo_ok(1) demo_dir_ok(1)] by simp

text \<open>Removing an empty directory unbinds its name, takes the links of \<open>.\<close> and of its entry
  from it and the link of \<open>..\<close> from its parent, and leaves every other inode alone.\<close>

theorem rmdir_unlinks_empty_dir:
  assumes "cache_ok K" "wop_ok K" "dir_ok s dir" "valid_name (d_name de)" "d_parent de = dir"
    and "slots_distinct (dir_slots s dir)"
    and "slots_map (dir_slots s dir) (d_name de) = Some ino" "\<not> i_dirsync (inodes s dir)" "h \<noteq> dir"
    and "dir_ok s h" "snd (gbfs_empty_dir K s h)"
  shows "\<exists>s'. gbfs_rmdir K s dir de h = (s', Ok)
    \<and> slots_map (dir_slots s' dir) = (slots_map (dir_slots s dir))(d_name de := None)
    \<and> dir_ok s' dir \<and> pins s s' dir
    \<and> i_nlink (inodes s' h) = i_nlink (inodes s h) - 2
    \<and> i_nlink (inodes s' dir) = i_nlink (inodes s dir) - 1
    \<and> (\<forall>x. x \<noteq> dir \<and> x \<noteq> h \<longrightarrow> inodes s' x = inodes s x)"
proof -
  have e: "\<not> slot_blocks (i_ino (inodes s h)) sl" if "sl \<in> set (dir_slots s h)" for sl
    using empty_dir_slots [OF assms(1,10)] assms(11) that by simp
  obtain s' where s': "gbfs_rmdir K s dir de h = (s', Ok)"
    "slots_remove (dir_slots s dir) (d_name de) = Some (dir_slots s' dir)"
    "dir_ok s' dir" "pins s s' dir" "i_nlink (inodes s' h) = i_nlink (inodes s h) - 2"
    "i_nlink (inodes s' dir) = i_nlink (inodes s dir) - 1"
    "\<And>x. x \<noteq> dir \<Longrightarrow> x \<noteq> h \<Longrightarrow> inodes s' x = inodes s x"
    by (rule rmdir_remove [OF assms(1-5,7-10) e]) auto
  then show ?thesis using slots.remove_bound [OF assms(6), of "d_name de"] assms(7) by auto
qed

lemma rmdir_unlinks_empty_dir_witness:
  "\<exists>s'. gbfs_rmdir demo_K demo_state 0 (demo_dentry [98] None) 3 = (s', Ok)
    \<and> i_nlink (inodes s' 3) = 0 \<and> i_nlink (inodes s' 0) = 1"
proof -
  have "snd (gbfs_empty_dir demo_K demo_state 3)"
    using empty_dir_slots [OF demo_ok(1) demo_dir_ok(2)] by simp
  with rmdir_unlinks_empty_dir [OF demo_ok demo_dir_ok(1), of "demo_dentry [98] None" 8 3] demo_dir_ok(2)
  show ?thesis by auto
qed

text \<open>C26: a hard link that fails, whether a page cannot be read, the name is taken or the page cannot be
  written, undoes its own increments: the link count of the inode is the old one and the extra reference goes to
  \<open>iput\<close>; the dentry stays negative, and no inode but these two has changed.  Reading and writing a page do not change
  inodes.\<close>

theorem link_failure_restores:
  assumes "io_keeps_inodes K" "h \<noteq> d_parent de" "gbfs_link K s h de = (s', Err e, de')"
  shows "\<exists>t. s' = iput K t h \<and> de' = de \<and> i_nlink (inodes t h) = i_nlink (inodes s h)
    \<and> i_count (inodes t h) = i_count (inodes s h) + 1 \<and> (\<forall>x. x \<noteq> h \<and> x \<noteq> d_parent de \<longrightarrow> inodes t x = inodes s x)"
  by (rule link_undo [OF assms])

text \<open>A taken name, and a directory page that cannot be read.\<close>

lemma link_failure_restores_witness:
  "(\<exists>t. gbfs_link demo_K demo_state 1 (demo_dentry [98] None)
      = (iput demo_K t 1, Err EEXIST, demo_dentry [98] None) \<and> i_nlink (inodes t 1) = 2)
   \<and> (\<exists>t. gbfs_link (demo_K\<lparr>read_mapping_page := \<lambda>s h n. (s, Some EIO)\<rparr>) demo_state 1 (demo_dentry [98] None)
      = (iput demo_K t 1, Err EIO, demo_dentry [98] None) \<and> i_nlink (inodes t 1) = 2)"
proof -
  let ?de = "demo_dentry [98] None" and ?K = "demo_K\<lparr>read_mapping_page := \<lambda>s h n. (s, Some EIO)\<rparr>"
  have k: "io_keeps_inodes demo_K" "io_keeps_inodes ?K"
    by (auto simp: io_keeps_inodes_def demo_kernel_def demo_read_def split: option.split)
  have p: "(1 :: nat) \<noteq> d_parent ?de" by simp
  have "slots_scan (d_name ?de) (dir_slots demo_state (d_parent ?de)) 0 = SExists" by (simp add: live_def)
  then obtain s' where 1: "gbfs_link demo_K demo_state 1 ?de = (s', Err EEXIST, ?de)"
    using link_exists [OF demo_ok(1) _ _ p] demo_dir_ok by auto
  obtain s'' where 2: "gbfs_link ?K demo_state 1 ?de = (s'', Err EIO, ?de)"
    by (simp add: gbfs_link_def Let_def add_nondir_def gbfs_add_link_def dir_get_page_def upt_conv_Cons del: upt_Suc)
  have "iput ?K = iput demo_K" by simp
  then show ?thesis using link_failure_restores [OF k(1) p 1] link_failure_restores [OF k(2) p 2] 1 2 by auto
qed

section \<open>Storage\<close>

text \<open>The database keys of inodes and of pages are injective on 64-bit numbers, and no page
  key is an inode key.\<close>

theorem keys_never_collide:
  assumes "i < 2 ^ 64" "j < 2 ^ 64" "p < 2 ^ 64" "q < 2 ^ 64"
  shows "(gbfs_inode_key i = gbfs_inode_key j \<longleftrightarrow> i = j)
    \<and> (gbfs_data_key i p = gbfs_data_key j q \<longleftrightarrow> i = j \<and> p = q) \<and> gbfs_data_key i p \<noteq> gbfs_inode_key j"
  using inode_key_inj [OF assms(1,2)] data_key_inj [OF assms] keys_disjoint by blast

lemma keys_never_collide_witness:
  "gbfs_data_key 1 4096 \<noteq> gbfs_data_key 2 4096"
  using keys_never_collide [of 1 2 4096 4096] by simp

text \<open>C22: a page written back to a store that keeps its laws is the page that is read later
  under the same inode number, whatever handle it has then; the page ends unlocked.\<close>

theorem page_round_trip:
  assumes "kv_store ok fits (db_get K) (db_put K)" "ok (kdb s)" "gbfs_writepage K s h n = (s', Ok)"
    and "length (p_data (page_of s h n)) = PAGE_SIZE"
    and "fits (kdb s) (gbfs_data_key (i_ino (inodes s h)) (page_offset n)) (p_data (page_of s h n))"
    and "kdb t = kdb s'" "i_ino (inodes t h') = i_ino (inodes s h)"
  shows "\<exists>t'. gbfs_readpage K t h' n = (t', Ok)
    \<and> p_data (page_of t' h' n) = p_data (page_of s h n)
    \<and> p_uptodate (page_of t' h' n) \<and> \<not> p_locked (page_of t' h' n)
    \<and> p_kmap (page_of t' h' n) = p_kmap (page_of t h' n) \<and> kdb t' = kdb t"
  unfolding page_write_read [OF assms] by simp

lemma page_round_trip_witness:
  "\<exists>s' t'. gbfs_writepage demo_K demo_state 0 0 = (s', Ok) \<and> gbfs_readpage demo_K s' 0 0 = (t', Ok)
    \<and> p_data (page_of t' 0 0) = demo_page"
proof -
  obtain s' where s': "gbfs_writepage demo_K demo_state 0 0 = (s', Ok)" "i_ino (inodes s' 0) = 5"
    by (simp add: writepage_run assoc_put_def rc_of_db_def)
  have d: "p_data (page_of demo_state 0 0) = demo_page" by (simp add: demo_state_def page_of_def)
  show ?thesis
    using page_round_trip [of "\<lambda>_. True" "\<lambda>_ _ _. True" demo_K demo_state 0 0 s' s' 0] s' demo_store d
    by (auto simp: demo_page_length)
qed

text \<open>C23: an inode written back and loaded again keeps its mode, and its size, link count, user
  and modification time up to the widths of the record: 32 bits of the size and of the seconds,
  16 bits of the links, no fractions of a second.\<close>

theorem inode_round_trip:
  assumes "kv_store ok fits (db_get K) (db_put K)" "ok (kdb s)" "gbfs_write_inode K s h = (s', Ok)"
    and "kdb t = kdb s'" "kmalloc_ok K t" "i_ino (inodes t h') = i_ino (inodes s h)"
    and "\<And>r. fits (kdb s) (gbfs_inode_key (i_ino (inodes s h))) (raw_bytes r)"
  shows "\<exists>t'. gbfs_iget_new K t h' = (t', Ptr h') \<and> kdb t' = kdb t
    \<and> i_mode (inodes t' h') = i_mode (inodes s h)
    \<and> unat (i_nlink (inodes t' h')) = unat (i_nlink (inodes s h)) mod 2 ^ 16
    \<and> i_size (inodes t' h') = i_size (inodes s h) mod 2 ^ 32
    \<and> i_uid (inodes t' h') = ucast (fs_high2lowid K (i_uid (inodes s h)))
    \<and> i_mtime (inodes t' h') = (fst (i_mtime (inodes s h)) mod 2 ^ 32, 0)
    \<and> \<not> i_new (inodes t' h')"
  by (rule inode_write_load [OF assms])

lemma inode_round_trip_witness:
  "\<exists>s' t'. gbfs_write_inode demo_K demo_state 0 = (s', Ok) \<and> gbfs_iget_new demo_K s' 0 = (t', Ptr 0)
    \<and> i_size (inodes t' 0) = 128 \<and> i_mode (inodes t' 0) = S_IFDIR"
proof -
  obtain s' where s': "gbfs_write_inode demo_K demo_state 0 = (s', Ok)" "i_ino (inodes s' 0) = 5"
    by (simp add: gbfs_write_inode_def gbfs_raw_inode_def assoc_get_def GBFS_ROOT_INO_def
        gbfs_update_inode_def assoc_put_def rc_of_db_def)
  show ?thesis
    using inode_round_trip [of "\<lambda>_. True" "\<lambda>_ _ _. True" demo_K demo_state 0 s' s' 0] s' demo_store
    by (auto simp: demo_state_def demo_inode_def)
qed

text \<open>Freeing an inode never removes its pages: every page record of every inode reads as
  before, so a file that gets the same number later starts with the old contents.\<close>

theorem free_inode_leaves_pages:
  assumes "kv_store ok fits (db_get K) (db_put K)" "ok (kdb s)" "gbfs_free_inode K s h = (s', Ok)"
    and "db_get K (kdb s) (gbfs_data_key ino (page_offset n)) = Inr v" "length v = PAGE_SIZE"
    and "kdb t = kdb s'" "i_ino (inodes t h') = ino"
    and "\<And>r. fits (kdb s) (gbfs_inode_key (i_ino (inodes s h))) (raw_bytes r)"
  shows "\<exists>t'. gbfs_readpage K t h' n = (t', Ok) \<and> p_data (page_of t' h' n) = v"
  using free_inode_keeps_pages [OF assms(1-3,8), of ino "page_offset n"] assms(4-7)
  by (simp add: readpage_run)

lemma free_inode_leaves_pages_witness:
  "\<exists>s' t'. gbfs_free_inode demo_K (demo_state\<lparr>kdb := [(gbfs_data_key 5 0, demo_page)]\<rparr>) 0 = (s', Ok)
    \<and> gbfs_readpage demo_K s' 0 0 = (t', Ok) \<and> p_data (page_of t' 0 0) = demo_page"
proof -
  let ?s = "demo_state\<lparr>kdb := [(gbfs_data_key 5 0, demo_page)]\<rparr>"
  obtain s' where s': "gbfs_free_inode demo_K ?s 0 = (s', Ok)" "i_ino (inodes s' 0) = 5"
    using keys_disjoint [of 5 0 5]
    by (auto simp: gbfs_free_inode_def gbfs_clear_inode_def gbfs_raw_inode_def assoc_get_def
        GBFS_ROOT_INO_def gbfs_update_inode_def assoc_put_def)
  show ?thesis
    using free_inode_leaves_pages [of "\<lambda>_. True" "\<lambda>_ _ _. True" demo_K ?s 0 s' 5 0 demo_page s' 0] s' demo_store
    by (auto simp: assoc_get_def page_offset_def demo_page_length)
qed

text \<open>A new inode gets the value of the module's counter, which then advances modulo
  \<open>2 ^ 64\<close>; so two sessions that start with the same counter, as every load of the module does,
  hand out the same number and the same database key.\<close>

theorem inode_numbers_restart:
  assumes "alloc_ok K" "gbfs_new_inode K s dir mode = (s', Inr h)" "gbfs_new_inode K t dir' mode' = (t', Inr h')"
    and "next_ino s = next_ino t"
  shows "i_ino (inodes s' h) = next_ino s \<and> next_ino s' = (next_ino s + 1) mod 2 ^ 64
    \<and> gbfs_inode_key (i_ino (inodes s' h)) = gbfs_inode_key (i_ino (inodes t' h'))"
  using new_inode_number [OF assms(1,2)] new_inode_number [OF assms(1,3)] assms(4) by simp

lemma inode_numbers_restart_witness:
  "i_ino (inodes (fst (gbfs_new_inode demo_K demo_state 0 S_IFREG)) 100) = 20"
proof -
  obtain s' where "gbfs_new_inode demo_K demo_state 0 S_IFREG = (s', Inr 100)"
    by (simp add: gbfs_new_inode_def demo_kernel_def Let_def)
  with inode_numbers_restart [OF demo_alloc_ok this this] show ?thesis by simp
qed

section \<open>Mounting\<close>

text \<open>A mount that succeeds holds its superblock data and both database handles, and
  unmounting closes both when the database's close succeeds.\<close>

theorem mount_then_unmount:
  assumes "gbfs_fill_super c unmounted = (m, Ok)" "db_close c = 0"
  shows "live_env m \<and> live_dbp m \<and> m_sbi m \<and> m_dirsize m = 64 \<and> m_namelen m = 60
    \<and> \<not> live_env (gbfs_put_super c m) \<and> \<not> live_dbp (gbfs_put_super c m) \<and> \<not> m_sbi (gbfs_put_super c m)"
  using fill_super_ok [OF assms(1)] mount_unmount [OF assms] by simp

definition demo_calls :: "errno + nat \<Rightarrow> mcalls" where
  "demo_calls r = \<lparr>alloc_sbi = True, alloc_ms = True, blocksize_ok = True, env_create = 0, env_open = 0,
     db_create = 0, db_open = 0, db_close = 0, env_close = 0, root_iget = r, d_make_root = True\<rparr>"

lemma mount_then_unmount_witness:
  "\<exists>m. gbfs_fill_super (demo_calls (Inr 0)) unmounted = (m, Ok) \<and> live_env m
    \<and> \<not> live_env (gbfs_put_super (demo_calls (Inr 0)) m)"
proof -
  obtain m where "gbfs_fill_super (demo_calls (Inr 0)) unmounted = (m, Ok)"
    by (simp add: gbfs_fill_super_def demo_calls_def kdb_open_def Let_def)
  with mount_then_unmount [OF this] show ?thesis by (auto simp: demo_calls_def)
qed

text \<open>What a failed mount leaves behind: the second allocation whenever it was made, the first
  one exactly when the second failed, and both database handles exactly when the database had
  been opened, that is when the root inode could not be set up.\<close>

theorem mount_failure_leaks:
  assumes "gbfs_fill_super c unmounted = (m, Err e)"
  shows "(m_sbi m \<longleftrightarrow> alloc_sbi c \<and> blocksize_ok c \<and> \<not> alloc_ms c)
    \<and> (m_ms m \<longleftrightarrow> alloc_sbi c \<and> blocksize_ok c \<and> alloc_ms c)
    \<and> (live_env m \<longleftrightarrow> m_ms m \<and> snd (kdb_open c unmounted) = 0) \<and> (live_dbp m \<longleftrightarrow> live_env m)"
  using fill_super_failed [OF assms] by blast

lemma mount_failure_leaks_witness:
  "\<exists>m. gbfs_fill_super (demo_calls (Inl EIO)) unmounted = (m, Err EIO) \<and> live_env m \<and> \<not> m_sbi m"
proof -
  obtain m where "gbfs_fill_super (demo_calls (Inl EIO)) unmounted = (m, Err EIO)"
    by (simp add: gbfs_fill_super_def demo_calls_def kdb_open_def Let_def)
  with mount_failure_leaks [OF this] show ?thesis by (auto simp: demo_calls_def kdb_open_def Let_def)
qed

text \<open>The search of a bitmap of 16-bit words returns the first bit that \<open>gbfs_test_bit\<close>
  sees clear in the whole words of the given size, or their number of bits when all are set.\<close>

theorem find_first_zero_bit_correct:
  assumes "gbfs_find_first_zero_bit ws sz = Some r" "16 \<le> sz"
  shows "r \<le> 16 * (sz div 16) \<and> (\<forall>k < r. gbfs_test_bit k ws)
    \<and> (r < 16 * (sz div 16) \<longrightarrow> \<not> gbfs_test_bit r ws)"
  using find_first_zero [OF assms] by (simp add: first_zero_def)

lemma find_first_zero_bit_correct_witness:
  "gbfs_find_first_zero_bit [0xffff, 7] 32 = Some 19 \<and> \<not> gbfs_test_bit 19 [0xffff, 7]"
proof -
  have "gbfs_find_first_zero_bit [0xffff, 7] 32 = Some 19"
    by code_simp
  with find_first_zero_bit_correct [OF this] show ?thesis by simp
qed

end
