(* ===== verification/Db_Compint.thy ===== *)
theory Db_Compint
  imports Prelude
begin

text \<open>
  Compressed integers, \<open>src/db/src/common/db_compint.c\<close>.  The C code views the integer as
  bytes in memory; \<open>be\<close> is the byte order of the machine, what \<open>__db_isbigendian\<close> returns.
  The first group of lemmas rewrites both byte orders to one encoding in big-endian order;
  on that encoding stand the round trips, the length table and the order of encodings.
\<close>

section \<open>Memory of a machine integer\<close>

definition mem_bytes :: "bool \<Rightarrow> nat \<Rightarrow> nat \<Rightarrow> byte list" where
  "mem_bytes be n x = (if be then rev (le_enc n x) else le_enc n x)"

definition mem_val :: "bool \<Rightarrow> byte list \<Rightarrow> nat" where
  "mem_val be p = (if be then le_dec (rev p) else le_dec p)"

section \<open>The code\<close>

definition db_marshaled_int_size :: "nat list" where
  "db_marshaled_int_size = replicate 128 1 @ replicate 64 2 @ replicate 32 3 @ replicate 16 4
     @ replicate 8 5 @ [6, 7, 8, 9] @ replicate 4 0xFF"

definition db_compress_count_int :: "u64 \<Rightarrow> nat" where
  "db_compress_count_int i =
     (if i \<le> 0x7F then 1
      else if i \<le> 0x407F then 2
      else if i \<le> 0x20407F then 3
      else if i \<le> 0x1020407F then 4
      else if i \<le> 0x081020407F then 5
      else if i \<le> 0x01081020407F then 6
      else if i \<le> 0x0101081020407F then 7
      else if i \<le> 0x010101081020407F then 8
      else 9)"

definition db_compress_int :: "bool \<Rightarrow> u64 \<Rightarrow> byte list" where
  "db_compress_int be i =
     (if i \<le> 0x7F then [ucast i]
      else if i \<le> 0x407F then
        (let p = mem_bytes be 8 (unat (i - (0x7F + 1)))
         in if be then [p ! 6 OR 0x80, p ! 7] else [p ! 1 OR 0x80, p ! 0])
      else if i \<le> 0x20407F then
        (let p = mem_bytes be 8 (unat (i - (0x407F + 1)))
         in if be then [p ! 5 OR 0xC0, p ! 6, p ! 7] else [p ! 2 OR 0xC0, p ! 1, p ! 0])
      else if i \<le> 0x1020407F then
        (let p = mem_bytes be 8 (unat (i - (0x20407F + 1)))
         in if be then [p ! 4 OR 0xE0, p ! 5, p ! 6, p ! 7]
            else [p ! 3 OR 0xE0, p ! 2, p ! 1, p ! 0])
      else if i \<le> 0x081020407F then
        (let p = mem_bytes be 8 (unat (i - (0x1020407F + 1)))
         in if be then [p ! 3 OR 0xF0, p ! 4, p ! 5, p ! 6, p ! 7]
            else [p ! 4 OR 0xF0, p ! 3, p ! 2, p ! 1, p ! 0])
      else if i \<le> 0x01081020407F then
        (let p = mem_bytes be 8 (unat (i - (0x081020407F + 1)))
         in if be then [0xF8, p ! 3, p ! 4, p ! 5, p ! 6, p ! 7]
            else [0xF8, p ! 4, p ! 3, p ! 2, p ! 1, p ! 0])
      else if i \<le> 0x0101081020407F then
        (let p = mem_bytes be 8 (unat (i - (0x01081020407F + 1)))
         in if be then [0xF9, p ! 2, p ! 3, p ! 4, p ! 5, p ! 6, p ! 7]
            else [0xF9, p ! 5, p ! 4, p ! 3, p ! 2, p ! 1, p ! 0])
      else if i \<le> 0x010101081020407F then
        (let p = mem_bytes be 8 (unat (i - (0x0101081020407F + 1)))
         in if be then [0xFA, p ! 1, p ! 2, p ! 3, p ! 4, p ! 5, p ! 6, p ! 7]
            else [0xFA, p ! 6, p ! 5, p ! 4, p ! 3, p ! 2, p ! 1, p ! 0])
      else
        (let p = mem_bytes be 8 (unat (i - (0x010101081020407F + 1)))
         in if be then [0xFB, p ! 0, p ! 1, p ! 2, p ! 3, p ! 4, p ! 5, p ! 6, p ! 7]
            else [0xFB, p ! 7, p ! 6, p ! 5, p ! 4, p ! 3, p ! 2, p ! 1, p ! 0]))"

definition db_decompress_count_int :: "byte list \<Rightarrow> nat" where
  "db_decompress_count_int buf = db_marshaled_int_size ! unat (buf ! 0)"

text \<open>The result is the integer stored through the pointer and the number of bytes read.\<close>

definition db_decompress_int :: "bool \<Rightarrow> byte list \<Rightarrow> u64 \<times> nat" where
  "db_decompress_int be buf =
     (let c = buf ! 0;
          len = db_marshaled_int_size ! unat c;
          w = (\<lambda>p. word_of_nat (mem_val be p) :: u64)
      in if len = 1 then (ucast c, 1)
         else if len = 2 then
           ((if be then w [0, 0, 0, 0, 0, 0, c AND 0x3F, buf ! 1]
             else w [buf ! 1, c AND 0x3F, 0, 0, 0, 0, 0, 0]) + (0x7F + 1), len)
         else if len = 3 then
           ((if be then w [0, 0, 0, 0, 0, c AND 0x1F, buf ! 1, buf ! 2]
             else w [buf ! 2, buf ! 1, c AND 0x1F, 0, 0, 0, 0, 0]) + (0x407F + 1), len)
         else if len = 4 then
           ((if be then w [0, 0, 0, 0, c AND 0x0F, buf ! 1, buf ! 2, buf ! 3]
             else w [buf ! 3, buf ! 2, buf ! 1, c AND 0x0F, 0, 0, 0, 0]) + (0x20407F + 1), len)
         else if len = 5 then
           ((if be then w [0, 0, 0, c AND 0x07, buf ! 1, buf ! 2, buf ! 3, buf ! 4]
             else w [buf ! 4, buf ! 3, buf ! 2, buf ! 1, c AND 0x07, 0, 0, 0]) + (0x1020407F + 1), len)
         else if len = 6 then
           ((if be then w [0, 0, 0, buf ! 1, buf ! 2, buf ! 3, buf ! 4, buf ! 5]
             else w [buf ! 5, buf ! 4, buf ! 3, buf ! 2, buf ! 1, 0, 0, 0]) + (0x081020407F + 1), len)
         else if len = 7 then
           ((if be then w [0, 0, buf ! 1, buf ! 2, buf ! 3, buf ! 4, buf ! 5, buf ! 6]
             else w [buf ! 6, buf ! 5, buf ! 4, buf ! 3, buf ! 2, buf ! 1, 0, 0])
            + (0x01081020407F + 1), len)
         else if len = 8 then
           ((if be then w [0, buf ! 1, buf ! 2, buf ! 3, buf ! 4, buf ! 5, buf ! 6, buf ! 7]
             else w [buf ! 7, buf ! 6, buf ! 5, buf ! 4, buf ! 3, buf ! 2, buf ! 1, 0])
            + (0x0101081020407F + 1), len)
         else if len = 9 then
           ((if be then w [buf ! 1, buf ! 2, buf ! 3, buf ! 4, buf ! 5, buf ! 6, buf ! 7, buf ! 8]
             else w [buf ! 8, buf ! 7, buf ! 6, buf ! 5, buf ! 4, buf ! 3, buf ! 2, buf ! 1])
            + (0x010101081020407F + 1), len)
         else (0, len))"

definition db_decompress_int32 :: "bool \<Rightarrow> byte list \<Rightarrow> u32 \<times> nat" where
  "db_decompress_int32 be buf =
     (let c = buf ! 0;
          len = db_marshaled_int_size ! unat c;
          w = (\<lambda>p. word_of_nat (mem_val be p) :: u32)
      in if len = 1 then (ucast c, 1)
         else if len = 2 then
           ((if be then w [0, 0, c AND 0x3F, buf ! 1] else w [buf ! 1, c AND 0x3F, 0, 0]) + (0x7F + 1), len)
         else if len = 3 then
           ((if be then w [0, c AND 0x1F, buf ! 1, buf ! 2]
             else w [buf ! 2, buf ! 1, c AND 0x1F, 0]) + (0x407F + 1), len)
         else if len = 4 then
           ((if be then w [c AND 0x0F, buf ! 1, buf ! 2, buf ! 3]
             else w [buf ! 3, buf ! 2, buf ! 1, c AND 0x0F]) + (0x20407F + 1), len)
         else if len = 5 then
           ((if be then w [buf ! 1, buf ! 2, buf ! 3, buf ! 4]
             else w [buf ! 4, buf ! 3, buf ! 2, buf ! 1]) + (0x1020407F + 1), len)
         else (0, len))"

section \<open>One encoding for both byte orders\<close>

lemma le_enc_numeral [simp]:
  "le_enc (numeral k) x = word_of_nat (x mod 256) # le_enc (pred_numeral k) (x div 256)"
  unfolding numeral_eq_Suc [of k] by (rule le_enc.simps(2))

text \<open>
  The bands of the encoding: tail bytes, value of the first byte, first integer.
\<close>

definition bands :: "(nat \<times> nat \<times> nat) list" where
  "bands = [(1, 0x80, 0x80), (2, 0xC0, 0x4080), (3, 0xE0, 0x204080), (4, 0xF0, 0x10204080),
     (5, 0xF8, 0x0810204080), (6, 0xF9, 0x010810204080), (7, 0xFA, 0x01010810204080),
     (8, 0xFB, 0x0101010810204080)]"

definition band_bytes :: "nat \<times> nat \<times> nat \<Rightarrow> nat \<Rightarrow> byte list" where
  "band_bytes = (\<lambda>(k, v, b) i. word_of_nat (v + (i - b) div 256 ^ k) # rev (le_enc k (i - b)))"

lemma or_heads:
  "x < 64 \<Longrightarrow> word_of_nat x OR 0x80 = (word_of_nat (0x80 + x) :: byte)"
  "x < 32 \<Longrightarrow> word_of_nat x OR 0xC0 = (word_of_nat (0xC0 + x) :: byte)"
  "x < 16 \<Longrightarrow> word_of_nat x OR 0xE0 = (word_of_nat (0xE0 + x) :: byte)"
  "x < 8 \<Longrightarrow> word_of_nat x OR 0xF0 = (word_of_nat (0xF0 + x) :: byte)"
proof -
  have all: "list_all (\<lambda>x. word_of_nat x OR 0x80 = (word_of_nat (0x80 + x) :: byte)) [0..<64]"
    "list_all (\<lambda>x. word_of_nat x OR 0xC0 = (word_of_nat (0xC0 + x) :: byte)) [0..<32]"
    "list_all (\<lambda>x. word_of_nat x OR 0xE0 = (word_of_nat (0xE0 + x) :: byte)) [0..<16]"
    "list_all (\<lambda>x. word_of_nat x OR 0xF0 = (word_of_nat (0xF0 + x) :: byte)) [0..<8]"
    by code_simp+
  then show "x < 64 \<Longrightarrow> word_of_nat x OR 0x80 = (word_of_nat (0x80 + x) :: byte)"
    "x < 32 \<Longrightarrow> word_of_nat x OR 0xC0 = (word_of_nat (0xC0 + x) :: byte)"
    "x < 16 \<Longrightarrow> word_of_nat x OR 0xE0 = (word_of_nat (0xE0 + x) :: byte)"
    "x < 8 \<Longrightarrow> word_of_nat x OR 0xF0 = (word_of_nat (0xF0 + x) :: byte)"
    by (simp_all add: list_all_iff)
qed

text \<open>The band of an integer: the last one that starts at or below it.\<close>

definition band_of :: "nat \<Rightarrow> nat \<times> nat \<times> nat" where
  "band_of n = last (filter (\<lambda>(k, v, b). b \<le> n) bands)"

lemma band_of_cases:
  assumes "0x80 \<le> n" "n < 2 ^ 64"
  obtains "n < 0x4080" "band_of n = (1, 0x80, 0x80)"
  | "0x4080 \<le> n" "n < 0x204080" "band_of n = (2, 0xC0, 0x4080)"
  | "0x204080 \<le> n" "n < 0x10204080" "band_of n = (3, 0xE0, 0x204080)"
  | "0x10204080 \<le> n" "n < 0x0810204080" "band_of n = (4, 0xF0, 0x10204080)"
  | "0x0810204080 \<le> n" "n < 0x010810204080" "band_of n = (5, 0xF8, 0x0810204080)"
  | "0x010810204080 \<le> n" "n < 0x01010810204080" "band_of n = (6, 0xF9, 0x010810204080)"
  | "0x01010810204080 \<le> n" "n < 0x0101010810204080" "band_of n = (7, 0xFA, 0x01010810204080)"
  | "0x0101010810204080 \<le> n" "band_of n = (8, 0xFB, 0x0101010810204080)"
proof -
  consider "n < 0x4080" | "0x4080 \<le> n" "n < 0x204080" | "0x204080 \<le> n" "n < 0x10204080"
    | "0x10204080 \<le> n" "n < 0x0810204080" | "0x0810204080 \<le> n" "n < 0x010810204080"
    | "0x010810204080 \<le> n" "n < 0x01010810204080" | "0x01010810204080 \<le> n" "n < 0x0101010810204080"
    | "0x0101010810204080 \<le> n" by linarith
  then show thesis by cases (use that assms(1) in \<open>simp_all add: band_of_def bands_def\<close>)
qed

lemma unat_minus_const: "c \<le> i \<Longrightarrow> unat (i - c) = unat i - unat (c :: u64)"
  by (simp add: unat_sub)

lemma compress_one: "unat i \<le> 0x7F \<Longrightarrow> db_compress_int be i = [word_of_nat (unat i)]"
  by (simp add: db_compress_int_def word_le_nat_alt)

lemma head_bytes:
  fixes x :: nat
  assumes "x div q < n" "n \<le> 256"
  shows "x div q mod 256 = x div q"
  using assms by simp

lemma compress_band:
  assumes "0x80 \<le> unat i"
  shows "db_compress_int be i = band_bytes (band_of (unat i)) (unat i)"
proof -
  have "unat i < 2 ^ LENGTH(64)" by (rule unsigned_less)
  then have b: "unat i < 2 ^ 64" by simp
  note c = db_compress_int_def word_le_nat_alt unat_minus_const mem_bytes_def band_bytes_def Let_def
    div_mult2_eq [symmetric]
  show ?thesis
  proof (rule band_of_cases [OF assms b])
    assume n: "unat i < 0x4080" and bo: "band_of (unat i) = (1, 0x80, 0x80)"
    have x: "(unat i - 128) div 256 < 64" using n by auto
    show ?thesis unfolding bo using n assms x head_bytes [OF x] or_heads(1) [OF x] by (simp add: c)
  next
    assume n: "0x4080 \<le> unat i" "unat i < 0x204080" and bo: "band_of (unat i) = (2, 0xC0, 0x4080)"
    have x: "(unat i - 0x4080) div 65536 < 32" using n by auto
    show ?thesis unfolding bo using n assms x head_bytes [OF x] or_heads(2) [OF x] by (simp add: c)
  next
    assume n: "0x204080 \<le> unat i" "unat i < 0x10204080" and bo: "band_of (unat i) = (3, 0xE0, 0x204080)"
    have x: "(unat i - 0x204080) div 16777216 < 16" using n by auto
    show ?thesis unfolding bo using n assms x head_bytes [OF x] or_heads(3) [OF x] by (simp add: c)
  next
    assume n: "0x10204080 \<le> unat i" "unat i < 0x0810204080" and bo: "band_of (unat i) = (4, 0xF0, 0x10204080)"
    have x: "(unat i - 0x10204080) div 4294967296 < 8" using n by auto
    show ?thesis unfolding bo using n assms x head_bytes [OF x] or_heads(4) [OF x] by (simp add: c)
  next
    assume n: "0x0810204080 \<le> unat i" "unat i < 0x010810204080"
      and bo: "band_of (unat i) = (5, 0xF8, 0x0810204080)"
    have x: "(unat i - 0x0810204080) div 0x10000000000 = 0" using n by auto
    show ?thesis unfolding bo using n assms x by (simp add: c)
  next
    assume n: "0x010810204080 \<le> unat i" "unat i < 0x01010810204080"
      and bo: "band_of (unat i) = (6, 0xF9, 0x010810204080)"
    have x: "(unat i - 0x010810204080) div 0x1000000000000 = 0" using n by auto
    show ?thesis unfolding bo using n assms x by (simp add: c)
  next
    assume n: "0x01010810204080 \<le> unat i" "unat i < 0x0101010810204080"
      and bo: "band_of (unat i) = (7, 0xFA, 0x01010810204080)"
    have x: "(unat i - 0x01010810204080) div 0x100000000000000 = 0" using n by auto
    show ?thesis unfolding bo using n assms x by (simp add: c)
  next
    assume n: "0x0101010810204080 \<le> unat i" and bo: "band_of (unat i) = (8, 0xFB, 0x0101010810204080)"
    have x: "(unat i - 0x0101010810204080) div 0x10000000000000000 = 0" using b by auto
    show ?thesis unfolding bo using n assms x by (simp add: c)
  qed
qed

section \<open>Round trips\<close>

lemma le_dec_append: "le_dec (a @ b) = le_dec a + 256 ^ length a * le_dec b"
  by (induction a) (auto simp: algebra_simps)

lemma le_dec_zeros: "list_all (\<lambda>b. b = 0) zs \<Longrightarrow> le_dec zs = 0"
  by (induction zs) auto

lemma le_dec_band:
  assumes "x div 256 ^ k < 256" "list_all (\<lambda>b. b = 0) zs"
  shows "le_dec (le_enc k x @ word_of_nat (x div 256 ^ k) # zs) = x"
  using assms by (simp add: le_dec_append unat_of_nat le_dec_zeros)

lemma le_dec_tail:
  assumes "x div 256 ^ k = 0" "list_all (\<lambda>b. b = 0) zs"
  shows "le_dec (le_enc k x @ zs) = x"
  using assms by (simp add: le_dec_append le_dec_zeros div_eq_0_iff)

lemma and_heads:
  "x < 64 \<Longrightarrow> word_of_nat (0x80 + x) AND 0x3F = (word_of_nat x :: byte)"
  "x < 32 \<Longrightarrow> word_of_nat (0xC0 + x) AND 0x1F = (word_of_nat x :: byte)"
  "x < 16 \<Longrightarrow> word_of_nat (0xE0 + x) AND 0x0F = (word_of_nat x :: byte)"
  "x < 8 \<Longrightarrow> word_of_nat (0xF0 + x) AND 0x07 = (word_of_nat x :: byte)"
proof -
  have all: "list_all (\<lambda>x. word_of_nat (0x80 + x) AND 0x3F = (word_of_nat x :: byte)) [0..<64]"
    "list_all (\<lambda>x. word_of_nat (0xC0 + x) AND 0x1F = (word_of_nat x :: byte)) [0..<32]"
    "list_all (\<lambda>x. word_of_nat (0xE0 + x) AND 0x0F = (word_of_nat x :: byte)) [0..<16]"
    "list_all (\<lambda>x. word_of_nat (0xF0 + x) AND 0x07 = (word_of_nat x :: byte)) [0..<8]"
    by code_simp+
  then show "x < 64 \<Longrightarrow> word_of_nat (0x80 + x) AND 0x3F = (word_of_nat x :: byte)"
    "x < 32 \<Longrightarrow> word_of_nat (0xC0 + x) AND 0x1F = (word_of_nat x :: byte)"
    "x < 16 \<Longrightarrow> word_of_nat (0xE0 + x) AND 0x0F = (word_of_nat x :: byte)"
    "x < 8 \<Longrightarrow> word_of_nat (0xF0 + x) AND 0x07 = (word_of_nat x :: byte)"
    by (simp_all add: list_all_iff)
qed

lemma size_table:
  "h < 128 \<Longrightarrow> db_marshaled_int_size ! h = 1"
  "x < 64 \<Longrightarrow> db_marshaled_int_size ! (128 + x) = 2"
  "x < 32 \<Longrightarrow> db_marshaled_int_size ! (192 + x) = 3"
  "x < 16 \<Longrightarrow> db_marshaled_int_size ! (224 + x) = 4"
  "x < 8 \<Longrightarrow> db_marshaled_int_size ! (240 + x) = 5"
  "db_marshaled_int_size ! 248 = 6" "db_marshaled_int_size ! 249 = 7"
  "db_marshaled_int_size ! 250 = 8" "db_marshaled_int_size ! 251 = 9"
  by (simp_all add: db_marshaled_int_size_def nth_append)

lemma unat_small: "n < 256 \<Longrightarrow> unat (word_of_nat n :: byte) = n"
  by (simp add: unat_of_nat)

text \<open>The encoding of an integer, whichever band it is in.\<close>

definition cint :: "nat \<Rightarrow> byte list" where
  "cint n = (if n \<le> 0x7F then [word_of_nat n] else band_bytes (band_of n) n)"

lemma compress_cint: "db_compress_int be i = cint (unat i)"
  using compress_one [of i be] compress_band [of i be] by (simp add: cint_def)

lemma length_cint:
  assumes "n < 2 ^ 64"
  shows "length (cint n) = db_compress_count_int (word_of_nat n)"
    "db_decompress_count_int (cint n @ rest) = length (cint n)"
proof -
  have u: "unat (word_of_nat n :: u64) = n" using assms by (simp add: unat_of_nat)
  show "length (cint n) = db_compress_count_int (word_of_nat n)"
  proof (cases "n \<le> 0x7F")
    case False
    then have n: "0x80 \<le> n" by simp
    show ?thesis
      by (rule band_of_cases [OF n assms])
        (use n in \<open>simp_all add: cint_def db_compress_count_int_def word_le_nat_alt u band_bytes_def\<close>)
  qed (simp add: cint_def db_compress_count_int_def word_le_nat_alt u)
  show "db_decompress_count_int (cint n @ rest) = length (cint n)"
  proof (cases "n \<le> 0x7F")
    case True
    then show ?thesis by (simp add: cint_def db_decompress_count_int_def size_table(1) unat_small)
  next
    case False
    then have n: "0x80 \<le> n" by simp
    note simps = cint_def db_decompress_count_int_def band_bytes_def unat_small size_table
    show ?thesis
    proof (rule band_of_cases [OF n assms])
      assume "n < 0x4080" and bo: "band_of n = (1, 0x80, 0x80)"
      then have "(n - 128) div 256 < 64" using n by auto
      with False bo show ?thesis by (simp add: simps del: of_nat_add)
    next
      assume "0x4080 \<le> n" "n < 0x204080" and bo: "band_of n = (2, 0xC0, 0x4080)"
      then have "(n - 0x4080) div 65536 < 32" by auto
      with False bo show ?thesis by (simp add: simps del: of_nat_add)
    next
      assume "0x204080 \<le> n" "n < 0x10204080" and bo: "band_of n = (3, 0xE0, 0x204080)"
      then have "(n - 0x204080) div 16777216 < 16" by auto
      with False bo show ?thesis by (simp add: simps del: of_nat_add)
    next
      assume "0x10204080 \<le> n" "n < 0x0810204080" and bo: "band_of n = (4, 0xF0, 0x10204080)"
      then have "(n - 0x10204080) div 4294967296 < 8" by auto
      with False bo show ?thesis by (simp add: simps del: of_nat_add)
    qed (use False assms in \<open>simp_all add: simps div_less del: of_nat_add\<close>)
  qed
qed

lemma word_back: "b \<le> n \<Longrightarrow> word_of_nat (n - b) + word_of_nat b = (word_of_nat n :: 'a::len word)"
  by (simp flip: of_nat_add)

lemma word_back_u64:
  "b \<le> unat i \<Longrightarrow> word_of_nat (unat i - b) + word_of_nat b = (i :: u64)"
  by (simp add: word_back)

lemma decompress_shape:
  "db_marshaled_int_size ! unat c = 2 \<Longrightarrow>
     db_decompress_int be (c # b0 # rest)
       = (word_of_nat (le_dec [b0, c AND 63, 0, 0, 0, 0, 0, 0]) + 128, 2)"
  "db_marshaled_int_size ! unat c = 3 \<Longrightarrow>
     db_decompress_int be (c # b1 # b0 # rest)
       = (word_of_nat (le_dec [b0, b1, c AND 31, 0, 0, 0, 0, 0]) + 16512, 3)"
  "db_marshaled_int_size ! unat c = 4 \<Longrightarrow>
     db_decompress_int be (c # b2 # b1 # b0 # rest)
       = (word_of_nat (le_dec [b0, b1, b2, c AND 15, 0, 0, 0, 0]) + 2113664, 4)"
  "db_marshaled_int_size ! unat c = 5 \<Longrightarrow>
     db_decompress_int be (c # b3 # b2 # b1 # b0 # rest)
       = (word_of_nat (le_dec [b0, b1, b2, b3, c AND 7, 0, 0, 0]) + 270549120, 5)"
  "db_marshaled_int_size ! unat c = 6 \<Longrightarrow>
     db_decompress_int be (c # b4 # b3 # b2 # b1 # b0 # rest)
       = (word_of_nat (le_dec [b0, b1, b2, b3, b4, 0, 0, 0]) + 34630287488, 6)"
  "db_marshaled_int_size ! unat c = 7 \<Longrightarrow>
     db_decompress_int be (c # b5 # b4 # b3 # b2 # b1 # b0 # rest)
       = (word_of_nat (le_dec [b0, b1, b2, b3, b4, b5, 0, 0]) + 1134141915264, 7)"
  "db_marshaled_int_size ! unat c = 8 \<Longrightarrow>
     db_decompress_int be (c # b6 # b5 # b4 # b3 # b2 # b1 # b0 # rest)
       = (word_of_nat (le_dec [b0, b1, b2, b3, b4, b5, b6, 0]) + 282609118625920, 8)"
  "db_marshaled_int_size ! unat c = 9 \<Longrightarrow>
     db_decompress_int be (c # b7 # b6 # b5 # b4 # b3 # b2 # b1 # b0 # rest)
       = (word_of_nat (le_dec [b0, b1, b2, b3, b4, b5, b6, b7]) + 72340203156553856, 9)"
  by (simp_all add: db_decompress_int_def mem_val_def Let_def del: le_dec.simps)

lemma decompress_band:
  assumes "0x80 \<le> n" "n < 2 ^ 64"
  shows "db_decompress_int be (cint n @ rest) = (word_of_nat n, length (cint n))"
proof -
  have n: "\<not> n \<le> 0x7F" and lim: "n < 2 ^ 64" using assms by simp_all
  note c = cint_def band_bytes_def unat_small div_mult2_eq [symmetric]
  show ?thesis
  proof (rule band_of_cases [OF assms(1) lim])
    assume r: "n < 16512" and bo: "band_of n = (1, 128, 128)"
    let ?x = "n - 128"
    have x: "?x div 256 < 64" using r assms by auto
    have d: "le_dec [word_of_nat (?x mod 256), word_of_nat (?x div 256), 0, 0, 0, 0, 0, 0] = ?x"
      using le_dec_band [of ?x 1 "[0, 0, 0, 0, 0, 0]"] x by (simp add: div_mult2_eq [symmetric] del: le_dec.simps)
    let ?c = "word_of_nat (128 + ?x div 256) :: byte"
    have e: "cint n = ?c # word_of_nat (?x mod 256) # []"
      using n bo by (simp add: c)
    have sz: "db_marshaled_int_size ! unat ?c = 2" and hd: "?c AND 63 = word_of_nat (?x div 256)"
      using size_table(2) [OF x] and_heads(1) [OF x] x unat_small [of "128 + ?x div 256"] by (simp_all del: of_nat_add)
    have wb: "word_of_nat ?x + (128 :: 64 word) = word_of_nat n"
      using word_back [of 128 n, where 'a = 64] r assms(1) by simp
    show ?thesis unfolding e append.simps decompress_shape(1) [OF sz] hd d wb by simp
  next
    assume r: "16512 \<le> n" "n < 2113664" and bo: "band_of n = (2, 192, 16512)"
    let ?x = "n - 16512"
    have x: "?x div 65536 < 32" using r assms by auto
    have d: "le_dec [word_of_nat (?x mod 256), word_of_nat (?x div 256 mod 256), word_of_nat (?x div 65536), 0, 0, 0, 0, 0] = ?x"
      using le_dec_band [of ?x 2 "[0, 0, 0, 0, 0]"] x by (simp add: div_mult2_eq [symmetric] del: le_dec.simps)
    let ?c = "word_of_nat (192 + ?x div 65536) :: byte"
    have e: "cint n = ?c # word_of_nat (?x div 256 mod 256) # word_of_nat (?x mod 256) # []"
      using n bo by (simp add: c)
    have sz: "db_marshaled_int_size ! unat ?c = 3" and hd: "?c AND 31 = word_of_nat (?x div 65536)"
      using size_table(3) [OF x] and_heads(2) [OF x] x unat_small [of "192 + ?x div 65536"] by (simp_all del: of_nat_add)
    have wb: "word_of_nat ?x + (16512 :: 64 word) = word_of_nat n"
      using word_back [of 16512 n, where 'a = 64] r assms(1) by simp
    show ?thesis unfolding e append.simps decompress_shape(2) [OF sz] hd d wb by simp
  next
    assume r: "2113664 \<le> n" "n < 270549120" and bo: "band_of n = (3, 224, 2113664)"
    let ?x = "n - 2113664"
    have x: "?x div 16777216 < 16" using r assms by auto
    have d: "le_dec [word_of_nat (?x mod 256), word_of_nat (?x div 256 mod 256), word_of_nat (?x div 65536 mod 256), word_of_nat (?x div 16777216), 0, 0, 0, 0] = ?x"
      using le_dec_band [of ?x 3 "[0, 0, 0, 0]"] x by (simp add: div_mult2_eq [symmetric] del: le_dec.simps)
    let ?c = "word_of_nat (224 + ?x div 16777216) :: byte"
    have e: "cint n = ?c # word_of_nat (?x div 65536 mod 256) # word_of_nat (?x div 256 mod 256) # word_of_nat (?x mod 256) # []"
      using n bo by (simp add: c)
    have sz: "db_marshaled_int_size ! unat ?c = 4" and hd: "?c AND 15 = word_of_nat (?x div 16777216)"
      using size_table(4) [OF x] and_heads(3) [OF x] x unat_small [of "224 + ?x div 16777216"] by (simp_all del: of_nat_add)
    have wb: "word_of_nat ?x + (2113664 :: 64 word) = word_of_nat n"
      using word_back [of 2113664 n, where 'a = 64] r assms(1) by simp
    show ?thesis unfolding e append.simps decompress_shape(3) [OF sz] hd d wb by simp
  next
    assume r: "270549120 \<le> n" "n < 34630287488" and bo: "band_of n = (4, 240, 270549120)"
    let ?x = "n - 270549120"
    have x: "?x div 4294967296 < 8" using r assms by auto
    have d: "le_dec [word_of_nat (?x mod 256), word_of_nat (?x div 256 mod 256), word_of_nat (?x div 65536 mod 256), word_of_nat (?x div 16777216 mod 256), word_of_nat (?x div 4294967296), 0, 0, 0] = ?x"
      using le_dec_band [of ?x 4 "[0, 0, 0]"] x by (simp add: div_mult2_eq [symmetric] del: le_dec.simps)
    let ?c = "word_of_nat (240 + ?x div 4294967296) :: byte"
    have e: "cint n = ?c # word_of_nat (?x div 16777216 mod 256) # word_of_nat (?x div 65536 mod 256) # word_of_nat (?x div 256 mod 256) # word_of_nat (?x mod 256) # []"
      using n bo by (simp add: c)
    have sz: "db_marshaled_int_size ! unat ?c = 5" and hd: "?c AND 7 = word_of_nat (?x div 4294967296)"
      using size_table(5) [OF x] and_heads(4) [OF x] x unat_small [of "240 + ?x div 4294967296"] by (simp_all del: of_nat_add)
    have wb: "word_of_nat ?x + (270549120 :: 64 word) = word_of_nat n"
      using word_back [of 270549120 n, where 'a = 64] r assms(1) by simp
    show ?thesis unfolding e append.simps decompress_shape(4) [OF sz] hd d wb by simp
  next
    assume r: "34630287488 \<le> n" "n < 1134141915264" and bo: "band_of n = (5, 248, 34630287488)"
    let ?x = "n - 34630287488"
    have x: "?x div 1099511627776 = 0" using r assms by auto
    have x2: "?x div 256 ^ 5 = 0" using x by simp
    have d: "le_dec [word_of_nat (?x mod 256), word_of_nat (?x div 256 mod 256), word_of_nat (?x div 65536 mod 256), word_of_nat (?x div 16777216 mod 256), word_of_nat (?x div 4294967296 mod 256), 0, 0, 0] = ?x"
      using le_dec_tail [OF x2, of "[0, 0, 0]"] by (simp add: div_mult2_eq [symmetric] del: le_dec.simps)
    let ?c = "word_of_nat (248 + ?x div 1099511627776) :: byte"
    have e: "cint n = ?c # word_of_nat (?x div 4294967296 mod 256) # word_of_nat (?x div 16777216 mod 256) # word_of_nat (?x div 65536 mod 256) # word_of_nat (?x div 256 mod 256) # word_of_nat (?x mod 256) # []"
      using n bo by (simp add: c)
    have sz: "db_marshaled_int_size ! unat ?c = 6"
      using size_table(6) x by simp
    have wb: "word_of_nat ?x + (34630287488 :: 64 word) = word_of_nat n"
      using word_back [of 34630287488 n, where 'a = 64] r assms(1) by simp
    show ?thesis unfolding e append.simps decompress_shape(5) [OF sz] d wb by simp
  next
    assume r: "1134141915264 \<le> n" "n < 282609118625920" and bo: "band_of n = (6, 249, 1134141915264)"
    let ?x = "n - 1134141915264"
    have x: "?x div 281474976710656 = 0" using r assms by auto
    have x2: "?x div 256 ^ 6 = 0" using x by simp
    have d: "le_dec [word_of_nat (?x mod 256), word_of_nat (?x div 256 mod 256), word_of_nat (?x div 65536 mod 256), word_of_nat (?x div 16777216 mod 256), word_of_nat (?x div 4294967296 mod 256), word_of_nat (?x div 1099511627776 mod 256), 0, 0] = ?x"
      using le_dec_tail [OF x2, of "[0, 0]"] by (simp add: div_mult2_eq [symmetric] del: le_dec.simps)
    let ?c = "word_of_nat (249 + ?x div 281474976710656) :: byte"
    have e: "cint n = ?c # word_of_nat (?x div 1099511627776 mod 256) # word_of_nat (?x div 4294967296 mod 256) # word_of_nat (?x div 16777216 mod 256) # word_of_nat (?x div 65536 mod 256) # word_of_nat (?x div 256 mod 256) # word_of_nat (?x mod 256) # []"
      using n bo by (simp add: c)
    have sz: "db_marshaled_int_size ! unat ?c = 7"
      using size_table(7) x by simp
    have wb: "word_of_nat ?x + (1134141915264 :: 64 word) = word_of_nat n"
      using word_back [of 1134141915264 n, where 'a = 64] r assms(1) by simp
    show ?thesis unfolding e append.simps decompress_shape(6) [OF sz] d wb by simp
  next
    assume r: "282609118625920 \<le> n" "n < 72340203156553856" and bo: "band_of n = (7, 250, 282609118625920)"
    let ?x = "n - 282609118625920"
    have x: "?x div 72057594037927936 = 0" using r assms by auto
    have x2: "?x div 256 ^ 7 = 0" using x by simp
    have d: "le_dec [word_of_nat (?x mod 256), word_of_nat (?x div 256 mod 256), word_of_nat (?x div 65536 mod 256), word_of_nat (?x div 16777216 mod 256), word_of_nat (?x div 4294967296 mod 256), word_of_nat (?x div 1099511627776 mod 256), word_of_nat (?x div 281474976710656 mod 256), 0] = ?x"
      using le_dec_tail [OF x2, of "[0]"] by (simp add: div_mult2_eq [symmetric] del: le_dec.simps)
    let ?c = "word_of_nat (250 + ?x div 72057594037927936) :: byte"
    have e: "cint n = ?c # word_of_nat (?x div 281474976710656 mod 256) # word_of_nat (?x div 1099511627776 mod 256) # word_of_nat (?x div 4294967296 mod 256) # word_of_nat (?x div 16777216 mod 256) # word_of_nat (?x div 65536 mod 256) # word_of_nat (?x div 256 mod 256) # word_of_nat (?x mod 256) # []"
      using n bo by (simp add: c)
    have sz: "db_marshaled_int_size ! unat ?c = 8"
      using size_table(8) x by simp
    have wb: "word_of_nat ?x + (282609118625920 :: 64 word) = word_of_nat n"
      using word_back [of 282609118625920 n, where 'a = 64] r assms(1) by simp
    show ?thesis unfolding e append.simps decompress_shape(7) [OF sz] d wb by simp
  next
    assume r: "72340203156553856 \<le> n" and bo: "band_of n = (8, 251, 72340203156553856)"
    let ?x = "n - 72340203156553856"
    have x: "?x div 18446744073709551616 = 0" using r assms by auto
    have x2: "?x div 256 ^ 8 = 0" using x by simp
    have d: "le_dec [word_of_nat (?x mod 256), word_of_nat (?x div 256 mod 256), word_of_nat (?x div 65536 mod 256), word_of_nat (?x div 16777216 mod 256), word_of_nat (?x div 4294967296 mod 256), word_of_nat (?x div 1099511627776 mod 256), word_of_nat (?x div 281474976710656 mod 256), word_of_nat (?x div 72057594037927936 mod 256)] = ?x"
      using le_dec_tail [OF x2, of "[]"] by (simp add: div_mult2_eq [symmetric] del: le_dec.simps)
    let ?c = "word_of_nat (251 + ?x div 18446744073709551616) :: byte"
    have e: "cint n = ?c # word_of_nat (?x div 72057594037927936 mod 256) # word_of_nat (?x div 281474976710656 mod 256) # word_of_nat (?x div 1099511627776 mod 256) # word_of_nat (?x div 4294967296 mod 256) # word_of_nat (?x div 16777216 mod 256) # word_of_nat (?x div 65536 mod 256) # word_of_nat (?x div 256 mod 256) # word_of_nat (?x mod 256) # []"
      using n bo by (simp add: c)
    have sz: "db_marshaled_int_size ! unat ?c = 9"
      using size_table(9) x by simp
    have wb: "word_of_nat ?x + (72340203156553856 :: 64 word) = word_of_nat n"
      using word_back [of 72340203156553856 n, where 'a = 64] r assms(1) by simp
    show ?thesis unfolding e append.simps decompress_shape(8) [OF sz] d wb by simp
  qed
qed

lemma decompress_one:
  assumes "n \<le> 0x7F"
  shows "db_decompress_int be (cint n @ rest) = (word_of_nat n, 1)"
    "db_decompress_int32 be (cint n @ rest) = (word_of_nat n, 1)"
  using assms by (simp_all add: cint_def db_decompress_int_def db_decompress_int32_def
      size_table(1) unat_small Let_def unsigned_of_nat take_bit_nat_eq_self)

lemma decompress32_shape:
  "db_marshaled_int_size ! unat c = 2 \<Longrightarrow>
     db_decompress_int32 be (c # b0 # rest)
       = (word_of_nat (le_dec [b0, c AND 63, 0, 0]) + 128, 2)"
  "db_marshaled_int_size ! unat c = 3 \<Longrightarrow>
     db_decompress_int32 be (c # b1 # b0 # rest)
       = (word_of_nat (le_dec [b0, b1, c AND 31, 0]) + 16512, 3)"
  "db_marshaled_int_size ! unat c = 4 \<Longrightarrow>
     db_decompress_int32 be (c # b2 # b1 # b0 # rest)
       = (word_of_nat (le_dec [b0, b1, b2, c AND 15]) + 2113664, 4)"
  "db_marshaled_int_size ! unat c = 5 \<Longrightarrow>
     db_decompress_int32 be (c # b3 # b2 # b1 # b0 # rest)
       = (word_of_nat (le_dec [b0, b1, b2, b3]) + 270549120, 5)"
  by (simp_all add: db_decompress_int32_def mem_val_def Let_def del: le_dec.simps)

lemma decompress32_band:
  assumes "0x80 \<le> n" "n < 2 ^ 32"
  shows "db_decompress_int32 be (cint n @ rest) = (word_of_nat n, length (cint n))"
proof -
  have n: "\<not> n \<le> 0x7F" and lim: "n < 2 ^ 64" using assms by simp_all
  note c = cint_def band_bytes_def unat_small div_mult2_eq [symmetric]
  show ?thesis
  proof (rule band_of_cases [OF assms(1) lim])
    assume r: "n < 16512" and bo: "band_of n = (1, 128, 128)"
    let ?x = "n - 128"
    have x: "?x div 256 < 64" using r assms by auto
    have d: "le_dec [word_of_nat (?x mod 256), word_of_nat (?x div 256), 0, 0] = ?x"
      using le_dec_band [of ?x 1 "[0, 0]"] x by (simp add: div_mult2_eq [symmetric] del: le_dec.simps)
    let ?c = "word_of_nat (128 + ?x div 256) :: byte"
    have e: "cint n = ?c # word_of_nat (?x mod 256) # []"
      using n bo by (simp add: c)
    have sz: "db_marshaled_int_size ! unat ?c = 2" and hd: "?c AND 63 = word_of_nat (?x div 256)"
      using size_table(2) [OF x] and_heads(1) [OF x] x unat_small [of "128 + ?x div 256"] by (simp_all del: of_nat_add)
    have wb: "word_of_nat ?x + (128 :: 32 word) = word_of_nat n"
      using word_back [of 128 n, where 'a = 32] r assms(1) by simp
    show ?thesis unfolding e append.simps decompress32_shape(1) [OF sz] hd d wb by simp
  next
    assume r: "16512 \<le> n" "n < 2113664" and bo: "band_of n = (2, 192, 16512)"
    let ?x = "n - 16512"
    have x: "?x div 65536 < 32" using r assms by auto
    have d: "le_dec [word_of_nat (?x mod 256), word_of_nat (?x div 256 mod 256), word_of_nat (?x div 65536), 0] = ?x"
      using le_dec_band [of ?x 2 "[0]"] x by (simp add: div_mult2_eq [symmetric] del: le_dec.simps)
    let ?c = "word_of_nat (192 + ?x div 65536) :: byte"
    have e: "cint n = ?c # word_of_nat (?x div 256 mod 256) # word_of_nat (?x mod 256) # []"
      using n bo by (simp add: c)
    have sz: "db_marshaled_int_size ! unat ?c = 3" and hd: "?c AND 31 = word_of_nat (?x div 65536)"
      using size_table(3) [OF x] and_heads(2) [OF x] x unat_small [of "192 + ?x div 65536"] by (simp_all del: of_nat_add)
    have wb: "word_of_nat ?x + (16512 :: 32 word) = word_of_nat n"
      using word_back [of 16512 n, where 'a = 32] r assms(1) by simp
    show ?thesis unfolding e append.simps decompress32_shape(2) [OF sz] hd d wb by simp
  next
    assume r: "2113664 \<le> n" "n < 270549120" and bo: "band_of n = (3, 224, 2113664)"
    let ?x = "n - 2113664"
    have x: "?x div 16777216 < 16" using r assms by auto
    have d: "le_dec [word_of_nat (?x mod 256), word_of_nat (?x div 256 mod 256), word_of_nat (?x div 65536 mod 256), word_of_nat (?x div 16777216)] = ?x"
      using le_dec_band [of ?x 3 "[]"] x by (simp add: div_mult2_eq [symmetric] del: le_dec.simps)
    let ?c = "word_of_nat (224 + ?x div 16777216) :: byte"
    have e: "cint n = ?c # word_of_nat (?x div 65536 mod 256) # word_of_nat (?x div 256 mod 256) # word_of_nat (?x mod 256) # []"
      using n bo by (simp add: c)
    have sz: "db_marshaled_int_size ! unat ?c = 4" and hd: "?c AND 15 = word_of_nat (?x div 16777216)"
      using size_table(4) [OF x] and_heads(3) [OF x] x unat_small [of "224 + ?x div 16777216"] by (simp_all del: of_nat_add)
    have wb: "word_of_nat ?x + (2113664 :: 32 word) = word_of_nat n"
      using word_back [of 2113664 n, where 'a = 32] r assms(1) by simp
    show ?thesis unfolding e append.simps decompress32_shape(3) [OF sz] hd d wb by simp
  next
    assume r: "270549120 \<le> n" "n < 34630287488" and bo: "band_of n = (4, 240, 270549120)"
    let ?x = "n - 270549120"
    have x: "?x div 4294967296 = 0" using r assms by auto
    have x2: "?x div 256 ^ 4 = 0" using x by simp
    have d: "le_dec [word_of_nat (?x mod 256), word_of_nat (?x div 256 mod 256), word_of_nat (?x div 65536 mod 256), word_of_nat (?x div 16777216 mod 256)] = ?x"
      using le_dec_tail [OF x2, of "[]"] by (simp add: div_mult2_eq [symmetric] del: le_dec.simps)
    let ?c = "word_of_nat (240 + ?x div 4294967296) :: byte"
    have e: "cint n = ?c # word_of_nat (?x div 16777216 mod 256) # word_of_nat (?x div 65536 mod 256) # word_of_nat (?x div 256 mod 256) # word_of_nat (?x mod 256) # []"
      using n bo by (simp add: c)
    have sz: "db_marshaled_int_size ! unat ?c = 5"
      using size_table(5) [of 0] x unat_small [of "240"] by simp
    have wb: "word_of_nat ?x + (270549120 :: 32 word) = word_of_nat n"
      using word_back [of 270549120 n, where 'a = 32] r assms(1) by simp
    show ?thesis unfolding e append.simps decompress32_shape(4) [OF sz] d wb by simp
  next
    assume r: "34630287488 \<le> n" "n < 1134141915264" and bo: "band_of n = (5, 248, 34630287488)"
    then show ?thesis using assms(2) by simp
  next
    assume r: "1134141915264 \<le> n" "n < 282609118625920" and bo: "band_of n = (6, 249, 1134141915264)"
    then show ?thesis using assms(2) by simp
  next
    assume r: "282609118625920 \<le> n" "n < 72340203156553856" and bo: "band_of n = (7, 250, 282609118625920)"
    then show ?thesis using assms(2) by simp
  next
    assume r: "72340203156553856 \<le> n" and bo: "band_of n = (8, 251, 72340203156553856)"
    then show ?thesis using assms(2) by simp
  qed
qed

lemma cint_decompress:
  assumes "n < 2 ^ 64"
  shows "db_decompress_int be (cint n @ rest) = (word_of_nat n, length (cint n))"
proof (cases "n \<le> 0x7F")
  case True
  then show ?thesis using decompress_one(1) [OF True, of be rest] by (simp add: cint_def)
next
  case False
  then show ?thesis using decompress_band [OF _ assms, of be rest] by simp
qed

lemma cint_decompress32:
  assumes "n < 2 ^ 32"
  shows "db_decompress_int32 be (cint n @ rest) = (word_of_nat n, length (cint n))"
proof (cases "n \<le> 0x7F")
  case True
  then show ?thesis using decompress_one(2) [OF True, of be rest] by (simp add: cint_def)
next
  case False
  then show ?thesis using decompress32_band [OF _ assms, of be rest] by simp
qed

section \<open>The order of encodings\<close>

text \<open>Byte strings in the order of \<open>memcmp\<close> with shorter prefixes first.\<close>

definition bytes_less :: "byte list \<Rightarrow> byte list \<Rightarrow> bool" where
  "bytes_less a b \<longleftrightarrow> (a, b) \<in> lexord {(x, y). x < y}"

lemma bytes_less_value:
  assumes "length a = length b" "le_dec (rev a) < le_dec (rev b)"
  shows "bytes_less a b"
  using assms
proof (induction a b rule: list_induct2)
  case (Cons x xs y ys)
  have bound: "le_dec (rev xs) < 256 ^ length xs" "le_dec (rev ys) < 256 ^ length xs"
    using le_dec_bound [of "rev xs"] le_dec_bound [of "rev ys"] Cons.hyps by simp_all
  have v: "le_dec (rev xs) + 256 ^ length xs * unat x < le_dec (rev ys) + 256 ^ length xs * unat y"
    using Cons.prems Cons.hyps by (simp add: le_dec_append)
  consider "x < y" | "x = y" | "y < x" by fastforce
  then show ?case
  proof cases
    case 1
    then show ?thesis by (simp add: bytes_less_def)
  next
    case 2
    then show ?thesis using v Cons.IH by (simp add: bytes_less_def)
  next
    case 3
    then have "Suc (unat y) \<le> unat x" by (simp add: word_less_nat_alt)
    then have "256 ^ length xs * Suc (unat y) \<le> 256 ^ length xs * unat x" by (rule mult_le_mono2)
    then show ?thesis using v bound by simp
  qed
qed simp

lemma bytes_less_head:
  assumes "a \<noteq> []" "b \<noteq> []" "unat (a ! 0) < unat (b ! 0)"
  shows "bytes_less a b"
  using assms by (cases a; cases b) (auto simp: bytes_less_def word_less_nat_alt)

definition band_no :: "nat \<Rightarrow> nat" where
  "band_no n = length (filter (\<lambda>(k, v, b). b \<le> n) bands)"

definition first_byte :: "nat \<Rightarrow> nat" where
  "first_byte k = [0, 0x80, 0xC0, 0xE0, 0xF0, 0xF8, 0xF9, 0xFA, 0xFB, 0xFC] ! k"

lemma band_no_mono: "n \<le> m \<Longrightarrow> band_no n \<le> band_no m"
proof -
  assume "n \<le> m"
  then have "length (filter (\<lambda>(k, v, b). b \<le> n) xs) \<le> length (filter (\<lambda>(k, v, b). b \<le> m) xs)"
    for xs :: "(nat \<times> nat \<times> nat) list"
    by (induction xs) auto
  then show ?thesis by (simp add: band_no_def)
qed

lemma first_byte_mono:
  assumes "k < l" "l \<le> 9"
  shows "first_byte k < first_byte l"
proof -
  have "list_all (\<lambda>l. list_all (\<lambda>k. first_byte k < first_byte l) [0..<l]) [0..<10]" by code_simp
  then show ?thesis using assms by (simp add: list_all_iff)
qed

text \<open>Value and first byte of an encoding.\<close>

lemma band_value:
  assumes "v + (n - b) div 256 ^ k < 256"
  shows "le_dec (rev (band_bytes (k, v, b) n)) = v * 256 ^ k + (n - b)"
    "unat (band_bytes (k, v, b) n ! 0) = v + (n - b) div 256 ^ k" "length (band_bytes (k, v, b) n) = Suc k"
proof -
  have "(n - b) mod 256 ^ k + 256 ^ k * (v + (n - b) div 256 ^ k) = v * 256 ^ k + (n - b)"
    by (simp add: distrib_left mult.commute)
  then show "le_dec (rev (band_bytes (k, v, b) n)) = v * 256 ^ k + (n - b)"
    using assms by (simp add: band_bytes_def le_dec_append unat_small del: of_nat_add)
qed (use assms in \<open>simp_all add: band_bytes_def unat_small del: of_nat_add\<close>)

lemma filter_eq_of_length:
  assumes "\<And>x. P x \<Longrightarrow> Q x" "length (filter P xs) = length (filter Q xs)"
  shows "filter P xs = filter Q xs"
proof -
  have le: "length (filter P ys) \<le> length (filter Q ys)" for ys
    using assms(1) by (induction ys) auto
  show ?thesis using assms(2)
  proof (induction xs)
    case (Cons x xs)
    then show ?case using assms(1) [of x] le [of xs] by (auto split: if_splits)
  qed simp
qed

lemma band_of_eq: "n \<le> m \<Longrightarrow> band_no n = band_no m \<Longrightarrow> band_of n = band_of m"
  using filter_eq_of_length [of "\<lambda>(k, v, b). b \<le> n" "\<lambda>(k, v, b). b \<le> m" bands]
  by (auto simp: band_no_def band_of_def)

lemma band_facts:
  assumes "0x80 \<le> n" "n < 2 ^ 64"
  obtains k b where "band_of n = (k, first_byte k, b)" "band_no n = k" "b \<le> n" "1 \<le> k" "k \<le> 8"
    "first_byte k + (n - b) div 256 ^ k < first_byte (Suc k)" "first_byte (Suc k) \<le> 256"
proof (rule band_of_cases [OF assms])
  assume r: "n < 16512" and bo: "band_of n = (1, 128, 128)"
  have f: "first_byte 1 = 128" "first_byte (Suc 1) = 192" by (simp_all add: first_byte_def)
  have "(n - 128) div 256 < 64" using r assms by auto
  then show thesis using that [of 1 128] f bo r assms by (simp add: band_no_def bands_def)
next
  assume r: "16512 \<le> n" "n < 2113664" and bo: "band_of n = (2, 192, 16512)"
  have f: "first_byte 2 = 192" "first_byte (Suc 2) = 224" by (simp_all add: first_byte_def)
  have "(n - 16512) div 65536 < 32" using r assms by auto
  then show thesis using that [of 2 16512] f bo r assms by (simp add: band_no_def bands_def)
next
  assume r: "2113664 \<le> n" "n < 270549120" and bo: "band_of n = (3, 224, 2113664)"
  have f: "first_byte 3 = 224" "first_byte (Suc 3) = 240" by (simp_all add: first_byte_def)
  have "(n - 2113664) div 16777216 < 16" using r assms by auto
  then show thesis using that [of 3 2113664] f bo r assms by (simp add: band_no_def bands_def)
next
  assume r: "270549120 \<le> n" "n < 34630287488" and bo: "band_of n = (4, 240, 270549120)"
  have f: "first_byte 4 = 240" "first_byte (Suc 4) = 248" by (simp_all add: first_byte_def)
  have "(n - 270549120) div 4294967296 < 8" using r assms by auto
  then show thesis using that [of 4 270549120] f bo r assms by (simp add: band_no_def bands_def)
next
  assume r: "34630287488 \<le> n" "n < 1134141915264" and bo: "band_of n = (5, 248, 34630287488)"
  have f: "first_byte 5 = 248" "first_byte (Suc 5) = 249" by (simp_all add: first_byte_def)
  have "(n - 34630287488) div 1099511627776 < 1" using r assms by auto
  then show thesis using that [of 5 34630287488] f bo r assms by (simp add: band_no_def bands_def)
next
  assume r: "1134141915264 \<le> n" "n < 282609118625920" and bo: "band_of n = (6, 249, 1134141915264)"
  have f: "first_byte 6 = 249" "first_byte (Suc 6) = 250" by (simp_all add: first_byte_def)
  have "(n - 1134141915264) div 281474976710656 < 1" using r assms by auto
  then show thesis using that [of 6 1134141915264] f bo r assms by (simp add: band_no_def bands_def)
next
  assume r: "282609118625920 \<le> n" "n < 72340203156553856" and bo: "band_of n = (7, 250, 282609118625920)"
  have f: "first_byte 7 = 250" "first_byte (Suc 7) = 251" by (simp_all add: first_byte_def)
  have "(n - 282609118625920) div 72057594037927936 < 1" using r assms by auto
  then show thesis using that [of 7 282609118625920] f bo r assms by (simp add: band_no_def bands_def)
next
  assume r: "72340203156553856 \<le> n" and bo: "band_of n = (8, 251, 72340203156553856)"
  have f: "first_byte 8 = 251" "first_byte (Suc 8) = 252" by (simp_all add: first_byte_def)
  have "(n - 72340203156553856) div 18446744073709551616 < 1" using r assms by auto
  then show thesis using that [of 8 72340203156553856] f bo r assms by (simp add: band_no_def bands_def)
qed

lemma cint_order:
  assumes "n < m" "m < 2 ^ 64"
  shows "bytes_less (cint n) (cint m)"
proof (cases "m \<le> 0x7F")
  case True
  then show ?thesis using assms(1) by (intro bytes_less_head) (simp_all add: cint_def unat_small)
next
  case False
  then have m: "0x80 \<le> m" by simp
  obtain l c where l: "band_of m = (l, first_byte l, c)" "band_no m = l" "c \<le> m" "1 \<le> l" "l \<le> 8"
    "first_byte l + (m - c) div 256 ^ l < first_byte (Suc l)" "first_byte (Suc l) \<le> 256"
    by (rule band_facts [OF m assms(2)])
  have cm: "cint m = band_bytes (l, first_byte l, c) m" using False l(1) by (simp add: cint_def)
  have lm: "first_byte l + (m - c) div 256 ^ l < 256" using l(6,7) by simp
  show ?thesis
  proof (cases "n \<le> 0x7F")
    case True
    have "first_byte 1 \<le> first_byte l" using first_byte_mono [of 1 l] l(4,5) by (cases "l = 1") auto
    moreover have "first_byte 1 = 0x80" by (simp add: first_byte_def)
    moreover have cn: "cint n = [word_of_nat n]" using True by (simp add: cint_def)
    ultimately have "unat (cint n ! 0) < unat (cint m ! 0)"
      using True band_value(2) [OF lm] by (simp add: cm cn unat_small)
    then show ?thesis by (intro bytes_less_head) (simp_all add: cn cm band_bytes_def)
  next
    case n: False
    have n2: "0x80 \<le> n" "n < 2 ^ 64" using n assms by simp_all
    obtain k b where k: "band_of n = (k, first_byte k, b)" "band_no n = k" "b \<le> n" "1 \<le> k" "k \<le> 8"
      "first_byte k + (n - b) div 256 ^ k < first_byte (Suc k)" "first_byte (Suc k) \<le> 256"
      by (rule band_facts [OF n2])
    have cn: "cint n = band_bytes (k, first_byte k, b) n" using n k(1) by (simp add: cint_def)
    have ln: "first_byte k + (n - b) div 256 ^ k < 256" using k(6,7) by simp
    have "k \<le> l" using band_no_mono [of n m] assms(1) k(2) l(2) by simp
    then consider "k = l" | "k < l" by linarith
    then show ?thesis
    proof cases
      case 1
      then have "band_of n = band_of m" using band_of_eq [of n m] assms(1) k(2) l(2) by simp
      then have "b = c" using k(1) l(1) by simp
      moreover have "n - b < m - b" using k(3) assms(1) by simp
      ultimately show ?thesis unfolding cn cm
        using 1 band_value(1,3) [OF ln] band_value(1,3) [OF lm] by (intro bytes_less_value) simp_all
    next
      case 2
      then have "first_byte (Suc k) \<le> first_byte l"
        using first_byte_mono [of "Suc k" l] l(5) by (cases "Suc k = l") auto
      then have "unat (cint n ! 0) < unat (cint m ! 0)"
        using k(6) band_value(2) [OF ln] band_value(2) [OF lm] by (simp add: cm cn)
      then show ?thesis by (intro bytes_less_head) (simp_all add: cn cm band_bytes_def)
    qed
  qed
qed

section \<open>Properties\<close>

text \<open>C35: an integer compressed on a machine of either byte order and decompressed on a machine of
  either byte order, with anything after it in the buffer, is the same integer; the number of
  bytes read is the number written, which the counting function and the length table predict.\<close>

theorem compressed_int_round_trip:
  "db_decompress_int be2 (db_compress_int be1 i @ rest) = (i, db_compress_count_int i)
    \<and> length (db_compress_int be1 i) = db_compress_count_int i
    \<and> db_decompress_count_int (db_compress_int be1 i @ rest) = db_compress_count_int i"
proof -
  have "unat i < 2 ^ LENGTH(64)" by (rule unsigned_less)
  then have b: "unat i < 2 ^ 64" by simp
  show ?thesis using cint_decompress [OF b, of be2 rest] length_cint(1) [OF b] length_cint(2) [OF b, of rest]
    by (simp add: compress_cint)
qed

text \<open>The 32-bit decompression reads back every compressed integer that fits in 32 bits.\<close>

theorem compressed_int32_round_trip:
  assumes "i < 2 ^ 32"
  shows "db_decompress_int32 be2 (db_compress_int be1 i @ rest) = (ucast i, db_compress_count_int i)"
proof -
  have b: "unat i < 2 ^ 32" using assms by (simp add: word_less_nat_alt)
  then have "length (cint (unat i)) = db_compress_count_int i" using length_cint(1) [of "unat i"] by simp
  then show ?thesis using cint_decompress32 [OF b, of be2 rest]
    by (simp add: compress_cint of_nat_unat)
qed

lemma compressed_int32_round_trip_witness:
  "db_decompress_int32 True (db_compress_int False 70000 @ [1, 2]) = (70000, 3)"
  using compressed_int32_round_trip [of 70000 True False "[1, 2]"]
  by (simp add: db_compress_count_int_def)

text \<open>Compression keeps the order: of two integers the smaller has the encoding that is
  smaller as a byte string, so compressed integers can be compared with \<open>memcmp\<close>.\<close>

theorem compressed_int_order:
  "bytes_less (db_compress_int be1 i) (db_compress_int be2 j) \<longleftrightarrow> i < j"
proof -
  have "unat j < 2 ^ LENGTH(64)" "unat i < 2 ^ LENGTH(64)" by (rule unsigned_less)+
  then have b: "unat j < 2 ^ 64" "unat i < 2 ^ 64" by simp_all
  have asym: "\<not> bytes_less x x" "bytes_less x y \<Longrightarrow> \<not> bytes_less y x" for x y
    using lexord_irreflexive [of "{(x, y). x < y}" x] lexord_asymmetric [of "{(x :: byte, y). x < y}" x y]
      asymI [of "{(x :: byte, y). x < y}"] by (auto simp: bytes_less_def)
  show ?thesis using cint_order [OF _ b(1), of "unat i"] cint_order [OF _ b(2), of "unat j"] asym
    by (metis compress_cint linorder_neqE_nat word_less_nat_alt)
qed

end
