(* ===== verification/Clib_Sort.thy ===== *)
theory Clib_Sort
  imports Prelude "HOL-Library.Multiset"
begin

text \<open>
  Sorting and searching, \<open>src/db/src/clib/qsort.c\<close> and \<open>bsearch.c\<close>.  An array is the list of its
  elements; the byte-wise exchange of two elements is \<open>swap\<close>.  The two right-hand pointers
  \<open>pc\<close> and \<open>pd\<close> of the partition are kept one past their C value (\<open>pe\<close> and \<open>pf\<close>), because
  \<open>pc\<close> may step below the first unpartitioned element.  The locale \<open>preorder_cmp\<close> is what a
  caller promises of its comparison; under it the sort is a sort.
\<close>

section \<open>The code\<close>

type_synonym 'a cmp = "'a \<Rightarrow> 'a \<Rightarrow> int"

definition swap :: "'a list \<Rightarrow> nat \<Rightarrow> nat \<Rightarrow> 'a list" where
  "swap a pi pj = (let t = a ! pi; b = a[pi := a ! pj] in b[pj := t])"

definition vecswap :: "'a list \<Rightarrow> nat \<Rightarrow> nat \<Rightarrow> nat \<Rightarrow> 'a list" where
  "vecswap xs i j r = foldl (\<lambda>ys k. swap ys (i + k) (j + k)) xs [0..<r]"

definition med3 :: "'a cmp \<Rightarrow> 'a list \<Rightarrow> nat \<Rightarrow> nat \<Rightarrow> nat \<Rightarrow> nat" where
  "med3 cmp xs a b c =
     (if cmp (xs ! a) (xs ! b) < 0
      then (if cmp (xs ! b) (xs ! c) < 0 then b else if cmp (xs ! a) (xs ! c) < 0 then c else a)
      else (if cmp (xs ! b) (xs ! c) > 0 then b else if cmp (xs ! a) (xs ! c) < 0 then a else c))"

fun sink :: "'a cmp \<Rightarrow> 'a list \<Rightarrow> nat \<Rightarrow> 'a list" where
  "sink cmp xs 0 = xs"
| "sink cmp xs (Suc k) =
     (if cmp (xs ! k) (xs ! Suc k) > 0 then sink cmp (swap xs (Suc k) k) k else xs)"

definition insertion :: "'a cmp \<Rightarrow> 'a list \<Rightarrow> 'a list" where
  "insertion cmp xs = foldl (sink cmp) xs [1..<length xs]"

definition pivot :: "'a cmp \<Rightarrow> 'a list \<Rightarrow> nat" where
  "pivot cmp xs =
     (let n = length xs; pm = n div 2 in
      if n > 7 then
        (if n > 40 then
           (let d = n div 8
            in med3 cmp xs (med3 cmp xs 0 d (2 * d)) (med3 cmp xs (pm - d) pm (pm + d))
                 (med3 cmp xs (n - 1 - 2 * d) (n - 1 - d) (n - 1)))
         else med3 cmp xs 0 pm (n - 1))
      else pm)"

function up_loop :: "'a cmp \<Rightarrow> 'a list \<Rightarrow> nat \<Rightarrow> nat \<Rightarrow> nat \<Rightarrow> bool \<Rightarrow> 'a list \<times> nat \<times> nat \<times> bool" where
  "up_loop cmp xs pa pb pe sw =
     (if pb < pe \<and> cmp (xs ! pb) (xs ! 0) \<le> 0 then
        (if cmp (xs ! pb) (xs ! 0) = 0 then up_loop cmp (swap xs pa pb) (pa + 1) (pb + 1) pe True
         else up_loop cmp xs pa (pb + 1) pe sw)
      else (xs, pa, pb, sw))"
  by pat_completeness auto
termination by (relation "measure (\<lambda>(cmp, xs, pa, pb, pe, sw). pe - pb)") auto

function down_loop :: "'a cmp \<Rightarrow> 'a list \<Rightarrow> nat \<Rightarrow> nat \<Rightarrow> nat \<Rightarrow> bool \<Rightarrow> 'a list \<times> nat \<times> nat \<times> bool" where
  "down_loop cmp xs pb pe pf sw =
     (if pb < pe \<and> cmp (xs ! (pe - 1)) (xs ! 0) \<ge> 0 then
        (if cmp (xs ! (pe - 1)) (xs ! 0) = 0
         then down_loop cmp (swap xs (pe - 1) (pf - 1)) pb (pe - 1) (pf - 1) True
         else down_loop cmp xs pb (pe - 1) pf sw)
      else (xs, pe, pf, sw))"
  by pat_completeness auto
termination by (relation "measure (\<lambda>(cmp, xs, pb, pe, pf, sw). pe - pb)") auto

declare up_loop.simps [simp del] down_loop.simps [simp del]

lemma up_loop_ge: "up_loop cmp xs pa pb pe sw = (xs', pa', pb', sw') \<Longrightarrow> pb \<le> pb'"
proof (induction cmp xs pa pb pe sw rule: up_loop.induct)
  case (1 cmp xs pa pb pe sw)
  then show ?case by (subst (asm) (3) up_loop.simps) (fastforce split: if_splits)
qed

lemma down_loop_le: "down_loop cmp xs pb pe pf sw = (xs', pe', pf', sw') \<Longrightarrow> pe' \<le> pe"
proof (induction cmp xs pb pe pf sw rule: down_loop.induct)
  case (1 cmp xs pb pe pf sw)
  then show ?case by (subst (asm) (3) down_loop.simps) (fastforce split: if_splits)
qed

function part_loop :: "'a cmp \<Rightarrow> 'a list \<Rightarrow> nat \<Rightarrow> nat \<Rightarrow> nat \<Rightarrow> nat \<Rightarrow> bool
    \<Rightarrow> 'a list \<times> nat \<times> nat \<times> nat \<times> nat \<times> bool" where
  "part_loop cmp xs pa pb pe pf sw =
     (case up_loop cmp xs pa pb pe sw of
        (xs1, pa1, pb1, sw1) \<Rightarrow>
          (case down_loop cmp xs1 pb1 pe pf sw1 of
             (xs2, pe2, pf2, sw2) \<Rightarrow>
               if pe2 \<le> pb1 then (xs2, pa1, pb1, pe2, pf2, sw2)
               else part_loop cmp (swap xs2 pb1 (pe2 - 1)) pa1 (pb1 + 1) (pe2 - 1) pf2 True))"
  by pat_completeness auto
termination
  by (relation "measure (\<lambda>(cmp, xs, pa, pb, pe, pf, sw). pe - pb)")
    (auto dest!: up_loop_ge [OF sym] down_loop_le [OF sym])

declare part_loop.simps [simp del]

text \<open>
  One pass over an array of at least seven elements: choose the pivot, partition, and move the
  elements equal to the pivot to the middle.  The result is the array, the sizes of the two
  parts still to be sorted, and whether anything was exchanged.
\<close>

definition partition3 :: "'a cmp \<Rightarrow> 'a list \<Rightarrow> 'a list \<times> nat \<times> nat \<times> bool" where
  "partition3 cmp xs =
     (let n = length xs in
      case part_loop cmp (swap xs 0 (pivot cmp xs)) 1 1 n n False of
        (ys, pa, pb, pe, pf, sw) \<Rightarrow>
          if \<not> sw then (ys, 0, 0, False)
          else (let r1 = min pa (pb - pa);
                    ys1 = vecswap ys 0 (pb - r1) r1;
                    r2 = min (pf - pe) (n - pf);
                    ys2 = vecswap ys1 pb (n - r2) r2
                in (ys2, pb - pa, pf - pe, True)))"

text \<open>\<open>bsearch\<close> searches linearly and returns the first element that compares equal to the key.\<close>

fun bsearch :: "('k \<Rightarrow> 'a \<Rightarrow> int) \<Rightarrow> 'k \<Rightarrow> 'a list \<Rightarrow> nat \<Rightarrow> nat option" where
  "bsearch cmp key [] i = None"
| "bsearch cmp key (x # xs) i = (if cmp key x = 0 then Some i else bsearch cmp key xs (Suc i))"

section \<open>Exchanges\<close>

lemma swap_keeps_length [simp]: "length (swap a pi pj) = length a"
  unfolding swap_def Let_def by simp

lemma nth_swap:
  assumes "p < length a" and "q < length a"
  shows "swap a p q ! m = (if m = p then a ! q else if m = q then a ! p else a ! m)"
  unfolding swap_def Let_def using assms by (cases "m = q"; cases "m = p") auto

lemma swap_keeps_mset [simp]:
  assumes "p < length a" and "q < length a"
  shows "mset (swap a p q) = mset a"
  unfolding swap_def Let_def by (rule mset_swap [OF assms(2,1)])

lemma length_foldl_swap: "length (foldl (\<lambda>ys k. swap ys (f k) (g k)) xs ks) = length xs"
  by (induction ks arbitrary: xs) auto

lemma length_vecswap [simp]: "length (vecswap xs i j r) = length xs"
  by (simp add: vecswap_def length_foldl_swap)

lemma vecswap_Suc: "vecswap xs i j (Suc r) = swap (vecswap xs i j r) (i + r) (j + r)"
  by (simp add: vecswap_def)

lemma mset_vecswap:
  "i + r \<le> length xs \<Longrightarrow> j + r \<le> length xs \<Longrightarrow> mset (vecswap xs i j r) = mset xs"
  by (induction r) (simp_all add: vecswap_Suc, simp add: vecswap_def)

lemma nth_vecswap:
  assumes "i + r \<le> j" "j + r \<le> length xs"
  shows "vecswap xs i j r ! k =
    (if i \<le> k \<and> k < i + r then xs ! (k - i + j) else if j \<le> k \<and> k < j + r then xs ! (k - j + i) else xs ! k)"
  using assms
proof (induction r arbitrary: k)
  case 0
  then show ?case by (auto simp: vecswap_def)
next
  case (Suc r)
  then have IH: "vecswap xs i j r ! k = (if i \<le> k \<and> k < i + r then xs ! (k - i + j)
      else if j \<le> k \<and> k < j + r then xs ! (k - j + i) else xs ! k)" for k by simp
  have "vecswap xs i j (Suc r) ! k = (if k = i + r then vecswap xs i j r ! (j + r)
      else if k = j + r then vecswap xs i j r ! (i + r) else vecswap xs i j r ! k)"
    using Suc.prems by (simp add: vecswap_Suc nth_swap)
  then show ?case using Suc.prems by (auto simp: IH add.commute)
qed

section \<open>Every step permutes the array\<close>

lemma sink_perm: "k < length xs \<Longrightarrow> mset (sink cmp xs k) = mset xs \<and> length (sink cmp xs k) = length xs"
  by (induction cmp xs k rule: sink.induct) auto

lemma foldl_sink_perm:
  "set ks \<subseteq> {..<length xs} \<Longrightarrow> mset (foldl (sink cmp) xs ks) = mset xs \<and> length (foldl (sink cmp) xs ks) = length xs"
proof (induction ks arbitrary: xs)
  case (Cons k ks)
  then show ?case using sink_perm [of k xs cmp] by (simp add: subset_eq)
qed simp

lemma insertion_perm: "mset (insertion cmp xs) = mset xs"
  unfolding insertion_def using foldl_sink_perm [of "[1..<length xs]" xs cmp]
  by (simp add: subset_eq del: One_nat_def)

section \<open>The partition\<close>

text \<open>
  The invariant of the partition: elements equal to the pivot (which is element 0) at both ends,
  then those less and those greater, the part \<open>pb..<pe\<close> still to be looked at.
\<close>

definition part_inv :: "'a cmp \<Rightarrow> 'a list \<Rightarrow> nat \<Rightarrow> nat \<Rightarrow> nat \<Rightarrow> nat \<Rightarrow> bool" where
  "part_inv cmp xs pa pb pe pf \<longleftrightarrow> 1 \<le> pa \<and> pa \<le> pb \<and> pb \<le> pe \<and> pe \<le> pf \<and> pf \<le> length xs
     \<and> (\<forall>i. 1 \<le> i \<and> i < pa \<longrightarrow> cmp (xs ! i) (xs ! 0) = 0)
     \<and> (\<forall>i. pa \<le> i \<and> i < pb \<longrightarrow> cmp (xs ! i) (xs ! 0) < 0)
     \<and> (\<forall>i. pe \<le> i \<and> i < pf \<longrightarrow> cmp (xs ! i) (xs ! 0) > 0)
     \<and> (\<forall>i. pf \<le> i \<and> i < length xs \<longrightarrow> cmp (xs ! i) (xs ! 0) = 0)"

definition same_elems :: "'a list \<Rightarrow> 'a list \<Rightarrow> bool" where
  "same_elems xs ys \<longleftrightarrow> mset ys = mset xs \<and> length ys = length xs \<and> ys ! 0 = xs ! 0"

lemma same_elems_trans: "same_elems xs ys \<Longrightarrow> same_elems ys zs \<Longrightarrow> same_elems xs zs"
  by (simp add: same_elems_def)

lemma same_elems_swap:
  "1 \<le> i \<Longrightarrow> i < length xs \<Longrightarrow> 1 \<le> j \<Longrightarrow> j < length xs \<Longrightarrow> same_elems xs (swap xs i j)"
  by (auto simp: same_elems_def nth_swap)

lemma up_step_eq:
  assumes "part_inv cmp xs pa pb pe pf" "pb < pe" "cmp (xs ! pb) (xs ! 0) = 0"
  shows "part_inv cmp (swap xs pa pb) (pa + 1) (pb + 1) pe pf" "same_elems xs (swap xs pa pb)"
proof -
  have l: "1 \<le> pa" "pa < length xs" "pb < length xs" "pa \<le> pb" using assms(1,2) by (auto simp: part_inv_def)
  then show "same_elems xs (swap xs pa pb)" by (intro same_elems_swap) auto
  have z: "swap xs pa pb ! 0 = xs ! 0" using l by (simp add: nth_swap)
  have k: "swap xs pa pb ! i = (if i = pa then xs ! pb else if i = pb then xs ! pa else xs ! i)" for i
    using l by (simp add: nth_swap)
  show "part_inv cmp (swap xs pa pb) (pa + 1) (pb + 1) pe pf"
    using assms unfolding part_inv_def z k by (auto simp: less_Suc_eq)
qed

lemma up_step_less:
  assumes "part_inv cmp xs pa pb pe pf" "pb < pe" "cmp (xs ! pb) (xs ! 0) < 0"
  shows "part_inv cmp xs pa (pb + 1) pe pf"
  using assms by (auto simp: part_inv_def less_Suc_eq)

lemma up_loop_inv:
  assumes "up_loop cmp xs pa pb pe sw = (xs', pa', pb', sw')" "part_inv cmp xs pa pb pe pf"
  shows "part_inv cmp xs' pa' pb' pe pf \<and> same_elems xs xs' \<and> (pb' < pe \<longrightarrow> cmp (xs' ! pb') (xs' ! 0) > 0)"
  using assms
proof (induction cmp xs pa pb pe sw rule: up_loop.induct)
  case (1 cmp xs pa pb pe sw)
  show ?case
  proof (cases "pb < pe \<and> cmp (xs ! pb) (xs ! 0) \<le> 0")
    case True
    show ?thesis
    proof (cases "cmp (xs ! pb) (xs ! 0) = 0")
      case eq: True
      then show ?thesis
        using "1.IH"(1) [OF True eq] "1.prems" True up_step_eq [of cmp xs pa pb pe pf] same_elems_trans
        by (simp add: up_loop.simps [of cmp xs]) blast
    next
      case False
      then show ?thesis using "1.IH"(2) [OF True False] "1.prems" True up_step_less [of cmp xs pa pb pe pf]
        by (simp add: up_loop.simps [of cmp xs])
    qed
  next
    case False
    then have "xs' = xs" "pa' = pa" "pb' = pb" using "1.prems"(1) by (auto simp: up_loop.simps [of cmp xs])
    then show ?thesis using False "1.prems"(2) by (auto simp: same_elems_def)
  qed
qed

lemma down_step_eq:
  assumes "part_inv cmp xs pa pb pe pf" "pb < pe" "cmp (xs ! (pe - 1)) (xs ! 0) = 0"
  shows "part_inv cmp (swap xs (pe - 1) (pf - 1)) pa pb (pe - 1) (pf - 1)"
    "same_elems xs (swap xs (pe - 1) (pf - 1))" "\<And>k. k < pe - 1 \<Longrightarrow> swap xs (pe - 1) (pf - 1) ! k = xs ! k"
proof -
  have l: "1 \<le> pe - 1" "pe - 1 < length xs" "pf - 1 < length xs" "pe \<le> pf"
    using assms(1,2) by (auto simp: part_inv_def)
  then show "same_elems xs (swap xs (pe - 1) (pf - 1))" by (intro same_elems_swap) auto
  show u: "\<And>k. k < pe - 1 \<Longrightarrow> swap xs (pe - 1) (pf - 1) ! k = xs ! k" using l by (simp add: nth_swap)
  have z: "swap xs (pe - 1) (pf - 1) ! 0 = xs ! 0" using u [of 0] l by simp
  have k: "swap xs (pe - 1) (pf - 1) ! i
      = (if i = pe - 1 then xs ! (pf - 1) else if i = pf - 1 then xs ! (pe - 1) else xs ! i)" for i
    using l by (simp add: nth_swap)
  have g: "cmp (xs ! (pf - 1)) (xs ! 0) > 0" if "pe < pf"
    using assms(1) that by (auto simp: part_inv_def)
  have e: "cmp (swap xs (pe - 1) (pf - 1) ! i) (xs ! 0) = 0" if "pf - 1 \<le> i" "i < length xs" for i
    using that assms l by (cases "i = pf - 1") (auto simp: k [unfolded One_nat_def] part_inv_def)
  have gr: "cmp (swap xs (pe - 1) (pf - 1) ! i) (xs ! 0) > 0" if "pe - 1 \<le> i" "i < pf - 1" for i
  proof (cases "i = pe - 1")
    case True
    then have "pe < pf" using that assms(2) by auto
    then show ?thesis using True g k by simp
  next
    case False
    then have "pe \<le> i" "i < pf" using that by auto
    then show ?thesis using False that assms(1) k by (auto simp: part_inv_def)
  qed
  show "part_inv cmp (swap xs (pe - 1) (pf - 1)) pa pb (pe - 1) (pf - 1)"
    using assms(1,2) l e gr u unfolding part_inv_def z by auto
qed

lemma down_step_greater:
  assumes "part_inv cmp xs pa pb pe pf" "pb < pe" "cmp (xs ! (pe - 1)) (xs ! 0) > 0"
  shows "part_inv cmp xs pa pb (pe - 1) pf"
proof -
  have "cmp (xs ! i) (xs ! 0) > 0" if "pe - 1 \<le> i" "i < pf" for i
    using that assms by (cases "i = pe - 1") (auto simp: part_inv_def)
  then show ?thesis using assms(1,2) by (auto simp: part_inv_def)
qed

lemma down_loop_inv:
  assumes "down_loop cmp xs pb pe pf sw = (xs', pe', pf', sw')" "part_inv cmp xs pa pb pe pf"
  shows "part_inv cmp xs' pa pb pe' pf' \<and> same_elems xs xs' \<and> (\<forall>k < pe'. xs' ! k = xs ! k)
    \<and> (pb < pe' \<longrightarrow> cmp (xs' ! (pe' - 1)) (xs' ! 0) < 0)"
  using assms
proof (induction cmp xs pb pe pf sw rule: down_loop.induct)
  case (1 cmp xs pb pe pf sw)
  show ?case
  proof (cases "pb < pe \<and> cmp (xs ! (pe - 1)) (xs ! 0) \<ge> 0")
    case True
    show ?thesis
    proof (cases "cmp (xs ! (pe - 1)) (xs ! 0) = 0")
      case eq: True
      let ?ys = "swap xs (pe - 1) (pf - 1)"
      have run: "down_loop cmp ?ys pb (pe - 1) (pf - 1) True = (xs', pe', pf', sw')"
        using "1.prems"(1) True eq by (simp add: down_loop.simps [of cmp xs])
      note st = down_step_eq [OF "1.prems"(2) _ eq]
      have r: "part_inv cmp xs' pa pb pe' pf'" "same_elems ?ys xs'" "\<forall>k < pe'. xs' ! k = ?ys ! k"
        "pb < pe' \<longrightarrow> cmp (xs' ! (pe' - 1)) (xs' ! 0) < 0"
        using "1.IH"(1) [OF True eq run st(1)] True by auto
      have "pe' \<le> pe - 1" using down_loop_le [OF run] .
      then have "\<forall>k < pe'. xs' ! k = xs ! k" using r(3) st(3) True by simp
      then show ?thesis using r st(2) True same_elems_trans by blast
    next
      case False
      then have run: "down_loop cmp xs pb (pe - 1) pf sw = (xs', pe', pf', sw')"
        using "1.prems"(1) True by (subst (asm) down_loop.simps) simp
      have "part_inv cmp xs pa pb (pe - 1) pf"
        using down_step_greater [OF "1.prems"(2)] True False by auto
      then show ?thesis using "1.IH"(2) [OF True False run] by blast
    qed
  next
    case False
    then have "xs' = xs" "pe' = pe" "pf' = pf" using "1.prems"(1) by (auto simp: down_loop.simps [of cmp xs])
    then show ?thesis using False "1.prems"(2) by (auto simp: same_elems_def)
  qed
qed

lemma part_swap:
  assumes "part_inv cmp xs pa pb pe pf" "pb + 1 < pe" "cmp (xs ! pb) (xs ! 0) > 0" "cmp (xs ! (pe - 1)) (xs ! 0) < 0"
  shows "part_inv cmp (swap xs pb (pe - 1)) pa (pb + 1) (pe - 1) pf" "same_elems xs (swap xs pb (pe - 1))"
proof -
  have l: "1 \<le> pb" "pb < length xs" "1 \<le> pe - 1" "pe - 1 < length xs"
    using assms(1,2) by (auto simp: part_inv_def)
  then show "same_elems xs (swap xs pb (pe - 1))" by (intro same_elems_swap) auto
  have "pe - 1 \<noteq> 0" "pb \<noteq> 0" using l by linarith+
  then have z: "swap xs pb (pe - 1) ! 0 = xs ! 0" using l by (simp add: nth_swap)
  have k: "swap xs pb (pe - 1) ! i
      = (if i = pb then xs ! (pe - 1) else if i = pe - 1 then xs ! pb else xs ! i)" for i
    using l by (simp add: nth_swap)
  have "cmp (swap xs pb (pe - 1) ! i) (xs ! 0) > 0" if "pe - 1 \<le> i" "i < pf" for i
    using that assms by (cases "i = pe - 1") (auto simp: k [unfolded One_nat_def] part_inv_def)
  moreover have "cmp (swap xs pb (pe - 1) ! i) (xs ! 0) < 0" if "pa \<le> i" "i < pb + 1" for i
    using that assms by (cases "i = pb") (auto simp: k [unfolded One_nat_def] part_inv_def)
  moreover have "swap xs pb (pe - 1) ! i = xs ! i" if "i < pb \<or> pf \<le> i" for i
    using that assms(1,2) by (auto simp: k [unfolded One_nat_def] part_inv_def)
  ultimately show "part_inv cmp (swap xs pb (pe - 1)) pa (pb + 1) (pe - 1) pf"
    using assms(1,2) unfolding part_inv_def z by auto
qed

lemma part_loop_inv:
  assumes "part_loop cmp xs pa pb pe pf sw = (ys, pa', pb', pe', pf', sw')" "part_inv cmp xs pa pb pe pf"
  shows "part_inv cmp ys pa' pb' pe' pf' \<and> same_elems xs ys \<and> pe' \<le> pb'"
  using assms
proof (induction cmp xs pa pb pe pf sw rule: part_loop.induct)
  case (1 cmp xs pa pb pe pf sw)
  obtain xs1 pa1 pb1 sw1 where u: "up_loop cmp xs pa pb pe sw = (xs1, pa1, pb1, sw1)"
    by (cases "up_loop cmp xs pa pb pe sw")
  note ui = up_loop_inv [OF u "1.prems"(2)]
  obtain xs2 pe2 pf2 sw2 where d: "down_loop cmp xs1 pb1 pe pf sw1 = (xs2, pe2, pf2, sw2)"
    by (cases "down_loop cmp xs1 pb1 pe pf sw1")
  note di = down_loop_inv [OF d, of pa1]
  have s2: "same_elems xs xs2" using ui di same_elems_trans by blast
  show ?case
  proof (cases "pe2 \<le> pb1")
    case True
    then show ?thesis using "1.prems" u d ui di s2 by (auto simp: part_loop.simps [of cmp xs])
  next
    case False
    then have lt: "pb1 < pe2" by simp
    then have "pb1 < pe" using down_loop_le [OF d] by simp
    moreover have "xs2 ! pb1 = xs1 ! pb1" "xs2 ! 0 = xs1 ! 0" using di ui lt by (auto simp: same_elems_def)
    ultimately have c: "cmp (xs2 ! pb1) (xs2 ! 0) > 0" "cmp (xs2 ! (pe2 - 1)) (xs2 ! 0) < 0"
      using ui di lt by auto
    then have "pb1 \<noteq> pe2 - 1" by auto
    then have lt2: "pb1 + 1 < pe2" using lt by simp
    have "part_inv cmp xs2 pa1 pb1 pe2 pf2" using ui di by blast
    note sp = part_swap [OF this lt2 c]
    have "part_loop cmp (swap xs2 pb1 (pe2 - 1)) pa1 (pb1 + 1) (pe2 - 1) pf2 True = (ys, pa', pb', pe', pf', sw')"
      using "1.prems"(1) u d False by (simp add: part_loop.simps [of cmp xs])
    from "1.IH" [OF u [symmetric] refl refl d [symmetric] refl refl False this sp(1)]
    show ?thesis using s2 sp(2) same_elems_trans by blast
  qed
qed

text \<open>After the pass: the elements below, equal to and above the pivot, in three runs.\<close>

lemma nth_two_vecswaps:
  assumes "1 \<le> pa" "pa \<le> pb" "pb \<le> pf" "pf \<le> length ys"
  defines "l \<equiv> pb - pa" and "r \<equiv> pf - pb" and "r1 \<equiv> min pa (pb - pa)" and "r2 \<equiv> min (pf - pb) (length ys - pf)"
  defines "zs \<equiv> vecswap (vecswap ys 0 (pb - r1) r1) pb (length ys - r2) r2"
  assumes less: "\<And>i. pa \<le> i \<Longrightarrow> i < pb \<Longrightarrow> P (ys ! i)"
    and eq: "\<And>i. i < pa \<Longrightarrow> Q (ys ! i)" "\<And>i. pf \<le> i \<Longrightarrow> i < length ys \<Longrightarrow> Q (ys ! i)"
    and greater: "\<And>i. pb \<le> i \<Longrightarrow> i < pf \<Longrightarrow> R (ys ! i)"
  shows "mset zs = mset ys" "length zs = length ys" "l + r < length ys"
    "\<And>k. k < l \<Longrightarrow> P (zs ! k)"
    "\<And>k. l \<le> k \<Longrightarrow> k < length ys - r \<Longrightarrow> Q (zs ! k)"
    "\<And>k. length ys - r \<le> k \<Longrightarrow> k < length ys \<Longrightarrow> R (zs ! k)"
proof -
  let ?n = "length ys"
  let ?y1 = "vecswap ys 0 (pb - r1) r1"
  have r1: "r1 \<le> pa" "r1 \<le> pb - pa" "r1 = pa \<or> r1 = pb - pa" "r1 \<le> pb - r1" "pb - r1 + r1 \<le> ?n"
    using assms(1-4) by (auto simp: r1_def)
  have r2: "r2 \<le> pf - pb" "r2 \<le> ?n - pf" "r2 = pf - pb \<or> r2 = ?n - pf" "pb + r2 \<le> ?n - r2" "?n - r2 + r2 \<le> ?n"
    using assms(1-4) by (auto simp: r2_def)
  show "length zs = ?n" by (simp add: zs_def)
  show "mset zs = mset ys" using r1 r2 assms(2-4) by (simp add: zs_def mset_vecswap)
  show "l + r < ?n" using assms(1-4) by (simp add: l_def r_def)
  have n1: "?y1 ! k = (if k < r1 then ys ! (k + (pb - r1)) else if pb - r1 \<le> k \<and> k < pb then ys ! (k - (pb - r1)) else ys ! k)" for k
    using nth_vecswap [of 0 r1 "pb - r1" ys k] r1 assms(2) by auto
  have n2: "zs ! k = (if pb \<le> k \<and> k < pb + r2 then ?y1 ! (k - pb + (?n - r2))
      else if ?n - r2 \<le> k \<and> k < ?n then ?y1 ! (k - (?n - r2) + pb) else ?y1 ! k)" for k
    using nth_vecswap [of pb r2 "?n - r2" ?y1 k] r2 by (auto simp: zs_def)
  have hi: "?y1 ! k = ys ! k" if "pb \<le> k" for k using that r1 by (simp add: n1)
  have lo: "zs ! k = ?y1 ! k" if "k < pb" for k using that r2 assms(3,4) by (simp add: n2)
  show "P (zs ! k)" if "k < l" for k
  proof -
    have "k < pb" using that by (simp add: l_def)
    moreover have "P (?y1 ! k)"
    proof (cases "k < r1")
      case True
      then show ?thesis using less [of "k + (pb - r1)"] r1 that by (simp add: n1 l_def) (linarith?)
    next
      case False
      then have "pa \<le> k" "\<not> pb - r1 \<le> k" using r1(1,3) that by (auto simp: l_def)
      then show ?thesis using less [of k] False that by (simp add: n1 l_def)
    qed
    ultimately show ?thesis using lo by simp
  qed
  show "Q (zs ! k)" if k: "l \<le> k" "k < ?n - r" for k
  proof (cases "k < pb")
    case True
    have "Q (?y1 ! k)"
    proof (cases "pb - r1 \<le> k")
      case ge: True
      then have "\<not> k < r1" using r1(4) by simp
      then show ?thesis using eq(1) [of "k - (pb - r1)"] ge True r1 by (simp add: n1) (linarith?)
    next
      case False
      then have "k < pa" "\<not> k < r1" using r1(3) k True by (auto simp: l_def)
      then show ?thesis using eq(1) [of k] False by (simp add: n1)
    qed
    then show ?thesis using lo True by simp
  next
    case False
    show ?thesis
    proof (cases "k < pb + r2")
      case True
      then show ?thesis using eq(2) [of "k - pb + (?n - r2)"] False r2 hi [of "k - pb + (?n - r2)"] assms(3,4)
        by (simp add: n2) (linarith?)
    next
      case ge: False
      then have "pf \<le> k" "\<not> ?n - r2 \<le> k" using r2 k False assms(3,4) by (auto simp: r_def)
      then show ?thesis using eq(2) [of k] hi [of k] k False ge by (simp add: n2)
    qed
  qed
  show "R (zs ! k)" if k: "?n - r \<le> k" "k < ?n" for k
  proof -
    have pk: "pb \<le> k" using k assms(3,4) by (simp add: r_def)
    show ?thesis
    proof (cases "?n - r2 \<le> k")
      case True
      then have "\<not> k < pb + r2" using r2(4) by simp
      then show ?thesis using greater [of "k - (?n - r2) + pb"] hi [of "k - (?n - r2) + pb"] True k r2 by (simp add: n2) (linarith?)
    next
      case False
      then have "k < pf" "\<not> k < pb + r2" using r2 k assms(3,4) by (auto simp: r_def)
      then show ?thesis using greater [of k] hi [OF pk] False pk k by (simp add: n2)
    qed
  qed
qed

section \<open>The sort\<close>

lemma med3_in: "med3 cmp xs a b c \<in> {a, b, c}"
  by (simp add: med3_def)

lemma pivot_less: "7 \<le> length xs \<Longrightarrow> pivot cmp xs < length xs"
proof -
  assume n: "7 \<le> length xs"
  let ?n = "length xs" and ?d = "length xs div 8" and ?m = "length xs div 2"
  have b: "2 * ?d < ?n" "?m + ?d < ?n" "?m < ?n" "xs \<noteq> []" using n by auto
  have m: "med3 cmp xs i j k < ?n" if "i < ?n" "j < ?n" "k < ?n" for i j k
    using med3_in [of cmp xs i j k] that by fastforce
  have "med3 cmp xs (med3 cmp xs 0 ?d (2 * ?d)) (med3 cmp xs (?m - ?d) ?m (?m + ?d))
      (med3 cmp xs (?n - 1 - 2 * ?d) (?n - 1 - ?d) (?n - 1)) < ?n"
    using b n by (intro m) simp_all
  moreover have "med3 cmp xs 0 ?m (?n - 1) < ?n" using b n by (intro m) simp_all
  ultimately show ?thesis using b(3) by (simp add: pivot_def Let_def)
qed

lemma partition3_runs:
  assumes "7 \<le> length xs" "partition3 cmp xs = (zs, l, r, sw)"
  obtains p where "mset zs = mset xs" "length zs = length xs" "l + r < length xs"
    "sw \<Longrightarrow> p \<in> set xs"
    "\<And>k. sw \<Longrightarrow> k < l \<Longrightarrow> cmp (zs ! k) p < 0"
    "\<And>k. sw \<Longrightarrow> l \<le> k \<Longrightarrow> k < length xs - r \<Longrightarrow> zs ! k = p \<or> cmp (zs ! k) p = 0"
    "\<And>k. sw \<Longrightarrow> length xs - r \<le> k \<Longrightarrow> k < length xs \<Longrightarrow> cmp (zs ! k) p > 0"
proof -
  let ?n = "length xs" and ?xs = "swap xs 0 (pivot cmp xs)"
  have pl: "pivot cmp xs < ?n" using pivot_less [OF assms(1)] .
  have ms: "mset ?xs = mset xs" using pl by (intro swap_keeps_mset) auto
  obtain ys pa pb pe pf sw' where pt: "part_loop cmp ?xs 1 1 ?n ?n False = (ys, pa, pb, pe, pf, sw')"
    by (cases "part_loop cmp ?xs 1 1 ?n ?n False")
  have "part_inv cmp ?xs 1 1 ?n ?n" using assms(1) by (simp add: part_inv_def)
  from part_loop_inv [OF pt this]
  have inv: "part_inv cmp ys pa pb pe pf" and se: "same_elems ?xs ys" and "pe \<le> pb" by auto
  then have eq: "pe = pb" by (auto simp: part_inv_def)
  have ly: "length ys = ?n" "mset ys = mset xs" using se ms by (auto simp: same_elems_def)
  show thesis
  proof (cases sw')
    case False
    then have "zs = ys" "l = 0" "r = 0" "\<not> sw" using assms(2) pt by (auto simp: partition3_def Let_def)
    moreover from this have "l + r < ?n" using assms(1) by (cases xs) auto
    ultimately show thesis using that [of "ys ! 0"] ly by simp
  next
    case True
    have b: "1 \<le> pa" "pa \<le> pb" "pb \<le> pf" "pf \<le> length ys" using inv eq by (auto simp: part_inv_def)
    have zs: "zs = vecswap (vecswap ys 0 (pb - min pa (pb - pa)) (min pa (pb - pa))) pb
        (length ys - min (pf - pb) (length ys - pf)) (min (pf - pb) (length ys - pf))"
      and lr: "l = pb - pa" "r = pf - pb"
      using assms(2) pt True eq ly by (auto simp: partition3_def Let_def)
    note I = inv [unfolded part_inv_def eq]
    have c1: "cmp (ys ! i) (ys ! 0) < 0" if "pa \<le> i" "i < pb" for i using I that by blast
    have c2: "ys ! i = ys ! 0 \<or> cmp (ys ! i) (ys ! 0) = 0" if "i < pa" for i
    proof (cases "i = 0")
      case False
      then have "1 \<le> i" by simp
      then show ?thesis using I that by blast
    qed simp
    have c3: "ys ! i = ys ! 0 \<or> cmp (ys ! i) (ys ! 0) = 0" if "pf \<le> i" "i < length ys" for i
      using I that by blast
    have c4: "cmp (ys ! i) (ys ! 0) > 0" if "pb \<le> i" "i < pf" for i using I that by blast
    note tv = nth_two_vecswaps [OF b, of "\<lambda>x. cmp x (ys ! 0) < 0" "\<lambda>x. x = ys ! 0 \<or> cmp x (ys ! 0) = 0"
        "\<lambda>x. cmp x (ys ! 0) > 0", OF c1 c2 c3 c4, folded zs lr, unfolded ly(1)]
    have "ys ! 0 \<in> set ys" using ly assms(1) by (intro nth_mem) auto
    then have "ys ! 0 \<in> set xs" using ly(2) by (metis set_mset_mset)
    then have px: "sw \<Longrightarrow> ys ! 0 \<in> set xs" .
    have tm: "mset zs = mset xs" using tv(1) ly(2) by simp
    show thesis by (rule that [OF tm tv(2,3) px tv(4-6)])
  qed
qed

lemma partition3_size:
  assumes "\<not> length xs < 7" "(zs, l, r, sw) = partition3 cmp xs"
  shows "length zs = length xs \<and> l + r < length xs"
proof -
  have "7 \<le> length xs" using assms(1) by simp
  then show ?thesis by (rule partition3_runs [OF _ assms(2) [symmetric]]) simp
qed

function qsort :: "'a cmp \<Rightarrow> 'a list \<Rightarrow> 'a list" where
  "qsort cmp xs =
     (if length xs < 7 then insertion cmp xs
      else case partition3 cmp xs of
        (zs, l, r, sw) \<Rightarrow>
          if \<not> sw then insertion cmp zs
          else (if 1 < l then qsort cmp (take l zs) else take l zs)
             @ take (length zs - r - l) (drop l zs)
             @ (if 1 < r then qsort cmp (drop (length zs - r) zs) else drop (length zs - r) zs))"
  by pat_completeness auto
termination
  by (relation "measure (\<lambda>(cmp, xs). length xs)") (auto dest!: partition3_size)

declare qsort.simps [simp del]

lemma mset_three: "mset (take l zs) + (mset (take (length zs - r - l) (drop l zs)) + mset (drop (length zs - r) zs)) = mset zs"
  if "l + r \<le> length zs"
proof -
  have "drop l zs = take (length zs - r - l) (drop l zs) @ drop (length zs - r) zs"
    using that append_take_drop_id [of "length zs - r - l" "drop l zs"] by simp
  then have "zs = take l zs @ take (length zs - r - l) (drop l zs) @ drop (length zs - r) zs"
    using append_take_drop_id [of l zs] by metis
  then show ?thesis by (metis mset_append)
qed

lemma mset_qsort: "mset (qsort cmp xs) = mset xs"
proof (induction cmp xs rule: qsort.induct)
  case (1 cmp xs)
  show ?case
  proof (cases "length xs < 7")
    case True
    then show ?thesis by (simp add: qsort.simps [of cmp xs] insertion_perm)
  next
    case False
    obtain zs l r sw where pt: "partition3 cmp xs = (zs, l, r, sw)" by (cases "partition3 cmp xs")
    have z: "mset zs = mset xs" "length zs = length xs" "l + r < length xs"
      using partition3_runs [OF _ pt] partition3_size [OF False pt [symmetric]] False by (metis not_less)+
    show ?thesis
    proof (cases sw)
      case True
      have "mset (if 1 < l then qsort cmp (take l zs) else take l zs) = mset (take l zs)"
        "mset (if 1 < r then qsort cmp (drop (length zs - r) zs) else drop (length zs - r) zs)
          = mset (drop (length zs - r) zs)"
        using "1.IH" [OF False pt [symmetric] refl refl] True by auto
      then show ?thesis using False pt True z mset_three [of l r zs]
        by (simp add: qsort.simps [of cmp xs])
    qed (use False pt z in \<open>simp add: qsort.simps [of cmp xs] insertion_perm\<close>)
  qed
qed

section \<open>Sorted output\<close>

text \<open>What a caller promises of its comparison: it orders the elements, with ties.\<close>

locale preorder_cmp =
  fixes cmp :: "'a \<Rightarrow> 'a \<Rightarrow> int"
  assumes flip: "cmp x y < 0 \<longleftrightarrow> cmp y x > 0"
    and trans: "cmp x y \<le> 0 \<Longrightarrow> cmp y z \<le> 0 \<Longrightarrow> cmp x z \<le> 0"
begin

lemma refl0 [simp]: "cmp x x = 0"
  using flip [of x x] by linarith

lemma le_flip: "cmp x y \<le> 0 \<longleftrightarrow> cmp y x \<ge> 0"
  using flip [of y x] by linarith

lemma eq_flip: "cmp x y = 0 \<longleftrightarrow> cmp y x = 0"
  using flip [of x y] flip [of y x] by linarith

text \<open>An element sinks into a sorted prefix: all but it are in order, and it is below what follows.\<close>

lemma sink_sorted:
  assumes "k \<le> m" "m < length xs"
    and "\<And>i j. i < j \<Longrightarrow> j \<le> m \<Longrightarrow> i \<noteq> k \<Longrightarrow> j \<noteq> k \<Longrightarrow> cmp (xs ! i) (xs ! j) \<le> 0"
    and "\<And>j. k < j \<Longrightarrow> j \<le> m \<Longrightarrow> cmp (xs ! k) (xs ! j) \<le> 0"
  shows "\<forall>i j. i < j \<and> j \<le> m \<longrightarrow> cmp (sink cmp xs k ! i) (sink cmp xs k ! j) \<le> 0"
  using assms
proof (induction k arbitrary: xs)
  case 0
  have "cmp (xs ! i) (xs ! j) \<le> 0" if "i < j" "j \<le> m" for i j
    using 0(3) [of i j] 0(4) [of j] that by (cases "i = 0") auto
  then show ?case by auto
next
  case (Suc k)
  have n: "swap xs (Suc k) k ! i = (if i = Suc k then xs ! k else if i = k then xs ! Suc k else xs ! i)" for i
    using Suc.prems(1,2) by (simp add: nth_swap)
  show ?case
  proof (cases "cmp (xs ! k) (xs ! Suc k) > 0")
    case True
    have "cmp (xs ! Suc k) (xs ! k) \<le> 0" using True flip [of "xs ! Suc k" "xs ! k"] by simp
    then have below: "cmp (swap xs (Suc k) k ! k) (swap xs (Suc k) k ! j) \<le> 0" if "k < j" "j \<le> m" for j
      using Suc.prems(4) [of j] that by (cases "j = Suc k") (simp_all add: n)
    have rest: "cmp (swap xs (Suc k) k ! i) (swap xs (Suc k) k ! j) \<le> 0"
      if "i < j" "j \<le> m" "i \<noteq> k" "j \<noteq> k" for i j
      using Suc.prems(3) [of i j] Suc.prems(3) [of k j] Suc.prems(3) [of i k] that Suc.prems(1)
      by (cases "i = Suc k"; cases "j = Suc k") (simp_all add: n)
    show ?thesis using Suc.IH [OF _ _ rest below] Suc.prems(1,2) True by simp
  next
    case False
    then have le: "cmp (xs ! k) (xs ! Suc k) \<le> 0" by simp
    have "cmp (xs ! i) (xs ! j) \<le> 0" if ij: "i < j" "j \<le> m" for i j
    proof -
      consider "i = Suc k" | "j = Suc k" "i = k" | "j = Suc k" "i < k" | "i \<noteq> Suc k" "j \<noteq> Suc k"
        using ij by linarith
      then show ?thesis
      proof cases
        case 3
        then have "cmp (xs ! i) (xs ! k) \<le> 0" using Suc.prems(3) [of i k] Suc.prems(1) by simp
        then show ?thesis using trans [OF _ le] 3 by simp
      qed (use Suc.prems(3) [of i j] Suc.prems(4) [of j] ij le in auto)
    qed
    then show ?thesis using False by simp
  qed
qed

lemma sink_above: "k < j \<Longrightarrow> k < length xs \<Longrightarrow> sink cmp xs k ! j = xs ! j"
  by (induction k arbitrary: xs) (auto simp: nth_swap)

lemma insertion_prefix:
  assumes "m < length xs"
  shows "\<forall>i j. i < j \<and> j \<le> m \<longrightarrow> cmp (foldl (sink cmp) xs [1..<Suc m] ! i) (foldl (sink cmp) xs [1..<Suc m] ! j) \<le> 0"
  using assms
proof (induction m)
  case (Suc m)
  let ?ys = "foldl (sink cmp) xs [1..<Suc m]"
  have "set [1..<Suc m] \<subseteq> {..<length xs}" using Suc.prems by auto
  then have l: "length ?ys = length xs" using foldl_sink_perm by blast
  have IH: "cmp (?ys ! i) (?ys ! j) \<le> 0" if "i < j" "j \<le> m" for i j
    using Suc that by simp
  have "foldl (sink cmp) xs [1..<Suc (Suc m)] = sink cmp ?ys (Suc m)" by simp
  moreover have "\<forall>i j. i < j \<and> j \<le> Suc m \<longrightarrow> cmp (sink cmp ?ys (Suc m) ! i) (sink cmp ?ys (Suc m) ! j) \<le> 0"
    by (rule sink_sorted) (use Suc.prems l IH in \<open>auto simp del: upt_Suc\<close>)
  ultimately show ?case by simp
qed simp

lemma insertion_sorted: "sorted_wrt (\<lambda>x y. cmp x y \<le> 0) (insertion cmp xs)"
proof (cases "length xs")
  case (Suc m)
  then show ?thesis using insertion_prefix [of m xs] insertion_perm [of cmp xs]
    by (simp add: insertion_def sorted_wrt_iff_nth_less less_Suc_eq_le flip: size_mset del: upt_Suc)
qed (simp add: insertion_def)

lemma runs_sorted:
  assumes "sorted_wrt (\<lambda>x y. cmp x y \<le> 0) a" "sorted_wrt (\<lambda>x y. cmp x y \<le> 0) c"
    and "\<And>x. x \<in> set a \<Longrightarrow> cmp x p < 0" "\<And>x. x \<in> set b \<Longrightarrow> cmp x p = 0" "\<And>x. x \<in> set c \<Longrightarrow> cmp x p > 0"
  shows "sorted_wrt (\<lambda>x y. cmp x y \<le> 0) (a @ b @ c)"
proof -
  have mid: "cmp x y \<le> 0" if "cmp x p \<le> 0" "cmp y p \<ge> 0" for x y
    using trans [of x p y] that le_flip [of p y] by simp
  have "sorted_wrt (\<lambda>x y. cmp x y \<le> 0) b"
    using assms(4) mid by (induction b) auto
  then show ?thesis using assms mid by (force simp: sorted_wrt_append)
qed

lemma qsort_sorted: "sorted_wrt (\<lambda>x y. cmp x y \<le> 0) (qsort cmp xs)"
proof (induction xs rule: length_induct)
  case (1 xs)
  show ?case
  proof (cases "length xs < 7")
    case True
    then show ?thesis by (simp add: qsort.simps [of cmp xs] insertion_sorted)
  next
    case False
    obtain zs l r sw where pt: "partition3 cmp xs = (zs, l, r, sw)" by (cases "partition3 cmp xs")
    have "7 \<le> length xs" using False by simp
    then show ?thesis
    proof (rule partition3_runs [OF _ pt])
      fix p
      assume z: "mset zs = mset xs" "length zs = length xs" "l + r < length xs" and "sw \<Longrightarrow> p \<in> set xs"
        and c: "\<And>k. sw \<Longrightarrow> k < l \<Longrightarrow> cmp (zs ! k) p < 0"
          "\<And>k. sw \<Longrightarrow> l \<le> k \<Longrightarrow> k < length xs - r \<Longrightarrow> zs ! k = p \<or> cmp (zs ! k) p = 0"
          "\<And>k. sw \<Longrightarrow> length xs - r \<le> k \<Longrightarrow> k < length xs \<Longrightarrow> cmp (zs ! k) p > 0"
      show ?thesis
      proof (cases sw)
        case True
        let ?A = "if 1 < l then qsort cmp (take l zs) else take l zs"
          and ?B = "take (length zs - r - l) (drop l zs)"
          and ?C = "if 1 < r then qsort cmp (drop (length zs - r) zs) else drop (length zs - r) zs"
        have short: "sorted_wrt (\<lambda>x y. cmp x y \<le> 0) ys" if "length ys \<le> 1" for ys
          using that by (cases ys) auto
        have sA: "sorted_wrt (\<lambda>x y. cmp x y \<le> 0) ?A" and sC: "sorted_wrt (\<lambda>x y. cmp x y \<le> 0) ?C"
          using 1 z by (auto intro: short)
        have qs: "set (qsort cmp ys) = set ys" for ys
          using mset_qsort [of cmp ys] by (metis set_mset_mset)
        moreover have "set ?A = set (take l zs)" "set ?C = set (drop (length zs - r) zs)" using qs by auto
        moreover have "\<forall>x \<in> set (take l zs). cmp x p < 0" "\<forall>x \<in> set (drop (length zs - r) zs). cmp x p > 0"
          using c(1,3) True z(2) by (auto simp: in_set_conv_nth)
        ultimately have "\<And>x. x \<in> set ?A \<Longrightarrow> cmp x p < 0" "\<And>x. x \<in> set ?C \<Longrightarrow> cmp x p > 0"
          by blast+
        moreover have "cmp x p = 0" if xb: "x \<in> set ?B" for x
        proof -
          obtain k where "k < length zs - r - l" "x = zs ! (l + k)" using xb z by (auto simp: in_set_conv_nth)
          moreover from this have "l + k < length xs - r" using z(2) by linarith
          ultimately show ?thesis using c(2) [OF True, of "l + k"] by auto
        qed
        ultimately have "sorted_wrt (\<lambda>x y. cmp x y \<le> 0) (?A @ ?B @ ?C)" by (intro runs_sorted [OF sA sC]) auto
        then show ?thesis using False pt True by (simp add: qsort.simps [of cmp xs])
      qed (use False pt in \<open>simp add: qsort.simps [of cmp xs] insertion_sorted\<close>)
    qed
  qed
qed

end

section \<open>Linear search\<close>

lemma bsearch_first:
  "bsearch cmp key xs i = (case filter (\<lambda>j. cmp key (xs ! j) = 0) [0..<length xs] of
     [] \<Rightarrow> None | j # js \<Rightarrow> Some (i + j))"
proof (induction xs arbitrary: i)
  case (Cons x xs)
  have "[Suc 0..<Suc (length xs)] = map Suc [0..<length xs]" by (rule map_Suc_upt [symmetric])
  then have "filter (\<lambda>j. cmp key ((x # xs) ! j) = 0) [Suc 0..<Suc (length xs)]
      = map Suc (filter (\<lambda>j. cmp key (xs ! j) = 0) [0..<length xs])"
    by (simp only: filter_map comp_def nth_Cons_Suc)
  then show ?case using Cons [of "Suc i"]
    by (simp add: upt_conv_Cons split: list.split del: upt_Suc)
qed simp

section \<open>Properties\<close>

text \<open>C33: whatever the comparison function returns, also an inconsistent one, \<open>qsort\<close>
  terminates and its result is a permutation of the array.\<close>

theorem qsort_permutes: "mset (qsort cmp xs) = mset xs \<and> length (qsort cmp xs) = length xs"
  using mset_qsort [of cmp xs] by (metis size_mset)

text \<open>C34: under a comparison that is antisymmetric in sign and transitive, the result of
  \<open>qsort\<close> is in order.\<close>

theorem qsort_sorts:
  assumes "\<And>x y. cmp x y < 0 \<longleftrightarrow> cmp y x > 0"
    and "\<And>x y z. cmp x y \<le> 0 \<Longrightarrow> cmp y z \<le> 0 \<Longrightarrow> cmp x z \<le> 0"
  shows "sorted_wrt (\<lambda>x y. cmp x y \<le> 0) (qsort cmp xs)"
  by (rule preorder_cmp.qsort_sorted) (unfold_locales; fact assms)

theorem qsort_sorts_witness:
  "sorted_wrt (\<lambda>x y. x - y \<le> 0) (qsort (\<lambda>x y. x - y) [5, 3, 9, 1, 7, 3, 8, 2 :: int])"
  by (rule qsort_sorts) auto

text \<open>\<open>bsearch\<close> returns the first element that compares equal to the key, in any order of
  the array, and nothing exactly when there is none.\<close>

theorem bsearch_finds_first:
  "bsearch cmp key xs 0 = (case filter (\<lambda>j. cmp key (xs ! j) = 0) [0..<length xs] of
     [] \<Rightarrow> None | j # js \<Rightarrow> Some j)"
  using bsearch_first [of cmp key xs 0] by (simp split: list.splits)

end
