(* ===== verification/Db_Ids.thy ===== *)
theory Db_Ids
  imports Clib_Sort
begin

text \<open>
  Identifier allocation: \<open>src/db/src/common/db_idspace.c\<close>, which finds the largest range of
  free identifiers, and its two callers, the locker ids of \<open>lock/lock_id.c\<close> and the transaction
  ids of \<open>txn/txn.c\<close>.  A region keeps the last id handed out and the end of the current free
  range, which may wrap around the top of the id space; \<open>free_range\<close> is that range as a set.
  The locale \<open>id_space\<close> holds the laws both callers rely on.
\<close>

section \<open>The code\<close>

definition db_idcmp :: "u32 \<Rightarrow> u32 \<Rightarrow> int" where
  "db_idcmp i j = (if i < j then -1 else if i > j then 1 else 0)"

text \<open>The scan for the largest gap between neighbours: the gap and the index of its lower end.\<close>

fun max_gap :: "u32 list \<Rightarrow> nat \<Rightarrow> u32 \<Rightarrow> nat \<Rightarrow> u32 \<times> nat" where
  "max_gap (x # y # zs) i gap low =
     (if y - x > gap then max_gap (y # zs) (Suc i) (y - x) i else max_gap (y # zs) (Suc i) gap low)"
| "max_gap _ i gap low = (gap, low)"

definition db_idspace :: "u32 list \<Rightarrow> u32 \<Rightarrow> u32 \<Rightarrow> u32 \<times> u32" where
  "db_idspace inuse minp maxp =
     (if length inuse = 1 then
        (if inuse ! 0 \<noteq> maxp then inuse ! 0 else minp, inuse ! 0 - 1)
      else
        (let ids = qsort db_idcmp inuse;
             n = length ids;
             (gap, low) = max_gap ids 0 0 0
         in if (maxp - ids ! (n - 1)) + (ids ! 0 - minp) > gap
            then (if ids ! (n - 1) \<noteq> maxp then ids ! (n - 1) else minp, ids ! 0 - 1)
            else (ids ! low, ids ! (low + 1) - 1)))"

text \<open>
  An id region: the last id, the end of the free range, the ids in use (the lockers or the active
  transactions), and how often the mutex of the region is taken.
\<close>

record id_region =
  last_id :: u32
  cur_maxid :: u32
  in_use :: "u32 list"
  mutex :: nat

definition DB_LOCK_INVALIDID :: u32 where "DB_LOCK_INVALIDID = 0"
definition DB_LOCK_MAXID :: u32 where "DB_LOCK_MAXID = 0x7fffffff"
definition TXN_MINIMUM :: u32 where "TXN_MINIMUM = 0x80000000"
definition TXN_MAXIMUM :: u32 where "TXN_MAXIMUM = 0xffffffff"
definition EINVAL_ret :: int where "EINVAL_ret = 22"

definition acquire :: "id_region \<Rightarrow> id_region" where "acquire r = r\<lparr>mutex := mutex r + 1\<rparr>"
definition release :: "id_region \<Rightarrow> id_region" where "release r = r\<lparr>mutex := mutex r - 1\<rparr>"

text \<open>\<open>mal\<close> and \<open>getl\<close> are the codes of \<open>__os_malloc\<close> and \<open>__lock_getlocker_int\<close>.\<close>

definition lock_id :: "int \<Rightarrow> int \<Rightarrow> id_region \<Rightarrow> id_region \<times> u32 \<times> int" where
  "lock_id mal getl r0 =
     (let r = acquire r0;
          r1 = (if last_id r = DB_LOCK_MAXID \<and> cur_maxid r \<noteq> DB_LOCK_MAXID
                then r\<lparr>last_id := DB_LOCK_INVALIDID\<rparr> else r)
      in if last_id r1 = cur_maxid r1 \<and> mal \<noteq> 0 then (release r1, DB_LOCK_INVALIDID, mal)
         else (let r2 = (if last_id r1 = cur_maxid r1 then
                  (let (a, b) = (if in_use r1 \<noteq> [] then db_idspace (in_use r1) DB_LOCK_INVALIDID DB_LOCK_MAXID
                                 else (DB_LOCK_INVALIDID, DB_LOCK_MAXID))
                   in r1\<lparr>last_id := a, cur_maxid := b\<rparr>)
                else r1);
                   i = last_id r2 + 1;
                   r3 = r2\<lparr>last_id := i, in_use := (if getl = 0 then i # in_use r2 else in_use r2)\<rparr>
               in (release r3, i, getl)))"

definition lock_id_free :: "id_region \<Rightarrow> u32 \<Rightarrow> id_region" where
  "lock_id_free r i = r\<lparr>in_use := remove1 i (in_use r)\<rparr>"

text \<open>\<open>lg\<close> is the code of \<open>__txn_recycle_log\<close> when logging is on.\<close>

definition txn_recycle_id :: "int \<Rightarrow> int option \<Rightarrow> bool \<Rightarrow> id_region \<Rightarrow> id_region \<times> int" where
  "txn_recycle_id mal lg locked r =
     (if mal \<noteq> 0 then (r, mal)
      else (let (a, b) = (if in_use r \<noteq> [] then db_idspace (in_use r) (TXN_MINIMUM - 1) TXN_MAXIMUM
                          else (TXN_MINIMUM - 1, TXN_MAXIMUM));
                r1 = r\<lparr>last_id := a, cur_maxid := b\<rparr>
            in case lg of
                 None \<Rightarrow> (r1, 0)
               | Some ret \<Rightarrow>
                   (let r2 = (if locked then release r1 else r1)
                    in (if locked \<and> ret \<noteq> 0 then acquire r2 else r2, ret))))"

text \<open>The id part of \<open>__txn_begin_int\<close>: \<open>al\<close> and \<open>lk\<close> are the codes of \<open>__env_alloc\<close> and of the
  allocation of a locker; \<open>txn_begin_err\<close> is the error exit once the transaction is on the list.\<close>

definition txn_next_id :: "id_region \<Rightarrow> id_region" where
  "txn_next_id r = (if last_id r = TXN_MAXIMUM \<and> cur_maxid r \<noteq> TXN_MAXIMUM
     then r\<lparr>last_id := TXN_MINIMUM - 1\<rparr> else r)"

definition txn_begin_err :: "u32 \<Rightarrow> id_region \<Rightarrow> id_region" where
  "txn_begin_err i r = (let r1 = acquire r in release (r1\<lparr>in_use := remove1 i (in_use r1)\<rparr>))"

definition txn_begin_id ::
    "bool \<Rightarrow> int \<Rightarrow> int \<Rightarrow> int option \<Rightarrow> int \<Rightarrow> id_region \<Rightarrow> id_region \<times> u32 \<times> int" where
  "txn_begin_id recovering al mal lg lk r0 =
     (let r = acquire r0 in
      if recovering then (release r, 0, EINVAL_ret)
      else (let r1 = txn_next_id r in
        if al \<noteq> 0 then (release r1, 0, al)
        else (let i = last_id r1 + 1;
                  r2 = r1\<lparr>last_id := i, in_use := i # in_use r1\<rparr>;
                  (r3, ret) = (if last_id r2 = cur_maxid r2 then txn_recycle_id mal lg True r2 else (release r2, 0))
              in if ret \<noteq> 0 then (txn_begin_err i r3, i, ret)
                 else if lk \<noteq> 0 then (txn_begin_err i r3, i, lk)
                 else (r3, i, 0))))"

section \<open>The comparison of the sort\<close>

interpretation idcmp: preorder_cmp db_idcmp
  by unfold_locales (auto simp: db_idcmp_def split: if_splits)

lemma sorted_ids: "sorted (qsort db_idcmp ids)"
proof -
  have "sorted_wrt (\<lambda>x y. db_idcmp x y \<le> 0) (qsort db_idcmp ids)" by (rule idcmp.qsort_sorted)
  then have "sorted_wrt (\<le>) (qsort db_idcmp ids)"
    by (rule sorted_wrt_mono_rel [rotated]) (auto simp: db_idcmp_def split: if_splits)
  then show ?thesis by simp
qed

lemma set_ids: "set (qsort db_idcmp ids) = set ids" "length (qsort db_idcmp ids) = length ids"
  using mset_qsort [of db_idcmp ids] by (metis set_mset_mset, metis size_mset)

lemma distinct_ids: "distinct ids \<Longrightarrow> distinct (qsort db_idcmp ids)"
  using set_ids [of ids] by (metis card_distinct distinct_card)

section \<open>Free ranges\<close>

text \<open>
  The ids that a region may hand out before it looks for a new range: after \<open>a\<close> up to \<open>b\<close>, around
  the top \<open>hi\<close> back to just above \<open>lo\<close> when \<open>b\<close> is below \<open>a\<close>.
\<close>

definition free_range :: "u32 \<Rightarrow> u32 \<Rightarrow> u32 \<Rightarrow> u32 \<Rightarrow> u32 set" where
  "free_range lo hi a b = (if a \<le> b then {a<..b} else {a<..hi} \<union> {lo<..b})"

lemma max_gap_spec:
  assumes "max_gap ids i gap low = (g, l)"
  shows "gap \<le> g \<and> (\<forall>k. Suc k < length ids \<longrightarrow> ids ! Suc k - ids ! k \<le> g)
    \<and> (g = gap \<and> l = low \<or> (\<exists>k. l = i + k \<and> Suc k < length ids \<and> g = ids ! Suc k - ids ! k \<and> gap < g))"
  using assms
proof (induction ids i gap low rule: max_gap.induct)
  case (1 x y zs i gap low)
  let ?g = "if y - x > gap then y - x else gap" and ?l = "if y - x > gap then i else low"
  have run: "max_gap (y # zs) (Suc i) ?g ?l = (g, l)" using "1.prems" by (auto split: if_splits)
  have IH: "?g \<le> g \<and> (\<forall>k. Suc k < length (y # zs) \<longrightarrow> (y # zs) ! Suc k - (y # zs) ! k \<le> g)
      \<and> (g = ?g \<and> l = ?l \<or> (\<exists>k. l = Suc i + k \<and> Suc k < length (y # zs)
          \<and> g = (y # zs) ! Suc k - (y # zs) ! k \<and> ?g < g))"
    using 1(1,2) run by (cases "y - x > gap") auto
  have all: "(x # y # zs) ! Suc k - (x # y # zs) ! k \<le> g" if "Suc k < length (x # y # zs)" for k
    using IH that by (cases k) (auto split: if_splits)
  have "g = gap \<and> l = low \<or> (\<exists>k. l = i + k \<and> Suc k < length (x # y # zs)
      \<and> g = (x # y # zs) ! Suc k - (x # y # zs) ! k \<and> gap < g)"
  proof (cases "g = ?g \<and> l = ?l")
    case True
    then show ?thesis by (cases "y - x > gap") (auto intro: exI [of _ 0])
  next
    case False
    then obtain k where "l = Suc i + k" "Suc k < length (y # zs)" "g = (y # zs) ! Suc k - (y # zs) ! k" "?g < g"
      using IH by blast
    then show ?thesis by (intro disjI2 exI [of _ "Suc k"]) (auto split: if_splits)
  qed
  moreover have "gap \<le> g" using IH by (auto split: if_splits)
  ultimately show ?case using all by blast
qed auto

lemmas word_nat = word_less_nat_alt word_le_nat_alt

lemma unat_diff: "x \<le> y \<Longrightarrow> unat (y - x :: u32) = unat y - unat x"
  by (simp add: unat_sub)

lemma unat_pred: "x < y \<Longrightarrow> unat (y - 1 :: u32) = unat y - 1"
proof -
  assume "x < y"
  then have "1 \<le> y" by (simp add: word_nat)
  then show ?thesis by (simp add: unat_sub)
qed

lemma sorted_total:
  assumes "\<And>k. Suc k < length s \<Longrightarrow> unat (s ! Suc k) - unat (s ! k) \<le> g" "m < length (s :: u32 list)"
  shows "unat (s ! m) \<le> unat (s ! 0) + m * g"
  using assms(2)
proof (induction m)
  case (Suc m)
  then have "unat (s ! Suc m) \<le> unat (s ! m) + g" using assms(1) [of m] by simp
  then show ?case using Suc by simp
qed simp

text \<open>The laws of an id space whose valid ids are those above \<open>lo\<close> up to \<open>hi\<close>.\<close>

locale id_space =
  fixes lo hi :: u32
  assumes lo_hi: "lo < hi"
begin

definition region_ok :: "id_region \<Rightarrow> bool" where
  "region_ok r \<longleftrightarrow> lo \<le> last_id r \<and> last_id r \<le> hi \<and> lo \<le> cur_maxid r \<and> cur_maxid r \<le> hi
     \<and> distinct (in_use r) \<and> set (in_use r) \<subseteq> {lo<..hi}
     \<and> set (in_use r) \<inter> free_range lo hi (last_id r) (cur_maxid r) = {}"

lemma region_ok_mutex [simp]:
  "region_ok (r\<lparr>mutex := n\<rparr>) = region_ok r" "region_ok (acquire r) = region_ok r" "region_ok (release r) = region_ok r"
  by (simp_all add: region_ok_def acquire_def release_def)

lemma idspace_one:
  assumes "lo < u" "u \<le> hi" "db_idspace [u] lo hi = (a, b)"
  shows "lo \<le> a \<and> a < hi \<and> lo \<le> b \<and> b \<le> hi \<and> u \<notin> free_range lo hi a b
    \<and> (1 < unat hi - unat lo \<longrightarrow> a \<noteq> b) \<and> (b = lo \<longrightarrow> lo + 1 = u)"
proof -
  have ab: "a = (if u \<noteq> hi then u else lo)" "b = u - 1" using assms(3) by (auto simp: db_idspace_def)
  have p: "unat (u - 1) = unat u - 1" using unat_pred [OF assms(1)] .
  have bl: "b = lo \<longrightarrow> lo + 1 = u" using ab(2) by auto
  show ?thesis
  proof (cases "u = hi")
    case True
    then show ?thesis using assms(1) p ab lo_hi bl
      by (auto simp: free_range_def word_nat word_unat_eq_iff)
  next
    case False
    then have "unat u \<noteq> unat hi" by (simp add: word_unat_eq_iff)
    then show ?thesis using False assms(1,2) p ab bl
      by (auto simp: free_range_def word_nat)
  qed
qed

lemma idspace_many:
  assumes "1 < length ids" "distinct ids" "set ids \<subseteq> {lo<..hi}" "db_idspace ids lo hi = (a, b)"
  shows "lo \<le> a \<and> a < hi \<and> lo \<le> b \<and> b \<le> hi \<and> set ids \<inter> free_range lo hi a b = {}
    \<and> (length ids < unat hi - unat lo \<longrightarrow> a \<noteq> b) \<and> (b = lo \<longrightarrow> lo + 1 \<in> set ids)"
proof -
  define s where "s = qsort db_idcmp ids"
  define n where "n = length s"
  obtain g l where mg: "max_gap s 0 0 0 = (g, l)" by (cases "max_gap s 0 0 0")
  let ?f = "s ! 0" and ?t = "s ! (n - 1)"
  let ?e = "(hi - ?t) + (?f - lo)"
  have n: "1 < n" "n = length ids" "set s = set ids" "distinct s" "sorted s"
    using assms(1,2) set_ids [of ids] distinct_ids [of ids] sorted_ids [of ids] by (auto simp: n_def s_def)
  have srt: "i < j \<Longrightarrow> j < n \<Longrightarrow> unat (s ! i) < unat (s ! j)" for i j
    using n(4,5) sorted_wrt_nth_less [of "(<)" s i j] by (auto simp: n_def strict_sorted_iff word_nat)
  have dom: "unat lo < unat (s ! i) \<and> unat (s ! i) \<le> unat hi" if "i < n" for i
    using assms(3) n(3) nth_mem [of i s] that by (auto simp: n_def word_nat)
  have ft: "unat ?f < unat ?t" "unat ?t \<le> unat hi" "unat lo < unat ?f" using srt [of 0 "n - 1"] dom [of 0] dom [of "n - 1"] n(1) by auto
  have all: "unat ?f \<le> unat x \<and> unat x \<le> unat ?t" if "x \<in> set ids" for x
  proof -
    from that have xs: "x \<in> set s" using n(3) by simp
    obtain i where i: "i < n" "x = s ! i"
      using xs unfolding in_set_conv_nth n_def by blast
    have "unat ?f \<le> unat x" using srt [of 0 i] i by (cases "i = 0") (auto simp: less_imp_le)
    moreover have "unat x \<le> unat ?t" using srt [of i "n - 1"] i by (cases "i = n - 1") (auto simp: less_imp_le)
    ultimately show ?thesis ..
  qed
  have e: "unat ?e = (unat hi - unat ?t) + (unat ?f - unat lo)"
  proof -
    have d: "unat (hi - ?t) = unat hi - unat ?t" "unat (?f - lo) = unat ?f - unat lo"
      using ft by (simp_all add: unat_diff word_nat)
    have "unat hi < 2 ^ LENGTH(32)" by (rule unsigned_less)
    then have "unat (hi - ?t) + unat (?f - lo) < 2 ^ LENGTH(32)" unfolding d using ft by linarith
    then show ?thesis using d by (simp add: unat_word_ariths)
  qed
  have gd: "unat (s ! Suc k - s ! k) = unat (s ! Suc k) - unat (s ! k)" if "Suc k < n" for k
    using srt [of k "Suc k"] that by (simp add: unat_diff word_nat)
  have gaps: "unat (s ! Suc k) - unat (s ! k) \<le> unat g" if "Suc k < n" for k
    using max_gap_spec [OF mg] gd [OF that] that by (auto simp: n_def word_nat)
  have g1: "1 \<le> unat g" using gaps [of 0] srt [of 0 1] n(1) by simp
  then have "g \<noteq> 0" by auto
  then obtain k where k: "l = k" "Suc k < n" "g = s ! Suc k - s ! k"
    using max_gap_spec [OF mg] by (auto simp: n_def)
  have gk: "unat g = unat (s ! Suc k) - unat (s ! k)" using gd [OF k(2)] k(3) by simp
  have ab: "(a, b) = (if ?e > g then (if ?t \<noteq> hi then ?t else lo, ?f - 1) else (s ! k, s ! Suc k - 1))"
    using assms(1,4) unfolding db_idspace_def s_def [symmetric] Let_def n_def [symmetric] mg k(1) [symmetric]
    by (auto split: if_splits)
  have pf: "unat (?f - 1) = unat ?f - 1" using unat_pred [of lo ?f] ft by (simp add: word_nat)
  have fin: "?f \<in> set ids" using nth_mem [of 0 s] n(1,3) unfolding n_def by (cases s) auto
  have bl: "?f - 1 = lo \<longrightarrow> lo + 1 \<in> set ids"
  proof
    assume "?f - 1 = lo"
    then have "lo + 1 = ?f" by auto
    then show "lo + 1 \<in> set ids" using fin by simp
  qed
  show ?thesis
  proof (cases "?e > g")
    case True
    then have e2: "2 \<le> unat ?e" using g1 by (simp add: word_nat)
    show ?thesis
    proof (cases "?t = hi")
      case th: True
      then have r: "a = lo" "b = ?f - 1" using ab True by auto
      have "2 \<le> unat ?f - unat lo" using e2 e th by simp
      then show ?thesis using r pf ft bl by (auto simp: free_range_def word_nat dest!: all)
    next
      case False
      then have r: "a = ?t" "b = ?f - 1" using ab True by auto
      have "unat ?t < unat hi" using False ft by (simp add: word_unat_eq_iff)
      then show ?thesis using r pf ft bl by (auto simp: free_range_def word_nat dest!: all)
    qed
  next
    case False
    then have r: "a = s ! k" "b = s ! Suc k - 1" using ab by auto
    have ps: "unat (s ! Suc k - 1) = unat (s ! Suc k) - 1"
      using unat_pred [of lo "s ! Suc k"] dom [OF k(2)] by (simp add: word_nat)
    have sk: "unat (s ! k) < unat (s ! Suc k)" using srt [of k "Suc k"] k(2) by simp
    have free: "x \<notin> free_range lo hi a b" if "x \<in> set ids" for x
    proof -
      from that have xs: "x \<in> set s" using n(3) by simp
    obtain i where i: "i < n" "x = s ! i"
      using xs unfolding in_set_conv_nth n_def by blast
      have "unat x \<le> unat (s ! k) \<or> unat (s ! Suc k) \<le> unat x"
        using srt [of i k] srt [of "Suc k" i] i k(2) by (cases i k rule: linorder_cases; cases "i = Suc k") (auto simp: less_imp_le)
      then show ?thesis using r ps sk by (auto simp: free_range_def word_nat)
    qed
    moreover have "a \<noteq> b" if "length ids < unat hi - unat lo"
    proof
      assume "a = b"
      then have "unat (s ! k) = unat (s ! Suc k) - 1" using r ps by simp
      then have g: "unat g = 1" using gk sk by simp
      have "unat ?t \<le> unat ?f + (n - 1) * unat g"
        using sorted_total [of s "unat g" "n - 1"] gaps n(1) by (simp add: n_def)
      moreover have "unat ?e \<le> 1" using False g by (simp add: word_nat)
      ultimately show False using e ft g n(1,2) that by simp
    qed
    moreover have "lo \<le> a \<and> a < hi \<and> lo \<le> b \<and> b \<le> hi"
      using r ps sk dom [of k] dom [OF k(2)] k(2) by (auto simp: word_nat)
    moreover have "b \<noteq> lo" using r ps sk dom [of k] k(2) by (auto simp: word_unat_eq_iff)
    ultimately show ?thesis by blast
  qed
qed

lemma idspace_free:
  assumes "ids \<noteq> []" "distinct ids" "set ids \<subseteq> {lo<..hi}" "db_idspace ids lo hi = (a, b)"
  shows "lo \<le> a \<and> a < hi \<and> lo \<le> b \<and> b \<le> hi \<and> set ids \<inter> free_range lo hi a b = {}
    \<and> (length ids < unat hi - unat lo \<longrightarrow> a \<noteq> b) \<and> (b = lo \<longrightarrow> lo + 1 \<in> set ids)"
proof (cases "length ids = 1")
  case True
  then obtain u where "ids = [u]" by (cases ids) auto
  then show ?thesis using idspace_one [of u a b] assms by auto
next
  case False
  then have "1 < length ids" using assms(1) by (cases ids) auto
  then show ?thesis using idspace_many assms by blast
qed

text \<open>Taking the next id of a region with a free range that is not at its end.\<close>

lemma unat_next: "a < hi \<Longrightarrow> unat (a + 1) = unat a + 1"
proof -
  assume "a < hi"
  then have "unat a < unat hi" by (simp add: word_nat)
  moreover have "unat hi < 2 ^ LENGTH(32)" by (rule unsigned_less)
  ultimately have "unat a + 1 < 2 ^ LENGTH(32)" by linarith
  then show ?thesis by (simp add: unat_word_ariths)
qed

lemma take_next:
  assumes "region_ok r" "last_id r \<noteq> cur_maxid r" "last_id r = hi \<longrightarrow> cur_maxid r = hi"
  shows "last_id r + 1 \<notin> set (in_use r)" "lo < last_id r + 1" "last_id r + 1 \<le> hi"
    "region_ok (r\<lparr>last_id := last_id r + 1, in_use := (last_id r + 1) # in_use r\<rparr>)"
proof -
  let ?a = "last_id r" and ?b = "cur_maxid r"
  have o: "lo \<le> ?a" "?a \<le> hi" "lo \<le> ?b" "?b \<le> hi" "set (in_use r) \<inter> free_range lo hi ?a ?b = {}"
    using assms(1) by (auto simp: region_ok_def)
  have "?a \<noteq> hi" using assms(2,3) by auto
  then have lt: "?a < hi" using o(2) by simp
  note u = unat_next [OF lt]
  have "unat ?a \<noteq> unat ?b" using assms(2) by (simp add: word_unat_eq_iff)
  then have "?a + 1 \<in> free_range lo hi ?a ?b" using u lt o by (auto simp: free_range_def word_nat)
  then show n: "?a + 1 \<notin> set (in_use r)" using o(5) by blast
  show l: "lo < ?a + 1" "?a + 1 \<le> hi" using u lt o(1) by (simp_all add: word_nat)
  have "free_range lo hi (?a + 1) ?b \<subseteq> free_range lo hi ?a ?b - {?a + 1}"
    using u \<open>unat ?a \<noteq> unat ?b\<close> by (auto simp: free_range_def word_nat split: if_splits)
  then show "region_ok (r\<lparr>last_id := ?a + 1, in_use := (?a + 1) # in_use r\<rparr>)"
    using assms(1) n l o by (auto simp: region_ok_def)
qed

lemma wrap_ok:
  assumes "region_ok r" "last_id r = hi" "cur_maxid r \<noteq> hi"
  shows "region_ok (r\<lparr>last_id := lo\<rparr>)"
  using assms lo_hi by (auto simp: region_ok_def free_range_def)

lemma free_ok: "region_ok r \<Longrightarrow> region_ok (r\<lparr>in_use := remove1 x (in_use r)\<rparr>)"
  using set_remove1_subset [of x "in_use r"] by (auto simp: region_ok_def)

lemma new_range:
  assumes "region_ok r" "length (in_use r) < unat hi - unat lo"
    and "(a, b) = (if in_use r \<noteq> [] then db_idspace (in_use r) lo hi else (lo, hi))"
  shows "region_ok (r\<lparr>last_id := a, cur_maxid := b\<rparr>) \<and> a \<noteq> b \<and> a < hi
    \<and> (b = lo \<longrightarrow> lo + 1 \<in> set (in_use r))"
proof (cases "in_use r = []")
  case True
  then show ?thesis using assms lo_hi by (auto simp: region_ok_def)
next
  case False
  then show ?thesis using idspace_free [of "in_use r" a b] assms by (auto simp: region_ok_def)
qed

end

interpretation lock_ids: id_space DB_LOCK_INVALIDID DB_LOCK_MAXID
  by unfold_locales (simp add: DB_LOCK_INVALIDID_def DB_LOCK_MAXID_def)

interpretation txn_ids: id_space "TXN_MINIMUM - 1" TXN_MAXIMUM
  by unfold_locales (simp add: TXN_MINIMUM_def TXN_MAXIMUM_def)

section \<open>Locker ids\<close>

lemma region_sel [simp]:
  "last_id (acquire r) = last_id r" "cur_maxid (acquire r) = cur_maxid r" "in_use (acquire r) = in_use r"
  "last_id (release r) = last_id r" "cur_maxid (release r) = cur_maxid r" "in_use (release r) = in_use r"
  "mutex (acquire r) = mutex r + 1" "mutex (release r) = mutex r - 1"
  by (simp_all add: acquire_def release_def)

lemma lock_id_fresh:
  assumes "lock_ids.region_ok r" "length (in_use r) < 0x7fffffff" "lock_id mal getl r = (r', i, ret)"
  shows "lock_ids.region_ok r' \<and> mutex r' = mutex r \<and>
    (ret = 0 \<longrightarrow> i \<notin> set (in_use r) \<and> in_use r' = i # in_use r \<and> 0 < i \<and> i \<le> DB_LOCK_MAXID)"
proof -
  let ?lo = DB_LOCK_INVALIDID and ?hi = DB_LOCK_MAXID
  have lh: "?lo \<noteq> ?hi" by (simp add: DB_LOCK_INVALIDID_def DB_LOCK_MAXID_def)
  define r0 where "r0 = acquire r"
  have ok0: "lock_ids.region_ok r0" using assms(1) by (simp add: r0_def)
  define r1 where "r1 = (if last_id r0 = ?hi \<and> cur_maxid r0 \<noteq> ?hi then r0\<lparr>last_id := ?lo\<rparr> else r0)"
  have ok1: "lock_ids.region_ok r1" "in_use r1 = in_use r" "last_id r1 = ?hi \<longrightarrow> cur_maxid r1 = ?hi"
      "mutex r1 = Suc (mutex r)"
    using ok0 lock_ids.wrap_ok [of r0] lh by (auto simp: r1_def r0_def)
  show ?thesis
  proof (cases "last_id r1 = cur_maxid r1 \<and> mal \<noteq> 0")
    case True
    then have "(r', i, ret) = (release r1, ?lo, mal)"
      using assms(3) unfolding lock_id_def Let_def r0_def [symmetric] r1_def [symmetric] by simp
    then show ?thesis using ok1 True by simp
  next
    case False
    obtain a b where sp: "(a, b) = (if in_use r1 \<noteq> [] then db_idspace (in_use r1) ?lo ?hi else (?lo, ?hi))"
      by (metis surj_pair)
    define r2 where "r2 = (if last_id r1 = cur_maxid r1 then r1\<lparr>last_id := a, cur_maxid := b\<rparr> else r1)"
    define j where "j = last_id r2 + 1"
    have run: "(r', i, ret) = (release (r2\<lparr>last_id := j, in_use := (if getl = 0 then j # in_use r2 else in_use r2)\<rparr>), j, getl)"
      using assms(3) False unfolding lock_id_def Let_def r0_def [symmetric] r1_def [symmetric] sp [symmetric]
        prod.case
      by (cases "last_id r1 = cur_maxid r1"; cases "getl = 0") (auto simp: r2_def j_def)
    have sz: "length (in_use r1) < unat ?hi - unat ?lo"
      using assms(2) ok1(2) by (simp add: DB_LOCK_INVALIDID_def DB_LOCK_MAXID_def)
    have iu: "in_use r2 = in_use r" "mutex r2 = Suc (mutex r)" using ok1(2,4) by (simp_all add: r2_def)
    have ok2: "lock_ids.region_ok r2 \<and> last_id r2 \<noteq> cur_maxid r2 \<and> (last_id r2 = ?hi \<longrightarrow> cur_maxid r2 = ?hi)"
    proof (cases "last_id r1 = cur_maxid r1")
      case True
      have n: "lock_ids.region_ok (r1\<lparr>last_id := a, cur_maxid := b\<rparr>) \<and> a \<noteq> b \<and> a < ?hi"
        using lock_ids.new_range [OF ok1(1) sz sp] by blast
      then show ?thesis using n True by (auto simp: r2_def)
    next
      case False
      then show ?thesis using ok1 by (auto simp: r2_def)
    qed
    have t: "j \<notin> set (in_use r2)" "?lo < j" "j \<le> ?hi" "lock_ids.region_ok (r2\<lparr>last_id := j, in_use := j # in_use r2\<rparr>)"
      using lock_ids.take_next [of r2] ok2 by (auto simp: j_def)
    have t2: "lock_ids.region_ok (r2\<lparr>last_id := j\<rparr>)"
      using lock_ids.free_ok [OF t(4), of j] by simp
    have j0: "0 < j" using t(2) by (simp add: DB_LOCK_INVALIDID_def)
    have "lock_ids.region_ok r'" using run t(4) t2 by (cases "getl = 0") auto
    then show ?thesis using run t(1,3) j0 iu by auto
  qed
qed

lemma lock_id_free_ok: "lock_ids.region_ok r \<Longrightarrow> lock_ids.region_ok (lock_id_free r i)"
  unfolding lock_id_free_def by (rule lock_ids.free_ok)

text \<open>The runs of a region: lockers are allocated while there is room, also with failures, and freed
  in any order.\<close>

inductive lock_step :: "id_region \<Rightarrow> id_region \<Rightarrow> bool" where
  allocate: "length (in_use r) < 0x7fffffff \<Longrightarrow> lock_step r (fst (lock_id mal getl r))"
| unlist: "i \<in> set (in_use r) \<Longrightarrow> lock_step r (lock_id_free r i)"

definition lock_region_init :: id_region where
  "lock_region_init = \<lparr>last_id = DB_LOCK_INVALIDID, cur_maxid = DB_LOCK_MAXID, in_use = [], mutex = 0\<rparr>"

lemma lock_region_init_ok: "lock_ids.region_ok lock_region_init"
  unfolding lock_ids.region_ok_def by (simp add: lock_region_init_def DB_LOCK_INVALIDID_def DB_LOCK_MAXID_def)

lemma lock_step_ok: "lock_step r r' \<Longrightarrow> lock_ids.region_ok r \<Longrightarrow> lock_ids.region_ok r'"
  by (induction rule: lock_step.induct) (metis lock_id_fresh prod.collapse, rule lock_id_free_ok)

lemma lock_steps_ok: "lock_step\<^sup>*\<^sup>* lock_region_init r \<Longrightarrow> lock_ids.region_ok r"
  by (induction rule: rtranclp_induct) (auto intro: lock_region_init_ok lock_step_ok)

section \<open>Transaction ids\<close>

lemma txn_begin_fresh:
  assumes ok: "txn_ids.region_ok r" and ne: "last_id r \<noteq> cur_maxid r"
    and nw: "last_id r = TXN_MAXIMUM \<longrightarrow> cur_maxid r \<noteq> TXN_MINIMUM - 1"
    and room: "Suc (length (in_use r)) < 0x80000000"
    and run: "txn_begin_id rec al mal lg lk r = (r', i, 0)"
  shows "i \<notin> set (in_use r) \<and> txn_ids.region_ok r' \<and> in_use r' = i # in_use r
    \<and> last_id r' \<noteq> cur_maxid r' \<and> TXN_MINIMUM \<le> i
    \<and> (cur_maxid r' = TXN_MINIMUM - 1 \<longrightarrow> cur_maxid r = TXN_MINIMUM - 1 \<or> TXN_MINIMUM \<in> set (in_use r'))"
proof -
  let ?lo = "TXN_MINIMUM - 1" and ?hi = TXN_MAXIMUM
  have lh: "?lo \<noteq> ?hi" "?lo + 1 = TXN_MINIMUM" by (simp_all add: TXN_MINIMUM_def TXN_MAXIMUM_def)
  define r0 where "r0 = acquire r"
  define r1 where "r1 = txn_next_id r0"
  have ok1: "txn_ids.region_ok r1" "in_use r1 = in_use r" "last_id r1 = ?hi \<longrightarrow> cur_maxid r1 = ?hi"
    "last_id r1 \<noteq> cur_maxid r1" "cur_maxid r1 = cur_maxid r"
    using ok ne nw txn_ids.wrap_ok [of r0] lh by (auto simp: r1_def r0_def txn_next_id_def)
  define i1 where "i1 = last_id r1 + 1"
  define r2 where "r2 = r1\<lparr>last_id := i1, in_use := i1 # in_use r1\<rparr>"
  obtain a b where sp: "(a, b) = (if in_use r2 \<noteq> [] then db_idspace (in_use r2) ?lo ?hi else (?lo, ?hi))"
    by (metis surj_pair)
  have res: "i = i1 \<and> last_id r' = (if last_id r2 = cur_maxid r2 then a else last_id r2)
      \<and> cur_maxid r' = (if last_id r2 = cur_maxid r2 then b else cur_maxid r2) \<and> in_use r' = in_use r2"
    using run unfolding txn_begin_id_def txn_recycle_id_def Let_def r0_def [symmetric] r1_def [symmetric]
      i1_def [symmetric] r2_def [symmetric] sp [symmetric] prod.case
    by (auto split: if_splits option.splits simp: EINVAL_ret_def)
  have t: "i1 \<notin> set (in_use r1)" "?lo < i1" "txn_ids.region_ok r2"
    using txn_ids.take_next [OF ok1(1,4,3)] by (simp_all add: i1_def r2_def)
  have sz: "length (in_use r2) < unat ?hi - unat ?lo"
    using room ok1(2) by (simp add: r2_def TXN_MINIMUM_def TXN_MAXIMUM_def)
  have tm: "TXN_MINIMUM \<le> i1" using t(2) by (simp add: word_nat TXN_MINIMUM_def)
  define r3 where "r3 = r2\<lparr>last_id := a, cur_maxid := b\<rparr>"
  have n: "txn_ids.region_ok r3 \<and> a \<noteq> b \<and> (b = ?lo \<longrightarrow> ?lo + 1 \<in> set (in_use r2))"
    using txn_ids.new_range [OF t(3) sz sp] by (auto simp: r3_def)
  have ok': "txn_ids.region_ok r'"
    using res n t(3) unfolding txn_ids.region_ok_def by (auto simp: r3_def)
  have "cur_maxid r2 = cur_maxid r" "in_use r2 = i1 # in_use r" using ok1 by (simp_all add: r2_def)
  then show ?thesis using res t(1) ok1(2) tm ok' n lh(2) by (auto split: if_splits)
qed

section \<open>Properties\<close>

text \<open>C36: for a non-empty list of distinct ids in use, \<open>__db_idspace\<close> returns a range of
  the id space (after \<open>a\<close> up to \<open>b\<close>, possibly around the top) in which no id is in use, and a
  range that is not empty as long as the id space is not full.\<close>

theorem idspace_range_is_free:
  assumes "lo < hi" "ids \<noteq> []" "distinct ids" "set ids \<subseteq> {lo<..hi}"
    and "length ids < unat hi - unat lo" "db_idspace ids lo hi = (a, b)"
  shows "set ids \<inter> free_range lo hi a b = {} \<and> free_range lo hi a b \<subseteq> {lo<..hi}
    \<and> free_range lo hi a b \<noteq> {}"
proof -
  have s: "lo \<le> a \<and> a < hi \<and> lo \<le> b \<and> b \<le> hi \<and> set ids \<inter> free_range lo hi a b = {} \<and> a \<noteq> b"
    using id_space.idspace_free [OF id_space.intro [OF assms(1)] assms(2-4,6)] assms(5) by blast
  then have "if a \<le> b then b \<in> free_range lo hi a b else hi \<in> free_range lo hi a b"
    by (auto simp: free_range_def)
  then show ?thesis using s by (auto simp: free_range_def split: if_splits)
qed

theorem idspace_range_is_free_witness:
  "set [5, 9, 2] \<inter> free_range 0 10 5 8 = {} \<and> free_range 0 10 5 8 \<subseteq> {0<..10} \<and> free_range 0 10 5 8 \<noteq> ({} :: u32 set)"
  by (rule idspace_range_is_free [of 0 10 "[5, 9, 2]" 5 8]) (simp, simp, simp, simp, simp, code_simp)

text \<open>In every run of locker allocations and releases from the fresh region, an
  allocation returns an id between 1 and \<open>DB_LOCK_MAXID\<close> that no locker holds, also after the id
  counter has wrapped around.\<close>

theorem lock_id_never_reused:
  assumes "lock_step\<^sup>*\<^sup>* lock_region_init r" "length (in_use r) < 0x7fffffff" "lock_id mal getl r = (r', i, 0)"
  shows "i \<notin> set (in_use r) \<and> distinct (in_use r') \<and> 0 < i \<and> i \<le> DB_LOCK_MAXID"
proof -
  have "lock_ids.region_ok r'" "i \<notin> set (in_use r)" "0 < i" "i \<le> DB_LOCK_MAXID"
    using lock_id_fresh [OF lock_steps_ok [OF assms(1)] assms(2,3)] by auto
  then show ?thesis by (auto simp: lock_ids.region_ok_def)
qed

theorem lock_id_never_reused_witness:
  "(1::u32) \<notin> set (in_use lock_region_init)
   \<and> distinct (in_use \<lparr>last_id = 1, cur_maxid = DB_LOCK_MAXID, in_use = [1], mutex = 0\<rparr>) \<and> 0 < (1::u32) \<and> 1 \<le> DB_LOCK_MAXID"
  by (rule lock_id_never_reused [OF rtranclp.rtrancl_refl, where mal = 0 and getl = 0])
    (simp_all add: lock_region_init_def lock_id_def DB_LOCK_MAXID_def DB_LOCK_INVALIDID_def acquire_def release_def)

text \<open>C37: \<open>__txn_begin_int\<close> gives the new transaction an id that no active transaction has, and
  leaves a region from which the next begin does the same, unless the end of its free range is
  just below \<open>TXN_MINIMUM\<close>; that end only arises while the id \<open>TXN_MINIMUM\<close> is in use.\<close>

theorem txn_begin_id_fresh:
  assumes "txn_ids.region_ok r" "last_id r \<noteq> cur_maxid r" "cur_maxid r \<noteq> TXN_MINIMUM - 1"
    and "Suc (length (in_use r)) < 0x80000000" "txn_begin_id rec al mal lg lk r = (r', i, 0)"
  shows "i \<notin> set (in_use r) \<and> distinct (in_use r') \<and> TXN_MINIMUM \<le> i
    \<and> txn_ids.region_ok r' \<and> last_id r' \<noteq> cur_maxid r'
    \<and> (cur_maxid r' = TXN_MINIMUM - 1 \<longrightarrow> TXN_MINIMUM \<in> set (in_use r'))"
  using txn_begin_fresh [OF assms(1,2) _ assms(4,5)] assms(3) by (auto simp: txn_ids.region_ok_def)

theorem txn_begin_id_fresh_witness:
  "\<exists>r r'. txn_begin_id False 0 0 (Some 0) 0 r = (r', 0x80000000, 0) \<and> (0x80000000 :: u32) \<notin> set (in_use r) \<and> distinct (in_use r')"
proof -
  let ?r = "\<lparr>last_id = 0xffffffff, cur_maxid = 0x80000003, in_use = [0x80000004], mutex = 0\<rparr>"
  let ?r' = "\<lparr>last_id = 0x80000000, cur_maxid = 0x80000003, in_use = [0x80000000, 0x80000004], mutex = 0\<rparr>"
  have ok: "txn_ids.region_ok ?r"
    unfolding txn_ids.region_ok_def by (simp add: free_range_def TXN_MINIMUM_def TXN_MAXIMUM_def)
  have run: "txn_begin_id False 0 0 (Some 0) 0 ?r = (?r', 0x80000000, 0)" by code_simp
  have "(0x80000000 :: u32) \<notin> set (in_use ?r) \<and> distinct (in_use ?r')"
    using txn_begin_id_fresh [OF ok _ _ _ run] by (simp add: TXN_MINIMUM_def)
  then show ?thesis using run by blast
qed

text \<open>While the transaction with the smallest id is active, the free range can end
  below \<open>TXN_MINIMUM\<close>.  The region below is what \<open>__txn_recycle_id\<close> leaves for that transaction;
  once the ids up to \<open>TXN_MAXIMUM\<close> are handed out, the next begin wraps and returns the id of the
  active transaction, because the check for the end of the range comes after the increment.\<close>

theorem txn_begin_reuses_active_id:
  "fst (txn_recycle_id 0 lg False \<lparr>last_id = m, cur_maxid = m, in_use = [TXN_MINIMUM], mutex = 0\<rparr>)
     = \<lparr>last_id = TXN_MINIMUM, cur_maxid = TXN_MINIMUM - 1, in_use = [TXN_MINIMUM], mutex = 0\<rparr>
   \<and> snd (txn_begin_id False 0 0 lg 0 \<lparr>last_id = TXN_MAXIMUM, cur_maxid = TXN_MINIMUM - 1, in_use = [TXN_MINIMUM], mutex = 0\<rparr>)
     = (TXN_MINIMUM, 0)"
  by (auto simp: txn_recycle_id_def txn_begin_id_def txn_next_id_def db_idspace_def TXN_MINIMUM_def TXN_MAXIMUM_def
      Let_def split: option.split)

text \<open>\<open>__txn_begin_int\<close> gives the region mutex back on every path except two: when
  \<open>__txn_recycle_id\<close> fails, which it does with the mutex held, the error exit takes the mutex a
  second time and releases it once; and with logging off, \<open>__txn_recycle_id\<close> succeeds with the
  mutex held and nothing releases it.\<close>

theorem txn_begin_recycle_failure_holds_mutex:
  assumes "txn_begin_id rec al mal lg lk r = (r', i, ret)"
  shows "mutex r' =
    (if \<not> rec \<and> al = 0 \<and> last_id (txn_next_id r) + 1 = cur_maxid r \<and> (mal \<noteq> 0 \<or> lg \<noteq> Some 0)
     then mutex r + 1 else mutex r)"
proof -
  have c: "cur_maxid (txn_next_id (acquire r)) = cur_maxid r" "mutex (txn_next_id (acquire r)) = mutex r + 1"
    "last_id (txn_next_id (acquire r)) = last_id (txn_next_id r)"
    by (auto simp: txn_next_id_def)
  show ?thesis
    using assms c unfolding txn_begin_id_def txn_recycle_id_def txn_begin_err_def Let_def
    by (auto split: if_splits option.splits prod.splits)
qed

theorem txn_begin_recycle_failure_holds_mutex_witness:
  "\<exists>r'. txn_begin_id False 0 12 (Some 0) 0 \<lparr>last_id = 0x80000002, cur_maxid = 0x80000003, in_use = [], mutex = 0\<rparr>
      = (r', 0x80000003, 12) \<and> mutex r' = 1"
proof -
  let ?r = "\<lparr>last_id = 0x80000002, cur_maxid = 0x80000003, in_use = [], mutex = 0\<rparr>"
  let ?r' = "\<lparr>last_id = 0x80000003, cur_maxid = 0x80000003, in_use = [], mutex = 1\<rparr>"
  have run: "txn_begin_id False 0 12 (Some 0) 0 ?r = (?r', 0x80000003, 12)"
    by (simp add: txn_begin_id_def txn_next_id_def txn_recycle_id_def txn_begin_err_def acquire_def release_def TXN_MAXIMUM_def)
  from txn_begin_recycle_failure_holds_mutex [OF run] show ?thesis
    using run by (simp add: txn_next_id_def TXN_MAXIMUM_def)
qed

end
