(* ===== verification/Kport_Ftable.thy ===== *)
theory Kport_Ftable
  imports Prelude
begin

text \<open>
  The descriptor table of the kernel port, \<open>src/db/build_kernel/syscalls.c\<close>: the static array
  \<open>ftable\<close> of 1024 words, in which a word below 1024 is a link of the free list and any other is
  a file pointer, with the reference counts that \<open>__fget\<close> and \<open>fput\<close> move.  A file pointer is the
  address of a \<open>kfile\<close> in \<open>files\<close>; \<open>world\<close> is the state behind the VFS calls.
  The locale \<open>descriptor_table\<close> is the contract that the system calls rely on.
\<close>

section \<open>The code\<close>

record kfile =
  f_mode :: u32
  f_pos :: int
  f_count :: nat
  f_locked :: bool

record 'w kport =
  ftable :: "nat list"
  next_free :: nat
  free_head :: nat
  files :: "nat \<Rightarrow> kfile option"
  files_count :: nat
  task_fds :: nat
  errno :: int
  world :: 'w

definition install_file :: "'w kport \<Rightarrow> nat \<Rightarrow> 'w kport \<times> int" where
  "install_file s fp =
     (let (s1, fd) =
        (if next_free s = 1024 then
           (if free_head s \<noteq> 0 then (s\<lparr>free_head := ftable s ! free_head s\<rparr>, free_head s) else (s, 0))
         else (s\<lparr>next_free := next_free s + 1\<rparr>, next_free s))
      in if fd > 0 then (s1\<lparr>ftable := (ftable s1)[fd := fp]\<rparr>, int fd) else (s1, -1))"

definition get_file :: "'w kport \<Rightarrow> nat \<Rightarrow> nat" where
  "get_file s fd = (if ftable s ! fd < 1024 then 0 else ftable s ! fd)"

definition uninstall_file :: "'w kport \<Rightarrow> nat \<Rightarrow> 'w kport \<times> nat" where
  "uninstall_file s fd =
     (let fp = get_file s fd in
      (if fp \<noteq> 0 then s\<lparr>ftable := (ftable s)[fd := free_head s], free_head := fd\<rparr> else s, fp))"

text \<open>References: \<open>get_file_rcu\<close> fails on a file whose count is zero, \<open>fput\<close> frees at zero.\<close>

definition the_file :: "'w kport \<Rightarrow> nat \<Rightarrow> kfile" where
  "the_file s fp = (case files s fp of Some f \<Rightarrow> f | None \<Rightarrow> \<lparr>f_mode = 0, f_pos = 0, f_count = 0, f_locked = False\<rparr>)"

definition set_file :: "'w kport \<Rightarrow> nat \<Rightarrow> kfile \<Rightarrow> 'w kport" where
  "set_file s fp f = s\<lparr>files := (files s)(fp \<mapsto> f)\<rparr>"

definition fput :: "'w kport \<Rightarrow> nat \<Rightarrow> 'w kport" where
  "fput s fp =
     (let f = the_file s fp in
      if f_count f \<le> 1 then s\<lparr>files := (files s)(fp := None)\<rparr>
      else set_file s fp (f\<lparr>f_count := f_count f - 1\<rparr>))"

text \<open>
  \<open>__fget\<close> loops while the file it finds has no references left; the value None is a call that
  does not return.
\<close>

partial_function (option) fget :: "'w kport \<Rightarrow> nat \<Rightarrow> u32 \<Rightarrow> ('w kport \<times> nat) option" where
  "fget s fd msk =
     (let fp = get_file s fd in
      if fp \<noteq> 0 then
        (if f_mode (the_file s fp) AND msk \<noteq> 0 then Some (s, 0)
         else if f_count (the_file s fp) \<noteq> 0
         then Some (set_file s fp ((the_file s fp)\<lparr>f_count := f_count (the_file s fp) + 1\<rparr>), fp)
         else fget s fd msk)
      else Some (s, 0))"

text \<open>The tagged word of \<open>__fget_light\<close> is a pointer and the flag \<open>FDPUT_FPUT\<close>.\<close>

definition fget_light :: "'w kport \<Rightarrow> nat \<Rightarrow> u32 \<Rightarrow> ('w kport \<times> nat \<times> bool) option" where
  "fget_light s fd msk =
     (if files_count s = 1 then
        (let fp = get_file s fd in
         if fp = 0 \<or> f_mode (the_file s fp) AND msk \<noteq> 0 then Some (s, 0, False) else Some (s, fp, False))
      else (case fget s fd msk of
              None \<Rightarrow> None
            | Some (s1, fp) \<Rightarrow> if fp = 0 then Some (s1, 0, False) else Some (s1, fp, True)))"

definition fdput :: "'w kport \<Rightarrow> nat \<times> bool \<Rightarrow> 'w kport" where
  "fdput s f = (if snd f then fput s (fst f) else s)"

definition FMODE_READ :: u32 where "FMODE_READ = 0x1"
definition FMODE_WRITE :: u32 where "FMODE_WRITE = 0x2"
definition FMODE_PREAD :: u32 where "FMODE_PREAD = 0x8"
definition FMODE_PWRITE :: u32 where "FMODE_PWRITE = 0x10"
definition FMODE_PATH :: u32 where "FMODE_PATH = 0x4000"
definition FMODE_ATOMIC_POS :: u32 where "FMODE_ATOMIC_POS = 0x8000"

definition fdget_raw :: "'w kport \<Rightarrow> nat \<Rightarrow> ('w kport \<times> nat \<times> bool) option" where
  "fdget_raw s fd = fget_light s fd 0"

definition fdget :: "'w kport \<Rightarrow> nat \<Rightarrow> ('w kport \<times> nat \<times> bool) option" where
  "fdget s fd = fget_light s fd FMODE_PATH"

text \<open>\<open>___fdget_pos\<close> also takes the position lock of a file that others hold.\<close>

definition fdget_pos :: "'w kport \<Rightarrow> nat \<Rightarrow> ('w kport \<times> nat \<times> bool \<times> bool) option" where
  "fdget_pos s fd =
     (case fget_light s fd FMODE_PATH of
        None \<Rightarrow> None
      | Some (s1, fp, put) \<Rightarrow>
          if fp \<noteq> 0 \<and> f_mode (the_file s1 fp) AND FMODE_ATOMIC_POS \<noteq> 0 \<and> f_count (the_file s1 fp) > 1
          then Some (set_file s1 fp ((the_file s1 fp)\<lparr>f_locked := True\<rparr>), fp, put, True)
          else Some (s1, fp, put, False))"

definition f_unlock_pos :: "'w kport \<Rightarrow> nat \<Rightarrow> 'w kport" where
  "f_unlock_pos s fp = set_file s fp ((the_file s fp)\<lparr>f_locked := False\<rparr>)"

definition fdput_pos :: "'w kport \<Rightarrow> nat \<times> bool \<times> bool \<Rightarrow> 'w kport" where
  "fdput_pos s f =
     (let s1 = (if snd (snd f) then f_unlock_pos s (fst f) else s) in fdput s1 (fst f, fst (snd f)))"

section \<open>The free list\<close>

fun chain :: "nat list \<Rightarrow> nat \<Rightarrow> nat list \<Rightarrow> bool" where
  "chain t h [] \<longleftrightarrow> h = 0"
| "chain t h (x # xs) \<longleftrightarrow> h = x \<and> x \<noteq> 0 \<and> chain t (t ! x) xs"

definition table_ok :: "'w kport \<Rightarrow> bool" where
  "table_ok s \<longleftrightarrow> length (ftable s) = 1024 \<and> 3 \<le> next_free s \<and> next_free s \<le> 1024
     \<and> (\<forall>fd<1024. fd < 3 \<or> next_free s \<le> fd \<longrightarrow> ftable s ! fd = 0)
     \<and> (\<exists>fl. distinct fl \<and> chain (ftable s) (free_head s) fl
          \<and> (\<forall>fd. fd \<in> set fl \<longleftrightarrow> 3 \<le> fd \<and> fd < next_free s \<and> ftable s ! fd < 1024))"

text \<open>The table as a map from descriptors to file pointers.\<close>

definition open_map :: "'w kport \<Rightarrow> nat \<Rightarrow> nat option" where
  "open_map s fd = (if fd < 1024 \<and> 1024 \<le> ftable s ! fd then Some (ftable s ! fd) else None)"

lemma chain_update: "x \<notin> set fl \<Longrightarrow> chain (t[x := v]) h fl = chain t h fl"
  by (induction t h fl rule: chain.induct) auto

lemma open_map_dom: "table_ok s \<Longrightarrow> dom (open_map s) \<subseteq> {3..<1024}"
proof
  fix fd
  assume ok: "table_ok s" and "fd \<in> dom (open_map s)"
  then have "fd < 1024" "1024 \<le> ftable s ! fd" by (auto simp: open_map_def split: if_splits)
  then show "fd \<in> {3..<1024}" using ok by (auto simp: table_ok_def)
qed

lemma chain_head: "chain t h fl \<Longrightarrow> h \<noteq> 0 \<Longrightarrow> \<exists>fl'. fl = h # fl' \<and> chain t (t ! h) fl'"
  by (cases fl) auto

text \<open>A full table: no fresh descriptor and no free list.\<close>

lemma table_full:
  assumes "table_ok s"
  shows "dom (open_map s) = {3..<1024} \<longleftrightarrow> next_free s = 1024 \<and> free_head s = 0"
proof -
  obtain fl where fl: "distinct fl" "chain (ftable s) (free_head s) fl"
    "\<And>fd. fd \<in> set fl \<longleftrightarrow> 3 \<le> fd \<and> fd < next_free s \<and> ftable s ! fd < 1024"
    using assms by (auto simp: table_ok_def)
  have nf: "3 \<le> next_free s" "next_free s \<le> 1024" and
    z: "\<And>fd. fd < 1024 \<Longrightarrow> fd < 3 \<or> next_free s \<le> fd \<Longrightarrow> ftable s ! fd = 0"
    using assms by (auto simp: table_ok_def)
  show ?thesis
  proof
    assume d: "dom (open_map s) = {3..<1024}"
    have o: "1024 \<le> ftable s ! fd" if "3 \<le> fd" "fd < 1024" for fd
    proof -
      have "fd \<in> dom (open_map s)" using d that by simp
      then show ?thesis by (auto simp: open_map_def split: if_splits)
    qed
    have n: "next_free s = 1024"
    proof (rule ccontr)
      assume "next_free s \<noteq> 1024"
      then show False using o [of "next_free s"] z [of "next_free s"] nf by simp
    qed
    have "free_head s = 0"
    proof (rule ccontr)
      assume "free_head s \<noteq> 0"
      then obtain fl' where "fl = free_head s # fl'" using chain_head [OF fl(2)] by blast
      then show False using fl(3) [of "free_head s"] o [of "free_head s"] n by auto
    qed
    then show "next_free s = 1024 \<and> free_head s = 0" using n by blast
  next
    assume a: "next_free s = 1024 \<and> free_head s = 0"
    then have "fl = []" using fl(2) by (cases fl) auto
    then have "\<forall>fd. 3 \<le> fd \<and> fd < 1024 \<longrightarrow> 1024 \<le> ftable s ! fd" using fl(3) a by (metis empty_iff list.set(1) not_le)
    then have "{3..<1024} \<subseteq> dom (open_map s)" by (auto simp: open_map_def dom_def)
    then show "dom (open_map s) = {3..<1024}" using open_map_dom [OF assms] by blast
  qed
qed

lemma install_file_spec:
  assumes ok: "table_ok s" and fp: "1024 \<le> fp" and run: "install_file s fp = (s', r)"
  shows "if dom (open_map s) = {3..<1024} then r = -1 \<and> s' = s
    else \<exists>fd\<in>{3..<1024}. r = int fd \<and> open_map s fd = None \<and> open_map s' = (open_map s)(fd \<mapsto> fp) \<and> table_ok s'"
proof -
  obtain fl where fl: "distinct fl" "chain (ftable s) (free_head s) fl"
    "\<And>fd. fd \<in> set fl \<longleftrightarrow> 3 \<le> fd \<and> fd < next_free s \<and> ftable s ! fd < 1024"
    using ok by (auto simp: table_ok_def)
  have nf: "3 \<le> next_free s" "next_free s \<le> 1024" "length (ftable s) = 1024" and
    z: "\<And>fd. fd < 1024 \<Longrightarrow> fd < 3 \<or> next_free s \<le> fd \<Longrightarrow> ftable s ! fd = 0"
    using ok by (auto simp: table_ok_def)
  consider (fresh) "next_free s < 1024" | (reuse) "next_free s = 1024" "free_head s \<noteq> 0"
    | (full) "next_free s = 1024" "free_head s = 0" using nf(2) by linarith
  then show ?thesis
  proof cases
    case fresh
    let ?fd = "next_free s"
    have s': "s' = s\<lparr>next_free := ?fd + 1, ftable := (ftable s)[?fd := fp]\<rparr>" "r = int ?fd"
      using run fresh nf(1) by (auto simp: install_file_def)
    have nin: "?fd \<notin> set fl" using fl(3) by auto
    have "table_ok s'"
      unfolding table_ok_def s'
      using nf fresh z fl nin fp by (auto simp: chain_update nth_list_update intro!: exI [of _ fl])
    moreover have "open_map s' = (open_map s)(?fd \<mapsto> fp)"
      using fresh nf fp unfolding s' by (auto simp: open_map_def fun_eq_iff nth_list_update)
    moreover have "open_map s ?fd = None" using z [of ?fd] fresh by (simp add: open_map_def)
    ultimately show ?thesis using table_full [OF ok] fresh nf(1) s'(2) by auto
  next
    case reuse
    let ?fd = "free_head s"
    obtain fl' where fl': "fl = ?fd # fl'" "chain (ftable s) (ftable s ! ?fd) fl'"
      using chain_head [OF fl(2) reuse(2)] by blast
    have s': "s' = s\<lparr>free_head := ftable s ! ?fd, ftable := (ftable s)[?fd := fp]\<rparr>" "r = int ?fd"
      using run reuse by (auto simp: install_file_def)
    have b: "3 \<le> ?fd" "?fd < 1024" "ftable s ! ?fd < 1024" using fl(3) [of ?fd] fl'(1) reuse(1) by auto
    have nin: "?fd \<notin> set fl'" using fl(1) fl'(1) by simp
    have m: "fd \<in> set fl' \<longleftrightarrow> 3 \<le> fd \<and> fd < 1024 \<and> (ftable s)[?fd := fp] ! fd < 1024" for fd
      using fl(3) [of fd] fl'(1) nin b fp nf(3) reuse(1) by (auto simp: nth_list_update)
    have "table_ok s'"
      unfolding table_ok_def s'
      using nf reuse z fl(1) fl' nin m b by (auto simp: chain_update nth_list_update intro!: exI [of _ fl'])
    moreover have "open_map s' = (open_map s)(?fd \<mapsto> fp)"
      using b nf fp unfolding s' by (auto simp: open_map_def fun_eq_iff nth_list_update)
    moreover have "open_map s ?fd = None" using b by (simp add: open_map_def)
    ultimately show ?thesis using table_full [OF ok] reuse b s'(2) by auto
  next
    case full
    then show ?thesis using run table_full [OF ok] by (auto simp: install_file_def)
  qed
qed

lemma uninstall_file_spec:
  assumes ok: "table_ok s" and fd: "fd < 1024" and run: "uninstall_file s fd = (s', fp)"
  shows "fp = (case open_map s fd of None \<Rightarrow> 0 | Some p \<Rightarrow> p) \<and> table_ok s'
    \<and> open_map s' = (open_map s)(fd := None)"
proof (cases "ftable s ! fd < 1024")
  case True
  then show ?thesis using run ok by (auto simp: uninstall_file_def get_file_def open_map_def)
next
  case False
  obtain fl where fl: "distinct fl" "chain (ftable s) (free_head s) fl"
    "\<And>x. x \<in> set fl \<longleftrightarrow> 3 \<le> x \<and> x < next_free s \<and> ftable s ! x < 1024"
    using ok by (auto simp: table_ok_def)
  have nf: "3 \<le> next_free s" "next_free s \<le> 1024" "length (ftable s) = 1024" and
    z: "\<And>x. x < 1024 \<Longrightarrow> x < 3 \<or> next_free s \<le> x \<Longrightarrow> ftable s ! x = 0"
    using ok by (auto simp: table_ok_def)
  have s': "s' = s\<lparr>ftable := (ftable s)[fd := free_head s], free_head := fd\<rparr>" "fp = ftable s ! fd"
    using run False by (auto simp: uninstall_file_def get_file_def)
  have b: "3 \<le> fd" "fd < next_free s" using z [OF fd] False by (auto simp: not_le [symmetric])
  have nin: "fd \<notin> set fl" using fl(3) False by auto
  have h: "free_head s < 1024"
  proof (cases "free_head s = 0")
    case False
    then show ?thesis using chain_head [OF fl(2)] fl(3) [of "free_head s"] nf(2) by auto
  qed simp
  have m: "x \<in> set (fd # fl) \<longleftrightarrow> 3 \<le> x \<and> x < next_free s \<and> (ftable s)[fd := free_head s] ! x < 1024" for x
    using fl(3) [of x] b h nf(3) fd by (auto simp: nth_list_update)
  have "table_ok s'"
    unfolding table_ok_def s'
    using nf z fl nin m b fd h by (auto simp: chain_update nth_list_update intro!: exI [of _ "fd # fl"])
  moreover have "open_map s' = (open_map s)(fd := None)"
    using h fd nf(3) unfolding s' by (auto simp: open_map_def fun_eq_iff nth_list_update)
  ultimately show ?thesis using False fd s'(2) by (simp add: open_map_def)
qed

lemma new_table_ok:
  "ftable s = replicate 1024 0 \<Longrightarrow> next_free s = 3 \<Longrightarrow> free_head s = 0 \<Longrightarrow> table_ok s"
  by (auto simp: table_ok_def intro!: exI [of _ "[]"])

section \<open>The contract of a descriptor table\<close>

locale descriptor_table =
  fixes inv :: "'s \<Rightarrow> bool"
    and fds :: "nat set"
    and lookup :: "'s \<Rightarrow> nat \<Rightarrow> nat option"
    and install :: "'s \<Rightarrow> nat \<Rightarrow> 's \<times> int"
    and uninstall :: "'s \<Rightarrow> nat \<Rightarrow> 's \<times> nat"
    and fok :: "nat \<Rightarrow> bool"
  assumes dom: "inv s \<Longrightarrow> dom (lookup s) \<subseteq> fds"
    and install: "inv s \<Longrightarrow> fok fp \<Longrightarrow> install s fp = (s', r) \<Longrightarrow>
      if dom (lookup s) = fds then r = -1 \<and> s' = s
      else \<exists>fd\<in>fds. r = int fd \<and> lookup s fd = None \<and> lookup s' = (lookup s)(fd \<mapsto> fp) \<and> inv s'"
    and uninstall: "inv s \<Longrightarrow> fd \<in> fds \<Longrightarrow> uninstall s fd = (s', fp) \<Longrightarrow>
      fp = (case lookup s fd of None \<Rightarrow> 0 | Some p \<Rightarrow> p) \<and> inv s' \<and> lookup s' = (lookup s)(fd := None)"
begin

lemma open_then_close:
  assumes "inv s" "fok fp" "install s fp = (s1, r)" "r \<noteq> -1" "uninstall s1 (nat r) = (s2, q)"
  shows "q = fp \<and> lookup s2 = lookup s \<and> inv s2"
proof -
  obtain fd where fd: "fd \<in> fds" "r = int fd" "lookup s fd = None" "lookup s1 = (lookup s)(fd \<mapsto> fp)" "inv s1"
    using install [OF assms(1-3)] assms(4) by (auto split: if_splits)
  then show ?thesis using uninstall [OF fd(5,1), of s2 q] assms(5) by auto
qed

lemma close_twice:
  assumes "inv s" "fd \<in> fds" "uninstall s fd = (s1, p)" "uninstall s1 fd = (s2, q)"
  shows "q = 0 \<and> lookup s2 = lookup s1"
  using uninstall [OF assms(1-3)] uninstall [of s1 fd s2 q] assms(2,4) by auto

lemma two_opens:
  assumes "inv s" "fok f" "fok g" "install s f = (s1, a)" "install s1 g = (s2, b)" "a \<noteq> -1" "b \<noteq> -1"
  shows "a \<noteq> b \<and> lookup s2 (nat a) = Some f \<and> lookup s2 (nat b) = Some g"
proof -
  obtain x where x: "a = int x" "lookup s1 = (lookup s)(x \<mapsto> f)" "inv s1"
    using install [OF assms(1,2,4)] assms(6) by (auto split: if_splits)
  obtain y where y: "b = int y" "lookup s1 y = None" "lookup s2 = (lookup s1)(y \<mapsto> g)"
    using install [OF x(3) assms(3,5)] assms(7) by (auto split: if_splits)
  show ?thesis using x y by auto
qed

text \<open>A descriptor can be had as long as not all of them are taken.\<close>

lemma room:
  assumes "inv s" "fok fp" "fd \<in> fds" "lookup s fd = None" "install s fp = (s', r)"
  shows "r \<noteq> -1"
proof -
  have "dom (lookup s) \<noteq> fds" using assms(3,4) by blast
  then show ?thesis using install [OF assms(1,2,5)] by auto
qed

end

interpretation kp: descriptor_table table_ok "{3..<1024}" open_map install_file uninstall_file "\<lambda>fp. 1024 \<le> fp"
proof
  show "dom (open_map s) \<subseteq> {3..<1024}" if "table_ok s" for s :: "'w kport"
    using open_map_dom that .
  show "if dom (open_map s) = {3..<1024} then r = -1 \<and> s' = s
      else \<exists>fd\<in>{3..<1024}. r = int fd \<and> open_map s fd = None \<and> open_map s' = (open_map s)(fd \<mapsto> fp) \<and> table_ok s'"
    if "table_ok s" "1024 \<le> fp" "install_file s fp = (s', r)" for s s' :: "'w kport" and fp r
    by (rule install_file_spec [OF that])
  show "fp = (case open_map s fd of None \<Rightarrow> 0 | Some p \<Rightarrow> p) \<and> table_ok s' \<and> open_map s' = (open_map s)(fd := None)"
    if "table_ok s" "fd \<in> {3..<1024}" "uninstall_file s fd = (s', fp)" for s s' :: "'w kport" and fd fp
    using uninstall_file_spec [OF that(1) _ that(3)] that(2) by simp
qed

section \<open>References\<close>

text \<open>Every file in the table has a reference.\<close>

definition files_ok :: "'w kport \<Rightarrow> bool" where
  "files_ok s \<longleftrightarrow> (\<forall>fd<1024. 1024 \<le> ftable s ! fd \<longrightarrow> (\<exists>f. files s (ftable s ! fd) = Some f \<and> 0 < f_count f))"

lemma get_file_map: "fd < 1024 \<Longrightarrow> get_file s fd = (case open_map s fd of None \<Rightarrow> 0 | Some p \<Rightarrow> p)"
  by (simp add: get_file_def open_map_def)

lemma set_file_simps [simp]:
  "ftable (set_file s p f) = ftable s" "next_free (set_file s p f) = next_free s"
  "free_head (set_file s p f) = free_head s" "files_count (set_file s p f) = files_count s"
  "errno (set_file s p f) = errno s" "world (set_file s p f) = world s" "task_fds (set_file s p f) = task_fds s"
  "files (set_file s p f) = (files s)(p \<mapsto> f)"
  by (simp_all add: set_file_def)

lemma the_file_set [simp]: "the_file (set_file s p f) p = f"
  by (simp add: the_file_def)

lemma open_map_cong: "ftable s' = ftable s \<Longrightarrow> open_map s' = open_map s"
  by (simp add: open_map_def fun_eq_iff)

lemma table_ok_cong:
  "ftable s' = ftable s \<Longrightarrow> next_free s' = next_free s \<Longrightarrow> free_head s' = free_head s \<Longrightarrow> table_ok s' = table_ok s"
  by (simp add: table_ok_def)

lemma fget_returns:
  assumes "files_ok s" "fd < 1024"
  shows "fget s fd msk =
    (case open_map s fd of
       None \<Rightarrow> Some (s, 0)
     | Some p \<Rightarrow> if f_mode (the_file s p) AND msk \<noteq> 0 then Some (s, 0)
         else Some (set_file s p ((the_file s p)\<lparr>f_count := f_count (the_file s p) + 1\<rparr>), p))"
proof (cases "open_map s fd")
  case None
  then have "get_file s fd = 0" using get_file_map [OF assms(2), of s] by simp
  then show ?thesis using None by (subst fget.simps) simp
next
  case (Some p)
  then have p: "get_file s fd = p" "1024 \<le> p" "p = ftable s ! fd"
    using get_file_map [OF assms(2), of s] by (auto simp: open_map_def split: if_splits)
  then obtain f where "files s p = Some f" "0 < f_count f" using assms by (auto simp: files_ok_def)
  then show ?thesis using Some p(1,2) by (subst fget.simps) (auto simp: the_file_def Let_def)
qed

text \<open>Taking and giving back a reference leaves the state as it was.\<close>

lemma fput_get:
  assumes "files s p = Some f" "0 < f_count f"
  shows "fput (set_file s p (f\<lparr>f_count := f_count f + 1\<rparr>)) p = s"
proof -
  have "(files s)(p \<mapsto> f) = files s" using assms(1) by auto
  then show ?thesis using assms by (simp add: fput_def set_file_def the_file_def)
qed

end
