(* ===== verification/Kport_Io.thy ===== *)
theory Kport_Io
  imports Kport_Ftable
begin

text \<open>
  The file system calls of the kernel port on descriptors, \<open>src/db/build_kernel/syscalls.c\<close>: open,
  close, read, write, pread, pwrite, lseek, fsync, fstat and the directory stream.  The VFS
  functions they end in are the record \<open>vfs\<close> of parameters over the state \<open>world\<close>; a call that
  does not return is None (see \<open>fget\<close>).
\<close>

section \<open>The VFS\<close>

abbreviation (input) EBADF :: int where "EBADF \<equiv> 9"
abbreviation (input) ENOMEM :: int where "ENOMEM \<equiv> 12"
abbreviation (input) EINVAL :: int where "EINVAL \<equiv> 22"
abbreviation (input) EMFILE :: int where "EMFILE \<equiv> 24"
abbreviation (input) ESPIPE :: int where "ESPIPE \<equiv> 29"

text \<open>What \<open>vfs_getattr\<close> fills in, and what \<open>fstat\<close> and \<open>stat\<close> copy from it.\<close>

record kstat =
  ks_dev :: u64
  ks_ino :: u64
  ks_mode :: u16
  ks_nlink :: u32
  ks_uid :: u32
  ks_gid :: u32
  ks_rdev :: u64
  ks_size :: int
  ks_blksize :: u64
  ks_blocks :: u64
  ks_times :: "(int \<times> int) \<times> (int \<times> int) \<times> (int \<times> int)"

record ustat =
  st_dev :: u64
  st_ino :: u64
  st_mode :: u16
  st_nlink :: u32
  st_uid :: u32
  st_gid :: u32
  st_rdev :: u64
  st_size :: int
  st_blksize :: u64
  st_blocks :: u64
  st_time :: "int \<times> int \<times> int"
  st_time_nsec :: "int \<times> int \<times> int"

record 'w vfs =
  vfs_read :: "'w \<Rightarrow> nat \<Rightarrow> nat \<Rightarrow> int \<Rightarrow> 'w \<times> int \<times> byte list \<times> int"
  vfs_write :: "'w \<Rightarrow> nat \<Rightarrow> byte list \<Rightarrow> int \<Rightarrow> 'w \<times> int \<times> int"
  vfs_fsync :: "'w \<Rightarrow> nat \<Rightarrow> int \<Rightarrow> 'w \<times> int"
  vfs_llseek :: "'w \<Rightarrow> nat \<Rightarrow> int \<Rightarrow> int \<Rightarrow> int \<Rightarrow> 'w \<times> int \<times> int"
  vfs_getattr :: "'w \<Rightarrow> nat \<Rightarrow> 'w \<times> int \<times> kstat"
  vfs_stat :: "'w \<Rightarrow> string \<Rightarrow> 'w \<times> int \<times> kstat"
  filp_open :: "'w \<Rightarrow> string \<Rightarrow> u32 \<Rightarrow> u32 \<Rightarrow> 'w \<times> (int + nat \<times> u32)"
  filp_flush :: "'w \<Rightarrow> nat \<Rightarrow> 'w \<times> int"
  get_unused_fd_flags :: "'w \<Rightarrow> u32 \<Rightarrow> 'w \<times> int"

definition filp_close :: "'w vfs \<Rightarrow> 'w kport \<Rightarrow> nat \<Rightarrow> 'w kport \<times> int" where
  "filp_close v s fp =
     (let (w, ret) = filp_flush v (world s) fp in (fput (s\<lparr>world := w\<rparr>) fp, ret))"

section \<open>The code\<close>

definition copy_stat :: "kstat \<Rightarrow> ustat" where
  "copy_stat ks =
     (case ks_times ks of ((a, an), (m, mn), (c, cn)) \<Rightarrow>
        \<lparr>st_dev = ks_dev ks, st_ino = ks_ino ks, st_mode = ks_mode ks, st_nlink = ks_nlink ks,
         st_uid = ks_uid ks, st_gid = ks_gid ks, st_rdev = ks_rdev ks, st_size = ks_size ks,
         st_blksize = ks_blksize ks, st_blocks = ks_blocks ks,
         st_time = (a, m, c), st_time_nsec = (an, mn, cn)\<rparr>)"

definition kstat_path :: "'w vfs \<Rightarrow> 'w kport \<Rightarrow> string \<Rightarrow> ustat \<Rightarrow> 'w kport \<times> int \<times> ustat" where
  "kstat_path v s path st =
     (let (w, res, ks) = vfs_stat v (world s) path; s1 = s\<lparr>world := w\<rparr> in
      if res = 0 then (s1, res, copy_stat ks) else (s1\<lparr>errno := - res\<rparr>, res, st))"

definition kfstat :: "'w vfs \<Rightarrow> 'w kport \<Rightarrow> nat \<Rightarrow> ustat \<Rightarrow> ('w kport \<times> int \<times> ustat) option" where
  "kfstat v s fd st =
     (case fdget_raw s fd of
        None \<Rightarrow> None
      | Some (s1, fp, put) \<Rightarrow>
          if fp = 0 then Some (s1\<lparr>errno := EBADF\<rparr>, - EBADF, st)
          else (let (w, error, ks) = vfs_getattr v (world s1) fp;
                    s2 = fdput (s1\<lparr>world := w\<rparr>) (fp, put)
                in if error = 0 then Some (s2, error, copy_stat ks)
                   else Some (s2\<lparr>errno := - error\<rparr>, error, st)))"

definition file_pos_write :: "'w kport \<Rightarrow> nat \<Rightarrow> int \<Rightarrow> 'w kport" where
  "file_pos_write s fp pos = set_file s fp ((the_file s fp)\<lparr>f_pos := pos\<rparr>)"

definition set_errno :: "'w kport \<Rightarrow> int \<Rightarrow> 'w kport" where
  "set_errno s ret = (if ret < 0 then s\<lparr>errno := - ret\<rparr> else s)"

definition kread :: "'w vfs \<Rightarrow> 'w kport \<Rightarrow> nat \<Rightarrow> nat \<Rightarrow> ('w kport \<times> int \<times> byte list) option" where
  "kread v s fd count =
     (case fdget_pos s fd of
        None \<Rightarrow> None
      | Some (s1, fp, put, unl) \<Rightarrow>
          if fp = 0 then Some (set_errno s1 (- EBADF), - EBADF, [])
          else (let (w, ret, buf, pos) = vfs_read v (world s1) fp count (f_pos (the_file s1 fp));
                    s2 = s1\<lparr>world := w\<rparr>;
                    s3 = (if ret \<ge> 0 then file_pos_write s2 fp pos else s2)
                in Some (set_errno (fdput_pos s3 (fp, put, unl)) ret, ret, buf)))"

definition kwrite :: "'w vfs \<Rightarrow> 'w kport \<Rightarrow> nat \<Rightarrow> byte list \<Rightarrow> ('w kport \<times> int) option" where
  "kwrite v s fd buf =
     (case fdget_pos s fd of
        None \<Rightarrow> None
      | Some (s1, fp, put, unl) \<Rightarrow>
          if fp = 0 then Some (set_errno s1 (- EBADF), - EBADF)
          else (let (w, ret, pos) = vfs_write v (world s1) fp buf (f_pos (the_file s1 fp));
                    s2 = s1\<lparr>world := w\<rparr>;
                    s3 = (if ret \<ge> 0 then file_pos_write s2 fp pos else s2)
                in Some (set_errno (fdput_pos s3 (fp, put, unl)) ret, ret)))"

definition kpread :: "'w vfs \<Rightarrow> 'w kport \<Rightarrow> nat \<Rightarrow> nat \<Rightarrow> int \<Rightarrow> ('w kport \<times> int \<times> byte list) option" where
  "kpread v s fd count pos =
     (if pos < 0 then Some (s\<lparr>errno := EINVAL\<rparr>, - EINVAL, [])
      else (case fdget s fd of
              None \<Rightarrow> None
            | Some (s1, fp, put) \<Rightarrow>
                if fp = 0 then Some (set_errno s1 (- EBADF), - EBADF, [])
                else if f_mode (the_file s1 fp) AND FMODE_PREAD = 0
                then Some (set_errno (fdput s1 (fp, put)) (- ESPIPE), - ESPIPE, [])
                else (let (w, ret, buf, pos') = vfs_read v (world s1) fp count pos
                      in Some (set_errno (fdput (s1\<lparr>world := w\<rparr>) (fp, put)) ret, ret, buf))))"

definition kpwrite :: "'w vfs \<Rightarrow> 'w kport \<Rightarrow> nat \<Rightarrow> byte list \<Rightarrow> int \<Rightarrow> ('w kport \<times> int) option" where
  "kpwrite v s fd buf pos =
     (if pos < 0 then Some (s\<lparr>errno := EINVAL\<rparr>, - EINVAL)
      else (case fdget s fd of
              None \<Rightarrow> None
            | Some (s1, fp, put) \<Rightarrow>
                if fp = 0 then Some (set_errno s1 (- EBADF), - EBADF)
                else if f_mode (the_file s1 fp) AND FMODE_PWRITE = 0
                then Some (set_errno (fdput s1 (fp, put)) (- ESPIPE), - ESPIPE)
                else (let (w, ret, pos') = vfs_write v (world s1) fp buf pos
                      in Some (set_errno (fdput (s1\<lparr>world := w\<rparr>) (fp, put)) ret, ret))))"

definition SEEK_MAX :: int where "SEEK_MAX = 4"

definition klseek :: "'w vfs \<Rightarrow> 'w kport \<Rightarrow> nat \<Rightarrow> int \<Rightarrow> int \<Rightarrow> ('w kport \<times> int) option" where
  "klseek v s fd offset whence =
     (case fdget_pos s fd of
        None \<Rightarrow> None
      | Some (s1, fp, put, unl) \<Rightarrow>
          if fp = 0 then Some (s1\<lparr>errno := EBADF\<rparr>, - EBADF)
          else (let (s2, retval) =
                  (if whence \<le> SEEK_MAX then
                     (let (w, res, pos) = vfs_llseek v (world s1) fp (f_pos (the_file s1 fp)) offset whence
                      in (file_pos_write (s1\<lparr>world := w\<rparr>) fp pos, res))
                   else (s1, - EINVAL))
                in Some (set_errno (fdput_pos s2 (fp, put, unl)) retval, retval)))"

text \<open>\<open>fsync\<close> and \<open>fdatasync\<close> differ in the flag they pass.\<close>

definition ksync :: "int \<Rightarrow> 'w vfs \<Rightarrow> 'w kport \<Rightarrow> nat \<Rightarrow> ('w kport \<times> int) option" where
  "ksync dsync v s fd =
     (case fget s fd FMODE_PATH of
        None \<Rightarrow> None
      | Some (s1, fp) \<Rightarrow>
          if fp = 0 then Some (s1\<lparr>errno := EINVAL\<rparr>, -1)
          else (let (w, ret) = vfs_fsync v (world s1) fp dsync;
                    s2 = fput (s1\<lparr>world := w\<rparr>) fp
                in Some (s2\<lparr>errno := - ret\<rparr>, ret)))"

definition kfsync where "kfsync = ksync 0"
definition kfdatasync where "kfdatasync = ksync 1"

definition kclose :: "'w vfs \<Rightarrow> 'w kport \<Rightarrow> nat \<Rightarrow> 'w kport \<times> int" where
  "kclose v s fd =
     (let (s1, fp) = uninstall_file s fd in
      if fp = 0 then (s1\<lparr>errno := EBADF\<rparr>, - EBADF)
      else (let (s2, ret) = filp_close v s1 fp in (set_errno s2 ret, ret)))"

text \<open>\<open>open\<close> first reserves a descriptor of the calling task, which nothing ever gives back.\<close>

definition kopen :: "'w vfs \<Rightarrow> 'w kport \<Rightarrow> string \<Rightarrow> u32 \<Rightarrow> u32 \<Rightarrow> 'w kport \<times> int" where
  "kopen v s path flags mode =
     (let (w0, ufd) = get_unused_fd_flags v (world s) flags;
          s0 = s\<lparr>world := w0, task_fds := (if ufd \<ge> 0 then task_fds s + 1 else task_fds s)\<rparr>;
          (w1, f) = filp_open v (world s0) path flags mode;
          s1 = s0\<lparr>world := w1\<rparr>;
          (s4, fd) =
            (case f of
               Inl e \<Rightarrow> (s1, e)
             | Inr (fp, md) \<Rightarrow>
                 (let s2 = set_file s1 fp \<lparr>f_mode = md, f_pos = 0, f_count = 1, f_locked = False\<rparr>;
                      (s3, d) = install_file s2 fp
                  in if d = -1 then (fst (filp_close v s3 fp), - EMFILE) else (s3, d)))
      in (set_errno s4 fd, fd))"

section \<open>Directory streams\<close>

record dirent =
  d_ino :: u64
  d_off :: int
  d_reclen :: nat
  d_type :: nat
  d_name :: "byte list"

record dirstream =
  dir_fd :: int
  dir_ent :: dirent

definition O_DIRFLAGS :: u32 where "O_DIRFLAGS = 0x800 OR 0x10000 OR 0x80000"

definition opendir :: "'w vfs \<Rightarrow> 'w kport \<Rightarrow> dirstream option \<Rightarrow> string \<Rightarrow> 'w kport \<times> dirstream option" where
  "opendir v s mem path =
     (case mem of
        None \<Rightarrow> (s\<lparr>errno := ENOMEM\<rparr>, None)
      | Some d \<Rightarrow>
          (let (s1, fd) = kopen v s path O_DIRFLAGS 0x1B6 in
           if fd \<le> 0 then (s1\<lparr>errno := - fd\<rparr>, None) else (s1, Some (d\<lparr>dir_fd := fd\<rparr>))))"

definition closedir :: "'w vfs \<Rightarrow> 'w kport \<Rightarrow> dirstream \<Rightarrow> 'w kport \<times> int" where
  "closedir v s d = (fst (kclose v s (nat (dir_fd d))), 0)"

text \<open>
  The actor of \<open>readdir\<close> keeps the first entry it is offered and refuses the next.  \<open>strncpy\<close>
  copies up to the first NUL and pads with zeros; nothing compares the length with the 256
  bytes of \<open>d_name\<close>, and a longer name overwrites what follows it.
\<close>

definition align8 :: "nat \<Rightarrow> nat" where
  "align8 n = (n + 7) div 8 * 8"

definition strncpy_bytes :: "byte list \<Rightarrow> nat \<Rightarrow> byte list" where
  "strncpy_bytes name n =
     (let c = take n (takeWhile (\<lambda>b. b \<noteq> 0) name) in c @ replicate (n - length c) 0)"

definition fillone :: "nat \<times> dirent \<Rightarrow> byte list \<Rightarrow> nat \<Rightarrow> int \<Rightarrow> u64 \<Rightarrow> nat \<Rightarrow> (nat \<times> dirent) \<times> int" where
  "fillone cb name namlen offset ino dtype =
     (let (count, de) = cb; reclen = align8 (19 + namlen + 1) in
      if count \<noteq> 0 then (cb, - EINVAL)
      else ((count + 1,
             de\<lparr>d_ino := ino, d_off := 0, d_reclen := reclen, d_type := dtype,
                d_name := buf_write 0 (strncpy_bytes name namlen @ [0]) (d_name de)\<rparr>), 0))"

text \<open>
  \<open>iterate_dir\<close> is a parameter: from the position of the file it offers entries to the actor until
  the actor refuses one, and returns its code and the position it stopped at.
\<close>

type_synonym actor = "nat \<times> dirent \<Rightarrow> byte list \<Rightarrow> nat \<Rightarrow> int \<Rightarrow> u64 \<Rightarrow> nat \<Rightarrow> (nat \<times> dirent) \<times> int"
type_synonym 'w iterate = "'w \<Rightarrow> nat \<Rightarrow> int \<Rightarrow> actor \<Rightarrow> nat \<times> dirent \<Rightarrow> 'w \<times> int \<times> int \<times> (nat \<times> dirent)"

definition readdir :: "'w iterate \<Rightarrow> 'w kport \<Rightarrow> dirstream \<Rightarrow> ('w kport \<times> dirstream \<times> dirent option) option" where
  "readdir it s d =
     (case fdget_pos s (nat (dir_fd d)) of
        None \<Rightarrow> None
      | Some (s1, fp, put, unl) \<Rightarrow>
          if fp = 0 then Some (s1, d, None)
          else (let (w, ret, pos, (count, de)) = it (world s1) fp (f_pos (the_file s1 fp)) fillone (0, dir_ent d);
                    s2 = set_errno (file_pos_write (s1\<lparr>world := w\<rparr>) fp pos) ret;
                    s3 = fdput_pos s2 (fp, put, unl)
                in if count \<noteq> 0
                   then (let de' = de\<lparr>d_off := pos\<rparr> in Some (s3, d\<lparr>dir_ent := de'\<rparr>, Some de'))
                   else Some (s3, d\<lparr>dir_ent := de\<rparr>, None)))"

section \<open>Taking and releasing a descriptor\<close>

text \<open>
  A usable descriptor: the table holds a file with a reference that is not a path handle.  The
  lemmas say what \<open>_fdget_pos\<close> hands to the call and that \<open>_fdput_pos\<close> undoes it, on both
  branches of \<open>__fget_light\<close>.
\<close>

definition usable :: "'w kport \<Rightarrow> nat \<Rightarrow> nat \<Rightarrow> kfile \<Rightarrow> bool" where
  "usable s fd p f \<longleftrightarrow> files_ok s \<and> fd < 1024 \<and> open_map s fd = Some p \<and> files s p = Some f
     \<and> f_mode f AND FMODE_PATH = 0 \<and> \<not> f_locked f"

lemma usableD:
  assumes "usable s fd p f"
  shows "get_file s fd = p" "p \<noteq> 0" "the_file s p = f" "0 < f_count f" "f_mode f AND FMODE_PATH = 0"
    "files_ok s" "fd < 1024" "open_map s fd = Some p" "files s p = Some f" "\<not> f_locked f"
  using assms by (auto simp: usable_def get_file_map the_file_def open_map_def files_ok_def split: if_splits)

lemma fget_light_usable:
  assumes "usable s fd p f"
  shows "\<exists>put. fget_light s fd FMODE_PATH
    = Some (set_file s p (f\<lparr>f_count := f_count f + (if put then 1 else 0)\<rparr>), p, put)"
proof (cases "files_count s = 1")
  case True
  have "s = set_file s p (f\<lparr>f_count := f_count f + (if False then 1 else 0)\<rparr>)"
    using usableD(9) [OF assms] by (simp add: set_file_def fun_upd_idem)
  then show ?thesis using True usableD [OF assms] by (intro exI [of _ False]) (simp add: fget_light_def)
next
  case False
  then show ?thesis using usableD [OF assms] fget_returns [of s fd FMODE_PATH]
    by (intro exI [of _ True]) (simp add: fget_light_def)
qed

lemma fdget_pos_usable:
  assumes "usable s fd p f"
  shows "\<exists>put unl. fdget_pos s fd
    = Some (set_file s p (f\<lparr>f_count := f_count f + (if put then 1 else 0), f_locked := unl\<rparr>), p, put, unl)"
proof -
  obtain put where g: "fget_light s fd FMODE_PATH
      = Some (set_file s p (f\<lparr>f_count := f_count f + (if put then 1 else 0)\<rparr>), p, put)"
    using fget_light_usable [OF assms] by blast
  obtain m q n where f: "f = \<lparr>f_mode = m, f_pos = q, f_count = n, f_locked = False\<rparr>"
    using usableD(10) [OF assms] by (cases f) auto
  define c where "c = f_count f + (if put then 1 else 0 :: nat)"
  let ?u = "f_mode f AND FMODE_ATOMIC_POS \<noteq> 0 \<and> c > 1"
  have "fdget_pos s fd = Some (set_file s p (f\<lparr>f_count := c, f_locked := ?u\<rparr>), p, put, ?u)"
    using usableD(2) [OF assms] unfolding fdget_pos_def g c_def [symmetric]
    by (cases "m AND FMODE_ATOMIC_POS = 0"; cases "c > 1") (simp_all add: set_file_def the_file_def f del: One_nat_def)
  then show ?thesis unfolding c_def by blast
qed

lemma fdput_pos_undo:
  assumes "0 < f_count f" "\<not> f_locked f"
  shows "fdput_pos (set_file s p (f\<lparr>f_count := f_count f + (if put then 1 else 0), f_locked := unl\<rparr>)) (p, put, unl)
    = set_file s p f"
  using assms
  by (cases f) (auto simp: fdput_pos_def f_unlock_pos_def fdput_def fput_def set_file_def the_file_def Let_def)

lemma fdput_undo:
  assumes "0 < f_count f"
  shows "fdput (set_file s p (f\<lparr>f_count := f_count f + (if put then 1 else 0)\<rparr>)) (p, put) = set_file s p f"
  using assms by (auto simp: fdput_def fput_def set_file_def the_file_def Let_def)

lemma set_file_world [simp]: "(set_file s p f)\<lparr>world := w\<rparr> = set_file (s\<lparr>world := w\<rparr>) p f"
  by (simp add: set_file_def)

lemma set_file_twice [simp]: "set_file (set_file s p f) p g = set_file s p g"
  by (simp add: set_file_def)

lemma file_pos_write_set [simp]: "file_pos_write (set_file s p f) p pos = set_file s p (f\<lparr>f_pos := pos\<rparr>)"
  by (simp add: file_pos_write_def)

lemma fdput_pos_written:
  assumes "0 < f_count f" "\<not> f_locked f"
  shows "fdput_pos (set_file s p (f\<lparr>f_count := f_count f + (if put then 1 else 0), f_locked := unl, f_pos := q\<rparr>)) (p, put, unl)
    = set_file s p (f\<lparr>f_pos := q\<rparr>)"
proof -
  have "0 < f_count (f\<lparr>f_pos := q\<rparr>)" "\<not> f_locked (f\<lparr>f_pos := q\<rparr>)" using assms by simp_all
  from fdput_pos_undo [OF this, of s p unl put] show ?thesis by (cases f) simp
qed

text \<open>\<open>transfer\<close> is the effect of a call that moves the position on success.\<close>

definition transfer :: "'w kport \<Rightarrow> nat \<Rightarrow> kfile \<Rightarrow> 'w \<Rightarrow> int \<Rightarrow> int \<Rightarrow> 'w kport" where
  "transfer s p f w ret pos =
     set_errno (set_file (s\<lparr>world := w\<rparr>) p (if 0 \<le> ret then f\<lparr>f_pos := pos\<rparr> else f)) ret"

lemma kread_effect:
  assumes "usable s fd p f" "vfs_read v (world s) p n (f_pos f) = (w, ret, buf, pos)"
  shows "kread v s fd n = Some (transfer s p f w ret pos, ret, buf)"
proof -
  obtain put unl where g: "fdget_pos s fd
    = Some (set_file s p (f\<lparr>f_count := f_count f + (if put then 1 else 0), f_locked := unl\<rparr>), p, put, unl)"
    using fdget_pos_usable [OF assms(1)] by blast
  show ?thesis
    using usableD [OF assms(1)] assms(2) unfolding kread_def g
    by (simp add: Let_def fdput_pos_written fdput_pos_undo transfer_def)
qed

lemma kwrite_effect:
  assumes "usable s fd p f" "vfs_write v (world s) p buf (f_pos f) = (w, ret, pos)"
  shows "kwrite v s fd buf = Some (transfer s p f w ret pos, ret)"
proof -
  obtain put unl where g: "fdget_pos s fd
    = Some (set_file s p (f\<lparr>f_count := f_count f + (if put then 1 else 0), f_locked := unl\<rparr>), p, put, unl)"
    using fdget_pos_usable [OF assms(1)] by blast
  show ?thesis
    using usableD [OF assms(1)] assms(2) unfolding kwrite_def g
    by (simp add: Let_def fdput_pos_written fdput_pos_undo transfer_def)
qed

lemma same_file: "usable s fd p f \<Longrightarrow> set_file (s\<lparr>world := w\<rparr>) p f = s\<lparr>world := w\<rparr>"
  using usableD(9) [of s fd p f] by (simp add: set_file_def fun_upd_idem)

lemma kpread_effect:
  assumes "usable s fd p f" "0 \<le> pos" "f_mode f AND FMODE_PREAD \<noteq> 0"
    and "vfs_read v (world s) p n pos = (w, ret, buf, pos')"
  shows "kpread v s fd n pos = Some (set_errno (s\<lparr>world := w\<rparr>) ret, ret, buf)"
proof -
  obtain put where g: "fget_light s fd FMODE_PATH
      = Some (set_file s p (f\<lparr>f_count := f_count f + (if put then 1 else 0)\<rparr>), p, put)"
    using fget_light_usable [OF assms(1)] by blast
  show ?thesis
    using usableD [OF assms(1)] assms(2-) same_file [OF assms(1), of w] unfolding kpread_def fdget_def g
    by (simp add: Let_def fdput_undo)
qed

lemma kpwrite_effect:
  assumes "usable s fd p f" "0 \<le> pos" "f_mode f AND FMODE_PWRITE \<noteq> 0"
    and "vfs_write v (world s) p buf pos = (w, ret, pos')"
  shows "kpwrite v s fd buf pos = Some (set_errno (s\<lparr>world := w\<rparr>) ret, ret)"
proof -
  obtain put where g: "fget_light s fd FMODE_PATH
      = Some (set_file s p (f\<lparr>f_count := f_count f + (if put then 1 else 0)\<rparr>), p, put)"
    using fget_light_usable [OF assms(1)] by blast
  show ?thesis
    using usableD [OF assms(1)] assms(2-) same_file [OF assms(1), of w] unfolding kpwrite_def fdget_def g
    by (simp add: Let_def fdput_undo)
qed

section \<open>Open and close\<close>

lemma set_errno_simps [simp]:
  "ftable (set_errno s r) = ftable s" "next_free (set_errno s r) = next_free s"
  "free_head (set_errno s r) = free_head s" "files (set_errno s r) = files s"
  "task_fds (set_errno s r) = task_fds s" "world (set_errno s r) = world s"
  "files_count (set_errno s r) = files_count s"
  by (simp_all add: set_errno_def)

lemma fput_simps [simp]:
  "ftable (fput s p) = ftable s" "next_free (fput s p) = next_free s" "free_head (fput s p) = free_head s"
  "task_fds (fput s p) = task_fds s" "files_count (fput s p) = files_count s"
  by (simp_all add: fput_def Let_def)

lemma install_file_other [simp]:
  "files (fst (install_file s p)) = files s" "task_fds (fst (install_file s p)) = task_fds s"
  "world (fst (install_file s p)) = world s"
  by (auto simp: install_file_def Let_def)

lemma uninstall_file_other [simp]:
  "files (fst (uninstall_file s p)) = files s" "task_fds (fst (uninstall_file s p)) = task_fds s"
  by (auto simp: uninstall_file_def Let_def)

lemma kclose_spec:
  assumes "table_ok s" "fd \<in> {3..<1024}" "kclose v s fd = (s', r)"
  shows "table_ok s' \<and> open_map s' = (open_map s)(fd := None)
    \<and> (open_map s fd = None \<longrightarrow> r = - EBADF \<and> files s' = files s) \<and> task_fds s' = task_fds s"
proof -
  obtain s1 fp where u: "uninstall_file s fd = (s1, fp)" by (cases "uninstall_file s fd")
  have sp: "fp = (case open_map s fd of None \<Rightarrow> 0 | Some p \<Rightarrow> p)" "table_ok s1" "open_map s1 = (open_map s)(fd := None)"
    using kp.uninstall [OF assms(1,2) u] by auto
  have o: "files s1 = files s" "task_fds s1 = task_fds s"
    using uninstall_file_other [of s fd] u by simp_all
  have nz: "open_map s fd = Some p \<Longrightarrow> p \<noteq> 0" for p by (auto simp: open_map_def split: if_splits)
  have t: "ftable s' = ftable s1" "next_free s' = next_free s1" "free_head s' = free_head s1"
    "task_fds s' = task_fds s1" "fp = 0 \<longrightarrow> r = - EBADF \<and> files s' = files s1"
    using assms(3) u by (auto simp: kclose_def filp_close_def split: if_splits prod.splits)
  show ?thesis
    using sp o t nz table_ok_cong [OF t(1-3)] open_map_cong [OF t(1)] by (auto split: option.splits)
qed

lemma kopen_spec:
  assumes ok: "table_ok s"
    and u: "get_unused_fd_flags v (world s) flags = (w0, ufd)"
    and fo: "filp_open v w0 path flags mode = (w1, Inr (fp, md))" "1024 \<le> fp"
    and run: "kopen v s path flags mode = (s', r)"
  shows "table_ok s' \<and> task_fds s' = task_fds s + (if ufd \<ge> 0 then 1 else 0)
    \<and> (if dom (open_map s) = {3..<1024} then r = - EMFILE \<and> open_map s' = open_map s
        else \<exists>fd\<in>{3..<1024}. r = int fd \<and> open_map s fd = None \<and> open_map s' = (open_map s)(fd \<mapsto> fp)
           \<and> files s' fp = Some \<lparr>f_mode = md, f_pos = 0, f_count = 1, f_locked = False\<rparr>)"
proof -
  define f where "f = \<lparr>f_mode = md, f_pos = 0, f_count = 1, f_locked = False\<rparr>"
  define s2 where "s2 = set_file (s\<lparr>task_fds := (if ufd \<ge> 0 then task_fds s + 1 else task_fds s), world := w1\<rparr>) fp f"
  obtain s3 d where ins: "install_file s2 fp = (s3, d)" by (cases "install_file s2 fp")
  have c: "ftable s2 = ftable s" "next_free s2 = next_free s" "free_head s2 = free_head s"
    "task_fds s2 = task_fds s + (if ufd \<ge> 0 then 1 else 0)" "files s2 fp = Some f"
    by (simp_all add: s2_def)
  have ok2: "table_ok s2" "open_map s2 = open_map s"
    using ok table_ok_cong [OF c(1-3)] open_map_cong [OF c(1)] by simp_all
  have res: "(s', r) = (if d = -1 then (set_errno (fst (filp_close v s3 fp)) (- EMFILE), - EMFILE) else (set_errno s3 d, d))"
    using run ins unfolding kopen_def u fo(1) f_def s2_def Let_def
    by (auto simp: u fo(1) split: if_splits)
  have o3: "files s3 = files s2" "task_fds s3 = task_fds s2"
    using install_file_other [of s2 fp] ins by simp_all
  show ?thesis
  proof (cases "dom (open_map s) = {3..<1024}")
    case True
    then have d: "d = -1" "s3 = s2" using kp.install [OF ok2(1) fo(2) ins] ok2(2) by (auto split: if_splits)
    then have t: "ftable s' = ftable s" "next_free s' = next_free s" "free_head s' = free_head s"
      "task_fds s' = task_fds s2" "r = - EMFILE"
      using res c by (auto simp: filp_close_def split: prod.splits)
    show ?thesis using True t ok c(4) table_ok_cong [OF t(1-3)] open_map_cong [OF t(1)] by simp
  next
    case False
    then obtain fd where fd: "fd \<in> {3..<1024}" "d = int fd" "open_map s fd = None"
        "open_map s3 = (open_map s)(fd \<mapsto> fp)" "table_ok s3"
      using kp.install [OF ok2(1) fo(2) ins] ok2(2) by auto
    then have s': "s' = s3" "r = int fd" using res by (auto simp: set_errno_def)
    show ?thesis using False fd o3 c(4,5) unfolding s' f_def by auto
  qed
qed

section \<open>Reading directories\<close>

text \<open>
  What \<open>iterate_dir\<close> documents of a file system: it offers the entries from the current position in
  order; the position stays at an entry that the actor refuses and moves past one it takes.
  An entry here is its name, inode number, type and the position after it.
\<close>

type_synonym entry = "byte list \<times> u64 \<times> nat \<times> int"

fun feed :: "entry list \<Rightarrow> int \<Rightarrow> actor \<Rightarrow> nat \<times> dirent \<Rightarrow> int \<times> (nat \<times> dirent)" where
  "feed [] pos act cb = (pos, cb)"
| "feed ((name, ino, dt, nxt) # es) pos act cb =
     (let (cb', r) = act cb name (length name) pos ino dt in
      if r \<noteq> 0 then (pos, cb') else feed es nxt act cb')"

lemma feed_first:
  "feed (e # es) pos fillone (0, de) =
    (snd (snd (snd e)), fst (fillone (0, de) (fst e) (length (fst e)) pos (fst (snd e)) (fst (snd (snd e)))))"
proof -
  obtain name ino dt nxt where e: "e = (name, ino, dt, nxt)" by (cases e)
  have stop: "feed es nxt fillone (Suc 0, de') = (nxt, Suc 0, de')" for de'
    by (cases es) (auto simp: fillone_def Let_def)
  show ?thesis by (simp add: e fillone_def Let_def stop)
qed

lemma readdir_next:
  assumes use: "usable s (nat (dir_fd d)) p f"
    and it: "it (world s) p (f_pos f) fillone (0, dir_ent d)
      = (let (pos, cb) = feed es (f_pos f) fillone (0, dir_ent d) in (w, 0, pos, cb))"
  shows "case es of
      [] \<Rightarrow> readdir it s d = Some (s\<lparr>world := w\<rparr>, d, None)
    | (name, ino, dt, nxt) # es' \<Rightarrow> \<exists>de. readdir it s d
        = Some (set_file (s\<lparr>world := w\<rparr>) p (f\<lparr>f_pos := nxt\<rparr>), d\<lparr>dir_ent := de\<rparr>, Some de)
        \<and> d_ino de = ino \<and> d_type de = dt \<and> d_off de = nxt
        \<and> d_name de = buf_write 0 (strncpy_bytes name (length name) @ [0]) (d_name (dir_ent d))"
proof -
  obtain put unl where g: "fdget_pos s (nat (dir_fd d))
    = Some (set_file s p (f\<lparr>f_count := f_count f + (if put then 1 else 0), f_locked := unl\<rparr>), p, put, unl)"
    using fdget_pos_usable [OF use] by blast
  note u = usableD [OF use]
  show ?thesis
  proof (cases es)
    case Nil
    have "set_file (s\<lparr>world := w\<rparr>) p (f\<lparr>f_pos := f_pos f\<rparr>) = s\<lparr>world := w\<rparr>"
      using same_file [OF use, of w] by simp
    then show ?thesis using Nil it u unfolding readdir_def g
      by (simp add: Let_def set_errno_def fdput_pos_written fdput_pos_undo)
  next
    case (Cons e es')
    obtain name ino dt nxt where e: "e = (name, ino, dt, nxt)" by (cases e)
    show ?thesis using Cons e it u unfolding readdir_def g
      by (simp add: Let_def set_errno_def fdput_pos_written feed_first fillone_def)
  qed
qed

section \<open>A concrete VFS\<close>

text \<open>One file kept as a byte list, at the address 5000, open on descriptor 3.\<close>

definition mem_vfs :: "byte list vfs" where
  "mem_vfs =
     \<lparr>vfs_read = (\<lambda>w p n pos. let c = buf_read (nat pos) n w in (w, int (length c), c, pos + int (length c))),
      vfs_write = (\<lambda>w p buf pos. (buf_write (nat pos) buf w, int (length buf), pos + int (length buf))),
      vfs_fsync = (\<lambda>w p d. (w, 0)),
      vfs_llseek = (\<lambda>w p cur off wh. (w, off, off)),
      vfs_getattr = (\<lambda>w p. (w, -5, \<lparr>ks_dev = 0, ks_ino = 0, ks_mode = 0, ks_nlink = 0, ks_uid = 0, ks_gid = 0,
         ks_rdev = 0, ks_size = 0, ks_blksize = 0, ks_blocks = 0, ks_times = ((0, 0), (0, 0), (0, 0))\<rparr>)),
      vfs_stat = (\<lambda>w p. (w, -2, \<lparr>ks_dev = 0, ks_ino = 0, ks_mode = 0, ks_nlink = 0, ks_uid = 0, ks_gid = 0,
         ks_rdev = 0, ks_size = 0, ks_blksize = 0, ks_blocks = 0, ks_times = ((0, 0), (0, 0), (0, 0))\<rparr>)),
      filp_open = (\<lambda>w path fl md. (w, Inr (6000, 0x1B))),
      filp_flush = (\<lambda>w p. (w, 0)),
      get_unused_fd_flags = (\<lambda>w fl. (w, 7))\<rparr>"

definition mem_file :: kfile where
  "mem_file = \<lparr>f_mode = 0x801B, f_pos = 1, f_count = 1, f_locked = False\<rparr>"

definition mem_kport :: "byte list kport" where
  "mem_kport =
     \<lparr>ftable = (replicate 1024 0)[3 := 5000], next_free = 4, free_head = 0,
      files = [5000 \<mapsto> mem_file], files_count = 2, task_fds = 0, errno = 0, world = [10, 11, 12, 13]\<rparr>"

lemma mem_table:
  "fd < 1024 \<Longrightarrow> ftable mem_kport ! fd = (if fd = 3 then 5000 else 0)" "length (ftable mem_kport) = 1024"
  by (auto simp: mem_kport_def nth_list_update)

lemma mem_open_map: "open_map mem_kport = [3 \<mapsto> 5000]"
  by (auto simp: open_map_def fun_eq_iff mem_table split: if_splits)

lemma mem_kport_ok: "table_ok mem_kport"
proof -
  have n: "next_free mem_kport = 4" "free_head mem_kport = 0" by (simp_all add: mem_kport_def)
  have "\<not> (3 \<le> fd \<and> fd < 4 \<and> ftable mem_kport ! fd < 1024)" for fd
  proof
    assume a: "3 \<le> fd \<and> fd < 4 \<and> ftable mem_kport ! fd < 1024"
    then have "fd = 3" by linarith
    then have "ftable mem_kport ! fd = 5000" using mem_table(1) [of 3] by simp
    then show False using a by linarith
  qed
  then show ?thesis unfolding table_ok_def n by (auto simp: mem_table intro!: exI [of _ "[]"])
qed

lemma mem_vfs_open:
  "get_unused_fd_flags mem_vfs (world mem_kport) 0 = (world mem_kport, 7)"
  "filp_open mem_vfs (world mem_kport) ''x'' 0 0 = (world mem_kport, Inr (6000, 0x1B))"
  by (simp_all add: mem_vfs_def)

lemma mem_kport_usable: "usable mem_kport 3 5000 mem_file"
  unfolding usable_def mem_open_map files_ok_def
  by (auto simp: mem_table) (auto simp: mem_kport_def mem_file_def FMODE_PATH_def)

section \<open>Properties\<close>

text \<open>C27: \<open>open\<close> of a file that the VFS opens binds it to a descriptor between 3 and 1023 that
  was free, at position 0 with one reference; only a table with all 1021 descriptors open gives
  \<open>EMFILE\<close>, and the file is closed again.\<close>

theorem open_binds_fresh_descriptor:
  assumes "table_ok s" "get_unused_fd_flags v (world s) flags = (w0, ufd)"
    and "filp_open v w0 path flags mode = (w1, Inr (fp, md))" "1024 \<le> fp"
    and "kopen v s path flags mode = (s', r)"
  shows "table_ok s'
    \<and> (if dom (open_map s) = {3..<1024} then r = - EMFILE \<and> open_map s' = open_map s
       else \<exists>fd\<in>{3..<1024}. r = int fd \<and> open_map s fd = None \<and> open_map s' = (open_map s)(fd \<mapsto> fp)
           \<and> files s' fp = Some \<lparr>f_mode = md, f_pos = 0, f_count = 1, f_locked = False\<rparr>)"
  using kopen_spec [OF assms] by blast

theorem open_binds_fresh_descriptor_witness:
  "\<exists>s' r. kopen mem_vfs mem_kport ''x'' 0 0 = (s', r) \<and> table_ok s' \<and> dom (open_map s') \<noteq> dom (open_map mem_kport)"
proof -
  obtain s' r where run: "kopen mem_vfs mem_kport ''x'' 0 0 = (s', r)" by (cases "kopen mem_vfs mem_kport ''x'' 0 0")
  have nf: "dom (open_map mem_kport) \<noteq> {3..<1024}"
  proof
    assume "dom (open_map mem_kport) = {3..<1024}"
    then have "4 \<in> dom (open_map mem_kport)" by simp
    then show False by (simp add: mem_open_map)
  qed
  have "table_ok s' \<and> (\<exists>fd\<in>{3..<1024}. open_map mem_kport fd = None \<and> open_map s' = (open_map mem_kport)(fd \<mapsto> 6000))"
    using open_binds_fresh_descriptor [OF mem_kport_ok mem_vfs_open _ run] nf by auto
  then obtain fd where fd: "table_ok s'" "open_map mem_kport fd = None" "open_map s' = (open_map mem_kport)(fd \<mapsto> 6000)"
    by blast
  then have "fd \<in> dom (open_map s')" "fd \<notin> dom (open_map mem_kport)" by auto
  then show ?thesis using run fd(1) by metis
qed

text \<open>Opening a file and closing it again gives the descriptor table back as it was, but
  the descriptor that \<open>open\<close> reserved in the calling task is still reserved.\<close>

theorem open_close_leaks_task_descriptor:
  assumes "table_ok s" "get_unused_fd_flags v (world s) flags = (w0, ufd)" "0 \<le> ufd"
    and "filp_open v w0 path flags mode = (w1, Inr (fp, md))" "1024 \<le> fp"
    and "kopen v s path flags mode = (s1, r)" "0 \<le> r" "kclose v s1 (nat r) = (s2, q)"
  shows "table_ok s2 \<and> open_map s2 = open_map s \<and> task_fds s2 = task_fds s + 1"
proof -
  obtain fd where fd: "fd \<in> {3..<1024}" "r = int fd" "open_map s fd = None"
      "open_map s1 = (open_map s)(fd \<mapsto> fp)" "table_ok s1" "task_fds s1 = task_fds s + 1"
    using kopen_spec [OF assms(1,2,4,5,6)] assms(3,7) by (auto split: if_splits)
  have "table_ok s2 \<and> open_map s2 = (open_map s1)(fd := None) \<and> task_fds s2 = task_fds s1"
    using kclose_spec [OF fd(5,1), of v s2 q] assms(8) fd(2) by simp
  then show ?thesis using fd(3,4,6) by auto
qed

theorem open_close_leaks_task_descriptor_witness:
  "\<exists>s1 r s2 q. kopen mem_vfs mem_kport ''x'' 0 0 = (s1, r) \<and> kclose mem_vfs s1 (nat r) = (s2, q)
    \<and> open_map s2 = [3 \<mapsto> 5000] \<and> task_fds s2 = 1"
proof -
  obtain s1 r where run: "kopen mem_vfs mem_kport ''x'' 0 0 = (s1, r)" by (cases "kopen mem_vfs mem_kport ''x'' 0 0")
  obtain s2 q where cl: "kclose mem_vfs s1 (nat r) = (s2, q)" by (cases "kclose mem_vfs s1 (nat r)")
  have r: "0 \<le> r" using run by (auto simp: kopen_def mem_vfs_def install_file_def mem_kport_def)
  have "table_ok s2 \<and> open_map s2 = open_map mem_kport \<and> task_fds s2 = task_fds mem_kport + 1"
    by (rule open_close_leaks_task_descriptor [OF mem_kport_ok mem_vfs_open(1) _ mem_vfs_open(2) _ run r cl]) simp_all
  moreover have "task_fds mem_kport = 0" by (simp add: mem_kport_def)
  ultimately show ?thesis using run cl mem_open_map by (metis add_0)
qed

text \<open>C28: \<open>read\<close> on an open descriptor returns what the VFS reads at the position of the file,
  moves the position only when that succeeded, sets \<open>errno\<close> only when it failed, and leaves the
  reference count and the position lock as they were, whether or not the table is shared.\<close>

theorem read_moves_position:
  assumes "usable s fd p f" "vfs_read v (world s) p n (f_pos f) = (w, ret, buf, pos)"
  shows "kread v s fd n =
    Some ((if 0 \<le> ret then s\<lparr>world := w, files := (files s)(p \<mapsto> f\<lparr>f_pos := pos\<rparr>)\<rparr>
           else s\<lparr>world := w, errno := - ret\<rparr>), ret, buf)"
proof -
  have "(files s)(p \<mapsto> f) = files s" using usableD(9) [OF assms(1)] by (simp add: fun_upd_idem)
  then show ?thesis using kread_effect [OF assms] by (simp add: transfer_def set_errno_def set_file_def)
qed

theorem read_moves_position_witness:
  "\<exists>s'. kread mem_vfs mem_kport 3 2 = Some (s', 2, [11, 12]) \<and> files s' 5000 = Some (mem_file\<lparr>f_pos := 3\<rparr>)"
proof -
  have rd: "vfs_read mem_vfs (world mem_kport) 5000 2 (f_pos mem_file) = (world mem_kport, 2, [11, 12], 3)"
    by (simp add: mem_vfs_def mem_kport_def mem_file_def buf_read_def)
  show ?thesis using read_moves_position [OF mem_kport_usable rd] by simp
qed

text \<open>\<open>pread\<close> and \<open>pwrite\<close> act at the position they are given and change neither the file's
  position nor its references; a file without the mode bit gives \<open>ESPIPE\<close>.\<close>

theorem positional_io_keeps_position:
  assumes "usable s fd p f" "0 \<le> pos" "f_mode f AND FMODE_PREAD \<noteq> 0" "f_mode f AND FMODE_PWRITE \<noteq> 0"
    and "vfs_read v (world s) p n pos = (w, ret, buf, pos')" "vfs_write v (world s) p out pos = (w', ret', pos'')"
  shows "kpread v s fd n pos = Some (set_errno (s\<lparr>world := w\<rparr>) ret, ret, buf)
    \<and> kpwrite v s fd out pos = Some (set_errno (s\<lparr>world := w'\<rparr>) ret', ret')"
  using kpread_effect [OF assms(1-3,5)] kpwrite_effect [OF assms(1,2,4,6)] by blast

theorem positional_io_keeps_position_witness:
  "kpread mem_vfs mem_kport 3 1 2 = Some (mem_kport, 1, [12])
   \<and> kpwrite mem_vfs mem_kport 3 [7] 2 = Some (mem_kport\<lparr>world := [10, 11, 7, 13]\<rparr>, 1)"
proof -
  have "kpread mem_vfs mem_kport 3 1 2 = Some (set_errno (mem_kport\<lparr>world := world mem_kport\<rparr>) 1, 1, [12])
     \<and> kpwrite mem_vfs mem_kport 3 [7] 2 = Some (set_errno (mem_kport\<lparr>world := [10, 11, 7, 13]\<rparr>) 1, 1)"
    by (rule positional_io_keeps_position [OF mem_kport_usable])
      (simp_all add: mem_vfs_def mem_kport_def mem_file_def buf_read_def buf_write_def FMODE_PREAD_def FMODE_PWRITE_def)
  then show ?thesis by (simp add: set_errno_def)
qed

text \<open>Over a file system that offers the entries \<open>es\<close> from the current position,
  \<open>readdir\<close> returns the first of them and leaves the position after it, so that the next call
  starts with the second; at the end of the directory it returns NULL and changes nothing.\<close>

theorem readdir_returns_next_entry:
  assumes "usable s (nat (dir_fd d)) p f"
    and "it (world s) p (f_pos f) fillone (0, dir_ent d)
      = (let (pos, cb) = feed es (f_pos f) fillone (0, dir_ent d) in (w, 0, pos, cb))"
  shows "case es of
      [] \<Rightarrow> readdir it s d = Some (s\<lparr>world := w\<rparr>, d, None)
    | (name, ino, dt, nxt) # es' \<Rightarrow> \<exists>de. readdir it s d
        = Some (set_file (s\<lparr>world := w\<rparr>) p (f\<lparr>f_pos := nxt\<rparr>), d\<lparr>dir_ent := de\<rparr>, Some de)
        \<and> d_ino de = ino \<and> d_type de = dt \<and> d_off de = nxt
        \<and> d_name de = buf_write 0 (strncpy_bytes name (length name) @ [0]) (d_name (dir_ent d))"
  by (rule readdir_next [where s = s and d = d and p = p and f = f and it = it and es = es and w = w, OF assms])

theorem readdir_returns_next_entry_witness:
  "\<exists>s' d'. readdir (\<lambda>w p pos act cb. let (q, cb') = feed [([97], 42, 8, 2), ([98], 43, 8, 3)] pos act cb in (w, 0, q, cb'))
      mem_kport \<lparr>dir_fd = 3, dir_ent = \<lparr>d_ino = 0, d_off = 0, d_reclen = 0, d_type = 0, d_name = replicate 256 0\<rparr>\<rparr>
    = Some (s', d', Some (dir_ent d')) \<and> d_ino (dir_ent d') = 42"
  (is "\<exists>s' d'. readdir ?it ?s ?d = _ \<and> _")
proof -
  have use: "usable ?s (nat (dir_fd ?d)) 5000 mem_file" using mem_kport_usable by simp
  let ?es = "[([97], 42, 8, 2), ([98], 43, 8, 3)] :: entry list"
  have it: "?it (world ?s) 5000 (f_pos mem_file) fillone (0, dir_ent ?d)
      = (let (pos, cb) = feed ?es (f_pos mem_file) fillone (0, dir_ent ?d) in (world ?s, 0, pos, cb))"
    by simp
  show ?thesis
    using readdir_returns_next_entry [where s = ?s and d = ?d and p = 5000 and f = mem_file and it = ?it
        and es = ?es and w = "world ?s", OF use it] by auto
qed

end
