(* ===== verification/Kport_Lock.thy ===== *)
theory Kport_Lock
  imports Kport_Io
begin

text \<open>
  Record locks of the kernel port, \<open>fcntl\<close> and its helpers in \<open>src/db/build_kernel/syscalls.c\<close>: the
  conversion of a \<open>struct flock\<close> to a byte range, the wait for a conflicting lock, and the check
  for a descriptor that was closed meanwhile.  \<open>lockops\<close> holds the VFS calls; \<open>other\<close> is what
  other threads do to the descriptor table while the lock is waited for.
\<close>

section \<open>The code\<close>

abbreviation (input) EAGAIN :: int where "EAGAIN \<equiv> 11"
abbreviation (input) ENOLCK :: int where "ENOLCK \<equiv> 37"
abbreviation (input) EOVERFLOW :: int where "EOVERFLOW \<equiv> 75"

definition OFFSET_MAX :: int where "OFFSET_MAX = 2 ^ 63 - 1"
definition FILE_LOCK_DEFERRED :: int where "FILE_LOCK_DEFERRED = 1"

definition F_RDLCK :: int where "F_RDLCK = 0"
definition F_WRLCK :: int where "F_WRLCK = 1"
definition F_UNLCK :: int where "F_UNLCK = 2"
definition F_SETLK :: int where "F_SETLK = 6"
definition F_SETLKW :: int where "F_SETLKW = 7"
definition F_OFD_SETLK :: int where "F_OFD_SETLK = 37"
definition F_OFD_SETLKW :: int where "F_OFD_SETLKW = 38"

datatype whence = SEEK_SET | SEEK_CUR | SEEK_END | SEEK_OTHER
datatype fl_owner = OwnFiles | OwnFile nat

record flock =
  l_type :: int
  l_whence :: whence
  l_start :: int
  l_len :: int
  l_pid :: int

record file_lock =
  fl_type :: int
  fl_start :: int
  fl_end :: int
  fl_owner :: fl_owner
  fl_pid :: int
  fl_file :: nat
  fl_posix :: bool
  fl_ofdlck :: bool
  fl_sleep :: bool
  fl_next :: "nat option"

definition assign_type :: "file_lock \<Rightarrow> int \<Rightarrow> file_lock \<times> int" where
  "assign_type fl ty =
     (if ty = F_RDLCK \<or> ty = F_WRLCK \<or> ty = F_UNLCK then (fl\<lparr>fl_type := ty\<rparr>, 0) else (fl, - EINVAL))"

text \<open>\<open>pos\<close> and \<open>isize\<close> are the position and the size of the file \<open>filp\<close>.\<close>

definition flock64_to_posix_lock ::
    "nat \<Rightarrow> int \<Rightarrow> int \<Rightarrow> int \<Rightarrow> file_lock \<Rightarrow> flock \<Rightarrow> file_lock \<times> int" where
  "flock64_to_posix_lock filp pos isize tgid fl l =
     (case (case l_whence l of SEEK_SET \<Rightarrow> Some 0 | SEEK_CUR \<Rightarrow> Some pos | SEEK_END \<Rightarrow> Some isize
            | SEEK_OTHER \<Rightarrow> None) of
        None \<Rightarrow> (fl, - EINVAL)
      | Some base \<Rightarrow>
          (let fl1 = fl\<lparr>fl_start := base\<rparr> in
           if l_start l > OFFSET_MAX - fl_start fl1 then (fl1, - EOVERFLOW)
           else (let fl2 = fl1\<lparr>fl_start := fl_start fl1 + l_start l\<rparr> in
             if fl_start fl2 < 0 then (fl2, - EINVAL)
             else if l_len l > 0 \<and> l_len l - 1 > OFFSET_MAX - fl_start fl2 then (fl2, - EOVERFLOW)
             else if l_len l < 0 \<and> fl_start fl2 + l_len l < 0 then (fl2, - EINVAL)
             else (let fl3 =
                 (if l_len l > 0 then fl2\<lparr>fl_end := fl_start fl2 + l_len l - 1\<rparr>
                  else if l_len l < 0
                  then fl2\<lparr>fl_end := fl_start fl2 - 1, fl_start := fl_start fl2 + l_len l\<rparr>
                  else fl2\<lparr>fl_end := OFFSET_MAX\<rparr>)
               in assign_type
                    (fl3\<lparr>fl_owner := OwnFiles, fl_pid := tgid, fl_file := filp, fl_posix := True,
                         fl_ofdlck := False, fl_sleep := False\<rparr>)
                    (l_type l)))))"

definition check_fmode_for_setlk :: "u32 \<Rightarrow> file_lock \<Rightarrow> int" where
  "check_fmode_for_setlk md fl =
     (if fl_type fl = F_RDLCK \<and> md AND FMODE_READ = 0 then - EBADF
      else if fl_type fl = F_WRLCK \<and> md AND FMODE_WRITE = 0 then - EBADF
      else 0)"

definition locks_delete_block :: "file_lock \<Rightarrow> file_lock" where
  "locks_delete_block fl = fl\<lparr>fl_next := None\<rparr>"

record 'w lockops =
  vfs_lock_file :: "'w \<Rightarrow> nat \<Rightarrow> int \<Rightarrow> file_lock \<Rightarrow> 'w \<times> int \<times> file_lock"
  wait_event :: "'w \<Rightarrow> file_lock \<Rightarrow> 'w \<times> int \<times> file_lock"
  i_size :: "'w \<Rightarrow> nat \<Rightarrow> int"
  mandatory :: "'w \<Rightarrow> nat \<Rightarrow> bool"

partial_function (option) do_lock_file_wait ::
    "'w lockops \<Rightarrow> 'w \<Rightarrow> nat \<Rightarrow> int \<Rightarrow> file_lock \<Rightarrow> ('w \<times> int \<times> file_lock) option" where
  "do_lock_file_wait ops w filp cmd fl =
     (case vfs_lock_file ops w filp cmd fl of
        (w1, error, fl1) \<Rightarrow>
          if error \<noteq> FILE_LOCK_DEFERRED then Some (w1, error, fl1)
          else (case wait_event ops w1 fl1 of
                  (w2, e, fl2) \<Rightarrow>
                    if e = 0 then do_lock_file_wait ops w2 filp cmd fl2
                    else Some (w2, e, locks_delete_block fl2)))"

text \<open>The command and the lock after the switch on file-private and waiting locks; None is the error.\<close>

definition setlk_cmd :: "nat \<Rightarrow> int \<Rightarrow> flock \<Rightarrow> file_lock \<Rightarrow> (int \<times> file_lock) option" where
  "setlk_cmd filp cmd flk fl =
     (if cmd = F_OFD_SETLK then
        (if l_pid flk \<noteq> 0 then None
         else Some (F_SETLK, fl\<lparr>fl_ofdlck := True, fl_owner := OwnFile filp\<rparr>))
      else if cmd = F_OFD_SETLKW then
        (if l_pid flk \<noteq> 0 then None
         else Some (F_SETLKW, fl\<lparr>fl_ofdlck := True, fl_owner := OwnFile filp, fl_sleep := True\<rparr>))
      else if cmd = F_SETLKW then Some (cmd, fl\<lparr>fl_sleep := True\<rparr>)
      else Some (cmd, fl))"

definition fcntl_setlk ::
    "'w lockops \<Rightarrow> ('w kport \<Rightarrow> 'w kport) \<Rightarrow> file_lock option \<Rightarrow> int \<Rightarrow> 'w kport \<Rightarrow> nat \<Rightarrow> nat \<Rightarrow> int \<Rightarrow> flock
      \<Rightarrow> ('w kport \<times> int) option" where
  "fcntl_setlk ops other mem tgid s fd filp cmd flk =
     (case mem of
        None \<Rightarrow> Some (s, - ENOLCK)
      | Some fl0 \<Rightarrow>
          if mandatory ops (world s) filp then Some (s, - EAGAIN)
          else (case flock64_to_posix_lock filp (f_pos (the_file s filp)) (i_size ops (world s) filp) tgid fl0 flk of
            (fl1, e1) \<Rightarrow>
              if e1 \<noteq> 0 then Some (s, e1)
              else (let e2 = check_fmode_for_setlk (f_mode (the_file s filp)) fl1 in
                if e2 \<noteq> 0 then Some (s, e2)
                else (case setlk_cmd filp cmd flk fl1 of
                  None \<Rightarrow> Some (s, - EINVAL)
                | Some (cmd', fl2) \<Rightarrow>
                    (case do_lock_file_wait ops (world s) filp cmd' fl2 of
                       None \<Rightarrow> None
                     | Some (w1, e3, fl3) \<Rightarrow>
                         (let s1 = other (s\<lparr>world := w1\<rparr>) in
                          if e3 = 0 \<and> fl_type fl3 \<noteq> F_UNLCK \<and> \<not> fl_ofdlck fl3 \<and> ftable s1 ! fd \<noteq> filp
                          then (case do_lock_file_wait ops (world s1) filp cmd' (fl3\<lparr>fl_type := F_UNLCK\<rparr>) of
                                  None \<Rightarrow> None
                                | Some (w2, e4, fl4) \<Rightarrow> Some (s1\<lparr>world := w2\<rparr>, - EBADF))
                          else Some (s1, e3)))))))"

definition do_fcntl where
  "do_fcntl ops other mem tgid s fd cmd flk filp =
     (if cmd = F_OFD_SETLK \<or> cmd = F_OFD_SETLKW \<or> cmd = F_SETLK \<or> cmd = F_SETLKW
      then fcntl_setlk ops other mem tgid s fd filp cmd flk
      else Some (s, - EINVAL))"

definition check_fcntl_cmd :: "int \<Rightarrow> bool" where
  "check_fcntl_cmd cmd \<longleftrightarrow> cmd \<in> {0, 1030, 1, 2, 3}"

definition kfcntl where
  "kfcntl ops other mem tgid s fd cmd flk =
     (case fdget_raw s fd of
        None \<Rightarrow> None
      | Some (s1, fp, put) \<Rightarrow>
          if fp = 0 then Some (s1\<lparr>errno := EBADF\<rparr>, - EBADF)
          else if f_mode (the_file s1 fp) AND FMODE_PATH \<noteq> 0 \<and> \<not> check_fcntl_cmd cmd
          then Some ((fdput s1 (fp, put))\<lparr>errno := EBADF\<rparr>, - EBADF)
          else (case do_fcntl ops other mem tgid s1 fd cmd flk fp of
                  None \<Rightarrow> None
                | Some (s2, err) \<Rightarrow> Some ((fdput s2 (fp, put))\<lparr>errno := - err\<rparr>, err)))"

section \<open>Ranges\<close>

text \<open>The bytes that \<open>struct flock\<close> describes, relative to the base its whence selects.\<close>

definition flock_bytes :: "int \<Rightarrow> flock \<Rightarrow> int set" where
  "flock_bytes base l =
     (if l_len l > 0 then {base + l_start l ..< base + l_start l + l_len l}
      else if l_len l < 0 then {base + l_start l + l_len l ..< base + l_start l}
      else {base + l_start l .. OFFSET_MAX})"

definition whence_base :: "whence \<Rightarrow> int \<Rightarrow> int \<Rightarrow> int option" where
  "whence_base wh pos isize =
     (case wh of SEEK_SET \<Rightarrow> Some 0 | SEEK_CUR \<Rightarrow> Some pos | SEEK_END \<Rightarrow> Some isize | SEEK_OTHER \<Rightarrow> None)"

lemma int_range: "{a..<b} = {a..b - 1 :: int}"
  by auto

lemma flock_bytes_alt:
  "flock_bytes base l =
     (let a = base + l_start l in
      if l_len l > 0 then {a..a + l_len l - 1} else if l_len l < 0 then {a + l_len l..a - 1} else {a..OFFSET_MAX})"
  by (auto simp: flock_bytes_def Let_def int_range)

lemma assign_type_result:
  "assign_type fl ty = (fl', e) \<Longrightarrow>
    (e = 0 \<longleftrightarrow> ty \<in> {F_RDLCK, F_WRLCK, F_UNLCK}) \<and> fl_start fl' = fl_start fl \<and> fl_end fl' = fl_end fl
    \<and> (e = 0 \<longrightarrow> fl_type fl' = ty)"
  by (auto simp: assign_type_def split: if_splits)

text \<open>C29: a \<open>struct flock\<close> is accepted exactly when its lock type is one of the three and all the
  bytes it describes, and its start, lie between 0 and \<open>OFFSET_MAX\<close>; the range of the lock is then those bytes.\<close>

theorem flock_range_exact:
  assumes "whence_base (l_whence l) pos isize = Some base" "0 \<le> base" "base \<le> OFFSET_MAX"
    and "flock64_to_posix_lock filp pos isize tgid fl l = (fl', e)"
  shows "(e = 0 \<longleftrightarrow> l_type l \<in> {F_RDLCK, F_WRLCK, F_UNLCK} \<and> base + l_start l \<in> {0..OFFSET_MAX}
      \<and> flock_bytes base l \<subseteq> {0..OFFSET_MAX})
    \<and> (e = 0 \<longrightarrow> {fl_start fl'..fl_end fl'} = flock_bytes base l \<and> fl_start fl' \<le> fl_end fl' \<and> fl_type fl' = l_type l)"
proof -
  let ?a = "base + l_start l" and ?n = "l_len l"
  have run: "(fl', e) =
     (if l_start l > OFFSET_MAX - base then (fl\<lparr>fl_start := base\<rparr>, - EOVERFLOW)
      else if ?a < 0 then (fl\<lparr>fl_start := ?a\<rparr>, - EINVAL)
      else if ?n > 0 \<and> ?n - 1 > OFFSET_MAX - ?a then (fl\<lparr>fl_start := ?a\<rparr>, - EOVERFLOW)
      else if ?n < 0 \<and> ?a + ?n < 0 then (fl\<lparr>fl_start := ?a\<rparr>, - EINVAL)
      else assign_type (fl\<lparr>fl_start := (if ?n < 0 then ?a + ?n else ?a),
              fl_end := (if ?n > 0 then ?a + ?n - 1 else if ?n < 0 then ?a - 1 else OFFSET_MAX),
              fl_owner := OwnFiles, fl_pid := tgid, fl_file := filp, fl_posix := True,
              fl_ofdlck := False, fl_sleep := False\<rparr>) (l_type l))"
    unfolding assms(4) [symmetric] flock64_to_posix_lock_def whence_base_def [symmetric] assms(1) option.case Let_def
    by (cases fl) auto
  show ?thesis
  proof (cases "?a \<in> {0..OFFSET_MAX} \<and> flock_bytes base l \<subseteq> {0..OFFSET_MAX}")
    case True
    then have "(fl', e) = assign_type (fl\<lparr>fl_start := (if ?n < 0 then ?a + ?n else ?a),
              fl_end := (if ?n > 0 then ?a + ?n - 1 else if ?n < 0 then ?a - 1 else OFFSET_MAX),
              fl_owner := OwnFiles, fl_pid := tgid, fl_file := filp, fl_posix := True,
              fl_ofdlck := False, fl_sleep := False\<rparr>) (l_type l)"
      using run by (auto simp: flock_bytes_alt Let_def split: if_splits)
    from assign_type_result [OF this [symmetric]] show ?thesis
      using True by (auto simp: flock_bytes_alt Let_def)
  next
    case False
    then have "e \<noteq> 0" using run by (auto simp: flock_bytes_alt Let_def split: if_splits)
    then show ?thesis using False by blast
  qed
qed

theorem flock_range_exact_witness:
  "\<exists>fl'. flock64_to_posix_lock 1 5 100 9
      \<lparr>fl_type = 0, fl_start = 0, fl_end = 0, fl_owner = OwnFiles, fl_pid = 0, fl_file = 0, fl_posix = False,
       fl_ofdlck = False, fl_sleep = False, fl_next = None\<rparr>
      \<lparr>l_type = F_WRLCK, l_whence = SEEK_END, l_start = -10, l_len = -20, l_pid = 0\<rparr> = (fl', 0)
    \<and> {fl_start fl'..fl_end fl'} = {70..<90}"
  (is "\<exists>fl'. flock64_to_posix_lock 1 5 100 9 ?fl ?l = _ \<and> _")
proof -
  obtain fl' e where r: "flock64_to_posix_lock 1 5 100 9 ?fl ?l = (fl', e)"
    by (cases "flock64_to_posix_lock 1 5 100 9 ?fl ?l")
  have "whence_base (l_whence ?l) 5 100 = Some 100" by (simp add: whence_base_def)
  from flock_range_exact [OF this _ _ r] r show ?thesis
    by (auto simp: flock_bytes_def OFFSET_MAX_def)
qed

section \<open>Waiting\<close>

text \<open>A wait that is deferred and woken up \<open>k\<close> times and then granted.\<close>

fun granted_after :: "'w lockops \<Rightarrow> nat \<Rightarrow> 'w \<Rightarrow> nat \<Rightarrow> int \<Rightarrow> file_lock \<Rightarrow> 'w \<Rightarrow> file_lock \<Rightarrow> bool" where
  "granted_after ops 0 w filp cmd fl w' fl' \<longleftrightarrow> vfs_lock_file ops w filp cmd fl = (w', 0, fl')"
| "granted_after ops (Suc k) w filp cmd fl w' fl' \<longleftrightarrow>
     (\<exists>w1 fl1 w2 fl2. vfs_lock_file ops w filp cmd fl = (w1, FILE_LOCK_DEFERRED, fl1)
        \<and> wait_event ops w1 fl1 = (w2, 0, fl2) \<and> granted_after ops k w2 filp cmd fl2 w' fl')"

lemma wait_granted:
  "granted_after ops k w filp cmd fl w' fl' \<Longrightarrow> do_lock_file_wait ops w filp cmd fl = Some (w', 0, fl')"
proof (induction k arbitrary: w fl)
  case 0
  then show ?case by (subst do_lock_file_wait.simps) (simp add: FILE_LOCK_DEFERRED_def)
next
  case (Suc k)
  then obtain w1 fl1 w2 fl2 where s: "vfs_lock_file ops w filp cmd fl = (w1, FILE_LOCK_DEFERRED, fl1)"
    "wait_event ops w1 fl1 = (w2, 0, fl2)" "granted_after ops k w2 filp cmd fl2 w' fl'" by auto
  then show ?case using Suc.IH [OF s(3)] by (subst do_lock_file_wait.simps) simp
qed

text \<open>C30: a blocking lock request on an open descriptor returns once the lock is granted, after
  any number of deferrals.  When another thread has closed the descriptor meanwhile, the lock is
  given back with an unlock of the same range before \<open>EBADF\<close> is returned.\<close>

theorem setlk_undone_when_closed:
  assumes "\<not> mandatory ops (world s) filp"
    and "flock64_to_posix_lock filp (f_pos (the_file s filp)) (i_size ops (world s) filp) tgid fl0 flk = (fl1, 0)"
    and "check_fmode_for_setlk (f_mode (the_file s filp)) fl1 = 0"
    and "granted_after ops k (world s) filp F_SETLKW (fl1\<lparr>fl_sleep := True\<rparr>) w1 fl3"
    and "fl_type fl3 \<noteq> F_UNLCK" "\<not> fl_ofdlck fl3"
    and "granted_after ops m (world (other (s\<lparr>world := w1\<rparr>))) filp F_SETLKW (fl3\<lparr>fl_type := F_UNLCK\<rparr>) w2 fl4"
  shows "fcntl_setlk ops other (Some fl0) tgid s fd filp F_SETLKW flk =
    (if ftable (other (s\<lparr>world := w1\<rparr>)) ! fd = filp then Some (other (s\<lparr>world := w1\<rparr>), 0)
     else Some ((other (s\<lparr>world := w1\<rparr>))\<lparr>world := w2\<rparr>, - EBADF))"
  using assms wait_granted [OF assms(4)] wait_granted [OF assms(7)]
  by (simp add: fcntl_setlk_def setlk_cmd_def F_SETLKW_def F_OFD_SETLK_def F_OFD_SETLKW_def)

definition grant_ops :: "byte list lockops" where
  "grant_ops = \<lparr>vfs_lock_file = (\<lambda>w p c fl. (w @ [word_of_int (fl_type fl)], 0, fl)),
     wait_event = (\<lambda>w fl. (w, 0, fl)), i_size = (\<lambda>w p. 4), mandatory = (\<lambda>w p. False)\<rparr>"

theorem setlk_undone_when_closed_witness:
  "fcntl_setlk grant_ops (\<lambda>s. s\<lparr>ftable := replicate 1024 0\<rparr>)
     (Some \<lparr>fl_type = 0, fl_start = 0, fl_end = 0, fl_owner = OwnFiles, fl_pid = 0, fl_file = 0, fl_posix = False,
       fl_ofdlck = False, fl_sleep = False, fl_next = None\<rparr>) 9 mem_kport 3 5000 F_SETLKW
     \<lparr>l_type = F_WRLCK, l_whence = SEEK_SET, l_start = 0, l_len = 1, l_pid = 0\<rparr>
   = Some (mem_kport\<lparr>ftable := replicate 1024 0, world := [10, 11, 12, 13, 1, 2]\<rparr>, - EBADF)"
  (is "fcntl_setlk _ ?o (Some ?fl) _ _ _ _ _ ?l = _")
proof -
  let ?fl1 = "?fl\<lparr>fl_type := 1, fl_pid := 9, fl_file := 5000, fl_posix := True\<rparr>"
  have f: "the_file mem_kport 5000 = mem_file" by (simp add: mem_kport_def the_file_def)
  have c: "flock64_to_posix_lock 5000 (f_pos (the_file mem_kport 5000)) (i_size grant_ops (world mem_kport) 5000) 9 ?fl ?l
      = (?fl1, 0)"
    by (simp add: flock64_to_posix_lock_def OFFSET_MAX_def assign_type_def F_RDLCK_def F_WRLCK_def F_UNLCK_def)
  have m: "check_fmode_for_setlk (f_mode (the_file mem_kport 5000)) ?fl1 = 0"
    by (simp add: f check_fmode_for_setlk_def mem_file_def F_RDLCK_def F_WRLCK_def FMODE_WRITE_def)
  have g: "granted_after grant_ops 0 (world mem_kport) 5000 F_SETLKW (?fl1\<lparr>fl_sleep := True\<rparr>) [10, 11, 12, 13, 1]
      (?fl1\<lparr>fl_sleep := True\<rparr>)"
    by (simp add: grant_ops_def mem_kport_def)
  have u: "granted_after grant_ops 0 (world (?o (mem_kport\<lparr>world := [10, 11, 12, 13, 1]\<rparr>))) 5000 F_SETLKW
      ((?fl1\<lparr>fl_sleep := True\<rparr>)\<lparr>fl_type := F_UNLCK\<rparr>) [10, 11, 12, 13, 1, 2] ((?fl1\<lparr>fl_sleep := True\<rparr>)\<lparr>fl_type := F_UNLCK\<rparr>)"
    by (simp add: grant_ops_def F_UNLCK_def)
  show ?thesis
    using setlk_undone_when_closed [where other = ?o and fd = 3, OF _ c m g _ _ u]
    by (simp add: grant_ops_def F_UNLCK_def)
qed

end
