(* ===== verification/Kport_Path.thy ===== *)
theory Kport_Path
  imports Kport_Lock
begin

text \<open>
  The system calls of the kernel port on paths, \<open>unlink\<close>, \<open>rmdir\<close>, \<open>rename\<close>, \<open>mkdir\<close> and \<open>chmod\<close> in
  \<open>src/db/build_kernel/syscalls.c\<close>.  A state counts what the call holds: names, path references,
  write accesses to a mount, dentry and inode references, and the directory locks taken.  The VFS
  below them is the record \<open>nameops\<close> over the state \<open>pw\<close>; an error of the kernel is a negative
  integer.  The retry after a broken delegation is the loop \<open>deleg_loop\<close>; the retry of a stale
  lookup happens once, since the second attempt sets \<open>LOOKUP_REVAL\<close>.
\<close>

section \<open>State and environment\<close>

abbreviation (input) EPERM :: int where "EPERM \<equiv> 1"
abbreviation (input) ENOENT :: int where "ENOENT \<equiv> 2"
abbreviation (input) EBUSY :: int where "EBUSY \<equiv> 16"
abbreviation (input) EEXIST :: int where "EEXIST \<equiv> 17"
abbreviation (input) EXDEV :: int where "EXDEV \<equiv> 18"
abbreviation (input) ENOTDIR :: int where "ENOTDIR \<equiv> 20"
abbreviation (input) EISDIR :: int where "EISDIR \<equiv> 21"
abbreviation (input) ENOTEMPTY :: int where "ENOTEMPTY \<equiv> 39"
abbreviation (input) ESTALE :: int where "ESTALE \<equiv> 116"

datatype last_type = LAST_NORM | LAST_ROOT | LAST_DOT | LAST_DOTDOT | LAST_BIND

record dentry =
  d_id :: nat
  d_reval :: bool
  d_neg :: bool
  d_dir :: bool
  d_inode :: nat

text \<open>What \<open>kern_path_parent\<close> resolves: the parent directory, and the last component of the path;
  \<open>p_slash\<close> says that something follows it.\<close>

record parent =
  p_mnt :: nat
  p_dir :: nat
  p_last :: string
  p_slash :: bool
  p_type :: last_type

record 'w pstate =
  h_names :: int
  h_paths :: int
  h_writes :: int
  h_dentries :: int
  h_inodes :: int
  h_locks :: "nat list"
  perrno :: int
  pw :: 'w

record 'w nameops =
  o_kern_path_parent :: "'w \<Rightarrow> string \<Rightarrow> u32 \<Rightarrow> 'w \<times> (int + parent)"
  o_kern_path :: "'w \<Rightarrow> string \<Rightarrow> u32 \<Rightarrow> 'w \<times> (int + nat \<times> nat)"
  o_kern_path_create :: "'w \<Rightarrow> string \<Rightarrow> u32 \<Rightarrow> 'w \<times> (int + parent \<times> dentry)"
  o_want_write :: "'w \<Rightarrow> nat \<Rightarrow> 'w \<times> int"
  o_d_lookup :: "'w \<Rightarrow> nat \<Rightarrow> string \<Rightarrow> 'w \<times> dentry option"
  o_d_revalidate :: "'w \<Rightarrow> dentry \<Rightarrow> u32 \<Rightarrow> 'w \<times> int"
  o_d_invalidate :: "'w \<Rightarrow> dentry \<Rightarrow> 'w"
  o_d_alloc :: "'w \<Rightarrow> nat \<Rightarrow> string \<Rightarrow> 'w \<times> dentry option"
  o_is_deaddir :: "'w \<Rightarrow> nat \<Rightarrow> bool"
  o_lookup :: "'w \<Rightarrow> nat \<Rightarrow> dentry \<Rightarrow> u32 \<Rightarrow> 'w \<times> dentry \<times> (int + dentry) option"
  o_vfs_unlink :: "'w \<Rightarrow> nat \<Rightarrow> dentry \<Rightarrow> 'w \<times> int \<times> nat option"
  o_vfs_rmdir :: "'w \<Rightarrow> nat \<Rightarrow> dentry \<Rightarrow> 'w \<times> int"
  o_vfs_rename :: "'w \<Rightarrow> nat \<Rightarrow> dentry \<Rightarrow> nat \<Rightarrow> dentry \<Rightarrow> 'w \<times> int \<times> nat option"
  o_vfs_mkdir :: "'w \<Rightarrow> nat \<Rightarrow> dentry \<Rightarrow> u32 \<Rightarrow> 'w \<times> int"
  o_lock_rename :: "'w \<Rightarrow> nat \<Rightarrow> nat \<Rightarrow> nat option"
  o_break_deleg :: "'w \<Rightarrow> nat \<Rightarrow> 'w \<times> int"
  o_notify_change :: "'w \<Rightarrow> nat \<Rightarrow> u32 \<Rightarrow> 'w \<times> int \<times> nat option"
  o_i_mode :: "'w \<Rightarrow> nat \<Rightarrow> u32"
  o_posixacl :: "'w \<Rightarrow> nat \<Rightarrow> bool"
  o_umask :: "'w \<Rightarrow> u32"

section \<open>Shared steps\<close>

definition dput :: "'w pstate \<Rightarrow> 'w pstate" where "dput s = s\<lparr>h_dentries := h_dentries s - 1\<rparr>"
definition dget :: "'w pstate \<Rightarrow> 'w pstate" where "dget s = s\<lparr>h_dentries := h_dentries s + 1\<rparr>"
definition path_put :: "'w pstate \<Rightarrow> 'w pstate" where "path_put s = s\<lparr>h_paths := h_paths s - 1\<rparr>"
definition putname :: "'w pstate \<Rightarrow> 'w pstate" where "putname s = s\<lparr>h_names := h_names s - 1\<rparr>"
definition drop_write :: "'w pstate \<Rightarrow> 'w pstate" where "drop_write s = s\<lparr>h_writes := h_writes s - 1\<rparr>"
definition inode_lock :: "'w pstate \<Rightarrow> nat \<Rightarrow> 'w pstate" where "inode_lock s i = s\<lparr>h_locks := i # h_locks s\<rparr>"
definition inode_unlock :: "'w pstate \<Rightarrow> nat \<Rightarrow> 'w pstate" where
  "inode_unlock s i = s\<lparr>h_locks := remove1 i (h_locks s)\<rparr>"

definition parent_of :: "'w nameops \<Rightarrow> 'w pstate \<Rightarrow> string \<Rightarrow> u32 \<Rightarrow> 'w pstate \<times> (int + parent)" where
  "parent_of ops s path fl =
     (case o_kern_path_parent ops (pw s) path fl of
        (w, Inl e) \<Rightarrow> (s\<lparr>pw := w\<rparr>, Inl e)
      | (w, Inr p) \<Rightarrow> (s\<lparr>pw := w, h_names := h_names s + 1, h_paths := h_paths s + 1\<rparr>, Inr p))"

definition want_write :: "'w nameops \<Rightarrow> 'w pstate \<Rightarrow> nat \<Rightarrow> 'w pstate \<times> int" where
  "want_write ops s mnt =
     (let (w, e) = o_want_write ops (pw s) mnt in
      (if e = 0 then s\<lparr>pw := w, h_writes := h_writes s + 1\<rparr> else s\<lparr>pw := w\<rparr>, e))"

text \<open>The result of \<open>lookup_dcache\<close>: no dentry (also for \<open>ERR_PTR(0)\<close>), an error, or a dentry.\<close>

definition lookup_dcache ::
    "'w nameops \<Rightarrow> 'w pstate \<Rightarrow> string \<Rightarrow> nat \<Rightarrow> u32 \<Rightarrow> 'w pstate \<times> (int + dentry) option" where
  "lookup_dcache ops s name dir fl =
     (case o_d_lookup ops (pw s) dir name of
        (w, None) \<Rightarrow> (s\<lparr>pw := w\<rparr>, None)
      | (w, Some d) \<Rightarrow>
          (let s1 = dget (s\<lparr>pw := w\<rparr>) in
           if d_reval d then
             (let (w2, error) = o_d_revalidate ops (pw s1) d fl; s2 = s1\<lparr>pw := w2\<rparr> in
              if error \<le> 0 then
                (let s3 = (if error = 0 then s2\<lparr>pw := o_d_invalidate ops (pw s2) d\<rparr> else s2)
                 in (dput s3, if error = 0 then None else Some (Inl error)))
              else (s2, Some (Inr d)))
           else (s1, Some (Inr d))))"

definition lookup_real :: "'w nameops \<Rightarrow> 'w pstate \<Rightarrow> nat \<Rightarrow> dentry \<Rightarrow> u32 \<Rightarrow> 'w pstate \<times> (int + dentry)" where
  "lookup_real ops s dir d fl =
     (if o_is_deaddir ops (pw s) dir then (dput s, Inl (- ENOENT))
      else (case o_lookup ops (pw s) dir d fl of
              (w, d', None) \<Rightarrow> (s\<lparr>pw := w\<rparr>, Inr d')
            | (w, d', Some (Inl e)) \<Rightarrow> (dput (s\<lparr>pw := w\<rparr>), Inl e)
            | (w, d', Some (Inr old)) \<Rightarrow> (dput (dget (s\<lparr>pw := w\<rparr>)), Inr old)))"

definition lookup_hash :: "'w nameops \<Rightarrow> 'w pstate \<Rightarrow> string \<Rightarrow> nat \<Rightarrow> u32 \<Rightarrow> 'w pstate \<times> (int + dentry)" where
  "lookup_hash ops s name dir fl =
     (case lookup_dcache ops s name dir fl of
        (s1, Some r) \<Rightarrow> (s1, r)
      | (s1, None) \<Rightarrow>
          (case o_d_alloc ops (pw s1) dir name of
             (w, None) \<Rightarrow> (s1\<lparr>pw := w\<rparr>, Inl (- ENOMEM))
           | (w, Some d) \<Rightarrow> lookup_real ops (dget (s1\<lparr>pw := w\<rparr>)) dir d fl))"

text \<open>
  A round of a delegation loop returns the state, whether to go round again, and the error.
\<close>

partial_function (option) deleg_loop :: "('s \<Rightarrow> 's \<times> bool \<times> int) \<Rightarrow> 's \<Rightarrow> ('s \<times> int) option" where
  "deleg_loop rnd s =
     (case rnd s of (s1, again, error) \<Rightarrow> if again then deleg_loop rnd s1 else Some (s1, error))"

text \<open>The end of a round: a delegation that was met is broken, and then the round is repeated.\<close>

definition after_round :: "'w nameops \<Rightarrow> 'w pstate \<Rightarrow> nat option \<Rightarrow> int \<Rightarrow> 'w pstate \<times> bool \<times> int" where
  "after_round ops s deleg error =
     (case deleg of
        None \<Rightarrow> (s, False, error)
      | Some i \<Rightarrow> (let (w, e) = o_break_deleg ops (pw s) i in (s\<lparr>pw := w\<rparr>, e = 0, e)))"

definition LOOKUP_FOLLOW :: u32 where "LOOKUP_FOLLOW = 0x1"
definition LOOKUP_DIRECTORY :: u32 where "LOOKUP_DIRECTORY = 0x2"
definition LOOKUP_REVAL :: u32 where "LOOKUP_REVAL = 0x20"
definition LOOKUP_RENAME_TARGET :: u32 where "LOOKUP_RENAME_TARGET = 0x800"

definition retry_estale :: "int \<Rightarrow> u32 \<Rightarrow> bool" where
  "retry_estale error fl \<longleftrightarrow> error = - ESTALE \<and> fl AND LOOKUP_REVAL = 0"

text \<open>One attempt after the other: the first with the flags \<open>fl\<close>, the second with \<open>LOOKUP_REVAL\<close>
  added.  An attempt that failed to resolve the path ends the call (the last flag).\<close>

definition attempts :: "(u32 \<Rightarrow> 's \<Rightarrow> ('s \<times> int \<times> bool) option) \<Rightarrow> u32 \<Rightarrow> 's \<Rightarrow> ('s \<times> int) option" where
  "attempts try fl s =
     (case try fl s of
        None \<Rightarrow> None
      | Some (s1, error, stop) \<Rightarrow>
          if \<not> stop \<and> retry_estale error fl
          then map_option (\<lambda>(s2, e, _). (s2, e)) (try (fl OR LOOKUP_REVAL) s1)
          else Some (s1, error))"

section \<open>unlink\<close>

definition unlink_slashes :: "dentry \<Rightarrow> int" where
  "unlink_slashes d = (if d_neg d then - ENOENT else if d_dir d then - EISDIR else - ENOTDIR)"

definition unlink_round :: "'w nameops \<Rightarrow> parent \<Rightarrow> u32 \<Rightarrow> 'w pstate \<Rightarrow> 'w pstate \<times> bool \<times> int" where
  "unlink_round ops p fl s =
     (let s1 = inode_lock s (p_dir p) in
      case lookup_hash ops s1 (p_last p) (p_dir p) fl of
        (s2, Inl e) \<Rightarrow> (inode_unlock s2 (p_dir p), False, e)
      | (s2, Inr d) \<Rightarrow>
          if p_slash p \<or> d_neg d then (inode_unlock (dput s2) (p_dir p), False, unlink_slashes d)
          else (let s3 = s2\<lparr>h_inodes := h_inodes s2 + 1\<rparr>;
                    (w, error, deleg) = o_vfs_unlink ops (pw s3) (p_dir p) d;
                    s4 = inode_unlock (dput (s3\<lparr>pw := w\<rparr>)) (p_dir p);
                    s5 = s4\<lparr>h_inodes := h_inodes s4 - 1\<rparr>
                in after_round ops s5 deleg error))"

definition unlink_try :: "'w nameops \<Rightarrow> string \<Rightarrow> u32 \<Rightarrow> 'w pstate \<Rightarrow> ('w pstate \<times> int \<times> bool) option" where
  "unlink_try ops path fl s =
     (case parent_of ops s path fl of
        (s1, Inl e) \<Rightarrow> Some (s1\<lparr>perrno := - e\<rparr>, e, True)
      | (s1, Inr p) \<Rightarrow>
          (case (if p_type p \<noteq> LAST_NORM then Some (s1, - EISDIR)
                 else (let (s2, e) = want_write ops s1 (p_mnt p) in
                       if e \<noteq> 0 then Some (s2, e)
                       else map_option (\<lambda>(s3, error). (drop_write s3, error))
                              (deleg_loop (unlink_round ops p fl) s2))) of
             None \<Rightarrow> None
           | Some (s4, error) \<Rightarrow> Some ((putname (path_put s4))\<lparr>perrno := - error\<rparr>, error, False)))"

definition kunlink :: "'w nameops \<Rightarrow> string \<Rightarrow> 'w pstate \<Rightarrow> ('w pstate \<times> int) option" where
  "kunlink ops path s =
     (case attempts (unlink_try ops path) 0 s of
        None \<Rightarrow> None
      | Some (s1, ret) \<Rightarrow> Some (if ret < 0 then s1\<lparr>perrno := - ret\<rparr> else s1, ret))"

section \<open>rmdir\<close>

definition rmdir_body :: "'w nameops \<Rightarrow> parent \<Rightarrow> u32 \<Rightarrow> 'w pstate \<Rightarrow> 'w pstate \<times> int" where
  "rmdir_body ops p fl s =
     (case p_type p of
        LAST_DOTDOT \<Rightarrow> (s, - ENOTEMPTY)
      | LAST_DOT \<Rightarrow> (s, - EINVAL)
      | LAST_ROOT \<Rightarrow> (s, - EBUSY)
      | _ \<Rightarrow>
          (let (s1, e) = want_write ops s (p_mnt p) in
           if e \<noteq> 0 then (s1, e)
           else (case lookup_hash ops (inode_lock s1 (p_dir p)) (p_last p) (p_dir p) fl of
                   (s2, Inl e) \<Rightarrow> (drop_write (inode_unlock s2 (p_dir p)), e)
                 | (s2, Inr d) \<Rightarrow>
                     (let (s3, error) =
                        (if d_neg d then (s2, - ENOENT)
                         else (let (w, er) = o_vfs_rmdir ops (pw s2) (p_dir p) d in (s2\<lparr>pw := w\<rparr>, er)))
                      in (drop_write (inode_unlock (dput s3) (p_dir p)), error)))))"

definition rmdir_try :: "'w nameops \<Rightarrow> string \<Rightarrow> u32 \<Rightarrow> 'w pstate \<Rightarrow> ('w pstate \<times> int \<times> bool) option" where
  "rmdir_try ops path fl s =
     (case parent_of ops s path fl of
        (s1, Inl e) \<Rightarrow> Some (s1\<lparr>perrno := - e\<rparr>, e, True)
      | (s1, Inr p) \<Rightarrow>
          (let (s2, error) = rmdir_body ops p fl s1
           in Some ((putname (path_put s2))\<lparr>perrno := - error\<rparr>, error, False)))"

definition krmdir :: "'w nameops \<Rightarrow> string \<Rightarrow> 'w pstate \<Rightarrow> ('w pstate \<times> int) option" where
  "krmdir ops path = attempts (rmdir_try ops path) 0"

section \<open>rename\<close>

definition RENAME_NOREPLACE :: u32 where "RENAME_NOREPLACE = 1"
definition RENAME_EXCHANGE :: u32 where "RENAME_EXCHANGE = 2"
definition RENAME_WHITEOUT :: u32 where "RENAME_WHITEOUT = 4"

definition lock_rename :: "'w pstate \<Rightarrow> nat \<Rightarrow> nat \<Rightarrow> 'w pstate" where
  "lock_rename s a b = (if a = b then inode_lock s a else inode_lock (inode_lock s a) b)"

definition unlock_rename :: "'w pstate \<Rightarrow> nat \<Rightarrow> nat \<Rightarrow> 'w pstate" where
  "unlock_rename s a b = (if a = b then inode_unlock s a else inode_unlock (inode_unlock s b) a)"

text \<open>The checks between the lookups and \<open>vfs_rename\<close>; 0 lets the rename go on.\<close>

definition rename_checks :: "u32 \<Rightarrow> parent \<Rightarrow> parent \<Rightarrow> nat option \<Rightarrow> dentry \<Rightarrow> dentry \<Rightarrow> int" where
  "rename_checks flags po pn trap od nd =
     (let exch = flags AND RENAME_EXCHANGE \<noteq> 0 in
      if flags AND RENAME_NOREPLACE \<noteq> 0 \<and> \<not> d_neg nd then - EEXIST
      else if exch \<and> d_neg nd then - ENOENT
      else if exch \<and> \<not> d_dir nd \<and> p_slash pn then - ENOTDIR
      else if \<not> d_dir od \<and> p_slash po then - ENOTDIR
      else if \<not> d_dir od \<and> \<not> exch \<and> p_slash pn then - ENOTDIR
      else if trap = Some (d_id od) then - EINVAL
      else if trap = Some (d_id nd) then (if exch then - EINVAL else - ENOTEMPTY)
      else 0)"

definition rename_round ::
    "'w nameops \<Rightarrow> u32 \<Rightarrow> parent \<Rightarrow> parent \<Rightarrow> u32 \<Rightarrow> 'w pstate \<Rightarrow> 'w pstate \<times> bool \<times> int" where
  "rename_round ops flags po pn fl s =
     (let trap = o_lock_rename ops (pw s) (p_dir pn) (p_dir po);
          target_flags = (if flags AND RENAME_EXCHANGE \<noteq> 0 then 0 else LOOKUP_RENAME_TARGET);
          un = (\<lambda>t. unlock_rename t (p_dir pn) (p_dir po))
      in case lookup_hash ops (lock_rename s (p_dir pn) (p_dir po)) (p_last po) (p_dir po) fl of
           (s1, Inl e) \<Rightarrow> (un s1, False, e)
         | (s1, Inr od) \<Rightarrow>
             if d_neg od then (un (dput s1), False, - ENOENT)
             else (case lookup_hash ops s1 (p_last pn) (p_dir pn) (fl OR target_flags) of
                     (s2, Inl e) \<Rightarrow> (un (dput s2), False, e)
                   | (s2, Inr nd) \<Rightarrow>
                       (let error = rename_checks flags po pn trap od nd in
                        if error \<noteq> 0 then (un (dput (dput s2)), False, error)
                        else (let (w, er, deleg) = o_vfs_rename ops (pw s2) (p_dir po) od (p_dir pn) nd
                              in after_round ops (un (dput (dput (s2\<lparr>pw := w\<rparr>)))) deleg er))))"

definition rename_body ::
    "'w nameops \<Rightarrow> u32 \<Rightarrow> parent \<Rightarrow> parent \<Rightarrow> u32 \<Rightarrow> 'w pstate \<Rightarrow> ('w pstate \<times> int) option" where
  "rename_body ops flags po pn fl s =
     (if p_mnt po \<noteq> p_mnt pn then Some (s, - EXDEV)
      else if p_type po \<noteq> LAST_NORM then Some (s, - EBUSY)
      else if p_type pn \<noteq> LAST_NORM
      then Some (s, if flags AND RENAME_NOREPLACE \<noteq> 0 then - EEXIST else - EBUSY)
      else (let (s1, e) = want_write ops s (p_mnt po) in
            if e \<noteq> 0 then Some (s1, e)
            else map_option (\<lambda>(s2, error). (drop_write s2, error)) (deleg_loop (rename_round ops flags po pn fl) s1)))"

definition rename_try ::
    "'w nameops \<Rightarrow> u32 \<Rightarrow> string \<Rightarrow> string \<Rightarrow> u32 \<Rightarrow> 'w pstate \<Rightarrow> ('w pstate \<times> int \<times> bool) option" where
  "rename_try ops flags oldname newname fl s =
     (case parent_of ops s oldname fl of
        (s1, Inl e) \<Rightarrow> Some (s1, e, True)
      | (s1, Inr po) \<Rightarrow>
          (case parent_of ops s1 newname fl of
             (s2, Inl e) \<Rightarrow> Some (putname (path_put s2), e, True)
           | (s2, Inr pn) \<Rightarrow>
               (case rename_body ops flags po pn fl s2 of
                  None \<Rightarrow> None
                | Some (s3, error) \<Rightarrow>
                    Some (putname (path_put (putname (path_put s3))), error, False))))"

definition renameat2 ::
    "'w nameops \<Rightarrow> bool \<Rightarrow> u32 \<Rightarrow> string \<Rightarrow> string \<Rightarrow> 'w pstate \<Rightarrow> ('w pstate \<times> int) option" where
  "renameat2 ops cap flags oldname newname s =
     (if flags AND NOT (RENAME_NOREPLACE OR RENAME_EXCHANGE OR RENAME_WHITEOUT) \<noteq> 0 then Some (s, - EINVAL)
      else if flags AND (RENAME_NOREPLACE OR RENAME_WHITEOUT) \<noteq> 0 \<and> flags AND RENAME_EXCHANGE \<noteq> 0
      then Some (s, - EINVAL)
      else if flags AND RENAME_WHITEOUT \<noteq> 0 \<and> \<not> cap then Some (s, - EPERM)
      else attempts (rename_try ops flags oldname newname) 0 s)"

definition krename :: "'w nameops \<Rightarrow> bool \<Rightarrow> string \<Rightarrow> string \<Rightarrow> 'w pstate \<Rightarrow> ('w pstate \<times> int) option" where
  "krename ops cap oldname newname s =
     map_option (\<lambda>(s1, ret). (s1\<lparr>perrno := - ret\<rparr>, ret)) (renameat2 ops cap 0 oldname newname s)"

section \<open>chmod and mkdir\<close>

definition S_IALLUGO :: u32 where "S_IALLUGO = 0xFFF"

definition chmod_round :: "'w nameops \<Rightarrow> nat \<Rightarrow> u32 \<Rightarrow> 'w pstate \<Rightarrow> 'w pstate \<times> bool \<times> int" where
  "chmod_round ops inode mode s =
     (let s1 = inode_lock s inode;
          newmode = (mode AND S_IALLUGO) OR (o_i_mode ops (pw s1) inode AND NOT S_IALLUGO);
          (w, error, deleg) = o_notify_change ops (pw s1) inode newmode
      in after_round ops (inode_unlock (s1\<lparr>pw := w\<rparr>) inode) deleg error)"

definition chmod_common :: "'w nameops \<Rightarrow> nat \<Rightarrow> nat \<Rightarrow> u32 \<Rightarrow> 'w pstate \<Rightarrow> ('w pstate \<times> int) option" where
  "chmod_common ops mnt inode mode s =
     (let (s1, e) = want_write ops s mnt in
      if e \<noteq> 0 then Some (s1\<lparr>perrno := - e\<rparr>, e)
      else map_option (\<lambda>(s2, error). ((drop_write s2)\<lparr>perrno := - error\<rparr>, error))
             (deleg_loop (chmod_round ops inode mode) s1))"

definition chmod_try :: "'w nameops \<Rightarrow> string \<Rightarrow> u32 \<Rightarrow> u32 \<Rightarrow> 'w pstate \<Rightarrow> ('w pstate \<times> int \<times> bool) option" where
  "chmod_try ops path mode fl s =
     (case o_kern_path ops (pw s) path fl of
        (w, Inl e) \<Rightarrow> Some (s\<lparr>pw := w\<rparr>, e, True)
      | (w, Inr (mnt, inode)) \<Rightarrow>
          map_option (\<lambda>(s1, error). (path_put s1, error, False))
            (chmod_common ops mnt inode mode (s\<lparr>pw := w, h_paths := h_paths s + 1\<rparr>)))"

definition kchmod :: "'w nameops \<Rightarrow> string \<Rightarrow> u32 \<Rightarrow> 'w pstate \<Rightarrow> ('w pstate \<times> int) option" where
  "kchmod ops path mode s =
     map_option (\<lambda>(s1, error). (s1\<lparr>perrno := - error\<rparr>, error)) (attempts (chmod_try ops path mode) LOOKUP_FOLLOW s)"

text \<open>\<open>kern_path_create\<close> returns with the parent locked and a write access taken, and
  \<open>done_path_create\<close> gives all of it back.\<close>

definition mkdir_try ::
    "'w nameops \<Rightarrow> string \<Rightarrow> u32 \<Rightarrow> 'w pstate \<times> u32 \<Rightarrow> (('w pstate \<times> u32) \<times> int \<times> bool) option" where
  "mkdir_try ops path fl sm =
     (case sm of (s, mode) \<Rightarrow>
      case o_kern_path_create ops (pw s) path fl of
        (w, Inl e) \<Rightarrow> Some ((s\<lparr>pw := w, perrno := - e\<rparr>, mode), e, True)
      | (w, Inr (p, d)) \<Rightarrow>
          (let s1 = inode_lock (s\<lparr>pw := w, h_paths := h_paths s + 1, h_writes := h_writes s + 1,
                   h_dentries := h_dentries s + 1\<rparr>) (p_dir p);
               mode' = (if o_posixacl ops (pw s1) (p_dir p) then mode else mode AND NOT (o_umask ops (pw s1)));
               (w2, error) = o_vfs_mkdir ops (pw s1) (p_dir p) d mode';
               s2 = path_put (drop_write (inode_unlock (dput (s1\<lparr>pw := w2\<rparr>)) (p_dir p)))
           in Some ((s2, mode'), error, False)))"

text \<open>\<open>errno\<close> is set once, after the last attempt.\<close>

definition kmkdir :: "'w nameops \<Rightarrow> string \<Rightarrow> u32 \<Rightarrow> 'w pstate \<Rightarrow> ('w pstate \<times> int) option" where
  "kmkdir ops path mode s =
     map_option (\<lambda>((s1, _), error). (s1\<lparr>perrno := - error\<rparr>, error))
       (attempts (mkdir_try ops path) LOOKUP_DIRECTORY (s, mode))"

section \<open>Everything taken is given back\<close>

definition held :: "'w pstate \<Rightarrow> int \<times> int \<times> int \<times> int \<times> int \<times> nat list" where
  "held s = (h_names s, h_paths s, h_writes s, h_dentries s, h_inodes s, h_locks s)"

named_theorems step_defs "the counting steps"

lemmas [step_defs] = dput_def dget_def path_put_def putname_def drop_write_def inode_lock_def inode_unlock_def

lemma held_cong [simp]: "held (s\<lparr>pw := w\<rparr>) = held s" "held (s\<lparr>perrno := e\<rparr>) = held s"
  by (simp_all add: held_def)

lemma parent_of_held:
  "parent_of ops s path fl = (s', r) \<Longrightarrow>
    (case r of Inl _ \<Rightarrow> held s' = held s | Inr _ \<Rightarrow> held (putname (path_put s')) = held s)"
  by (auto simp: parent_of_def held_def step_defs split: prod.splits sum.splits)

lemma want_write_held:
  "want_write ops s m = (s', e) \<Longrightarrow> (if e = 0 then held (drop_write s') = held s else held s' = held s)"
  by (auto simp: want_write_def held_def step_defs split: prod.splits)

lemma lookup_dcache_held:
  "lookup_dcache ops s n dir fl = (s', r) \<Longrightarrow>
    (case r of Some (Inr _) \<Rightarrow> held (dput s') = held s | _ \<Rightarrow> held s' = held s)"
  by (auto simp: lookup_dcache_def held_def step_defs Let_def split: prod.splits option.splits if_splits)

lemma lookup_real_held:
  "lookup_real ops s dir d fl = (s', r) \<Longrightarrow>
    (case r of Inr _ \<Rightarrow> held (dput s') = held (dput s) | Inl _ \<Rightarrow> held s' = held (dput s))"
  by (auto simp: lookup_real_def held_def step_defs Let_def split: prod.splits option.splits sum.splits if_splits)

lemma held_dput: "held s = held t \<Longrightarrow> held (dput s) = held (dput t)"
  and held_dget: "held (dput (dget s)) = held s"
  by (auto simp: held_def step_defs)

lemma lookup_hash_held:
  assumes "lookup_hash ops s n dir fl = (s', r)"
  shows "case r of Inr _ \<Rightarrow> held (dput s') = held s | Inl _ \<Rightarrow> held s' = held s"
proof -
  obtain s1 q where q: "lookup_dcache ops s n dir fl = (s1, q)" by (cases "lookup_dcache ops s n dir fl")
  note h = lookup_dcache_held [OF q]
  show ?thesis
  proof (cases q)
    case (Some x)
    then show ?thesis using assms q h by (auto simp: lookup_hash_def split: sum.splits)
  next
    case None
    then have hn: "held s1 = held s" using h by simp
    show ?thesis
    proof (cases "snd (o_d_alloc ops (pw s1) dir n)")
      case None
      then show ?thesis using assms q \<open>q = None\<close> hn
        by (auto simp: lookup_hash_def split: prod.splits)
    next
      case (Some d)
      then obtain w where w: "o_d_alloc ops (pw s1) dir n = (w, Some d)" by (cases "o_d_alloc ops (pw s1) dir n") auto
      then have "lookup_real ops (dget (s1\<lparr>pw := w\<rparr>)) dir d fl = (s', r)"
        using assms q None by (simp add: lookup_hash_def)
      from lookup_real_held [OF this] show ?thesis using hn held_dget [of "s1\<lparr>pw := w\<rparr>"]
        by (auto split: sum.splits)
    qed
  qed
qed

lemma after_round_held: "after_round ops s deleg e = (s', again, r) \<Longrightarrow> held s' = held s"
  by (auto simp: after_round_def split: option.splits prod.splits)

lemma unlink_round_held:
  assumes "unlink_round ops p fl s = (s', again, e)"
  shows "held s' = held s"
proof -
  obtain s2 r where l: "lookup_hash ops (inode_lock s (p_dir p)) (p_last p) (p_dir p) fl = (s2, r)"
    by (cases "lookup_hash ops (inode_lock s (p_dir p)) (p_last p) (p_dir p) fl")
  note h = lookup_hash_held [OF l]
  show ?thesis
  proof (cases r)
    case (Inl x)
    then show ?thesis using assms l h by (auto simp: unlink_round_def held_def step_defs)
  next
    case (Inr d)
    then show ?thesis using assms l h
      by (auto simp: unlink_round_def held_def step_defs Let_def split: if_splits prod.splits
            dest!: after_round_held)
  qed
qed

lemma rename_round_held:
  assumes "rename_round ops flags po pn fl s = (s', again, e)"
  shows "held s' = held s"
proof -
  let ?s = "lock_rename s (p_dir pn) (p_dir po)"
  obtain s1 r where l: "lookup_hash ops ?s (p_last po) (p_dir po) fl = (s1, r)"
    by (cases "lookup_hash ops ?s (p_last po) (p_dir po) fl")
  note h = lookup_hash_held [OF l]
  have un: "held (unlock_rename t (p_dir pn) (p_dir po)) = held s" if "held t = held ?s" for t
    using that by (auto simp: held_def lock_rename_def unlock_rename_def step_defs split: if_splits)
  show ?thesis
  proof (cases r)
    case (Inl x)
    then show ?thesis using assms l h un by (auto simp: rename_round_def Let_def)
  next
    case (Inr od)
    define tf where "tf = (if flags AND RENAME_EXCHANGE \<noteq> 0 then 0 else LOOKUP_RENAME_TARGET)"
    obtain s2 q where l2: "lookup_hash ops s1 (p_last pn) (p_dir pn) (fl OR tf) = (s2, q)"
      by (cases "lookup_hash ops s1 (p_last pn) (p_dir pn) (fl OR tf)")
    note h2 = lookup_hash_held [OF l2]
    have hd: "held (dput s1) = held ?s" using h Inr by simp
    show ?thesis
    proof (cases "d_neg od")
      case True
      then show ?thesis using assms l Inr un [OF hd] by (auto simp: rename_round_def Let_def)
    next
      case False
      show ?thesis
      proof (cases q)
        case (Inl x)
        then have "held (dput s2) = held ?s" using h2 hd by (auto simp: held_def step_defs)
        then show ?thesis using assms l Inr False l2 Inl un
          by (auto simp: rename_round_def Let_def tf_def [symmetric])
      next
        case (Inr nd)
        then have "held (dput (dput s2)) = held ?s" using h2 hd held_dput [of "dput s2" s1] by simp
        then have "held (dput (dput (s2\<lparr>pw := w\<rparr>))) = held ?s" for w by (simp add: held_def step_defs)
        then show ?thesis using assms l \<open>r = Inr od\<close> False l2 Inr un \<open>held (dput (dput s2)) = held ?s\<close>
          by (auto simp: rename_round_def Let_def tf_def [symmetric] split: if_splits prod.splits
                dest!: after_round_held)
      qed
    qed
  qed
qed

section \<open>Loops\<close>

lemma deleg_loop_held:
  assumes "deleg_loop rnd s = Some (s', e)"
    and "\<And>t t' again r. rnd t = (t', again, r) \<Longrightarrow> held t' = held t"
  shows "held s' = held s"
proof -
  let ?P = "\<lambda>rnd s y. (\<forall>t t' again r. rnd t = (t', again, r) \<longrightarrow> held t' = held t) \<longrightarrow> held (fst y) = held s"
  have "?P rnd s (s', e)"
  proof (rule deleg_loop.raw_induct [where P = ?P, OF _ assms(1)], intro impI)
    fix loop and rnd :: "'a pstate \<Rightarrow> 'a pstate \<times> bool \<times> int" and s y
    assume IH: "\<And>rnd s y. loop rnd s = Some y \<Longrightarrow> ?P rnd s y"
      and run: "(case rnd s of (s1, again, error) \<Rightarrow> if again then loop rnd s1 else Some (s1, error)) = Some y"
      and inv: "\<forall>t t' again r. rnd t = (t', again, r) \<longrightarrow> held t' = held t"
    obtain s1 again r where r: "rnd s = (s1, again, r)" by (cases "rnd s")
    have hs: "held s1 = held s" using inv r by blast
    have ih: "loop rnd s1 = Some y \<Longrightarrow> held (fst y) = held s1" using IH [of rnd s1 y] inv by blast
    show "held (fst y) = held s" using r run hs ih by (cases again) auto
  qed
  then show ?thesis using assms(2) by simp
qed

lemma deleg_loop_returns:
  assumes "\<And>t t' e. rnd t = (t', True, e) \<Longrightarrow> (m t' :: nat) < m t"
  shows "\<exists>s' e. deleg_loop rnd s = Some (s', e)"
proof (induction "m s" arbitrary: s rule: less_induct)
  case less
  obtain s1 again e where r: "rnd s = (s1, again, e)" by (cases "rnd s")
  then show ?case
    using less [of s1] assms [of s s1 e] by (cases again) (simp_all add: deleg_loop.simps [of rnd s])
qed

lemma attempts_returns:
  assumes "\<And>fl s. \<exists>s' e b. try fl s = Some (s', e, b)"
  shows "\<exists>s' e. attempts try fl s = Some (s', e)"
proof -
  obtain s1 e b where r: "try fl s = Some (s1, e, b)" using assms by blast
  obtain s2 e2 b2 where r2: "try (fl OR LOOKUP_REVAL) s1 = Some (s2, e2, b2)" using assms by blast
  show ?thesis by (auto simp: attempts_def r r2)
qed

lemma attempts_inv:
  assumes "attempts try fl s = Some (s', e)" "I s"
    and "\<And>fl s s' e b. try fl s = Some (s', e, b) \<Longrightarrow> I s \<Longrightarrow> I s' \<and> Q s' e"
  shows "I s' \<and> Q s' e"
proof (cases "try fl s")
  case (Some r)
  obtain s1 e1 b1 where r: "r = (s1, e1, b1)" by (cases r)
  have i1: "I s1 \<and> Q s1 e1" using assms(3) [of fl s s1 e1 b1] assms(2) Some r by simp
  show ?thesis
  proof (cases "\<not> b1 \<and> retry_estale e1 fl")
    case True
    then obtain b2 where "try (fl OR LOOKUP_REVAL) s1 = Some (s', e, b2)"
      using assms(1) Some r by (auto simp: attempts_def)
    then show ?thesis using assms(3) i1 by blast
  next
    case False
    then show ?thesis using assms(1) Some r i1 by (auto simp: attempts_def split: if_splits)
  qed
qed (use assms(1) in \<open>simp add: attempts_def\<close>)

lemma unlink_try_spec:
  assumes "unlink_try ops path fl s = Some (s', e, b)"
  shows "held s' = held s \<and> perrno s' = - e"
proof -
  obtain s1 r where p: "parent_of ops s path fl = (s1, r)" by (cases "parent_of ops s path fl")
  note hp = parent_of_held [OF p]
  show ?thesis
  proof (cases r)
    case (Inl x)
    then show ?thesis using assms p hp by (auto simp: unlink_try_def)
  next
    case (Inr pa)
    obtain s2 e2 where w: "want_write ops s1 (p_mnt pa) = (s2, e2)" by (cases "want_write ops s1 (p_mnt pa)")
    note hw = want_write_held [OF w]
    obtain s4 where s4: "s' = (putname (path_put s4))\<lparr>perrno := - e\<rparr>" "held s4 = held s1"
    proof -
      consider (norm) "p_type pa \<noteq> LAST_NORM" | (mnt) "p_type pa = LAST_NORM" "e2 \<noteq> 0"
        | (go) "p_type pa = LAST_NORM" "e2 = 0" by blast
      then show thesis
      proof cases
        case norm
        then show thesis using assms p Inr that [of s1] by (auto simp: unlink_try_def)
      next
        case mnt
        then show thesis using assms p Inr w hw that [of s2] by (auto simp: unlink_try_def)
      next
        case go
        then obtain s3 where l: "deleg_loop (unlink_round ops pa fl) s2 = Some (s3, e)"
            "s' = (putname (path_put (drop_write s3)))\<lparr>perrno := - e\<rparr>"
          using assms p Inr w by (auto simp: unlink_try_def split: option.splits)
        have "held s3 = held s2" by (rule deleg_loop_held [OF l(1) unlink_round_held])
        then have "held (drop_write s3) = held s1" using hw go by (auto simp: held_def step_defs)
        then show thesis using l(2) that by blast
      qed
    qed
    then show ?thesis using hp Inr by (auto simp: held_def step_defs)
  qed
qed

lemma rename_try_spec:
  assumes "rename_try ops flags old new fl s = Some (s', e, b)"
  shows "held s' = held s"
proof -
  obtain s1 r where p: "parent_of ops s old fl = (s1, r)" by (cases "parent_of ops s old fl")
  note hp = parent_of_held [OF p]
  show ?thesis
  proof (cases r)
    case (Inl x)
    then show ?thesis using assms p hp by (auto simp: rename_try_def)
  next
    case (Inr po)
    note ro = Inr
    obtain s2 q where n: "parent_of ops s1 new fl = (s2, q)" by (cases "parent_of ops s1 new fl")
    note hn = parent_of_held [OF n]
    show ?thesis
    proof (cases q)
      case (Inl x)
      then show ?thesis using assms p ro hp n hn by (auto simp: rename_try_def held_def step_defs)
    next
      case (Inr pn)
      then obtain s3 where l: "rename_body ops flags po pn fl s2 = Some (s3, e)"
          "s' = putname (path_put (putname (path_put s3)))"
        using assms p ro n by (auto simp: rename_try_def split: option.splits)
      obtain s4 e4 where w: "want_write ops s2 (p_mnt po) = (s4, e4)" by (cases "want_write ops s2 (p_mnt po)")
      have "held s3 = held s2"
        using l(1) w want_write_held [OF w]
        by (auto simp: rename_body_def held_def step_defs split: if_splits
              dest!: deleg_loop_held [OF _ rename_round_held])
      then show ?thesis using l(2) hp ro hn Inr by (auto simp: held_def step_defs)
    qed
  qed
qed

lemma rmdir_body_held:
  assumes "rmdir_body ops p fl s = (s', e)"
  shows "held s' = held s"
proof -
  obtain s1 e1 where w: "want_write ops s (p_mnt p) = (s1, e1)" by (cases "want_write ops s (p_mnt p)")
  obtain s2 r where l: "lookup_hash ops (inode_lock s1 (p_dir p)) (p_last p) (p_dir p) fl = (s2, r)"
    by (cases "lookup_hash ops (inode_lock s1 (p_dir p)) (p_last p) (p_dir p) fl")
  note hw = want_write_held [OF w] and hl = lookup_hash_held [OF l]
  show ?thesis
    using assms w l hw hl
    by (cases r; cases "p_type p")
      (auto simp: rmdir_body_def held_def step_defs Let_def split: if_splits prod.splits)
qed

lemma krmdir_spec:
  assumes "krmdir ops path s = Some (s', e)"
  shows "held s' = held s \<and> perrno s' = - e"
proof -
  have "held s' = held s \<and> perrno s' = - e"
    using assms unfolding krmdir_def
  proof (rule attempts_inv [where I = "\<lambda>t. held t = held s" and Q = "\<lambda>t e. perrno t = - e"])
    show "held t' = held s \<and> perrno t' = - e" if "rmdir_try ops path fl t = Some (t', e, b)" "held t = held s" for fl t t' e b
    proof -
      obtain s1 r where p: "parent_of ops t path fl = (s1, r)" by (cases "parent_of ops t path fl")
      note hp = parent_of_held [OF p]
      show ?thesis
        using that p hp by (cases r) (auto simp: rmdir_try_def held_def step_defs split: prod.splits
            dest!: rmdir_body_held)
    qed
  qed simp
  then show ?thesis .
qed

lemma kmkdir_spec:
  assumes "kmkdir ops path mode s = Some (s', e)"
  shows "held s' = held s \<and> perrno s' = - e"
proof -
  obtain s1 m1 where a: "attempts (mkdir_try ops path) LOOKUP_DIRECTORY (s, mode) = Some ((s1, m1), e)"
    and s': "s' = s1\<lparr>perrno := - e\<rparr>" using assms by (auto simp: kmkdir_def)
  have "held (fst (s1, m1)) = held s \<and> True"
  proof (rule attempts_inv [OF a, where I = "\<lambda>t. held (fst t) = held s" and Q = "\<lambda>_ _. True"])
    show "held (fst t') = held s \<and> True" if "mkdir_try ops path fl t = Some (t', e, b)" "held (fst t) = held s" for fl t t' e b
      using that by (cases t) (auto simp: mkdir_try_def held_def step_defs Let_def split: prod.splits sum.splits)
  qed simp
  then show ?thesis using s' by simp
qed

lemma kchmod_spec:
  assumes "kchmod ops path mode s = Some (s', e)"
  shows "held s' = held s \<and> perrno s' = - e"
proof -
  obtain s1 where a: "attempts (chmod_try ops path mode) LOOKUP_FOLLOW s = Some (s1, e)"
    and s': "s' = s1\<lparr>perrno := - e\<rparr>" using assms by (auto simp: kchmod_def)
  have rnd: "held t' = held t" if "chmod_round ops i mode t = (t', again, r)" for i t t' again r
    using that by (auto simp: chmod_round_def held_def step_defs Let_def split: prod.splits dest!: after_round_held)
  have com: "held t' = held t" if "chmod_common ops mnt i mode t = Some (t', r)" for mnt i t t' r
  proof -
    obtain t1 e1 where w: "want_write ops t mnt = (t1, e1)" by (cases "want_write ops t mnt")
    show ?thesis using that w want_write_held [OF w]
      by (auto simp: chmod_common_def held_def step_defs split: if_splits dest!: deleg_loop_held [OF _ rnd])
  qed
  have "held s1 = held s \<and> True"
  proof (rule attempts_inv [OF a, where I = "\<lambda>t. held t = held s" and Q = "\<lambda>_ _. True"])
    show "held t' = held s \<and> True" if "chmod_try ops path mode fl t = Some (t', r, b)" "held t = held s" for fl t t' r b
      using that by (auto simp: chmod_try_def split: prod.splits sum.splits dest!: com) (auto simp: held_def step_defs)
  qed simp
  then show ?thesis using s' by simp
qed

section \<open>Properties\<close>

text \<open>C31: as long as each round that breaks a delegation leaves fewer of them, \<open>unlink\<close> returns;
  on every path, the stale retry and all error exits included, it has then given back the name, the
  paths, the write access, the dentries, the inode and the locks it took, and \<open>errno\<close> is the
  negated result.\<close>

theorem unlink_returns_balanced:
  fixes leases :: "'w \<Rightarrow> nat"
  assumes "\<And>p fl t t' e. unlink_round ops p fl t = (t', True, e) \<Longrightarrow> leases (pw t') < leases (pw t)"
  shows "\<exists>s' r. kunlink ops path s = Some (s', r) \<and> held s' = held s \<and> perrno s' = - r"
proof -
  have "\<exists>s' e b. unlink_try ops path fl s = Some (s', e, b)" for fl s
  proof -
    have "\<exists>s' e. deleg_loop (unlink_round ops p fl) t = Some (s', e)" for p t
      by (rule deleg_loop_returns [where m = "\<lambda>t. leases (pw t)"]) (rule assms)
    then have "\<exists>r. map_option (\<lambda>(s3, error). (drop_write s3, error)) (deleg_loop (unlink_round ops p fl) t) = Some r" for p t
      by (metis option.simps(9))
    then show ?thesis by (auto simp: unlink_try_def split: prod.splits sum.splits option.splits) (metis not_Some_eq)+
  qed
  then obtain s1 e where a: "attempts (unlink_try ops path) 0 s = Some (s1, e)"
    using attempts_returns by metis
  have "held s1 = held s \<and> perrno s1 = - e"
    by (rule attempts_inv [OF a, where I = "\<lambda>t. held t = held s" and Q = "\<lambda>t e. perrno t = - e"])
      (auto dest: unlink_try_spec)
  then show ?thesis using a by (simp add: kunlink_def)
qed

text \<open>C32: the same of \<open>rename\<close>, which holds two names, two paths, two dentries and the locks of
  both directories.\<close>

theorem rename_returns_balanced:
  fixes leases :: "'w \<Rightarrow> nat"
  assumes "\<And>po pn fl t t' e. rename_round ops 0 po pn fl t = (t', True, e) \<Longrightarrow> leases (pw t') < leases (pw t)"
  shows "\<exists>s' r. krename ops cap old new s = Some (s', r) \<and> held s' = held s \<and> perrno s' = - r"
proof -
  have "\<exists>s' e b. rename_try ops 0 old new fl s = Some (s', e, b)" for fl s
  proof -
    have "\<exists>s' e. deleg_loop (rename_round ops 0 po pn fl) t = Some (s', e)" for po pn t
      by (rule deleg_loop_returns [where m = "\<lambda>t. leases (pw t)"]) (rule assms)
    then have "\<exists>r. map_option (\<lambda>(s3, error). (drop_write s3, error)) (deleg_loop (rename_round ops 0 po pn fl) t) = Some r" for po pn t
      by (metis option.simps(9))
    then have "\<exists>r. rename_body ops 0 po pn fl t = Some r" for po pn t
      by (auto simp: rename_body_def split: prod.splits)
    then show ?thesis by (auto simp: rename_try_def split: prod.splits sum.splits option.splits) (metis not_Some_eq)+
  qed
  then obtain s1 e where a: "attempts (rename_try ops 0 old new) 0 s = Some (s1, e)"
    using attempts_returns by metis
  have "held s1 = held s \<and> True"
    by (rule attempts_inv [OF a, where I = "\<lambda>t. held t = held s" and Q = "\<lambda>_ _. True"])
      (auto dest: rename_try_spec)
  then show ?thesis using a by (simp add: krename_def renameat2_def)
qed

text \<open>A file system in which every path leads to the entry \<open>f\<close> of one directory, and in which the
  state counts the delegations still to be broken.\<close>

definition one_file :: dentry where
  "one_file = \<lparr>d_id = 9, d_reval = False, d_neg = False, d_dir = False, d_inode = 9\<rparr>"

definition lease_ops :: "nat nameops" where
  "lease_ops =
     \<lparr>o_kern_path_parent = (\<lambda>w p fl. (w, Inr \<lparr>p_mnt = 1, p_dir = 2, p_last = ''f'', p_slash = False, p_type = LAST_NORM\<rparr>)),
      o_kern_path = (\<lambda>w p fl. (w, Inr (1, 9))),
      o_kern_path_create = (\<lambda>w p fl. (w, Inl (- EEXIST))),
      o_want_write = (\<lambda>w m. (w, 0)),
      o_d_lookup = (\<lambda>w d n. (w, Some one_file)),
      o_d_revalidate = (\<lambda>w d fl. (w, 1)),
      o_d_invalidate = (\<lambda>w d. w),
      o_d_alloc = (\<lambda>w d n. (w, None)),
      o_is_deaddir = (\<lambda>w d. False),
      o_lookup = (\<lambda>w d e fl. (w, e, None)),
      o_vfs_unlink = (\<lambda>w d e. (w, 0, if w = 0 then None else Some 9)),
      o_vfs_rmdir = (\<lambda>w d e. (w, - ENOTDIR)),
      o_vfs_rename = (\<lambda>w a d b e. (w, 0, if w = 0 then None else Some 9)),
      o_vfs_mkdir = (\<lambda>w d e m. (w, 0)),
      o_lock_rename = (\<lambda>w a b. None),
      o_break_deleg = (\<lambda>w i. (w - 1, 0)),
      o_notify_change = (\<lambda>w i m. (w, 0, None)),
      o_i_mode = (\<lambda>w i. 0x81A4), o_posixacl = (\<lambda>w d. False), o_umask = (\<lambda>w. 0x12)\<rparr>"

definition lease_state :: "nat pstate" where
  "lease_state = \<lparr>h_names = 0, h_paths = 0, h_writes = 0, h_dentries = 0, h_inodes = 0, h_locks = [], perrno = 0, pw = 2\<rparr>"

theorem unlink_returns_balanced_witness:
  "\<exists>s' r. kunlink lease_ops ''/f'' lease_state = Some (s', r) \<and> held s' = held lease_state \<and> perrno s' = - r"
proof (rule unlink_returns_balanced)
  show "pw t' < pw t" if "unlink_round lease_ops p fl t = (t', True, e)" for p fl t t' e
    using that
    by (auto simp: unlink_round_def lookup_hash_def lookup_dcache_def lease_ops_def one_file_def after_round_def
          step_defs Let_def split: if_splits)
qed

theorem rename_returns_balanced_witness:
  "\<exists>s' r. krename lease_ops True ''/f'' ''/g'' lease_state = Some (s', r) \<and> held s' = held lease_state \<and> perrno s' = - r"
proof (rule rename_returns_balanced)
  show "pw t' < pw t" if "rename_round lease_ops 0 po pn fl t = (t', True, e)" for po pn fl t t' e
    using that
    by (auto simp: rename_round_def lookup_hash_def lookup_dcache_def lease_ops_def one_file_def after_round_def
          rename_checks_def lock_rename_def unlock_rename_def step_defs Let_def split: if_splits)
qed

end
