(* ===== verification/Db_Page.thy ===== *)
theory Db_Page
  imports Prelude
begin

text \<open>
  The items of a database page: the layout macros of \<open>src/db/src/dbinc/db_page.h\<close> and the two
  routines of \<open>src/db/src/db/db_dup.c\<close> that insert and delete an item.  A page is its header fields
  and its memory; the index array grows upwards from \<open>P_OVERHEAD\<close>, the items grow downwards from
  the end of the page, and both live in the same bytes.  Offsets are little-endian 16-bit integers.
  The relation \<open>holds\<close> says which list of items a page holds; insertion and deletion refine the
  insertion and deletion in that list.
\<close>

section \<open>The code\<close>

datatype protection = Plain | Chksum | Encrypt

record dbh =
  pgsize :: nat
  prot :: protection

record page =
  lsn :: "u32 \<times> u32"
  pgno :: u32
  prev_pgno :: u32
  next_pgno :: u32
  entries :: u16
  hf_offset :: u16
  level :: byte
  ptype :: byte
  mem :: "byte list"

definition P_OVERHEAD :: "dbh \<Rightarrow> nat" where
  "P_OVERHEAD d = 26 + (case prot d of Encrypt \<Rightarrow> 38 | Chksum \<Rightarrow> 6 | Plain \<Rightarrow> 0)"

definition P_INIT :: "page \<Rightarrow> nat \<Rightarrow> u32 \<Rightarrow> u32 \<Rightarrow> u32 \<Rightarrow> byte \<Rightarrow> byte \<Rightarrow> page" where
  "P_INIT pg sz n prev nxt btl ty =
     pg\<lparr>pgno := n, prev_pgno := prev, next_pgno := nxt, entries := 0, hf_offset := word_of_nat sz,
        level := btl, ptype := ty\<rparr>"

text \<open>The index array: \<open>P_INP\<close> and an assignment to one of its elements.\<close>

definition inp :: "dbh \<Rightarrow> byte list \<Rightarrow> nat \<Rightarrow> nat" where
  "inp d m i = unat (m ! (P_OVERHEAD d + 2 * i)) + 256 * unat (m ! (P_OVERHEAD d + 2 * i + 1))"

definition set_inp :: "dbh \<Rightarrow> nat \<Rightarrow> nat \<Rightarrow> byte list \<Rightarrow> byte list" where
  "set_inp d i v m = buf_write (P_OVERHEAD d + 2 * i) (le_enc 2 v) m"

definition memmove_in :: "nat \<Rightarrow> nat \<Rightarrow> nat \<Rightarrow> byte list \<Rightarrow> byte list" where
  "memmove_in dst src len m = buf_write dst (buf_read src len m) m"

text \<open>The free space is computed as a \<open>size_t\<close>.\<close>

definition P_FREESPACE :: "dbh \<Rightarrow> page \<Rightarrow> u64" where
  "P_FREESPACE d pg = ucast (hf_offset pg) - (word_of_nat (P_OVERHEAD d) + ucast (entries pg) * 2)"

definition adjust_indices :: "dbh \<Rightarrow> nat \<Rightarrow> nat \<Rightarrow> nat \<Rightarrow> byte list \<Rightarrow> byte list" where
  "adjust_indices d n offset nbytes m =
     foldl (\<lambda>m cnt. if inp d m cnt < offset then set_inp d cnt ((inp d m cnt + nbytes) mod 65536) m else m)
       m [0..<n]"

definition db_ditem_nolog :: "dbh \<Rightarrow> page \<Rightarrow> nat \<Rightarrow> nat \<Rightarrow> page" where
  "db_ditem_nolog d pg indx nbytes =
     (if entries pg = 1 then pg\<lparr>entries := 0, hf_offset := word_of_nat (pgsize d)\<rparr>
      else (let from = unat (hf_offset pg);
                m1 = memmove_in (from + nbytes) from (inp d (mem pg) indx - from) (mem pg);
                offset = inp d m1 indx;
                m2 = adjust_indices d (unat (entries pg)) offset nbytes m1;
                n' = unat (entries pg - 1);
                m3 = (if indx \<noteq> n'
                      then memmove_in (P_OVERHEAD d + 2 * indx) (P_OVERHEAD d + 2 * (indx + 1)) (2 * (n' - indx)) m2
                      else m2)
            in pg\<lparr>entries := entries pg - 1, hf_offset := hf_offset pg + word_of_nat nbytes, mem := m3\<rparr>))"

text \<open>A \<open>BKEYDATA\<close> header: the low 16 bits of the length, and the type.\<close>

definition bkeydata_hdr :: "byte \<Rightarrow> nat \<Rightarrow> byte list" where
  "bkeydata_hdr ty len = le_enc 2 len @ [ty]"

definition B_KEYDATA :: byte where "B_KEYDATA = 1"

definition BKEYDATA_SIZE :: "nat \<Rightarrow> nat" where
  "BKEYDATA_SIZE len = ((len + 3 + 3) div 4 * 4) mod 65536"

definition BKEYDATA_PSIZE :: "nat \<Rightarrow> nat" where
  "BKEYDATA_PSIZE len = BKEYDATA_SIZE len + 2"

definition db_pitem_nolog ::
    "dbh \<Rightarrow> page \<Rightarrow> nat \<Rightarrow> nat \<Rightarrow> byte list option \<Rightarrow> byte list option \<Rightarrow> page option" where
  "db_pitem_nolog d pg indx nbytes hdr data =
     (if word_of_nat nbytes > P_FREESPACE d pg then None
      else (let dat = (case data of None \<Rightarrow> [] | Some x \<Rightarrow> x);
                h = (case hdr of None \<Rightarrow> bkeydata_hdr B_KEYDATA (length dat) | Some x \<Rightarrow> x);
                n = unat (entries pg);
                m1 = (if indx \<noteq> n
                      then memmove_in (P_OVERHEAD d + 2 * (indx + 1)) (P_OVERHEAD d + 2 * indx) (2 * (n - indx)) (mem pg)
                      else mem pg);
                hoff = hf_offset pg - word_of_nat nbytes;
                m2 = set_inp d indx (unat hoff) m1;
                p = inp d m2 indx;
                m3 = buf_write p h m2;
                m4 = (if data \<noteq> None then buf_write (p + length h) dat m3 else m3)
            in Some (pg\<lparr>entries := entries pg + 1, hf_offset := hoff, mem := m4\<rparr>)))"

text \<open>The logged versions: the log record, or its code, comes before any change of the page.\<close>

datatype 'a res = Done 'a | Fail int

definition LSN_NOT_LOGGED :: "u32 \<times> u32" where "LSN_NOT_LOGGED = (0, 1)"

definition db_ditem :: "(int + u32 \<times> u32) option \<Rightarrow> dbh \<Rightarrow> page \<Rightarrow> nat \<Rightarrow> nat \<Rightarrow> page res" where
  "db_ditem log d pg indx nbytes =
     (case log of
        Some (Inl ret) \<Rightarrow> Fail ret
      | Some (Inr l) \<Rightarrow> Done (db_ditem_nolog d (pg\<lparr>lsn := l\<rparr>) indx nbytes)
      | None \<Rightarrow> Done (db_ditem_nolog d (pg\<lparr>lsn := LSN_NOT_LOGGED\<rparr>) indx nbytes))"

text \<open>\<open>skiplog\<close>: the page is above the watermark of a bulk load, so that logging is skipped.\<close>

definition db_pitem ::
    "(int + u32 \<times> u32) option \<Rightarrow> bool \<Rightarrow> dbh \<Rightarrow> page \<Rightarrow> nat \<Rightarrow> nat \<Rightarrow> byte list option \<Rightarrow> byte list option
      \<Rightarrow> page res" where
  "db_pitem log skiplog d pg indx nbytes hdr data =
     (let go = (\<lambda>p. case db_pitem_nolog d p indx nbytes hdr data of None \<Rightarrow> Fail 22 | Some q \<Rightarrow> Done q) in
      case log of
        None \<Rightarrow> go (pg\<lparr>lsn := LSN_NOT_LOGGED\<rparr>)
      | Some r \<Rightarrow> if skiplog then go pg
                  else (case r of Inl ret \<Rightarrow> Fail ret | Inr l \<Rightarrow> go (pg\<lparr>lsn := l\<rparr>)))"

section \<open>Index array and memory\<close>

lemma le_enc2: "le_enc 2 v = [word_of_nat (v mod 256), word_of_nat (v div 256 mod 256)]"
  by (simp add: numeral_2_eq_2)

lemma length_memmove [simp]:
  "src + len \<le> length m \<Longrightarrow> dst + len \<le> length m \<Longrightarrow> length (memmove_in dst src len m) = length m"
  by (simp add: memmove_in_def)

lemma nth_memmove:
  assumes "src + len \<le> length m" "dst + len \<le> length m" "i < length m"
  shows "memmove_in dst src len m ! i = (if dst \<le> i \<and> i < dst + len then m ! (src + (i - dst)) else m ! i)"
  using assms by (auto simp: memmove_in_def nth_buf_write nth_buf_read)

lemma length_set_inp [simp]:
  "P_OVERHEAD d + 2 * i + 2 \<le> length m \<Longrightarrow> length (set_inp d i v m) = length m"
  by (simp add: set_inp_def)

lemma nth_set_inp:
  assumes "P_OVERHEAD d + 2 * i + 2 \<le> length m" "k < length m"
  shows "set_inp d i v m ! k =
    (if k = P_OVERHEAD d + 2 * i then word_of_nat (v mod 256)
     else if k = P_OVERHEAD d + 2 * i + 1 then word_of_nat (v div 256 mod 256) else m ! k)"
  using assms by (auto simp: set_inp_def nth_buf_write le_enc2 nth_Cons split: nat.split)

lemma inp_set_inp:
  assumes "P_OVERHEAD d + 2 * i + 2 \<le> length m" "P_OVERHEAD d + 2 * j + 2 \<le> length m" "v < 65536"
  shows "inp d (set_inp d i v m) j = (if j = i then v else inp d m j)"
proof (cases "j = i")
  case True
  have "unat (word_of_nat (v div 256) :: byte) = v div 256" using assms(3) by (simp add: unat_of_nat)
  then show ?thesis using True assms by (simp add: inp_def nth_set_inp)
next
  case False
  then have "2 * j \<noteq> 2 * i" "2 * j \<noteq> Suc (2 * i)" "Suc (2 * j) \<noteq> 2 * i" by presburger+
  then show ?thesis using False assms by (simp add: inp_def nth_set_inp)
qed

text \<open>Two memories with the same index array, up to an index.\<close>

lemma inp_cong:
  "m ! (P_OVERHEAD d + 2 * i) = m' ! (P_OVERHEAD d + 2 * j) \<Longrightarrow>
   m ! (P_OVERHEAD d + 2 * i + 1) = m' ! (P_OVERHEAD d + 2 * j + 1) \<Longrightarrow> inp d m i = inp d m' j"
  by (simp add: inp_def)

text \<open>A loop that changes every index of a kind.\<close>

lemma foldl_inp_spec:
  assumes "P_OVERHEAD d + 2 * n \<le> length m" "\<And>i. i < n \<Longrightarrow> c (inp d m i) \<Longrightarrow> g (inp d m i) < 65536"
    and "f = (\<lambda>m cnt. if c (inp d m cnt) then set_inp d cnt (g (inp d m cnt)) m else m)" "m' = foldl f m [0..<n]"
  shows "length m' = length m
    \<and> (\<forall>i<n. inp d m' i = (if c (inp d m i) then g (inp d m i) else inp d m i))
    \<and> (\<forall>k<length m. P_OVERHEAD d + 2 * n \<le> k \<or> k < P_OVERHEAD d \<longrightarrow> m' ! k = m ! k)"
proof -
  have "k \<le> n \<Longrightarrow> length (foldl f m [0..<k]) = length m
      \<and> (\<forall>i<n. inp d (foldl f m [0..<k]) i = (if i < k \<and> c (inp d m i) then g (inp d m i) else inp d m i))
      \<and> (\<forall>j<length m. P_OVERHEAD d + 2 * n \<le> j \<or> j < P_OVERHEAD d \<longrightarrow> foldl f m [0..<k] ! j = m ! j)" for k
  proof (induction k)
    case (Suc k)
    define q where "q = foldl f m [0..<k]"
    have q: "length q = length m" "\<forall>i<n. inp d q i = (if i < k \<and> c (inp d m i) then g (inp d m i) else inp d m i)"
        "\<forall>j<length m. P_OVERHEAD d + 2 * n \<le> j \<or> j < P_OVERHEAD d \<longrightarrow> q ! j = m ! j"
      using Suc by (auto simp: q_def)
    have kn: "k < n" using Suc.prems by simp
    have st: "foldl f m [0..<Suc k] = f q k" by (simp add: q_def)
    have qk: "inp d q k = inp d m k" using q(2) kn by simp
    show ?case
    proof (cases "c (inp d m k)")
      case True
      let ?v = "g (inp d m k)"
      have v: "?v < 65536" using assms(2) [OF kn True] .
      have fq: "f q k = set_inp d k ?v q" using True qk by (simp add: assms(3))
      have b: "P_OVERHEAD d + 2 * i + 2 \<le> length q" if "i < n" for i using that assms(1) q(1) by simp
      have "inp d (f q k) i = (if i < Suc k \<and> c (inp d m i) then g (inp d m i) else inp d m i)" if "i < n" for i
        using that True q(2) unfolding fq inp_set_inp [OF b [OF kn] b [OF that] v] by (auto simp: less_Suc_eq)
      moreover have "f q k ! j = m ! j" if "j < length m" "P_OVERHEAD d + 2 * n \<le> j \<or> j < P_OVERHEAD d" for j
        using that q(1,3) kn b [OF kn] unfolding fq by (subst nth_set_inp) auto
      ultimately show ?thesis using st fq b [OF kn] q(1) by simp
    next
      case False
      then have "f q k = q" using qk by (simp add: assms(3))
      then show ?thesis using st q False by (auto simp: less_Suc_eq)
    qed
  qed simp
  from this [of n] show ?thesis unfolding assms(4) by simp
qed

lemma adjust_indices_spec:
  assumes "P_OVERHEAD d + 2 * n \<le> length m" "\<And>i. i < n \<Longrightarrow> inp d m i < offset \<Longrightarrow> inp d m i + nbytes < 65536"
    and "m' = adjust_indices d n offset nbytes m"
  shows "length m' = length m
    \<and> (\<forall>i<n. inp d m' i = (if inp d m i < offset then inp d m i + nbytes else inp d m i))
    \<and> (\<forall>k<length m. P_OVERHEAD d + 2 * n \<le> k \<or> k < P_OVERHEAD d \<longrightarrow> m' ! k = m ! k)"
proof -
  have "(if a < offset then (a + nbytes) mod 65536 else a) = (if a < offset then a + nbytes else a)"
    if "a = inp d m i" "i < n" for a i
    using assms(2) that by auto
  then show ?thesis
    using foldl_inp_spec [of d n m "\<lambda>a. a < offset" "\<lambda>a. (a + nbytes) mod 65536", OF assms(1) _ refl refl] assms(3)
    by (simp add: adjust_indices_def)
qed

section \<open>The items of a page\<close>

text \<open>
  \<open>holds d pg items\<close>: the page holds these byte strings, in this order.  Every item is found at its
  index, inside the page and above the free space, no two overlap, and together they fill the
  page from \<open>hf_offset\<close> to its end.
\<close>

definition apart :: "nat \<Rightarrow> nat \<Rightarrow> nat \<Rightarrow> nat \<Rightarrow> bool" where
  "apart a la b lb \<longleftrightarrow> a + la \<le> b \<or> b + lb \<le> a"

definition items_at :: "dbh \<Rightarrow> byte list \<Rightarrow> nat \<Rightarrow> byte list list \<Rightarrow> bool" where
  "items_at d m lo items \<longleftrightarrow>
     (\<forall>i<length items. items ! i \<noteq> [] \<and> lo \<le> inp d m i \<and> inp d m i + length (items ! i) \<le> length m
        \<and> buf_read (inp d m i) (length (items ! i)) m = items ! i)
   \<and> (\<forall>i<length items. \<forall>j<length items. i \<noteq> j \<longrightarrow>
        apart (inp d m i) (length (items ! i)) (inp d m j) (length (items ! j)))"

definition holds :: "dbh \<Rightarrow> page \<Rightarrow> byte list list \<Rightarrow> bool" where
  "holds d pg items \<longleftrightarrow>
     length (mem pg) = pgsize d \<and> pgsize d < 65536 \<and> unat (entries pg) = length items
   \<and> P_OVERHEAD d + 2 * length items \<le> unat (hf_offset pg)
   \<and> unat (hf_offset pg) + sum_list (map length items) = pgsize d
   \<and> items_at d (mem pg) (unat (hf_offset pg)) items"

lemma holds_init:
  assumes "length (mem pg) = pgsize d" "pgsize d < 65536" "P_OVERHEAD d \<le> pgsize d"
  shows "holds d (P_INIT pg (pgsize d) n prev nxt btl ty) []"
proof -
  have "unat (word_of_nat (pgsize d) :: u16) = pgsize d" using assms(2) by (simp add: unat_of_nat)
  then show ?thesis using assms by (simp add: holds_def items_at_def P_INIT_def)
qed

text \<open>The free space that the code computes is the room between the index array and the items.\<close>

lemma freespace_value:
  assumes "P_OVERHEAD d + 2 * unat (entries pg) \<le> unat (hf_offset pg)"
  shows "unat (P_FREESPACE d pg) = unat (hf_offset pg) - (P_OVERHEAD d + 2 * unat (entries pg))"
proof -
  let ?a = "ucast (hf_offset pg) :: u64" and ?b = "word_of_nat (P_OVERHEAD d) + ucast (entries pg) * 2 :: u64"
  have h: "unat (hf_offset pg) < 65536" using unsigned_less [of "hf_offset pg"] by simp
  have a: "unat ?a = unat (hf_offset pg)"
    by (simp add: unsigned_ucast_eq take_bit_nat_eq_self_iff) (use h in simp)
  have e: "unat (ucast (entries pg) :: u64) = unat (entries pg)"
  proof -
    have "unat (entries pg) < 2 ^ LENGTH(16)" by (rule unsigned_less)
    then show ?thesis by (simp add: unsigned_ucast_eq take_bit_nat_eq_self_iff)
  qed
  have o: "unat (word_of_nat (P_OVERHEAD d) :: u64) = P_OVERHEAD d"
    using assms h by (simp add: unat_of_nat)
  have m: "unat (ucast (entries pg) * 2 :: u64) = 2 * unat (entries pg)"
    using e assms h by (simp add: unat_word_ariths)
  have b: "unat ?b = P_OVERHEAD d + 2 * unat (entries pg)"
    using o m assms h by (simp add: unat_word_ariths)
  have "?b \<le> ?a" unfolding word_le_nat_alt a b using assms .
  then show ?thesis unfolding P_FREESPACE_def by (simp add: unat_sub a b)
qed

lemma sum_list_take_drop_nth:
  "k < length xs \<Longrightarrow> sum_list (map length xs) = sum_list (map length (take k xs @ drop (Suc k) xs)) + length (xs ! k)"
  by (subst (1) id_take_nth_drop [of k xs]) simp_all

text \<open>Reading a range of a memory after a change elsewhere.\<close>

lemma buf_read_cong:
  assumes "\<And>i. i < len \<Longrightarrow> m ! (a + i) = m' ! (b + i)" "a + len \<le> length m" "b + len \<le> length m'"
  shows "buf_read a len m = buf_read b len m'"
  using assms by (intro nth_equalityI) (simp_all add: nth_buf_read)

lemma nth_delete:
  "k < length xs \<Longrightarrow> j < length xs - 1 \<Longrightarrow> (take k xs @ drop (Suc k) xs) ! j = xs ! (if j < k then j else Suc j)"
  by (auto simp: nth_append min_def)

lemma holdsD:
  assumes "holds d pg items"
  shows "length (mem pg) = pgsize d" "pgsize d < 65536" "unat (entries pg) = length items"
    "P_OVERHEAD d + 2 * length items \<le> unat (hf_offset pg)" "unat (hf_offset pg) \<le> pgsize d"
    "unat (hf_offset pg) + sum_list (map length items) = pgsize d"
    "items_at d (mem pg) (unat (hf_offset pg)) items"
  using assms by (auto simp: holds_def)

lemma items_atD:
  assumes "items_at d m lo items" "i < length items"
  shows "items ! i \<noteq> []" "lo \<le> inp d m i" "inp d m i + length (items ! i) \<le> length m"
    "buf_read (inp d m i) (length (items ! i)) m = items ! i"
  using assms by (auto simp: items_at_def)

lemma items_at_apart:
  "items_at d m lo items \<Longrightarrow> i < length items \<Longrightarrow> j < length items \<Longrightarrow> i \<noteq> j \<Longrightarrow>
    apart (inp d m i) (length (items ! i)) (inp d m j) (length (items ! j))"
  by (auto simp: items_at_def)

text \<open>The memory after a deletion, for a page of at least two items.\<close>

lemma ditem_memory:
  assumes h: "holds d pg items" and k: "k < length items" and n: "2 \<le> length items"
    and nb: "nb = length (items ! k)"
    and m3: "m3 = mem (db_ditem_nolog d pg k nb)"
  shows "length m3 = pgsize d"
    and "\<And>j. j < length items - 1 \<Longrightarrow>
       (let i = (if j < k then j else Suc j); a = inp d (mem pg) i in
        inp d m3 j = (if a < inp d (mem pg) k then a + nb else a)
        \<and> buf_read (inp d m3 j) (length (items ! i)) m3 = items ! i)"
proof -
  let ?m = "mem pg" and ?h = "unat (hf_offset pg)" and ?o = "P_OVERHEAD d" and ?n = "length items"
  let ?off = "inp d ?m k"
  note H = holdsD [OF h] and I = items_atD [OF holdsD(7) [OF h]]
  have koff: "?h \<le> ?off" "?off + nb \<le> pgsize d" "0 < nb" using I [OF k] H(1) nb by auto
  define m1 where "m1 = memmove_in (?h + nb) ?h (?off - ?h) ?m"
  have l1: "length m1 = pgsize d" using koff H(1) by (simp add: m1_def)
  have b1: "m1 ! i = (if ?h + nb \<le> i \<and> i < ?off + nb then ?m ! (i - nb) else ?m ! i)" if "i < pgsize d" for i
  proof -
    have s: "?h + (?off - ?h) \<le> length ?m" "?h + nb + (?off - ?h) \<le> length ?m" "i < length ?m" using koff H(1) that by auto
    show ?thesis unfolding m1_def nth_memmove [OF s] using koff by (auto intro!: arg_cong [of _ _ "(!) ?m"])
  qed
  have i1: "inp d m1 i = inp d ?m i" if "i < ?n" for i
    using that H(4,5) b1 by (intro inp_cong) auto
  have low: "inp d ?m i + length (items ! i) \<le> ?off \<or> ?off + nb \<le> inp d ?m i" if "i < ?n" "i \<noteq> k" for i
    using items_at_apart [OF H(7) that(1) k that(2)] nb by (simp add: apart_def)
  have low': "inp d ?m i < ?off \<Longrightarrow> inp d ?m i + length (items ! i) \<le> ?off" if "i < ?n" "i \<noteq> k" for i
    using low [OF that] koff by linarith
  define m2 where "m2 = adjust_indices d ?n ?off nb m1"
  have small: "inp d m1 i + nb < 65536" if "i < ?n" "inp d m1 i < ?off" for i
    using that i1 koff H(2) by simp
  have s2: "length m2 = length m1"
    "\<forall>i<?n. inp d m2 i = (if inp d m1 i < ?off then inp d m1 i + nb else inp d m1 i)"
    "\<forall>j<length m1. ?o + 2 * ?n \<le> j \<or> j < ?o \<longrightarrow> m2 ! j = m1 ! j"
    using adjust_indices_spec [of d ?n m1 ?off nb m2] l1 H(4,5) small m2_def by simp_all
  define m3' where "m3' = (if k \<noteq> ?n - 1 then memmove_in (?o + 2 * k) (?o + 2 * (k + 1)) (2 * (?n - 1 - k)) m2 else m2)"
  have ne1: "entries pg \<noteq> 1" using H(3) n by auto
  have e1: "unat (entries pg - 1) = ?n - 1"
  proof -
    have "1 \<le> entries pg" using H(3) n by (simp add: word_le_nat_alt)
    then show ?thesis using H(3) by (simp add: unat_sub)
  qed
  have m3e: "m3 = m3'"
    unfolding m3 db_ditem_nolog_def Let_def H(3) e1 m1_def [symmetric] i1 [OF k] m2_def [symmetric] m3'_def [symmetric]
    using ne1 by simp
  have sz: "?o + 2 * (k + 1) + 2 * (?n - 1 - k) \<le> length m2" "?o + 2 * k + 2 * (?n - 1 - k) \<le> length m2"
    using k H(4,5) s2(1) l1 by auto
  show l3: "length m3 = pgsize d" unfolding m3e m3'_def using sz s2(1) l1 by simp
  have b3: "m3 ! i = m1 ! i" if "?h \<le> i" "i < pgsize d" for i
  proof -
    have hi: "\<not> i < ?o + 2 * k + 2 * (?n - Suc k)" using that(1) H(4) k by arith
    have "m3 ! i = m2 ! i"
      unfolding m3e m3'_def using that sz s2(1) l1 H(4) k
      by (cases "k = ?n - 1") (simp_all add: nth_memmove hi)
    then show ?thesis using s2(3) that H(4) l1 by simp
  qed
  have i3: "inp d m3 j = inp d m2 (if j < k then j else Suc j)" if "j < ?n - 1" for j
  proof (cases "k = ?n - 1")
    case True
    then show ?thesis using that by (simp add: m3e m3'_def)
  next
    case False
    have jl: "?o + 2 * j + 1 < length m2" using that H(4,5) s2(1) l1 by linarith
    show ?thesis
      using False that jl sz k unfolding m3e m3'_def inp_def by (auto simp: nth_memmove)
  qed
  show "let i = (if j < k then j else Suc j); a = inp d ?m i in
        inp d m3 j = (if a < ?off then a + nb else a) \<and> buf_read (inp d m3 j) (length (items ! i)) m3 = items ! i"
    if j: "j < ?n - 1" for j
  proof -
    define i where "i = (if j < k then j else Suc j)"
    have i: "i < ?n" "i \<noteq> k" using j k by (auto simp: i_def)
    define a where "a = inp d ?m i"
    have ia: "inp d m3 j = (if a < ?off then a + nb else a)"
      using i3 [OF j] s2(2) i i1 by (simp add: i_def [symmetric] a_def)
    have R: "?h \<le> a" "a + length (items ! i) \<le> pgsize d" "buf_read a (length (items ! i)) ?m = items ! i"
      using I [OF i(1)] H(1) by (auto simp: a_def)
    have "buf_read (inp d m3 j) (length (items ! i)) m3 = buf_read a (length (items ! i)) ?m"
    proof (cases "a < ?off")
      case True
      then have up: "a + length (items ! i) \<le> ?off" using low' [OF i] by (simp add: a_def)
      show ?thesis
      proof (rule buf_read_cong)
        show "inp d m3 j + length (items ! i) \<le> length m3" using ia True up koff l3 by simp
        show "a + length (items ! i) \<le> length ?m" using R H(1) by simp
        show "m3 ! (inp d m3 j + t) = ?m ! (a + t)" if "t < length (items ! i)" for t
        proof -
          have r: "?h \<le> a + nb + t" "a + nb + t < pgsize d" "?h + nb \<le> a + nb + t" "a + nb + t < ?off + nb" "a + nb + t - nb = a + t"
            using up koff R(1) that by auto
          have "m3 ! (a + nb + t) = ?m ! (a + t)" using b3 [OF r(1,2)] b1 [OF r(2)] r(3,4,5) by simp
          then show ?thesis using ia True by simp
        qed
      qed
    next
      case False
      then have dn: "?off + nb \<le> a" using low [OF i] False I(1) [OF i(1)] by (cases "items ! i") (auto simp: a_def)
      show ?thesis
      proof (rule buf_read_cong)
        show "inp d m3 j + length (items ! i) \<le> length m3" using ia False R l3 by simp
        show "a + length (items ! i) \<le> length ?m" using R H(1) by simp
        show "m3 ! (inp d m3 j + t) = ?m ! (a + t)" if "t < length (items ! i)" for t
          using ia False b3 [of "a + t"] b1 [of "a + t"] dn koff R that by simp
      qed
    qed
    then show ?thesis using ia R(3) by (simp add: Let_def i_def [symmetric] a_def [symmetric])
  qed
qed

text \<open>Ranges that lie below an offset move up by the size of the range that starts there.\<close>

lemma apart_shift:
  "apart a la b lb \<Longrightarrow> apart a la x n \<Longrightarrow> apart b lb x n \<Longrightarrow> la \<noteq> 0 \<Longrightarrow> lb \<noteq> 0 \<Longrightarrow>
    apart (if a < x then a + n else a) la (if b < x then b + n else b) lb"
  by (auto simp: apart_def)

lemma ditem_refines:
  assumes h: "holds d pg items" and k: "k < length items"
  shows "holds d (db_ditem_nolog d pg k (length (items ! k))) (take k items @ drop (Suc k) items)"
proof (cases "length items = 1")
  case True
  then have "entries pg = 1" using holdsD(3) [OF h] by (simp add: word_unat_eq_iff)
  moreover have "unat (word_of_nat (pgsize d) :: u16) = pgsize d" using holdsD(2) [OF h] by (simp add: unat_of_nat)
  ultimately show ?thesis
    using True k holdsD [OF h] by (cases items) (auto simp: db_ditem_nolog_def holds_def items_at_def)
next
  case False
  let ?nb = "length (items ! k)" and ?hh = "unat (hf_offset pg)" and ?n = "length items"
  define items' where "items' = take k items @ drop (Suc k) items"
  have n: "2 \<le> ?n" using False k by linarith
  note H = holdsD [OF h] and I = items_atD [OF holdsD(7) [OF h]]
  define q where "q = db_ditem_nolog d pg k ?nb"
  note M = ditem_memory [OF h k n refl, of "mem q", unfolded q_def, OF refl]
  have l': "length items' = ?n - 1" using k by (simp add: items'_def)
  have koff: "?hh \<le> inp d (mem pg) k" "inp d (mem pg) k + ?nb \<le> pgsize d" using I [OF k] H(1) by auto
  have ne1: "entries pg \<noteq> 1" using H(3) n by auto
  have qe: "entries q = entries pg - 1" "hf_offset q = hf_offset pg + word_of_nat ?nb"
    using ne1 by (simp_all add: q_def db_ditem_nolog_def Let_def)
  have e': "unat (entries q) = ?n - 1"
  proof -
    have "1 \<le> entries pg" using H(3) n by (simp add: word_le_nat_alt)
    then show ?thesis unfolding qe using H(3) by (simp add: unat_sub)
  qed
  have hf': "unat (hf_offset q) = ?hh + ?nb"
  proof -
    have s: "?hh + ?nb < 65536" using koff H(2) by linarith
    have "unat (word_of_nat ?nb :: u16) = ?nb" using s by (simp add: unat_of_nat)
    then show ?thesis unfolding qe using s by (simp add: unat_word_ariths)
  qed
  define sg where "sg = (\<lambda>j. if j < k then j else Suc j)"
  have sg: "items' ! j = items ! sg j" "sg j < ?n" "sg j \<noteq> k" if "j < ?n - 1" for j
    using that k nth_delete [OF k, of j] by (auto simp: sg_def items'_def)
  have sg_inj: "sg i = sg j \<Longrightarrow> i = j" for i j by (auto simp: sg_def split: if_splits)
  define ad where "ad = (\<lambda>a. if a < inp d (mem pg) k then a + ?nb else a)"
  have at: "inp d (mem q) j = ad (inp d (mem pg) (sg j))"
      "buf_read (inp d (mem q) j) (length (items ! sg j)) (mem q) = items ! sg j" if "j < ?n - 1" for j
    using M(2) [OF that] unfolding Let_def sg_def ad_def q_def by blast+
  have lm: "length (mem q) = pgsize d" using M(1) by (simp add: q_def)
  have ak: "apart (inp d (mem pg) i) (length (items ! i)) (inp d (mem pg) k) ?nb" if "i < ?n" "i \<noteq> k" for i
    using items_at_apart [OF H(7) that(1) k that(2)] .
  have "items_at d (mem q) (?hh + ?nb) items'"
    unfolding items_at_def l'
  proof (intro conjI allI impI)
    fix j assume j: "j < ?n - 1"
    note S = sg [OF j] and A = at [OF j]
    have R: "?hh \<le> inp d (mem pg) (sg j)" "inp d (mem pg) (sg j) + length (items ! sg j) \<le> pgsize d" "items ! sg j \<noteq> []"
      using I [OF S(2)] H(1) by auto
    note K = ak [OF S(2,3), unfolded apart_def]
    have nn: "length (items ! sg j) \<noteq> 0" "0 < ?nb" using R(3) I(1) [OF k] by auto
    show "items' ! j \<noteq> []" using S R by simp
    show "?hh + ?nb \<le> inp d (mem q) j" 
    proof (cases "inp d (mem pg) (sg j) < inp d (mem pg) k")
      case True
      then show ?thesis using A(1) R(1) by (simp add: ad_def)
    next
      case False
      then have "inp d (mem pg) k + ?nb \<le> inp d (mem pg) (sg j)" using K nn(1) by linarith
      then show ?thesis using A(1) False koff(1) by (simp add: ad_def)
    qed
    show "inp d (mem q) j + length (items' ! j) \<le> length (mem q)"
      using A(1) R K koff lm S(1) by (auto simp: ad_def)
    show "buf_read (inp d (mem q) j) (length (items' ! j)) (mem q) = items' ! j" using A(2) S(1) by simp
  next
    fix i j assume i: "i < ?n - 1" and j: "j < ?n - 1" and ij: "i \<noteq> j"
    have d: "sg i \<noteq> sg j" using sg_inj ij by blast
    have ap: "apart (inp d (mem pg) (sg i)) (length (items ! sg i)) (inp d (mem pg) (sg j)) (length (items ! sg j))"
      using items_at_apart [OF H(7) sg(2) [OF i] sg(2) [OF j] d] .
    have P: "length (items ! sg i) \<noteq> 0" "length (items ! sg j) \<noteq> 0" "?nb \<noteq> 0"
      using I(1) [OF sg(2) [OF i]] I(1) [OF sg(2) [OF j]] I(1) [OF k] by auto
    show "apart (inp d (mem q) i) (length (items' ! i)) (inp d (mem q) j) (length (items' ! j))"
      using apart_shift [OF ap ak [OF sg(2,3) [OF i]] ak [OF sg(2,3) [OF j]] P(1,2)]
      unfolding sg(1) [OF i] sg(1) [OF j] at(1) [OF i] at(1) [OF j] ad_def .
  qed
  moreover have "?hh + ?nb + sum_list (map length items') = pgsize d"
    using H(6) sum_list_take_drop_nth [OF k] by (simp add: items'_def)
  ultimately show ?thesis
    using lm H(2,4) e' hf' l' n unfolding holds_def q_def [symmetric] items'_def [symmetric] by simp
qed

section \<open>Insertion\<close>

lemma nth_insert:
  "k \<le> length xs \<Longrightarrow> j \<le> length xs \<Longrightarrow>
    (take k xs @ x # drop k xs) ! j = (if j < k then xs ! j else if j = k then x else xs ! (j - 1))"
  by (auto simp: nth_append nth_Cons min_def not_less split: nat.split intro!: arg_cong [of _ _ "(!) xs"])

text \<open>The bytes of a new item: the header, the data, and what was there before as padding.\<close>

definition new_item :: "page \<Rightarrow> nat \<Rightarrow> byte list \<Rightarrow> byte list" where
  "new_item pg nb xs = xs @ drop (length xs) (buf_read (unat (hf_offset pg) - nb) nb (mem pg))"

lemma pitem_refines:
  assumes hh: "holds d pg items" and k: "k \<le> length items"
    and room: "P_OVERHEAD d + 2 * length items + 2 + nb \<le> unat (hf_offset pg)" and nb: "0 < nb"
    and dat: "dat = (case data of None \<Rightarrow> [] | Some x \<Rightarrow> x)"
    and hb: "hb = (case hdr of None \<Rightarrow> bkeydata_hdr B_KEYDATA (length dat) | Some x \<Rightarrow> x)"
    and fits: "length hb + length dat \<le> nb"
  shows "\<exists>q. db_pitem_nolog d pg k nb hdr data = Some q
    \<and> holds d q (take k items @ new_item pg nb (hb @ dat) # drop k items)"
proof -
  let ?m = "mem pg" and ?o = "P_OVERHEAD d" and ?n = "length items" and ?h = "unat (hf_offset pg)"
  note H = holdsD [OF hh] and I = items_atD [OF holdsD(7) [OF hh]]
  have nb16: "unat (word_of_nat nb :: u16) = nb" using room H(2,5) by (simp add: unat_of_nat)
  have fs: "\<not> word_of_nat nb > P_FREESPACE d pg"
  proof -
    have "unat (word_of_nat nb :: u64) = nb" using room H(2,5) by (simp add: unat_of_nat)
    then show ?thesis using freespace_value [of d pg] H(3,4) room by (simp add: word_less_nat_alt)
  qed
  define lo where "lo = ?h - nb"
  have lo: "unat (hf_offset pg - word_of_nat nb) = lo" "lo + nb = ?h" "?o + 2 * ?n + 2 \<le> lo" "lo < 65536"
  proof -
    have "word_of_nat nb \<le> hf_offset pg" using room nb16 by (simp add: word_le_nat_alt)
    then show "unat (hf_offset pg - word_of_nat nb) = lo" using nb16 by (simp add: unat_sub lo_def)
    show "lo + nb = ?h" "?o + 2 * ?n + 2 \<le> lo" "lo < 65536" using room H(2,5) by (auto simp: lo_def)
  qed
  define m1 where "m1 = (if k \<noteq> ?n then memmove_in (?o + 2 * (k + 1)) (?o + 2 * k) (2 * (?n - k)) ?m else ?m)"
  have sz: "?o + 2 * k + 2 * (?n - k) \<le> length ?m" "?o + 2 * (k + 1) + 2 * (?n - k) \<le> length ?m"
    using k lo H(1,5) by auto
  have l1: "length m1 = pgsize d" using sz H(1) by (auto simp: m1_def)
  have b1: "m1 ! i = ?m ! i" if "lo \<le> i" "i < pgsize d" for i
  proof -
    have hi: "\<not> i < ?o + 2 * (k + 1) + 2 * (?n - k)" using that(1) lo(3) k by arith
    have li: "i < length ?m" using that H(1) by simp
    show ?thesis unfolding m1_def using nth_memmove [OF sz li] hi by simp
  qed
  have i1: "inp d m1 j = (if j < k then inp d ?m j else inp d ?m (j - 1))" if "j \<le> ?n" "j \<noteq> k" for j
  proof -
    have li: "?o + 2 * j < length ?m" "?o + 2 * j + 1 < length ?m" using that lo H(1,5) by auto
    have e: "?o + 2 * k + (?o + 2 * j - (?o + 2 * (k + 1))) = ?o + 2 * (j - 1)"
      "?o + 2 * k + (?o + 2 * j + 1 - (?o + 2 * (k + 1))) = ?o + 2 * (j - 1) + 1" if "k < j" using that by auto
    show ?thesis
    proof (cases "j < k")
      case True
      then show ?thesis unfolding inp_def m1_def
        using nth_memmove [OF sz li(1)] nth_memmove [OF sz li(2)] by simp
    next
      case False
      then have j: "k < j" using that(2) by simp
      then have r: "?o + 2 * (k + 1) \<le> ?o + 2 * j" "?o + 2 * j + 1 < ?o + 2 * (k + 1) + 2 * (?n - k)" "k \<noteq> ?n"
        using that(1) by auto
      show ?thesis unfolding inp_def m1_def
        using nth_memmove [OF sz li(1)] nth_memmove [OF sz li(2)] r e [OF j] False by simp
    qed
  qed
  define m2 where "m2 = set_inp d k lo m1"
  have kb: "?o + 2 * k + 2 \<le> length m1" using k lo l1 H(5) by simp
  have jb: "?o + 2 * j + 2 \<le> length m1" if "j \<le> ?n" for j using that lo l1 H(5) by simp
  have l2: "length m2 = pgsize d" using kb l1 by (simp add: m2_def)
  have i2: "inp d m2 j = (if j = k then lo else if j < k then inp d ?m j else inp d ?m (j - 1))" if "j \<le> ?n" for j
    unfolding m2_def inp_set_inp [OF kb jb [OF that] lo(4)] using i1 [OF that] by simp
  have b2: "m2 ! i = ?m ! i" if "lo \<le> i" "i < pgsize d" for i
    unfolding m2_def using nth_set_inp [OF kb, of i lo] that lo(3) l1 k b1 by simp
  define m4 where "m4 = buf_write lo (hb @ dat) m2"
  have fit: "lo + length (hb @ dat) \<le> length m2" using fits lo l2 H(5) by simp
  have m4e: "m4 = (if data \<noteq> None then buf_write (lo + length hb) dat (buf_write lo hb m2) else buf_write lo hb m2)"
  proof (cases data)
    case None
    then show ?thesis using dat by (simp add: m4_def)
  next
    case (Some x)
    then show ?thesis using fit by (simp add: m4_def buf_write_write_adjacent)
  qed
  define q where "q = pg\<lparr>entries := entries pg + 1, hf_offset := hf_offset pg - word_of_nat nb, mem := m4\<rparr>"
  have run: "db_pitem_nolog d pg k nb hdr data = Some q"
    unfolding db_pitem_nolog_def if_not_P [OF fs] dat [symmetric] hb [symmetric] Let_def H(3) lo(1)
      m1_def [symmetric] m2_def [symmetric] q_def
    using i2 [OF k] m4e by simp
  have l4: "length m4 = pgsize d" using fit l2 by (simp add: m4_def)
  have b4: "m4 ! i = (if lo \<le> i \<and> i < lo + length (hb @ dat) then (hb @ dat) ! (i - lo) else m2 ! i)" if "i < pgsize d" for i
    unfolding m4_def using nth_buf_write [OF fit, of i] that l2 by simp
  have i4: "inp d m4 j = inp d m2 j" if "j \<le> ?n" for j
    using that lo b4 H(5) by (intro inp_cong) auto
  define it where "it = new_item pg nb (hb @ dat)"
  have lit: "length it = nb" using fits H(1,5) lo by (simp add: it_def new_item_def lo_def [symmetric])
  have rit: "buf_read lo nb m4 = it"
  proof (rule nth_equalityI)
    show "length (buf_read lo nb m4) = length it" using lit l4 lo H(5) by simp
    fix t assume "t < length (buf_read lo nb m4)"
    then have t: "t < nb" using l4 lo H(5) by simp
    have "it ! t = (if t < length (hb @ dat) then (hb @ dat) ! t else ?m ! (lo + t))"
      using t fits H(1,5) lo unfolding it_def new_item_def lo_def [symmetric] by (auto simp: nth_append nth_buf_read)
    then show "buf_read lo nb m4 ! t = it ! t"
      using t l4 lo H(5) b4 [of "lo + t"] b2 [of "lo + t"] by (simp add: nth_buf_read)
  qed
  define items' where "items' = take k items @ it # drop k items"
  have l': "length items' = ?n + 1" using k by (simp add: items'_def)
  have e': "unat (entries q) = ?n + 1"
  proof -
    have "unat (entries pg) + 1 < 65536" using H(3) lo H(2,5) by simp
    then show ?thesis using H(3) by (simp add: q_def unat_word_ariths)
  qed
  have it': "items' ! j = (if j = k then it else items ! (if j < k then j else j - 1))" if "j \<le> ?n" for j
    using nth_insert [OF k that, of it] by (simp add: items'_def)
  have ii: "inp d m4 j = (if j = k then lo else inp d ?m (if j < k then j else j - 1))" if "j \<le> ?n" for j
    using i4 [OF that] i2 [OF that] by simp
  have old: "(if j < k then j else j - 1) < ?n" if "j \<le> ?n" "j \<noteq> k" for j using that k by auto
  have rd: "buf_read (inp d ?m i) (length (items ! i)) m4 = items ! i" if "i < ?n" for i
  proof -
    have "buf_read (inp d ?m i) (length (items ! i)) m4 = buf_read (inp d ?m i) (length (items ! i)) ?m"
      using I [OF that] H(1) lo l4 b4 b2 fits by (intro buf_read_cong) auto
    then show ?thesis using I(4) [OF that] by simp
  qed
  have "items_at d m4 lo items'"
    unfolding items_at_def l'
  proof (intro conjI allI impI)
    fix j assume "j < ?n + 1"
    then have j: "j \<le> ?n" by simp
    show "items' ! j \<noteq> []"
    proof (cases "j = k")
      case True
      then have "length (items' ! j) = nb" using it' [OF j] lit by simp
      then show ?thesis using nb by auto
    qed (use it' [OF j] I(1) [OF old [OF j]] in simp)
    show "lo \<le> inp d m4 j" using ii [OF j] I(2) [OF old [OF j]] lo(2) by (cases "j = k") auto
    show "inp d m4 j + length (items' ! j) \<le> length m4"
      using ii [OF j] it' [OF j] I(3) [OF old [OF j]] lit lo l4 H(1,5) by (cases "j = k") auto
    show "buf_read (inp d m4 j) (length (items' ! j)) m4 = items' ! j"
      using ii [OF j] it' [OF j] rd [OF old [OF j]] lit rit by (cases "j = k") auto
  next
    fix i j assume "i < ?n + 1" "j < ?n + 1" and ij: "i \<noteq> j"
    then have i: "i \<le> ?n" and j: "j \<le> ?n" by simp_all
    define si where "si = (if i < k then i else i - 1)"
    define sj where "sj = (if j < k then j else j - 1)"
    have ne: "i \<noteq> k \<Longrightarrow> j \<noteq> k \<Longrightarrow> si \<noteq> sj" using ij by (auto simp: si_def sj_def)
    show "apart (inp d m4 i) (length (items' ! i)) (inp d m4 j) (length (items' ! j))"
    proof (cases "i = k \<or> j = k")
      case True
      then show ?thesis
        using ii [OF i] ii [OF j] it' [OF i] it' [OF j] I(2) [OF old [OF i]] I(2) [OF old [OF j]] lit lo(2) ij
        by (auto simp: apart_def)
    next
      case False
      then show ?thesis
        using ii [OF i] ii [OF j] it' [OF i] it' [OF j] ne items_at_apart [OF H(7) old [OF i] old [OF j]]
        by (auto simp: si_def sj_def)
    qed
  qed
  moreover have "lo + sum_list (map length items') = pgsize d"
  proof -
    have "sum_list (map length items) = sum_list (map length (take k items)) + sum_list (map length (drop k items))"
      by (metis append_take_drop_id map_append sum_list_append)
    then show ?thesis using H(6) lo(2) lit by (simp add: items'_def)
  qed
  ultimately have "holds d q items'"
    using H(2) l4 e' l' lo unfolding holds_def q_def by simp
  then show ?thesis using run unfolding items'_def it_def by blast
qed

section \<open>Properties\<close>

text \<open>C19: \<open>__db_pitem\<close>, logged or not, with room for the item and for its index, inserts exactly
  the item (its header, its data and padding) at the index: the page then holds the list with the
  item inserted, every other item unchanged, though the index array has moved.\<close>

theorem pitem_inserts_item:
  assumes "holds d pg items" "k \<le> length items"
    and "P_OVERHEAD d + 2 * length items + 2 + nb \<le> unat (hf_offset pg)" "0 < nb"
    and "dat = (case data of None \<Rightarrow> [] | Some x \<Rightarrow> x)"
    and "hb = (case hdr of None \<Rightarrow> bkeydata_hdr B_KEYDATA (length dat) | Some x \<Rightarrow> x)"
    and "length hb + length dat \<le> nb" "\<not> (\<exists>e. lg = Some (Inl e) \<and> \<not> skiplog)"
  shows "\<exists>q. db_pitem lg skiplog d pg k nb hdr data = Done q
    \<and> holds d q (take k items @ new_item pg nb (hb @ dat) # drop k items)"
proof -
  have "\<exists>q. db_pitem_nolog d (pg\<lparr>lsn := l\<rparr>) k nb hdr data = Some q
    \<and> holds d q (take k items @ new_item (pg\<lparr>lsn := l\<rparr>) nb (hb @ dat) # drop k items)" for l
    by (rule pitem_refines) (use assms in \<open>auto simp: holds_def\<close>)
  moreover have "new_item (pg\<lparr>lsn := l\<rparr>) nb (hb @ dat) = new_item pg nb (hb @ dat)" for l
    by (simp add: new_item_def)
  ultimately have L: "\<exists>q. db_pitem_nolog d (pg\<lparr>lsn := l\<rparr>) k nb hdr data = Some q
      \<and> holds d q (take k items @ new_item pg nb (hb @ dat) # drop k items)" for l
    by simp
  show ?thesis
  proof (cases lg)
    case None
    from L [of LSN_NOT_LOGGED] show ?thesis unfolding None db_pitem_def Let_def by force
  next
    case (Some r)
    show ?thesis
    proof (cases skiplog)
      case True
      from pitem_refines [OF assms(1-7)] show ?thesis unfolding Some db_pitem_def Let_def using True by force
    next
      case False
      then obtain l where "r = Inr l" using assms(8) Some by (cases r) auto
      with L [of l] show ?thesis unfolding Some db_pitem_def Let_def using False by force
    qed
  qed
qed

definition small_db :: dbh where "small_db = \<lparr>pgsize = 64, prot = Plain\<rparr>"

definition small_page :: page where
  "small_page = \<lparr>lsn = (0, 0), pgno = 3, prev_pgno = 0, next_pgno = 0, entries = 0, hf_offset = 64, level = 1,
     ptype = 5, mem = replicate 64 0\<rparr>"

lemma small_page_holds: "holds small_db small_page []"
  by (simp add: holds_def items_at_def small_db_def small_page_def P_OVERHEAD_def)

theorem pitem_inserts_item_witness:
  "\<exists>q. db_pitem None False small_db small_page 0 8 None (Some [65, 66]) = Done q
    \<and> holds small_db q [[2, 0, 1, 65, 66, 0, 0, 0]]"
proof -
  have "new_item small_page 8 (bkeydata_hdr B_KEYDATA (length [65, 66]) @ [65, 66]) = [2, 0, 1, 65, 66, 0, 0, 0]"
    by code_simp
  then show ?thesis
    using pitem_inserts_item [OF small_page_holds, of 0 8 "[65, 66]" "Some [65, 66]"
        "bkeydata_hdr B_KEYDATA (length [65, 66])" None None False]
    by (simp add: small_page_def small_db_def P_OVERHEAD_def bkeydata_hdr_def le_enc2)
qed

text \<open>C20: \<open>__db_ditem\<close> with the size of the item removes exactly that item: the others are packed
  to the end of the page, their indices follow them, and the free space grows by the size.\<close>

theorem ditem_removes_item:
  assumes "holds d pg items" "k < length items" "\<not> (\<exists>e. lg = Some (Inl e))"
  shows "\<exists>q. db_ditem lg d pg k (length (items ! k)) = Done q \<and> holds d q (take k items @ drop (Suc k) items)"
proof -
  have "holds d (db_ditem_nolog d (pg\<lparr>lsn := l\<rparr>) k (length (items ! k))) (take k items @ drop (Suc k) items)" for l
    by (rule ditem_refines) (use assms in \<open>auto simp: holds_def\<close>)
  then show ?thesis using assms(3) by (cases lg) (auto simp: db_ditem_def split: sum.splits)
qed

theorem ditem_removes_item_witness:
  "\<exists>p q. holds small_db p [[2, 0, 1, 65, 66, 0, 0, 0]] \<and> db_ditem None small_db p 0 8 = Done q \<and> holds small_db q []"
proof -
  have "new_item small_page 8 (bkeydata_hdr B_KEYDATA (length [65, 66]) @ [65, 66]) = [2, 0, 1, 65, 66, 0, 0, 0]"
    by code_simp
  then obtain p where p: "holds small_db p [[2, 0, 1, 65, 66, 0, 0, 0]]"
    using pitem_refines [OF small_page_holds, of 0 8 "[65, 66]" "Some [65, 66]" "bkeydata_hdr B_KEYDATA (length [65, 66])" None]
    by (auto simp: small_page_def small_db_def P_OVERHEAD_def bkeydata_hdr_def le_enc2)
  have "\<exists>q. db_ditem None small_db p 0 8 = Done q \<and> holds small_db q []"
    using ditem_removes_item [OF p, of 0 None] by (simp add: eval_nat_numeral)
  then show ?thesis using p by auto
qed

text \<open>The room check of \<open>__db_pitem_nolog\<close> compares the item with the free space and
  leaves out the two bytes of its index.  An item that just fills the free space passes the check
  and overwrites its own index: the page no longer holds it.\<close>

theorem pitem_check_ignores_index:
  "\<exists>q. db_pitem_nolog small_db small_page 0 38 (Some (replicate 38 255)) None = Some q
    \<and> unat (P_FREESPACE small_db small_page) = 38 \<and> \<not> holds small_db q [replicate 38 255]"
proof -
  let ?q = "small_page\<lparr>entries := 1, hf_offset := 26, mem := replicate 26 0 @ replicate 38 255\<rparr>"
  have f: "P_FREESPACE small_db small_page = 38"
    by (simp add: P_FREESPACE_def small_db_def small_page_def P_OVERHEAD_def)
  have r: "db_pitem_nolog small_db small_page 0 38 (Some (replicate 38 255)) None = Some ?q"
  proof -
    have n: "\<not> P_FREESPACE small_db small_page < word_of_nat 38" by (simp add: f)
    have m2: "set_inp small_db 0 26 (replicate 64 0) = replicate 26 0 @ [26, 0] @ replicate 36 0"
      by (simp add: set_inp_def buf_write_def le_enc2 small_db_def P_OVERHEAD_def)
    have p: "inp small_db (replicate 26 0 @ [26, 0] @ replicate 36 0) 0 = 26"
      by (simp add: inp_def small_db_def P_OVERHEAD_def nth_append)
    show ?thesis
      unfolding db_pitem_nolog_def using n m2 p
      by (simp add: small_page_def Let_def buf_write_def)
  qed
  have "inp small_db (mem ?q) 0 = 65535"
    by (simp add: inp_def small_db_def P_OVERHEAD_def nth_append)
  then have "\<not> items_at small_db (mem ?q) 26 [replicate 38 255]" by (simp add: items_at_def)
  then have "\<not> holds small_db ?q [replicate 38 255]" by (simp add: holds_def)
  then show ?thesis using r f by auto
qed

end
