(* ===== verification/Db_Alloc.thy ===== *)
theory Db_Alloc
  imports Db_Page
begin

text \<open>
  The page allocator of a database file: \<open>__db_new\<close> and \<open>__db_free\<close> of \<open>src/db/src/db/db_meta.c\<close>, as
  the kernel port builds them (no sorted free list, no hash method).  The state is the pages of the
  file, the free list of the metadata page, the pins that the buffer pool counts and the lock of the
  metadata page; the calls into the buffer pool, the log and the lock manager take their return
  codes from an environment, one for each call.  A page pointer is the number of the page.
\<close>

section \<open>The state and the environment\<close>

record pager =
  pages :: "u32 \<rightharpoonup> page"
  m_free :: u32
  m_last :: u32
  m_lsn :: "u32 \<times> u32"
  pins :: "u32 \<Rightarrow> int"
  m_locks :: int
  tick :: nat

text \<open>
  \<open>io\<close> is the code of the call that takes, locks or logs something, \<open>put_io\<close> that of the call that
  gives it back; a page or lock whose return fails stays held, as the failures are panics that come
  before the count is changed.  \<open>lost\<close> says whether a failed \<open>__memp_dirty\<close> has given the page up,
  \<open>junk\<close> is the memory of a page new in the pool, \<open>log_lsn\<close> the position of a log record.
\<close>

record penv =
  pdb :: dbh
  io :: "nat \<Rightarrow> int"
  put_io :: "nat \<Rightarrow> int"
  lost :: "nat \<Rightarrow> bool"
  junk :: "nat \<Rightarrow> byte list"
  logging :: bool
  log_lsn :: "nat \<Rightarrow> u32 \<times> u32"

definition P_INVALID :: byte where "P_INVALID = 0"
definition P_OVERFLOW :: byte where "P_OVERFLOW = 7"
definition PGNO_INVALID :: u32 where "PGNO_INVALID = 0"
definition PGNO_BASE_MD :: u32 where "PGNO_BASE_MD = 0"
definition DB_PAGE_NOTFOUND :: int where "DB_PAGE_NOTFOUND = - 30985"
definition DB_RUNRECOVERY :: int where "DB_RUNRECOVERY = - 30972"

definition pg_of :: "pager \<Rightarrow> u32 \<Rightarrow> page" where
  "pg_of s n = the (pages s n)"

definition upd_pg :: "pager \<Rightarrow> u32 \<Rightarrow> (page \<Rightarrow> page) \<Rightarrow> pager" where
  "upd_pg s n f = s\<lparr>pages := (pages s)(n \<mapsto> f (pg_of s n))\<rparr>"

definition pin :: "pager \<Rightarrow> u32 \<Rightarrow> int \<Rightarrow> pager" where
  "pin s n k = s\<lparr>pins := (pins s)(n := pins s n + k)\<rparr>"

definition tock :: "pager \<Rightarrow> pager" where "tock s = s\<lparr>tick := Suc (tick s)\<rparr>"

subsection \<open>The calls outside the allocator\<close>

definition memp_fget :: "penv \<Rightarrow> pager \<Rightarrow> u32 \<Rightarrow> pager \<times> int" where
  "memp_fget E s n =
     (if io E (tick s) \<noteq> 0 then (tock s, io E (tick s))
      else if n \<noteq> PGNO_BASE_MD \<and> pages s n = None then (tock s, DB_PAGE_NOTFOUND)
      else (pin (tock s) n 1, 0))"

definition memp_fget_new :: "penv \<Rightarrow> pager \<Rightarrow> u32 \<Rightarrow> pager \<times> int" where
  "memp_fget_new E s n =
     (if io E (tick s) \<noteq> 0 then (tock s, io E (tick s))
      else (pin ((tock s)\<lparr>pages := (pages s)(n \<mapsto>
        \<lparr>lsn = (0, 0), pgno = 0, prev_pgno = 0, next_pgno = 0, entries = 0, hf_offset = 0, level = 0,
         ptype = 0, mem = junk E (tick s)\<rparr>)\<rparr>) n 1, 0))"

definition memp_fput :: "penv \<Rightarrow> pager \<Rightarrow> u32 \<Rightarrow> pager \<times> int" where
  "memp_fput E s n =
     (let e = put_io E (tick s) in (if e = 0 then pin (tock s) n (- 1) else tock s, e))"

definition memp_dirty :: "penv \<Rightarrow> pager \<Rightarrow> u32 \<Rightarrow> pager \<times> int \<times> bool" where
  "memp_dirty E s n =
     (let e = io E (tick s) in
      if e = 0 then (tock s, 0, False)
      else if lost E (tick s) then (pin (tock s) n (- 1), e, True) else (tock s, e, False))"

definition lget_meta :: "penv \<Rightarrow> pager \<Rightarrow> pager \<times> int" where
  "lget_meta E s =
     (let e = io E (tick s) in (if e = 0 then (tock s)\<lparr>m_locks := m_locks s + 1\<rparr> else tock s, e))"

definition tlput_meta :: "penv \<Rightarrow> pager \<Rightarrow> pager \<times> int" where
  "tlput_meta E s =
     (let e = put_io E (tick s) in (if e = 0 then (tock s)\<lparr>m_locks := m_locks s - 1\<rparr> else tock s, e))"

text \<open>A log record when the cursor logs, the value of \<open>LSN_NOT_LOGGED\<close> when it does not.\<close>

definition log_put :: "penv \<Rightarrow> pager \<Rightarrow> pager \<times> int \<times> (u32 \<times> u32)" where
  "log_put E s =
     (if logging E then (tock s, io E (tick s), log_lsn E (tick s)) else (s, 0, LSN_NOT_LOGGED))"

section \<open>The allocator\<close>

text \<open>The label \<open>err\<close> of \<open>__db_new\<close>: the page, the metadata page and the lock that are held.\<close>

definition new_err :: "penv \<Rightarrow> pager \<Rightarrow> u32 option \<Rightarrow> bool \<Rightarrow> bool \<Rightarrow> int \<Rightarrow> pager \<times> int \<times> u32 option" where
  "new_err E s h meta locked ret =
     (let s1 = (case h of None \<Rightarrow> s | Some n \<Rightarrow> fst (memp_fput E s n));
          s2 = (if meta then fst (memp_fput E s1 PGNO_BASE_MD) else s1);
          s3 = (if locked then fst (tlput_meta E s2) else s2)
      in (s3, ret, None))"

definition new_page :: "penv \<Rightarrow> pager \<Rightarrow> u32 \<Rightarrow> bool \<Rightarrow> byte \<Rightarrow> pager \<times> int \<times> u32 option" where
  "new_page E s n ext ty =
     (let newnext = (if ext then PGNO_INVALID else next_pgno (pg_of s n));
          (s1, e, l) = log_put E s
      in if e \<noteq> 0 then new_err E s1 (if ext then None else Some n) True True e
         else (let s2 = s1\<lparr>m_lsn := l, m_free := newnext\<rparr>;
                   (s3, e) = (if ext then memp_fget_new E s2 n else (s2, 0))
               in if e \<noteq> 0 then new_err E s3 None True True e
                  else (let s4 = (if ext
                              then upd_pg (s3\<lparr>m_last := n\<rparr>) n (\<lambda>p. p\<lparr>lsn := (0, 0), pgno := n\<rparr>) else s3);
                            s5 = upd_pg s4 n (\<lambda>p. p\<lparr>lsn := m_lsn s4\<rparr>);
                            (s6, e) = memp_fput E s5 PGNO_BASE_MD
                        in if e \<noteq> 0 then new_err E s6 (Some n) True True e
                           else (let s7 = upd_pg s6 n (\<lambda>p. P_INIT p (pgsize (pdb E)) (pgno p)
                                              PGNO_INVALID PGNO_INVALID 0 ty);
                                     (s8, e) = tlput_meta E s7
                                 in if e \<noteq> 0 then (s8, e, None) else (s8, 0, Some n)))))"

definition db_new :: "penv \<Rightarrow> pager \<Rightarrow> byte \<Rightarrow> bool \<Rightarrow> pager \<times> int \<times> u32 option" where
  "db_new E s ty dontextend =
     (let (s1, e) = lget_meta E s in
      if e \<noteq> 0 then new_err E s1 None False False e
      else (let (s2, e) = memp_fget E s1 PGNO_BASE_MD in
        if e \<noteq> 0 then new_err E s2 None False True e
        else if m_free s2 = PGNO_INVALID then
          (if dontextend then new_err E s2 None True True 0 else new_page E s2 (m_last s2 + 1) True ty)
        else (let n = m_free s2; (s3, e) = memp_fget E s2 n in
          if e \<noteq> 0 then new_err E s3 None True True e
          else if ptype (pg_of s3 n) \<noteq> P_INVALID then (s3, DB_RUNRECOVERY, None)
          else new_page E s3 n False ty)))"

text \<open>The labels \<open>err1\<close> and \<open>err\<close> of \<open>__db_free\<close>; the first error code is kept.\<close>

definition keep :: "int \<Rightarrow> int \<Rightarrow> int" where "keep ret t = (if t \<noteq> 0 \<and> ret = 0 then t else ret)"

definition free_err :: "penv \<Rightarrow> pager \<Rightarrow> u32 option \<Rightarrow> int \<Rightarrow> pager \<times> int" where
  "free_err E s h ret =
     (case h of None \<Rightarrow> (s, ret) | Some n \<Rightarrow> (let (s1, t) = memp_fput E s n in (s1, keep ret t)))"

definition free_err1 :: "penv \<Rightarrow> pager \<Rightarrow> u32 option \<Rightarrow> bool \<Rightarrow> int \<Rightarrow> pager \<times> int" where
  "free_err1 E s h meta ret =
     (let (s1, r1) = (if meta then (let (s1, t) = memp_fput E s PGNO_BASE_MD in (s1, keep ret t)) else (s, ret));
          (s2, t) = tlput_meta E s1
      in free_err E s2 h (keep r1 t))"

definition db_free :: "penv \<Rightarrow> pager \<Rightarrow> u32 \<Rightarrow> pager \<times> int" where
  "db_free E s n =
     (let (s1, e) = lget_meta E s in
      if e \<noteq> 0 then free_err E s1 (Some n) e
      else (let (s2, e) = memp_fget E s1 PGNO_BASE_MD in
        if e \<noteq> 0 then free_err1 E s2 (Some n) False e
        else (let next = m_free s2; (s4, e, l) = log_put E s2 in
          if e \<noteq> 0 then free_err1 E s4 (Some n) True e
          else (let s5 = s4\<lparr>m_lsn := l\<rparr>; (s6, e, gone) = memp_dirty E s5 n in
            if e \<noteq> 0 then free_err1 E s6 (if gone then None else Some n) True e
            else (let s7 = upd_pg s6 n (\<lambda>p. P_INIT (p\<lparr>lsn := m_lsn s6\<rparr>) (pgsize (pdb E)) (pgno p)
                             PGNO_INVALID next 0 P_INVALID);
                      s8 = s7\<lparr>m_free := pgno (pg_of s7 n)\<rparr>
                  in free_err1 E s8 (Some n) True 0)))))"

section \<open>The pages in use and the free list\<close>

definition env_ok :: "penv \<Rightarrow> bool" where
  "env_ok E \<longleftrightarrow> (\<forall>t. length (junk E t) = pgsize (pdb E)) \<and> P_OVERHEAD (pdb E) < pgsize (pdb E) \<and> pgsize (pdb E) < 65536"

fun free_list :: "pager \<Rightarrow> u32 \<Rightarrow> u32 list \<Rightarrow> bool" where
  "free_list s n [] = (n = PGNO_INVALID)"
| "free_list s n (f # fs) =
     (n = f \<and> f \<noteq> PGNO_INVALID \<and> f \<notin> set fs \<and> pages s f \<noteq> None \<and> ptype (pg_of s f) = P_INVALID
      \<and> free_list s (next_pgno (pg_of s f)) fs)"

definition pager_ok :: "penv \<Rightarrow> u32 list \<Rightarrow> pager \<Rightarrow> bool" where
  "pager_ok E fs s \<longleftrightarrow>
     (\<forall>n. pages s n \<noteq> None \<longleftrightarrow> 0 < n \<and> n \<le> m_last s)
   \<and> (\<forall>n pg. pages s n = Some pg \<longrightarrow> pgno pg = n \<and> length (mem pg) = pgsize (pdb E))
   \<and> free_list s (m_free s) fs"

definition in_use :: "u32 list \<Rightarrow> pager \<Rightarrow> u32 set" where
  "in_use fs s = dom (pages s) - set fs"

lemma free_list_cong:
  "\<lbrakk>\<And>f. f \<in> set fs \<Longrightarrow> pages s f = pages t f\<rbrakk> \<Longrightarrow> free_list s n fs = free_list t n fs"
  by (induction fs arbitrary: n) (auto simp: pg_of_def)

lemma pager_frame [simp]:
  "pages (tock s) = pages s" "m_free (tock s) = m_free s" "m_last (tock s) = m_last s"
  "pins (tock s) = pins s" "m_locks (tock s) = m_locks s"
  "pages (pin s n k) = pages s" "m_free (pin s n k) = m_free s" "m_last (pin s n k) = m_last s"
  "m_locks (pin s n k) = m_locks s" "pins (pin s n k) = (pins s)(n := pins s n + k)"
  "pages (upd_pg s n f) = (pages s)(n \<mapsto> f (pg_of s n))" "m_free (upd_pg s n f) = m_free s"
  "m_last (upd_pg s n f) = m_last s" "pins (upd_pg s n f) = pins s" "m_locks (upd_pg s n f) = m_locks s"
  "m_lsn (tock s) = m_lsn s" "m_lsn (pin s n k) = m_lsn s" "m_lsn (upd_pg s n f) = m_lsn s"
  "tick (tock s) = Suc (tick s)"
  by (simp_all add: tock_def pin_def upd_pg_def)

text \<open>What the state keeps over the calls that only count.\<close>

definition same_pages :: "pager \<Rightarrow> pager \<Rightarrow> bool" where
  "same_pages s t \<longleftrightarrow> pages t = pages s \<and> m_free t = m_free s \<and> m_last t = m_last s"

lemma same_pages_refl [simp]: "same_pages s s" by (simp add: same_pages_def)

lemma same_pages_trans: "same_pages s t \<Longrightarrow> same_pages t u \<Longrightarrow> same_pages s u"
  by (simp add: same_pages_def)

lemma same_pages_ok: "same_pages s t \<Longrightarrow> pager_ok E fs t = pager_ok E fs s"
  by (simp add: same_pages_def pager_ok_def free_list_cong [of fs t s])

lemma memp_fget_spec:
  assumes "memp_fget E s n = (t, e)"
  shows "same_pages s t" "m_locks t = m_locks s" "pins t = (if e = 0 then (pins s)(n := pins s n + 1) else pins s)"
    "e = 0 \<longrightarrow> n = 0 \<or> pages s n \<noteq> None" "tick t = Suc (tick s)" "m_lsn t = m_lsn s"
    "io E (tick s) = 0 \<Longrightarrow> n = 0 \<or> pages s n \<noteq> None \<Longrightarrow> e = 0"
  using assms by (auto simp: memp_fget_def same_pages_def PGNO_BASE_MD_def DB_PAGE_NOTFOUND_def pin_def split: if_splits)

lemma memp_fput_spec:
  assumes "memp_fput E s n = (t, e)"
  shows "same_pages s t" "m_locks t = m_locks s" "pins t = (if e = 0 then (pins s)(n := pins s n - 1) else pins s)"
    "e = put_io E (tick s)" "m_lsn t = m_lsn s"
  using assms by (auto simp: memp_fput_def same_pages_def Let_def split: if_splits)

lemma lget_meta_spec:
  assumes "lget_meta E s = (t, e)"
  shows "same_pages s t" "pins t = pins s" "m_locks t = (if e = 0 then m_locks s + 1 else m_locks s)"
    "e = io E (tick s)" "m_lsn t = m_lsn s"
  using assms by (auto simp: lget_meta_def same_pages_def Let_def split: if_splits)

lemma tlput_meta_spec:
  assumes "tlput_meta E s = (t, e)"
  shows "same_pages s t" "pins t = pins s" "m_locks t = (if e = 0 then m_locks s - 1 else m_locks s)"
    "e = put_io E (tick s)" "m_lsn t = m_lsn s"
  using assms by (auto simp: tlput_meta_def same_pages_def Let_def split: if_splits)

lemma log_put_spec:
  assumes "log_put E s = (t, e, l)"
  shows "same_pages s t" "pins t = pins s" "m_locks t = m_locks s" "m_lsn t = m_lsn s"
    "io E (tick s) = 0 \<Longrightarrow> e = 0"
  using assms by (auto simp: log_put_def same_pages_def split: if_splits)

lemma memp_dirty_spec:
  assumes "memp_dirty E s n = (t, e, g)"
  shows "same_pages s t" "m_locks t = m_locks s" "pins t = (if g then (pins s)(n := pins s n - 1) else pins s)"
    "g \<longrightarrow> e \<noteq> 0" "m_lsn t = m_lsn s" "io E (tick s) = 0 \<Longrightarrow> e = 0"
  using assms by (auto simp: memp_dirty_def same_pages_def Let_def split: if_splits)

lemma memp_fget_new_spec:
  assumes "memp_fget_new E s n = (t, e)"
  shows "m_locks t = m_locks s" "m_free t = m_free s" "m_last t = m_last s" "m_lsn t = m_lsn s"
    "pins t = (if e = 0 then (pins s)(n := pins s n + 1) else pins s)"
    "e \<noteq> 0 \<Longrightarrow> pages t = pages s" "e = io E (tick s)"
    "e = 0 \<Longrightarrow> \<exists>pg. pages t = (pages s)(n \<mapsto> pg) \<and> mem pg = junk E (tick s)"
  using assms by (auto simp: memp_fget_new_def split: if_splits)

lemma new_err_spec:
  assumes "new_err E s h meta locked ret = (t, e, r)"
  shows "e = ret" "r = None" "same_pages s t"
    "(\<And>k. put_io E k = 0) \<Longrightarrow> m_locks t = m_locks s - (if locked then 1 else 0)"
    "(\<And>k. put_io E k = 0) \<Longrightarrow> pins t = (\<lambda>m. pins s m - (if h = Some m then 1 else 0) - (if meta \<and> m = 0 then 1 else 0))"
proof -
  obtain s1 e1 where 1: "(case h of None \<Rightarrow> (s, 0) | Some n \<Rightarrow> memp_fput E s n) = (s1, e1)" by fastforce
  obtain s2 e2 where 2: "(if meta then memp_fput E s1 PGNO_BASE_MD else (s1, 0)) = (s2, e2)" by fastforce
  obtain s3 e3 where 3: "(if locked then tlput_meta E s2 else (s2, 0)) = (s3, e3)" by fastforce
  have t: "t = s3" "e = ret" "r = None"
    using assms 1 2 3 by (auto simp: new_err_def Let_def split: option.splits if_splits)
  show "e = ret" "r = None" by (fact t)+
  have a: "same_pages s s1" using 1 memp_fput_spec(1) by (auto split: option.splits)
  have b: "same_pages s1 s2" using 2 memp_fput_spec(1) by (auto split: if_splits)
  have c: "same_pages s2 s3" using 3 tlput_meta_spec(1) by (auto split: if_splits)
  show "same_pages s t" using a b c t(1) by (auto intro: same_pages_trans)
  assume p: "\<And>k. put_io E k = 0"
  have l1: "m_locks s1 = m_locks s" using 1 memp_fput_spec(2) by (auto split: option.splits)
  have l2: "m_locks s2 = m_locks s1" using 2 memp_fput_spec(2) by (auto split: if_splits)
  have l3: "m_locks s3 = m_locks s2 - (if locked then 1 else 0)"
    using 3 tlput_meta_spec(3,4) [of E s2 s3 e3] p by (auto split: if_splits)
  show "m_locks t = m_locks s - (if locked then 1 else 0)" using l1 l2 l3 t(1) by simp
  have p1: "pins s1 = (\<lambda>m. pins s m - (if h = Some m then 1 else 0))"
    using 1 memp_fput_spec(3,4) [of E s _ s1 e1] p by (auto split: option.splits)
  have p2: "pins s2 = (\<lambda>m. pins s1 m - (if meta \<and> m = 0 then 1 else 0))"
    using 2 memp_fput_spec(3,4) [of E s1 PGNO_BASE_MD s2 e2] p by (auto simp: PGNO_BASE_MD_def split: if_splits)
  have p3: "pins s3 = pins s2" using 3 tlput_meta_spec(2) by (auto split: if_splits)
  show "pins t = (\<lambda>m. pins s m - (if h = Some m then 1 else 0) - (if meta \<and> m = 0 then 1 else 0))"
    unfolding t(1) p3 p2 p1 by simp
qed

section \<open>What the allocator does\<close>

text \<open>The page that \<open>__db_new\<close> returns, and what it leaves alone.\<close>

definition new_one :: "penv \<Rightarrow> byte \<Rightarrow> u32 \<Rightarrow> page \<Rightarrow> bool" where
  "new_one E ty n pg \<longleftrightarrow> pgno pg = n \<and> prev_pgno pg = 0 \<and> next_pgno pg = 0 \<and> entries pg = 0
     \<and> hf_offset pg = word_of_nat (pgsize (pdb E)) \<and> level pg = 0 \<and> ptype pg = ty
     \<and> length (mem pg) = pgsize (pdb E)"

lemma new_page_pages:
  assumes "new_page E s n ext ty = (t, 0, r)" "env_ok E"
    and "\<not> ext \<Longrightarrow> pgno (pg_of s n) = n \<and> length (mem (pg_of s n)) = pgsize (pdb E)"
  shows "r = Some n \<and> (\<exists>pg. pages t = (pages s)(n \<mapsto> pg) \<and> new_one E ty n pg)
    \<and> m_free t = (if ext then 0 else next_pgno (pg_of s n)) \<and> m_last t = (if ext then n else m_last s)"
proof -
  obtain s1 e1 l where 1: "log_put E s = (s1, e1, l)" by (cases "log_put E s") auto
  define nn where "nn = (if ext then PGNO_INVALID else next_pgno (pg_of s n))"
  define s2 where "s2 = s1\<lparr>m_lsn := l, m_free := nn\<rparr>"
  obtain s3 e3 where 3: "(if ext then memp_fget_new E s2 n else (s2, 0)) = (s3, e3)" by fastforce
  define s4 where "s4 = (if ext then upd_pg (s3\<lparr>m_last := n\<rparr>) n (\<lambda>p. p\<lparr>lsn := (0, 0), pgno := n\<rparr>) else s3)"
  define s5 where "s5 = upd_pg s4 n (\<lambda>p. p\<lparr>lsn := m_lsn s4\<rparr>)"
  obtain s6 e6 where 6: "memp_fput E s5 PGNO_BASE_MD = (s6, e6)" by fastforce
  define s7 where "s7 = upd_pg s6 n (\<lambda>p. P_INIT p (pgsize (pdb E)) (pgno p) PGNO_INVALID PGNO_INVALID 0 ty)"
  obtain s8 e8 where 8: "tlput_meta E s7 = (s8, e8)" by fastforce
  have run: "(t, 0, r) =
    (if e1 \<noteq> 0 then new_err E s1 (if ext then None else Some n) True True e1
     else if e3 \<noteq> 0 then new_err E s3 None True True e3
     else if e6 \<noteq> 0 then new_err E s6 (Some n) True True e6
     else if e8 \<noteq> 0 then (s8, e8, None) else (s8, 0, Some n))"
    unfolding assms(1) [symmetric] new_page_def Let_def 1 prod.case nn_def [symmetric] s2_def [symmetric] 3
      s4_def [symmetric] s5_def [symmetric] 6 s7_def [symmetric] 8 ..
  have ne: "e = 0" if "(t, 0, r) = new_err E u h m k e" for u h m k e
    using new_err_spec(1) [OF that [symmetric]] by simp
  have ok: "e1 = 0" "e3 = 0" "e6 = 0" "e8 = 0" "t = s8" "r = Some n"
    using run by (auto dest: ne split: if_splits)
  have p1: "pages s1 = pages s" "m_last s1 = m_last s" using log_put_spec(1) [OF 1] by (auto simp: same_pages_def)
  have f1: "m_free s2 = nn" "pages s2 = pages s" "m_last s2 = m_last s" by (simp_all add: s2_def p1)
  have f3: "m_free s3 = nn" "m_last s3 = m_last s"
    using 3 memp_fget_new_spec(2,3) [of E s2 n s3 e3] f1 by (auto split: if_splits)
  have q3: "\<exists>pg. pages s3 = (pages s)(n \<mapsto> pg) \<and> mem pg = junk E (tick s2)" if ext
    using 3 that memp_fget_new_spec(8) [of E s2 n s3 e3] ok(2) f1 by auto
  have q3': "pages s3 = pages s" if "\<not> ext" using 3 that f1 by auto
  have f6: "pages s6 = pages s5" "m_free s6 = m_free s5" "m_last s6 = m_last s5"
    using memp_fput_spec(1) [OF 6] by (simp_all add: same_pages_def)
  have f8: "pages s8 = pages s7" "m_free s8 = m_free s7" "m_last s8 = m_last s7"
    using tlput_meta_spec(1) [OF 8] by (simp_all add: same_pages_def)
  have pg: "pages s8 = (pages s)(n \<mapsto> pg_of s8 n) \<and> new_one E ty n (pg_of s8 n)"
  proof (cases ext)
    case True
    then obtain pg where pg: "pages s3 = (pages s)(n \<mapsto> pg)" "mem pg = junk E (tick s2)" using q3 by auto
    then show ?thesis using True assms(2)
      by (simp add: f8 s7_def f6 s5_def s4_def pg_of_def P_INIT_def new_one_def env_ok_def PGNO_INVALID_def)
  next
    case False
    then show ?thesis using q3' [OF False] assms(3) [OF False]
      by (simp add: f8 s7_def f6 s5_def s4_def pg_of_def P_INIT_def new_one_def PGNO_INVALID_def)
  qed
  have "m_free s8 = nn" "m_last s8 = (if ext then n else m_last s)"
    using f3 by (simp_all add: f8 s7_def f6 s5_def s4_def)
  moreover have "\<exists>pg. pages s8 = (pages s)(n \<mapsto> pg) \<and> new_one E ty n pg" using pg by blast
  ultimately show ?thesis using ok(5,6) by (simp add: nn_def PGNO_INVALID_def)
qed

lemma new_page_pins:
  assumes "new_page E s n ext ty = (t, e, r)" and p: "\<And>k. put_io E k = 0"
  shows "m_locks t = m_locks s - 1"
    "pins t = (\<lambda>m. pins s m - (if m = 0 then 1 else 0)
       + (if m = n then (if ext then (if e = 0 then 1 else 0) else (if e = 0 then 0 else - 1)) else 0))"
    "r = (if e = 0 then Some n else None)"
proof -
  obtain s1 e1 l where 1: "log_put E s = (s1, e1, l)" by (cases "log_put E s") auto
  define nn where "nn = (if ext then PGNO_INVALID else next_pgno (pg_of s n))"
  define s2 where "s2 = s1\<lparr>m_lsn := l, m_free := nn\<rparr>"
  obtain s3 e3 where 3: "(if ext then memp_fget_new E s2 n else (s2, 0)) = (s3, e3)" by fastforce
  define s4 where "s4 = (if ext then upd_pg (s3\<lparr>m_last := n\<rparr>) n (\<lambda>p. p\<lparr>lsn := (0, 0), pgno := n\<rparr>) else s3)"
  define s5 where "s5 = upd_pg s4 n (\<lambda>p. p\<lparr>lsn := m_lsn s4\<rparr>)"
  obtain s6 e6 where 6: "memp_fput E s5 PGNO_BASE_MD = (s6, e6)" by fastforce
  define s7 where "s7 = upd_pg s6 n (\<lambda>p. P_INIT p (pgsize (pdb E)) (pgno p) PGNO_INVALID PGNO_INVALID 0 ty)"
  obtain s8 e8 where 8: "tlput_meta E s7 = (s8, e8)" by fastforce
  have e68: "e6 = 0" "e8 = 0" using memp_fput_spec(4) [OF 6] tlput_meta_spec(4) [OF 8] p by simp_all
  have run: "(t, e, r) =
    (if e1 \<noteq> 0 then new_err E s1 (if ext then None else Some n) True True e1
     else if e3 \<noteq> 0 then new_err E s3 None True True e3 else (s8, 0, Some n))"
    unfolding assms(1) [symmetric] new_page_def Let_def 1 prod.case nn_def [symmetric] s2_def [symmetric] 3
      s4_def [symmetric] s5_def [symmetric] 6 s7_def [symmetric] 8 using e68 by simp
  have i1: "pins s1 = pins s" "m_locks s1 = m_locks s" using log_put_spec(2,3) [OF 1] by simp_all
  have i2: "pins s2 = pins s" "m_locks s2 = m_locks s" using i1 by (simp_all add: s2_def)
  have i3: "m_locks s3 = m_locks s" "pins s3 = (if ext \<and> e3 = 0 then (pins s)(n := pins s n + 1) else pins s)"
    using 3 memp_fget_new_spec(1,5) [of E s2 n s3 e3] i2 by (auto split: if_splits)
  have i5: "pins s5 = pins s3" "m_locks s5 = m_locks s3" by (simp_all add: s5_def s4_def)
  have i8: "pins s8 = (pins s3)(0 := pins s3 0 - 1)" "m_locks s8 = m_locks s3 - 1"
    using memp_fput_spec(2,3) [OF 6] tlput_meta_spec(2,3) [OF 8] e68 i5 by (simp_all add: s7_def PGNO_BASE_MD_def)
  have x3: "ext" if "e3 \<noteq> 0" using 3 that by (auto split: if_splits)
  consider "e1 \<noteq> 0" | "e1 = 0" "e3 \<noteq> 0" | "e1 = 0" "e3 = 0" by blast
  then have "m_locks t = m_locks s - 1 \<and>
    pins t = (\<lambda>m. pins s m - (if m = 0 then 1 else 0)
       + (if m = n then (if ext then (if e = 0 then 1 else 0) else (if e = 0 then 0 else - 1)) else 0))
    \<and> r = (if e = 0 then Some n else None)"
  proof cases
    case 1
    then have "new_err E s1 (if ext then None else Some n) True True e1 = (t, e, r)" using run by simp
    note new_err_spec [OF this]
    then show ?thesis using p i1 1 by auto
  next
    case 2
    then have "new_err E s3 None True True e3 = (t, e, r)" using run by simp
    note new_err_spec [OF this]
    then show ?thesis using p i3 2 x3 by auto
  next
    case 3
    then have "t = s8" "e = 0" "r = Some n" using run by auto
    then show ?thesis using i8 i3 3 by auto
  qed
  then show "m_locks t = m_locks s - 1"
    "pins t = (\<lambda>m. pins s m - (if m = 0 then 1 else 0)
       + (if m = n then (if ext then (if e = 0 then 1 else 0) else (if e = 0 then 0 else - 1)) else 0))"
    "r = (if e = 0 then Some n else None)" by blast+
qed

text \<open>The steps of \<open>__db_new\<close> before the page is known.\<close>

lemma db_new_cases:
  assumes "db_new E s ty dx = (t, e, r)" "pager_ok E fs s"
  obtains (lock) s1 e1 where "lget_meta E s = (s1, e1)" "e1 \<noteq> 0" "new_err E s1 None False False e1 = (t, e, r)"
  | (meta) s1 s2 e2 where "lget_meta E s = (s1, 0)" "memp_fget E s1 0 = (s2, e2)" "e2 \<noteq> 0"
      "new_err E s2 None False True e2 = (t, e, r)"
  | (stop) s1 s2 where "lget_meta E s = (s1, 0)" "memp_fget E s1 0 = (s2, 0)" "fs = []" "dx"
      "new_err E s2 None True True 0 = (t, e, r)"
  | (grow) s1 s2 where "lget_meta E s = (s1, 0)" "memp_fget E s1 0 = (s2, 0)" "fs = []" "\<not> dx"
      "new_page E s2 (m_last s + 1) True ty = (t, e, r)"
  | (page) s1 s2 s3 e3 f fs' where "lget_meta E s = (s1, 0)" "memp_fget E s1 0 = (s2, 0)" "fs = f # fs'"
      "memp_fget E s2 f = (s3, e3)" "e3 \<noteq> 0" "new_err E s3 None True True e3 = (t, e, r)"
  | (reuse) s1 s2 s3 f fs' where "lget_meta E s = (s1, 0)" "memp_fget E s1 0 = (s2, 0)" "fs = f # fs'"
      "memp_fget E s2 f = (s3, 0)" "new_page E s3 f False ty = (t, e, r)"
proof -
  obtain s1 e1 where 1: "lget_meta E s = (s1, e1)" by fastforce
  obtain s2 e2 where 2: "memp_fget E s1 0 = (s2, e2)" by fastforce
  have p2: "same_pages s s2"
    using lget_meta_spec(1) [OF 1] memp_fget_spec(1) [OF 2] by (rule same_pages_trans)
  obtain s3 e3 where 3: "memp_fget E s2 (m_free s) = (s3, e3)" by fastforce
  have p3: "same_pages s s3" using p2 memp_fget_spec(1) [OF 3] by (rule same_pages_trans)
  have fl: "free_list s (m_free s) fs" using assms(2) by (simp add: pager_ok_def)
  have run: "(t, e, r) =
    (if e1 \<noteq> 0 then new_err E s1 None False False e1
     else if e2 \<noteq> 0 then new_err E s2 None False True e2
     else if m_free s = 0 then (if dx then new_err E s2 None True True 0 else new_page E s2 (m_last s + 1) True ty)
     else if e3 \<noteq> 0 then new_err E s3 None True True e3
     else if ptype (pg_of s (m_free s)) \<noteq> P_INVALID then (s3, DB_RUNRECOVERY, None)
     else new_page E s3 (m_free s) False ty)"
    unfolding assms(1) [symmetric] db_new_def 1 prod.case Let_def using p2 p3
    by (simp add: PGNO_BASE_MD_def PGNO_INVALID_def 2 3 same_pages_def pg_of_def)
  show thesis
  proof (cases "e1 = 0 \<and> e2 = 0")
    case False
    then show thesis using lock [OF 1] meta [of s1 s2 e2] 1 2 run by (auto split: if_splits)
  next
    case True
    then have g: "lget_meta E s = (s1, 0)" "memp_fget E s1 0 = (s2, 0)" using 1 2 by simp_all
    show thesis
    proof (cases fs)
      case Nil
      then have "m_free s = 0" using fl by (simp add: PGNO_INVALID_def)
      then show thesis using stop [OF g Nil] grow [OF g Nil] run True by (auto split: if_splits)
    next
      case (Cons f fs')
      then have f: "m_free s = f" "f \<noteq> 0" "ptype (pg_of s f) = P_INVALID" using fl by (simp_all add: PGNO_INVALID_def)
      show thesis
      proof (cases "e3 = 0")
        case True
        then show thesis using reuse [OF g Cons] 3 f run \<open>e1 = 0 \<and> e2 = 0\<close> by simp
      next
        case False
        then show thesis using page [OF g Cons] 3 f run \<open>e1 = 0 \<and> e2 = 0\<close> by simp
      qed
    qed
  qed
qed

lemma unat_succ:
  assumes "(w :: u32) + 1 \<noteq> 0"
  shows "unat (w + 1) = unat w + 1"
proof -
  have b: "unat w < 2 ^ LENGTH(32)" by (rule unsigned_less)
  have m: "unat (w + 1) = (unat w + 1) mod 2 ^ 32" by (simp add: unat_word_ariths)
  have "unat w + 1 \<noteq> 2 ^ 32"
  proof
    assume "unat w + 1 = 2 ^ 32"
    then have "unat (w + 1) = 0" using m by simp
    then show False using assms by (simp add: unat_eq_0)
  qed
  then show ?thesis using m b by simp
qed

lemma succ_nonzero:
  assumes "unat (w :: u32) + 1 < 2 ^ 32"
  shows "w + 1 \<noteq> 0"
proof
  assume "w + 1 = 0"
  then have "w = - 1" by (simp add: eq_neg_iff_add_eq_0)
  then have "unat w = 2 ^ 32 - 1" by (simp add: unsigned_minus_1_eq_mask mask_eq_exp_minus_1)
  then show False using assms by simp
qed

lemma word_Suc_le:
  assumes "(w :: u32) + 1 \<noteq> 0"
  shows "n \<le> w + 1 \<longleftrightarrow> n \<le> w \<or> n = w + 1"
proof -
  have "unat (w + 1) = unat w + 1" using assms by (rule unat_succ)
  moreover have "n = w + 1 \<longleftrightarrow> unat n = unat (w + 1)" by (simp add: word_eq_iff_unsigned)
  ultimately show ?thesis unfolding word_le_nat_alt by auto
qed

lemma db_new_pages:
  assumes "db_new E s ty False = (t, 0, r)" "pager_ok E fs s" "env_ok E" "m_last s + 1 \<noteq> 0"
  shows "\<exists>n pg. r = Some n \<and> n \<noteq> 0 \<and> n \<notin> in_use fs s \<and> pages t = (pages s)(n \<mapsto> pg) \<and> new_one E ty n pg
    \<and> pager_ok E (drop 1 fs) t \<and> in_use (drop 1 fs) t = insert n (in_use fs s)
    \<and> m_last t = (if fs = [] then m_last s + 1 else m_last s)"
  using assms(1,2)
proof (cases rule: db_new_cases)
  case (grow s1 s2)
  let ?n = "m_last s + 1"
  have p2: "same_pages s s2"
    using lget_meta_spec(1) [OF grow(1)] memp_fget_spec(1) [OF grow(2)] by (rule same_pages_trans)
  from new_page_pages [OF grow(5) assms(3)]
  obtain pg where pg: "r = Some ?n" "pages t = (pages s2)(?n \<mapsto> pg)" "new_one E ty ?n pg" "m_free t = 0" "m_last t = ?n"
    by auto
  have pt: "pages t = (pages s)(?n \<mapsto> pg)" using pg(2) p2 by (simp add: same_pages_def)
  have dom: "\<And>n. pages s n \<noteq> None \<longleftrightarrow> 0 < n \<and> n \<le> m_last s" using assms(2) by (simp add: pager_ok_def)
  have gt: "\<not> ?n \<le> m_last s"
  proof -
    have "unat ?n = unat (m_last s) + 1" using assms(4) by (rule unat_succ)
    then show ?thesis by (simp add: word_le_nat_alt)
  qed
  have "pages t n \<noteq> None \<longleftrightarrow> 0 < n \<and> n \<le> m_last t" for n
    using dom [of n] assms(4) unfolding pt pg(5) word_Suc_le [OF assms(4)] by (auto simp: word_greater_zero_iff)
  moreover have "\<forall>n pg. pages t n = Some pg \<longrightarrow> pgno pg = n \<and> length (mem pg) = pgsize (pdb E)"
    using assms(2) pg(3) by (auto simp: pt pager_ok_def new_one_def)
  ultimately have "pager_ok E [] t" using pg(4) by (simp add: pager_ok_def PGNO_INVALID_def)
  moreover have "in_use [] t = insert ?n (in_use [] s)" using dom by (auto simp: in_use_def pt)
  moreover have "?n \<notin> in_use [] s" using dom gt by (auto simp: in_use_def)
  ultimately show ?thesis using pg(1,3,5) pt assms(4) grow(3) by auto
next
  case (reuse s1 s2 s3 f fs')
  have p3: "same_pages s s3"
    using lget_meta_spec(1) [OF reuse(1)] memp_fget_spec(1) [OF reuse(2)] memp_fget_spec(1) [OF reuse(4)]
    by (blast intro: same_pages_trans)
  have ok: "pages s f \<noteq> None" "f \<notin> set fs'" "f \<noteq> 0" "free_list s (next_pgno (pg_of s f)) fs'"
    using assms(2) reuse(3) by (auto simp: pager_ok_def PGNO_INVALID_def)
  have old: "pgno (pg_of s f) = f" "length (mem (pg_of s f)) = pgsize (pdb E)"
    using assms(2) ok(1) by (auto simp: pager_ok_def pg_of_def)
  have e: "pg_of s3 f = pg_of s f" using p3 by (simp add: same_pages_def pg_of_def)
  from new_page_pages [OF reuse(5) assms(3)] old e
  obtain pg where pg: "r = Some f" "pages t = (pages s3)(f \<mapsto> pg)" "new_one E ty f pg"
    "m_free t = next_pgno (pg_of s f)" "m_last t = m_last s3" by auto
  have pt: "pages t = (pages s)(f \<mapsto> pg)" "m_last t = m_last s" using pg(2,5) p3 by (simp_all add: same_pages_def)
  have "free_list t (next_pgno (pg_of s f)) fs'"
    using ok(2,4) by (subst free_list_cong [of fs' t s]) (auto simp: pt)
  moreover have "\<forall>n. pages t n \<noteq> None \<longleftrightarrow> 0 < n \<and> n \<le> m_last t"
    using assms(2) ok(1) unfolding pt pager_ok_def by (auto simp del: not_None_eq)
  moreover have "\<forall>n pg. pages t n = Some pg \<longrightarrow> pgno pg = n \<and> length (mem pg) = pgsize (pdb E)"
    using assms(2) pg(3) by (auto simp: pt pager_ok_def new_one_def)
  ultimately have "pager_ok E fs' t" using pg(4) by (simp add: pager_ok_def)
  moreover have "in_use fs' t = insert f (in_use fs s)" using ok(1,2) reuse(3) by (auto simp: in_use_def pt)
  ultimately show ?thesis using pg(1,3) pt reuse(3) ok(3) by (auto simp: in_use_def)
qed (use new_err_spec(1,2) assms in \<open>fastforce+\<close>)

lemma db_new_pins:
  assumes "db_new E s ty dx = (t, e, r)" "pager_ok E fs s" and p: "\<And>k. put_io E k = 0"
  shows "m_locks t = m_locks s \<and> pins t = (case r of None \<Rightarrow> pins s | Some n \<Rightarrow> (pins s)(n := pins s n + 1))
    \<and> (e \<noteq> 0 \<longrightarrow> r = None) \<and> (\<not> dx \<longrightarrow> e = 0 \<longrightarrow> r \<noteq> None)"
  using assms(1,2)
proof (cases rule: db_new_cases)
  case (lock s1 e1)
  then show ?thesis using lget_meta_spec(2,3) [OF lock(1)] new_err_spec [OF lock(3)] p by auto
next
  case (meta s1 s2 e2)
  then show ?thesis
    using lget_meta_spec(2,3) [OF meta(1)] memp_fget_spec(2,3) [OF meta(2)] new_err_spec [OF meta(4)] p by auto
next
  case (stop s1 s2)
  then show ?thesis
    using lget_meta_spec(2,3) [OF stop(1)] memp_fget_spec(2,3) [OF stop(2)] new_err_spec [OF stop(5)] p by auto
next
  case (grow s1 s2)
  then show ?thesis
    using lget_meta_spec(2,3) [OF grow(1)] memp_fget_spec(2,3) [OF grow(2)] new_page_pins [OF grow(5) p] by auto
next
  case (page s1 s2 s3 e3 f fs')
  then show ?thesis
    using lget_meta_spec(2,3) [OF page(1)] memp_fget_spec(2,3) [OF page(2)] memp_fget_spec(2,3) [OF page(4)]
      new_err_spec [OF page(6)] p by auto
next
  case (reuse s1 s2 s3 f fs')
  then show ?thesis
    using lget_meta_spec(2,3) [OF reuse(1)] memp_fget_spec(2,3) [OF reuse(2)] memp_fget_spec(2,3) [OF reuse(4)]
      new_page_pins [OF reuse(5) p] by auto
qed

text \<open>When nothing fails.\<close>

lemma new_page_calm:
  assumes "new_page E s n ext ty = (t, e, r)" "\<And>k. put_io E k = 0" "\<And>k. io E k = 0"
  shows "e = 0"
  using assms by (auto simp: new_page_def log_put_def memp_fget_new_def memp_fput_def tlput_meta_def Let_def
      split: if_splits)

lemma db_new_calm:
  assumes "db_new E s ty False = (t, e, r)" "pager_ok E fs s" "\<And>k. put_io E k = 0" "\<And>k. io E k = 0"
  shows "e = 0"
  using assms(1,2)
proof (cases rule: db_new_cases)
  case (lock s1 e1)
  then show ?thesis using lget_meta_spec(4) [OF lock(1)] assms(4) by simp
next
  case (meta s1 s2 e2)
  then show ?thesis using memp_fget_spec(7) [OF meta(2)] assms(4) by simp
next
  case (page s1 s2 s3 e3 f fs')
  have "same_pages s s2"
    using lget_meta_spec(1) [OF page(1)] memp_fget_spec(1) [OF page(2)] by (rule same_pages_trans)
  moreover have "pages s f \<noteq> None" using assms(2) page(3) by (auto simp: pager_ok_def)
  ultimately show ?thesis using memp_fget_spec(7) [OF page(4)] page(5) assms(4) by (simp add: same_pages_def)
next
  case (grow s1 s2)
  then show ?thesis using new_page_calm [OF grow(5) assms(3,4)] by simp
next
  case (reuse s1 s2 s3 f fs')
  then show ?thesis using new_page_calm [OF reuse(5) assms(3,4)] by simp
qed simp

subsection \<open>Freeing\<close>

lemma free_err1_spec:
  assumes "free_err1 E s h meta ret = (t, e)"
  shows "same_pages s t" "ret \<noteq> 0 \<Longrightarrow> e = ret" "e = 0 \<Longrightarrow> ret = 0"
    "(\<And>k. put_io E k = 0) \<Longrightarrow> e = ret \<and> m_locks t = m_locks s - 1
       \<and> pins t = (\<lambda>m. pins s m - (if h = Some m then 1 else 0) - (if meta \<and> m = 0 then 1 else 0))"
proof -
  obtain s1 e1 where 1: "(if meta then memp_fput E s 0 else (s, 0)) = (s1, e1)" by fastforce
  obtain s2 e2 where 2: "tlput_meta E s1 = (s2, e2)" by fastforce
  obtain s3 e3 where 3: "(case h of None \<Rightarrow> (s2, 0) | Some n \<Rightarrow> memp_fput E s2 n) = (s3, e3)" by fastforce
  have run: "t = s3" "e = keep (keep (keep ret e1) e2) e3"
    using assms 1 2 3 unfolding free_err1_def free_err_def
    by (auto simp: keep_def PGNO_BASE_MD_def split: if_splits option.splits prod.splits)
  have a: "same_pages s s1" using 1 memp_fput_spec(1) by (auto split: if_splits)
  have c: "same_pages s2 s3" using 3 memp_fput_spec(1) by (auto split: option.splits)
  show "same_pages s t" using a tlput_meta_spec(1) [OF 2] c run(1) by (blast intro: same_pages_trans)
  show "ret \<noteq> 0 \<Longrightarrow> e = ret" "e = 0 \<Longrightarrow> ret = 0" using run(2) by (auto simp: keep_def split: if_splits)
  assume p: "\<And>k. put_io E k = 0"
  have 11: "pins s1 = (\<lambda>m. pins s m - (if meta \<and> m = 0 then 1 else 0))" "m_locks s1 = m_locks s" "e1 = 0"
    using 1 memp_fput_spec(2-4) [of E s 0 s1 e1] p by (auto split: if_splits)
  have 22: "pins s2 = pins s1" "m_locks s2 = m_locks s1 - 1" "e2 = 0"
    using tlput_meta_spec(2-4) [OF 2] p by auto
  have 33: "pins s3 = (\<lambda>m. pins s2 m - (if h = Some m then 1 else 0))" "m_locks s3 = m_locks s2" "e3 = 0"
    using 3 memp_fput_spec(2-4) [of E s2 _ s3 e3] p by (auto split: option.splits)
  show "e = ret \<and> m_locks t = m_locks s - 1
     \<and> pins t = (\<lambda>m. pins s m - (if h = Some m then 1 else 0) - (if meta \<and> m = 0 then 1 else 0))"
    using run 11 22 33 by (auto simp: keep_def)
qed

lemma db_free_run:
  assumes "db_free E s n = (t, e)"
  obtains (lock) s1 e1 where "lget_meta E s = (s1, e1)" "e1 \<noteq> 0" "free_err E s1 (Some n) e1 = (t, e)"
  | (meta) s1 s2 e2 where "lget_meta E s = (s1, 0)" "memp_fget E s1 0 = (s2, e2)" "e2 \<noteq> 0"
      "free_err1 E s2 (Some n) False e2 = (t, e)"
  | (log) s1 s2 s4 e4 l where "lget_meta E s = (s1, 0)" "memp_fget E s1 0 = (s2, 0)"
      "log_put E s2 = (s4, e4, l)" "e4 \<noteq> 0" "free_err1 E s4 (Some n) True e4 = (t, e)"
  | (dirty) s1 s2 s4 l s6 e6 gone where "lget_meta E s = (s1, 0)" "memp_fget E s1 0 = (s2, 0)"
      "log_put E s2 = (s4, 0, l)" "memp_dirty E (s4\<lparr>m_lsn := l\<rparr>) n = (s6, e6, gone)" "e6 \<noteq> 0"
      "free_err1 E s6 (if gone then None else Some n) True e6 = (t, e)"
  | (freed) s1 s2 s4 l s6 s7 s8 where "lget_meta E s = (s1, 0)" "memp_fget E s1 0 = (s2, 0)"
      "log_put E s2 = (s4, 0, l)" "memp_dirty E (s4\<lparr>m_lsn := l\<rparr>) n = (s6, 0, False)"
      "s7 = upd_pg s6 n (\<lambda>p. P_INIT (p\<lparr>lsn := m_lsn s6\<rparr>) (pgsize (pdb E)) (pgno p) PGNO_INVALID (m_free s2) 0 P_INVALID)"
      "s8 = s7\<lparr>m_free := pgno (pg_of s7 n)\<rparr>" "free_err1 E s8 (Some n) True 0 = (t, e)"
proof -
  obtain s1 e1 where 1: "lget_meta E s = (s1, e1)" by fastforce
  obtain s2 e2 where 2: "memp_fget E s1 0 = (s2, e2)" by fastforce
  obtain s4 e4 l where 4: "log_put E s2 = (s4, e4, l)" by (cases "log_put E s2") auto
  obtain s6 e6 g where 6: "memp_dirty E (s4\<lparr>m_lsn := l\<rparr>) n = (s6, e6, g)"
    by (cases "memp_dirty E (s4\<lparr>m_lsn := l\<rparr>) n") auto
  define s7 where "s7 = upd_pg s6 n (\<lambda>p. P_INIT (p\<lparr>lsn := m_lsn s6\<rparr>) (pgsize (pdb E)) (pgno p)
    PGNO_INVALID (m_free s2) 0 P_INVALID)"
  have run: "(t, e) =
    (if e1 \<noteq> 0 then free_err E s1 (Some n) e1
     else if e2 \<noteq> 0 then free_err1 E s2 (Some n) False e2
     else if e4 \<noteq> 0 then free_err1 E s4 (Some n) True e4
     else if e6 \<noteq> 0 then free_err1 E s6 (if g then None else Some n) True e6
     else free_err1 E (s7\<lparr>m_free := pgno (pg_of s7 n)\<rparr>) (Some n) True 0)"
    unfolding assms [symmetric] db_free_def 1 prod.case Let_def by (simp add: PGNO_BASE_MD_def 2 4 6 s7_def)
  have g: "e6 = 0 \<Longrightarrow> \<not> g" using memp_dirty_spec(4) [OF 6] by blast
  show thesis
  proof (cases "e1 = 0 \<and> e2 = 0")
    case False
    then show thesis using lock [OF 1] meta [of s1 s2 e2] 1 2 run by (auto split: if_splits)
  next
    case True
    then have g1: "lget_meta E s = (s1, 0)" "memp_fget E s1 0 = (s2, 0)" using 1 2 by simp_all
    show thesis
    proof (cases "e4 = 0")
      case True
      then have 4: "log_put E s2 = (s4, 0, l)" using 4 by simp
      show thesis
      proof (cases "e6 = 0")
        case True
        then have "memp_dirty E (s4\<lparr>m_lsn := l\<rparr>) n = (s6, 0, False)" using 6 g by simp
        from freed [OF g1 4 this s7_def refl] show thesis
          using run True \<open>e1 = 0 \<and> e2 = 0\<close> \<open>e4 = 0\<close> by simp
      next
        case False
        from dirty [OF g1 4 6 False] show thesis using run False \<open>e1 = 0 \<and> e2 = 0\<close> \<open>e4 = 0\<close> by simp
      qed
    next
      case False
      from log [OF g1 4 False] show thesis using run False \<open>e1 = 0 \<and> e2 = 0\<close> by simp
    qed
  qed
qed

lemma free_err_spec:
  assumes "free_err E s (Some n) ret = (t, e)"
  shows "ret \<noteq> 0 \<Longrightarrow> e = ret" "same_pages s t"
    "(\<And>k. put_io E k = 0) \<Longrightarrow> pins t = (pins s)(n := pins s n - 1) \<and> m_locks t = m_locks s"
proof -
  obtain s1 e1 where 1: "memp_fput E s n = (s1, e1)" by fastforce
  have t: "t = s1" "e = keep ret e1" using assms 1 by (auto simp: free_err_def)
  show "ret \<noteq> 0 \<Longrightarrow> e = ret" "same_pages s t"
    using t memp_fput_spec(1) [OF 1] by (auto simp: keep_def)
  show "(\<And>k. put_io E k = 0) \<Longrightarrow> pins t = (pins s)(n := pins s n - 1) \<and> m_locks t = m_locks s"
    using t memp_fput_spec(2-4) [OF 1] by auto
qed

lemma db_free_pins:
  assumes "db_free E s n = (t, e)" and p: "\<And>k. put_io E k = 0"
  shows "m_locks t = m_locks s \<and> pins t = (pins s)(n := pins s n - 1)"
  using assms(1)
proof (cases rule: db_free_run)
  case (lock s1 e1)
  then show ?thesis using lget_meta_spec(2,3) [OF lock(1)] free_err_spec(3) [OF lock(3) p] by auto
next
  case (meta s1 s2 e2)
  then show ?thesis
    using lget_meta_spec(2,3) [OF meta(1)] memp_fget_spec(2,3) [OF meta(2)] free_err1_spec(4) [OF meta(4) p] by auto
next
  case (log s1 s2 s4 e4 l)
  then show ?thesis
    using lget_meta_spec(2,3) [OF log(1)] memp_fget_spec(2,3) [OF log(2)] log_put_spec(2,3) [OF log(3)]
      free_err1_spec(4) [OF log(5) p] by auto
next
  case (dirty s1 s2 s4 l s6 e6 gone)
  then show ?thesis
    using lget_meta_spec(2,3) [OF dirty(1)] memp_fget_spec(2,3) [OF dirty(2)] log_put_spec(2,3) [OF dirty(3)]
      memp_dirty_spec(2,3) [OF dirty(4)] free_err1_spec(4) [OF dirty(6) p] by auto
next
  case (freed s1 s2 s4 l s6 s7 s8)
  have "pins s8 = pins s6" "m_locks s8 = m_locks s6" by (simp_all add: freed(5,6))
  then show ?thesis
    using lget_meta_spec(2,3) [OF freed(1)] memp_fget_spec(2,3) [OF freed(2)] log_put_spec(2,3) [OF freed(3)]
      memp_dirty_spec(2,3) [OF freed(4)] free_err1_spec(4) [OF freed(7) p] by auto
qed

lemma db_free_calm:
  assumes "db_free E s n = (t, e)" "\<And>k. put_io E k = 0" "\<And>k. io E k = 0"
  shows "e = 0"
  using assms(1)
proof (cases rule: db_free_run)
  case (lock s1 e1)
  then show ?thesis using lget_meta_spec(4) [OF lock(1)] assms(3) by simp
next
  case (meta s1 s2 e2)
  then show ?thesis using memp_fget_spec(7) [OF meta(2)] assms(3) by simp
next
  case (log s1 s2 s4 e4 l)
  then show ?thesis using log_put_spec(5) [OF log(3)] assms(3) by simp
next
  case (dirty s1 s2 s4 l s6 e6 gone)
  then show ?thesis using memp_dirty_spec(6) [OF dirty(4)] assms(3) by simp
next
  case (freed s1 s2 s4 l s6 s7 s8)
  then show ?thesis using free_err1_spec(4) [OF freed(7) assms(2)] by simp
qed

lemma db_free_pages:
  assumes "db_free E s n = (t, 0)" "pager_ok E fs s" "n \<in> in_use fs s"
  shows "pager_ok E (n # fs) t \<and> in_use (n # fs) t = in_use fs s - {n} \<and> m_last t = m_last s
    \<and> (\<forall>m. m \<noteq> n \<longrightarrow> pages t m = pages s m)"
  using assms(1)
proof (cases rule: db_free_run)
  case (freed s1 s2 s4 l s6 s7 s8)
  have p6: "same_pages s s6"
  proof -
    have "same_pages s4 (s4\<lparr>m_lsn := l\<rparr>)" by (simp add: same_pages_def)
    then show ?thesis
      using lget_meta_spec(1) [OF freed(1)] memp_fget_spec(1) [OF freed(2)] log_put_spec(1) [OF freed(3)]
        memp_dirty_spec(1) [OF freed(4)] by (blast intro: same_pages_trans)
  qed
  have f2: "m_free s2 = m_free s"
    using lget_meta_spec(1) [OF freed(1)] memp_fget_spec(1) [OF freed(2)] by (simp add: same_pages_def)
  obtain pg where pg: "pages s n = Some pg" using assms(3) by (auto simp: in_use_def)
  have pok: "pgno pg = n" "length (mem pg) = pgsize (pdb E)" using assms(2) pg by (auto simp: pager_ok_def)
  have n0: "n \<noteq> 0" "n \<notin> set fs" using assms(2,3) pg unfolding pager_ok_def in_use_def
    by (metis less_irrefl option.distinct(1), simp)
  define q where "q = P_INIT (pg\<lparr>lsn := m_lsn s6\<rparr>) (pgsize (pdb E)) n PGNO_INVALID (m_free s) 0 P_INVALID"
  have s8: "pages s8 = (pages s)(n \<mapsto> q)" "m_last s8 = m_last s" "m_free s8 = n"
    using p6 pok(1) pg by (cases pg, simp_all add: freed(5,6) f2 q_def same_pages_def pg_of_def P_INIT_def)
  have t8: "pages t = (pages s)(n \<mapsto> q)" "m_last t = m_last s" "m_free t = n"
    using free_err1_spec(1) [OF freed(7)] s8 by (simp_all add: same_pages_def)
  have q: "next_pgno q = m_free s" "ptype q = P_INVALID" "pgno q = n" "length (mem q) = pgsize (pdb E)"
    using pok by (simp_all add: q_def P_INIT_def)
  have "free_list t (m_free s) fs"
    using assms(2) n0(2) by (subst free_list_cong [of fs t s]) (auto simp: t8 pager_ok_def)
  then have "free_list t n (n # fs)" using n0 q t8 by (simp add: pg_of_def PGNO_INVALID_def)
  moreover have "\<forall>m. pages t m \<noteq> None \<longleftrightarrow> 0 < m \<and> m \<le> m_last t"
    using assms(2) pg unfolding t8 pager_ok_def by (auto simp del: not_None_eq)
  moreover have "\<forall>m pg. pages t m = Some pg \<longrightarrow> pgno pg = m \<and> length (mem pg) = pgsize (pdb E)"
    using assms(2) q by (auto simp: t8 pager_ok_def)
  ultimately have "pager_ok E (n # fs) t" using t8(3) by (simp add: pager_ok_def)
  moreover have "in_use (n # fs) t = in_use fs s - {n}" by (auto simp: in_use_def t8)
  ultimately show ?thesis using t8 by simp
next
  case (lock s1 e1) then show ?thesis using free_err_spec(1) [OF lock(3)] by simp
next
  case (meta s1 s2 e2) then show ?thesis using free_err1_spec(2) [OF meta(4)] by simp
next
  case (log s1 s2 s4 e4 l) then show ?thesis using free_err1_spec(2) [OF log(5)] by simp
next
  case (dirty s1 s2 s4 l s6 e6 gone) then show ?thesis using free_err1_spec(2) [OF dirty(6)] by simp
qed

subsection \<open>Failures\<close>

lemma new_page_failed:
  assumes "new_page E s n ext ty = (t, e, r)" "e \<noteq> 0" "\<And>k. put_io E k = 0" "ext \<Longrightarrow> m_free s = 0"
  shows "same_pages s t"
proof -
  obtain s1 e1 l where 1: "log_put E s = (s1, e1, l)" by (cases "log_put E s") auto
  have p1: "same_pages s s1" using log_put_spec(1) [OF 1] .
  show ?thesis
  proof (cases "e1 = 0")
    case False
    then have "new_err E s1 (if ext then None else Some n) True True e1 = (t, e, r)"
      using assms(1) by (simp add: new_page_def 1)
    from new_err_spec(3) [OF this] p1 show ?thesis by (blast intro: same_pages_trans)
  next
    case e1: True
    define s2 where "s2 = s1\<lparr>m_lsn := l, m_free := if ext then PGNO_INVALID else next_pgno (pg_of s n)\<rparr>"
    obtain s3 e3 where 3: "(if ext then memp_fget_new E s2 n else (s2, 0)) = (s3, e3)" by fastforce
    have "e3 \<noteq> 0"
    proof
      assume e3: "e3 = 0"
      show False using assms(1,2) e1 e3 assms(3)
        unfolding new_page_def 1 prod.case Let_def s2_def [symmetric] 3
        by (auto simp: memp_fput_def tlput_meta_def Let_def)
    qed
    then have x: ext using 3 by (cases ext) auto
    have "new_err E s3 None True True e3 = (t, e, r)"
      using assms(1) e1 \<open>e3 \<noteq> 0\<close> unfolding new_page_def 1 prod.case Let_def s2_def [symmetric] 3 by simp
    note t = new_err_spec(3) [OF this]
    have "memp_fget_new E s2 n = (s3, e3)" using 3 x by simp
    from memp_fget_new_spec(2,3,6) [OF this] \<open>e3 \<noteq> 0\<close> have "same_pages s2 s3" by (simp add: same_pages_def)
    moreover have "same_pages s s2" using p1 assms(4) [OF x] x by (simp add: same_pages_def s2_def PGNO_INVALID_def)
    ultimately show ?thesis using t by (blast intro: same_pages_trans)
  qed
qed

lemma db_new_failed:
  assumes "db_new E s ty dx = (t, e, r)" "pager_ok E fs s" "r = None" and p: "\<And>k. put_io E k = 0"
  shows "same_pages s t"
  using assms(1,2)
proof (cases rule: db_new_cases)
  case (lock s1 e1)
  then show ?thesis
    using lget_meta_spec(1) [OF lock(1)] new_err_spec(3) [OF lock(3)] by (simp add: same_pages_def)
next
  case (meta s1 s2 e2)
  then show ?thesis
    using lget_meta_spec(1) [OF meta(1)] memp_fget_spec(1) [OF meta(2)] new_err_spec(3) [OF meta(4)]
    by (simp add: same_pages_def)
next
  case (stop s1 s2)
  then show ?thesis
    using lget_meta_spec(1) [OF stop(1)] memp_fget_spec(1) [OF stop(2)] new_err_spec(3) [OF stop(5)]
    by (simp add: same_pages_def)
next
  case (grow s1 s2)
  have p2: "same_pages s s2"
    using lget_meta_spec(1) [OF grow(1)] memp_fget_spec(1) [OF grow(2)] by (rule same_pages_trans)
  have "m_free s2 = 0" using assms(2) grow(3) p2 by (simp add: pager_ok_def same_pages_def PGNO_INVALID_def)
  moreover have "e \<noteq> 0" using new_page_pins(3) [OF grow(5) p] assms(3) by auto
  ultimately show ?thesis using new_page_failed [OF grow(5) _ p] p2 by (blast intro: same_pages_trans)
next
  case (page s1 s2 s3 e3 f fs')
  then show ?thesis
    using lget_meta_spec(1) [OF page(1)] memp_fget_spec(1) [OF page(2)] memp_fget_spec(1) [OF page(4)]
      new_err_spec(3) [OF page(6)] by (simp add: same_pages_def)
next
  case (reuse s1 s2 s3 f fs')
  have p3: "same_pages s s3"
    using lget_meta_spec(1) [OF reuse(1)] memp_fget_spec(1) [OF reuse(2)] memp_fget_spec(1) [OF reuse(4)]
    by (simp add: same_pages_def)
  have "e \<noteq> 0" using new_page_pins(3) [OF reuse(5) p] assms(3) by auto
  then show ?thesis using new_page_failed [OF reuse(5) _ p] p3 by (blast intro: same_pages_trans)
qed

lemma db_free_failed:
  assumes "db_free E s n = (t, e)" "e \<noteq> 0" and p: "\<And>k. put_io E k = 0"
  shows "same_pages s t"
  using assms(1)
proof (cases rule: db_free_run)
  case (lock s1 e1)
  then show ?thesis
    using lget_meta_spec(1) [OF lock(1)] free_err_spec(2) [OF lock(3)] by (simp add: same_pages_def)
next
  case (meta s1 s2 e2)
  then show ?thesis
    using lget_meta_spec(1) [OF meta(1)] memp_fget_spec(1) [OF meta(2)] free_err1_spec(1) [OF meta(4)]
    by (simp add: same_pages_def)
next
  case (log s1 s2 s4 e4 l)
  then show ?thesis
    using lget_meta_spec(1) [OF log(1)] memp_fget_spec(1) [OF log(2)] log_put_spec(1) [OF log(3)]
      free_err1_spec(1) [OF log(5)] by (simp add: same_pages_def)
next
  case (dirty s1 s2 s4 l s6 e6 gone)
  then show ?thesis
    using lget_meta_spec(1) [OF dirty(1)] memp_fget_spec(1) [OF dirty(2)] log_put_spec(1) [OF dirty(3)]
      memp_dirty_spec(1) [OF dirty(4)] free_err1_spec(1) [OF dirty(6)] by (simp add: same_pages_def)
next
  case (freed s1 s2 s4 l s6 s7 s8)
  then show ?thesis using free_err1_spec(4) [OF freed(7) p] assms(2) by simp
qed

section \<open>Runs of the allocator\<close>

text \<open>
  A run of allocations and frees, each of which may fail at any of its calls; the second
  component is the set of pages its callers hold.
\<close>

inductive alloc_run :: "penv \<Rightarrow> pager \<times> u32 set \<Rightarrow> pager \<times> u32 set \<Rightarrow> bool" for E c where
  start: "alloc_run E c c"
| new: "alloc_run E c (s, U) \<Longrightarrow> m_last s + 1 \<noteq> 0 \<Longrightarrow> db_new E s ty False = (t, e, r)
    \<Longrightarrow> alloc_run E c (t, case r of None \<Rightarrow> U | Some n \<Rightarrow> insert n U)"
| free: "alloc_run E c (s, U) \<Longrightarrow> n \<in> U \<Longrightarrow> db_free E s n = (t, e)
    \<Longrightarrow> alloc_run E c (t, if e = 0 then U - {n} else U)"

lemma alloc_run_ok:
  assumes "alloc_run E c c'" "env_ok E" "\<And>k. put_io E k = 0" "\<exists>fs. pager_ok E fs (fst c) \<and> in_use fs (fst c) = snd c"
  shows "(\<exists>fs. pager_ok E fs (fst c') \<and> in_use fs (fst c') = snd c') \<and> m_locks (fst c') = m_locks (fst c)"
  using assms(1)
proof induction
  case start
  then show ?case using assms(4) by simp
next
  case (new s U ty t e r)
  then obtain fs where fs: "pager_ok E fs s" "in_use fs s = U" by auto
  note pin = db_new_pins [OF new(3) fs(1) assms(3)]
  show ?case
  proof (cases r)
    case None
    have st: "same_pages s t" using db_new_failed [OF new(3) fs(1) None assms(3)] .
    have "in_use fs t = in_use fs s" using st by (simp add: in_use_def same_pages_def)
    then show ?thesis using fs st pin new.IH None by (auto simp: same_pages_ok)
  next
    case (Some n)
    then have "db_new E s ty False = (t, 0, r)" using new(3) pin by auto
    from db_new_pages [OF this fs(1) assms(2) new(2)] show ?thesis using Some fs(2) pin new.IH by auto
  qed
next
  case (free s U n t e)
  then obtain fs where fs: "pager_ok E fs s" "in_use fs s = U" by auto
  note pin = db_free_pins [OF free(3) assms(3)]
  show ?case
  proof (cases "e = 0")
    case True
    then have "db_free E s n = (t, 0)" using free(3) by simp
    from db_free_pages [OF this fs(1)] show ?thesis using True fs(2) free(2) pin free.IH by auto
  next
    case False
    have st: "same_pages s t" using db_free_failed [OF free(3) False assms(3)] .
    have "in_use fs t = in_use fs s" using st by (simp add: in_use_def same_pages_def)
    then show ?thesis using fs st pin free.IH False by (auto simp: same_pages_ok)
  qed
qed

section \<open>Properties\<close>

definition fresh_file :: pager where
  "fresh_file = \<lparr>pages = Map.empty, m_free = 0, m_last = 0, m_lsn = (0, 0), pins = (\<lambda>_. 0), m_locks = 0, tick = 0\<rparr>"

definition calm :: penv where
  "calm = \<lparr>pdb = small_db, io = (\<lambda>_. 0), put_io = (\<lambda>_. 0), lost = (\<lambda>_. False), junk = (\<lambda>_. replicate 64 0),
     logging = False, log_lsn = (\<lambda>_. (0, 0))\<rparr>"

lemma fresh_file_ok: "pager_ok E [] fresh_file" "in_use [] fresh_file = {}"
  by (auto simp: pager_ok_def fresh_file_def PGNO_INVALID_def in_use_def)

lemma calm_ok: "env_ok calm" "put_io calm k = 0" "io calm k = 0"
  by (simp_all add: env_ok_def calm_def small_db_def P_OVERHEAD_def)

text \<open>C21: in every run of page allocations and frees, whatever calls fail on the way except those that give a page
  or a lock back (the library panics then), the pages of the file are exactly those in use and those on the free list, and \<open>__db_new\<close> never hands
  out a page that is in use; the lock of the metadata page is given back by every call.\<close>

theorem allocated_page_is_fresh:
  assumes "alloc_run E (s0, in_use fs0 s0) (s, U)" "pager_ok E fs0 s0" "env_ok E" "\<forall>k. put_io E k = 0"
    and "m_last s + 1 \<noteq> 0"
  shows "(\<exists>fs. pager_ok E fs s \<and> in_use fs s = U) \<and> m_locks s = m_locks s0
    \<and> (\<forall>ty t n. db_new E s ty False = (t, 0, Some n) \<longrightarrow> n \<notin> U \<and> n \<noteq> PGNO_BASE_MD)"
proof -
  have "\<exists>fs. pager_ok E fs (fst (s0, in_use fs0 s0)) \<and> in_use fs (fst (s0, in_use fs0 s0)) = snd (s0, in_use fs0 s0)"
    using assms(2) by auto
  from alloc_run_ok [OF assms(1,3) _ this] assms(4)
  obtain fs where fs: "pager_ok E fs s" "in_use fs s = U" "m_locks s = m_locks s0" by auto
  have "n \<notin> U \<and> n \<noteq> PGNO_BASE_MD" if "db_new E s ty False = (t, 0, Some n)" for ty t n
    using db_new_pages [OF that fs(1) assms(3,5)] fs(2) by (auto simp: PGNO_BASE_MD_def)
  then show ?thesis using fs by blast
qed

theorem allocated_page_is_fresh_witness:
  "\<exists>t. db_new calm fresh_file 7 False = (t, 0, Some 1)
    \<and> (\<forall>ty u n. db_new calm t ty False = (u, 0, Some n) \<longrightarrow> n \<notin> {1} \<and> n \<noteq> PGNO_BASE_MD)"
proof -
  obtain t where t: "db_new calm fresh_file 7 False = (t, 0, Some 1)" "m_last t + 1 \<noteq> 0"
    by (simp add: db_new_def new_page_def lget_meta_def memp_fget_def memp_fget_new_def log_put_def memp_fput_def
        tlput_meta_def calm_def fresh_file_def PGNO_BASE_MD_def PGNO_INVALID_def Let_def tock_def pin_def upd_pg_def)
  have "alloc_run calm (fresh_file, in_use [] fresh_file) (t, {1})"
    using alloc_run.new [OF alloc_run.start _ t(1), of "in_use [] fresh_file"] fresh_file_ok(2)
    by (simp add: fresh_file_def)
  from allocated_page_is_fresh [OF this fresh_file_ok(1) calm_ok(1) _ t(2)] t(1) calm_ok(2) show ?thesis by auto
qed

end
