(* ===== verification/Db_Overflow.thy ===== *)
theory Db_Overflow
  imports Db_Alloc
begin

text \<open>
  Big items, \<open>src/db/src/db/db_overflow.c\<close>: an item that does not fit on a page is a chain of overflow
  pages, written by \<open>__db_poff\<close>, read by \<open>__db_goff\<close>, freed by \<open>__db_doff\<close> and compared by \<open>__db_moff\<close>
  and \<open>__db_coff\<close>.  The pages are those of \<open>Db_Alloc\<close>.  The loops over a chain end only when the chain
  does, so they are partial functions; \<open>ov_chain\<close> says that a chain holds a byte string, and then
  they return.  Offsets are \<open>nat\<close>: a chain holds less than 4 GB.
\<close>

section \<open>The code\<close>

definition OV_LEN :: "page \<Rightarrow> nat" where "OV_LEN p = unat (hf_offset p)"
definition OV_REF :: "page \<Rightarrow> nat" where "OV_REF p = unat (entries p)"
definition P_MAXSPACE :: "dbh \<Rightarrow> nat" where "P_MAXSPACE d = pgsize d - P_OVERHEAD d"
definition DB_BUFFER_SMALL :: int where "DB_BUFFER_SMALL = - 30999"

text \<open>The bytes of an overflow page from an offset on.\<close>

definition ov_bytes :: "penv \<Rightarrow> page \<Rightarrow> nat \<Rightarrow> nat \<Rightarrow> byte list" where
  "ov_bytes E p off len = buf_read (P_OVERHEAD (pdb E) + off) len (mem p)"

text \<open>
  The memory flags of a \<open>DBT\<close>, in the order the code tests them; \<open>RETBUF\<close> is a \<open>DBT\<close> with none of
  them, which uses the buffer of the caller, if there is one.
\<close>

datatype dbt_mode = USERCOPY | USERMEM | MALLOC | REALLOC | RETBUF

record dbt =
  dt_data :: "byte list"
  dt_size :: nat
  dt_ulen :: nat
  dt_dlen :: nat
  dt_doff :: nat
  dt_partial :: bool
  dt_mode :: dbt_mode

record stream =
  stream_start :: u32
  stream_curr :: u32
  stream_off :: nat

definition alloc_needed :: "dbt \<Rightarrow> nat \<Rightarrow> nat \<times> nat" where
  "alloc_needed d tlen =
     (if dt_partial d then
        (if dt_doff d > tlen then 0
         else if dt_dlen d > tlen - dt_doff d then tlen - dt_doff d else dt_dlen d, dt_doff d)
      else (tlen, 0))"

text \<open>New memory is zero here; the code does not read it before it is written.\<close>

definition new_mem :: "byte list \<Rightarrow> nat \<Rightarrow> byte list" where
  "new_mem b n = take n b @ replicate (n - length b) 0"

definition db_alloc_dbt ::
    "penv \<Rightarrow> pager \<Rightarrow> dbt \<Rightarrow> nat \<Rightarrow> byte list option \<Rightarrow> pager \<times> int \<times> dbt \<times> byte list option" where
  "db_alloc_dbt E s d tlen buf =
     (let (needed, start) = alloc_needed d tlen; e = io E (tick s) in
      if needed = 0 then (s, 0, d\<lparr>dt_size := 0\<rparr>, buf)
      else case dt_mode d of
        USERCOPY \<Rightarrow> (s, 0, d, buf)
      | USERMEM \<Rightarrow> if needed > dt_ulen d then (s, DB_BUFFER_SMALL, d\<lparr>dt_size := needed\<rparr>, buf) else (s, 0, d, buf)
      | MALLOC \<Rightarrow> if e \<noteq> 0 then (tock s, e, d, buf) else (tock s, 0, d\<lparr>dt_data := new_mem [] needed\<rparr>, buf)
      | REALLOC \<Rightarrow> if e \<noteq> 0 then (tock s, e, d, buf)
                   else (tock s, 0, d\<lparr>dt_data := new_mem (dt_data d) needed\<rparr>, buf)
      | RETBUF \<Rightarrow> (case buf of
            None \<Rightarrow> (s, DB_BUFFER_SMALL, d, buf)
          | Some b \<Rightarrow>
              if b = [] \<or> length b < needed then
                (if e \<noteq> 0 then (tock s, e, d, buf)
                 else (tock s, 0, d\<lparr>dt_data := new_mem b needed\<rparr>, Some (new_mem b needed)))
              else (s, 0, d\<lparr>dt_data := b\<rparr>, buf)))"

text \<open>The loop of \<open>__db_goff\<close>.  The write position is the size of the \<open>DBT\<close> less what is still needed.\<close>

definition goff_copy :: "penv \<Rightarrow> page \<Rightarrow> nat \<Rightarrow> nat \<Rightarrow> nat \<Rightarrow> dbt \<Rightarrow> dbt \<times> nat" where
  "goff_copy E h curoff start needed d =
     (if curoff + OV_LEN h \<ge> start then
        (let skip = (if start > curoff then start - curoff else 0);
             bytes = (if OV_LEN h - skip > needed then needed else OV_LEN h - skip)
         in (d\<lparr>dt_data := buf_write (dt_size d - needed) (ov_bytes E h skip bytes) (dt_data d)\<rparr>, needed - bytes))
      else (d, needed))"

partial_function (option) goff_loop ::
    "penv \<Rightarrow> pager \<Rightarrow> stream \<Rightarrow> dbt \<Rightarrow> nat \<Rightarrow> nat \<Rightarrow> nat \<Rightarrow> u32 \<Rightarrow> (pager \<times> int \<times> dbt \<times> stream) option" where
  "goff_loop E s c d needed curoff start n =
     (if n = PGNO_INVALID \<or> needed = 0 then Some (s, 0, d, c)
      else case memp_fget E s n of
        (s1, e) \<Rightarrow>
          if e \<noteq> 0 then Some (s1, e, d, c)
          else (let h = pg_of s1 n; copy = curoff + OV_LEN h \<ge> start \<and> dt_mode d = USERCOPY in
            if copy \<and> io E (tick s1) \<noteq> 0 then Some (fst (memp_fput E (tock s1) n), io E (tick s1), d, c)
            else (case goff_copy E h curoff start needed d of
                    (d', needed') \<Rightarrow>
                      goff_loop E (fst (memp_fput E (if copy then tock s1 else s1) n))
                        (c\<lparr>stream_off := curoff, stream_curr := n\<rparr>) d' needed' (curoff + OV_LEN h) start (next_pgno h))))"

definition db_goff ::
    "penv \<Rightarrow> pager \<Rightarrow> stream \<Rightarrow> dbt \<Rightarrow> nat \<Rightarrow> u32 \<Rightarrow> byte list option
      \<Rightarrow> (pager \<times> int \<times> dbt \<times> byte list option \<times> stream) option" where
  "db_goff E s c d tlen n buf =
     (case alloc_needed d tlen of (needed, start) \<Rightarrow>
      case db_alloc_dbt E s d tlen buf of (s1, e, d1, buf1) \<Rightarrow>
        if e \<noteq> 0 \<or> needed = 0 then Some (s1, e, d1, buf1, c)
        else (let hit = stream_start c \<noteq> PGNO_INVALID \<and> n = stream_start c \<and> start \<ge> stream_off c
                    \<and> start < stream_off c + P_MAXSPACE (pdb E);
                  c1 = (if hit then c else c\<lparr>stream_start := n, stream_curr := n, stream_off := 0\<rparr>)
              in case goff_loop E s1 c1 (d1\<lparr>dt_size := needed\<rparr>) needed (stream_off c1) start (stream_curr c1) of
                   None \<Rightarrow> None
                 | Some (s2, e, d2, c2) \<Rightarrow>
                     Some (s2, e, d2, if dt_mode d = RETBUF then map_option (\<lambda>b. dt_data d2) buf1 else buf1, c2)))"

subsection \<open>Writing\<close>

text \<open>The pieces of the data that the loop of \<open>__db_poff\<close> puts on a page each (a page never has no space).\<close>

function pieces :: "nat \<Rightarrow> byte list \<Rightarrow> byte list list" where
  "pieces k xs = (if k = 0 \<or> xs = [] then [] else take k xs # pieces k (drop k xs))"
  by pat_completeness auto
termination by (relation "measure (\<lambda>(k, xs). length xs)") auto

declare pieces.simps [simp del]

text \<open>The label \<open>err\<close>: remember the last page for a later append, and give it back.\<close>

definition poff_err :: "penv \<Rightarrow> pager \<Rightarrow> stream \<Rightarrow> nat \<Rightarrow> u32 option \<Rightarrow> int \<Rightarrow> u32 \<Rightarrow> pager \<times> int \<times> stream \<times> u32" where
  "poff_err E s c sz0 lastp ret first =
     (case lastp of
        None \<Rightarrow> (s, ret, c, first)
      | Some n \<Rightarrow>
          (let c1 = (if ret = 0 then c\<lparr>stream_curr := pgno (pg_of s n), stream_off := sz0 - OV_LEN (pg_of s n)\<rparr> else c);
               (s1, t) = memp_fput E s n
           in (s1, keep ret t, c1, first)))"

text \<open>The new page \<open>n\<close> gets its piece and is linked after the last page.\<close>

definition put_piece :: "penv \<Rightarrow> pager \<Rightarrow> u32 option \<Rightarrow> u32 \<Rightarrow> u32 \<times> u32 \<Rightarrow> byte list \<Rightarrow> pager" where
  "put_piece E s lastp n l b =
     (let s3 = upd_pg s n (\<lambda>p. p\<lparr>lsn := l\<rparr>);
          s4 = (case lastp of None \<Rightarrow> s3 | Some q \<Rightarrow> upd_pg s3 q (\<lambda>p. p\<lparr>lsn := l\<rparr>));
          s5 = upd_pg s4 n (\<lambda>p. p\<lparr>hf_offset := word_of_nat (length b), entries := 1,
                 mem := buf_write (P_OVERHEAD (pdb E)) b (mem p)\<rparr>)
      in case lastp of
           None \<Rightarrow> s5
         | Some q \<Rightarrow> upd_pg (upd_pg s5 q (\<lambda>p. p\<lparr>next_pgno := n\<rparr>)) n (\<lambda>p. p\<lparr>prev_pgno := q\<rparr>))"

fun poff_loop ::
    "penv \<Rightarrow> pager \<Rightarrow> stream \<Rightarrow> nat \<Rightarrow> u32 option \<Rightarrow> u32 \<Rightarrow> byte list list \<Rightarrow> pager \<times> int \<times> stream \<times> u32" where
  "poff_loop E s c sz0 lastp first [] = poff_err E s c sz0 lastp 0 first"
| "poff_loop E s c sz0 lastp first (b # bs) =
     (case db_new E s P_OVERFLOW False of
        (s1, e, None) \<Rightarrow> poff_err E s1 c sz0 lastp e first
      | (s1, e, Some n) \<Rightarrow>
          if e \<noteq> 0 then poff_err E s1 c sz0 lastp e first
          else (case log_put E s1 of (s2, e, l) \<Rightarrow>
            if e \<noteq> 0 then poff_err E (fst (memp_fput E s2 n)) c sz0 lastp e first
            else (case lastp of
                    None \<Rightarrow>
                      poff_loop E (put_piece E s2 None n l b)
                        (c\<lparr>stream_start := n, stream_curr := n, stream_off := 0\<rparr>) sz0 (Some n) n bs
                  | Some q \<Rightarrow>
                      (case memp_fput E (put_piece E s2 (Some q) n l b) q of (s8, e) \<Rightarrow>
                         if e \<noteq> 0 then poff_err E s8 c sz0 None e first
                         else poff_loop E s8 c sz0 (Some n) first bs))))"

text \<open>
  An append goes to the last page of the chain first: \<open>sz\<close> is the size of the item less what it
  has and what fits on that page, and the data left is taken from the remaining data.
\<close>

definition db_poff :: "penv \<Rightarrow> pager \<Rightarrow> stream \<Rightarrow> dbt \<Rightarrow> bool \<Rightarrow> u32 \<Rightarrow> pager \<times> int \<times> stream \<times> u32" where
  "db_poff E s c d streaming first =
     (let ps = P_MAXSPACE (pdb E) in
      if \<not> streaming then poff_loop E s c (dt_size d) None first (pieces ps (take (dt_size d) (dt_data d)))
      else (let n = stream_curr c; (s1, e) = memp_fget E s n in
        if e \<noteq> 0 then (s1, e, c, first)
        else (let space = (if ps - OV_LEN (pg_of s1 n) > dt_dlen d then dt_dlen d else ps - OV_LEN (pg_of s1 n));
                  (s2, e, l) = log_put E s1
              in if e \<noteq> 0 then poff_err E s2 c (dt_size d) (Some n) e first
                 else (let s3 = upd_pg s2 n (\<lambda>p. p\<lparr>lsn := l\<rparr>);
                           s4 = upd_pg s3 n (\<lambda>p. p\<lparr>mem := buf_write (P_OVERHEAD (pdb E) + OV_LEN p)
                                  (take space (dt_data d)) (mem p), hf_offset := hf_offset p + word_of_nat space\<rparr>)
                       in poff_loop E s4 c (dt_size d) (Some n) (stream_start c)
                            (pieces ps (take (dt_size d - (space + dt_doff d)) (drop space (dt_data d))))))))"

subsection \<open>Freeing\<close>

definition db_ovref :: "penv \<Rightarrow> pager \<Rightarrow> u32 \<Rightarrow> pager \<times> int" where
  "db_ovref E s n =
     (let (s1, e) = memp_fget E s n in
      if e \<noteq> 0 then (s1, e)
      else (let (s2, e, l) = log_put E s1 in
        if e \<noteq> 0 then (fst (memp_fput E s2 n), e)
        else memp_fput E (upd_pg s2 n (\<lambda>p. p\<lparr>lsn := l, entries := entries p - 1\<rparr>)) n))"

partial_function (option) db_doff :: "penv \<Rightarrow> pager \<Rightarrow> u32 \<Rightarrow> (pager \<times> int) option" where
  "db_doff E s n =
     (case memp_fget E s n of
        (s1, e) \<Rightarrow>
          if e \<noteq> 0 then Some (s1, e)
          else if OV_REF (pg_of s1 n) > 1 then Some (db_ovref E (fst (memp_fput E s1 n)) n)
          else (case memp_dirty E s1 n of (s2, e, gone) \<Rightarrow>
            if e \<noteq> 0 then Some (if gone then s2 else fst (memp_fput E s2 n), e)
            else (case log_put E s2 of (s3, e, l) \<Rightarrow>
              if e \<noteq> 0 then Some (fst (memp_fput E s3 n), e)
              else (let s4 = upd_pg s3 n (\<lambda>p. p\<lparr>lsn := l\<rparr>); next = next_pgno (pg_of s4 n);
                        s5 = upd_pg s4 n (\<lambda>p. p\<lparr>hf_offset := 0\<rparr>)
                    in case db_free E s5 n of (s6, e) \<Rightarrow>
                         if e \<noteq> 0 then Some (s6, e)
                         else if next \<noteq> PGNO_INVALID then db_doff E s6 next else Some (s6, 0)))))"

subsection \<open>Comparing\<close>

text \<open>The comparison of two runs of bytes: the sign at the first difference, and how many are equal.\<close>

fun cmp_run :: "byte list \<Rightarrow> byte list \<Rightarrow> int \<times> nat" where
  "cmp_run (x # xs) (y # ys) =
     (if x \<noteq> y then (int (unat x) - int (unat y), 0) else (case cmp_run xs ys of (c, k) \<Rightarrow> (c, Suc k)))"
| "cmp_run _ _ = (0, 0)"

text \<open>
  \<open>moff_loop\<close>: \<open>key\<close> is the rest of the key, \<open>tlen\<close> the rest of the item, \<open>pos\<close> the offset of the page in
  the item, \<open>loc\<close> the length of the common prefix so far, when the caller keeps it.
\<close>

partial_function (option) moff_loop ::
    "penv \<Rightarrow> pager \<Rightarrow> byte list \<Rightarrow> nat \<Rightarrow> nat \<Rightarrow> nat \<Rightarrow> u32 \<Rightarrow> nat option \<Rightarrow> (pager \<times> int \<times> int \<times> nat option) option" where
  "moff_loop E s key tlen pos start n loc =
     (if key = [] \<or> tlen = 0 \<or> n = PGNO_INVALID
      then Some (s, 0, if key \<noteq> [] then 1 else if tlen > 0 then - 1 else 0, loc)
      else case memp_fget E s n of
        (s1, e) \<Rightarrow>
          if e \<noteq> 0 then Some (s1, e, 0, loc)
          else (let h = pg_of s1 n;
                    (off, len) = (if pos \<ge> start then (0, OV_LEN h)
                                  else if pos + OV_LEN h > start then (start - pos, OV_LEN h - (start - pos))
                                  else (0, 0));
                    len = (if len > length key then length key else len);
                    (c, k) = cmp_run (take len key) (ov_bytes E h off len);
                    loc' = map_option (\<lambda>l. l + k) loc;
                    (s2, e) = memp_fput E s1 n
                in if e \<noteq> 0 then Some (s2, e, c, loc')
                   else if c \<noteq> 0 then Some (s2, 0, c, loc')
                   else moff_loop E s2 (drop len key) (tlen - len) (pos + OV_LEN h) start (next_pgno h) loc'))"

text \<open>A user's comparison gets the two items and no prefix length.\<close>

definition db_moff ::
    "penv \<Rightarrow> pager \<Rightarrow> stream \<Rightarrow> byte list \<Rightarrow> u32 \<Rightarrow> nat \<Rightarrow> (byte list \<Rightarrow> byte list \<Rightarrow> int) option \<Rightarrow> nat option
      \<Rightarrow> (pager \<times> int \<times> int \<times> nat option \<times> stream) option" where
  "db_moff E s c key n tlen cmpfunc loc =
     (case cmpfunc of
        Some f \<Rightarrow>
          (case db_goff E s c \<lparr>dt_data = [], dt_size = 0, dt_ulen = 0, dt_dlen = 0, dt_doff = 0, dt_partial = False,
                                dt_mode = RETBUF\<rparr> tlen n (Some []) of
             None \<Rightarrow> None
           | Some (s1, e, d, _, c1) \<Rightarrow> Some (s1, e, if e \<noteq> 0 then 0 else f key (take (dt_size d) (dt_data d)), loc, c1))
      | None \<Rightarrow>
          (let start = (case loc of None \<Rightarrow> 0 | Some l \<Rightarrow> l)
           in case moff_loop E s (drop start key) (tlen - start) 0 start n loc of
                None \<Rightarrow> None
              | Some (s1, e, r, loc') \<Rightarrow> Some (s1, e, r, loc', c)))"

partial_function (option) coff_loop ::
    "penv \<Rightarrow> pager \<Rightarrow> u32 \<Rightarrow> u32 \<Rightarrow> u32 \<Rightarrow> (pager \<times> int \<times> int) option" where
  "coff_loop E s a b max_data =
     (if a = PGNO_INVALID \<or> b = PGNO_INVALID then Some (s, 0, 0)
      else case memp_fget E s a of
        (s1, e) \<Rightarrow>
          if e \<noteq> 0 then Some (s1, e, 0)
          else (case memp_fget E s1 b of
            (s2, e) \<Rightarrow>
              if e \<noteq> 0 then Some (fst (memp_fput E s2 a), e, 0)
              else (let page_space = word_of_nat (P_MAXSPACE (pdb E));
                        len = unat (if page_space < max_data then page_space else max_data);
                        ha = pg_of s2 a; hb = pg_of s2 b;
                        (c, k) = cmp_run (ov_bytes E ha 0 len) (ov_bytes E hb 0 len);
                        (s3, e) = memp_fput E s2 a
                    in if e \<noteq> 0 then Some (fst (memp_fput E s3 b), e, c)
                       else (let (s4, e) = memp_fput E s3 b in
                         if e \<noteq> 0 then Some (s4, e, c)
                         else if c \<noteq> 0 then Some (s4, 0, c)
                         else coff_loop E s4 (next_pgno ha) (next_pgno hb) (max_data - page_space)))))"

text \<open>\<open>__db_coff\<close> on two items given by their lengths and first pages.\<close>

definition db_coff ::
    "penv \<Rightarrow> pager \<Rightarrow> stream \<Rightarrow> u32 \<times> u32 \<Rightarrow> u32 \<times> u32 \<Rightarrow> (byte list \<Rightarrow> byte list \<Rightarrow> int) option
      \<Rightarrow> (pager \<times> int \<times> int \<times> stream) option" where
  "db_coff E s c a b cmpfunc =
     (case (a, b) of ((alen, apg), (blen, bpg)) \<Rightarrow>
      let loc = \<lparr>dt_data = [], dt_size = 0, dt_ulen = 0, dt_dlen = 0, dt_doff = 0, dt_partial = False,
                 dt_mode = RETBUF\<rparr> in
      case cmpfunc of
        Some f \<Rightarrow>
          (case db_goff E s c loc (unat alen) apg (Some []) of
             None \<Rightarrow> None
           | Some (s1, e, d1, _, c1) \<Rightarrow>
               if e \<noteq> 0 then Some (s1, e, 0, c1)
               else (case db_goff E s1 c1 loc (unat blen) bpg (Some []) of
                       None \<Rightarrow> None
                     | Some (s2, e, d2, _, c2) \<Rightarrow>
                         if e \<noteq> 0 then Some (s2, e, 0, c2)
                         else Some (s2, 0, f (take (dt_size d1) (dt_data d1)) (take (dt_size d2) (dt_data d2)), c2)))
      | None \<Rightarrow>
          (case coff_loop E s apg bpg (if alen < blen then alen else blen) of
             None \<Rightarrow> None
           | Some (s1, e, r) \<Rightarrow>
               if e \<noteq> 0 \<or> r \<noteq> 0 then Some (s1, e, r, c)
               else Some (s1, 0, if alen > blen then 1 else if blen > alen then - 1 else 0, c)))"

section \<open>Chains\<close>

text \<open>The chain from page \<open>n\<close> has these pages, with these bytes.\<close>

fun ov_chain :: "penv \<Rightarrow> pager \<Rightarrow> u32 \<Rightarrow> (u32 \<times> byte list) list \<Rightarrow> bool" where
  "ov_chain E s n [] = (n = PGNO_INVALID)"
| "ov_chain E s n ((p, b) # ps) =
     (n = p \<and> p \<noteq> PGNO_INVALID \<and> p \<notin> fst ` set ps \<and> pages s p \<noteq> None \<and> b \<noteq> []
      \<and> ptype (pg_of s p) = P_OVERFLOW \<and> OV_REF (pg_of s p) = 1 \<and> OV_LEN (pg_of s p) = length b
      \<and> P_OVERHEAD (pdb E) + length b \<le> length (mem (pg_of s p)) \<and> ov_bytes E (pg_of s p) 0 (length b) = b
      \<and> ov_chain E s (next_pgno (pg_of s p)) ps)"

definition chain_bytes :: "(u32 \<times> byte list) list \<Rightarrow> byte list" where
  "chain_bytes ps = concat (map snd ps)"

lemma chain_bytes_simps [simp]: "chain_bytes [] = []" "chain_bytes ((p, b) # ps) = b @ chain_bytes ps"
  by (simp_all add: chain_bytes_def)

lemma ov_chain_cong:
  "\<lbrakk>\<And>p. p \<in> fst ` set ps \<Longrightarrow> pages s p = pages t p\<rbrakk> \<Longrightarrow> ov_chain E s n ps = ov_chain E t n ps"
  by (induction ps arbitrary: n) (auto simp: pg_of_def)

lemma ov_bytes_part:
  assumes "ov_bytes E p 0 (length b) = b" "off + len \<le> length b"
  shows "ov_bytes E p off len = take len (drop off b)"
proof -
  have "min len (length b - off) = len" using assms(2) by simp
  then show ?thesis
    using arg_cong [OF assms(1), of "\<lambda>x. take len (drop off x)"]
    by (simp add: ov_bytes_def buf_read_def drop_take add.commute)
qed

subsection \<open>Reading a chain\<close>

lemma goff_copy_spec:
  assumes "OV_LEN h = length b" "ov_bytes E h 0 (length b) = b" "needed \<le> dt_size d" "dt_size d \<le> length (dt_data d)"
  shows "goff_copy E h curoff start needed d =
    (d\<lparr>dt_data := buf_write (dt_size d - needed) (take needed (drop (start - curoff) b)) (dt_data d)\<rparr>,
     needed - (length b - (start - curoff)))"
proof (cases "curoff + length b \<ge> start")
  case True
  define skip where "skip = start - curoff"
  define bytes where "bytes = (if length b - skip > needed then needed else length b - skip)"
  have "ov_bytes E h skip bytes = take needed (drop skip b)"
    using True by (subst ov_bytes_part [OF assms(2)]) (auto simp: bytes_def skip_def)
  moreover have "needed - bytes = needed - (length b - skip)" by (auto simp: bytes_def)
  moreover have "goff_copy E h curoff start needed d =
    (d\<lparr>dt_data := buf_write (dt_size d - needed) (ov_bytes E h skip bytes) (dt_data d)\<rparr>, needed - bytes)"
  proof -
    have "(if curoff < start then start - curoff else 0) = skip" by (simp add: skip_def)
    then show ?thesis using True assms(1) unfolding goff_copy_def Let_def bytes_def by simp
  qed
  ultimately show ?thesis by (simp add: skip_def)
next
  case False
  then have "drop (start - curoff) b = []" "length b - (start - curoff) = 0" by auto
  then show ?thesis using False assms(1) by (simp add: goff_copy_def buf_write_def)
qed

lemma put_after_get:
  assumes "memp_fget E s n = (s1, 0)" "memp_fput E s2 n = (t, e)" "same_pages s1 s2" "pins s2 = pins s1"
    "m_locks s2 = m_locks s1"
  shows "same_pages s t" "(\<And>k. put_io E k = 0) \<Longrightarrow> pins t = pins s \<and> m_locks t = m_locks s"
proof -
  show "same_pages s t"
    using memp_fget_spec(1) [OF assms(1)] memp_fput_spec(1) [OF assms(2)] assms(3) by (blast intro: same_pages_trans)
  assume "\<And>k. put_io E k = 0"
  then show "pins t = pins s \<and> m_locks t = m_locks s"
    using memp_fget_spec(2,3) [OF assms(1)] memp_fput_spec(2-4) [OF assms(2)] assms(4,5) by simp
qed

lemma take_drop_append:
  "take n (drop k (b @ v)) = take n (drop k b) @ take (n - (length b - k)) (drop (k - length b) v)"
  by simp

text \<open>Reading a chain fills the buffer from its write position, whatever the chain starts at.\<close>

lemma goff_loop_chain:
  assumes "ov_chain E s n ps" "needed \<le> dt_size d" "dt_size d \<le> length (dt_data d)"
    and "needed \<le> length (chain_bytes ps) - (start - curoff)"
  shows "\<exists>t e d' c'. goff_loop E s c d needed curoff start n = Some (t, e, d', c') \<and> same_pages s t
    \<and> ((\<forall>k. put_io E k = 0) \<longrightarrow> pins t = pins s \<and> m_locks t = m_locks s)
    \<and> ((\<forall>k. io E k = 0) \<longrightarrow> e = 0) \<and> stream_start c' = stream_start c
    \<and> dt_size d' = dt_size d \<and> length (dt_data d') = length (dt_data d)
    \<and> (e = 0 \<longrightarrow> dt_data d' = buf_write (dt_size d - needed)
           (take needed (drop (start - curoff) (chain_bytes ps))) (dt_data d))"
  using assms
proof (induction ps arbitrary: s n c d needed curoff)
  case Nil
  then have "needed = 0" by simp
  then show ?case by (subst goff_loop.simps) (simp add: buf_write_def)
next
  case (Cons pb ps)
  obtain p b where pb: "pb = (p, b)" by (cases pb)
  have ch: "n = p" "p \<noteq> PGNO_INVALID" "pages s p \<noteq> None" "OV_LEN (pg_of s p) = length b"
    "ov_bytes E (pg_of s p) 0 (length b) = b" "ov_chain E s (next_pgno (pg_of s p)) ps"
    using Cons.prems(1) pb by auto
  show ?case
  proof (cases "needed = 0")
    case True
    then show ?thesis by (subst goff_loop.simps) (simp add: buf_write_def)
  next
    case False
    obtain s1 e1 where 1: "memp_fget E s n = (s1, e1)" by fastforce
    have sp1: "same_pages s s1" using memp_fget_spec(1) [OF 1] .
    have n0: "n \<noteq> PGNO_INVALID" using ch(1,2) by simp
    show ?thesis
    proof (cases "e1 = 0")
      case e1: False
      have "goff_loop E s c d needed curoff start n = Some (s1, e1, d, c)"
        using False n0 e1 by (subst goff_loop.simps) (simp add: 1)
      moreover have "\<exists>k. io E k \<noteq> 0" using memp_fget_spec(7) [OF 1] ch(1,3) e1 by blast
      ultimately show ?thesis
        using e1 memp_fget_spec(2,3) [OF 1] sp1 by auto
    next
      case True
      then have 1: "memp_fget E s n = (s1, 0)" using 1 by simp
      have h: "pg_of s1 n = pg_of s p" using sp1 ch(1) by (simp add: same_pages_def pg_of_def)
      define copy where "copy \<longleftrightarrow> curoff + length b \<ge> start \<and> dt_mode d = USERCOPY"
      define s2 where "s2 = (if copy then tock s1 else s1)"
      have st2: "same_pages s1 s2" "pins s2 = pins s1" "m_locks s2 = m_locks s1"
        by (simp_all add: s2_def same_pages_def)
      obtain s3 e3 where 3: "memp_fput E s2 n = (s3, e3)" by fastforce
      note pg = put_after_get [OF 1 3 st2]
      show ?thesis
      proof (cases "copy \<and> io E (tick s1) \<noteq> 0")
        case True
        then have "goff_loop E s c d needed curoff start n = Some (s3, io E (tick s1), d, c)"
          using False n0 ch(4) 3 by (subst goff_loop.simps) (simp add: 1 h copy_def s2_def Let_def)
        then show ?thesis using True pg by auto
      next
        case nf: False
        define d1 where "d1 = d\<lparr>dt_data := buf_write (dt_size d - needed) (take needed (drop (start - curoff) b)) (dt_data d)\<rparr>"
        define need1 where "need1 = needed - (length b - (start - curoff))"
        have gc: "goff_copy E (pg_of s1 n) curoff start needed d = (d1, need1)"
          unfolding h d1_def need1_def using goff_copy_spec [OF ch(4,5) Cons.prems(2,3)] .
        have run: "goff_loop E s c d needed curoff start n =
          goff_loop E s3 (c\<lparr>stream_off := curoff, stream_curr := n\<rparr>) d1 need1 (curoff + length b) start (next_pgno (pg_of s p))"
        proof -
          have "fst (memp_fput E s2 n) = s3" by (simp add: 3)
          then show ?thesis using False n0 ch(4) nf gc
            unfolding goff_loop.simps [of E s c d needed curoff start n] 1 copy_def s2_def by (simp add: h Let_def) blast
        qed
        let ?c = "c\<lparr>stream_off := curoff, stream_curr := n\<rparr>"
        have l1: "length (take needed (drop (start - curoff) b)) = needed - need1" by (auto simp: need1_def)
        have sz: "dt_size d1 = dt_size d" "length (dt_data d1) = length (dt_data d)"
          using Cons.prems(2,3) by (auto simp: d1_def)
        have c3: "ov_chain E s3 (next_pgno (pg_of s p)) ps"
          using ch(6) pg(1) ov_chain_cong [of ps s s3] by (simp add: same_pages_def)
        have n1: "need1 \<le> dt_size d1" "dt_size d1 \<le> length (dt_data d1)"
          "need1 \<le> length (chain_bytes ps) - (start - (curoff + length b))"
          using Cons.prems(2-4) sz pb by (auto simp: need1_def)
        from Cons.IH [OF c3 n1, of ?c] obtain t e d' c' where
          r: "goff_loop E s3 ?c d1 need1 (curoff + length b) start (next_pgno (pg_of s p)) = Some (t, e, d', c')"
          and st: "same_pages s3 t" and pins: "(\<forall>k. put_io E k = 0) \<longrightarrow> pins t = pins s3 \<and> m_locks t = m_locks s3"
          and io: "(\<forall>k. io E k = 0) \<longrightarrow> e = 0" "stream_start c' = stream_start ?c"
          and dd': "dt_size d' = dt_size d1" "length (dt_data d') = length (dt_data d1)"
          and res: "e = 0 \<longrightarrow> dt_data d' = buf_write (dt_size d1 - need1)
            (take need1 (drop (start - (curoff + length b)) (chain_bytes ps))) (dt_data d1)"
          by blast
        have dd: "dt_size d' = dt_size d" "length (dt_data d') = length (dt_data d)" using dd' sz by simp_all
        have bytes: "dt_data d' = buf_write (dt_size d - needed)
            (take needed (drop (start - curoff) (chain_bytes (pb # ps)))) (dt_data d)" if "e = 0"
        proof -
          define y where "y = take need1 (drop (start - (curoff + length b)) (chain_bytes ps))"
          have x: "take needed (drop (start - curoff) (chain_bytes (pb # ps))) = take needed (drop (start - curoff) b) @ y"
            unfolding pb chain_bytes_simps take_drop_append y_def need1_def by simp
          have off: "dt_size d1 - need1 = dt_size d - needed + length (take needed (drop (start - curoff) b))"
            using Cons.prems(2) sz l1 by (auto simp: need1_def)
          have ly: "length y \<le> need1" by (simp add: y_def)
          have "dt_size d - needed + length (take needed (drop (start - curoff) b)) + length y \<le> length (dt_data d)"
            using n1(1,2) ly sz unfolding off [symmetric] by linarith
          from buf_write_write_adjacent [OF this] show ?thesis
            using res that unfolding y_def [symmetric] off x by (simp add: d1_def)
        qed
        show ?thesis
          using run r st pins io dd bytes pg same_pages_trans [OF pg(1) st] by auto
      qed
    qed
  qed
qed

text \<open>The cached position of a cursor is one of the chain.\<close>

definition stream_ok :: "stream \<Rightarrow> u32 \<Rightarrow> (u32 \<times> byte list) list \<Rightarrow> bool" where
  "stream_ok c n ps \<longleftrightarrow> (stream_start c = n \<longrightarrow>
     (\<exists>qs rs. ps = qs @ rs \<and> rs \<noteq> [] \<and> stream_curr c = fst (hd rs) \<and> stream_off c = length (chain_bytes qs)))"

lemma chain_bytes_append [simp]: "chain_bytes (ps @ qs) = chain_bytes ps @ chain_bytes qs"
  by (simp add: chain_bytes_def)

lemma ov_chain_suffix: "ov_chain E s n (qs @ rs) \<Longrightarrow> rs \<noteq> [] \<Longrightarrow> ov_chain E s (fst (hd rs)) rs"
proof (induction qs arbitrary: n)
  case Nil
  then show ?case by (cases rs) auto
qed auto

definition goff_room :: "dbt \<Rightarrow> nat \<Rightarrow> byte list option \<Rightarrow> bool" where
  "goff_room d tlen buf \<longleftrightarrow>
     (case dt_mode d of USERMEM \<Rightarrow> length (dt_data d) = dt_ulen d
      | USERCOPY \<Rightarrow> fst (alloc_needed d tlen) \<le> length (dt_data d) | RETBUF \<Rightarrow> buf \<noteq> None | _ \<Rightarrow> True)"

lemma db_alloc_dbt_spec:
  assumes "db_alloc_dbt E s d tlen buf = (t, e, d', buf')" "goff_room d tlen buf"
  shows "same_pages s t" "pins t = pins s" "m_locks t = m_locks s"
    "e = 0 \<longrightarrow> fst (alloc_needed d tlen) \<noteq> 0 \<longrightarrow> fst (alloc_needed d tlen) \<le> length (dt_data d')"
    "(\<forall>k. io E k = 0) \<longrightarrow> (dt_mode d = USERMEM \<longrightarrow> fst (alloc_needed d tlen) \<le> dt_ulen d) \<longrightarrow> e = 0"
    "fst (alloc_needed d tlen) = 0 \<longrightarrow> e = 0 \<and> d' = d\<lparr>dt_size := 0\<rparr>"
  using assms unfolding db_alloc_dbt_def goff_room_def
  by (auto simp: same_pages_def new_mem_def Let_def DB_BUFFER_SMALL_def split: prod.splits dbt_mode.splits option.splits if_splits)

lemma take_buf_write_all: "length xs = n \<Longrightarrow> n \<le> length b \<Longrightarrow> take n (buf_write 0 xs b) = xs"
  by (simp add: buf_write_def)

lemma goff_chain:
  assumes ch: "ov_chain E s n ps" and ps: "ps \<noteq> []" and tl: "tlen = length (chain_bytes ps)"
    and st: "stream_ok c n ps" and room: "goff_room d tlen buf"
    and al: "alloc_needed d tlen = (needed, start)"
  shows "\<exists>t e d' buf' c'. db_goff E s c d tlen n buf = Some (t, e, d', buf', c') \<and> same_pages s t
    \<and> ((\<forall>k. put_io E k = 0) \<longrightarrow> pins t = pins s \<and> m_locks t = m_locks s)
    \<and> ((\<forall>k. io E k = 0) \<longrightarrow> (dt_mode d = USERMEM \<longrightarrow> needed \<le> dt_ulen d) \<longrightarrow> e = 0)
    \<and> (e = 0 \<longrightarrow> dt_size d' = needed \<and> take needed (dt_data d') = take needed (drop start (chain_bytes ps)))"
proof -
  obtain s1 e1 d1 buf1 where 1: "db_alloc_dbt E s d tlen buf = (s1, e1, d1, buf1)"
    by (cases "db_alloc_dbt E s d tlen buf") auto
  note A = db_alloc_dbt_spec [OF 1 room, unfolded al fst_conv]
  have need: "needed \<le> tlen - start" using al by (auto simp: alloc_needed_def split: if_splits)
  show ?thesis
  proof (cases "e1 \<noteq> 0 \<or> needed = 0")
    case True
    then have "db_goff E s c d tlen n buf = Some (s1, e1, d1, buf1, c)"
      unfolding db_goff_def al 1 by simp
    moreover have "e1 = 0 \<longrightarrow> dt_size d1 = needed \<and> take needed (dt_data d1) = take needed (drop start (chain_bytes ps))"
      using A(6) True by simp
    ultimately show ?thesis using A(1,2,3,5) by blast
  next
    case False
    define hit where "hit \<longleftrightarrow> stream_start c \<noteq> PGNO_INVALID \<and> n = stream_start c \<and> start \<ge> stream_off c
        \<and> start < stream_off c + P_MAXSPACE (pdb E)"
    define c1 where "c1 = (if hit then c else c\<lparr>stream_start := n, stream_curr := n, stream_off := 0\<rparr>)"
    obtain qs rs where qr: "ps = qs @ rs" "rs \<noteq> []" "stream_curr c1 = fst (hd rs)" "stream_off c1 = length (chain_bytes qs)"
      "stream_off c1 \<le> start"
    proof (cases hit)
      case True
      then show thesis using st that by (auto simp: hit_def c1_def stream_ok_def)
    next
      case False
      moreover have "n = fst (hd ps)" using ch ps by (cases ps) auto
      ultimately show thesis using that [of "[]" ps] ps by (simp add: c1_def)
    qed
    have ch1: "ov_chain E s1 (stream_curr c1) rs"
      using ov_chain_suffix [of E s n qs rs] ch qr(1-3) A(1) ov_chain_cong [of rs s s1]
      by (simp add: same_pages_def)
    have dr: "drop (start - stream_off c1) (chain_bytes rs) = drop start (chain_bytes ps)"
      using qr(1,4,5) by simp
    have q1: "needed \<le> length (chain_bytes rs) - (start - stream_off c1)"
      using need tl arg_cong [OF dr, of length] by simp
    have q2: "needed \<le> length (dt_data d1)" using A(4) False by simp
    let ?d = "d1\<lparr>dt_size := needed\<rparr>"
    have q: "needed \<le> dt_size ?d" "dt_size ?d \<le> length (dt_data ?d)" using q2 by simp_all
    from goff_loop_chain [OF ch1 q q1, of c1, unfolded dr] obtain t e d' c' where
      r: "goff_loop E s1 c1 ?d needed (stream_off c1) start (stream_curr c1) = Some (t, e, d', c')"
      and R: "same_pages s1 t" "(\<forall>k. put_io E k = 0) \<longrightarrow> pins t = pins s1 \<and> m_locks t = m_locks s1"
        "(\<forall>k. io E k = 0) \<longrightarrow> e = 0" "dt_size d' = dt_size ?d"
        "e = 0 \<longrightarrow> dt_data d' = buf_write (dt_size ?d - needed) (take needed (drop start (chain_bytes ps))) (dt_data ?d)"
      by blast
    have "db_goff E s c d tlen n buf
      = Some (t, e, d', if dt_mode d = RETBUF then map_option (\<lambda>b. dt_data d') buf1 else buf1, c')"
      unfolding db_goff_def al prod.case 1 Let_def hit_def [symmetric] c1_def [symmetric] r using False by simp
    moreover have "take needed (dt_data d') = take needed (drop start (chain_bytes ps))" if "e = 0"
      using R(5) that q2 need tl by (simp add: take_buf_write_all)
    moreover have "dt_size d' = needed" using R(4) by simp
    moreover have "(\<forall>k. put_io E k = 0) \<longrightarrow> pins t = pins s \<and> m_locks t = m_locks s" using R(2) A(2,3) by simp
    ultimately show ?thesis using R(3) same_pages_trans [OF A(1) R(1)] by blast
  qed
qed

subsection \<open>Writing a chain\<close>

lemma pieces_concat: "0 < k \<Longrightarrow> concat (pieces k xs) = xs"
proof (induction k xs rule: pieces.induct)
  case (1 k xs)
  then show ?case by (subst pieces.simps) simp
qed

lemma pieces_sizes: "b \<in> set (pieces k xs) \<Longrightarrow> b \<noteq> [] \<and> length b \<le> k"
proof (induction k xs rule: pieces.induct)
  case (1 k xs)
  from 1(2) show ?case by (subst (asm) pieces.simps) (use 1(1) in \<open>auto split: if_splits\<close>)
qed

text \<open>The page that \<open>__db_poff\<close> has written, without its links.\<close>

lemma unat_u16_of: "n < 65536 \<Longrightarrow> unat (word_of_nat n :: u16) = n"
  by (simp add: unat_of_nat)

lemma log_put_frame:
  assumes "log_put E s = (t, e, l)" "pager_ok E fs s"
  shows "pager_ok E fs t" "in_use fs t = in_use fs s" "pages t = pages s" "m_last t = m_last s"
proof -
  have sp: "same_pages s t" using log_put_spec(1) [OF assms(1)] .
  show "pager_ok E fs t" using same_pages_ok [OF sp] assms(2) by simp
  show "in_use fs t = in_use fs s" "pages t = pages s" "m_last t = m_last s"
    using sp by (simp_all add: same_pages_def in_use_def)
qed

lemma memp_fput_frame:
  assumes "memp_fput E s n = (t, e)"
  shows "pager_ok E fs t = pager_ok E fs s" "in_use fs t = in_use fs s" "pages t = pages s" "m_last t = m_last s"
proof -
  have sp: "same_pages s t" using memp_fput_spec(1) [OF assms(1)] .
  show "pager_ok E fs t = pager_ok E fs s" using same_pages_ok [OF sp] .
  show "in_use fs t = in_use fs s" "pages t = pages s" "m_last t = m_last s"
    using sp by (simp_all add: same_pages_def in_use_def)
qed

lemma upd_in_use:
  assumes "pager_ok E fs s" "n \<in> in_use fs s" "\<And>p. pgno (f p) = pgno p" "length (mem (f (pg_of s n))) = length (mem (pg_of s n))"
  shows "pager_ok E fs (upd_pg s n f) \<and> in_use fs (upd_pg s n f) = in_use fs s"
proof -
  have n: "n \<notin> set fs" "pages s n \<noteq> None" using assms(2) by (auto simp: in_use_def)
  then obtain pg where pg: "pages s n = Some pg" by auto
  then have ok: "pgno pg = n" "length (mem pg) = pgsize (pdb E)" using assms(1) by (auto simp: pager_ok_def)
  have "free_list (upd_pg s n f) (m_free s) fs"
    using assms(1) n(1) by (subst free_list_cong [of fs _ s]) (auto simp: pager_ok_def)
  moreover have "pgno (f pg) = n" "length (mem (f pg)) = pgsize (pdb E)"
    using assms(3,4) ok pg by (auto simp: pg_of_def)
  ultimately have "pager_ok E fs (upd_pg s n f)"
    using assms(1) pg unfolding pager_ok_def by (auto simp: pg_of_def)
  then show ?thesis using pg by (auto simp: in_use_def)
qed

text \<open>The page \<open>n\<close>, new from \<open>__db_new\<close>, after the loop has put a piece on it.\<close>

definition piece_page :: "penv \<Rightarrow> page \<Rightarrow> u32 \<times> u32 \<Rightarrow> byte list \<Rightarrow> page" where
  "piece_page E p l b = p\<lparr>lsn := l, hf_offset := word_of_nat (length b), entries := 1,
     mem := buf_write (P_OVERHEAD (pdb E)) b (mem p)\<rparr>"

definition piece_ok :: "penv \<Rightarrow> byte list \<Rightarrow> bool" where
  "piece_ok E b \<longleftrightarrow> b \<noteq> [] \<and> length b \<le> P_MAXSPACE (pdb E)"

lemma piece_page_ok:
  assumes "new_one E P_OVERFLOW n p" "env_ok E" "piece_ok E b" "q = piece_page E p l b"
  shows "ptype q = P_OVERFLOW" "OV_REF q = 1" "OV_LEN q = length b" "length (mem q) = pgsize (pdb E)"
    "P_OVERHEAD (pdb E) + length b \<le> length (mem q)" "ov_bytes E q 0 (length b) = b" "pgno q = n" "next_pgno q = 0"
proof -
  have m: "length (mem p) = pgsize (pdb E)" "P_OVERHEAD (pdb E) + length b \<le> pgsize (pdb E)"
    "length b < 65536" using assms(1-3) by (auto simp: new_one_def piece_ok_def P_MAXSPACE_def env_ok_def)
  show "ptype q = P_OVERFLOW" "OV_REF q = 1" "OV_LEN q = length b" "pgno q = n" "next_pgno q = 0"
    "length (mem q) = pgsize (pdb E)" "P_OVERHEAD (pdb E) + length b \<le> length (mem q)"
    using assms(1,4) m by (simp_all add: piece_page_def new_one_def OV_REF_def OV_LEN_def unat_u16_of)
  show "ov_bytes E q 0 (length b) = b"
    using m by (simp add: assms(4) piece_page_def ov_bytes_def buf_read_write_same)
qed

definition appended ::
    "penv \<Rightarrow> pager \<Rightarrow> u32 list \<Rightarrow> pager \<Rightarrow> u32 list \<Rightarrow> u32 \<Rightarrow> u32 \<times> u32 \<Rightarrow> u32 \<Rightarrow> (u32 \<times> byte list) list \<Rightarrow> bool" where
  "appended E s fs t fs' q l nx ps \<longleftrightarrow>
     ov_chain E t nx ps \<and> fst ` set ps \<inter> in_use fs s = {}
   \<and> pager_ok E fs' t \<and> in_use fs' t = in_use fs s \<union> fst ` set ps
   \<and> (\<forall>m \<in> in_use fs s - {q}. pages t m = pages s m)
   \<and> pages t q = Some ((pg_of s q)\<lparr>lsn := l, next_pgno := nx\<rparr>)"

definition stream_at :: "stream \<Rightarrow> nat \<Rightarrow> u32 \<Rightarrow> nat \<Rightarrow> (u32 \<times> byte list) list \<Rightarrow> bool" where
  "stream_at c sz q len ps \<longleftrightarrow>
     stream_curr c = (if ps = [] then q else fst (last ps))
   \<and> stream_off c = sz - (if ps = [] then len else length (snd (last ps)))"

lemma put_piece_pages:
  assumes "lastp \<noteq> Some n"
  shows "pages (put_piece E s lastp n l b) = (case lastp of
      None \<Rightarrow> (pages s)(n \<mapsto> piece_page E (pg_of s n) l b)
    | Some q \<Rightarrow> (pages s)(n \<mapsto> (piece_page E (pg_of s n) l b)\<lparr>prev_pgno := q\<rparr>, q \<mapsto> (pg_of s q)\<lparr>lsn := l, next_pgno := n\<rparr>))"
  using assms by (auto simp: put_piece_def piece_page_def pg_of_def fun_upd_twist Let_def split: option.split)

lemma put_piece_frame [simp]:
  "pins (put_piece E s lastp n l b) = pins s" "m_locks (put_piece E s lastp n l b) = m_locks s"
  "m_last (put_piece E s lastp n l b) = m_last s"
  by (simp_all add: put_piece_def Let_def split: option.split)

lemma put_piece_ok:
  assumes "pager_ok E fs s" "n \<in> in_use fs s" "\<forall>q. lastp = Some q \<longrightarrow> q \<noteq> n \<and> q \<in> in_use fs s"
    and "P_OVERHEAD (pdb E) + length b \<le> length (mem (pg_of s n))"
  shows "pager_ok E fs (put_piece E s lastp n l b) \<and> in_use fs (put_piece E s lastp n l b) = in_use fs s"
proof -
  define s3 where "s3 = upd_pg s n (\<lambda>p. p\<lparr>lsn := l\<rparr>)"
  define s4 where "s4 = (case lastp of None \<Rightarrow> s3 | Some q \<Rightarrow> upd_pg s3 q (\<lambda>p. p\<lparr>lsn := l\<rparr>))"
  define f :: "page \<Rightarrow> page" where "f = (\<lambda>p. p\<lparr>hf_offset := word_of_nat (length b), entries := 1,
    mem := buf_write (P_OVERHEAD (pdb E)) b (mem p)\<rparr>)"
  define s5 where "s5 = upd_pg s4 n f"
  have 3: "pager_ok E fs s3 \<and> in_use fs s3 = in_use fs s"
    unfolding s3_def by (rule upd_in_use [OF assms(1,2)]) simp_all
  have 4: "pager_ok E fs s4 \<and> in_use fs s4 = in_use fs s"
    using 3 assms(3) upd_in_use [of E fs s3 _ "\<lambda>p. p\<lparr>lsn := l\<rparr>"] by (auto simp: s4_def split: option.split)
  have "mem (pg_of s4 n) = mem (pg_of s n)"
    using assms(3) by (auto simp: s4_def s3_def pg_of_def split: option.split)
  then have 5: "pager_ok E fs s5 \<and> in_use fs s5 = in_use fs s"
    using upd_in_use [of E fs s4 n f] 4 assms(2,4) by (auto simp: s5_def f_def)
  have "put_piece E s lastp n l b = (case lastp of None \<Rightarrow> s5
      | Some q \<Rightarrow> upd_pg (upd_pg s5 q (\<lambda>p. p\<lparr>next_pgno := n\<rparr>)) n (\<lambda>p. p\<lparr>prev_pgno := q\<rparr>))"
    by (cases lastp) (simp_all add: put_piece_def s3_def s4_def s5_def f_def Let_def)
  moreover have "pager_ok E fs (upd_pg s5 q (\<lambda>p. p\<lparr>next_pgno := n\<rparr>))
      \<and> in_use fs (upd_pg s5 q (\<lambda>p. p\<lparr>next_pgno := n\<rparr>)) = in_use fs s" if "lastp = Some q" for q
    using upd_in_use [of E fs s5 q "\<lambda>p. p\<lparr>next_pgno := n\<rparr>"] 5 assms(3) that by simp
  ultimately show ?thesis
    using 5 assms(2) upd_in_use [of E fs "upd_pg s5 q (\<lambda>p. p\<lparr>next_pgno := n\<rparr>)" n "\<lambda>p. p\<lparr>prev_pgno := q\<rparr>" for q]
    by (auto split: option.split)
qed

text \<open>One turn of the loop: a new page, its log record, its piece.\<close>

lemma poff_turn:
  assumes "db_new E s P_OVERFLOW False = (s1, 0, r1)" "log_put E s1 = (s2, e2, l)" "pager_ok E fs s" "env_ok E"
    and "unat (m_last s) + Suc k < 2 ^ 32" "piece_ok E b" "\<forall>q. lastp = Some q \<longrightarrow> q \<in> in_use fs s"
  obtains n p fs' where "r1 = Some n" "n \<noteq> 0" "n \<notin> in_use fs s" "new_one E P_OVERFLOW n p"
    "pager_ok E fs' s2" "in_use fs' s2 = insert n (in_use fs s)"
    "pager_ok E fs' (put_piece E s2 lastp n l b)" "in_use fs' (put_piece E s2 lastp n l b) = insert n (in_use fs s)"
    "unat (m_last (put_piece E s2 lastp n l b)) + k < 2 ^ 32"
    "pages (put_piece E s2 lastp n l b) = (case lastp of
      None \<Rightarrow> (pages s)(n \<mapsto> piece_page E p l b)
    | Some q \<Rightarrow> (pages s)(n \<mapsto> (piece_page E p l b)\<lparr>prev_pgno := q\<rparr>, q \<mapsto> (pg_of s q)\<lparr>lsn := l, next_pgno := n\<rparr>))"
proof -
  have last: "m_last s + 1 \<noteq> 0" by (rule succ_nonzero) (use assms(5) in simp)
  from db_new_pages [OF assms(1,3,4) last]
  obtain n p where n: "r1 = Some n" "n \<noteq> 0" "n \<notin> in_use fs s" "pages s1 = (pages s)(n \<mapsto> p)"
    "new_one E P_OVERFLOW n p" "pager_ok E (drop 1 fs) s1" "in_use (drop 1 fs) s1 = insert n (in_use fs s)"
    "m_last s1 = (if fs = [] then m_last s + 1 else m_last s)" by blast
  note L = log_put_frame [OF assms(2) n(6)]
  have q: "\<forall>q. lastp = Some q \<longrightarrow> q \<noteq> n \<and> q \<in> in_use (drop 1 fs) s2"
    using assms(7) n(3,7) L(2) by auto
  have pn: "pg_of s2 n = p" using L(3) n(4) by (simp add: pg_of_def)
  have "P_OVERHEAD (pdb E) + length b \<le> length (mem (pg_of s2 n))"
    using n(5) assms(4,6) by (auto simp: pn new_one_def piece_ok_def P_MAXSPACE_def env_ok_def)
  moreover have "n \<in> in_use (drop 1 fs) s2" using L(2) n(7) by simp
  ultimately have ok: "pager_ok E (drop 1 fs) (put_piece E s2 lastp n l b)"
    "in_use (drop 1 fs) (put_piece E s2 lastp n l b) = insert n (in_use fs s)"
    using put_piece_ok [OF L(1) _ q, of b l] L(2) n(7) by simp_all
  have ml: "unat (m_last (put_piece E s2 lastp n l b)) + k < 2 ^ 32"
    using L(4) n(8) assms(5) unat_succ [OF last] by (auto split: if_splits)
  have pgs: "pages (put_piece E s2 lastp n l b) = (case lastp of
      None \<Rightarrow> (pages s)(n \<mapsto> piece_page E p l b)
    | Some q \<Rightarrow> (pages s)(n \<mapsto> (piece_page E p l b)\<lparr>prev_pgno := q\<rparr>, q \<mapsto> (pg_of s q)\<lparr>lsn := l, next_pgno := n\<rparr>))"
  proof -
    have "pg_of s2 q = pg_of s q" if "lastp = Some q" for q using q that L(3) n(4) by (auto simp: pg_of_def)
    moreover have "lastp \<noteq> Some n" using q by auto
    ultimately show ?thesis using L(3) n(4) by (subst put_piece_pages) (auto simp: pn split: option.split)
  qed
  show thesis using that [OF n(1-3,5) L(1) _ ok ml pgs] L(2) n(7) by simp
qed

lemma poff_err_0: "poff_err E u c sz0 lp e first = (t, 0, c', r) \<Longrightarrow> e = 0"
  by (auto simp: poff_err_def keep_def Let_def split: option.splits prod.splits if_splits)

lemma poff_loop_turn:
  assumes "poff_loop E s c sz0 lastp first (b # bs) = (t, 0, c', r)"
  obtains s1 s2 l n where "db_new E s P_OVERFLOW False = (s1, 0, Some n)" "log_put E s1 = (s2, 0, l)"
    "case lastp of
       None \<Rightarrow> poff_loop E (put_piece E s2 None n l b) (c\<lparr>stream_start := n, stream_curr := n, stream_off := 0\<rparr>)
                 sz0 (Some n) n bs = (t, 0, c', r)
     | Some q \<Rightarrow> (\<exists>s8. memp_fput E (put_piece E s2 (Some q) n l b) q = (s8, 0)
                 \<and> poff_loop E s8 c sz0 (Some n) first bs = (t, 0, c', r))"
  | s1 where "db_new E s P_OVERFLOW False = (s1, 0, None)"
proof -
  obtain s1 e1 r1 where 1: "db_new E s P_OVERFLOW False = (s1, e1, r1)" by (cases "db_new E s P_OVERFLOW False") auto
  obtain s2 e2 l where 2: "log_put E s1 = (s2, e2, l)" by (cases "log_put E s1") auto
  note run = assms [unfolded poff_loop.simps(2) 1 prod.case 2]
  have e1: "e1 = 0"
  proof (rule ccontr)
    assume "e1 \<noteq> 0"
    then have "poff_err E s1 c sz0 lastp e1 first = (t, 0, c', r)" using run by (cases r1) simp_all
    from poff_err_0 [OF this] \<open>e1 \<noteq> 0\<close> show False by simp
  qed
  show thesis
  proof (cases r1)
    case (Some n)
    have e2: "e2 = 0"
    proof (rule ccontr)
      assume "e2 \<noteq> 0"
      then have "poff_err E (fst (memp_fput E s2 n)) c sz0 lastp e2 first = (t, 0, c', r)"
        using run e1 unfolding Some option.case by simp
      from poff_err_0 [OF this] \<open>e2 \<noteq> 0\<close> show False by simp
    qed
    show thesis
    proof (cases lastp)
      case None
      then show thesis using that(1) [of s1 n s2 l] 1 2 run e1 e2 Some by simp
    next
      case (Some q)
      obtain s8 e8 where 8: "memp_fput E (put_piece E s2 (Some q) n l b) q = (s8, e8)" by fastforce
      have go: "(if e8 \<noteq> 0 then poff_err E s8 c sz0 None e8 first else poff_loop E s8 c sz0 (Some n) first bs)
          = (t, 0, c', r)"
        using run e1 e2 Some 8 \<open>r1 = Some n\<close> by simp
      have "e8 = 0"
      proof (rule ccontr)
        assume "e8 \<noteq> 0"
        then have "poff_err E s8 c sz0 None e8 first = (t, 0, c', r)" using go by simp
        from poff_err_0 [OF this] \<open>e8 \<noteq> 0\<close> show False by simp
      qed
      then show thesis using that(1) [of s1 n s2 l] 1 2 go 8 e1 e2 Some \<open>r1 = Some n\<close> by simp
    qed
  qed (use that(2) 1 e1 in simp)
qed

lemma piece_chain:
  assumes "new_one E P_OVERFLOW n p" "env_ok E" "piece_ok E b" "n \<noteq> 0" "ov_chain E t nx ps" "n \<notin> fst ` set ps"
    and "pages t n = Some ((piece_page E p l b)\<lparr>prev_pgno := q, lsn := l', next_pgno := nx\<rparr>)
      \<or> pages t n = Some ((piece_page E p l b)\<lparr>lsn := l', next_pgno := nx\<rparr>)"
  shows "ov_chain E t n ((n, b) # ps)"
  using piece_page_ok [OF assms(1-3) refl, of l] assms(3-7)
  by (auto simp: pg_of_def PGNO_INVALID_def OV_REF_def OV_LEN_def ov_bytes_def piece_ok_def)

lemma poff_loop_chain:
  assumes "poff_loop E s c sz0 (Some q) first bs = (t, 0, c', r)" "pager_ok E fs s" "env_ok E"
    and "\<forall>b \<in> set bs. piece_ok E b" "q \<in> in_use fs s" "next_pgno (pg_of s q) = 0"
    and "unat (m_last s) + length bs < 2 ^ 32"
  shows "r = first \<and> stream_start c' = stream_start c \<and>
    (\<exists>ps fs' l nx. map snd ps = bs \<and> appended E s fs t fs' q l nx ps
      \<and> stream_at c' sz0 q (OV_LEN (pg_of s q)) ps)"
  using assms
proof (induction bs arbitrary: s c q fs)
  case Nil
  obtain s1 e1 where 1: "memp_fput E s q = (s1, e1)" by fastforce
  obtain pg where pg: "pages s q = Some pg" using Nil.prems(5) by (auto simp: in_use_def)
  then have n: "pgno pg = q" using Nil.prems(2) by (auto simp: pager_ok_def)
  have t: "t = s1" "c' = c\<lparr>stream_curr := q, stream_off := sz0 - OV_LEN pg\<rparr>" "r = first"
    using Nil.prems(1) pg n by (auto simp: poff_err_def 1 pg_of_def Let_def)
  note F = memp_fput_frame [OF 1]
  have "pages t q = Some ((pg_of s q)\<lparr>lsn := lsn pg, next_pgno := 0\<rparr>)"
    using F(3) t(1) pg Nil.prems(6) by (cases pg) (simp add: pg_of_def)
  then have "appended E s fs t fs q (lsn pg) 0 []"
    using F t(1) Nil.prems(2) unfolding appended_def by (simp add: PGNO_INVALID_def)
  moreover have "stream_at c' sz0 q (OV_LEN (pg_of s q)) []" using t(2) pg by (simp add: stream_at_def pg_of_def)
  moreover have "map snd ([] :: (u32 \<times> byte list) list) = []" "stream_start c' = stream_start c" using t(2) by simp_all
  ultimately show ?case using t(3) by blast
next
  case (Cons b bs)
  have pb: "piece_ok E b" "unat (m_last s) + Suc (length bs) < 2 ^ 32" using Cons.prems(4,7) by simp_all
  from Cons.prems(1) show ?case
  proof (cases rule: poff_loop_turn)
    case (1 s1 s2 l n0)
    obtain n p gs where T: "n0 = n" "n \<noteq> 0" "n \<notin> in_use fs s" "new_one E P_OVERFLOW n p"
      "pager_ok E gs (put_piece E s2 (Some q) n l b)" "in_use gs (put_piece E s2 (Some q) n l b) = insert n (in_use fs s)"
      "unat (m_last (put_piece E s2 (Some q) n l b)) + length bs < 2 ^ 32"
      "pages (put_piece E s2 (Some q) n l b)
        = (pages s)(n \<mapsto> (piece_page E p l b)\<lparr>prev_pgno := q\<rparr>, q \<mapsto> (pg_of s q)\<lparr>lsn := l, next_pgno := n\<rparr>)"
    proof (rule poff_turn [OF 1(1,2) Cons.prems(2,3) pb(2,1), of "Some q"], goal_cases)
      case 1
      then show ?case using Cons.prems(5) by simp
    next
      case (2 n p gs)
      then show ?case by (intro that [of n p gs]) simp_all
    qed
    from 1(3) T(1) obtain s8 where 8: "memp_fput E (put_piece E s2 (Some q) n l b) q = (s8, 0)"
      and run: "poff_loop E s8 c sz0 (Some n) first bs = (t, 0, c', r)" by auto
    note F = memp_fput_frame [OF 8]
    define pn where "pn = (piece_page E p l b)\<lparr>prev_pgno := q\<rparr>"
    have qn: "q \<noteq> n" using T(3) Cons.prems(5) by auto
    note PO = piece_page_ok [OF T(4) Cons.prems(3) pb(1) refl, of l]
    have P8: "pages s8 = (pages s)(n \<mapsto> pn, q \<mapsto> (pg_of s q)\<lparr>lsn := l, next_pgno := n\<rparr>)"
      using F(3) T(8) by (simp add: pn_def)
    then have g8: "pg_of s8 n = pn" using qn by (simp add: pg_of_def)
    have IHp: "pager_ok E gs s8" "\<forall>b \<in> set bs. piece_ok E b" "n \<in> in_use gs s8" "next_pgno (pg_of s8 n) = 0"
      "unat (m_last s8) + length bs < 2 ^ 32" "in_use gs s8 = insert n (in_use fs s)"
      using F T(5-7) Cons.prems(4) PO(8) g8 by (simp_all add: pn_def)
    from Cons.IH [OF run IHp(1) Cons.prems(3) IHp(2-5)] obtain ps fs' l' nx where
      J: "r = first" "stream_start c' = stream_start c" "map snd ps = bs" "appended E s8 gs t fs' n l' nx ps"
        "stream_at c' sz0 n (OV_LEN pn) ps"
      unfolding g8 by blast
    have I: "ov_chain E t nx ps" "fst ` set ps \<inter> insert n (in_use fs s) = {}" "pager_ok E fs' t"
      "in_use fs' t = insert n (in_use fs s) \<union> fst ` set ps" "\<forall>m \<in> insert n (in_use fs s) - {n}. pages t m = pages s8 m"
      "pages t n = Some (pn\<lparr>lsn := l', next_pgno := nx\<rparr>)"
      using J(4) unfolding appended_def IHp(6) g8 by blast+
    have "ov_chain E t n ((n, b) # ps)"
      using piece_chain [OF T(4) Cons.prems(3) pb(1) T(2) I(1), where l = l and q = q and l' = l'] I(2,6)
      by (simp add: pn_def)
    then have "appended E s fs t fs' q l n ((n, b) # ps)"
      using I(2-5) T(3) P8 Cons.prems(5) qn unfolding appended_def by auto
    moreover have "stream_at c' sz0 q (OV_LEN (pg_of s q)) ((n, b) # ps)"
      using J(5) PO(3) by (auto simp: stream_at_def pn_def OV_LEN_def)
    moreover have "map snd ((n, b) # ps) = b # bs" using J(3) by simp
    ultimately show ?thesis using J(1,2)
      by (intro conjI exI [of _ "(n, b) # ps"] exI [of _ fs'] exI [of _ l] exI [of _ n])
  next
    case (2 s1)
    have "m_last s + 1 \<noteq> 0" by (rule succ_nonzero) (use pb(2) in simp)
    from db_new_pages [OF 2 Cons.prems(2,3) this] show ?thesis by simp
  qed
qed

text \<open>A whole item.\<close>

lemma length_le_concat: "\<forall>x \<in> set xs. x \<noteq> [] \<Longrightarrow> length xs \<le> length (concat xs)"
proof (induction xs)
  case (Cons a xs)
  then have "0 < length a" "length xs \<le> length (concat xs)" by simp_all
  then show ?case unfolding concat.simps length_append list.size(4) by linarith
qed simp

lemma stream_at_last:
  assumes "stream_at c sz n (length b) ps" "chain_bytes ((n, b) # ps) = v" "sz = length v" "stream_start c = n"
  shows "stream_ok c n ((n, b) # ps)"
proof -
  define qs where "qs = butlast ((n, b) # ps)"
  define z where "z = last ((n, b) # ps)"
  have sp: "(n, b) # ps = qs @ [z]" by (simp add: qs_def z_def)
  have z: "stream_curr c = fst z" "stream_off c = sz - length (snd z)"
    using assms(1) by (auto simp: stream_at_def z_def)
  have "sz = length (chain_bytes qs) + length (snd z)"
    unfolding assms(3) assms(2) [symmetric] sp by (cases z) simp
  then have "stream_off c = length (chain_bytes qs)" using z(2) by simp
  then show ?thesis unfolding stream_ok_def sp using z(1) by (intro impI exI [of _ qs] exI [of _ "[z]"]) simp
qed

lemma db_poff_chain:
  assumes "db_poff E s c d False first = (t, 0, c', r)" "pager_ok E fs s" "env_ok E"
    and "dt_size d = length (dt_data d)" "dt_data d \<noteq> []"
    and "unat (m_last s) + length (dt_data d) < 2 ^ 32"
  shows "\<exists>ps fs'. ps \<noteq> [] \<and> chain_bytes ps = dt_data d \<and> ov_chain E t r ps \<and> fst ` set ps \<inter> in_use fs s = {}
    \<and> pager_ok E fs' t \<and> in_use fs' t = in_use fs s \<union> fst ` set ps
    \<and> (\<forall>m \<in> in_use fs s. pages t m = pages s m) \<and> stream_ok c' r ps \<and> stream_start c' = r"
proof -
  let ?k = "P_MAXSPACE (pdb E)"
  have k: "0 < ?k" using assms(3) by (simp add: env_ok_def P_MAXSPACE_def)
  obtain b bs where bs: "pieces ?k (dt_data d) = b # bs" using k assms(5) pieces.simps [of ?k "dt_data d"] by simp
  have all: "\<forall>x \<in> set (b # bs). piece_ok E x"
    using pieces_sizes [of _ ?k "dt_data d"] unfolding bs [symmetric] piece_ok_def by blast
  then have pb: "piece_ok E b" by simp
  have cat: "concat (b # bs) = dt_data d" using pieces_concat [OF k, of "dt_data d"] bs by simp
  have "length (b # bs) \<le> length (concat (b # bs))"
    using all unfolding piece_ok_def by (intro length_le_concat) blast
  then have ml: "unat (m_last s) + Suc (length bs) < 2 ^ 32" using assms(6) unfolding cat by simp
  have go: "poff_loop E s c (dt_size d) None first (b # bs) = (t, 0, c', r)"
    using assms(1,4) by (simp add: db_poff_def Let_def bs)
  from go show ?thesis
  proof (cases rule: poff_loop_turn)
    case (1 s1 s2 l n0)
    obtain n p gs where T: "n0 = n" "n \<noteq> 0" "n \<notin> in_use fs s" "new_one E P_OVERFLOW n p"
      "pager_ok E gs (put_piece E s2 None n l b)" "in_use gs (put_piece E s2 None n l b) = insert n (in_use fs s)"
      "unat (m_last (put_piece E s2 None n l b)) + length bs < 2 ^ 32"
      "pages (put_piece E s2 None n l b) = (pages s)(n \<mapsto> piece_page E p l b)"
    proof (rule poff_turn [OF 1(1,2) assms(2,3) ml pb, of None], goal_cases)
      case (2 n p gs)
      then show ?case by (intro that [of n p gs]) simp_all
    qed simp
    let ?s = "put_piece E s2 None n l b" and ?c = "c\<lparr>stream_start := n, stream_curr := n, stream_off := 0\<rparr>"
    have run: "poff_loop E ?s ?c (dt_size d) (Some n) n bs = (t, 0, c', r)" using 1(3) T(1) by simp
    note PO = piece_page_ok [OF T(4) assms(3) pb refl, of l]
    have g: "pg_of ?s n = piece_page E p l b" using T(8) by (simp add: pg_of_def)
    have IHp: "\<forall>b \<in> set bs. piece_ok E b" "n \<in> in_use gs ?s" "next_pgno (pg_of ?s n) = 0"
      using all T(6) PO(8) g by simp_all
    from poff_loop_chain [OF run T(5) assms(3) IHp T(7)] obtain ps fs' l' nx where
      J: "r = n" "stream_start c' = n" "map snd ps = bs" "appended E ?s gs t fs' n l' nx ps"
        "stream_at c' (dt_size d) n (length b) ps"
      unfolding g PO(3) by auto
    have I: "ov_chain E t nx ps" "fst ` set ps \<inter> insert n (in_use fs s) = {}" "pager_ok E fs' t"
      "in_use fs' t = insert n (in_use fs s) \<union> fst ` set ps" "\<forall>m \<in> insert n (in_use fs s) - {n}. pages t m = pages ?s m"
      "pages t n = Some ((piece_page E p l b)\<lparr>lsn := l', next_pgno := nx\<rparr>)"
      using J(4) unfolding appended_def T(6) g by blast+
    have ch: "ov_chain E t n ((n, b) # ps)"
      using piece_chain [OF T(4) assms(3) pb T(2) I(1), where l = l and l' = l'] I(2,6) by simp
    have cb: "chain_bytes ((n, b) # ps) = dt_data d" using cat J(3) by (simp add: chain_bytes_def)
    have "\<forall>m \<in> in_use fs s. pages t m = pages s m" using I(5) T(3,8) by auto
    then show ?thesis
      using ch cb stream_at_last [OF J(5) cb assms(4) J(2)] I(2-4) T(3) J(1,2)
      by (intro exI [of _ "(n, b) # ps"] exI [of _ fs']) auto
  next
    case (2 s1)
    have "m_last s + 1 \<noteq> 0" by (rule succ_nonzero) (use ml in simp)
    from db_new_pages [OF 2 assms(2,3) this] show ?thesis by simp
  qed
qed

text \<open>Whatever fails, the pages and the lock are given back.\<close>

definition released :: "u32 option \<Rightarrow> pager \<Rightarrow> pager \<Rightarrow> bool" where
  "released q s t \<longleftrightarrow> m_locks t = m_locks s
     \<and> pins t = (case q of None \<Rightarrow> pins s | Some n \<Rightarrow> (pins s)(n := pins s n - 1))"

lemma poff_err_pins:
  assumes "poff_err E s c sz0 lastp e first = (t, x, c', r)" "\<And>k. put_io E k = 0"
  shows "released lastp s t"
proof (cases lastp)
  case (Some n)
  obtain s1 e1 where 1: "memp_fput E s n = (s1, e1)" by fastforce
  then have "t = s1" using assms(1) Some by (auto simp: poff_err_def)
  then show ?thesis using memp_fput_spec(2-4) [OF 1] assms(2) Some by (simp add: released_def)
qed (use assms in \<open>simp add: poff_err_def released_def\<close>)

lemma poff_loop_pins:
  assumes "poff_loop E s c sz0 lastp first bs = (t, e, c', r)" "pager_ok E fs s" "env_ok E"
    and "\<forall>b \<in> set bs. piece_ok E b" "\<forall>q. lastp = Some q \<longrightarrow> q \<in> in_use fs s"
    and "unat (m_last s) + length bs < 2 ^ 32" and p: "\<And>k. put_io E k = 0"
  shows "released lastp s t"
  using assms(1-6)
proof (induction bs arbitrary: s c lastp first fs)
  case Nil
  then show ?case using poff_err_pins [OF _ p] by simp
next
  case (Cons b bs)
  obtain s1 e1 r1 where 1: "db_new E s P_OVERFLOW False = (s1, e1, r1)" by (cases "db_new E s P_OVERFLOW False") auto
  obtain s2 e2 l where 2: "log_put E s1 = (s2, e2, l)" by (cases "log_put E s1") auto
  note N = db_new_pins [OF 1 Cons.prems(2) p] and L = log_put_spec(2,3) [OF 2]
  note run = Cons.prems(1) [unfolded poff_loop.simps(2) 1 prod.case 2]
  show ?case
  proof (cases r1)
    case None
    then have "poff_err E s1 c sz0 lastp e1 first = (t, e, c', r)" using run by simp
    from poff_err_pins [OF this p] show ?thesis using N None by (simp add: released_def split: option.splits)
  next
    case (Some n)
    then have e1: "e1 = 0" and i1: "m_locks s1 = m_locks s" "pins s1 = (pins s)(n := pins s n + 1)" using N by auto
    have pb: "piece_ok E b" "unat (m_last s) + Suc (length bs) < 2 ^ 32" using Cons.prems(4,6) by simp_all
    obtain gs where T: "n \<notin> in_use fs s" "pager_ok E gs (put_piece E s2 lastp n l b)"
      "in_use gs (put_piece E s2 lastp n l b) = insert n (in_use fs s)"
      "unat (m_last (put_piece E s2 lastp n l b)) + length bs < 2 ^ 32"
    proof (rule poff_turn [OF 1 [unfolded e1] 2 Cons.prems(2,3) pb(2,1) Cons.prems(5)], goal_cases)
      case (1 n' p gs)
      then show ?case using Some that [of gs] by simp
    qed
    have qn: "lastp \<noteq> Some n" using T(1) Cons.prems(5) by auto
    have all: "\<forall>b \<in> set bs. piece_ok E b" using Cons.prems(4) by simp
    show ?thesis
    proof (cases "e2 = 0")
      case False
      obtain u x where u: "memp_fput E s2 n = (u, x)" by fastforce
      have "poff_err E u c sz0 lastp e2 first = (t, e, c', r)" using run Some e1 False u by simp
      from poff_err_pins [OF this p] show ?thesis
        using memp_fput_spec(2-4) [OF u] p L i1 qn by (auto simp: released_def split: option.splits)
    next
      case e2: True
      show ?thesis
      proof (cases lastp)
        case None
        let ?s = "put_piece E s2 None n l b"
        have go: "poff_loop E ?s (c\<lparr>stream_start := n, stream_curr := n, stream_off := 0\<rparr>) sz0 (Some n) n bs = (t, e, c', r)"
          using run Some e1 e2 None by simp
        have "released (Some n) ?s t"
          using Cons.IH [OF go _ Cons.prems(3) all] T None by simp
        then show ?thesis using L i1 None by (simp add: released_def)
      next
        case (Some q)
        let ?s = "put_piece E s2 (Some q) n l b"
        obtain s8 e8 where 8: "memp_fput E ?s q = (s8, e8)" by fastforce
        note F = memp_fput_frame [OF 8] and P = memp_fput_spec(2-4) [OF 8]
        have go: "poff_loop E s8 c sz0 (Some n) first bs = (t, e, c', r)"
          using run \<open>r1 = Some n\<close> e1 e2 Some 8 P(3) p by simp
        have "released (Some n) s8 t"
          using Cons.IH [OF go _ Cons.prems(3) all, of gs] T Some F by simp
        then show ?thesis using L i1 P p Some qn by (auto simp: released_def)
      qed
    qed
  qed
qed

lemma poff_loop_calm:
  assumes "poff_loop E s c sz0 lastp first bs = (t, e, c', r)" "pager_ok E fs s" "env_ok E"
    and "\<forall>b \<in> set bs. piece_ok E b" "\<forall>q. lastp = Some q \<longrightarrow> q \<in> in_use fs s"
    and "unat (m_last s) + length bs < 2 ^ 32" and p: "\<And>k. put_io E k = 0" "\<And>k. io E k = 0"
  shows "e = 0"
  using assms(1-6)
proof (induction bs arbitrary: s c lastp first fs)
  case Nil
  then show ?case using p(1) by (auto simp: poff_err_def keep_def memp_fput_def Let_def split: option.splits)
next
  case (Cons b bs)
  obtain s1 e1 r1 where 1: "db_new E s P_OVERFLOW False = (s1, e1, r1)" by (cases "db_new E s P_OVERFLOW False") auto
  obtain s2 e2 l where 2: "log_put E s1 = (s2, e2, l)" by (cases "log_put E s1") auto
  have e1: "e1 = 0" using db_new_calm [OF 1 Cons.prems(2) p] .
  have e2: "e2 = 0" using log_put_spec(5) [OF 2] p(2) by simp
  have pb: "piece_ok E b" "unat (m_last s) + Suc (length bs) < 2 ^ 32" using Cons.prems(4,6) by simp_all
  obtain n gs where T: "r1 = Some n" "pager_ok E gs (put_piece E s2 lastp n l b)"
    "in_use gs (put_piece E s2 lastp n l b) = insert n (in_use fs s)"
    "unat (m_last (put_piece E s2 lastp n l b)) + length bs < 2 ^ 32"
    by (rule poff_turn [OF 1 [unfolded e1] 2 Cons.prems(2,3) pb(2,1) Cons.prems(5)])
  note run = Cons.prems(1) [unfolded poff_loop.simps(2) 1 T(1) prod.case option.case 2]
  have all: "\<forall>b \<in> set bs. piece_ok E b" using Cons.prems(4) by simp
  show ?case
  proof (cases lastp)
    case None
    have "poff_loop E (put_piece E s2 None n l b) (c\<lparr>stream_start := n, stream_curr := n, stream_off := 0\<rparr>) sz0 (Some n) n bs
        = (t, e, c', r)"
      using run e1 e2 None by simp
    from Cons.IH [OF this _ Cons.prems(3) all, of gs] show ?thesis using T None by simp
  next
    case (Some q)
    obtain s8 e8 where 8: "memp_fput E (put_piece E s2 (Some q) n l b) q = (s8, e8)" by fastforce
    note F = memp_fput_frame [OF 8]
    have "poff_loop E s8 c sz0 (Some n) first bs = (t, e, c', r)"
      using run e1 e2 Some 8 memp_fput_spec(4) [OF 8] p(1) by simp
    from Cons.IH [OF this _ Cons.prems(3) all, of gs] show ?thesis using T Some F by simp
  qed
qed

text \<open>The pieces of an item are such that the loop can put them on pages.\<close>

lemma poff_pieces:
  assumes "env_ok E" "unat (m_last s) + length v < 2 ^ 32"
  shows "\<forall>b \<in> set (pieces (P_MAXSPACE (pdb E)) v). piece_ok E b"
    "unat (m_last s) + length (pieces (P_MAXSPACE (pdb E)) v) < 2 ^ 32"
proof -
  let ?k = "P_MAXSPACE (pdb E)"
  have k: "0 < ?k" using assms(1) by (simp add: env_ok_def P_MAXSPACE_def)
  show all: "\<forall>b \<in> set (pieces ?k v). piece_ok E b" using pieces_sizes unfolding piece_ok_def by blast
  have "length (pieces ?k v) \<le> length (concat (pieces ?k v))"
    using all unfolding piece_ok_def by (intro length_le_concat) blast
  then show "unat (m_last s) + length (pieces ?k v) < 2 ^ 32" using assms(2) unfolding pieces_concat [OF k] by simp
qed

lemma db_poff_pins:
  assumes "db_poff E s c d False first = (t, e, c', r)" "pager_ok E fs s" "env_ok E" "dt_size d = length (dt_data d)"
    and "unat (m_last s) + length (dt_data d) < 2 ^ 32" "\<And>k. put_io E k = 0"
  shows "released None s t" "(\<And>k. io E k = 0) \<Longrightarrow> e = 0"
proof -
  have go: "poff_loop E s c (dt_size d) None first (pieces (P_MAXSPACE (pdb E)) (dt_data d)) = (t, e, c', r)"
    using assms(1,4) by (simp add: db_poff_def Let_def)
  note P = poff_pieces [OF assms(3,5)]
  show "released None s t" using poff_loop_pins [OF go assms(2,3) P(1) _ P(2) assms(6)] by simp
  show "(\<And>k. io E k = 0) \<Longrightarrow> e = 0" using poff_loop_calm [OF go assms(2,3) P(1) _ P(2) assms(6)] by simp
qed

subsection \<open>Freeing a chain\<close>

lemma same_pages_frame:
  assumes "same_pages s t"
  shows "pages t = pages s" "in_use fs t = in_use fs s" "pager_ok E fs t = pager_ok E fs s"
  using assms same_pages_ok [OF assms] by (auto simp: same_pages_def in_use_def)

lemma doff_chain:
  assumes "ov_chain E s n ps" "ps \<noteq> []" "pager_ok E fs s" "fst ` set ps \<subseteq> in_use fs s"
  shows "\<exists>t e. db_doff E s n = Some (t, e)
    \<and> ((\<forall>k. put_io E k = 0) \<longrightarrow> pins t = pins s \<and> m_locks t = m_locks s)
    \<and> ((\<forall>k. put_io E k = 0) \<longrightarrow> (\<forall>k. io E k = 0) \<longrightarrow> e = 0)
    \<and> (e = 0 \<longrightarrow> pager_ok E (rev (map fst ps) @ fs) t
         \<and> in_use (rev (map fst ps) @ fs) t = in_use fs s - fst ` set ps
         \<and> (\<forall>m. m \<notin> fst ` set ps \<longrightarrow> pages t m = pages s m))"
  using assms
proof (induction ps arbitrary: s n fs)
  case (Cons pb ps)
  obtain p b where pb: "pb = (p, b)" by (cases pb)
  have ch: "n = p" "p \<noteq> PGNO_INVALID" "pages s p \<noteq> None" "OV_REF (pg_of s p) = 1" "p \<notin> fst ` set ps"
    "ov_chain E s (next_pgno (pg_of s p)) ps"
    using Cons.prems(1) pb by auto
  have pu: "n \<in> in_use fs s" using Cons.prems(4) pb ch(1) by simp
  obtain s1 e1 where 1: "memp_fget E s n = (s1, e1)" by fastforce
  note G = memp_fget_spec [OF 1]
  obtain s2 e2 g2 where 2: "memp_dirty E s1 n = (s2, e2, g2)" by (cases "memp_dirty E s1 n") auto
  note D = memp_dirty_spec [OF 2]
  obtain s3 e3 l where 3: "log_put E s2 = (s3, e3, l)" by (cases "log_put E s2") auto
  note L = log_put_spec [OF 3]
  define s4 where "s4 = upd_pg s3 n (\<lambda>p. p\<lparr>lsn := l\<rparr>)"
  define s5 where "s5 = upd_pg s4 n (\<lambda>p. p\<lparr>hf_offset := 0\<rparr>)"
  obtain s6 e6 where 6: "db_free E s5 n = (s6, e6)" by fastforce
  obtain u2 x2 where u2: "memp_fput E s2 n = (u2, x2)" by fastforce
  obtain u3 x3 where u3: "memp_fput E s3 n = (u3, x3)" by fastforce
  have sp: "same_pages s s1" "same_pages s s2" "same_pages s s3"
    using G(1) D(1) L(1) by (auto simp: same_pages_def)
  have h: "pg_of s1 n = pg_of s p" using sp(1) ch(1) by (simp add: same_pages_def pg_of_def)
  have run: "db_doff E s n =
    (if e1 \<noteq> 0 then Some (s1, e1)
     else if e2 \<noteq> 0 then Some (if g2 then s2 else u2, e2)
     else if e3 \<noteq> 0 then Some (u3, e3)
     else if e6 \<noteq> 0 then Some (s6, e6)
     else if next_pgno (pg_of s4 n) \<noteq> PGNO_INVALID then db_doff E s6 (next_pgno (pg_of s4 n)) else Some (s6, 0))"
    unfolding db_doff.simps [of E s n] 1 prod.case h 2 3 s4_def [symmetric] Let_def s5_def [symmetric] 6
    using ch(4) by (simp add: u2 u3)
  have nx: "next_pgno (pg_of s4 n) = next_pgno (pg_of s p)"
    using sp(3) ch(1) by (simp add: s4_def same_pages_def pg_of_def)
  consider (get) "e1 \<noteq> 0" | (dirty) "e1 = 0" "e2 \<noteq> 0" | (log) "e1 = 0" "e2 = 0" "e3 \<noteq> 0"
    | (free) "e1 = 0" "e2 = 0" "e3 = 0" "e6 \<noteq> 0" | (go) "e1 = 0" "e2 = 0" "e3 = 0" "e6 = 0" by blast
  then show ?case
  proof cases
    case get
    have "(\<forall>k. io E k = 0) \<longrightarrow> e1 = 0" using G(7) ch(1,3) by simp
    then show ?thesis using run G(2,3) get by simp
  next
    case dirty
    have "(\<forall>k. put_io E k = 0) \<longrightarrow> pins (if g2 then s2 else u2) = pins s \<and> m_locks (if g2 then s2 else u2) = m_locks s"
      using G(2,3) D(2,3) memp_fput_spec(2-4) [OF u2] dirty(1) by (cases g2) auto
    moreover have "(\<forall>k. io E k = 0) \<longrightarrow> e2 = 0" using D(6) by simp
    ultimately show ?thesis using run dirty by simp
  next
    case log
    have "(\<forall>k. put_io E k = 0) \<longrightarrow> pins u3 = pins s \<and> m_locks u3 = m_locks s"
      using G(2,3) D(2-4) L(2,3) memp_fput_spec(2-4) [OF u3] log by auto
    moreover have "(\<forall>k. io E k = 0) \<longrightarrow> e3 = 0" using L(5) by simp
    ultimately show ?thesis using run log by simp
  next
    case free
    have "(\<forall>k. put_io E k = 0) \<longrightarrow> pins s6 = pins s \<and> m_locks s6 = m_locks s"
      using G(2,3) D(2-4) L(2,3) db_free_pins [OF 6] free by (auto simp: s5_def s4_def)
    moreover have "(\<forall>k. put_io E k = 0) \<longrightarrow> (\<forall>k. io E k = 0) \<longrightarrow> e6 = 0" using db_free_calm [OF 6] by blast
    ultimately show ?thesis using run free by simp
  next
    case go
    have pins6: "(\<forall>k. put_io E k = 0) \<longrightarrow> pins s6 = pins s \<and> m_locks s6 = m_locks s"
      using G(2,3) D(2-4) L(2,3) db_free_pins [OF 6] go by (auto simp: s5_def s4_def)
    have ok3: "pager_ok E fs s3" "n \<in> in_use fs s3"
      using same_pages_frame(2,3) [OF sp(3)] Cons.prems(3) pu by simp_all
    have ok4: "pager_ok E fs s4" "in_use fs s4 = in_use fs s3"
      using upd_in_use [OF ok3, of "\<lambda>p. p\<lparr>lsn := l\<rparr>"] by (simp_all add: s4_def)
    have ok5: "pager_ok E fs s5" "in_use fs s5 = in_use fs s3"
      using upd_in_use [of E fs s4 n "\<lambda>p. p\<lparr>hf_offset := 0\<rparr>"] ok4 ok3(2) by (simp_all add: s5_def)
    have "n \<in> in_use fs s5" using ok5(2) ok3(2) by simp
    from db_free_pages [OF 6 [unfolded go(4)] ok5(1) this]
    have F: "pager_ok E (n # fs) s6" "in_use (n # fs) s6 = in_use fs s - {n}" "\<forall>m. m \<noteq> n \<longrightarrow> pages s6 m = pages s5 m"
      using ok5(2) same_pages_frame(2) [OF sp(3)] by simp_all
    have pg6: "pages s6 m = pages s m" if "m \<noteq> n" for m
      using F(3) that same_pages_frame(1) [OF sp(3)] by (simp add: s5_def s4_def)
    have ch6: "ov_chain E s6 (next_pgno (pg_of s p)) ps"
    proof -
      have "pages s6 q = pages s q" if "q \<in> fst ` set ps" for q using pg6 that ch(1,5) by metis
      then show ?thesis using ch(6) ov_chain_cong [of ps s6 s] by metis
    qed
    show ?thesis
    proof (cases ps)
      case Nil
      then have "next_pgno (pg_of s p) = PGNO_INVALID" using ch(6) by simp
      then have "db_doff E s n = Some (s6, 0)" using run go nx by simp
      then show ?thesis using F pins6 pg6 Nil pb ch(1) by auto
    next
      case (Cons z zs)
      then have "next_pgno (pg_of s p) \<noteq> PGNO_INVALID" using ch(6) by (cases z) auto
      then have run: "db_doff E s n = db_doff E s6 (next_pgno (pg_of s p))" using run go nx by simp
      have sub: "fst ` set ps \<subseteq> in_use (n # fs) s6" using F(2) Cons.prems(4) ch(1,5) pb by auto
      have "ps \<noteq> []" using Cons by simp
      from Cons.IH [OF ch6 this F(1) sub] obtain t e where
        t: "db_doff E s6 (next_pgno (pg_of s p)) = Some (t, e)"
        and p: "(\<forall>k. put_io E k = 0) \<longrightarrow> pins t = pins s6 \<and> m_locks t = m_locks s6"
        and c: "(\<forall>k. put_io E k = 0) \<longrightarrow> (\<forall>k. io E k = 0) \<longrightarrow> e = 0"
        and r: "e = 0 \<longrightarrow> pager_ok E (rev (map fst ps) @ n # fs) t
          \<and> in_use (rev (map fst ps) @ n # fs) t = in_use (n # fs) s6 - fst ` set ps
          \<and> (\<forall>m. m \<notin> fst ` set ps \<longrightarrow> pages t m = pages s6 m)"
        by blast
      have "rev (map fst (pb # ps)) @ fs = rev (map fst ps) @ n # fs" using pb ch(1) by simp
      moreover have "in_use fs s - fst ` set (pb # ps) = in_use (n # fs) s6 - fst ` set ps" using F(2) pb ch(1) by auto
      moreover have "\<forall>m. m \<notin> fst ` set (pb # ps) \<longrightarrow> pages t m = pages s m" if "e = 0"
        using r that pg6 pb ch(1) by auto
      ultimately show ?thesis using run t p c r pins6 by (intro exI [of _ t] exI [of _ e]) (simp del: rev.simps list.map)
    qed
  qed
qed simp

subsection \<open>Comparing with a chain\<close>

lemma cmp_run_spec:
  assumes "length xs = length ys" "cmp_run xs ys = (c, k)"
  shows "if c = 0 then xs = ys \<and> k = length xs
    else (\<forall>a b. lex3 (xs @ a) (ys @ b) = sgn c \<and> lcp (xs @ a) (ys @ b) = k)"
  using assms
proof (induction xs ys arbitrary: c k rule: list_induct2)
  case (Cons x xs y ys)
  show ?case
  proof (cases "x = y")
    case True
    obtain c' k' where ck: "cmp_run xs ys = (c', k')" by fastforce
    then show ?thesis using Cons.IH [OF ck] Cons.prems True by auto
  next
    case False
    then have c: "c = int (unat x) - int (unat y)" "k = 0" using Cons.prems by auto
    have "x < y \<longleftrightarrow> uint x < uint y" by (rule word_less_alt)
    moreover have "uint x \<noteq> uint y"
    proof
      assume "uint x = uint y"
      then have "x = y" by (rule unsigned_word_eqI)
      with False show False by simp
    qed
    ultimately show ?thesis using False c by (auto simp: sgn_if)
  qed
qed simp

lemma lex3_same_prefix: "lex3 (xs @ a) (xs @ b) = lex3 a b" "lcp (xs @ a) (xs @ b) = length xs + lcp a b"
  by (induction xs) auto

lemma moff_loop_chain:
  assumes "ov_chain E s n ps" "tlen = length (drop (start - pos) (chain_bytes ps))"
  shows "\<exists>t e c loc'. moff_loop E s key tlen pos start n loc = Some (t, e, c, loc') \<and> same_pages s t
    \<and> ((\<forall>k. put_io E k = 0) \<longrightarrow> pins t = pins s \<and> m_locks t = m_locks s)
    \<and> ((\<forall>k. put_io E k = 0) \<longrightarrow> (\<forall>k. io E k = 0) \<longrightarrow> e = 0)
    \<and> (e = 0 \<longrightarrow> sgn c = lex3 key (drop (start - pos) (chain_bytes ps))
         \<and> loc' = map_option (\<lambda>l. l + lcp key (drop (start - pos) (chain_bytes ps))) loc)"
  using assms
proof (induction ps arbitrary: s n key tlen pos loc)
  case Nil
  then show ?case by (subst moff_loop.simps) (cases key; cases loc; simp)
next
  case (Cons pb ps)
  obtain p b where pb: "pb = (p, b)" by (cases pb)
  have ch: "n = p" "p \<noteq> PGNO_INVALID" "pages s p \<noteq> None" "OV_LEN (pg_of s p) = length b"
    "ov_bytes E (pg_of s p) 0 (length b) = b" "ov_chain E s (next_pgno (pg_of s p)) ps"
    using Cons.prems(1) pb by auto
  have n0: "n \<noteq> PGNO_INVALID" using ch(1,2) by simp
  define v where "v = drop (start - pos) (chain_bytes (pb # ps))"
  have tl: "tlen = length v" using Cons.prems(2) by (simp add: v_def)
  show ?case
  proof (cases "key = [] \<or> tlen = 0")
    case True
    then have "moff_loop E s key tlen pos start n loc
        = Some (s, 0, if key \<noteq> [] then 1 else if tlen > 0 then - 1 else 0, loc)"
    proof -
      have ift: "(key = [] \<or> tlen = 0 \<or> n = PGNO_INVALID) = True" using True by blast
      show ?thesis unfolding moff_loop.simps [of E s key] ift if_True ..
    qed
    moreover have "sgn (if key \<noteq> [] then 1 else if tlen > 0 then - 1 else 0) = lex3 key v" "lcp key v = 0"
      using True tl by (cases key; cases v; simp)+
    ultimately show ?thesis by (cases loc) (auto simp: v_def)
  next
    case False
    obtain s1 e1 where 1: "memp_fget E s n = (s1, e1)" by fastforce
    note G = memp_fget_spec [OF 1]
    show ?thesis
    proof (cases "e1 = 0")
      case e1: False
      have "moff_loop E s key tlen pos start n loc = Some (s1, e1, 0, loc)"
        using False n0 e1 by (subst moff_loop.simps) (simp add: 1)
      moreover have "\<exists>k. io E k \<noteq> 0" using G(7) ch(1,3) e1 by blast
      ultimately show ?thesis using e1 G(1-3) by auto
    next
      case True
      then have 1: "memp_fget E s n = (s1, 0)" using 1 by simp
      have h: "pg_of s1 n = pg_of s p" using G(1) ch(1) by (simp add: same_pages_def pg_of_def)
      define off where "off = (if pos \<ge> start then 0 else if pos + length b > start then start - pos else 0)"
      define len0 where "len0 = length b - (start - pos)"
      define len where "len = (if len0 > length key then length key else len0)"
      have sel: "(if pos \<ge> start then (0, length b) else if pos + length b > start
          then (start - pos, length b - (start - pos)) else (0, 0)) = (off, len0)"
        by (auto simp: off_def len0_def)
      have part: "ov_bytes E (pg_of s p) off len = take len (drop (start - pos) b)"
        by (cases "len = 0") (simp_all add: ov_bytes_def buf_read_def,
            subst ov_bytes_part [OF ch(5), unfolded ov_bytes_def buf_read_def], auto simp: off_def len_def len0_def)
      obtain c k where ck: "cmp_run (take len key) (take len (drop (start - pos) b)) = (c, k)" by fastforce
      obtain s2 e2 where 2: "memp_fput E s1 n = (s2, e2)" by fastforce
      note pg = put_after_get [OF 1 2 same_pages_refl refl refl]
      have e2: "(\<forall>k. put_io E k = 0) \<longrightarrow> e2 = 0" using memp_fput_spec(4) [OF 2] by simp
      define loc1 where "loc1 = map_option (\<lambda>l. l + k) loc"
      have run: "moff_loop E s key tlen pos start n loc =
        (if e2 \<noteq> 0 then Some (s2, e2, c, loc1) else if c \<noteq> 0 then Some (s2, 0, c, loc1)
         else moff_loop E s2 (drop len key) (tlen - len) (pos + length b) start (next_pgno (pg_of s p)) loc1)"
      proof -
        have ifd: "(key = [] \<or> tlen = 0 \<or> n = PGNO_INVALID) = False" using False n0 by simp
        show ?thesis
          unfolding moff_loop.simps [of E s key] ifd if_False 1 prod.case h ch(4) Let_def sel len_def [symmetric]
            part ck loc1_def [symmetric] 2 by simp
      qed
      have v: "v = drop (start - pos) b @ drop (start - (pos + length b)) (chain_bytes ps)"
        by (simp add: v_def pb)
      have len_eq: "length (take len key) = length (take len (drop (start - pos) b))"
        by (auto simp: len_def len0_def)
      have split: "key = take len key @ drop len key"
        "v = take len (drop (start - pos) b) @ drop len (drop (start - pos) b) @ drop (start - (pos + length b)) (chain_bytes ps)"
        unfolding v append_assoc [symmetric] append_take_drop_id by simp_all
      note C = cmp_run_spec [OF len_eq ck]
      show ?thesis
      proof (cases "e2 \<noteq> 0 \<or> c \<noteq> 0")
        case True
        then have r: "moff_loop E s key tlen pos start n loc = Some (s2, e2, c, loc1)" using run by simp
        have "sgn c = lex3 key v \<and> lcp key v = k" if "e2 = 0"
          using C True that split by (metis (no_types))
        then show ?thesis using r pg e2 by (auto simp: loc1_def v_def)
      next
        case False
        then have r: "moff_loop E s key tlen pos start n loc =
            moff_loop E s2 (drop len key) (tlen - len) (pos + length b) start (next_pgno (pg_of s p)) loc1" using run by simp
        have same: "take len key = take len (drop (start - pos) b)" "k = length (take len key)"
          using C False by (metis (full_types))+
        let ?w = "drop (start - (pos + length b)) (chain_bytes ps)"
        have ch2: "ov_chain E s2 (next_pgno (pg_of s p)) ps"
          using ch(6) pg(1) ov_chain_cong [of ps s s2] by (simp add: same_pages_def)
        show ?thesis
        proof (cases "len = length key \<and> len < len0")
          case True
          then have "key \<noteq> [] \<longrightarrow> True" and dk: "drop len key = []" by simp_all
          have pos: "tlen - len > 0" using True tl by (simp add: v len0_def)
          have "moff_loop E s2 (drop len key) (tlen - len) (pos + length b) start (next_pgno (pg_of s p)) loc1
              = Some (s2, 0, - 1, loc1)"
            using pos unfolding dk by (subst moff_loop.simps) simp
          moreover have "lex3 key v = - 1 \<and> lcp key v = k"
          proof -
            have kk: "key = take len (drop (start - pos) b)" using same(1) True by simp
            have "len < length (drop (start - pos) b)" using True by (simp add: len0_def)
            then have ne: "drop len (drop (start - pos) b) \<noteq> []" by (metis drop_eq_Nil2 not_le)
            have "lex3 key v = lex3 (key @ []) (key @ drop len (drop (start - pos) b) @ ?w)"
              "lcp key v = lcp (key @ []) (key @ drop len (drop (start - pos) b) @ ?w)"
              using split(2) kk by simp_all
            then show ?thesis unfolding lex3_same_prefix using ne same(2) True
              by (cases "drop len (drop (start - pos) b)") auto
          qed
          ultimately show ?thesis using r pg by (auto simp: loc1_def v_def)
        next
          case nt: False
          then have ll: "len = len0" by (auto simp: len_def)
          then have db: "drop len (drop (start - pos) b) = []" by (simp add: len0_def)
          have vw: "v = take len key @ ?w" using split(2) db same(1) by simp
          have "len \<le> length key" by (simp add: len_def)
          then have kl: "length (take len key) = len" by simp
          have "tlen - len = length ?w" using tl vw kl by simp
          from Cons.IH [OF ch2 this, of "drop len key" loc1] obtain t e c2 loc' where
            t: "moff_loop E s2 (drop len key) (tlen - len) (pos + length b) start (next_pgno (pg_of s p)) loc1
              = Some (t, e, c2, loc')" "same_pages s2 t"
            and p: "(\<forall>k. put_io E k = 0) \<longrightarrow> pins t = pins s2 \<and> m_locks t = m_locks s2"
            and io: "(\<forall>k. put_io E k = 0) \<longrightarrow> (\<forall>k. io E k = 0) \<longrightarrow> e = 0"
            and res: "e = 0 \<longrightarrow> sgn c2 = lex3 (drop len key) ?w
              \<and> loc' = map_option (\<lambda>l. l + lcp (drop len key) ?w) loc1"
            by blast
          have "lex3 key v = lex3 (drop len key) ?w" "lcp key v = k + lcp (drop len key) ?w"
            using lex3_same_prefix [of "take len key" "drop len key" ?w] vw same(2) by simp_all
          then show ?thesis using r t p io res pg same_pages_trans [OF pg(1) t(2)]
            by (cases loc) (auto simp: loc1_def v_def)
        qed
      qed
    qed
  qed
qed

lemma db_moff_chain:
  assumes "ov_chain E s n ps" "tlen = length (chain_bytes ps)" "start = (case loc of None \<Rightarrow> 0 | Some l \<Rightarrow> l)"
    and "start \<le> lcp key (chain_bytes ps)"
  shows "\<exists>t e c loc'. db_moff E s cur key n tlen None loc = Some (t, e, c, loc', cur) \<and> same_pages s t
    \<and> ((\<forall>k. put_io E k = 0) \<longrightarrow> pins t = pins s \<and> m_locks t = m_locks s)
    \<and> ((\<forall>k. put_io E k = 0) \<longrightarrow> (\<forall>k. io E k = 0) \<longrightarrow> e = 0)
    \<and> (e = 0 \<longrightarrow> sgn c = lex3 key (chain_bytes ps) \<and> loc' = map_option (\<lambda>_. lcp key (chain_bytes ps)) loc)"
proof -
  have "tlen - start = length (drop (start - 0) (chain_bytes ps))" using assms(2) by simp
  from moff_loop_chain [OF assms(1) this, of "drop start key" loc, unfolded diff_zero] obtain t e c loc' where
    t: "moff_loop E s (drop start key) (tlen - start) 0 start n loc = Some (t, e, c, loc')" "same_pages s t"
    and p: "(\<forall>k. put_io E k = 0) \<longrightarrow> pins t = pins s \<and> m_locks t = m_locks s"
    and io: "(\<forall>k. put_io E k = 0) \<longrightarrow> (\<forall>k. io E k = 0) \<longrightarrow> e = 0"
    and res: "e = 0 \<longrightarrow> sgn c = lex3 (drop start key) (drop start (chain_bytes ps))
      \<and> loc' = map_option (\<lambda>l. l + lcp (drop start key) (drop start (chain_bytes ps))) loc"
    by blast
  have "db_moff E s cur key n tlen None loc = Some (t, e, c, loc', cur)"
    using t(1) assms(3) by (simp add: db_moff_def Let_def)
  moreover have "map_option (\<lambda>l. l + lcp (drop start key) (drop start (chain_bytes ps))) loc
      = map_option (\<lambda>_. lcp key (chain_bytes ps)) loc"
    using lcp_drop(1) [OF assms(4)] assms(3) by (cases loc) simp_all
  ultimately show ?thesis using t(2) p io res lcp_drop(2) [OF assms(4)] by auto
qed

section \<open>Properties\<close>

text \<open>C17: an item of any size written by \<open>__db_poff\<close> is read back by \<open>__db_goff\<close>, whole or any part
  of it, into any kind of memory, from a cursor that has just written it or from a fresh one; the
  read returns, and it returns the bytes unless one of its calls fails or the user's memory is too
  small.  The pages of other items are untouched.\<close>

theorem overflow_round_trip:
  assumes "db_poff E s c d False first = (t, 0, c', n)" "pager_ok E fs s" "env_ok E"
    and "dt_size d = length (dt_data d)" "dt_data d \<noteq> []" "unat (m_last s) + length (dt_data d) < 2 ^ 32"
    and "goff_room d2 (length (dt_data d)) buf" "alloc_needed d2 (length (dt_data d)) = (needed, start)"
    and "cur = c' \<or> stream_start cur \<noteq> n"
  shows "(\<forall>m \<in> in_use fs s. pages t m = pages s m)
    \<and> (\<exists>u e d' buf' cur'. db_goff E t cur d2 (length (dt_data d)) n buf = Some (u, e, d', buf', cur')
      \<and> ((\<forall>k. io E k = 0) \<longrightarrow> (dt_mode d2 = USERMEM \<longrightarrow> needed \<le> dt_ulen d2) \<longrightarrow> e = 0)
      \<and> (e = 0 \<longrightarrow> dt_size d' = needed \<and> take needed (dt_data d') = take needed (drop start (dt_data d))))"
proof -
  from db_poff_chain [OF assms(1-6)] obtain ps where
    ps: "ps \<noteq> []" "chain_bytes ps = dt_data d" "ov_chain E t n ps" "stream_ok c' n ps"
    "\<forall>m \<in> in_use fs s. pages t m = pages s m" by blast
  have st: "stream_ok cur n ps" using assms(9) ps(4) by (auto simp: stream_ok_def)
  show ?thesis
    using goff_chain [OF ps(3,1) _ st assms(7,8)] ps(2,5) by auto
qed

definition two_bytes :: dbt where
  "two_bytes = \<lparr>dt_data = [65, 66], dt_size = 2, dt_ulen = 0, dt_dlen = 0, dt_doff = 0, dt_partial = False,
     dt_mode = MALLOC\<rparr>"

definition no_stream :: stream where "no_stream = \<lparr>stream_start = 0, stream_curr = 0, stream_off = 0\<rparr>"

lemma two_bytes_written:
  obtains t c' n where "db_poff calm fresh_file no_stream two_bytes False 0 = (t, 0, c', n)"
proof -
  obtain t e c' n where 1: "db_poff calm fresh_file no_stream two_bytes False 0 = (t, e, c', n)"
    by (cases "db_poff calm fresh_file no_stream two_bytes False 0") auto
  have "e = 0"
    using db_poff_pins(2) [OF 1 fresh_file_ok(1) calm_ok(1) _ _ calm_ok(2,3)] by (simp add: two_bytes_def fresh_file_def)
  then show thesis using 1 that by simp
qed

theorem overflow_round_trip_witness:
  "\<exists>t c' n u d' buf' cur'. db_poff calm fresh_file no_stream two_bytes False 0 = (t, 0, c', n)
    \<and> db_goff calm t c' two_bytes 2 n None = Some (u, 0, d', buf', cur') \<and> take 2 (dt_data d') = [65, 66]"
proof -
  obtain t c' n where w: "db_poff calm fresh_file no_stream two_bytes False 0 = (t, 0, c', n)" by (rule two_bytes_written)
  have "\<exists>u e d' buf' cur'. db_goff calm t c' two_bytes (length (dt_data two_bytes)) n None = Some (u, e, d', buf', cur')
      \<and> ((\<forall>k. io calm k = 0) \<longrightarrow> (dt_mode two_bytes = USERMEM \<longrightarrow> 2 \<le> dt_ulen two_bytes) \<longrightarrow> e = 0)
      \<and> (e = 0 \<longrightarrow> dt_size d' = 2 \<and> take 2 (dt_data d') = take 2 (drop 0 (dt_data two_bytes)))"
    using overflow_round_trip [OF w fresh_file_ok(1) calm_ok(1), of two_bytes None 2 0 c']
    by (auto simp: two_bytes_def fresh_file_def goff_room_def alloc_needed_def)
  then show ?thesis using w calm_ok(3) by (simp add: two_bytes_def numeral_2_eq_2) blast
qed

text \<open>C38: \<open>__db_poff\<close> gives back every page it pinned and the lock of the metadata page,
  whichever of its calls that read, allocate or log fails, as long as no page or lock fails to be given back (the
  library panics then); and if no call fails, it succeeds.\<close>

theorem overflow_write_balanced:
  assumes "db_poff E s c d False first = (t, e, c', n)" "pager_ok E fs s" "env_ok E" "dt_size d = length (dt_data d)"
    and "unat (m_last s) + length (dt_data d) < 2 ^ 32" "\<forall>k. put_io E k = 0"
  shows "pins t = pins s \<and> m_locks t = m_locks s \<and> ((\<forall>k. io E k = 0) \<longrightarrow> e = 0)"
  using db_poff_pins [OF assms(1-5)] assms(6) by (simp add: released_def)

text \<open>The third call of this environment fails: the log record of the first page.\<close>

definition failing :: penv where "failing = calm\<lparr>io := (\<lambda>k. if k = 2 then 5 else 0)\<rparr>"

theorem overflow_write_balanced_witness:
  "\<exists>t e c' n. db_poff failing fresh_file no_stream two_bytes False 0 = (t, e, c', n) \<and> pins t = (\<lambda>_. 0) \<and> m_locks t = 0"
proof -
  obtain t e c' n where w: "db_poff failing fresh_file no_stream two_bytes False 0 = (t, e, c', n)"
    by (cases "db_poff failing fresh_file no_stream two_bytes False 0") auto
  have "pager_ok failing [] fresh_file" by (auto simp: pager_ok_def fresh_file_def PGNO_INVALID_def)
  moreover have "env_ok failing" using calm_ok(1) by (simp add: env_ok_def failing_def)
  ultimately have "pins t = pins fresh_file \<and> m_locks t = m_locks fresh_file"
    using overflow_write_balanced [OF w] calm_ok(2) by (simp add: two_bytes_def fresh_file_def failing_def)
  then show ?thesis using w by (simp add: fresh_file_def)
qed

text \<open>C39: \<open>__db_doff\<close> returns, and frees exactly the pages of the item's chain: they go to the
  free list, the last page first, and every other page is untouched.\<close>

theorem overflow_free_returns_pages:
  assumes "ov_chain E s n ps" "ps \<noteq> []" "pager_ok E fs s" "fst ` set ps \<subseteq> in_use fs s" "\<forall>k. put_io E k = 0"
  shows "\<exists>t e. db_doff E s n = Some (t, e) \<and> pins t = pins s \<and> m_locks t = m_locks s
    \<and> ((\<forall>k. io E k = 0) \<longrightarrow> e = 0)
    \<and> (e = 0 \<longrightarrow> pager_ok E (rev (map fst ps) @ fs) t
         \<and> in_use (rev (map fst ps) @ fs) t = in_use fs s - fst ` set ps
         \<and> (\<forall>m. m \<notin> fst ` set ps \<longrightarrow> pages t m = pages s m))"
  using doff_chain [OF assms(1-4)] assms(5) by blast

theorem overflow_free_returns_pages_witness:
  "\<exists>t c' n u. db_poff calm fresh_file no_stream two_bytes False 0 = (t, 0, c', n)
    \<and> db_doff calm t n = Some (u, 0) \<and> (\<exists>fs. pager_ok calm fs u \<and> in_use fs u = {})"
proof -
  obtain t c' n where w: "db_poff calm fresh_file no_stream two_bytes False 0 = (t, 0, c', n)" by (rule two_bytes_written)
  have "dt_size two_bytes = length (dt_data two_bytes)" "dt_data two_bytes \<noteq> []"
    "unat (m_last fresh_file) + length (dt_data two_bytes) < 2 ^ 32"
    by (simp_all add: two_bytes_def fresh_file_def)
  from db_poff_chain [OF w fresh_file_ok(1) calm_ok(1) this] fresh_file_ok(2)
  obtain ps fs where ps: "ps \<noteq> []" "ov_chain calm t n ps" "pager_ok calm fs t" "in_use fs t = fst ` set ps" by auto
  have "fst ` set ps \<subseteq> in_use fs t" using ps(4) by simp
  from overflow_free_returns_pages [OF ps(2,1,3) this] calm_ok(2,3) ps(4)
  obtain u where "db_doff calm t n = Some (u, 0)" "pager_ok calm (rev (map fst ps) @ fs) u"
    "in_use (rev (map fst ps) @ fs) u = {}" by auto
  then show ?thesis using w by blast
qed

text \<open>Comparing a key with a big item from a common prefix on gives the sign of the
  comparison of the whole strings, and the length of their whole common prefix.\<close>

theorem overflow_compare_is_lexicographic:
  assumes "ov_chain E s n ps" "l \<le> lcp key (chain_bytes ps)" "\<forall>k. put_io E k = 0"
  shows "\<exists>t e c loc'. db_moff E s cur key n (length (chain_bytes ps)) None (Some l) = Some (t, e, c, loc', cur)
    \<and> pages t = pages s \<and> pins t = pins s \<and> ((\<forall>k. io E k = 0) \<longrightarrow> e = 0)
    \<and> (e = 0 \<longrightarrow> sgn c = lex3 key (chain_bytes ps) \<and> loc' = Some (lcp key (chain_bytes ps)))"
  using db_moff_chain [OF assms(1) refl, of l "Some l" key cur] assms(2,3) by (auto simp: same_pages_def)

theorem overflow_compare_is_lexicographic_witness:
  "\<exists>t c' n u c. db_poff calm fresh_file no_stream two_bytes False 0 = (t, 0, c', n)
    \<and> db_moff calm t c' [65, 67] n 2 None (Some 1) = Some (u, 0, c, Some 1, c') \<and> sgn c = 1"
proof -
  obtain t c' n where w: "db_poff calm fresh_file no_stream two_bytes False 0 = (t, 0, c', n)" by (rule two_bytes_written)
  have "dt_size two_bytes = length (dt_data two_bytes)" "dt_data two_bytes \<noteq> []"
    "unat (m_last fresh_file) + length (dt_data two_bytes) < 2 ^ 32"
    by (simp_all add: two_bytes_def fresh_file_def)
  from db_poff_chain [OF w fresh_file_ok(1) calm_ok(1) this]
  obtain ps where ps: "ov_chain calm t n ps" "chain_bytes ps = [65, 66]" by (auto simp: two_bytes_def)
  have l: "1 \<le> lcp [65, 67] (chain_bytes ps)" by (simp add: ps(2))
  from overflow_compare_is_lexicographic [OF ps(1) l, of c'] calm_ok(2,3)
  obtain u c where "db_moff calm t c' [65, 67] n (length (chain_bytes ps)) None (Some 1) = Some (u, 0, c, Some 1, c')"
    "sgn c = 1" by (auto simp: ps(2))
  then show ?thesis using w by (auto simp: ps(2) numeral_2_eq_2)
qed

end
