(* ===== verification/Bt_Compare.thy ===== *)
theory Bt_Compare
  imports Db_Overflow
begin

text \<open>
  Comparing keys in a btree: the default comparison \<open>__dbt_defcmp\<close> of \<open>src/db/src/common/dbt.c\<close>, and
  \<open>__bam_cmp\<close> and \<open>__bam_defpfx\<close> of \<open>src/db/src/btree/bt_compare.c\<close>, over the items of a page as
  \<open>dbinc/db_page.h\<close> lays them out.  A comparison starts at an offset up to which the two keys are
  known to be equal, and reports the length of their common prefix.
\<close>

section \<open>The code\<close>

text \<open>The index of the first difference of two byte strings, from an index on.\<close>

function first_diff :: "byte list \<Rightarrow> byte list \<Rightarrow> nat \<Rightarrow> nat \<Rightarrow> nat option" where
  "first_diff a b len i =
     (if i < len then if a ! i \<noteq> b ! i then Some i else first_diff a b len (Suc i) else None)"
  by pat_completeness auto
termination by (relation "measure (\<lambda>(a, b, len, i). len - i)") auto

declare first_diff.simps [simp del]

definition dbt_defcmp :: "byte list \<Rightarrow> byte list \<Rightarrow> nat option \<Rightarrow> int \<times> nat option" where
  "dbt_defcmp a b locp =
     (let start = (case locp of None \<Rightarrow> 0 | Some l \<Rightarrow> l);
          len = (if length a > length b then length b else length a)
      in case first_diff a b len start of
           Some i \<Rightarrow> (if a ! i < b ! i then - 1 else 1, map_option (\<lambda>_. i) locp)
         | None \<Rightarrow> (if length a = length b then 0 else if length a < length b then - 1 else 1,
                   map_option (\<lambda>_. len) locp))"

definition bam_defpfx :: "byte list \<Rightarrow> byte list \<Rightarrow> nat" where
  "bam_defpfx a b =
     (let len = (if length a > length b then length b else length a)
      in case first_diff a b len 0 of
           Some i \<Rightarrow> i + 1
         | None \<Rightarrow> if length a < length b then length a + 1
                   else if length b < length a then length b + 1 else length b)"

subsection \<open>The items of btree pages\<close>

definition P_IBTREE :: byte where "P_IBTREE = 3"
definition P_LBTREE :: byte where "P_LBTREE = 5"
definition P_LRECNO :: byte where "P_LRECNO = 6"
definition P_LDUP :: byte where "P_LDUP = 12"
definition B_OVERFLOW :: byte where "B_OVERFLOW = 3"
definition B_BLOB :: byte where "B_BLOB = 4"
definition B_TYPE :: "byte \<Rightarrow> byte" where "B_TYPE t = and t 0x7f"
definition B_DISSET :: "byte \<Rightarrow> bool" where "B_DISSET t \<longleftrightarrow> and t 0x80 \<noteq> 0"

definition u32_at :: "byte list \<Rightarrow> nat \<Rightarrow> u32" where
  "u32_at m p = word_of_nat (le_dec (buf_read p 4 m))"

text \<open>\<open>BKEYDATA\<close>, \<open>BOVERFLOW\<close> and \<open>BINTERNAL\<close> at an offset of the page.\<close>

definition bk_len :: "byte list \<Rightarrow> nat \<Rightarrow> nat" where "bk_len m p = le_dec (buf_read p 2 m)"
definition bk_type :: "byte list \<Rightarrow> nat \<Rightarrow> byte" where "bk_type m p = m ! (p + 2)"
definition bk_data :: "byte list \<Rightarrow> nat \<Rightarrow> byte list" where "bk_data m p = buf_read (p + 3) (bk_len m p) m"
definition bo_pgno :: "byte list \<Rightarrow> nat \<Rightarrow> u32" where "bo_pgno m p = u32_at m (p + 4)"
definition bo_tlen :: "byte list \<Rightarrow> nat \<Rightarrow> nat" where "bo_tlen m p = unat (u32_at m (p + 8))"
definition bi_pgno :: "byte list \<Rightarrow> nat \<Rightarrow> u32" where "bi_pgno m p = u32_at m (p + 4)"
definition bi_data :: "byte list \<Rightarrow> nat \<Rightarrow> byte list" where "bi_data m p = buf_read (p + 12) (bk_len m p) m"

text \<open>
  A btree handle.  \<open>bt_cmp\<close> is the user's comparison, \<open>None\<close> for the default one; \<open>blob\<close> reads the blob
  of an identifier up to a size, or is the code with which that fails.
\<close>

record btree_h =
  bt_env :: penv
  bt_cmp :: "(byte list \<Rightarrow> byte list \<Rightarrow> int) option"
  dup_cmp :: "(byte list \<Rightarrow> byte list \<Rightarrow> int) option"
  blob :: "nat \<Rightarrow> nat \<Rightarrow> int + byte list"

definition call_cmp ::
    "(byte list \<Rightarrow> byte list \<Rightarrow> int) option \<Rightarrow> byte list \<Rightarrow> byte list \<Rightarrow> nat \<Rightarrow> int \<times> nat" where
  "call_cmp f a b loc =
     (case f of None \<Rightarrow> (case dbt_defcmp a b (Some loc) of (r, l) \<Rightarrow> (r, the l)) | Some g \<Rightarrow> (g a b, loc))"

text \<open>The comparison with a blob, whose size is an \<open>off_t\<close>.\<close>

definition cmp_blob ::
    "btree_h \<Rightarrow> pager \<Rightarrow> byte list \<Rightarrow> byte list \<Rightarrow> nat \<Rightarrow> (byte list \<Rightarrow> byte list \<Rightarrow> int) option \<Rightarrow> nat
      \<Rightarrow> pager \<times> int \<times> int \<times> nat" where
  "cmp_blob B s key m p f loc =
     (let id = le_dec (buf_read (p + 48) 8 m);
          sz = sint (word_of_nat (le_dec (buf_read (p + 56) 8 m)) :: 64 word);
          size = (if sz > 4294967295 then 4294967295 else uint (word_of_int sz :: u32));
          e = io (bt_env B) (tick s)
      in if e \<noteq> 0 then (tock s, e, 0, loc)
         else case blob B id (nat size) of
           Inl ret \<Rightarrow> (tock s, ret, 0, loc)
         | Inr b \<Rightarrow> (case call_cmp f key b loc of
              (r, l) \<Rightarrow> (tock s, 0, if r = 0 \<and> sz > 4294967295 then - 1 else r, l)))"

definition cmp_overflow ::
    "btree_h \<Rightarrow> pager \<Rightarrow> stream \<Rightarrow> byte list \<Rightarrow> byte list \<Rightarrow> nat \<Rightarrow> (byte list \<Rightarrow> byte list \<Rightarrow> int) option \<Rightarrow> nat
      \<Rightarrow> (pager \<times> stream \<times> int \<times> int \<times> nat) option" where
  "cmp_overflow B s c key m p f loc =
     (case db_moff (bt_env B) s c key (bo_pgno m p) (bo_tlen m p) f (Some loc) of
        None \<Rightarrow> None
      | Some (s1, e, r, l, c1) \<Rightarrow> Some (s1, c1, e, r, the l))"

text \<open>Result: the code, the sign and the length of the common prefix.\<close>

definition bam_cmp ::
    "btree_h \<Rightarrow> pager \<Rightarrow> stream \<Rightarrow> byte list \<Rightarrow> page \<Rightarrow> nat \<Rightarrow> (byte list \<Rightarrow> byte list \<Rightarrow> int) option \<Rightarrow> nat
      \<Rightarrow> (pager \<times> stream \<times> int \<times> int \<times> nat) option" where
  "bam_cmp B s c key h indx f loc =
     (let m = mem h; p = inp (pdb (bt_env B)) m indx; ty = ptype h in
      if ty = P_LBTREE \<or> ty = P_LDUP \<or> ty = P_LRECNO then
        (if B_TYPE (bk_type m p) = B_OVERFLOW then cmp_overflow B s c key m p f loc
         else if B_TYPE (bk_type m p) = B_BLOB then
           (case cmp_blob B s key m p f loc of (s1, e, r, l) \<Rightarrow> Some (s1, c, e, r, l))
         else (case call_cmp f key (bk_data m p) loc of (r, l) \<Rightarrow> Some (s, c, 0, r, l)))
      else if ty = P_IBTREE then
        (if indx = 0 then Some (s, c, 0, 1, loc)
         else if B_TYPE (bk_type m p) = B_OVERFLOW then cmp_overflow B s c key m (p + 12) f loc
         else (case call_cmp f key (bi_data m p) loc of (r, l) \<Rightarrow> Some (s, c, 0, r, l)))
      else Some (s, c, DB_RUNRECOVERY, 0, loc))"

section \<open>The default comparison\<close>

lemma first_diff_SomeD:
  "first_diff a b len i = Some j \<Longrightarrow> i \<le> j \<and> j < len \<and> a ! j \<noteq> b ! j \<and> (\<forall>k. i \<le> k \<longrightarrow> k < j \<longrightarrow> a ! k = b ! k)"
proof (induction a b len i rule: first_diff.induct)
  case (1 a b len i)
  show ?case
  proof (cases "i < len \<and> a ! i = b ! i")
    case True
    then have "first_diff a b len (Suc i) = Some j" using 1(2) by (subst (asm) first_diff.simps) simp
    from 1(1) [OF _ _ this] True have d: "Suc i \<le> j \<and> j < len \<and> a ! j \<noteq> b ! j
        \<and> (\<forall>k. Suc i \<le> k \<longrightarrow> k < j \<longrightarrow> a ! k = b ! k)" by blast
    have "a ! k = b ! k" if "i \<le> k" "k < j" for k
      using d True that by (cases "k = i") auto
    then show ?thesis using d by auto
  next
    case False
    then show ?thesis using 1(2) by (subst (asm) first_diff.simps) (auto split: if_splits)
  qed
qed

lemma first_diff_NoneD:
  "first_diff a b len i = None \<Longrightarrow> i \<le> k \<Longrightarrow> k < len \<Longrightarrow> a ! k = b ! k"
proof (induction a b len i rule: first_diff.induct)
  case (1 a b len i)
  have i: "i < len" using 1(3,4) by simp
  have n: "a ! i = b ! i" "first_diff a b len (Suc i) = None"
    using 1(2) i by (subst (asm) first_diff.simps; auto split: if_splits)+
  then show ?case using 1(1) [OF i _ n(2)] 1(3,4) by (cases "k = i") auto
qed

lemma lcp_nth: "k < lcp xs ys \<Longrightarrow> xs ! k = ys ! k"
proof (induction xs ys arbitrary: k rule: lcp.induct)
  case (1 x xs y ys)
  then show ?case by (cases k) (auto split: if_splits)
qed auto

lemma lcp_eqI:
  assumes "j \<le> length xs" "j \<le> length ys" "\<And>k. k < j \<Longrightarrow> xs ! k = ys ! k"
    and "j = length xs \<or> j = length ys \<or> xs ! j \<noteq> ys ! j"
  shows "lcp xs ys = j"
  using assms
proof (induction xs ys arbitrary: j rule: lcp.induct)
  case (1 x xs y ys)
  show ?case
  proof (cases j)
    case 0
    then show ?thesis using 1(5) by auto
  next
    case (Suc i)
    have "x = y" using 1(4) [of 0] Suc by simp
    moreover have "xs ! k = ys ! k" if "k < i" for k using 1(4) [of "Suc k"] Suc that by simp
    ultimately show ?thesis using 1(1) [of i] 1(2,3,5) Suc by auto
  qed
qed auto

lemma lex3_at_lcp:
  "lex3 xs ys = (if lcp xs ys < length xs \<and> lcp xs ys < length ys
     then (if xs ! lcp xs ys < ys ! lcp xs ys then - 1 else 1)
     else if length xs = length ys then 0 else if length xs < length ys then - 1 else 1)"
  by (induction xs ys rule: lex3.induct) auto

lemma first_diff_lcp:
  assumes "i \<le> lcp a b" "len = min (length a) (length b)"
  shows "first_diff a b len i = (if lcp a b < len then Some (lcp a b) else None)"
proof (cases "first_diff a b len i")
  case None
  have "a ! k = b ! k" if "k < len" for k
    using first_diff_NoneD [OF None, of k] lcp_nth [of k a b] assms(1) that by (cases "k < i") auto
  then have "lcp a b = len" using assms(2) by (intro lcp_eqI) auto
  then show ?thesis using None by simp
next
  case (Some j)
  note d = first_diff_SomeD [OF Some]
  have "a ! k = b ! k" if "k < j" for k
    using d lcp_nth [of k a b] assms(1) that by (cases "k < i") auto
  then have "lcp a b = j" using assms(2) d by (intro lcp_eqI) auto
  then show ?thesis using Some d by simp
qed

lemma dbt_defcmp_spec:
  assumes "(case locp of None \<Rightarrow> 0 | Some l \<Rightarrow> l) \<le> lcp a b"
  shows "dbt_defcmp a b locp = (lex3 a b, map_option (\<lambda>_. lcp a b) locp)"
proof -
  have l: "(if length a > length b then length b else length a) = min (length a) (length b)" by simp
  have le: "lcp a b \<le> min (length a) (length b)" using lcp_le [of a b] by simp
  show ?thesis
    unfolding dbt_defcmp_def Let_def l first_diff_lcp [OF assms refl]
    using le by (auto simp: lex3_at_lcp)
qed

lemma call_cmp_default: "loc \<le> lcp a b \<Longrightarrow> call_cmp None a b loc = (lex3 a b, lcp a b)"
  by (simp add: call_cmp_def dbt_defcmp_spec)

section \<open>The prefix that separates two keys\<close>

lemma bam_defpfx_lcp:
  assumes "lex3 a b < 0"
  shows "bam_defpfx a b = lcp a b + 1" "lcp a b < length b"
proof -
  have l: "(if length a > length b then length b else length a) = min (length a) (length b)" by simp
  have le: "lcp a b \<le> length a" "lcp a b \<le> length b" using lcp_le by auto
  show "bam_defpfx a b = lcp a b + 1" "lcp a b < length b"
    unfolding bam_defpfx_def Let_def l first_diff_lcp [OF le0 refl] using assms le
    by (auto simp: lex3_at_lcp split: if_splits)
qed

lemma lex3_take_le: "lex3 (take n b) b \<le> 0"
  by (induction b arbitrary: n) (auto simp: take_Cons split: nat.split)

lemma lcp_take: "lcp a (take n b) = min n (lcp a b)"
proof (induction a b arbitrary: n rule: lcp.induct)
  case (1 x xs y ys)
  then show ?case by (cases n) auto
qed (auto simp: min_def)

lemma lex3_take_lcp:
  fixes a b :: "byte list"
  assumes "lex3 a b < 0"
  shows "lex3 a (take n b) < 0 \<longleftrightarrow> lcp a b < n"
proof -
  note L = bam_defpfx_lcp [OF assms] lcp_le [of a b]
  show ?thesis
  proof (cases "lcp a b < n")
    case True
    then have e: "lcp a (take n b) = lcp a b" by (simp add: lcp_take)
    have "lex3 a (take n b) < 0"
      unfolding lex3_at_lcp [of a "take n b"] e using assms L True
      by (auto simp: lex3_at_lcp [of a b] split: if_splits)
    then show ?thesis using True by simp
  next
    case False
    then have "lcp a (take n b) = n" "length (take n b) = n" "n \<le> length a" using L by (auto simp: lcp_take)
    then show ?thesis using False by (simp add: lex3_at_lcp)
  qed
qed

section \<open>The comparison with an item\<close>

text \<open>The key of an item: its bytes, or those of its overflow chain.\<close>

definition overflow_key :: "penv \<Rightarrow> pager \<Rightarrow> byte list \<Rightarrow> nat \<Rightarrow> byte list \<Rightarrow> bool" where
  "overflow_key E s m p k \<longleftrightarrow>
     (\<exists>ps. ov_chain E s (bo_pgno m p) ps \<and> chain_bytes ps = k \<and> bo_tlen m p = length k)"

definition key_at :: "penv \<Rightarrow> pager \<Rightarrow> page \<Rightarrow> nat \<Rightarrow> byte list \<Rightarrow> bool" where
  "key_at E s h i k \<longleftrightarrow>
     (let m = mem h; p = inp (pdb E) m i in
      if B_TYPE (bk_type m p) = B_OVERFLOW then overflow_key E s m (if ptype h = P_IBTREE then p + 12 else p) k
      else if ptype h = P_IBTREE then bi_data m p = k
      else B_TYPE (bk_type m p) \<noteq> B_BLOB \<and> bk_data m p = k)"

lemma overflow_key_same: "same_pages s t \<Longrightarrow> overflow_key E t m p k = overflow_key E s m p k"
  by (simp add: overflow_key_def same_pages_def ov_chain_cong [of _ t s])

lemma key_at_same: "same_pages s t \<Longrightarrow> key_at E t h i k = key_at E s h i k"
  by (simp add: key_at_def Let_def overflow_key_same)

text \<open>What a call leaves alone and when it works.\<close>

definition quiet :: "penv \<Rightarrow> pager \<Rightarrow> pager \<Rightarrow> bool" where
  "quiet E s t \<longleftrightarrow> same_pages s t \<and> ((\<forall>k. put_io E k = 0) \<longrightarrow> pins t = pins s \<and> m_locks t = m_locks s)"

definition no_io_errors :: "penv \<Rightarrow> bool" where
  "no_io_errors E \<longleftrightarrow> (\<forall>k. put_io E k = 0) \<and> (\<forall>k. io E k = 0)"

lemma quiet_refl [simp]: "quiet E s s" by (simp add: quiet_def)

lemma quiet_trans: "quiet E s t \<Longrightarrow> quiet E t u \<Longrightarrow> quiet E s u"
  by (auto simp: quiet_def intro: same_pages_trans)

lemma cmp_overflow_default:
  assumes "overflow_key (bt_env B) s m p k" "loc \<le> lcp key k"
  shows "\<exists>t e r l. cmp_overflow B s c key m p None loc = Some (t, c, e, r, l) \<and> quiet (bt_env B) s t
    \<and> (no_io_errors (bt_env B) \<longrightarrow> e = 0) \<and> (e = 0 \<longrightarrow> sgn r = lex3 key k \<and> l = lcp key k)"
proof -
  from assms(1) obtain ps where ps: "ov_chain (bt_env B) s (bo_pgno m p) ps" "chain_bytes ps = k" "bo_tlen m p = length k"
    by (auto simp: overflow_key_def)
  have le: "loc \<le> lcp key (chain_bytes ps)" using assms(2) ps(2) by simp
  have tl: "bo_tlen m p = length (chain_bytes ps)" using ps by simp
  from db_moff_chain [OF ps(1) tl, of loc "Some loc" key c] le obtain t e r l where
    t: "db_moff (bt_env B) s c key (bo_pgno m p) (bo_tlen m p) None (Some loc) = Some (t, e, r, l, c)"
    and q: "same_pages s t" "(\<forall>k. put_io (bt_env B) k = 0) \<longrightarrow> pins t = pins s \<and> m_locks t = m_locks s"
    and ok: "(\<forall>k. put_io (bt_env B) k = 0) \<longrightarrow> (\<forall>k. io (bt_env B) k = 0) \<longrightarrow> e = 0"
    and res: "e = 0 \<longrightarrow> sgn r = lex3 key (chain_bytes ps) \<and> l = map_option (\<lambda>_. lcp key (chain_bytes ps)) (Some loc)"
    by (simp only: option.case) blast
  have "cmp_overflow B s c key m p None loc = Some (t, c, e, r, the l)" by (simp add: cmp_overflow_def t)
  moreover have "quiet (bt_env B) s t" using q by (simp add: quiet_def)
  moreover have "no_io_errors (bt_env B) \<longrightarrow> e = 0" using ok by (simp add: no_io_errors_def)
  moreover have "e = 0 \<longrightarrow> sgn r = lex3 key k \<and> the l = lcp key k" using res ps(2) by simp
  ultimately show ?thesis by blast
qed

lemma bam_cmp_default:
  assumes "key_at (bt_env B) s h i k" "ptype h \<in> {P_LBTREE, P_LDUP, P_LRECNO} \<or> ptype h = P_IBTREE \<and> 0 < i"
    and "loc \<le> lcp key k"
  shows "\<exists>t e r l. bam_cmp B s c key h i None loc = Some (t, c, e, r, l) \<and> quiet (bt_env B) s t
    \<and> (no_io_errors (bt_env B) \<longrightarrow> e = 0) \<and> (e = 0 \<longrightarrow> sgn r = lex3 key k \<and> l = lcp key k)"
proof (cases "B_TYPE (bk_type (mem h) (inp (pdb (bt_env B)) (mem h) i)) = B_OVERFLOW")
  case True
  define p where "p = inp (pdb (bt_env B)) (mem h) i + (if ptype h = P_IBTREE then 12 else 0)"
  have "overflow_key (bt_env B) s (mem h) p k"
    using assms(1) True by (simp add: key_at_def Let_def p_def split: if_splits)
  moreover have "bam_cmp B s c key h i None loc = cmp_overflow B s c key (mem h) p None loc"
    using assms(2) True by (auto simp: bam_cmp_def Let_def p_def P_IBTREE_def P_LBTREE_def P_LDUP_def P_LRECNO_def)
  ultimately show ?thesis using cmp_overflow_default [OF _ assms(3)] by simp
next
  case False
  have "bam_cmp B s c key h i None loc = Some (s, c, 0, lex3 key k, lcp key k)"
    using assms False call_cmp_default [OF assms(3)]
    by (auto simp: bam_cmp_def key_at_def Let_def P_IBTREE_def P_LBTREE_def P_LDUP_def P_LRECNO_def)
  then show ?thesis by simp
qed

section \<open>Properties\<close>

text \<open>The prefix that \<open>__bam_defpfx\<close> keeps of the first key of a right page separates the
  pages: it is greater than the last key of the left page and at most the key it comes from, and no
  shorter prefix is.\<close>

theorem separator_is_shortest:
  assumes "lex3 a b < 0"
  shows "bam_defpfx a b \<le> length b \<and> lex3 a (take (bam_defpfx a b) b) < 0 \<and> lex3 (take (bam_defpfx a b) b) b \<le> 0
    \<and> (\<forall>n < bam_defpfx a b. \<not> lex3 a (take n b) < 0)"
  using bam_defpfx_lcp [OF assms] lex3_take_lcp [OF assms] lex3_take_le by auto

theorem separator_is_shortest_witness:
  "bam_defpfx [65, 66, 67] [65, 70, 71] = 2 \<and> lex3 [65, 66, 67] (take 2 [65, 70, 71 :: byte]) < 0
    \<and> \<not> lex3 [65, 66, 67] (take 1 [65, 70, 71 :: byte]) < 0"
proof -
  have "lex3 [65, 66, 67] [65, 70, 71 :: byte] < 0" by simp
  from separator_is_shortest [OF this] show ?thesis by (simp add: bam_defpfx_lcp(1))
qed

end
