(* ===== verification/Bt_Search.thy ===== *)
theory Bt_Search
  imports Bt_Compare
begin

text \<open>
  Searching a btree, \<open>src/db/src/btree/bt_search.c\<close>: \<open>__bam_get_root\<close> and \<open>__bam_search\<close>, for the searches
  that return one leaf position (no \<open>SR_NEXT\<close>, \<open>SR_DEL\<close>, \<open>SR_PARENT\<close>, \<open>SR_START\<close>, \<open>SR_STK_ONLY\<close>, no record
  numbers, \<open>slevel\<close> the leaf level).  The page locks are granted at once, as they are to a single
  thread of control, so that the search never starts over; a page that cannot be read ends it.
  The binary search compares from the part of the key that both ends of the range share.  The lemmas
  show what a search finds on a page, for the default order and for any total preorder that a user's
  comparison defines; \<open>Bt_Tree\<close> lifts them to trees.
\<close>

section \<open>The code\<close>

record sflags =
  sr_write :: bool
  sr_min :: bool
  sr_max :: bool
  sr_exact :: bool
  sr_dupfirst :: bool
  sr_duplast :: bool
  sr_delno :: bool

definition DB_NOTFOUND :: int where "DB_NOTFOUND = - 30987"
definition LEAFLEVEL :: byte where "LEAFLEVEL = 1"
definition NUM_ENT :: "page \<Rightarrow> nat" where "NUM_ENT h = unat (entries h)"

text \<open>The root is latched; when it is a leaf that will be written, it is dirtied.\<close>

definition bam_get_root :: "penv \<Rightarrow> pager \<Rightarrow> u32 \<Rightarrow> sflags \<Rightarrow> pager \<times> int" where
  "bam_get_root E s root fl =
     (let (s1, e) = memp_fget E s root in
      if e \<noteq> 0 then (s1, e)
      else if level (pg_of s1 root) = LEAFLEVEL \<and> sr_write fl then
        (let (s2, e, gone) = memp_dirty E s1 root in
           if e \<noteq> 0 then (if gone then s2 else fst (memp_fput E s2 root), e) else (s2, 0))
      else (s1, 0))"

subsection \<open>The binary search on a page\<close>

text \<open>Where a page search ends: at an item that is equal, or between two items; or with an error.\<close>

datatype pos = Equal nat | Between nat | Bad int

function bam_bsearch ::
    "btree_h \<Rightarrow> pager \<Rightarrow> stream \<Rightarrow> byte list \<Rightarrow> page \<Rightarrow> (byte list \<Rightarrow> byte list \<Rightarrow> int) option \<Rightarrow> nat
      \<Rightarrow> nat \<Rightarrow> nat \<Rightarrow> nat \<Rightarrow> nat \<Rightarrow> (pager \<times> stream \<times> pos \<times> nat \<times> nat) option" where
  "bam_bsearch B s c key h f adjust base lim pos_l pos_h =
     (if lim = 0 then Some (s, c, Between base, pos_l, pos_h)
      else (let indx = base + (lim div 2) * adjust in
        case bam_cmp B s c key h indx f (if pos_l > pos_h then pos_h else pos_l) of
          None \<Rightarrow> None
        | Some (s1, c1, e, cmp, pos) \<Rightarrow>
            if e \<noteq> 0 then Some (s1, c1, Bad e, pos_l, pos_h)
            else if cmp = 0 then Some (s1, c1, Equal indx, pos_l, pos_h)
            else if cmp > 0 then bam_bsearch B s1 c1 key h f adjust (indx + adjust) ((lim - 1) div 2) pos pos_h
            else bam_bsearch B s1 c1 key h f adjust base (lim div 2) pos_l pos))"
  by pat_completeness auto
termination by (relation "measure (\<lambda>(B, s, c, key, h, f, adjust, base, lim, pos_l, pos_h). lim)") auto

declare bam_bsearch.simps [simp del]

subsection \<open>The label \<open>found\<close>\<close>

text \<open>On-page duplicates share the key item: the index array holds the same offset.\<close>

function dup_up :: "dbh \<Rightarrow> byte list \<Rightarrow> nat \<Rightarrow> nat \<Rightarrow> (nat \<Rightarrow> bool) \<Rightarrow> nat \<Rightarrow> nat" where
  "dup_up d m adjust mx P i =
     (if 0 < adjust \<and> P i \<and> i < mx \<and> inp d m i = inp d m (i + adjust) then dup_up d m adjust mx P (i + adjust)
      else i)"
  by pat_completeness auto
termination by (relation "measure (\<lambda>(d, m, adjust, mx, P, i). mx - i)") auto

function dup_down :: "dbh \<Rightarrow> byte list \<Rightarrow> nat \<Rightarrow> (nat \<Rightarrow> bool) \<Rightarrow> nat \<Rightarrow> nat" where
  "dup_down d m adjust P i =
     (if 0 < adjust \<and> P i \<and> 0 < i \<and> inp d m i = inp d m (i - adjust) then dup_down d m adjust P (i - adjust)
      else i)"
  by pat_completeness auto
termination by (relation "measure (\<lambda>(d, m, adjust, P, i). i)") auto

declare dup_up.simps [simp del] dup_down.simps [simp del]

definition item_deleted :: "dbh \<Rightarrow> page \<Rightarrow> nat \<Rightarrow> bool" where
  "item_deleted d h i \<longleftrightarrow> B_DISSET (bk_type (mem h) (inp d (mem h) i))"

definition dup_edge :: "sflags \<Rightarrow> dbh \<Rightarrow> page \<Rightarrow> nat \<Rightarrow> nat" where
  "dup_edge fl d h i =
     (if ptype h = P_LBTREE \<and> NUM_ENT h > 2 then
        (if sr_duplast fl then dup_up d (mem h) 2 (unat (entries h - 2)) (\<lambda>_. True) i
         else if sr_dupfirst fl then dup_down d (mem h) 2 (\<lambda>_. True) i else i)
      else i)"

definition bam_found :: "dbh \<Rightarrow> sflags \<Rightarrow> page \<Rightarrow> nat \<Rightarrow> int \<times> nat" where
  "bam_found d fl h indx0 =
     (let indx = dup_edge fl d h indx0 in
      if sr_delno fl then
        (let deloffset = (if ptype h = P_LBTREE then 1 else 0); adjust = (if ptype h = P_LBTREE then 2 else 1);
             gone = (\<lambda>i. item_deleted d h (i + deloffset));
             indx' = (if sr_duplast fl then dup_down d (mem h) adjust gone indx
                      else dup_up d (mem h) adjust (unat (entries h - word_of_nat adjust)) gone indx)
         in (if gone indx' then DB_NOTFOUND else 0, indx'))
      else (0, indx))"

subsection \<open>The descent\<close>

text \<open>The label \<open>err\<close>: the page and the parent that are latched are given back.\<close>

definition search_err :: "penv \<Rightarrow> pager \<Rightarrow> u32 option \<Rightarrow> u32 option \<Rightarrow> int \<Rightarrow> pager \<times> int" where
  "search_err E s h parent ret =
     (let (s1, r1) = (case h of None \<Rightarrow> (s, ret) | Some n \<Rightarrow> (let (s1, t) = memp_fput E s n in (s1, keep ret t)))
      in case parent of None \<Rightarrow> (s1, r1) | Some n \<Rightarrow> (let (s2, t) = memp_fput E s1 n in (s2, keep r1 t)))"

text \<open>What the body of the loop does on a page: it stops there, takes a child, or fails.\<close>

datatype turn = Stop nat bool | Child nat | Fails int

definition bam_page ::
    "btree_h \<Rightarrow> pager \<Rightarrow> stream \<Rightarrow> byte list \<Rightarrow> sflags \<Rightarrow> (byte list \<Rightarrow> byte list \<Rightarrow> int) option \<Rightarrow> page
      \<Rightarrow> nat \<Rightarrow> nat \<Rightarrow> (pager \<times> stream \<times> turn \<times> nat \<times> nat) option" where
  "bam_page B s c key fl f h pos_l pos_h =
     (let adjust = (if ptype h = P_LBTREE then 2 else 1);
          found = (\<lambda>i. case bam_found (pdb (bt_env B)) fl h i of (e, i') \<Rightarrow> if e \<noteq> 0 then Fails e else Stop i' True)
      in if sr_min fl \<or> sr_max fl then
           (let indx = (if sr_min fl \<or> NUM_ENT h = 0 then 0
                        else if ptype h = P_LBTREE then NUM_ENT h - 2 else NUM_ENT h - 1)
            in Some (s, c, if level h = LEAFLEVEL then found indx else Child indx, pos_l, pos_h))
         else (case bam_bsearch B s c key h f adjust 0 (NUM_ENT h div adjust) pos_l pos_h of
             None \<Rightarrow> None
           | Some (s1, c1, p, pl, ph) \<Rightarrow>
               Some (s1, c1,
                 (case p of
                    Bad e \<Rightarrow> Fails e
                  | Equal i \<Rightarrow> if level h = LEAFLEVEL then found i else Child i
                  | Between base \<Rightarrow>
                      if level h = LEAFLEVEL then (if sr_exact fl then Fails DB_NOTFOUND else Stop base False)
                      else Child (if base > 0 then base - 1 else base)), pl, ph)))"

partial_function (option) bam_descend ::
    "btree_h \<Rightarrow> pager \<Rightarrow> stream \<Rightarrow> byte list \<Rightarrow> sflags \<Rightarrow> (byte list \<Rightarrow> byte list \<Rightarrow> int) option \<Rightarrow> u32
      \<Rightarrow> nat \<Rightarrow> nat \<Rightarrow> (pager \<times> stream \<times> int \<times> (u32 \<times> nat \<times> bool) option) option" where
  "bam_descend B s c key fl f n pos_l pos_h =
     (let E = bt_env B; h = pg_of s n; fail = (\<lambda>s c g p e. case search_err E s g p e of (t, e) \<Rightarrow> Some (t, c, e, None)) in
      if ptype h \<noteq> P_LBTREE \<and> ptype h \<noteq> P_LDUP \<and> NUM_ENT h = 0 then
        (case memp_fput E s n of
           (s1, e) \<Rightarrow> if e \<noteq> 0 then fail s1 c (Some n) None e
                     else (case memp_fget E s1 n of
                             (s2, e) \<Rightarrow> if e \<noteq> 0 then fail s2 c None None e
                                       else bam_descend B s2 c key fl f n pos_l pos_h))
      else case bam_page B s c key fl f h pos_l pos_h of
        None \<Rightarrow> None
      | Some (s1, c1, Fails e, pl, ph) \<Rightarrow> fail s1 c1 (Some n) None e
      | Some (s1, c1, Stop i ex, pl, ph) \<Rightarrow> Some (s1, c1, 0, Some (n, i, ex))
      | Some (s1, c1, Child i, pl, ph) \<Rightarrow>
          (let pg = bi_pgno (mem h) (inp (pdb E) (mem h) i) in
           case memp_fget E s1 pg of
             (s2, e) \<Rightarrow> if e \<noteq> 0 then fail s2 c1 None (Some n) e
                       else (case memp_fput E s2 n of
                               (s3, e) \<Rightarrow> if e \<noteq> 0 then fail s3 c1 (Some pg) (Some n) e
                                         else bam_descend B s3 c1 key fl f pg pl ph)))"

text \<open>\<open>opd\<close>: the cursor is in a tree of off-page duplicates, which has a comparison of its own.\<close>

definition bam_search ::
    "btree_h \<Rightarrow> bool \<Rightarrow> pager \<Rightarrow> stream \<Rightarrow> u32 \<Rightarrow> byte list \<Rightarrow> sflags
      \<Rightarrow> (pager \<times> stream \<times> int \<times> (u32 \<times> nat \<times> bool) option) option" where
  "bam_search B opd s c root key fl =
     (let (s1, e) = bam_get_root (bt_env B) s root fl in
      if e \<noteq> 0 then Some (s1, c, e, None)
      else if level (pg_of s1 root) < LEAFLEVEL then Some (s1, c, 0, Some (root, 0, False))
      else bam_descend B s1 c key fl (if opd then dup_cmp B else bt_cmp B) root 0 0)"

section \<open>Orders on keys\<close>

text \<open>
  The comparison that a search uses, and what it must be: a total preorder.  The default one is the
  lexicographic order; two keys that a user's comparison calls equal may differ.
\<close>

definition cmp_of :: "(byte list \<Rightarrow> byte list \<Rightarrow> int) option \<Rightarrow> byte list \<Rightarrow> byte list \<Rightarrow> int" where
  "cmp_of f a b = (case f of None \<Rightarrow> fst (dbt_defcmp a b None) | Some g \<Rightarrow> g a b)"

lemma cmp_of_default [simp]: "cmp_of None = lex3"
  by (intro ext) (simp add: cmp_of_def dbt_defcmp_spec)

text \<open>
  The offsets of a search: what is below the key shares \<open>pl\<close> bytes with it, what is above \<open>ph\<close>.  A
  user's comparison does not use them.
\<close>

definition near :: "(byte list \<Rightarrow> byte list \<Rightarrow> int) option \<Rightarrow> byte list \<Rightarrow> nat \<Rightarrow> nat \<Rightarrow> byte list set \<Rightarrow> bool" where
  "near f key pl ph S \<longleftrightarrow>
     (f = None \<longrightarrow> (\<forall>k \<in> S. (lex3 k key \<le> 0 \<longrightarrow> pl \<le> lcp key k) \<and> (lex3 key k \<le> 0 \<longrightarrow> ph \<le> lcp key k)))"

lemma near_0 [simp]: "near f key 0 0 S"
  by (simp add: near_def)

lemma near_mono: "near f key pl ph S \<Longrightarrow> T \<subseteq> S \<Longrightarrow> near f key pl ph T"
  unfolding near_def by blast

lemma near_min:
  assumes "near None key pl ph S" "k \<in> S"
  shows "min pl ph \<le> lcp key k"
proof -
  have "lex3 k key \<le> 0 \<or> lex3 key k \<le> 0" using lex3_swap [of k key] by linarith
  then show ?thesis using assms by (auto simp: near_def min_def)
qed

text \<open>After a comparison with \<open>x\<close>, the offset of one end is what the key shares with \<open>x\<close>.\<close>

lemma near_low:
  assumes "near f key pl ph S" "T \<subseteq> S" "f = None \<Longrightarrow> lex3 x key \<le> 0" "f = None \<Longrightarrow> \<forall>k \<in> T. lex3 x k \<le> 0"
    and "f = None \<Longrightarrow> p = lcp key x"
  shows "near f key p ph T"
  unfolding near_def
proof (intro impI ballI conjI)
  fix k assume f: "f = None" and k: "k \<in> T"
  show "ph \<le> lcp key k" if "lex3 key k \<le> 0" using assms(1,2) f k that by (auto simp: near_def)
  assume kk: "lex3 k key \<le> 0"
  have "lcp key x \<le> lcp key key" using lcp_le(1) by (simp add: lcp_le lcp_eqI [of "length key" key key])
  then show "p \<le> lcp key k"
    using lcp_between [of x k key key "lcp key x"] kk assms(3,4,5) [OF f] k by simp
qed

lemma near_high:
  assumes "near f key pl ph S" "T \<subseteq> S" "f = None \<Longrightarrow> lex3 key x \<le> 0" "f = None \<Longrightarrow> \<forall>k \<in> T. lex3 k x \<le> 0"
    and "f = None \<Longrightarrow> p = lcp key x"
  shows "near f key pl p T"
  unfolding near_def
proof (intro impI ballI conjI)
  fix k assume f: "f = None" and k: "k \<in> T"
  show "pl \<le> lcp key k" if "lex3 k key \<le> 0" using assms(1,2) f k that by (auto simp: near_def)
  assume kk: "lex3 key k \<le> 0"
  have "lcp key x \<le> lcp key key" using lcp_le(1) by (simp add: lcp_le lcp_eqI [of "length key" key key])
  then show "p \<le> lcp key k"
    using lcp_between [of key k x key "lcp key x"] kk assms(3,4,5) [OF f] k by simp
qed

text \<open>The key of an item, for a search with a comparison: a user's comparison is applied to items on the page.\<close>

definition key_for ::
    "(byte list \<Rightarrow> byte list \<Rightarrow> int) option \<Rightarrow> penv \<Rightarrow> pager \<Rightarrow> page \<Rightarrow> nat \<Rightarrow> byte list \<Rightarrow> bool" where
  "key_for f E s h i k \<longleftrightarrow> key_at E s h i k
     \<and> (f = None \<or> B_TYPE (bk_type (mem h) (inp (pdb E) (mem h) i)) \<noteq> B_OVERFLOW)"

lemma key_for_same: "same_pages s t \<Longrightarrow> key_for f E t h i k = key_for f E s h i k"
  by (simp add: key_for_def key_at_same)

lemma bam_cmp_for:
  assumes "key_for f (bt_env B) s h i k" "ptype h = P_LBTREE \<or> ptype h = P_IBTREE \<and> 0 < i"
    and "f = None \<Longrightarrow> loc \<le> lcp key k"
  shows "\<exists>t e r l. bam_cmp B s c key h i f loc = Some (t, c, e, r, l) \<and> quiet (bt_env B) s t
    \<and> (no_io_errors (bt_env B) \<longrightarrow> e = 0) \<and> (e = 0 \<longrightarrow> sgn r = sgn (cmp_of f key k) \<and> (f = None \<longrightarrow> l = lcp key k))"
proof (cases f)
  case None
  have k: "key_at (bt_env B) s h i k" using assms(1) by (simp add: key_for_def)
  from bam_cmp_default [OF k _ assms(3) [OF None], of c] assms(2) obtain t e r l where
    "bam_cmp B s c key h i None loc = Some (t, c, e, r, l)" "quiet (bt_env B) s t"
    "no_io_errors (bt_env B) \<longrightarrow> e = 0" "e = 0 \<longrightarrow> sgn r = lex3 key k \<and> l = lcp key k" by blast
  then show ?thesis using None by auto
next
  case (Some g)
  have "bam_cmp B s c key h i f loc = Some (s, c, 0, g key k, loc)"
    using assms(1,2) Some
    by (auto simp: bam_cmp_def key_for_def key_at_def Let_def call_cmp_def P_IBTREE_def P_LBTREE_def P_LDUP_def P_LRECNO_def)
  then show ?thesis using Some by (auto simp: cmp_of_def)
qed

text \<open>
  The interface between a search and the comparison it calls.  Inside it, \<open>bam_cmp\<close> orders the items
  of a page, and the search on a page finds the place of the key.
\<close>

locale key_order =
  fixes f :: "(byte list \<Rightarrow> byte list \<Rightarrow> int) option"
  assumes swap: "sgn (cmp_of f b a) = - sgn (cmp_of f a b)"
    and trans: "cmp_of f a b \<le> 0 \<Longrightarrow> cmp_of f b c \<le> 0 \<Longrightarrow> cmp_of f a c \<le> 0"
begin

lemma cmp_le_swap: "cmp_of f a b \<le> 0 \<longleftrightarrow> 0 \<le> cmp_of f b a"
  using swap [of a b] by (auto simp: sgn_if split: if_splits)

lemma cmp_less_swap: "cmp_of f a b < 0 \<longleftrightarrow> 0 < cmp_of f b a"
  using swap [of a b] by (auto simp: sgn_if split: if_splits)

lemma less_trans: "cmp_of f a b < 0 \<Longrightarrow> cmp_of f b c \<le> 0 \<Longrightarrow> cmp_of f a c < 0"
  using trans [of b c a] cmp_le_swap cmp_less_swap by (metis not_le order_less_imp_le)

lemma le_less_trans: "cmp_of f a b \<le> 0 \<Longrightarrow> cmp_of f b c < 0 \<Longrightarrow> cmp_of f a c < 0"
  using trans [of c a b] cmp_le_swap cmp_less_swap by (metis not_le order_less_imp_le)

end

interpretation default_order: key_order None
proof unfold_locales
  show "sgn (cmp_of None b a) = - sgn (cmp_of None a b)" for a b :: "byte list"
    using lex3_swap [of b a] by simp
  show "cmp_of None a b \<le> 0 \<Longrightarrow> cmp_of None b c \<le> 0 \<Longrightarrow> cmp_of None a c \<le> 0" for a b c :: "byte list"
    using lex3_trans [of a b c] by simp
qed

section \<open>The search on a page\<close>

text \<open>
  The keys \<open>ks\<close> of a page, \<open>w\<close> indices each.  The first key of an internal page is not compared
  with: it is below every key.
\<close>

definition unread :: "page \<Rightarrow> nat \<Rightarrow> bool" where
  "unread h j \<longleftrightarrow> ptype h = P_IBTREE \<and> j = 0"

definition page_keys ::
    "(byte list \<Rightarrow> byte list \<Rightarrow> int) option \<Rightarrow> penv \<Rightarrow> pager \<Rightarrow> page \<Rightarrow> nat \<Rightarrow> byte list list \<Rightarrow> bool" where
  "page_keys f E s h w ks \<longleftrightarrow>
     (ptype h = P_LBTREE \<or> ptype h = P_IBTREE) \<and> 0 < w
   \<and> (\<forall>j<length ks. \<not> unread h j \<longrightarrow> key_for f E s h (j * w) (ks ! j))
   \<and> (\<forall>i j. i < j \<longrightarrow> j < length ks \<longrightarrow> \<not> unread h i \<longrightarrow> cmp_of f (ks ! i) (ks ! j) \<le> 0)"

text \<open>The keys of \<open>S\<close> between the keys of the page before \<open>b\<close> and those from \<open>u\<close> on.\<close>

definition window ::
    "(byte list \<Rightarrow> byte list \<Rightarrow> int) option \<Rightarrow> page \<Rightarrow> byte list list \<Rightarrow> nat \<Rightarrow> nat \<Rightarrow> byte list set \<Rightarrow> byte list set" where
  "window f h ks b u S =
     {k \<in> S. (\<forall>j<b. \<not> unread h j \<longrightarrow> cmp_of f (ks ! j) k \<le> 0)
           \<and> (\<forall>j<length ks. u \<le> j \<longrightarrow> \<not> unread h j \<longrightarrow> cmp_of f k (ks ! j) \<le> 0)}"

lemma window_mono: "b \<le> b' \<Longrightarrow> u' \<le> u \<Longrightarrow> window f h ks b' u' S \<subseteq> window f h ks b u S"
  by (auto simp: window_def)

definition splits_at ::
    "(byte list \<Rightarrow> byte list \<Rightarrow> int) option \<Rightarrow> page \<Rightarrow> byte list \<Rightarrow> byte list list \<Rightarrow> nat \<Rightarrow> nat \<Rightarrow> bool" where
  "splits_at f h key ks b u \<longleftrightarrow>
     (\<forall>j<b. unread h j \<or> 0 < cmp_of f key (ks ! j))
   \<and> (\<forall>j<length ks. u \<le> j \<longrightarrow> \<not> unread h j \<and> cmp_of f key (ks ! j) < 0)"

text \<open>What a search on a page finds.\<close>

definition found_at ::
    "(byte list \<Rightarrow> byte list \<Rightarrow> int) option \<Rightarrow> page \<Rightarrow> byte list \<Rightarrow> byte list list \<Rightarrow> nat \<Rightarrow> byte list set
      \<Rightarrow> pos \<Rightarrow> nat \<Rightarrow> nat \<Rightarrow> bool" where
  "found_at f h key ks w S p pl ph =
     (case p of
        Bad e \<Rightarrow> e \<noteq> 0
      | Equal i \<Rightarrow> (\<exists>j<length ks. i = j * w \<and> \<not> unread h j \<and> cmp_of f key (ks ! j) = 0
                      \<and> near f key pl ph (window f h ks j (Suc j) S))
      | Between i \<Rightarrow> (\<exists>j\<le>length ks. i = j * w \<and> splits_at f h key ks j j
                        \<and> near f key pl ph (window f h ks j j S)))"

context key_order
begin

text \<open>One comparison of the binary search.\<close>

lemma near_pos:
  assumes "near f key pl ph (window f h ks b u S)" "f = None" "k \<in> window f h ks b u S"
  shows "(if pl > ph then ph else pl) \<le> lcp key k"
  using near_min [of key pl ph _ k] assms by (auto simp: min_def split: if_splits)

lemma key_in_window:
  assumes "page_keys f E s h w ks" "j < length ks" "\<not> unread h j" "b \<le> j" "j < u" "ks ! j \<in> S"
  shows "ks ! j \<in> window f h ks b u S"
  using assms by (auto simp: page_keys_def window_def)

lemma splits_low:
  assumes "page_keys f E s h w ks" "j < length ks" "0 < cmp_of f key (ks ! j) \<or> unread h j" "splits_at f h key ks b u"
  shows "splits_at f h key ks (Suc j) u"
proof -
  have "unread h i \<or> 0 < cmp_of f key (ks ! i)" if "i < Suc j" for i
  proof (cases "i = j \<or> unread h i")
    case True
    then show ?thesis using assms(3) by auto
  next
    case False
    then have "i < j" "\<not> unread h i" "\<not> unread h j" using that by (auto simp: unread_def)
    then have "cmp_of f (ks ! i) (ks ! j) \<le> 0" "cmp_of f (ks ! j) key < 0"
      using assms(1-3) cmp_less_swap by (auto simp: page_keys_def)
    then show ?thesis using le_less_trans cmp_less_swap by blast
  qed
  then show ?thesis using assms(4) by (auto simp: splits_at_def)
qed

lemma splits_high:
  assumes "page_keys f E s h w ks" "j < length ks" "cmp_of f key (ks ! j) < 0" "\<not> unread h j" "splits_at f h key ks b u"
  shows "splits_at f h key ks b j"
proof -
  have "\<not> unread h i \<and> cmp_of f key (ks ! i) < 0" if "j \<le> i" "i < length ks" for i
  proof (cases "i = j")
    case False
    then have "j < i" using that by simp
    then have "cmp_of f (ks ! j) (ks ! i) \<le> 0" "\<not> unread h i"
      using assms(1,4) that by (auto simp: page_keys_def unread_def)
    then show ?thesis using less_trans assms(3) by blast
  qed (use assms in auto)
  then show ?thesis using assms(5) by (auto simp: splits_at_def)
qed

lemma bsearch_finds:
  assumes "page_keys f (bt_env B) s h w ks" "\<And>j. j < length ks \<Longrightarrow> \<not> unread h j \<Longrightarrow> ks ! j \<in> S"
    and "b + lim \<le> length ks" "splits_at f h key ks b (b + lim)" "near f key pl ph (window f h ks b (b + lim) S)"
  shows "\<exists>t p pl' ph'. bam_bsearch B s c key h f w (b * w) lim pl ph = Some (t, c, p, pl', ph')
    \<and> quiet (bt_env B) s t \<and> (no_io_errors (bt_env B) \<longrightarrow> (\<forall>e. p \<noteq> Bad e)) \<and> found_at f h key ks w S p pl' ph'"
  using assms
proof (induction lim arbitrary: s b pl ph rule: less_induct)
  case (less lim)
  show ?case
  proof (cases "lim = 0")
    case True
    then show ?thesis using less.prems by (subst bam_bsearch.simps) (auto simp: found_at_def)
  next
    case False
    define j where "j = b + lim div 2"
    define loc where "loc = (if pl > ph then ph else pl)"
    have j: "j < length ks" "b \<le> j" "j < b + lim" using False less.prems(3) by (auto simp: j_def)
    have ix: "b * w + lim div 2 * w = j * w" by (simp add: j_def algebra_simps)
    have nx: "j * w + w = Suc j * w" by simp
    note run = bam_bsearch.simps [of B s c key h f w "b * w" lim pl ph, unfolded ix nx Let_def, folded loc_def]
    have low: "\<exists>t p pl' ph'. bam_bsearch B s1 c key h f w (Suc j * w) ((lim - 1) div 2) p1 ph = Some (t, c, p, pl', ph')
        \<and> quiet (bt_env B) s1 t \<and> (no_io_errors (bt_env B) \<longrightarrow> (\<forall>e. p \<noteq> Bad e)) \<and> found_at f h key ks w S p pl' ph'"
      if "page_keys f (bt_env B) s1 h w ks" "0 < cmp_of f key (ks ! j) \<or> unread h j"
        "near f key p1 ph (window f h ks (Suc j) (b + lim) S)" for s1 p1
    proof -
      have e: "Suc j + (lim - 1) div 2 = b + lim" using False by (auto simp: j_def)
      show ?thesis
        using less.IH [of "(lim - 1) div 2" s1 "Suc j" p1 ph] False that less.prems(2,3) e
          splits_low [OF that(1) j(1) that(2) less.prems(4)] by simp
    qed
    show ?thesis
    proof (cases "unread h j")
      case True
      then have pt: "ptype h = P_IBTREE" "j = 0" by (auto simp: unread_def)
      have 1: "bam_cmp B s c key h 0 f loc = Some (s, c, 0, 1, loc)"
        using pt(1) by (simp add: bam_cmp_def Let_def P_IBTREE_def P_LBTREE_def P_LDUP_def P_LRECNO_def)
      have bs: "bam_bsearch B s c key h f w (b * w) lim pl ph = bam_bsearch B s c key h f w (Suc j * w) ((lim - 1) div 2) loc ph"
        using run False 1 pt(2) by simp
      have "near f key loc ph (window f h ks (Suc j) (b + lim) S)"
      proof -
        have "window f h ks (Suc j) (b + lim) S \<subseteq> window f h ks b (b + lim) S" using j by (intro window_mono) auto
        then have "near f key pl ph (window f h ks (Suc j) (b + lim) S)" using near_mono less.prems(5) by blast
        then show ?thesis by (auto simp: near_def loc_def)
      qed
      from low [OF less.prems(1) _ this] True show ?thesis unfolding bs by blast
    next
      case un: False
      have kf: "key_for f (bt_env B) s h (j * w) (ks ! j)" using less.prems(1) j un by (auto simp: page_keys_def)
      have ty: "ptype h = P_LBTREE \<or> ptype h = P_IBTREE \<and> 0 < j * w"
        using less.prems(1) un by (auto simp: page_keys_def unread_def)
      have inw: "ks ! j \<in> window f h ks b (b + lim) S"
        using key_in_window [OF less.prems(1) j(1) un j(2,3) less.prems(2) [OF j(1) un]] .
      have "f = None \<Longrightarrow> loc \<le> lcp key (ks ! j)"
        unfolding loc_def by (rule near_pos [OF less.prems(5) _ inw])
      from bam_cmp_for [OF kf ty this, of c] obtain s1 e r l where
        1: "bam_cmp B s c key h (j * w) f loc = Some (s1, c, e, r, l)" "quiet (bt_env B) s s1"
        and ok: "no_io_errors (bt_env B) \<longrightarrow> e = 0"
        and res: "e = 0 \<longrightarrow> sgn r = sgn (cmp_of f key (ks ! j)) \<and> (f = None \<longrightarrow> l = lcp key (ks ! j))"
        by blast
      have pk: "page_keys f (bt_env B) s1 h w ks"
        using less.prems(1) key_for_same [of s s1] 1(2) by (simp add: page_keys_def quiet_def)
      consider "e \<noteq> 0" | "e = 0" "r = 0" | "e = 0" "r > 0" | "e = 0" "r < 0" by linarith
      then show ?thesis
      proof cases
        case 1
        then show ?thesis using run False \<open>bam_cmp B s c key h (j * w) f loc = _\<close> \<open>quiet _ s s1\<close> ok
          by (auto simp: found_at_def)
      next
        case 2
        then have z: "cmp_of f key (ks ! j) = 0" using res by (simp add: sgn_0_0)
        have sub: "window f h ks j (Suc j) S \<subseteq> window f h ks b (b + lim) S" using j by (intro window_mono) auto
        show ?thesis
          using run False 1 2 z j un near_mono [OF less.prems(5) sub] by (auto simp: found_at_def)
      next
        case 3
        then have pos: "0 < cmp_of f key (ks ! j)" using res by (auto simp: sgn_if split: if_splits)
        have bs: "bam_bsearch B s c key h f w (b * w) lim pl ph = bam_bsearch B s1 c key h f w (Suc j * w) ((lim - 1) div 2) l ph"
          using run False 1(1) 3 by simp
        have sub: "window f h ks (Suc j) (b + lim) S \<subseteq> window f h ks b (b + lim) S" using j by (intro window_mono) auto
        have "near f key l ph (window f h ks (Suc j) (b + lim) S)"
          using un 3 res pos cmp_less_swap [of "ks ! j" key]
          by (intro near_low [OF less.prems(5) sub, where x = "ks ! j"]) (auto simp: window_def)
        from low [OF pk _ this] pos obtain t p pl' ph' where
          2: "bam_bsearch B s1 c key h f w (Suc j * w) ((lim - 1) div 2) l ph = Some (t, c, p, pl', ph')"
            "quiet (bt_env B) s1 t" "no_io_errors (bt_env B) \<longrightarrow> (\<forall>e. p \<noteq> Bad e)" "found_at f h key ks w S p pl' ph'"
          by blast
        show ?thesis unfolding bs using 2 quiet_trans [OF 1(2) 2(2)] by blast
      next
        case 4
        then have neg: "cmp_of f key (ks ! j) < 0" using res by (auto simp: sgn_if split: if_splits)
        have bs: "bam_bsearch B s c key h f w (b * w) lim pl ph = bam_bsearch B s1 c key h f w (b * w) (lim div 2) pl l"
          using run False 1(1) 4 by simp
        have sub: "window f h ks b j S \<subseteq> window f h ks b (b + lim) S" using j by (intro window_mono) auto
        have "near f key pl l (window f h ks b j S)"
          using un 4 res neg j
          by (intro near_high [OF less.prems(5) sub, where x = "ks ! j"]) (auto simp: window_def)
        moreover have "b + lim div 2 \<le> length ks" using j(1) by (simp add: j_def)
        ultimately
        obtain t p pl' ph' where
          2: "bam_bsearch B s1 c key h f w (b * w) (lim div 2) pl l = Some (t, c, p, pl', ph')"
            "quiet (bt_env B) s1 t" "no_io_errors (bt_env B) \<longrightarrow> (\<forall>e. p \<noteq> Bad e)" "found_at f h key ks w S p pl' ph'"
          using less.IH [of "lim div 2" s1 b pl l, OF _ pk less.prems(2)] False
            splits_high [OF pk j(1) neg un less.prems(4)]
          unfolding j_def by auto
        show ?thesis unfolding bs using 2 quiet_trans [OF 1(2) 2(2)] by blast
      qed
    qed
  qed
qed

end

section \<open>A leaf\<close>

text \<open>Loops over duplicates stay among the indices with the same item.\<close>

lemma dup_up_spec:
  "dup_up d m a mx P i = i' \<Longrightarrow>
     (\<exists>k. i' = i + a * k) \<and> inp d m i' = inp d m i \<and> (i' \<le> i \<or> i' < mx + a)
     \<and> (0 < a \<longrightarrow> P i' \<longrightarrow> i' < mx \<longrightarrow> inp d m i' \<noteq> inp d m (i' + a))"
proof (induction d m a mx P i arbitrary: i' rule: dup_up.induct)
  case (1 d m a mx P i)
  show ?case
  proof (cases "0 < a \<and> P i \<and> i < mx \<and> inp d m i = inp d m (i + a)")
    case True
    then have r: "dup_up d m a mx P (i + a) = i'" using 1(2) by (simp add: dup_up.simps [of d m a mx P i])
    from 1(1) [OF True r] obtain k where
      k: "i' = i + a + a * k" "inp d m i' = inp d m (i + a)" "i' \<le> i + a \<or> i' < mx + a"
      and e: "0 < a \<longrightarrow> P i' \<longrightarrow> i' < mx \<longrightarrow> inp d m i' \<noteq> inp d m (i' + a)" by blast
    have "i' = i + a * Suc k" using k(1) by simp
    then have "\<exists>k. i' = i + a * k" by blast
    moreover have "inp d m i' = inp d m i" "i' \<le> i \<or> i' < mx + a" using k True by auto
    ultimately show ?thesis using e by blast
  next
    case False
    then have "i' = i" using 1(2) by (subst (asm) dup_up.simps) (simp split: if_splits)
    then show ?thesis using False by auto
  qed
qed

lemma dup_down_spec:
  "dup_down d m 2 P (2 * j) = i' \<Longrightarrow>
     (\<exists>k. i' = 2 * k \<and> k \<le> j) \<and> inp d m i' = inp d m (2 * j)
     \<and> (P i' \<longrightarrow> 0 < i' \<longrightarrow> inp d m i' \<noteq> inp d m (i' - 2))"
proof (induction j arbitrary: i')
  case (Suc j)
  show ?case
  proof (cases "P (2 * Suc j) \<and> inp d m (2 * Suc j) = inp d m (2 * j)")
    case True
    have "dup_down d m 2 P (2 * Suc j) = dup_down d m 2 P (2 * j)" using True by (subst dup_down.simps) simp
    then have r: "dup_down d m 2 P (2 * j) = i'" using Suc.prems by simp
    show ?thesis using Suc.IH [OF r] True by (auto simp: le_SucI)
  next
    case False
    then have i: "i' = 2 * Suc j" using Suc(2) by (subst (asm) dup_down.simps) (auto split: if_splits)
    then have "\<exists>k. i' = 2 * k \<and> k \<le> Suc j" by blast
    then show ?thesis using False i by auto
  qed
qed (simp add: dup_down.simps [of d m 2 P 0])

lemma dup_up_step: "dup_up d m 2 mx P i = i' \<Longrightarrow> even i \<Longrightarrow> even i'"
  using dup_up_spec [of d m 2 mx P i i'] by auto

text \<open>One item has one key.\<close>

lemma ov_chain_unique:
  "ov_chain E s n ps \<Longrightarrow> ov_chain E s n qs \<Longrightarrow> chain_bytes ps = chain_bytes qs"
proof (induction ps arbitrary: n qs)
  case Nil
  then show ?case by (cases qs) auto
next
  case (Cons pb ps)
  obtain p b where pb: "pb = (p, b)" by (cases pb)
  obtain q c qs' where qs: "qs = (q, c) # qs'" using Cons.prems pb by (cases qs) auto
  have "p = q" "b = c" using Cons.prems pb qs by auto
  then show ?case using Cons.IH [of "next_pgno (pg_of s p)" qs'] Cons.prems pb qs by simp
qed

lemma key_at_unique:
  assumes "key_at E s h i k" "key_at E s h i' k'" "inp (pdb E) (mem h) i = inp (pdb E) (mem h) i'"
  shows "k = k'"
proof (cases "B_TYPE (bk_type (mem h) (inp (pdb E) (mem h) i')) = B_OVERFLOW")
  case True
  then obtain ps qs p where "ov_chain E s p ps" "chain_bytes ps = k" "ov_chain E s p qs" "chain_bytes qs = k'"
    using assms(1,2) unfolding key_at_def Let_def assms(3) overflow_key_def by auto
  then show ?thesis using ov_chain_unique by blast
next
  case False
  then show ?thesis using assms(1,2) unfolding key_at_def Let_def assms(3) by (simp split: if_splits)
qed

definition leaf_ok ::
    "(byte list \<Rightarrow> byte list \<Rightarrow> int) option \<Rightarrow> penv \<Rightarrow> pager \<Rightarrow> page \<Rightarrow> byte list list \<Rightarrow> bool" where
  "leaf_ok f E s h ks \<longleftrightarrow>
     ptype h = P_LBTREE \<and> level h = LEAFLEVEL \<and> NUM_ENT h = 2 * length ks \<and> page_keys f E s h 2 ks
   \<and> (\<forall>j. Suc j < length ks \<longrightarrow> cmp_of f (ks ! j) (ks ! Suc j) = 0 \<longrightarrow>
        inp (pdb E) (mem h) (2 * j) = inp (pdb E) (mem h) (2 * Suc j))"

lemma leaf_ok_same: "same_pages s t \<Longrightarrow> leaf_ok f E t h ks = leaf_ok f E s h ks"
  by (simp add: leaf_ok_def page_keys_def key_for_same)

text \<open>
  Where a search stops in a leaf: at an item equal to the key (the first or the last of its
  duplicates, when asked for, or one that is not deleted), or where the key would be inserted.
\<close>

definition stop_ok ::
    "(byte list \<Rightarrow> byte list \<Rightarrow> int) option \<Rightarrow> sflags \<Rightarrow> dbh \<Rightarrow> page \<Rightarrow> byte list \<Rightarrow> byte list list \<Rightarrow> nat \<Rightarrow> bool \<Rightarrow> bool" where
  "stop_ok f fl d h key ks j ex \<longleftrightarrow>
     (if ex then j < length ks \<and> cmp_of f key (ks ! j) = 0
        \<and> (sr_delno fl \<longrightarrow> \<not> item_deleted d h (2 * j + 1))
        \<and> (\<not> sr_delno fl \<longrightarrow> sr_duplast fl \<longrightarrow> (\<forall>i<length ks. j < i \<longrightarrow> cmp_of f key (ks ! i) < 0))
        \<and> (\<not> sr_delno fl \<longrightarrow> sr_dupfirst fl \<longrightarrow> \<not> sr_duplast fl \<longrightarrow> (\<forall>i<j. 0 < cmp_of f key (ks ! i)))
      else splits_at f h key ks j j \<and> j \<le> length ks \<and> \<not> sr_exact fl)"

text \<open>Why a search finds nothing: no equal key, or an equal key whose data is deleted.\<close>

definition none_ok ::
    "(byte list \<Rightarrow> byte list \<Rightarrow> int) option \<Rightarrow> sflags \<Rightarrow> dbh \<Rightarrow> page \<Rightarrow> byte list \<Rightarrow> byte list list \<Rightarrow> bool" where
  "none_ok f fl d h key ks \<longleftrightarrow>
     sr_exact fl \<and> (\<forall>k \<in> set ks. cmp_of f key k \<noteq> 0)
   \<or> sr_delno fl \<and> (\<exists>j<length ks. cmp_of f key (ks ! j) = 0 \<and> item_deleted d h (2 * j + 1))"

lemma leaf_item_key:
  assumes "leaf_ok f E s h ks" "i < length ks" "j < length ks"
    and "inp (pdb E) (mem h) (2 * i) = inp (pdb E) (mem h) (2 * j)"
  shows "ks ! i = ks ! j"
proof -
  have "key_at E s h (2 * k) (ks ! k)" if "k < length ks" for k
    using assms(1) that by (simp add: leaf_ok_def page_keys_def unread_def key_for_def P_IBTREE_def P_LBTREE_def mult.commute)
  then show ?thesis using key_at_unique assms(2-4) by blast
qed

context key_order
begin

lemma leaf_sorted:
  assumes "leaf_ok f E s h ks" "i < j" "j < length ks"
  shows "cmp_of f (ks ! i) (ks ! j) \<le> 0"
  using assms by (simp add: leaf_ok_def page_keys_def unread_def P_IBTREE_def P_LBTREE_def)

text \<open>The neighbours of an item with another offset are above or below.\<close>

lemma leaf_next_above:
  assumes l: "leaf_ok f E s h ks" and j: "cmp_of f key (ks ! j) = 0" "j < i" "i < length ks"
    and n: "inp (pdb E) (mem h) (2 * j) \<noteq> inp (pdb E) (mem h) (2 * Suc j)"
  shows "cmp_of f key (ks ! i) < 0"
proof -
  have sj: "Suc j < length ks" using j by simp
  have "cmp_of f (ks ! j) (ks ! Suc j) < 0"
    using leaf_sorted [OF l, of j "Suc j"] l n sj by (auto simp: leaf_ok_def le_less)
  then have s: "cmp_of f key (ks ! Suc j) < 0" using le_less_trans j(1) by (metis order_refl)
  show ?thesis
  proof (cases "i = Suc j")
    case False
    then have "cmp_of f (ks ! Suc j) (ks ! i) \<le> 0" using leaf_sorted [OF l] j by simp
    then show ?thesis using less_trans s by blast
  qed (use s in simp)
qed

lemma leaf_prev_below:
  assumes l: "leaf_ok f E s h ks" and j: "cmp_of f key (ks ! Suc j) = 0" "i \<le> j" "Suc j < length ks"
    and n: "inp (pdb E) (mem h) (2 * j) \<noteq> inp (pdb E) (mem h) (2 * Suc j)"
  shows "0 < cmp_of f key (ks ! i)"
proof -
  have "cmp_of f (ks ! j) (ks ! Suc j) < 0"
    using leaf_sorted [OF l, of j "Suc j"] l n j(3) by (auto simp: leaf_ok_def le_less)
  moreover have "cmp_of f (ks ! Suc j) key \<le> 0" using j(1) cmp_le_swap [of "ks ! Suc j" key] by simp
  ultimately have s: "cmp_of f (ks ! j) key < 0" using less_trans by blast
  show ?thesis
  proof (cases "i = j")
    case False
    then have "cmp_of f (ks ! i) (ks ! j) \<le> 0" using leaf_sorted [OF l] j by simp
    then show ?thesis using le_less_trans s cmp_less_swap by blast
  qed (use s cmp_less_swap in simp)
qed

lemma leaf_entries:
  assumes "leaf_ok f E s h ks" "ks \<noteq> []"
  shows "unat (entries h - 2) = 2 * (length ks - 1)"
proof -
  have e: "unat (entries h) = 2 * length ks" using assms(1) by (simp add: leaf_ok_def NUM_ENT_def)
  have "2 \<le> entries h" using e assms(2) by (cases ks) (simp_all add: word_le_nat_alt)
  then show ?thesis using e by (simp add: unat_sub)
qed

lemma dup_edge_spec:
  assumes l: "leaf_ok f E s h ks" and j: "j < length ks" "cmp_of f key (ks ! j) = 0"
  shows "\<exists>j'<length ks. dup_edge fl (pdb E) h (2 * j) = 2 * j' \<and> cmp_of f key (ks ! j') = 0
    \<and> (sr_duplast fl \<longrightarrow> (\<forall>i<length ks. j' < i \<longrightarrow> cmp_of f key (ks ! i) < 0))
    \<and> (sr_dupfirst fl \<longrightarrow> \<not> sr_duplast fl \<longrightarrow> (\<forall>i<j'. 0 < cmp_of f key (ks ! i)))"
proof -
  let ?d = "pdb E"
  have ty: "ptype h = P_LBTREE" "NUM_ENT h = 2 * length ks" using l by (simp_all add: leaf_ok_def)
  show ?thesis
  proof (cases "NUM_ENT h > 2 \<and> (sr_duplast fl \<or> sr_dupfirst fl)")
    case False
    then have "dup_edge fl ?d h (2 * j) = 2 * j" by (simp add: dup_edge_def)
    moreover have "length ks \<le> 1 \<or> \<not> sr_duplast fl \<and> \<not> sr_dupfirst fl" using False ty(2) by auto
    ultimately show ?thesis using j by (intro exI [of _ j]) auto
  next
    case True
    then have n: "length ks > 1" using ty(2) by simp
    show ?thesis
    proof (cases "sr_duplast fl")
      case True
      define i where "i = dup_up ?d (mem h) 2 (unat (entries h - 2)) (\<lambda>_. True) (2 * j)"
      have fs: "dup_edge fl ?d h (2 * j) = i" using True n ty by (simp add: dup_edge_def i_def)
      note u = dup_up_spec [OF i_def [symmetric]]
      have ks: "ks \<noteq> []" using j by auto
      from u [unfolded leaf_entries [OF l ks]] obtain k where k: "i = 2 * j + 2 * k" by blast
      define j' where "j' = j + k"
      have i: "i = 2 * j'" using k by (simp add: j'_def)
      have j': "j' < length ks" "inp ?d (mem h) (2 * j') = inp ?d (mem h) (2 * j)"
        "j' < length ks - 1 \<longrightarrow> inp ?d (mem h) (2 * j') \<noteq> inp ?d (mem h) (2 * Suc j')"
        using u [unfolded leaf_entries [OF l ks]] i j n by auto
      have eq: "cmp_of f key (ks ! j') = 0" using leaf_item_key [OF l j'(1) j(1) j'(2)] j(2) by simp
      have "cmp_of f key (ks ! i) < 0" if "i < length ks" "j' < i" for i
        using leaf_next_above [OF l eq that(2,1)] j'(3) that by auto
      then show ?thesis using fs i j'(1) eq True by (intro exI [of _ j']) auto
    next
      case False
      define i where "i = dup_down ?d (mem h) 2 (\<lambda>_. True) (2 * j)"
      have fs: "dup_edge fl ?d h (2 * j) = i" using False True n ty by (simp add: dup_edge_def i_def)
      note u = dup_down_spec [OF i_def [symmetric]]
      obtain j' where i: "i = 2 * j'" "j' \<le> j" using u by blast
      have j': "j' < length ks" "inp ?d (mem h) (2 * j') = inp ?d (mem h) (2 * j)"
        "0 < j' \<longrightarrow> inp ?d (mem h) (2 * (j' - 1)) \<noteq> inp ?d (mem h) (2 * j')"
        using u i j by (auto simp: diff_mult_distrib2)
      have eq: "cmp_of f key (ks ! j') = 0" using leaf_item_key [OF l j'(1) j(1) j'(2)] j(2) by simp
      have "0 < cmp_of f key (ks ! i)" if "i < j'" for i
        using leaf_prev_below [OF l, of key "j' - 1" i] eq j'(1,3) that by simp
      then show ?thesis using fs i j'(1) eq False by (intro exI [of _ j']) auto
    qed
  qed
qed

lemma found_leaf:
  assumes l: "leaf_ok f E s h ks" and j: "j < length ks" "cmp_of f key (ks ! j) = 0"
    and r: "bam_found (pdb E) fl h (2 * j) = (e, i)"
  shows "if e = 0 then (\<exists>j'. i = 2 * j' \<and> stop_ok f fl (pdb E) h key ks j' True)
    else e = DB_NOTFOUND \<and> none_ok f fl (pdb E) h key ks"
proof -
  let ?d = "pdb E"
  have ty: "ptype h = P_LBTREE" using l by (simp add: leaf_ok_def)
  obtain j1 where j1: "j1 < length ks" "dup_edge fl ?d h (2 * j) = 2 * j1" "cmp_of f key (ks ! j1) = 0"
    and last: "sr_duplast fl \<longrightarrow> (\<forall>i<length ks. j1 < i \<longrightarrow> cmp_of f key (ks ! i) < 0)"
    and first: "sr_dupfirst fl \<longrightarrow> \<not> sr_duplast fl \<longrightarrow> (\<forall>i<j1. 0 < cmp_of f key (ks ! i))"
    using dup_edge_spec [OF l j, of fl] by blast
  show ?thesis
  proof (cases "sr_delno fl")
    case False
    then have "e = 0" "i = 2 * j1" using r j1(2) by (simp_all add: bam_found_def Let_def)
    then show ?thesis using False j1 last first by (auto simp: stop_ok_def)
  next
    case True
    define gone where "gone = (\<lambda>i. item_deleted ?d h (i + 1))"
    define i2 where "i2 = (if sr_duplast fl then dup_down ?d (mem h) 2 gone (2 * j1)
      else dup_up ?d (mem h) 2 (unat (entries h - 2)) gone (2 * j1))"
    have ei: "e = (if gone i2 then DB_NOTFOUND else 0)" "i = i2"
      using r True ty j1(2) by (auto simp: bam_found_def Let_def i2_def gone_def)
    have "\<exists>j2<length ks. i2 = 2 * j2 \<and> inp ?d (mem h) (2 * j2) = inp ?d (mem h) (2 * j1)"
    proof (cases "sr_duplast fl")
      case True
      then have "dup_down ?d (mem h) 2 gone (2 * j1) = i2" by (simp add: i2_def)
      from dup_down_spec [OF this] obtain k where "i2 = 2 * k" "k \<le> j1" "inp ?d (mem h) i2 = inp ?d (mem h) (2 * j1)"
        by blast
      then show ?thesis using j1(1) by (intro exI [of _ k]) auto
    next
      case False
      have ks: "ks \<noteq> []" using j by auto
      from False have "dup_up ?d (mem h) 2 (unat (entries h - 2)) gone (2 * j1) = i2" by (simp add: i2_def)
      from dup_up_spec [OF this, unfolded leaf_entries [OF l ks]] obtain k where
        k: "i2 = 2 * j1 + 2 * k" "inp ?d (mem h) i2 = inp ?d (mem h) (2 * j1)" "i2 \<le> 2 * j1 \<or> i2 < 2 * (length ks - 1) + 2"
        by blast
      have "j1 + k < length ks" using k j1(1) by auto
      then show ?thesis using k(1,2) by (intro exI [of _ "j1 + k"]) auto
    qed
    then obtain j2 where j2: "j2 < length ks" "i2 = 2 * j2" "inp ?d (mem h) (2 * j2) = inp ?d (mem h) (2 * j1)" by blast
    have eq: "cmp_of f key (ks ! j2) = 0" using leaf_item_key [OF l j2(1) j1(1) j2(3)] j1(3) by simp
    show ?thesis
    proof (cases "gone i2")
      case False
      then show ?thesis using ei j2 eq True by (auto simp: stop_ok_def gone_def)
    next
      case gone: True
      then have "e = DB_NOTFOUND" "e \<noteq> 0" using ei(1) by (simp_all add: DB_NOTFOUND_def)
      moreover have "none_ok f fl ?d h key ks"
        using j2(1,2) eq True gone unfolding none_ok_def gone_def by blast
      ultimately show ?thesis by simp
    qed
  qed
qed

text \<open>What the loop does on a leaf.\<close>

lemma page_leaf:
  assumes l: "leaf_ok f (bt_env B) s h ks" and nr: "near f key pl ph (set ks)"
    and fl: "\<not> sr_min fl" "\<not> sr_max fl"
  shows "\<exists>t r pl' ph'. bam_page B s c key fl f h pl ph = Some (t, c, r, pl', ph') \<and> quiet (bt_env B) s t
    \<and> (case r of
         Fails e \<Rightarrow> e \<noteq> 0 \<and> (no_io_errors (bt_env B) \<longrightarrow> e = DB_NOTFOUND \<and> none_ok f fl (pdb (bt_env B)) h key ks)
       | Child i \<Rightarrow> False
       | Stop i ex \<Rightarrow> \<exists>j. i = 2 * j \<and> stop_ok f fl (pdb (bt_env B)) h key ks j ex)"
proof -
  let ?E = "bt_env B"
  have ty: "ptype h = P_LBTREE" "level h = LEAFLEVEL" "NUM_ENT h = 2 * length ks" and pk: "page_keys f ?E s h 2 ks"
    using l by (simp_all add: leaf_ok_def)
  have S: "\<And>j. j < length ks \<Longrightarrow> \<not> unread h j \<Longrightarrow> ks ! j \<in> set ks" by simp
  have "near f key pl ph (window f h ks 0 (0 + length ks) (set ks))"
    using nr by (rule near_mono) (auto simp: window_def)
  moreover have "splits_at f h key ks 0 (0 + length ks)" by (simp add: splits_at_def)
  ultimately obtain t p pl' ph' where
    1: "bam_bsearch B s c key h f 2 (0 * 2) (length ks) pl ph = Some (t, c, p, pl', ph')" "quiet ?E s t"
    and ok: "no_io_errors ?E \<longrightarrow> (\<forall>e. p \<noteq> Bad e)" and fa: "found_at f h key ks 2 (set ks) p pl' ph'"
    using bsearch_finds [OF pk S, of 0 "length ks" key pl ph c] by auto
  define r where "r = (case p of Bad e \<Rightarrow> Fails e
    | Equal i \<Rightarrow> (case bam_found (pdb ?E) fl h i of (e, i') \<Rightarrow> if e \<noteq> 0 then Fails e else Stop i' True)
    | Between i \<Rightarrow> if sr_exact fl then Fails DB_NOTFOUND else Stop i False)"
  have run: "bam_page B s c key fl f h pl ph = Some (t, c, r, pl', ph')"
    using 1(1) ty fl by (simp add: bam_page_def Let_def r_def cong: pos.case_cong)
  have "case r of Fails e \<Rightarrow> e \<noteq> 0 \<and> (no_io_errors ?E \<longrightarrow> e = DB_NOTFOUND \<and> none_ok f fl (pdb ?E) h key ks)
       | Child i \<Rightarrow> False | Stop i ex \<Rightarrow> \<exists>j. i = 2 * j \<and> stop_ok f fl (pdb ?E) h key ks j ex"
  proof (cases p)
    case (Bad e)
    then show ?thesis using fa ok by (auto simp: r_def found_at_def)
  next
    case (Equal i)
    then obtain j where j: "j < length ks" "i = 2 * j" "cmp_of f key (ks ! j) = 0"
      using fa by (auto simp: found_at_def)
    obtain e i' where bf: "bam_found (pdb ?E) fl h (2 * j) = (e, i')" by fastforce
    show ?thesis using found_leaf [OF l j(1,3) bf] Equal j(2) bf by (auto simp: r_def split: if_splits)
  next
    case (Between i)
    then obtain j where j: "j \<le> length ks" "i = 2 * j" "splits_at f h key ks j j"
      using fa by (auto simp: found_at_def)
    show ?thesis
    proof (cases "sr_exact fl")
      case True
      have "cmp_of f key k \<noteq> 0" if "k \<in> set ks" for k
        using that j(3) ty(1) by (auto simp: in_set_conv_nth splits_at_def unread_def P_IBTREE_def P_LBTREE_def) (metis less_irrefl not_le)
      then show ?thesis using True Between by (auto simp: r_def none_ok_def DB_NOTFOUND_def)
    next
      case False
      then show ?thesis using Between j by (auto simp: r_def stop_ok_def)
    qed
  qed
  then show ?thesis using run 1(2) by blast
qed

end

end
