(* ===== verification/Bt_Tree.thy ===== *)
theory Bt_Tree
  imports Bt_Search
begin

text \<open>
  The trees that the pages of a btree hold, and what \<open>__bam_search\<close> finds in them.  \<open>bt_rep\<close> relates the
  pages to a tree of keys, \<open>bt_sorted\<close> is the order of its keys, \<open>located\<close> says that a leaf is the only
  one that can hold a key.  An exact search finds a key exactly when the tree has it, and a search to
  insert finds the place where the key belongs, for every total preorder.
\<close>

section \<open>Trees\<close>

text \<open>The tree that the pages hold: leaves with their keys, internal pages with separators and children.\<close>

datatype bt = Lf u32 "byte list list" | Nd u32 "byte list list" "bt list"

fun bt_pgno :: "bt \<Rightarrow> u32" where
  "bt_pgno (Lf n ks) = n"
| "bt_pgno (Nd n ks ts) = n"

fun bt_leaves :: "bt \<Rightarrow> (u32 \<times> byte list list) list" where
  "bt_leaves (Lf n ks) = [(n, ks)]"
| "bt_leaves (Nd n ks ts) = concat (map bt_leaves ts)"

text \<open>All keys, those that separate children included.\<close>

fun bt_all :: "bt \<Rightarrow> byte list set" where
  "bt_all (Lf n ks) = set ks"
| "bt_all (Nd n ks ts) = set (tl ks) \<union> (\<Union>t \<in> set ts. bt_all t)"

definition bt_keys :: "bt \<Rightarrow> byte list list" where
  "bt_keys t = concat (map snd (bt_leaves t))"

text \<open>The pages hold the tree, of a height.\<close>

primrec bt_rep ::
    "(byte list \<Rightarrow> byte list \<Rightarrow> int) option \<Rightarrow> penv \<Rightarrow> pager \<Rightarrow> nat \<Rightarrow> bt \<Rightarrow> bool" where
  "bt_rep f E s 0 t = False"
| "bt_rep f E s (Suc l) t =
     (pages s (bt_pgno t) \<noteq> None \<and> unat (level (pg_of s (bt_pgno t))) = Suc l
      \<and> (case t of
           Lf n ks \<Rightarrow> l = 0 \<and> leaf_ok f E s (pg_of s n) ks
         | Nd n ks ts \<Rightarrow> 0 < l \<and> ptype (pg_of s n) = P_IBTREE \<and> NUM_ENT (pg_of s n) = length ks \<and> length ts = length ks
             \<and> ts \<noteq> [] \<and> page_keys f E s (pg_of s n) 1 ks
             \<and> (\<forall>j<length ts. bi_pgno (mem (pg_of s n)) (inp (pdb E) (mem (pg_of s n)) j) = bt_pgno (ts ! j))
             \<and> (\<forall>t \<in> set ts. bt_rep f E s l t)))"

text \<open>A separator is above the child on its left and at most the child on its right.\<close>

fun bt_sorted :: "(byte list \<Rightarrow> byte list \<Rightarrow> int) option \<Rightarrow> bt \<Rightarrow> bool" where
  "bt_sorted f (Lf n ks) = True"
| "bt_sorted f (Nd n ks ts) =
     ((\<forall>i j. 0 < i \<longrightarrow> i < j \<longrightarrow> j < length ks \<longrightarrow> cmp_of f (ks ! i) (ks ! j) < 0)
      \<and> (\<forall>j<length ts. \<forall>k \<in> bt_all (ts ! j).
           (0 < j \<longrightarrow> cmp_of f (ks ! j) k \<le> 0) \<and> (Suc j < length ts \<longrightarrow> cmp_of f k (ks ! Suc j) < 0))
      \<and> (\<forall>t \<in> set ts. bt_sorted f t))"

lemma bt_rep_same: "same_pages s u \<Longrightarrow> bt_rep f E u l t = bt_rep f E s l t"
proof (induction l arbitrary: t)
  case (Suc l)
  then have "pages u = pages s" "\<And>n. pg_of u n = pg_of s n" by (simp_all add: same_pages_def pg_of_def)
  moreover have "page_keys f E u h w ks = page_keys f E s h w ks" "leaf_ok f E u h ks = leaf_ok f E s h ks" for h w ks
    using Suc.prems by (simp_all add: page_keys_def key_for_same leaf_ok_same)
  ultimately show ?case using Suc.IH [OF Suc.prems] by (simp split: bt.split)
qed simp

lemma bt_rep_notin: "bt_rep f E s l t \<Longrightarrow> pages s (bt_pgno t) \<noteq> None"
  by (cases l) auto

text \<open>The leaf to which the separators of the internal pages lead.\<close>

lemma nth_size_less [termination_simp]: "j < length ts \<Longrightarrow> size (ts ! j) < Suc (size_list size ts)"
  using size_list_estimation' [OF nth_mem order_refl, of j ts size] by (simp add: le_imp_less_Suc)

fun routed :: "(byte list \<Rightarrow> byte list \<Rightarrow> int) option \<Rightarrow> byte list \<Rightarrow> bt \<Rightarrow> u32 \<Rightarrow> bool" where
  "routed f key (Lf m ks) n \<longleftrightarrow> m = n"
| "routed f key (Nd m ks ts) n \<longleftrightarrow>
     (\<exists>j \<in> {..<length ts}. (0 < j \<longrightarrow> cmp_of f (ks ! j) key \<le> 0) \<and> (Suc j < length ts \<longrightarrow> cmp_of f key (ks ! Suc j) < 0)
        \<and> routed f key (ts ! j) n)"

text \<open>
  The leaf to which a key is routed, with the keys on its left below the key and those on its right
  above it.
\<close>

definition located ::
    "(byte list \<Rightarrow> byte list \<Rightarrow> int) option \<Rightarrow> byte list \<Rightarrow> bt \<Rightarrow> (u32 \<Rightarrow> byte list list \<Rightarrow> bool) \<Rightarrow> bool" where
  "located f key t Q \<longleftrightarrow>
     (\<exists>us n ks vs. bt_leaves t = us @ (n, ks) # vs \<and> Q n ks \<and> routed f key t n
        \<and> (\<forall>k \<in> set (concat (map snd us)). 0 < cmp_of f key k)
        \<and> (\<forall>k \<in> set (concat (map snd vs)). cmp_of f key k < 0))"

lemma located_Lf [simp]: "located f key (Lf n ks) Q = Q n ks"
  by (auto simp: located_def Cons_eq_append_conv)

lemma leaf_keys_all: "set (bt_keys t) \<subseteq> bt_all t"
proof (induction t rule: bt_leaves.induct)
  case (2 n ks ts)
  have "set (bt_keys (Nd n ks ts)) = (\<Union>t \<in> set ts. set (bt_keys t))"
    by (auto simp: bt_keys_def)
  then show ?case using 2 by auto
qed (simp add: bt_keys_def)

lemma leaves_split:
  assumes "j < length ts"
  shows "concat (map bt_leaves ts) = concat (map bt_leaves (take j ts)) @ bt_leaves (ts ! j) @ concat (map bt_leaves (drop (Suc j) ts))"
proof -
  have "ts = take j ts @ ts ! j # drop (Suc j) ts" using assms by (rule id_take_nth_drop)
  then have "concat (map bt_leaves ts) = concat (map bt_leaves (take j ts @ ts ! j # drop (Suc j) ts))" by simp
  then show ?thesis by simp
qed

lemma located_child:
  assumes "located f key (ts ! j) Q" "j < length ts"
    and "0 < j \<Longrightarrow> cmp_of f (ks ! j) key \<le> 0" "Suc j < length ts \<Longrightarrow> cmp_of f key (ks ! Suc j) < 0"
    and "\<And>i k. i < j \<Longrightarrow> k \<in> bt_all (ts ! i) \<Longrightarrow> 0 < cmp_of f key k"
    and "\<And>i k. j < i \<Longrightarrow> i < length ts \<Longrightarrow> k \<in> bt_all (ts ! i) \<Longrightarrow> cmp_of f key k < 0"
  shows "located f key (Nd n ks ts) Q"
proof -
  obtain us m l vs where
    1: "bt_leaves (ts ! j) = us @ (m, l) # vs" "Q m l" "\<forall>k \<in> set (concat (map snd us)). 0 < cmp_of f key k"
      "\<forall>k \<in> set (concat (map snd vs)). cmp_of f key k < 0" and ro: "routed f key (ts ! j) m"
    using assms(1) by (auto simp: located_def)
  have ro: "routed f key (Nd n ks ts) m" using assms(2-4) ro by auto
  define us' where "us' = concat (map bt_leaves (take j ts)) @ us"
  define vs' where "vs' = vs @ concat (map bt_leaves (drop (Suc j) ts))"
  have "bt_leaves (Nd n ks ts) = us' @ (m, l) # vs'"
    using leaves_split [OF assms(2)] 1(1) by (simp add: us'_def vs'_def)
  moreover have "0 < cmp_of f key k" if k: "k \<in> set (concat (map snd us'))" for k
  proof (cases "k \<in> set (concat (map snd us))")
    case False
    then have "\<exists>t \<in> set (take j ts). k \<in> set (bt_keys t)" using k by (auto simp: us'_def bt_keys_def)
    then obtain t where t: "t \<in> set (take j ts)" "k \<in> set (bt_keys t)" by blast
    from t(1) obtain i where "i < j" "t = ts ! i" by (auto simp: in_set_conv_nth)
    then show ?thesis using assms(5) leaf_keys_all t(2) by blast
  qed (use 1(3) in blast)
  moreover have "cmp_of f key k < 0" if k: "k \<in> set (concat (map snd vs'))" for k
  proof (cases "k \<in> set (concat (map snd vs))")
    case False
    then have "\<exists>t \<in> set (drop (Suc j) ts). k \<in> set (bt_keys t)" using k by (auto simp: vs'_def bt_keys_def)
    then obtain t where t: "t \<in> set (drop (Suc j) ts)" "k \<in> set (bt_keys t)" by blast
    from t(1) obtain i where "i < length ts - Suc j" "t = ts ! (Suc j + i)" by (auto simp: in_set_conv_nth)
    moreover have "k \<in> bt_all t" using subsetD [OF leaf_keys_all t(2)] .
    ultimately show ?thesis using assms(6) [of "Suc j + i" k] by simp
  qed (use 1(4) in blast)
  ultimately show ?thesis using 1(2) ro unfolding located_def by blast
qed

section \<open>The descent finds the place of the key\<close>

definition search_post ::
    "(byte list \<Rightarrow> byte list \<Rightarrow> int) option \<Rightarrow> penv \<Rightarrow> sflags \<Rightarrow> byte list \<Rightarrow> bt \<Rightarrow> pager \<Rightarrow> pager \<Rightarrow> int
      \<Rightarrow> (u32 \<times> nat \<times> bool) option \<Rightarrow> bool" where
  "search_post f E fl key t s u e r \<longleftrightarrow>
     same_pages s u \<and> (e = 0 \<longleftrightarrow> r \<noteq> None)
   \<and> ((\<forall>k. put_io E k = 0) \<longrightarrow> m_locks u = m_locks s
        \<and> pins u = (\<lambda>m. pins s m - (if m = bt_pgno t then 1 else 0) + (if \<exists>i ex. r = Some (m, i, ex) then 1 else 0)))
   \<and> (case r of
        None \<Rightarrow> no_io_errors E \<longrightarrow> e = DB_NOTFOUND \<and> located f key t (\<lambda>n ks. none_ok f fl (pdb E) (pg_of s n) key ks)
      | Some (n, i, ex) \<Rightarrow>
          located f key t (\<lambda>m ks. m = n \<and> (\<exists>j. i = 2 * j \<and> stop_ok f fl (pdb E) (pg_of s n) key ks j ex)))"

lemma search_err_spec:
  assumes "search_err E s (Some n) None ret = (t, e)" "ret \<noteq> 0"
  shows "same_pages s t" "e = ret" "(\<forall>k. put_io E k = 0) \<Longrightarrow> m_locks t = m_locks s \<and> pins t = (pins s)(n := pins s n - 1)"
proof -
  obtain s1 t1 where 1: "memp_fput E s n = (s1, t1)" by fastforce
  have "t = s1" "e = keep ret t1" using assms(1) 1 by (simp_all add: search_err_def)
  then show "same_pages s t" "e = ret" "(\<forall>k. put_io E k = 0) \<Longrightarrow> m_locks t = m_locks s \<and> pins t = (pins s)(n := pins s n - 1)"
    using memp_fput_spec(1-4) [OF 1] assms(2) by (auto simp: keep_def)
qed

lemma search_err_same:
  "search_err E s g p ret = (t, e) \<Longrightarrow> ret \<noteq> 0 \<Longrightarrow> same_pages s t \<and> e \<noteq> 0"
  by (auto simp: search_err_def Let_def keep_def split: option.splits prod.splits dest!: memp_fput_spec(1) intro: same_pages_trans)

context key_order
begin

lemma child_window:
  assumes "bt_sorted f (Nd n ks ts)" "j < length ts" "length ts = length ks" "ptype h = P_IBTREE"
  shows "bt_all (ts ! j) \<subseteq> window f h ks (Suc j) (Suc j) (bt_all (Nd n ks ts))"
proof
  fix k assume k: "k \<in> bt_all (ts ! j)"
  have lo: "0 < j \<longrightarrow> cmp_of f (ks ! j) k \<le> 0" and hi: "Suc j < length ts \<longrightarrow> cmp_of f k (ks ! Suc j) < 0"
    using assms(1,2) k by auto
  have st: "0 < i \<Longrightarrow> i < i' \<Longrightarrow> i' < length ks \<Longrightarrow> cmp_of f (ks ! i) (ks ! i') < 0" for i i'
    using assms(1) by simp
  have "cmp_of f (ks ! i) k \<le> 0" if "i < Suc j" "\<not> unread h i" for i
  proof (cases "i = j")
    case False
    then have "cmp_of f (ks ! i) (ks ! j) < 0" "cmp_of f (ks ! j) k \<le> 0"
      using st [of i j] lo that assms(2-4) by (auto simp: unread_def)
    then show ?thesis using trans by (metis order_less_imp_le)
  qed (use that lo assms(4) in \<open>auto simp: unread_def\<close>)
  moreover have "cmp_of f k (ks ! i) \<le> 0" if "Suc j \<le> i" "i < length ks" for i
  proof (cases "i = Suc j")
    case False
    then have "cmp_of f k (ks ! Suc j) < 0" "cmp_of f (ks ! Suc j) (ks ! i) < 0"
      using st [of "Suc j" i] hi that assms(3) by auto
    then show ?thesis using less_trans by (metis order_less_imp_le)
  qed (use that hi assms(3) in auto)
  moreover have "k \<in> bt_all (Nd n ks ts)" using k assms(2) by auto
  ultimately show "k \<in> window f h ks (Suc j) (Suc j) (bt_all (Nd n ks ts))" by (auto simp: window_def)
qed

text \<open>What the loop does on an internal page.\<close>

definition child_ok :: "byte list \<Rightarrow> byte list list \<Rightarrow> bt list \<Rightarrow> nat \<Rightarrow> nat \<Rightarrow> nat \<Rightarrow> bool" where
  "child_ok key ks ts pl ph j \<longleftrightarrow>
     j < length ts \<and> near f key pl ph (bt_all (ts ! j))
   \<and> (0 < j \<longrightarrow> cmp_of f (ks ! j) key \<le> 0) \<and> (Suc j < length ts \<longrightarrow> cmp_of f key (ks ! Suc j) < 0)
   \<and> (\<forall>i k. i < j \<longrightarrow> k \<in> bt_all (ts ! i) \<longrightarrow> 0 < cmp_of f key k)
   \<and> (\<forall>i k. j < i \<longrightarrow> i < length ts \<longrightarrow> k \<in> bt_all (ts ! i) \<longrightarrow> cmp_of f key k < 0)"

lemma child_okI:
  assumes "bt_sorted f (Nd n ks ts)" "j < length ts" "length ts = length ks" "ptype h = P_IBTREE"
    and "near f key pl ph (window f h ks (Suc j) (Suc j) (bt_all (Nd n ks ts)))"
    and "0 < j \<Longrightarrow> cmp_of f (ks ! j) key \<le> 0" "Suc j < length ts \<Longrightarrow> cmp_of f key (ks ! Suc j) < 0"
  shows "child_ok key ks ts pl ph j"
proof -
  have st: "0 < i \<Longrightarrow> i < i' \<Longrightarrow> i' < length ks \<Longrightarrow> cmp_of f (ks ! i) (ks ! i') < 0" for i i'
    using assms(1) by simp
  have "0 < cmp_of f key k" if "i < j" "k \<in> bt_all (ts ! i)" for i k
  proof -
    have a: "cmp_of f k (ks ! Suc i) < 0" using assms(1,2) that by auto
    have b: "cmp_of f (ks ! Suc i) key \<le> 0"
    proof (cases "Suc i = j")
      case False
      then have "cmp_of f (ks ! Suc i) (ks ! j) < 0" "cmp_of f (ks ! j) key \<le> 0"
        using st [of "Suc i" j] that assms(2,3,6) by auto
      then show ?thesis using less_trans by (metis order_less_imp_le)
    qed (use assms(6) that in auto)
    show ?thesis using less_trans [OF a b] cmp_less_swap by blast
  qed
  moreover have "cmp_of f key k < 0" if "j < i" "i < length ts" "k \<in> bt_all (ts ! i)" for i k
  proof -
    have a: "cmp_of f (ks ! i) k \<le> 0" using assms(1) that by auto
    have b: "cmp_of f key (ks ! i) < 0"
    proof (cases "i = Suc j")
      case False
      then have "cmp_of f (ks ! Suc j) (ks ! i) < 0" "cmp_of f key (ks ! Suc j) < 0"
        using st [of "Suc j" i] that assms(3,7) by auto
      then show ?thesis using less_trans by (metis order_less_imp_le)
    qed (use assms(7) that in auto)
    show ?thesis using less_trans [OF b a] .
  qed
  moreover have "near f key pl ph (bt_all (ts ! j))"
    using near_mono [OF assms(5) child_window [OF assms(1-4)]] .
  ultimately show ?thesis using assms(2,6,7) by (auto simp: child_ok_def)
qed

lemma page_node:
  assumes rep: "bt_rep f (bt_env B) s (Suc l) (Nd n ks ts)" and so: "bt_sorted f (Nd n ks ts)"
    and nr: "near f key pl ph (bt_all (Nd n ks ts))" and fl: "\<not> sr_min fl" "\<not> sr_max fl"
  shows "\<exists>t r pl' ph'. bam_page B s c key fl f (pg_of s n) pl ph = Some (t, c, r, pl', ph') \<and> quiet (bt_env B) s t
    \<and> (case r of Fails e \<Rightarrow> e \<noteq> 0 \<and> \<not> no_io_errors (bt_env B) | Stop i ex \<Rightarrow> False | Child i \<Rightarrow> child_ok key ks ts pl' ph' i)"
proof -
  let ?E = "bt_env B" and ?h = "pg_of s n" and ?S = "bt_all (Nd n ks ts)"
  have ty: "ptype ?h = P_IBTREE" "NUM_ENT ?h = length ks" "length ts = length ks" "ts \<noteq> []" "level ?h \<noteq> LEAFLEVEL"
    and pk: "page_keys f ?E s ?h 1 ks"
    using rep by (auto simp: LEAFLEVEL_def)
  have S: "ks ! j \<in> ?S" if "j < length ks" "\<not> unread ?h j" for j
  proof -
    have "j \<noteq> 0" using that(2) ty(1) by (auto simp: unread_def)
    then obtain i where "j = Suc i" by (cases j) auto
    then have "ks ! j = tl ks ! i" "i < length (tl ks)" using that by (auto simp: nth_tl)
    then have "ks ! j \<in> set (tl ks)" by (metis nth_mem)
    then show ?thesis by simp
  qed
  have "near f key pl ph (window f ?h ks 0 (0 + length ks) ?S)" using nr by (rule near_mono) (auto simp: window_def)
  moreover have "splits_at f ?h key ks 0 (0 + length ks)" by (simp add: splits_at_def)
  ultimately obtain t p pl' ph' where
    1: "bam_bsearch B s c key ?h f 1 (0 * 1) (length ks) pl ph = Some (t, c, p, pl', ph')" "quiet ?E s t"
    and ok: "no_io_errors ?E \<longrightarrow> (\<forall>e. p \<noteq> Bad e)" and fa: "found_at f ?h key ks 1 ?S p pl' ph'"
    using bsearch_finds [OF pk, of ?S 0 "length ks" key pl ph c] S by (metis (no_types, lifting) add_0 le_refl)
  define r where "r = (case p of Bad e \<Rightarrow> Fails e | Equal i \<Rightarrow> Child i | Between i \<Rightarrow> Child (if i > 0 then i - 1 else i))"
  have run: "bam_page B s c key fl f ?h pl ph = Some (t, c, r, pl', ph')"
  proof -
    have "ptype ?h \<noteq> P_LBTREE" using ty(1) by (simp add: P_IBTREE_def P_LBTREE_def)
    then show ?thesis using 1(1) ty fl by (simp add: bam_page_def Let_def r_def cong: pos.case_cong)
  qed
  have "case r of Fails e \<Rightarrow> e \<noteq> 0 \<and> \<not> no_io_errors ?E | Stop i ex \<Rightarrow> False | Child i \<Rightarrow> child_ok key ks ts pl' ph' i"
  proof (cases p)
    case (Bad e)
    then show ?thesis using fa ok by (auto simp: r_def found_at_def)
  next
    case (Equal i)
    then have j: "i < length ks" "\<not> unread ?h i" "cmp_of f key (ks ! i) = 0" "near f key pl' ph' (window f ?h ks i (Suc i) ?S)"
      using fa by (auto simp: found_at_def)
    have i0: "0 < i" using j(2) ty(1) by (cases i) (auto simp: unread_def)
    have "window f ?h ks (Suc i) (Suc i) ?S \<subseteq> window f ?h ks i (Suc i) ?S" by (rule window_mono) auto
    then have nr': "near f key pl' ph' (window f ?h ks (Suc i) (Suc i) ?S)" using near_mono j(4) by blast
    have a: "cmp_of f (ks ! i) key \<le> 0" using j(3) cmp_le_swap by simp
    have b: "cmp_of f key (ks ! Suc i) < 0" if "Suc i < length ts"
    proof -
      have "cmp_of f (ks ! i) (ks ! Suc i) < 0" using so i0 that ty(3) by simp
      then show ?thesis using le_less_trans j(3) by (metis order_refl)
    qed
    show ?thesis using child_okI [OF so _ ty(3,1) nr' a b] j(1) ty(3) Equal by (simp add: r_def)
  next
    case (Between i)
    then have j: "i \<le> length ks" "splits_at f ?h key ks i i" "near f key pl' ph' (window f ?h ks i i ?S)"
      using fa by (auto simp: found_at_def)
    have "i \<noteq> 0"
    proof
      assume "i = 0"
      moreover have "0 < length ks" using ty(3,4) by (cases ts) auto
      ultimately show False using j(2) ty(1) by (auto simp: splits_at_def unread_def)
    qed
    then obtain m where m: "i = Suc m" by (cases i) auto
    have a: "cmp_of f (ks ! m) key \<le> 0" if "0 < m"
      using j(2) that m cmp_less_swap [of "ks ! m" key] by (auto simp: splits_at_def unread_def)
    have b: "cmp_of f key (ks ! Suc m) < 0" if "Suc m < length ts"
      using j(2) that m ty(3) by (auto simp: splits_at_def)
    show ?thesis using child_okI [OF so _ ty(3,1) _ a b] j(1,3) m ty(3) Between by (simp add: r_def)
  qed
  then show ?thesis using run 1(2) by blast
qed

lemma descend_finds:
  assumes "bt_rep f (bt_env B) s l t" "bt_sorted f t" "near f key pl ph (bt_all t)" "\<not> sr_min fl" "\<not> sr_max fl"
  shows "\<exists>u e r. bam_descend B s c key fl f (bt_pgno t) pl ph = Some (u, c, e, r) \<and> search_post f (bt_env B) fl key t s u e r"
  using assms
proof (induction l arbitrary: s t pl ph)
  case (Suc l)
  let ?E = "bt_env B" and ?h = "pg_of s (bt_pgno t)"
  note dsc = bam_descend.simps [of B s c key fl f "bt_pgno t" pl ph]
  show ?case
  proof (cases t)
    case (Lf n ks)
    have l: "leaf_ok f ?E s (pg_of s n) ks" using Suc.prems(1) Lf by simp
    have ty: "ptype (pg_of s n) = P_LBTREE" using l by (simp add: leaf_ok_def)
    have "near f key pl ph (set ks)" using Suc.prems(3) Lf by simp
    from page_leaf [OF l this Suc.prems(4,5), of c] obtain s1 r pl' ph' where
      1: "bam_page B s c key fl f (pg_of s n) pl ph = Some (s1, c, r, pl', ph')" "quiet ?E s s1"
      and res: "case r of
         Fails e \<Rightarrow> e \<noteq> 0 \<and> (no_io_errors ?E \<longrightarrow> e = DB_NOTFOUND \<and> none_ok f fl (pdb ?E) (pg_of s n) key ks)
       | Child i \<Rightarrow> False | Stop i ex \<Rightarrow> \<exists>j. i = 2 * j \<and> stop_ok f fl (pdb ?E) (pg_of s n) key ks j ex"
      by blast
    have sp: "same_pages s s1" using 1(2) by (simp add: quiet_def)
    show ?thesis
    proof (cases r)
      case (Fails e)
      obtain u e' where 2: "search_err ?E s1 (Some n) None e = (u, e')" by fastforce
      have e: "e \<noteq> 0" "e' = e" using res Fails search_err_spec(2) [OF 2] by auto
      have "bam_descend B s c key fl f (bt_pgno t) pl ph = Some (u, c, e, None)"
        using dsc Lf ty 1(1) Fails 2 e by (simp add: Let_def)
      moreover have "search_post f ?E fl key t s u e None"
        using e res Fails Lf search_err_spec(1,3) [OF 2 e(1)] sp 1(2)
        by (auto simp: search_post_def quiet_def intro: same_pages_trans)
      ultimately show ?thesis by blast
    next
      case (Stop i ex)
      have "bam_descend B s c key fl f (bt_pgno t) pl ph = Some (s1, c, 0, Some (n, i, ex))"
        using dsc Lf ty 1(1) Stop by (simp add: Let_def)
      moreover have "search_post f ?E fl key t s s1 0 (Some (n, i, ex))"
        using res Stop Lf sp 1(2) by (auto simp: search_post_def quiet_def)
      ultimately show ?thesis by blast
    qed (use res in auto)
  next
    case (Nd n ks ts)
    have ty: "ptype (pg_of s n) = P_IBTREE" "NUM_ENT (pg_of s n) \<noteq> 0"
      and ch: "\<And>j. j < length ts \<Longrightarrow> bi_pgno (mem (pg_of s n)) (inp (pdb ?E) (mem (pg_of s n)) j) = bt_pgno (ts ! j)"
      and sub: "\<And>j. j < length ts \<Longrightarrow> bt_rep f ?E s l (ts ! j)"
      using Suc.prems(1) Nd by auto
    from page_node [OF Suc.prems(1,2,3) [unfolded Nd] Suc.prems(4,5), of c] obtain s1 r pl' ph' where
      1: "bam_page B s c key fl f (pg_of s n) pl ph = Some (s1, c, r, pl', ph')" "quiet ?E s s1"
      and res: "case r of Fails e \<Rightarrow> e \<noteq> 0 \<and> \<not> no_io_errors ?E | Stop i ex \<Rightarrow> False | Child i \<Rightarrow> child_ok key ks ts pl' ph' i"
      by blast
    have sp: "same_pages s s1" using 1(2) by (simp add: quiet_def)
    show ?thesis
    proof (cases r)
      case (Fails e)
      obtain u e' where 2: "search_err ?E s1 (Some n) None e = (u, e')" by fastforce
      have e: "e \<noteq> 0" "e' = e" using res Fails search_err_spec(2) [OF 2] by auto
      have "bam_descend B s c key fl f (bt_pgno t) pl ph = Some (u, c, e, None)"
        using dsc Nd ty 1(1) Fails 2 e by (simp add: Let_def)
      moreover have "search_post f ?E fl key t s u e None"
        using e res Fails Nd search_err_spec(1,3) [OF 2 e(1)] sp 1(2)
        by (auto simp: search_post_def quiet_def intro: same_pages_trans)
      ultimately show ?thesis by blast
    next
      case (Child j)
      have co: "child_ok key ks ts pl' ph' j" using res Child by simp
      then have j: "j < length ts" and nr: "near f key pl' ph' (bt_all (ts ! j))" by (auto simp: child_ok_def)
      define g where "g = bt_pgno (ts ! j)"
      obtain s2 e2 where 2: "memp_fget ?E s1 g = (s2, e2)" by fastforce
      have sp2: "same_pages s s2" using memp_fget_spec(1) [OF 2] sp same_pages_trans by blast
      have pg: "pages s1 g \<noteq> None" using bt_rep_notin [OF sub [OF j]] sp by (simp add: g_def same_pages_def)
      have run: "bam_descend B s c key fl f (bt_pgno t) pl ph =
        (if e2 \<noteq> 0 then (case search_err ?E s2 None (Some n) e2 of (t, e) \<Rightarrow> Some (t, c, e, None))
         else (case memp_fput ?E s2 n of (s3, e) \<Rightarrow>
           if e \<noteq> 0 then (case search_err ?E s3 (Some g) (Some n) e of (t, e) \<Rightarrow> Some (t, c, e, None))
           else bam_descend B s3 c key fl f g pl' ph'))"
      proof -
        have tn: "bt_pgno t = n" using Nd by simp
        have cg: "bi_pgno (mem (pg_of s n)) (inp (pdb ?E) (mem (pg_of s n)) j) = g" using ch [OF j] by (simp add: g_def)
        show ?thesis
          unfolding dsc unfolding tn Let_def 1(1) [unfolded Child] option.case prod.case turn.case cg 2 using ty by simp
      qed
      show ?thesis
      proof (cases "e2 = 0")
        case False
        obtain u e' where 3: "search_err ?E s2 None (Some n) e2 = (u, e')" by fastforce
        have e: "e' \<noteq> 0" "same_pages s2 u" using search_err_same [OF 3 False] by auto
        obtain u1 t1 where 4: "memp_fput ?E s2 n = (u1, t1)" by fastforce
        have u: "u = u1" using 3 4 by (simp add: search_err_def)
        have "\<not> no_io_errors ?E" using False memp_fget_spec(7) [OF 2] pg by (auto simp: no_io_errors_def)
        moreover have "(\<forall>k. put_io ?E k = 0) \<longrightarrow> m_locks u = m_locks s \<and> pins u = (\<lambda>m. pins s m - (if m = n then 1 else 0))"
          using memp_fget_spec(2,3) [OF 2] False memp_fput_spec(2-4) [OF 4] u 1(2) by (auto simp: quiet_def)
        ultimately have "search_post f ?E fl key t s u e' None"
          using e same_pages_trans [OF sp2 e(2)] Nd by (simp add: search_post_def)
        then show ?thesis using run False 3 by auto
      next
        case True
        obtain s3 e3 where 3: "memp_fput ?E s2 n = (s3, e3)" by fastforce
        have sp3: "same_pages s s3" using memp_fput_spec(1) [OF 3] sp2 same_pages_trans by blast
        show ?thesis
        proof (cases "e3 = 0")
          case False
          obtain u e' where 4: "search_err ?E s3 (Some g) (Some n) e3 = (u, e')" by fastforce
          have e: "e' \<noteq> 0" "same_pages s3 u" using search_err_same [OF 4 False] by auto
          have "\<not> (\<forall>k. put_io ?E k = 0)" using False memp_fput_spec(4) [OF 3] by auto
          then have "search_post f ?E fl key t s u e' None"
            using e same_pages_trans [OF sp3 e(2)] by (auto simp: search_post_def no_io_errors_def)
          then show ?thesis using run True False 3 4 by auto
        next
          case ok3: True
          have rep3: "bt_rep f ?E s3 l (ts ! j)" using sub [OF j] bt_rep_same [OF sp3] by blast
          have so: "bt_sorted f (ts ! j)" using Suc.prems(2) Nd j by simp
          from Suc.IH [OF rep3 so nr Suc.prems(4,5)] obtain u e r' where
            4: "bam_descend B s3 c key fl f g pl' ph' = Some (u, c, e, r')" and
            po: "search_post f ?E fl key (ts ! j) s3 u e r'" by (auto simp: g_def)
          have pg_eq: "pg_of s3 m = pg_of s m" for m using sp3 by (simp add: same_pages_def pg_of_def)
          have lift: "located f key (ts ! j) Q \<Longrightarrow> located f key t Q" for Q
            unfolding Nd using co by (intro located_child [OF _ j]) (auto simp: child_ok_def)
          have pins: "(\<forall>k. put_io ?E k = 0) \<longrightarrow> m_locks s3 = m_locks s
              \<and> pins s3 = (\<lambda>m. pins s m - (if m = n then 1 else 0) + (if m = g then 1 else 0))"
            using memp_fget_spec(2,3) [OF 2] True memp_fput_spec(2-4) [OF 3] ok3 1(2) by (auto simp: quiet_def)
          have "search_post f ?E fl key t s u e r'"
            unfolding search_post_def
          proof (intro conjI impI)
            show "same_pages s u" using po sp3 same_pages_trans unfolding search_post_def by blast
            show "(e = 0) = (r' \<noteq> None)" using po unfolding search_post_def by blast
            assume "\<forall>k. put_io ?E k = 0"
            then show "m_locks u = m_locks s"
              "pins u = (\<lambda>m. pins s m - (if m = bt_pgno t then 1 else 0) + (if \<exists>i ex. r' = Some (m, i, ex) then 1 else 0))"
              using po pins Nd by (auto simp: search_post_def g_def)
          next
            show "case r' of None \<Rightarrow> no_io_errors ?E \<longrightarrow> e = DB_NOTFOUND
                  \<and> located f key t (\<lambda>n ks. none_ok f fl (pdb ?E) (pg_of s n) key ks)
              | Some (n, i, ex) \<Rightarrow> located f key t (\<lambda>m ks. m = n \<and> (\<exists>j. i = 2 * j \<and> stop_ok f fl (pdb ?E) (pg_of s n) key ks j ex))"
              using po lift by (auto simp: search_post_def pg_eq split: option.splits)
          qed
          then show ?thesis using run True ok3 3 4 by auto
        qed
      qed
    qed (use res in auto)
  qed
qed simp

end

section \<open>The whole search\<close>

lemma bam_get_root_spec:
  assumes "bam_get_root E s root fl = (t, e)"
  shows "same_pages s t"
    "(\<forall>k. put_io E k = 0) \<Longrightarrow> m_locks t = m_locks s \<and> pins t = (pins s)(root := pins s root + (if e = 0 then 1 else 0))"
    "no_io_errors E \<Longrightarrow> pages s root \<noteq> None \<Longrightarrow> e = 0"
proof -
  obtain s1 e1 where 1: "memp_fget E s root = (s1, e1)" by fastforce
  obtain s2 e2 g where 2: "memp_dirty E s1 root = (s2, e2, g)" by (cases "memp_dirty E s1 root") auto
  obtain s3 e3 where 3: "memp_fput E s2 root = (s3, e3)" by fastforce
  have t: "(t, e) = (if e1 \<noteq> 0 then (s1, e1)
      else if level (pg_of s1 root) = LEAFLEVEL \<and> sr_write fl then
        (if e2 \<noteq> 0 then (if g then s2 else s3, e2) else (s2, 0))
      else (s1, 0))"
    unfolding assms [symmetric] bam_get_root_def Let_def 1 prod.case 2 3 fst_conv ..
  have sp: "same_pages s s1" "same_pages s s2" "same_pages s s3"
    using memp_fget_spec(1) [OF 1] memp_dirty_spec(1) [OF 2] memp_fput_spec(1) [OF 3] same_pages_trans by blast+
  show "same_pages s t" using t sp by (auto split: if_splits)
  show "m_locks t = m_locks s \<and> pins t = (pins s)(root := pins s root + (if e = 0 then 1 else 0))"
    if "\<forall>k. put_io E k = 0"
    using t memp_fget_spec(2,3) [OF 1] memp_dirty_spec(2,3,4) [OF 2] memp_fput_spec(2,3,4) [OF 3] that
    by (auto split: if_splits)
  show "e = 0" if "no_io_errors E" "pages s root \<noteq> None"
    using t memp_fget_spec(7) [OF 1] memp_dirty_spec(6) [OF 2] that by (auto simp: no_io_errors_def split: if_splits)
qed

text \<open>The result of a search, in the state in which it began.\<close>

definition search_result ::
    "(byte list \<Rightarrow> byte list \<Rightarrow> int) option \<Rightarrow> penv \<Rightarrow> sflags \<Rightarrow> byte list \<Rightarrow> bt \<Rightarrow> pager \<Rightarrow> pager \<Rightarrow> int
      \<Rightarrow> (u32 \<times> nat \<times> bool) option \<Rightarrow> bool" where
  "search_result f E fl key t s u e r \<longleftrightarrow>
     same_pages s u \<and> (e = 0 \<longleftrightarrow> r \<noteq> None)
   \<and> ((\<forall>k. put_io E k = 0) \<longrightarrow> m_locks u = m_locks s
        \<and> pins u = (\<lambda>m. pins s m + (if \<exists>i ex. r = Some (m, i, ex) then 1 else 0)))
   \<and> (case r of
        None \<Rightarrow> no_io_errors E \<longrightarrow> e = DB_NOTFOUND \<and> located f key t (\<lambda>n ks. none_ok f fl (pdb E) (pg_of s n) key ks)
      | Some (n, i, ex) \<Rightarrow>
          located f key t (\<lambda>m ks. m = n \<and> (\<exists>j. i = 2 * j \<and> stop_ok f fl (pdb E) (pg_of s n) key ks j ex)))"

lemma search_finds:
  assumes "key_order f" "bt_rep f (bt_env B) s l t" "bt_sorted f t" "\<not> sr_min fl" "\<not> sr_max fl"
    and "f = (if opd then dup_cmp B else bt_cmp B)"
  shows "\<exists>u e r. bam_search B opd s c (bt_pgno t) key fl = Some (u, c, e, r) \<and> search_result f (bt_env B) fl key t s u e r"
proof -
  let ?E = "bt_env B" and ?n = "bt_pgno t"
  obtain s1 e1 where 1: "bam_get_root ?E s ?n fl = (s1, e1)" by fastforce
  note g = bam_get_root_spec [OF 1]
  show ?thesis
  proof (cases "e1 = 0")
    case False
    then have "bam_search B opd s c ?n key fl = Some (s1, c, e1, None)" using 1 by (simp add: bam_search_def)
    moreover have "\<not> no_io_errors ?E" using g(3) bt_rep_notin [OF assms(2)] False by blast
    then have "search_result f ?E fl key t s s1 e1 None" using g(1,2) False by (auto simp: search_result_def)
    ultimately show ?thesis by blast
  next
    case True
    have rep: "bt_rep f ?E s1 l t" using bt_rep_same [OF g(1)] assms(2) by blast
    have pe: "pg_of s1 = pg_of s" using g(1) by (intro ext) (simp add: same_pages_def pg_of_def)
    have "unat (level (pg_of s1 ?n)) \<noteq> 0" using rep by (cases l) auto
    then have lv: "\<not> level (pg_of s1 ?n) < LEAFLEVEL" by (simp add: LEAFLEVEL_def word_less_nat_alt)
    from key_order.descend_finds [OF assms(1) rep assms(3) near_0 assms(4,5), of c key] obtain u e r where
      2: "bam_descend B s1 c key fl f ?n 0 0 = Some (u, c, e, r)" and po: "search_post f ?E fl key t s1 u e r" by blast
    have "bam_search B opd s c ?n key fl = Some (u, c, e, r)"
      using 1 True 2 lv assms(6) by (simp add: bam_search_def)
    moreover have "search_result f ?E fl key t s u e r"
      unfolding search_result_def
    proof (intro conjI impI)
      show "same_pages s u" using po g(1) same_pages_trans unfolding search_post_def by blast
      show "(e = 0) = (r \<noteq> None)" using po unfolding search_post_def by blast
      assume "\<forall>k. put_io ?E k = 0"
      then show "m_locks u = m_locks s" "pins u = (\<lambda>m. pins s m + (if \<exists>i ex. r = Some (m, i, ex) then 1 else 0))"
        using po g(2) True by (auto simp: search_post_def)
    qed (use po [unfolded search_post_def pe] in blast)
    ultimately show ?thesis by blast
  qed
qed

text \<open>
  The place of a key among the keys of the tree, item \<open>j\<close> of leaf \<open>n\<close>: after all keys that are below it
  and before all that are above it.
\<close>

definition key_place ::
    "(byte list \<Rightarrow> byte list \<Rightarrow> int) option \<Rightarrow> bt \<Rightarrow> byte list \<Rightarrow> u32 \<Rightarrow> nat \<Rightarrow> bool \<Rightarrow> bool" where
  "key_place f t key n j ex \<longleftrightarrow>
     (\<exists>us ks vs. bt_leaves t = us @ (n, ks) # vs
        \<and> (if ex then j < length ks \<and> cmp_of f key (ks ! j) = 0 else j \<le> length ks)
        \<and> (\<forall>k \<in> set (concat (map snd us) @ take j ks). if ex then 0 \<le> cmp_of f key k else 0 < cmp_of f key k)
        \<and> (\<forall>k \<in> set (drop (if ex then Suc j else j) ks @ concat (map snd vs)). cmp_of f key k < 0))"

lemma bt_rep_leaf:
  "bt_rep f E s l t \<Longrightarrow> (n, ks) \<in> set (bt_leaves t) \<Longrightarrow> leaf_ok f E s (pg_of s n) ks"
proof (induction l arbitrary: t)
  case (Suc l)
  show ?case
  proof (cases t)
    case (Nd m ss ts)
    then obtain u where "u \<in> set ts" "(n, ks) \<in> set (bt_leaves u)" using Suc.prems(2) by auto
    then show ?thesis using Suc.IH [of u] Suc.prems(1) Nd by auto
  qed (use Suc.prems in auto)
qed simp

context key_order
begin

lemma located_place:
  assumes rep: "bt_rep f E s l t" and fl: "sr_duplast fl" "\<not> sr_delno fl"
    and loc: "located f key t (\<lambda>m ks. m = n \<and> (\<exists>j. i = 2 * j \<and> stop_ok f fl (pdb E) (pg_of s n) key ks j ex))"
  shows "\<exists>j. i = 2 * j \<and> key_place f t key n j ex"
proof -
  obtain us ks vs j where
    1: "bt_leaves t = us @ (n, ks) # vs" "i = 2 * j" "stop_ok f fl (pdb E) (pg_of s n) key ks j ex"
    and us: "\<forall>k \<in> set (concat (map snd us)). 0 < cmp_of f key k"
    and vs: "\<forall>k \<in> set (concat (map snd vs)). cmp_of f key k < 0"
    using loc unfolding located_def by blast
  have lo: "leaf_ok f E s (pg_of s n) ks" using bt_rep_leaf [OF rep] 1(1) by simp
  have un: "\<not> unread (pg_of s n) m" for m using lo by (simp add: leaf_ok_def unread_def P_IBTREE_def P_LBTREE_def)
  have "key_place f t key n j ex"
  proof (cases ex)
    case True
    then have j: "j < length ks" "cmp_of f key (ks ! j) = 0" and up: "\<forall>i<length ks. j < i \<longrightarrow> cmp_of f key (ks ! i) < 0"
      using 1(3) fl by (auto simp: stop_ok_def)
    have "0 \<le> cmp_of f key k" if k: "k \<in> set (take j ks)" for k
    proof -
      obtain m where m: "m < j" "k = ks ! m" using k j(1) by (auto simp: in_set_conv_nth)
      have "cmp_of f k (ks ! j) \<le> 0" using leaf_sorted [OF lo m(1) j(1)] m(2) by simp
      moreover have "cmp_of f (ks ! j) key \<le> 0" using j(2) cmp_le_swap [of "ks ! j" key] by simp
      ultimately show ?thesis using trans cmp_le_swap by blast
    qed
    moreover have "cmp_of f key k < 0" if "k \<in> set (drop (Suc j) ks)" for k
    proof -
      from that [unfolded in_set_conv_nth] obtain m where "m < length (drop (Suc j) ks)" "drop (Suc j) ks ! m = k" by blast
      then show ?thesis using up by auto
    qed
    ultimately have "(\<forall>k \<in> set (concat (map snd us) @ take j ks). 0 \<le> cmp_of f key k)
      \<and> (\<forall>k \<in> set (drop (Suc j) ks @ concat (map snd vs)). cmp_of f key k < 0)"
      using us vs by (auto intro: order_less_imp_le)
    then show ?thesis using 1(1) j True unfolding key_place_def by auto
  next
    case False
    then have j: "j \<le> length ks" "splits_at f (pg_of s n) key ks j j" using 1(3) by (auto simp: stop_ok_def)
    have "0 < cmp_of f key k" if k: "k \<in> set (take j ks)" for k
    proof -
      obtain m where "m < j" "k = ks ! m" using k j(1) by (auto simp: in_set_conv_nth)
      then show ?thesis using j(2) un by (auto simp: splits_at_def)
    qed
    moreover have "cmp_of f key k < 0" if "k \<in> set (drop j ks)" for k
    proof -
      from that [unfolded in_set_conv_nth] obtain m where "m < length (drop j ks)" "drop j ks ! m = k" by blast
      then show ?thesis using j(2) by (auto simp: splits_at_def)
    qed
    ultimately have "(\<forall>k \<in> set (concat (map snd us) @ take j ks). 0 < cmp_of f key k)
      \<and> (\<forall>k \<in> set (drop j ks @ concat (map snd vs)). cmp_of f key k < 0)"
      using us vs by auto
    then show ?thesis using 1(1) j False unfolding key_place_def by auto
  qed
  then show ?thesis using 1(2) by blast
qed

end

text \<open>A leaf has the key, with data that is not marked deleted.\<close>

definition live_at :: "dbh \<Rightarrow> pager \<Rightarrow> bt \<Rightarrow> byte list \<Rightarrow> u32 \<Rightarrow> nat \<Rightarrow> bool" where
  "live_at d s t key n j \<longleftrightarrow>
     (\<exists>ks. (n, ks) \<in> set (bt_leaves t) \<and> j < length ks \<and> ks ! j = key \<and> \<not> item_deleted d (pg_of s n) (2 * j + 1))"

lemma none_not_live:
  assumes "located None key t (\<lambda>n ks. none_ok None fl d (pg_of s n) key ks)" "distinct (bt_keys t)"
  shows "\<not> live_at d s t key m i"
proof
  assume "live_at d s t key m i"
  then obtain k where m: "(m, k) \<in> set (bt_leaves t)" "i < length k" "k ! i = key" "\<not> item_deleted d (pg_of s m) (2 * i + 1)"
    by (auto simp: live_at_def)
  obtain us n ks vs where leaf: "bt_leaves t = us @ (n, ks) # vs"
    and no: "none_ok None fl d (pg_of s n) key ks" "\<forall>k \<in> set (concat (map snd us)). 0 < lex3 key k"
      "\<forall>k \<in> set (concat (map snd vs)). lex3 key k < 0"
    using assms(1) unfolding located_def cmp_of_default by blast
  have km: "key \<in> set k" using m(2,3) nth_mem by blast
  have out: "key \<notin> set (concat (map snd us))" "key \<notin> set (concat (map snd vs))"
    using no(2,3) lex3_refl [of key] by (metis less_irrefl)+
  have mk: "(m, k) = (n, ks)"
  proof (rule ccontr)
    assume "(m, k) \<noteq> (n, ks)"
    then have "(m, k) \<in> set us \<or> (m, k) \<in> set vs" using m(1) leaf by auto
    then have "key \<in> set (concat (map snd us)) \<or> key \<in> set (concat (map snd vs))" using km by force
    then show False using out by blast
  qed
  have "distinct ks" using assms(2) leaf by (simp add: bt_keys_def)
  moreover have "key \<in> set ks" using km mk by simp
  then obtain j where "j < length ks" "key = ks ! j" "item_deleted d (pg_of s n) (2 * j + 1)"
    using no(1) by (auto simp: none_ok_def cmp_of_default)
  ultimately show False using m mk nth_eq_iff_index_eq by fastforce
qed

section \<open>Properties\<close>

text \<open>C6: the exact search of a get (\<open>DB_SET\<close>), which passes over deleted items, with the default comparison on
  a tree without duplicates: it returns, and unless one of its calls fails it finds the key exactly when a leaf has it
  with data that is not marked deleted, at that item; it leaves the pages alone and keeps one page pinned, that of the item.\<close>

theorem exact_search_finds_key:
  assumes "bt_rep None (bt_env B) s l t" "bt_sorted None t" "bt_cmp B = None" "no_io_errors (bt_env B)"
    and "sr_exact fl" "sr_delno fl" "\<not> sr_min fl" "\<not> sr_max fl" "distinct (bt_keys t)"
  shows "\<exists>u e r. bam_search B False s c (bt_pgno t) key fl = Some (u, c, e, r) \<and> pages u = pages s
    \<and> (if \<exists>n j. live_at (pdb (bt_env B)) s t key n j
       then e = 0 \<and> (\<exists>n j. r = Some (n, 2 * j, True) \<and> live_at (pdb (bt_env B)) s t key n j \<and> pins u = (pins s)(n := pins s n + 1))
       else e = DB_NOTFOUND \<and> r = None \<and> pins u = pins s)"
proof -
  let ?d = "pdb (bt_env B)"
  have f: "None = (if False then dup_cmp B else bt_cmp B)" using assms(3) by simp
  from search_finds [OF default_order.key_order_axioms assms(1,2,7,8) f, of c key] obtain u e r where
    1: "bam_search B False s c (bt_pgno t) key fl = Some (u, c, e, r)" "search_result None (bt_env B) fl key t s u e r"
    by blast
  have ok: "\<forall>k. put_io (bt_env B) k = 0" using assms(4) by (simp add: no_io_errors_def)
  have pins: "pins u = (\<lambda>m. pins s m + (if \<exists>i ex. r = Some (m, i, ex) then 1 else 0))" "pages u = pages s"
    "(e = 0) = (r \<noteq> None)"
    using 1(2) ok by (auto simp: search_result_def same_pages_def)
  show ?thesis
  proof (cases r)
    case None
    then have "located None key t (\<lambda>n ks. none_ok None fl ?d (pg_of s n) key ks)" "e = DB_NOTFOUND"
      using 1(2) assms(4) by (auto simp: search_result_def)
    then have "\<not> live_at ?d s t key n j" for n j using none_not_live assms(9) by blast
    then show ?thesis using 1(1) pins None \<open>e = DB_NOTFOUND\<close> by auto
  next
    case (Some a)
    obtain n i ex where a: "r = Some (n, i, ex)" using Some by (cases a) auto
    then obtain us ks vs j where
      2: "bt_leaves t = us @ (n, ks) # vs" "i = 2 * j" "stop_ok None fl ?d (pg_of s n) key ks j ex"
      using 1(2) by (auto simp: search_result_def located_def)
    have j: "ex" "j < length ks" "ks ! j = key" "\<not> item_deleted ?d (pg_of s n) (2 * j + 1)"
      using 2(3) assms(5,6) by (auto simp: stop_ok_def split: if_splits)
    have "live_at ?d s t key n j" unfolding live_at_def using 2(1) j by auto
    moreover have "pins u = (pins s)(n := pins s n + 1)" using pins(1) a by auto
    ultimately show ?thesis using 1(1) pins(2,3) a 2(2) j(1) by auto
  qed
qed

text \<open>C7: a search to insert, with the default or any user's comparison that is a total
  preorder, returns the place of the key: behind all keys of the tree that are not above it, and
  before all that are.\<close>

theorem insert_search_finds_place:
  assumes "bt_rep (bt_cmp B) (bt_env B) s l t" "bt_sorted (bt_cmp B) t" "key_order (bt_cmp B)"
    and "no_io_errors (bt_env B)" "sr_duplast fl" "\<not> sr_delno fl" "\<not> sr_exact fl" "\<not> sr_min fl" "\<not> sr_max fl"
  shows "\<exists>u n j ex. bam_search B False s c (bt_pgno t) key fl = Some (u, c, 0, Some (n, 2 * j, ex))
    \<and> pages u = pages s \<and> key_place (bt_cmp B) t key n j ex"
proof -
  have f: "bt_cmp B = (if False then dup_cmp B else bt_cmp B)" by simp
  from search_finds [OF assms(3,1,2,8,9) f, of c key] obtain u e r where
    1: "bam_search B False s c (bt_pgno t) key fl = Some (u, c, e, r)"
       "search_result (bt_cmp B) (bt_env B) fl key t s u e r"
    by blast
  have "r \<noteq> None"
  proof
    assume "r = None"
    then have "located (bt_cmp B) key t (\<lambda>n ks. none_ok (bt_cmp B) fl (pdb (bt_env B)) (pg_of s n) key ks)"
      using 1(2) assms(4) by (simp add: search_result_def)
    then show False using assms(6,7) by (auto simp: located_def none_ok_def)
  qed
  then obtain n i ex where r: "r = Some (n, i, ex)" by (cases r) auto
  then have "e = 0" "pages u = pages s" and
    "located (bt_cmp B) key t (\<lambda>m ks. m = n \<and> (\<exists>j. i = 2 * j \<and> stop_ok (bt_cmp B) fl (pdb (bt_env B)) (pg_of s n) key ks j ex))"
    using 1(2) by (auto simp: search_result_def same_pages_def)
  from key_order.located_place [OF assms(3,1,5,6) this(3)] 1(1) r this(1,2) show ?thesis by auto
qed
text \<open>A tree of two leaves of 60 bytes: the keys \<open>A\<close> and \<open>C\<close>, and a root that separates them at \<open>B\<close>.\<close>

definition demo_db :: dbh where "demo_db = \<lparr>pgsize = 60, prot = Plain\<rparr>"

definition demo_handle :: btree_h where
  "demo_handle = \<lparr>bt_env = calm\<lparr>pdb := demo_db\<rparr>, bt_cmp = None, dup_cmp = None, blob = (\<lambda>_ _. Inl 2)\<rparr>"

definition demo_leaf :: "u32 \<Rightarrow> byte \<Rightarrow> page" where
  "demo_leaf n k = \<lparr>lsn = (0, 0), pgno = n, prev_pgno = (if n = 3 then 2 else 0), next_pgno = (if n = 2 then 3 else 0), entries = 2, hf_offset = 52,
     level = 1, ptype = P_LBTREE,
     mem = replicate 26 0 @ [56, 0, 52, 0] @ replicate 22 0 @ [1, 0, 1, 9] @ [1, 0, 1, k]\<rparr>"

definition demo_root :: page where
  "demo_root = \<lparr>lsn = (0, 0), pgno = 1, prev_pgno = 0, next_pgno = 0, entries = 2, hf_offset = 32,
     level = 2, ptype = P_IBTREE,
     mem = replicate 26 0 @ [48, 0, 32, 0] @ replicate 2 0
       @ [1, 0, 1, 0, 3, 0, 0, 0, 0, 0, 0, 0, 66, 0, 0, 0] @ [0, 0, 1, 0, 2, 0, 0, 0, 0, 0, 0, 0]\<rparr>"

definition demo_pages :: pager where
  "demo_pages = \<lparr>pages = [1 \<mapsto> demo_root, 2 \<mapsto> demo_leaf 2 65, 3 \<mapsto> demo_leaf 3 67], m_free = 0, m_last = 3,
     m_lsn = (0, 0), pins = (\<lambda>_. 0), m_locks = 0, tick = 0\<rparr>"

definition demo_tree :: bt where
  "demo_tree = Nd 1 [[], [66]] [Lf 2 [[65]], Lf 3 [[67]]]"

definition demo_find :: sflags where
  "demo_find = \<lparr>sr_write = False, sr_min = False, sr_max = False, sr_exact = True, sr_dupfirst = True, sr_duplast = False,
     sr_delno = True\<rparr>"

definition demo_insert :: sflags where
  "demo_insert = \<lparr>sr_write = True, sr_min = False, sr_max = False, sr_exact = False, sr_dupfirst = False, sr_duplast = True,
     sr_delno = False\<rparr>"

text \<open>What the bytes of the pages say.\<close>

definition leaf_bytes_ok :: "page \<Rightarrow> byte \<Rightarrow> bool" where
  "leaf_bytes_ok h k \<longleftrightarrow>
     B_TYPE (bk_type (mem h) (inp demo_db (mem h) 0)) = 1 \<and> bk_data (mem h) (inp demo_db (mem h) 0) = [k]"

lemma demo_bytes:
  "leaf_bytes_ok (demo_leaf 2 65) 65" "leaf_bytes_ok (demo_leaf 3 67) 67"
  "B_TYPE (bk_type (mem demo_root) (inp demo_db (mem demo_root) 1)) = 1"
  "bi_data (mem demo_root) (inp demo_db (mem demo_root) 1) = [66]"
  "bi_pgno (mem demo_root) (inp demo_db (mem demo_root) 0) = 2"
  "bi_pgno (mem demo_root) (inp demo_db (mem demo_root) 1) = 3"
  by code_simp+

lemma demo_env [simp]: "pdb (bt_env demo_handle) = demo_db" "bt_cmp demo_handle = None" "no_io_errors (bt_env demo_handle)"
  by (simp_all add: demo_handle_def no_io_errors_def calm_def)

lemma demo_leaf_ok:
  assumes "leaf_bytes_ok (demo_leaf n k) k"
  shows "leaf_ok None (bt_env demo_handle) s (demo_leaf n k) [[k]]"
proof -
  have "key_at (bt_env demo_handle) s (demo_leaf n k) 0 [k]"
    using assms by (simp add: key_at_def leaf_bytes_ok_def Let_def B_OVERFLOW_def B_BLOB_def)
      (simp add: demo_leaf_def P_IBTREE_def P_LBTREE_def)
  then have "key_for None (bt_env demo_handle) s (demo_leaf n k) 0 [k]" by (simp add: key_for_def)
  then show ?thesis
    by (simp add: leaf_ok_def page_keys_def unread_def) (simp add: NUM_ENT_def LEAFLEVEL_def demo_leaf_def)
qed

lemma demo_rep: "bt_rep None (bt_env demo_handle) demo_pages 2 demo_tree"
proof -
  have pg: "pg_of demo_pages 1 = demo_root" "pg_of demo_pages 2 = demo_leaf 2 65" "pg_of demo_pages 3 = demo_leaf 3 67"
    "\<exists>h. pages demo_pages 1 = Some h" "\<exists>h. pages demo_pages 2 = Some h" "\<exists>h. pages demo_pages 3 = Some h"
    by (simp_all add: demo_pages_def pg_of_def)
  have ty: "ptype demo_root = P_IBTREE" "unat (level demo_root) = Suc (Suc 0)" "NUM_ENT demo_root = Suc (Suc 0)"
    "unat (level (demo_leaf n k)) = Suc 0" for n k
    by (simp_all add: demo_root_def demo_leaf_def NUM_ENT_def)
  have "key_at (bt_env demo_handle) demo_pages demo_root 1 [66]"
    using demo_bytes(3,4) ty(1) by (simp add: key_at_def Let_def B_OVERFLOW_def)
  then have "page_keys None (bt_env demo_handle) demo_pages demo_root 1 [[], [66]]"
    using ty(1) by (auto simp: page_keys_def key_for_def unread_def less_Suc_eq)
  then have "bt_rep None (bt_env demo_handle) demo_pages (Suc (Suc 0)) demo_tree"
    using demo_leaf_ok demo_bytes by (simp add: demo_tree_def pg ty less_Suc_eq all_conj_distrib)
  then show ?thesis by (simp add: numeral_2_eq_2)
qed

lemma demo_sorted: "bt_sorted None demo_tree"
  by (auto simp: demo_tree_def less_Suc_eq)

theorem exact_search_finds_key_witness:
  "(\<exists>u. bam_search demo_handle False demo_pages no_stream 1 [67] demo_find = Some (u, no_stream, 0, Some (3, 0, True)))
   \<and> (\<exists>u. bam_search demo_handle False demo_pages no_stream 1 [66] demo_find = Some (u, no_stream, DB_NOTFOUND, None))"
proof -
  have k: "bt_keys demo_tree = [[65], [67]]" "bt_pgno demo_tree = 1" "set (bt_leaves demo_tree) = {(2, [[65]]), (3, [[67]])}"
    by (simp_all add: demo_tree_def bt_keys_def)
  have fl: "sr_exact demo_find" "sr_delno demo_find" "\<not> sr_min demo_find" "\<not> sr_max demo_find"
    by (simp_all add: demo_find_def)
  have "\<not> item_deleted demo_db (demo_leaf 3 67) 1" by code_simp
  then have lv: "live_at demo_db demo_pages demo_tree [67] n j \<longleftrightarrow> n = 3 \<and> j = 0" "\<not> live_at demo_db demo_pages demo_tree [66] n j" for n j
    by (cases j; auto simp: live_at_def k demo_pages_def pg_of_def)+
  have d: "distinct (bt_keys demo_tree)" by (simp add: k)
  note r = exact_search_finds_key [OF demo_rep demo_sorted demo_env(2,3) fl d, of no_stream, unfolded k demo_env(1) lv]
  show ?thesis using r [of "[67]"] r [of "[66]"] by (auto simp: lv)
qed

theorem insert_search_finds_place_witness:
  "\<exists>u. bam_search demo_handle False demo_pages no_stream 1 [68] demo_insert = Some (u, no_stream, 0, Some (3, 2, False))"
proof -
  have fl: "sr_duplast demo_insert" "\<not> sr_delno demo_insert" "\<not> sr_exact demo_insert" "\<not> sr_min demo_insert" "\<not> sr_max demo_insert"
    by (simp_all add: demo_insert_def)
  have rep: "bt_rep (bt_cmp demo_handle) (bt_env demo_handle) demo_pages 2 demo_tree" "bt_sorted (bt_cmp demo_handle) demo_tree"
    "key_order (bt_cmp demo_handle)"
    using demo_rep demo_sorted default_order.key_order_axioms by simp_all
  from insert_search_finds_place [OF rep demo_env(3) fl, of no_stream "[68]"] obtain u n j ex where
    1: "bam_search demo_handle False demo_pages no_stream 1 [68] demo_insert = Some (u, no_stream, 0, Some (n, 2 * j, ex))"
    and p: "key_place None demo_tree [68] n j ex"
    by (auto simp: demo_tree_def)
  have "n = 3 \<and> j = 1 \<and> \<not> ex"
    using p by (auto simp: key_place_def demo_tree_def Cons_eq_append_conv le_Suc_eq split: if_splits)
  then show ?thesis using 1 by auto
qed

end
