(* ===== verification/Bt_Item.thy ===== *)
theory Bt_Item
  imports Bt_Tree
begin

text \<open>
  Replacing an item of a btree page in its place: \<open>__bam_ritem\<close> and \<open>__bam_ritem_nolog\<close> of
  \<open>src/db/src/btree/bt_put.c\<close>.  The replacement refines the update of the list of items that the page
  holds; the parts of the two items that are logged give back either of them from the other.
\<close>

section \<open>The code\<close>

definition BINTERNAL_SIZE :: "nat \<Rightarrow> nat" where
  "BINTERNAL_SIZE len = ((len + 12 + 3) div 4 * 4) mod 65536"

definition BOVERFLOW_SIZE :: nat where "BOVERFLOW_SIZE = 12"
definition BOVERFLOW_PSIZE :: nat where "BOVERFLOW_PSIZE = BOVERFLOW_SIZE + 2"

text \<open>The room for the new item: the items below it are moved, and their indices are adjusted.\<close>

definition shift_indices :: "dbh \<Rightarrow> nat \<Rightarrow> nat \<Rightarrow> int \<Rightarrow> byte list \<Rightarrow> byte list" where
  "shift_indices d n off nbytes m =
     foldl (\<lambda>m cnt. if inp d m cnt \<le> off then set_inp d cnt (nat ((int (inp d m cnt) + nbytes) mod 65536)) m else m)
       m [0..<n]"

definition ritem_room :: "dbh \<Rightarrow> page \<Rightarrow> nat \<Rightarrow> nat \<Rightarrow> nat \<Rightarrow> page \<times> nat" where
  "ritem_room d pg indx lo ln =
     (let m = mem pg; p = unat (hf_offset pg); t = inp d m indx; nbytes = int lo - int ln in
      if lo = ln then (pg, t)
      else (let m' = (if p = t then set_inp d indx (nat ((int t + nbytes) mod 65536)) m
                      else (let m1 = memmove_in (nat (int p + nbytes)) p (t - p) m
                            in shift_indices d (unat (entries pg)) (inp d m1 indx) nbytes m1))
            in (pg\<lparr>hf_offset := hf_offset pg + word_of_int nbytes, mem := m'\<rparr>, nat (int t + nbytes))))"

definition bam_ritem_nolog :: "dbh \<Rightarrow> page \<Rightarrow> nat \<Rightarrow> byte list option \<Rightarrow> byte list option \<Rightarrow> byte \<Rightarrow> page" where
  "bam_ritem_nolog d pg indx hdr data ty =
     (let m = mem pg; t = inp d m indx; h = (case hdr of None \<Rightarrow> [] | Some x \<Rightarrow> x); x = (case data of None \<Rightarrow> [] | Some x \<Rightarrow> x) in
      if ptype pg = P_IBTREE then
        (let lo = BINTERNAL_SIZE (bk_len m t);
             ln = (if data = None then BINTERNAL_SIZE (le_dec (take 2 h)) else BINTERNAL_SIZE (length x));
             (pg1, t1) = ritem_room d pg indx lo ln;
             m1 = buf_write t1 h (mem pg1)
         in pg1\<lparr>mem := if x \<noteq> [] then buf_write (t1 + 12) x m1 else m1\<rparr>)
      else
        (let (pg1, t1) = ritem_room d pg indx (BKEYDATA_SIZE (bk_len m t)) (BKEYDATA_SIZE (length x));
             len = length x mod 65536
         in pg1\<lparr>mem := buf_write t1 (le_enc 2 len @ [B_TYPE ty] @ take len x) (mem pg1)\<rparr>))"

text \<open>What is logged: the lengths of the prefix and the suffix that the two items share, and the rest of both.\<close>

record repl_rec =
  r_indx :: nat
  r_deleted :: bool
  r_orig :: "byte list"
  r_repl :: "byte list"
  r_prefix :: nat
  r_suffix :: nat

definition repl_diff :: "nat \<Rightarrow> byte \<Rightarrow> byte list \<Rightarrow> byte list \<Rightarrow> repl_rec" where
  "repl_diff indx ty dp data =
     (let mn = (if length data < length dp then length data else length dp);
          prefix = lcp (take mn dp) data;
          suffix = lcp (take (mn - prefix) (rev dp)) (rev data)
      in \<lparr>r_indx = indx, r_deleted = B_DISSET ty,
          r_orig = buf_read prefix (length dp - (prefix + suffix)) dp,
          r_repl = buf_read prefix (length data - (prefix + suffix)) data,
          r_prefix = prefix, r_suffix = suffix\<rparr>)"

definition bam_ritem :: "(int + u32 \<times> u32) option \<Rightarrow> dbh \<Rightarrow> page \<Rightarrow> nat \<Rightarrow> byte list \<Rightarrow> (page \<times> repl_rec option) res" where
  "bam_ritem log d pg indx data =
     (let m = mem pg; t = inp d m indx; ty = bk_type m t; go = (\<lambda>p. bam_ritem_nolog d p indx None (Some data) ty) in
      case log of
        None \<Rightarrow> Done (go (pg\<lparr>lsn := LSN_NOT_LOGGED\<rparr>), None)
      | Some (Inl ret) \<Rightarrow> Fail ret
      | Some (Inr l) \<Rightarrow> Done (go (pg\<lparr>lsn := l\<rparr>), Some (repl_diff indx ty (bk_data m t) data)))"

section \<open>Replacing an item\<close>

lemma ritem_room_same:
  "lo = ln \<Longrightarrow> ritem_room d pg k lo ln = (pg, inp d (mem pg) k)"
  by (simp add: ritem_room_def Let_def)

text \<open>
  The memory after room was made: every item below the old one moves with its index, by the
  difference of the sizes.
\<close>

definition moved :: "dbh \<Rightarrow> page \<Rightarrow> nat \<Rightarrow> nat \<Rightarrow> nat \<Rightarrow> nat \<Rightarrow> byte list \<Rightarrow> bool" where
  "moved d pg n k lo ln m' \<longleftrightarrow>
     (let m = mem pg; h = unat (hf_offset pg); off = inp d m k in
      length m' = length m
    \<and> (\<forall>i<n. inp d m' i = (if inp d m i \<le> off then inp d m i + lo - ln else inp d m i))
    \<and> (\<forall>j<length m. P_OVERHEAD d + 2 * n \<le> j \<longrightarrow>
         m' ! j = (if h + lo - ln \<le> j \<and> j < off + lo - ln then m ! (j + ln - lo) else m ! j)))"

lemma ritem_room_moved:
  assumes h: "holds d pg items" and k: "k < length items" and lo: "lo = length (items ! k)"
    and room: "P_OVERHEAD d + 2 * length items + ln \<le> unat (hf_offset pg) + lo" and ln: "0 < ln"
  shows "\<exists>q. ritem_room d pg k lo ln = (q, inp d (mem pg) k + lo - ln) \<and> moved d pg (length items) k lo ln (mem q)
    \<and> unat (hf_offset q) = unat (hf_offset pg) + lo - ln
    \<and> entries q = entries pg \<and> ptype q = ptype pg \<and> level q = level pg \<and> pgno q = pgno pg"
proof (cases "lo = ln")
  case True
  then show ?thesis by (auto simp: ritem_room_def Let_def moved_def)
next
  case False
  let ?m = "mem pg" and ?h = "unat (hf_offset pg)" and ?o = "P_OVERHEAD d" and ?n = "length items"
  let ?off = "inp d ?m k" and ?nb = "int lo - int ln"
  note H = holdsD [OF h] and I = items_atD [OF holdsD(7) [OF h]]
  have koff: "?h \<le> ?off" "?off + lo \<le> pgsize d" "0 < lo" using I [OF k] H(1) lo by auto
  have low: "inp d ?m i + length (items ! i) \<le> ?off \<or> ?off + lo \<le> inp d ?m i" if "i < ?n" "i \<noteq> k" for i
    using items_at_apart [OF H(7) that(1) k that(2)] lo by (simp add: apart_def)
  have nat_add: "nat ((int a + ?nb) mod 65536) = a + lo - ln" if "?h \<le> a" "a \<le> ?off" for a
  proof -
    have b: "ln \<le> a + lo" "int a + ?nb < 65536" using that room koff H(2) ln by linarith+
    then have "(int a + ?nb) mod 65536 = int a + ?nb" by (intro mod_pos_pos_trivial) auto
    then show ?thesis using b(1) by linarith
  qed
  have t: "nat (int ?off + ?nb) = ?off + lo - ln" "nat (int ?h + ?nb) = ?h + lo - ln"
  proof -
    have n: "nat (int a + ?nb) = a + lo - ln" if "ln \<le> a + lo" for a using that by linarith
    show "nat (int ?off + ?nb) = ?off + lo - ln" "nat (int ?h + ?nb) = ?h + lo - ln"
      by (rule n; use room koff in linarith)+
  qed
  define m' where "m' = (if ?h = ?off then set_inp d k (nat ((int ?off + ?nb) mod 65536)) ?m
     else (let m1 = memmove_in (nat (int ?h + ?nb)) ?h (?off - ?h) ?m in shift_indices d ?n (inp d m1 k) ?nb m1))"
  have run: "ritem_room d pg k lo ln = (pg\<lparr>hf_offset := hf_offset pg + word_of_int ?nb, mem := m'\<rparr>, ?off + lo - ln)"
    unfolding ritem_room_def Let_def m'_def H(3) t using False by simp
  have hf: "unat (hf_offset pg + word_of_int ?nb) = ?h + lo - ln"
  proof -
    have "hf_offset pg + word_of_int ?nb = word_of_int (int ?h + ?nb)" by simp
    also have "\<dots> = word_of_nat (?h + lo - ln)" using room by (simp add: of_nat_diff)
    finally show ?thesis using koff H(2) ln by (simp add: unat_of_nat)
  qed
  have "moved d pg ?n k lo ln m'"
  proof (cases "?h = ?off")
    case True
    have m': "m' = set_inp d k (?off + lo - ln) ?m" using True nat_add [of ?off] koff(1) by (simp add: m'_def)
    have b: "?o + 2 * i + 2 \<le> length ?m" if "i < ?n" for i using that H(1,4,5) by linarith
    have v: "?off + lo - ln < 65536" using koff H(2) ln by linarith
    have above: "?off < inp d ?m i" if "i < ?n" "i \<noteq> k" for i
    proof -
      have "items ! i \<noteq> []" "?h \<le> inp d ?m i" using I [OF that(1)] by auto
      then show ?thesis using low [OF that] True koff(3) by (cases "items ! i") auto
    qed
    have ix: "inp d m' i = (if inp d ?m i \<le> ?off then inp d ?m i + lo - ln else inp d ?m i)" if "i < ?n" for i
      using above [OF that] unfolding m' inp_set_inp [OF b [OF k] b [OF that] v] by auto
    have bm: "m' ! j = ?m ! j" if "j < length ?m" "?o + 2 * ?n \<le> j" for j
      using that k unfolding m' nth_set_inp [OF b [OF k] that(1)] by auto
    have "\<not> (?h + lo - ln \<le> j \<and> j < ?off + lo - ln)" for j using True by linarith
    then show ?thesis using ix bm b [OF k] unfolding moved_def Let_def by (auto simp: m')
  next
    case ne: False
    define m1 where "m1 = memmove_in (?h + lo - ln) ?h (?off - ?h) ?m"
    have sz: "?h + (?off - ?h) \<le> length ?m" "?h + lo - ln + (?off - ?h) \<le> length ?m" using koff H(1) ln room by auto
    have l1: "length m1 = length ?m" using sz by (simp add: m1_def)
    have b1: "m1 ! j = (if ?h + lo - ln \<le> j \<and> j < ?off + lo - ln then ?m ! (j + ln - lo) else ?m ! j)" if "j < length ?m" for j
    proof -
      have e: "?h + lo - ln + (?off - ?h) = ?off + lo - ln" using koff room by auto
      have "?h + (j - (?h + lo - ln)) = j + ln - lo" if "?h + lo - ln \<le> j" using that room by auto
      then show ?thesis unfolding m1_def nth_memmove [OF sz that] e by auto
    qed
    have i1: "inp d m1 i = inp d ?m i" if "i < ?n" for i
      using that H(1,4,5) room b1 by (intro inp_cong) auto
    have m': "m' = foldl (\<lambda>m cnt. if inp d m cnt \<le> ?off then set_inp d cnt (nat ((int (inp d m cnt) + ?nb) mod 65536)) m else m)
        m1 [0..<?n]"
      unfolding m'_def Let_def shift_indices_def t m1_def [symmetric] i1 [OF k] using ne by simp
    have small: "nat ((int (inp d m1 i) + ?nb) mod 65536) < 65536" for i by (simp add: nat_less_iff)
    have "?o + 2 * ?n \<le> length m1" using l1 H(1,4,5) by linarith
    from foldl_inp_spec [OF this, of "\<lambda>a. a \<le> ?off" "\<lambda>a. nat ((int a + ?nb) mod 65536)", OF small refl m']
    have sp: "length m' = length m1"
      "\<forall>i<?n. inp d m' i = (if inp d m1 i \<le> ?off then nat ((int (inp d m1 i) + ?nb) mod 65536) else inp d m1 i)"
      "\<forall>j<length m1. ?o + 2 * ?n \<le> j \<or> j < ?o \<longrightarrow> m' ! j = m1 ! j" by blast+
    have "inp d m' i = (if inp d ?m i \<le> ?off then inp d ?m i + lo - ln else inp d ?m i)" if "i < ?n" for i
      using sp(2) i1 [OF that] nat_add [of "inp d ?m i"] I(2) [OF that] that by auto
    then show ?thesis using sp(1,3) l1 b1 unfolding moved_def Let_def by auto
  qed
  then show ?thesis using run hf by auto
qed

lemma apart_moved:
  "apart a la b lb \<Longrightarrow> apart a la off lo \<Longrightarrow> apart b lb off lo \<Longrightarrow> la \<noteq> 0 \<Longrightarrow> lb \<noteq> 0 \<Longrightarrow> lo \<noteq> 0 \<Longrightarrow> ln \<le> a + lo \<Longrightarrow> ln \<le> b + lo \<Longrightarrow>
    apart (if a \<le> off then a + lo - ln else a) la (if b \<le> off then b + lo - ln else b) lb"
  by (auto simp: apart_def)

lemma sum_list_update: "k < length xs \<Longrightarrow> sum_list (map length (xs[k := x])) + length (xs ! k) = sum_list (map length xs) + length x"
  by (induction xs arbitrary: k) (auto split: nat.splits)

lemma replace_refines:
  assumes h: "holds d pg items" and k: "k < length items" and lo: "lo = length (items ! k)"
    and room: "P_OVERHEAD d + 2 * length items + ln \<le> unat (hf_offset pg) + lo" and ln: "0 < ln"
    and w: "length w \<le> ln" and r: "ritem_room d pg k lo ln = (q, t)"
    and q': "q' = q\<lparr>mem := buf_write t w (mem q)\<rparr>"
  shows "\<exists>it. holds d q' (items[k := it]) \<and> length it = ln \<and> take (length w) it = w
    \<and> ptype q' = ptype pg \<and> level q' = level pg \<and> pgno q' = pgno pg \<and> entries q' = entries pg"
proof -
  let ?m = "mem pg" and ?h = "unat (hf_offset pg)" and ?o = "P_OVERHEAD d" and ?n = "length items"
  let ?off = "inp d ?m k"
  note H = holdsD [OF h] and I = items_atD [OF holdsD(7) [OF h]]
  have koff: "?h \<le> ?off" "?off + lo \<le> pgsize d" "0 < lo" using I [OF k] H(1) lo by auto
  have low: "inp d ?m i + length (items ! i) \<le> ?off \<or> ?off + lo \<le> inp d ?m i" if "i < ?n" "i \<noteq> k" for i
    using items_at_apart [OF H(7) that(1) k that(2)] lo by (simp add: apart_def)
  from ritem_room_moved [OF h k lo room ln] r have
    t: "t = ?off + lo - ln" and mv: "moved d pg ?n k lo ln (mem q)" and hf: "unat (hf_offset q) = ?h + lo - ln"
    and q: "entries q = entries pg" "ptype q = ptype pg" "level q = level pg" "pgno q = pgno pg" by auto
  have tn: "t + ln = ?off + lo" using t room koff by linarith
  have lq: "length (mem q) = pgsize d" and iq: "\<And>i. i < ?n \<Longrightarrow> inp d (mem q) i = (if inp d ?m i \<le> ?off then inp d ?m i + lo - ln else inp d ?m i)"
    and bq: "\<And>j. j < pgsize d \<Longrightarrow> ?o + 2 * ?n \<le> j \<Longrightarrow>
      mem q ! j = (if ?h + lo - ln \<le> j \<and> j < ?off + lo - ln then ?m ! (j + ln - lo) else ?m ! j)"
    using mv H(1) by (auto simp: moved_def Let_def)
  define m' where "m' = mem q'"
  have fit: "t + length w \<le> length (mem q)" using w tn koff lq by linarith
  have l': "length m' = pgsize d" using fit lq by (simp add: m'_def q')
  have b': "m' ! j = (if t \<le> j \<and> j < t + length w then w ! (j - t) else mem q ! j)" if "j < pgsize d" for j
    unfolding m'_def q' using nth_buf_write [OF fit, of j] that lq by simp
  have hlow: "?o + 2 * ?n \<le> ?h + lo - ln" "?h + lo - ln \<le> t" using room koff t by linarith+
  have i': "inp d m' i = inp d (mem q) i" if "i < ?n" for i
    using that hlow b' H(5) koff room by (intro inp_cong) auto
  define it where "it = buf_read t ln m'"
  have lit: "length it = ln" using tn koff l' by (simp add: it_def)
  have wit: "take (length w) it = w"
  proof (rule nth_equalityI)
    show "length (take (length w) it) = length w" using lit w by simp
    fix j assume "j < length (take (length w) it)"
    then have j: "j < length w" "j < ln" using lit w by auto
    then show "take (length w) it ! j = w ! j"
      using b' [of "t + j"] tn koff l' by (simp add: it_def nth_buf_read)
  qed
  define ad where "ad = (\<lambda>a. if a \<le> ?off then a + lo - ln else a)"
  have ii: "inp d m' i = ad (inp d ?m i)" if "i < ?n" for i using i' [OF that] iq [OF that] by (simp add: ad_def)
  have adk: "ad ?off = t" by (simp add: ad_def t)
  have rd: "buf_read (ad (inp d ?m i)) (length (items ! i)) m' = items ! i" if i: "i < ?n" "i \<noteq> k" for i
  proof -
    define a where "a = inp d ?m i"
    have R: "?h \<le> a" "a + length (items ! i) \<le> pgsize d" "buf_read a (length (items ! i)) ?m = items ! i" "items ! i \<noteq> []"
      using I [OF i(1)] H(1) by (auto simp: a_def)
    have "buf_read (ad a) (length (items ! i)) m' = buf_read a (length (items ! i)) ?m"
    proof (cases "a \<le> ?off")
      case True
      then have up: "a + length (items ! i) \<le> ?off" using low [OF i] R(4) koff(3) by (auto simp: a_def)
      have ada: "ad a = a + lo - ln" using True by (simp add: ad_def)
      show ?thesis
      proof (rule buf_read_cong)
        show "ad a + length (items ! i) \<le> length m'" using ada up tn koff l' t by linarith
        show "a + length (items ! i) \<le> length ?m" using R H(1) by simp
        fix u assume u: "u < length (items ! i)"
        have j: "ad a + u < pgsize d" "?h + lo - ln \<le> ad a + u" "ad a + u < t" "ad a + u + ln - lo = a + u"
          "?o + 2 * ?n \<le> ad a + u"
          using ada up u R(1) koff room t hlow by linarith+
        show "m' ! (ad a + u) = ?m ! (a + u)"
          using b' [OF j(1)] bq [OF j(1,5)] j t by simp
      qed
    next
      case False
      then have dn: "?off + lo \<le> a" using low [OF i] R(4) by (cases "items ! i") (auto simp: a_def)
      have ada: "ad a = a" using False by (simp add: ad_def)
      show ?thesis
      proof (rule buf_read_cong)
        show "ad a + length (items ! i) \<le> length m'" using ada R l' by simp
        show "a + length (items ! i) \<le> length ?m" using R H(1) by simp
        fix u assume u: "u < length (items ! i)"
        have j: "a + u < pgsize d" "\<not> a + u < ?off + lo - ln" "\<not> a + u < t + length w" "?o + 2 * ?n \<le> a + u"
          using dn u R tn w H(4) by linarith+
        show "m' ! (ad a + u) = ?m ! (a + u)" using b' [OF j(1)] bq [OF j(1,4)] j(2,3) ada by simp
      qed
    qed
    then show ?thesis using R(3) by (simp add: a_def)
  qed
  have ln': "ln \<le> inp d ?m i + lo" if "i < ?n" for i using I(2) [OF that] room by linarith
  have ak: "apart (inp d ?m i) (length (items ! i)) ?off lo" if "i < ?n" "i \<noteq> k" for i
    using items_at_apart [OF H(7) that(1) k that(2)] lo by simp
  have akn: "apart (ad (inp d ?m i)) (length (items ! i)) t ln" if i: "i < ?n" "i \<noteq> k" for i
    using low [OF i] tn t ln' [OF i(1)] I(1) [OF i(1)] koff(3) by (auto simp: ad_def apart_def)
  define items' where "items' = items[k := it]"
  have l'': "length items' = ?n" by (simp add: items'_def)
  have it': "items' ! j = (if j = k then it else items ! j)" if "j < ?n" for j using that by (simp add: items'_def)
  have "items_at d m' (?h + lo - ln) items'"
    unfolding items_at_def l''
  proof (intro conjI allI impI)
    fix j assume j: "j < ?n"
    show "items' ! j \<noteq> []" using it' [OF j] lit ln I(1) [OF j] by (cases "j = k") auto
    show "?h + lo - ln \<le> inp d m' j"
    proof (cases "j = k")
      case False
      then show ?thesis using ii [OF j] I(2) [OF j] low [OF j False] koff(1) by (auto simp: ad_def)
    qed (use ii [OF j] adk hlow(2) in simp)
    show "inp d m' j + length (items' ! j) \<le> length m'"
    proof (cases "j = k")
      case True
      then show ?thesis using ii [OF j] it' [OF j] adk lit tn koff l' by simp
    next
      case False
      then have "ad (inp d ?m j) + length (items ! j) \<le> pgsize d"
        using low [OF j False] I(3) [OF j] H(1) koff t tn ln' [OF j] by (auto simp: ad_def)
      then show ?thesis using ii [OF j] it' [OF j] False l' by simp
    qed
    show "buf_read (inp d m' j) (length (items' ! j)) m' = items' ! j"
      using ii [OF j] it' [OF j] rd [OF j] adk lit by (cases "j = k") (auto simp: it_def)
  next
    fix i j assume ij: "i < ?n" "j < ?n" "i \<noteq> j"
    have sym: "apart a la b lb = apart b lb a la" for a la b lb by (auto simp: apart_def)
    show "apart (inp d m' i) (length (items' ! i)) (inp d m' j) (length (items' ! j))"
    proof (cases "i = k \<or> j = k")
      case True
      then show ?thesis
        using ii [OF ij(1)] ii [OF ij(2)] it' [OF ij(1)] it' [OF ij(2)] adk lit akn [OF ij(1)] akn [OF ij(2)] ij(3) sym
        by (cases "i = k") auto
    next
      case False
      then show ?thesis
        using ii [OF ij(1)] ii [OF ij(2)] it' [OF ij(1)] it' [OF ij(2)] items_at_apart [OF H(7) ij]
          apart_moved [of "inp d ?m i" "length (items ! i)" "inp d ?m j" "length (items ! j)" ?off lo ln]
          ak [OF ij(1)] ak [OF ij(2)] I(1) [OF ij(1)] I(1) [OF ij(2)] koff(3) ln' ij by (simp add: ad_def)
    qed
  qed
  moreover have "?h + lo - ln + sum_list (map length items') = pgsize d"
    using sum_list_update [OF k, of it] lit H(6) lo room by (simp add: items'_def)
  ultimately have "holds d q' items'"
    using H(2,3) l' l'' hlow(1) hf q unfolding holds_def m'_def by (simp add: q')
  then show ?thesis using lit wit q unfolding items'_def by (auto simp: q')
qed

section \<open>Key and data items\<close>

text \<open>An item of a leaf that holds bytes, with its type byte, and padding.\<close>

definition bk_item :: "byte \<Rightarrow> byte list \<Rightarrow> byte list \<Rightarrow> bool" where
  "bk_item ty xs it \<longleftrightarrow>
     length xs + 6 < 65536 \<and> length it = BKEYDATA_SIZE (length xs) \<and> take (3 + length xs) it = le_enc 2 (length xs) @ [ty] @ xs"

lemma BKEYDATA_SIZE_bounds:
  assumes "n + 6 < 65536"
  shows "n + 3 \<le> BKEYDATA_SIZE n" "BKEYDATA_SIZE n < n + 7" "BKEYDATA_SIZE n < 65536" "0 < BKEYDATA_SIZE n"
proof -
  have "BKEYDATA_SIZE n = (n + 6) div 4 * 4" using assms by (simp add: BKEYDATA_SIZE_def)
  then show "n + 3 \<le> BKEYDATA_SIZE n" "BKEYDATA_SIZE n < n + 7" "BKEYDATA_SIZE n < 65536" "0 < BKEYDATA_SIZE n"
    using assms by presburger+
qed

lemma le_dec_enc2: "n < 65536 \<Longrightarrow> le_dec (le_enc 2 n) = n"
  by (simp add: le_dec_enc)

lemma bk_itemD:
  assumes "bk_item ty xs it"
  shows "3 + length xs \<le> length it" "take 2 it = le_enc 2 (length xs)" "it ! 2 = ty" "take (length xs) (drop 3 it) = xs"
    "it \<noteq> []"
proof -
  have t: "take (3 + length xs) it = le_enc 2 (length xs) @ [ty] @ xs" and n: "length xs + 6 < 65536"
    and l: "length it = BKEYDATA_SIZE (length xs)" using assms by (auto simp: bk_item_def)
  show len: "3 + length xs \<le> length it" using BKEYDATA_SIZE_bounds(1) [OF n] l by simp
  have e: "le_enc 2 (length xs) = [word_of_nat (length xs mod 256), word_of_nat (length xs div 256 mod 256)]" by (rule le_enc2)
  have "take 2 it = take 2 (take (3 + length xs) it)" by simp
  then show "take 2 it = le_enc 2 (length xs)" unfolding t e by simp
  have "it ! 2 = take (3 + length xs) it ! 2" by simp
  then show "it ! 2 = ty" unfolding t e by simp
  have "take (length xs) (drop 3 it) = drop 3 (take (3 + length xs) it)" by (simp add: drop_take)
  then show "take (length xs) (drop 3 it) = xs" unfolding t e by simp
  show "it \<noteq> []" using len by auto
qed

text \<open>Reading an item of a page from its bytes.\<close>

lemma holds_read:
  assumes "holds d pg items" "k < length items" "a + len \<le> length (items ! k)"
  shows "buf_read (inp d (mem pg) k + a) len (mem pg) = take len (drop a (items ! k))"
proof -
  note I = items_atD [OF holdsD(7) [OF assms(1)] assms(2)]
  have "take len (drop a (buf_read (inp d (mem pg) k) (length (items ! k)) (mem pg))) = buf_read (inp d (mem pg) k + a) len (mem pg)"
    using assms(3) by (simp add: buf_read_def drop_take add.commute)
  then show ?thesis using I(4) by simp
qed

lemma holds_nth:
  assumes "holds d pg items" "k < length items" "a < length (items ! k)"
  shows "mem pg ! (inp d (mem pg) k + a) = items ! k ! a"
proof -
  note I = items_atD [OF holdsD(7) [OF assms(1)] assms(2)]
  have "buf_read (inp d (mem pg) k) (length (items ! k)) (mem pg) ! a = mem pg ! (inp d (mem pg) k + a)"
    using assms(3) I(3) by (simp add: nth_buf_read)
  then show ?thesis using I(4) by simp
qed

lemma bk_item_read:
  assumes "holds d pg items" "k < length items" "bk_item ty xs (items ! k)"
  shows "bk_len (mem pg) (inp d (mem pg) k) = length xs" "bk_type (mem pg) (inp d (mem pg) k) = ty"
    "bk_data (mem pg) (inp d (mem pg) k) = xs"
proof -
  note b = bk_itemD [OF assms(3)]
  have n: "length xs < 65536" using assms(3) by (simp add: bk_item_def)
  show l: "bk_len (mem pg) (inp d (mem pg) k) = length xs"
    using holds_read [OF assms(1,2), of 0 2] b(1,2) le_dec_enc2 [OF n] by (simp add: bk_len_def)
  show "bk_type (mem pg) (inp d (mem pg) k) = ty"
    using holds_nth [OF assms(1,2), of 2] b(1,3) by (simp add: bk_type_def)
  show "bk_data (mem pg) (inp d (mem pg) k) = xs"
    using holds_read [OF assms(1,2), of 3 "length xs"] b(1,4) by (simp add: bk_data_def l)
qed

text \<open>Replacing one.\<close>

lemma holds_lsn [simp]: "holds d (pg\<lparr>lsn := l\<rparr>) items = holds d pg items"
  by (simp add: holds_def)

lemma ritem_nolog_items:
  assumes h: "holds d pg items" and k: "k < length items" and ty: "ptype pg \<noteq> P_IBTREE"
    and old: "bk_item t old (items ! k)" and n: "length xs + 6 < 65536"
    and room: "P_OVERHEAD d + 2 * length items + BKEYDATA_SIZE (length xs) \<le> unat (hf_offset pg) + length (items ! k)"
  shows "\<exists>it. holds d (bam_ritem_nolog d pg k None (Some xs) t) (items[k := it]) \<and> bk_item (B_TYPE t) xs it
    \<and> ptype (bam_ritem_nolog d pg k None (Some xs) t) = ptype pg \<and> level (bam_ritem_nolog d pg k None (Some xs) t) = level pg
    \<and> pgno (bam_ritem_nolog d pg k None (Some xs) t) = pgno pg \<and> lsn (bam_ritem_nolog d pg k None (Some xs) t) = lsn pg"
proof -
  let ?lo = "length (items ! k)" and ?ln = "BKEYDATA_SIZE (length xs)"
  let ?w = "le_enc 2 (length xs) @ [B_TYPE t] @ xs"
  have lo: "BKEYDATA_SIZE (bk_len (mem pg) (inp d (mem pg) k)) = ?lo"
    using bk_item_read(1) [OF h k old] old by (simp add: bk_item_def)
  obtain q p where r: "ritem_room d pg k ?lo ?ln = (q, p)" by fastforce
  have run: "bam_ritem_nolog d pg k None (Some xs) t = q\<lparr>mem := buf_write p ?w (mem q)\<rparr>"
    using ty n unfolding bam_ritem_nolog_def Let_def lo by (simp add: r)
  have w: "length ?w \<le> ?ln" using BKEYDATA_SIZE_bounds(1) [OF n] by (simp add: le_enc2)
  obtain it where it: "holds d (q\<lparr>mem := buf_write p ?w (mem q)\<rparr>) (items[k := it])" "length it = ?ln" "take (length ?w) it = ?w"
    "ptype q = ptype pg" "level q = level pg" "pgno q = pgno pg"
    using replace_refines [OF h k refl room BKEYDATA_SIZE_bounds(4) [OF n] w r refl] by auto
  have "length ?w = 3 + length xs" by (simp add: le_enc2)
  then have "bk_item (B_TYPE t) xs it" using it(2,3) n by (simp add: bk_item_def numeral_3_eq_3)
  moreover have "lsn q = lsn pg" using r by (auto simp: ritem_room_def Let_def split: if_splits)
  ultimately show ?thesis using it unfolding run by auto
qed

lemma ritem_items:
  assumes h: "holds d pg items" and k: "k < length items" and ty: "ptype pg \<noteq> P_IBTREE"
    and old: "bk_item t old (items ! k)" and n: "length xs + 6 < 65536"
    and room: "P_OVERHEAD d + 2 * length items + BKEYDATA_SIZE (length xs) \<le> unat (hf_offset pg) + length (items ! k)"
    and lg: "\<not> (\<exists>e. lg = Some (Inl e))"
  shows "\<exists>q it. bam_ritem lg d pg k xs = Done (q, if lg = None then None else Some (repl_diff k t old xs))
    \<and> holds d q (items[k := it]) \<and> bk_item (B_TYPE t) xs it \<and> ptype q = ptype pg \<and> level q = level pg \<and> pgno q = pgno pg
    \<and> lsn q = (case lg of Some (Inr l) \<Rightarrow> l | _ \<Rightarrow> LSN_NOT_LOGGED)"
proof -
  have r: "\<exists>it. holds d (bam_ritem_nolog d (pg\<lparr>lsn := l\<rparr>) k None (Some xs) t) (items[k := it]) \<and> bk_item (B_TYPE t) xs it
    \<and> ptype (bam_ritem_nolog d (pg\<lparr>lsn := l\<rparr>) k None (Some xs) t) = ptype pg
    \<and> level (bam_ritem_nolog d (pg\<lparr>lsn := l\<rparr>) k None (Some xs) t) = level pg
    \<and> pgno (bam_ritem_nolog d (pg\<lparr>lsn := l\<rparr>) k None (Some xs) t) = pgno pg
    \<and> lsn (bam_ritem_nolog d (pg\<lparr>lsn := l\<rparr>) k None (Some xs) t) = l" for l
    using ritem_nolog_items [of d "pg\<lparr>lsn := l\<rparr>" items k t old xs] assms by simp
  note b = bk_item_read [OF h k old]
  show ?thesis
  proof (cases lg)
    case None
    show ?thesis using r [of LSN_NOT_LOGGED] by (auto simp: None bam_ritem_def Let_def b)
  next
    case (Some x)
    then obtain l where "x = Inr l" using lg by (cases x) auto
    then show ?thesis using r [of l] by (auto simp: Some bam_ritem_def Let_def b)
  qed
qed

text \<open>The bytes of a page that are in use, and the room for an item that they leave.\<close>

definition page_used :: "dbh \<Rightarrow> byte list list \<Rightarrow> nat" where
  "page_used d items = P_OVERHEAD d + 2 * length items + sum_list (map length items)"

lemma used_room: "holds d pg items \<Longrightarrow> page_used d items + n \<le> pgsize d \<Longrightarrow> P_OVERHEAD d + 2 * length items + n \<le> unat (hf_offset pg)"
  using holdsD(6) [of d pg items] by (simp add: page_used_def)

section \<open>The logged difference\<close>

text \<open>The item that recovery builds from an item on the page and the logged part of the other.\<close>

definition rebuild :: "nat \<Rightarrow> nat \<Rightarrow> byte list \<Rightarrow> byte list \<Rightarrow> byte list" where
  "rebuild prefix suffix part dp = take prefix dp @ part @ buf_read (length dp - suffix) suffix dp"

lemma lcp_take_eq: "n \<le> lcp xs ys \<Longrightarrow> take n xs = take n ys"
proof (induction xs ys arbitrary: n rule: lcp.induct)
  case (1 x xs y ys)
  then show ?case by (cases n) (auto split: if_splits)
qed auto

lemma rev_suffix_eq:
  assumes "n \<le> lcp (rev xs) (rev ys)" "n \<le> length xs" "n \<le> length ys"
  shows "drop (length xs - n) xs = drop (length ys - n) ys"
  using lcp_take_eq [OF assms(1)] by (simp add: take_rev)

lemma lcp_take_le: "lcp (take n xs) ys \<le> lcp xs ys"
proof (induction xs ys arbitrary: n rule: lcp.induct)
  case (1 x xs y ys)
  then show ?case by (cases n) auto
qed auto

lemma rebuild_diff:
  assumes "repl_diff indx ty dp data = r"
  shows "rebuild (r_prefix r) (r_suffix r) (r_repl r) dp = data"
    and "rebuild (r_prefix r) (r_suffix r) (r_orig r) data = dp"
proof -
  define mn where "mn = (if length data < length dp then length data else length dp)"
  define p where "p = lcp (take mn dp) data"
  define s where "s = lcp (take (mn - p) (rev dp)) (rev data)"
  have r: "r_prefix r = p" "r_suffix r = s" "r_orig r = buf_read p (length dp - (p + s)) dp"
    "r_repl r = buf_read p (length data - (p + s)) data"
    unfolding assms [symmetric] repl_diff_def Let_def mn_def [symmetric] p_def [symmetric] s_def [symmetric] by simp_all
  have mn: "mn \<le> length dp" "mn \<le> length data" by (auto simp: mn_def)
  have p: "p \<le> mn" "p \<le> lcp dp data" using lcp_le(1) [of "take mn dp" data] lcp_take_le [of mn dp data] mn by (auto simp: p_def)
  have s: "s \<le> mn - p" "s \<le> lcp (rev dp) (rev data)"
    using lcp_le(1) [of "take (mn - p) (rev dp)" "rev data"] lcp_take_le [of "mn - p" "rev dp" "rev data"] by (auto simp: s_def)
  have pre: "take p dp = take p data" using lcp_take_eq [OF p(2)] .
  have suf: "drop (length dp - s) dp = drop (length data - s) data" using rev_suffix_eq [OF s(2)] s(1) mn by auto
  have whole: "take p xs @ buf_read p (length xs - (p + s)) xs @ drop (length xs - s) xs = xs"
    if "p + s \<le> length xs" for xs :: "byte list"
  proof -
    have "drop p xs = take (length xs - s - p) (drop p xs) @ drop (length xs - s) xs"
      using that append_take_drop_id [of "length xs - s - p" "drop p xs"] by (simp add: add.commute)
    then show ?thesis using append_take_drop_id [of p xs] by (simp add: buf_read_def diff_diff_left add.commute)
  qed
  have tail: "buf_read (length xs - s) s xs = drop (length xs - s) xs" if "s \<le> length xs" for xs :: "byte list"
    using that by (simp add: buf_read_def)
  have l: "p + s \<le> length dp" "p + s \<le> length data" using p(1) s(1) mn by auto
  show "rebuild (r_prefix r) (r_suffix r) (r_repl r) dp = data"
    using whole [OF l(2)] tail [of dp] l(1) pre suf by (simp add: rebuild_def r)
  show "rebuild (r_prefix r) (r_suffix r) (r_orig r) data = dp"
    using whole [OF l(1)] tail [of data] l(2) pre suf by (simp add: rebuild_def r)
qed

end
