(* ===== verification/Db_Rec.thy ===== *)
theory Db_Rec
  imports Bt_Item
begin

text \<open>
  Recovery of a page from the log: \<open>__db_addrem_recover\<close> of \<open>src/db/src/db/db_rec.c\<close>, and
  \<open>__bam_repl_recover\<close> and \<open>__bam_cdel_recover\<close> of \<open>src/db/src/btree/bt_rec.c\<close>, with the operations that
  write the records: \<open>__db_pitem\<close>, \<open>__db_ditem\<close>, \<open>__bam_ritem\<close> and the intent to delete of \<open>__bamc_del\<close>.
  A record has the log sequence number that the page had before; recovery compares it with that of
  the page to see whether the change is on the page already.  A history is a run of operations on a
  page, and the properties say that recovery brings the page of any moment of a history to its end
  or back to its beginning, whatever part of the history was on disk.
\<close>

section \<open>The code\<close>

datatype db_recops = DB_TXN_ABORT | DB_TXN_APPLY | DB_TXN_BACKWARD_ROLL | DB_TXN_FORWARD_ROLL | DB_TXN_OPENFILES
  | DB_TXN_POPENFILES | DB_TXN_PRINT | DB_TXN_LOG_VERIFY

definition DB_UNDO :: "db_recops \<Rightarrow> bool" where
  "DB_UNDO op \<longleftrightarrow> op = DB_TXN_ABORT \<or> op = DB_TXN_BACKWARD_ROLL"

definition DB_REDO :: "db_recops \<Rightarrow> bool" where
  "DB_REDO op \<longleftrightarrow> op = DB_TXN_FORWARD_ROLL \<or> op = DB_TXN_APPLY"

type_synonym db_lsn = "u32 \<times> u32"

definition LOG_COMPARE :: "db_lsn \<Rightarrow> db_lsn \<Rightarrow> int" where
  "LOG_COMPARE a b =
     (if fst a \<noteq> fst b then (if fst a < fst b then - 1 else 1)
      else if snd a \<noteq> snd b then (if snd a < snd b then - 1 else 1) else 0)"

definition IS_ZERO_LSN :: "db_lsn \<Rightarrow> bool" where "IS_ZERO_LSN l \<longleftrightarrow> fst l = 0 \<and> snd l = 0"
definition IS_NOT_LOGGED_LSN :: "db_lsn \<Rightarrow> bool" where "IS_NOT_LOGGED_LSN l \<longleftrightarrow> fst l = 0 \<and> snd l = 1"

text \<open>The checks of the sequence numbers, outside replication.\<close>

definition CHECK_LSN :: "db_recops \<Rightarrow> int \<Rightarrow> db_lsn \<Rightarrow> bool" where
  "CHECK_LSN op cmp l \<longleftrightarrow> DB_REDO op \<and> cmp < 0 \<and> \<not> IS_NOT_LOGGED_LSN l \<and> \<not> IS_ZERO_LSN l"

definition CHECK_ABORT :: "db_recops \<Rightarrow> int \<Rightarrow> db_lsn \<Rightarrow> bool" where
  "CHECK_ABORT op cmp l \<longleftrightarrow> op = DB_TXN_ABORT \<and> cmp \<noteq> 0 \<and> \<not> IS_NOT_LOGGED_LSN l \<and> \<not> IS_ZERO_LSN l"

text \<open>The records; the opcode of an \<open>addrem\<close> record says whether an item was added.\<close>

datatype rec_body = Addrem bool nat nat "byte list" "byte list" | Repl repl_rec | Cdel nat

record log_rec =
  rec_pagelsn :: db_lsn
  rec_body :: rec_body

definition B_DSET :: "byte \<Rightarrow> byte" where "B_DSET t = or t 0x80"
definition B_DCLR :: "byte \<Rightarrow> byte" where "B_DCLR t = and t 0x7f"

definition set_type :: "dbh \<Rightarrow> page \<Rightarrow> nat \<Rightarrow> (byte \<Rightarrow> byte) \<Rightarrow> page" where
  "set_type d pg i f = (let p = inp d (mem pg) i + 2 in pg\<lparr>mem := (mem pg)[p := f (mem pg ! p)]\<rparr>)"

definition data_indx :: "page \<Rightarrow> nat \<Rightarrow> nat" where
  "data_indx pg i = i + (if ptype pg = P_LBTREE then 1 else 0)"

text \<open>An empty byte string in a record is a null pointer.\<close>

definition nonempty :: "byte list \<Rightarrow> byte list option" where
  "nonempty xs = (if xs = [] then None else Some xs)"

subsection \<open>Recovery\<close>

text \<open>The change and the new sequence number of the page; \<open>None\<close> when nothing is to be done.  Recovery does not log.\<close>

definition addrem_change ::
    "db_recops \<Rightarrow> dbh \<Rightarrow> int \<Rightarrow> int \<Rightarrow> bool \<Rightarrow> nat \<Rightarrow> nat \<Rightarrow> byte list \<Rightarrow> byte list \<Rightarrow> page \<Rightarrow> page res option" where
  "addrem_change op d cmp_n cmp_p add indx nbytes hdr dbt pg =
     (if (cmp_p = 0 \<and> DB_REDO op \<and> add) \<or> (cmp_n = 0 \<and> DB_UNDO op \<and> \<not> add)
      then Some (db_pitem None False d pg indx nbytes (nonempty hdr) (nonempty dbt))
      else if (cmp_n = 0 \<and> DB_UNDO op \<and> add) \<or> (cmp_p = 0 \<and> DB_REDO op \<and> \<not> add)
      then Some (db_ditem None d pg indx nbytes)
      else None)"

definition repl_change :: "db_recops \<Rightarrow> dbh \<Rightarrow> int \<Rightarrow> int \<Rightarrow> repl_rec \<Rightarrow> page \<Rightarrow> page res option" where
  "repl_change op d cmp_n cmp_p r pg =
     (let i = r_indx r; dp = bk_data (mem pg) (inp d (mem pg) i);
          put = (\<lambda>xs. case bam_ritem None d pg i xs of Fail e \<Rightarrow> Fail e | Done (q, _) \<Rightarrow> Done q)
      in if cmp_p = 0 \<and> DB_REDO op then Some (put (rebuild (r_prefix r) (r_suffix r) (r_repl r) dp))
         else if cmp_n = 0 \<and> DB_UNDO op then
           Some (case put (rebuild (r_prefix r) (r_suffix r) (r_orig r) dp) of
                   Fail e \<Rightarrow> Fail e | Done q \<Rightarrow> Done (if r_deleted r then set_type d q i B_DSET else q))
         else None)"

definition cdel_change :: "db_recops \<Rightarrow> dbh \<Rightarrow> int \<Rightarrow> int \<Rightarrow> nat \<Rightarrow> page \<Rightarrow> page res option" where
  "cdel_change op d cmp_n cmp_p indx pg =
     (if cmp_p = 0 \<and> DB_REDO op then Some (Done (set_type d pg (data_indx pg indx) B_DSET))
      else if cmp_n = 0 \<and> DB_UNDO op then Some (Done (set_type d pg (data_indx pg indx) B_DCLR))
      else None)"

definition recover :: "db_recops \<Rightarrow> dbh \<Rightarrow> db_lsn \<Rightarrow> log_rec \<Rightarrow> page \<Rightarrow> page res" where
  "recover op d lsnp argp pg =
     (let cmp_n = LOG_COMPARE lsnp (lsn pg); cmp_p = LOG_COMPARE (lsn pg) (rec_pagelsn argp) in
      if CHECK_LSN op cmp_p (lsn pg) \<or> CHECK_ABORT op cmp_n (lsn pg) then Fail 22
      else case (case rec_body argp of
               Addrem add indx nbytes hdr dbt \<Rightarrow> addrem_change op d cmp_n cmp_p add indx nbytes hdr dbt pg
             | Repl r \<Rightarrow> repl_change op d cmp_n cmp_p r pg
             | Cdel indx \<Rightarrow> cdel_change op d cmp_n cmp_p indx pg) of
          None \<Rightarrow> Done pg
        | Some (Fail e) \<Rightarrow> Fail e
        | Some (Done q) \<Rightarrow> Done (q\<lparr>lsn := if DB_REDO op then lsnp else rec_pagelsn argp\<rparr>))"

subsection \<open>The operations\<close>

datatype page_op = OpAdd nat nat "byte list option" "byte list option" | OpRem nat nat | OpRepl nat "byte list" | OpDel nat

definition bytes_of :: "byte list option \<Rightarrow> byte list" where
  "bytes_of x = (case x of None \<Rightarrow> [] | Some b \<Rightarrow> b)"

text \<open>The operation, when its log record goes to position \<open>l\<close>, and the record.\<close>

fun run_op :: "dbh \<Rightarrow> page_op \<Rightarrow> db_lsn \<Rightarrow> page \<Rightarrow> (page \<times> log_rec) res" where
  "run_op d (OpAdd indx nbytes hdr data) l pg =
     (case db_pitem (Some (Inr l)) False d pg indx nbytes hdr data of
        Fail e \<Rightarrow> Fail e
      | Done q \<Rightarrow> Done (q, \<lparr>rec_pagelsn = lsn pg, rec_body = Addrem True indx nbytes (bytes_of hdr) (bytes_of data)\<rparr>))"
| "run_op d (OpRem indx nbytes) l pg =
     (case db_ditem (Some (Inr l)) d pg indx nbytes of
        Fail e \<Rightarrow> Fail e
      | Done q \<Rightarrow> Done (q, \<lparr>rec_pagelsn = lsn pg,
                   rec_body = Addrem False indx nbytes (buf_read (inp d (mem pg) indx) nbytes (mem pg)) []\<rparr>))"
| "run_op d (OpRepl indx xs) l pg =
     (case bam_ritem (Some (Inr l)) d pg indx xs of
        Done (q, Some r) \<Rightarrow> Done (q, \<lparr>rec_pagelsn = lsn pg, rec_body = Repl r\<rparr>)
      | Done (q, None) \<Rightarrow> Fail 0
      | Fail e \<Rightarrow> Fail e)"
| "run_op d (OpDel indx) l pg =
     Done (set_type d (pg\<lparr>lsn := l\<rparr>) (data_indx pg indx) B_DSET, \<lparr>rec_pagelsn = lsn pg, rec_body = Cdel indx\<rparr>)"

section \<open>Items up to padding\<close>

lemma bk_item_unique: "bk_item ty xs it \<Longrightarrow> bk_item ty' xs' it \<Longrightarrow> ty = ty' \<and> xs = xs'"
proof -
  assume a: "bk_item ty xs it" and b: "bk_item ty' xs' it"
  have "le_enc 2 (length xs) = le_enc 2 (length xs')" 
    by (rule trans [OF bk_itemD(2) [OF a, symmetric] bk_itemD(2) [OF b]])
  moreover have "length xs < 256 ^ 2" "length xs' < 256 ^ 2" using a b by (simp_all add: bk_item_def)
  ultimately have l: "length xs = length xs'" by (rule le_enc_inj)
  have "xs = take (length xs) (drop 3 it)" by (rule bk_itemD(4) [OF a, symmetric])
  also have "\<dots> = xs'" unfolding l by (rule bk_itemD(4) [OF b])
  finally show ?thesis using bk_itemD(3) [OF a] bk_itemD(3) [OF b] by simp
qed

definition same_item :: "byte list \<Rightarrow> byte list \<Rightarrow> bool" where
  "same_item a b \<longleftrightarrow> a = b \<or> (\<exists>ty xs. bk_item ty xs a \<and> bk_item ty xs b)"

abbreviation same_items :: "byte list list \<Rightarrow> byte list list \<Rightarrow> bool" where
  "same_items \<equiv> list_all2 same_item"

lemma same_item_refl [simp]: "same_item a a" by (simp add: same_item_def)

lemma same_item_sym: "same_item a b \<Longrightarrow> same_item b a" by (auto simp: same_item_def)

lemma same_item_trans: "same_item a b \<Longrightarrow> same_item b c \<Longrightarrow> same_item a c"
  unfolding same_item_def using bk_item_unique by blast

lemma same_item_length: "same_item a b \<Longrightarrow> length a = length b"
  by (auto simp: same_item_def bk_item_def)

lemma same_item_type: "same_item a b \<Longrightarrow> a ! 2 = b ! 2"
  using bk_itemD(3) by (auto simp: same_item_def)

lemma same_item_bk: "same_item a b \<Longrightarrow> bk_item t xs a = bk_item t xs b"
  unfolding same_item_def using bk_item_unique by blast

lemma same_items_refl [simp]: "same_items xs xs" by (rule list_all2_refl) simp

lemma same_items_sym: "same_items xs ys \<Longrightarrow> same_items ys xs"
  by (auto simp: list_all2_conv_all_nth same_item_sym)

lemma same_items_trans: "same_items xs ys \<Longrightarrow> same_items ys zs \<Longrightarrow> same_items xs zs"
  by (rule list_all2_trans) (auto intro: same_item_trans)

lemma same_items_sum: "same_items xs ys \<Longrightarrow> sum_list (map length xs) = sum_list (map length ys)"
  by (induction rule: list_all2_induct) (auto dest: same_item_length)

lemma same_items_delete: "same_items xs ys \<Longrightarrow> same_items (take k xs @ drop (Suc k) xs) (take k ys @ drop (Suc k) ys)"
  by (intro list_all2_appendI list_all2_takeI list_all2_dropI)

lemma same_items_insert: "same_items xs ys \<Longrightarrow> same_item a b \<Longrightarrow> same_items (take k xs @ a # drop k xs) (take k ys @ b # drop k ys)"
  by (intro list_all2_appendI list_all2_takeI list_all2_Cons [THEN iffD2] conjI list_all2_dropI)

lemma same_items_update: "same_items xs ys \<Longrightarrow> same_item a b \<Longrightarrow> same_items (xs[k := a]) (ys[k := b])"
  by (rule list_all2_update_cong)

text \<open>The type byte of an item can be set in its place.\<close>

lemma bk_item_set_type: "bk_item ty xs it \<Longrightarrow> bk_item t xs (it[2 := t])"
proof -
  assume a: "bk_item ty xs it"
  have "take (3 + length xs) (it[2 := t]) = (le_enc 2 (length xs) @ [ty] @ xs)[2 := t]"
    using a by (simp add: bk_item_def take_update_swap)
  also have "\<dots> = le_enc 2 (length xs) @ [t] @ xs" by (simp add: le_enc2 numeral_2_eq_2)
  finally show ?thesis using a by (simp add: bk_item_def)
qed

lemma same_item_set_type: "same_item a b \<Longrightarrow> same_item (a[2 := t]) (b[2 := t])"
  unfolding same_item_def using bk_item_set_type by blast

lemma items_set:
  assumes "holds d pg items" "k < length items" "a < length (items ! k)"
  shows "holds d (pg\<lparr>mem := (mem pg)[inp d (mem pg) k + a := v]\<rparr>) (items[k := (items ! k)[a := v]])"
proof -
  let ?m = "mem pg" and ?n = "length items" and ?p = "inp d (mem pg) k + a"
  let ?m' = "?m[?p := v]"
  note H = holdsD [OF assms(1)] and I = items_atD [OF H(7)]
  have p: "?p < length ?m" "unat (hf_offset pg) \<le> ?p" using I(2,3) [OF assms(2)] assms(3) by auto
  have i': "inp d ?m' i = inp d ?m i" if "i < ?n" for i
    using that p H(4) by (intro inp_cong) (auto simp: nth_list_update)
  define items' where "items' = items[k := (items ! k)[a := v]]"
  have l': "length items' = ?n" "\<And>i. length (items' ! i) = length (items ! i)"
    using assms(2) by (auto simp: items'_def nth_list_update)
  have rd: "buf_read (inp d ?m i) (length (items ! i)) ?m' = items' ! i" if "i < ?n" for i
  proof (rule nth_equalityI)
    show "length (buf_read (inp d ?m i) (length (items ! i)) ?m') = length (items' ! i)"
      using I(3) [OF that] l'(2) by simp
    fix t assume "t < length (buf_read (inp d ?m i) (length (items ! i)) ?m')"
    then have t: "t < length (items ! i)" "inp d ?m i + t < length ?m" using I(3) [OF that] by auto
    have m: "?m ! (inp d ?m i + t) = items ! i ! t" using holds_nth [OF assms(1) that t(1)] .
    show "buf_read (inp d ?m i) (length (items ! i)) ?m' ! t = items' ! i ! t"
    proof (cases "i = k")
      case True
      have "inp d ?m k + a < length ?m" "a < length (items ! k)" using p assms(3) by auto
      then have "?m' ! (inp d ?m k + t) = (items ! k)[a := v] ! t"
        using m True t(1) by (cases "t = a") (simp_all add: nth_list_update)
      then show ?thesis using t I(3) [OF that] assms(2) True by (simp add: nth_buf_read items'_def)
    next
      case False
      have "inp d ?m i + t \<noteq> ?p"
        using items_at_apart [OF H(7) that assms(2) False] t(1) assms(3) by (auto simp: apart_def)
      then show ?thesis using t m I(3) [OF that] False by (simp add: nth_buf_read items'_def)
    qed
  qed
  have "items_at d ?m' (unat (hf_offset pg)) items'"
    unfolding items_at_def l'
  proof (intro conjI allI impI)
    fix i assume i: "i < ?n"
    show "items' ! i \<noteq> []" using I(1) [OF i] l'(2) [of i] by (metis length_0_conv)
    show "unat (hf_offset pg) \<le> inp d ?m' i" using I(2) [OF i] i' [OF i] by simp
    show "inp d ?m' i + length (items ! i) \<le> length ?m'" using I(3) [OF i] i' [OF i] by simp
    show "buf_read (inp d ?m' i) (length (items ! i)) ?m' = items' ! i" using rd [OF i] i' [OF i] by simp
  next
    fix i j assume "i < ?n" "j < ?n" "i \<noteq> j"
    then show "apart (inp d ?m' i) (length (items ! i)) (inp d ?m' j) (length (items ! j))"
      using items_at_apart [OF H(7), of i j] i' by simp
  qed
  moreover have "map length items' = map length items" using l' by (intro nth_equalityI) auto
  ultimately show ?thesis using H unfolding holds_def items'_def [symmetric] by (simp add: l'(1))
qed

section \<open>The operations on the list of items\<close>

definition padded :: "nat \<Rightarrow> byte list \<Rightarrow> byte list" where
  "padded n xs = xs @ replicate (n - length xs) 0"

definition item_bytes :: "byte list option \<Rightarrow> byte list option \<Rightarrow> byte list" where
  "item_bytes hdr data =
     (case hdr of None \<Rightarrow> bkeydata_hdr B_KEYDATA (length (bytes_of data)) | Some h \<Rightarrow> h) @ bytes_of data"

definition type_indx :: "byte \<Rightarrow> nat \<Rightarrow> nat" where
  "type_indx ty i = i + (if ty = P_LBTREE then 1 else 0)"

fun op_items :: "byte \<Rightarrow> page_op \<Rightarrow> byte list list \<Rightarrow> byte list list" where
  "op_items ty (OpAdd k nb hdr data) items = take k items @ padded nb (item_bytes hdr data) # drop k items"
| "op_items ty (OpRem k nb) items = take k items @ drop (Suc k) items"
| "op_items ty (OpRepl k xs) items =
     items[k := padded (BKEYDATA_SIZE (length xs)) (le_enc 2 (length xs) @ [B_TYPE (items ! k ! 2)] @ xs)]"
| "op_items ty (OpDel k) items =
     (let i = type_indx ty k in items[i := (items ! i)[2 := B_DSET (items ! i ! 2)]])"

text \<open>What the callers of an operation make sure of.  Items are added without padding, or as key or data bytes.\<close>

fun op_ok :: "dbh \<Rightarrow> byte \<Rightarrow> byte list list \<Rightarrow> page_op \<Rightarrow> bool" where
  "op_ok d ty items (OpAdd k nb hdr data) \<longleftrightarrow>
     k \<le> length items \<and> 0 < nb \<and> page_used d items + 2 + nb \<le> pgsize d \<and> hdr \<noteq> Some []
     \<and> (if hdr = None then length (bytes_of data) + 6 < 65536 \<and> nb = BKEYDATA_SIZE (length (bytes_of data))
        else length (item_bytes hdr data) = nb)"
| "op_ok d ty items (OpRem k nb) \<longleftrightarrow> k < length items \<and> 0 < nb \<and> nb = length (items ! k)"
| "op_ok d ty items (OpRepl k xs) \<longleftrightarrow>
     k < length items \<and> ty \<noteq> P_IBTREE \<and> (\<exists>t old. bk_item t old (items ! k)) \<and> length xs + 6 < 65536
     \<and> page_used d items + BKEYDATA_SIZE (length xs) \<le> pgsize d + length (items ! k)"
| "op_ok d ty items (OpDel k) \<longleftrightarrow>
     (let i = type_indx ty k in i < length items \<and> 2 < length (items ! i) \<and> \<not> B_DISSET (items ! i ! 2))"

text \<open>The page has these items, up to padding, this type and this sequence number.\<close>

definition page_is :: "dbh \<Rightarrow> byte \<Rightarrow> db_lsn \<Rightarrow> byte list list \<Rightarrow> page \<Rightarrow> bool" where
  "page_is d ty l items pg \<longleftrightarrow> (\<exists>its. holds d pg its \<and> same_items its items) \<and> ptype pg = ty \<and> lsn pg = l"

text \<open>The record of an operation on these items.\<close>

fun rec_for :: "byte list list \<Rightarrow> page_op \<Rightarrow> rec_body \<Rightarrow> bool" where
  "rec_for items (OpAdd k nb hdr data) b \<longleftrightarrow> b = Addrem True k nb (bytes_of hdr) (bytes_of data)"
| "rec_for items (OpRem k nb) b \<longleftrightarrow> (\<exists>h. b = Addrem False k nb h [] \<and> same_item h (items ! k))"
| "rec_for items (OpRepl k xs) b \<longleftrightarrow> (\<exists>t old. b = Repl (repl_diff k t old xs) \<and> bk_item t old (items ! k))"
| "rec_for items (OpDel k) b \<longleftrightarrow> b = Cdel k"

lemma page_used_same: "same_items xs ys \<Longrightarrow> page_used d xs = page_used d ys"
  by (simp add: page_used_def same_items_sum list_all2_lengthD)

lemma page_is_lsn: "page_is d ty l items pg \<Longrightarrow> page_is d ty l' items (pg\<lparr>lsn := l'\<rparr>)"
  by (auto simp: page_is_def)

lemma B_TYPE_idem [simp]: "B_TYPE (B_TYPE t) = B_TYPE t"
  by (simp add: B_TYPE_def and.assoc)

lemma B_DISSET_bit: "B_DISSET t = bit t 7"
  using and_exp_eq_0_iff_not_bit [of t 7] by (simp add: B_DISSET_def)

lemma byte_eqI:
  assumes "\<And>n. n < 8 \<Longrightarrow> bit a n = bit b n"
  shows "(a :: byte) = b"
  by (rule bit_word_eqI) (use assms in simp)

lemma less_8_cases: "n < 8 \<Longrightarrow> n = 0 \<or> n = 1 \<or> n = 2 \<or> n = 3 \<or> n = 4 \<or> n = 5 \<or> n = 6 \<or> n = (7 :: nat)"
  by linarith

lemma B_TYPE_restore: "(if B_DISSET t then B_DSET (B_TYPE t) else B_TYPE t) = t"
proof (rule byte_eqI)
  fix n :: nat assume "n < 8"
  then show "bit (if B_DISSET t then B_DSET (B_TYPE t) else B_TYPE t) n = bit t n"
    by (elim less_8_cases [THEN disjE] disjE) (simp_all add: B_DISSET_bit B_DSET_def B_TYPE_def bit_and_iff bit_or_iff)
qed

lemma B_DCLR_DSET: "\<not> B_DISSET t \<Longrightarrow> B_DCLR (B_DSET t) = t"
proof -
  assume "\<not> B_DISSET t"
  then have "B_TYPE t = t" using B_TYPE_restore [of t] by simp
  moreover have "B_DCLR (B_DSET t) = B_TYPE t"
    by (simp add: B_DCLR_def B_DSET_def B_TYPE_def bit.conj_disj_distrib2 and.commute [of _ "127"] bit.conj_disj_distrib)
  ultimately show ?thesis by simp
qed

lemma type_indx_data [simp]: "data_indx pg i = type_indx (ptype pg) i"
  by (simp add: data_indx_def type_indx_def)

section \<open>Each operation, logged or not\<close>

definition log_lsn_of :: "(int + db_lsn) option \<Rightarrow> db_lsn" where
  "log_lsn_of lg = (case lg of Some (Inr l) \<Rightarrow> l | _ \<Rightarrow> LSN_NOT_LOGGED)"

abbreviation log_ok :: "(int + db_lsn) option \<Rightarrow> bool" where
  "log_ok lg \<equiv> \<not> (\<exists>e. lg = Some (Inl e))"

lemma pitem_nolog_frame: "db_pitem_nolog d pg k nb hdr data = Some q \<Longrightarrow> ptype q = ptype pg \<and> lsn q = lsn pg"
  by (auto simp: db_pitem_nolog_def Let_def split: if_splits)

lemma ditem_nolog_frame: "ptype (db_ditem_nolog d pg k nb) = ptype pg \<and> lsn (db_ditem_nolog d pg k nb) = lsn pg"
  by (simp add: db_ditem_nolog_def Let_def)

lemma new_item_same:
  assumes "op_ok d ty items (OpAdd k nb hdr data)" "length (buf_read (unat (hf_offset pg) - nb) nb (mem pg)) = nb"
  shows "same_item (new_item pg nb (item_bytes hdr data)) (padded nb (item_bytes hdr data))"
proof (cases "hdr = None")
  case True
  let ?b = "bytes_of data"
  have n: "length ?b + 6 < 65536" "nb = BKEYDATA_SIZE (length ?b)" using assms(1) True by auto
  have w: "item_bytes hdr data = le_enc 2 (length ?b) @ [B_KEYDATA] @ ?b"
    using True by (simp add: item_bytes_def bkeydata_hdr_def)
  have l: "length (item_bytes hdr data) = 3 + length ?b" unfolding w by (simp add: le_enc2)
  have "bk_item B_KEYDATA ?b (padded nb (item_bytes hdr data))" "bk_item B_KEYDATA ?b (new_item pg nb (item_bytes hdr data))"
    using n BKEYDATA_SIZE_bounds(1) [OF n(1)] l assms(2) unfolding bk_item_def
    by (simp_all add: padded_def new_item_def l) (simp_all add: w)
  then show ?thesis unfolding same_item_def by blast
next
  case False
  then have "length (item_bytes hdr data) = nb" using assms(1) by simp
  then show ?thesis using assms(2) by (simp add: padded_def new_item_def)
qed

lemma pitem_step:
  assumes pg: "holds d pg its" "same_items its items" and ok: "op_ok d ty items (OpAdd k nb hdr data)" and lg: "log_ok lg"
  shows "\<exists>q its'. db_pitem lg False d pg k nb hdr data = Done q \<and> holds d q its'
    \<and> same_items its' (op_items ty (OpAdd k nb hdr data) items) \<and> ptype q = ptype pg \<and> lsn q = log_lsn_of lg"
proof -
  let ?w = "item_bytes hdr data"
  have k: "k \<le> length its" "length its = length items" "0 < nb" using ok list_all2_lengthD [OF pg(2)] by auto
  have used: "page_used d its + (2 + nb) \<le> pgsize d" using ok page_used_same [OF pg(2)] by simp
  have room: "P_OVERHEAD d + 2 * length its + 2 + nb \<le> unat (hf_offset pg)" using used_room [OF pg(1) used] by simp
  define dat where "dat = (case data of None \<Rightarrow> [] | Some x \<Rightarrow> x)"
  define hb where "hb = (case hdr of None \<Rightarrow> bkeydata_hdr B_KEYDATA (length dat) | Some x \<Rightarrow> x)"
  have w2: "dat = bytes_of data" by (simp add: dat_def bytes_of_def)
  then have w: "hb @ dat = ?w" "dat = bytes_of data" by (cases hdr; simp add: hb_def item_bytes_def)+
  have lw: "length hb + length dat \<le> nb"
  proof -
    have "length (hb @ dat) \<le> nb"
    proof (cases "hdr = None")
      case True
      then show ?thesis using ok BKEYDATA_SIZE_bounds(1) [of "length dat"] w(2) by (simp add: hb_def bkeydata_hdr_def le_enc2)
    next
      case False
      then show ?thesis using ok w(1) by simp
    qed
    then show ?thesis by simp
  qed
  have step: "\<exists>q. db_pitem_nolog d (pg\<lparr>lsn := l\<rparr>) k nb hdr data = Some q
      \<and> holds d q (take k its @ new_item pg nb ?w # drop k its)" for l
  proof -
    have "new_item (pg\<lparr>lsn := l\<rparr>) nb ?w = new_item pg nb ?w" by (simp add: new_item_def)
    then show ?thesis
      using pitem_refines [of d "pg\<lparr>lsn := l\<rparr>" its k nb dat data hb hdr] pg(1) k room lw dat_def hb_def w(1) by simp
  qed
  have "length (buf_read (unat (hf_offset pg) - nb) nb (mem pg)) = nb"
    using holdsD(1,5) [OF pg(1)] room by (simp add: buf_read_def)
  then have si: "same_items (take k its @ new_item pg nb ?w # drop k its) (op_items ty (OpAdd k nb hdr data) items)"
    using same_items_insert [OF pg(2) new_item_same [OF ok]] by simp
  obtain q where q: "db_pitem_nolog d (pg\<lparr>lsn := log_lsn_of lg\<rparr>) k nb hdr data = Some q"
    "holds d q (take k its @ new_item pg nb ?w # drop k its)" using step by blast
  have "db_pitem lg False d pg k nb hdr data = Done q"
    using q(1) lg by (auto simp: db_pitem_def log_lsn_of_def split: option.splits sum.splits)
  then show ?thesis using q(2) si pitem_nolog_frame [OF q(1)] by auto
qed

lemma ditem_step:
  assumes pg: "holds d pg its" "same_items its items" and ok: "k < length items" "nb = length (items ! k)" and lg: "log_ok lg"
  shows "\<exists>q its'. db_ditem lg d pg k nb = Done q \<and> holds d q its' \<and> same_items its' (take k items @ drop (Suc k) items)
    \<and> ptype q = ptype pg \<and> lsn q = log_lsn_of lg"
proof -
  have k: "k < length its" using ok list_all2_lengthD [OF pg(2)] by simp
  have "same_item (its ! k) (items ! k)" using list_all2_nthD [OF pg(2) k] .
  then have nb: "nb = length (its ! k)" using ok(2) same_item_length by simp
  define q where "q = db_ditem_nolog d (pg\<lparr>lsn := log_lsn_of lg\<rparr>) k nb"
  have "db_ditem lg d pg k nb = Done q"
    using lg by (auto simp: db_ditem_def q_def log_lsn_of_def split: option.splits sum.splits)
  moreover have "holds d q (take k its @ drop (Suc k) its)"
    using ditem_refines [of d "pg\<lparr>lsn := log_lsn_of lg\<rparr>" its k] pg(1) k by (simp add: q_def nb)
  moreover have "ptype q = ptype pg" "lsn q = log_lsn_of lg"
    using ditem_nolog_frame [of d "pg\<lparr>lsn := log_lsn_of lg\<rparr>" k nb] by (simp_all add: q_def)
  ultimately show ?thesis using same_items_delete [OF pg(2)] by blast
qed

lemma ritem_step:
  assumes pg: "holds d pg its" "same_items its items" "ptype pg = ty" and ok: "op_ok d ty items (OpRepl k xs)" and lg: "log_ok lg"
    and old: "bk_item t old (items ! k)"
  shows "\<exists>q its'. bam_ritem lg d pg k xs = Done (q, if lg = None then None else Some (repl_diff k t old xs))
    \<and> holds d q its' \<and> same_items its' (op_items ty (OpRepl k xs) items) \<and> ptype q = ty \<and> lsn q = log_lsn_of lg"
proof -
  have k: "k < length its" "length its = length items" using ok list_all2_lengthD [OF pg(2)] by auto
  have sk: "same_item (its ! k) (items ! k)" using list_all2_nthD [OF pg(2) k(1)] .
  have bk: "bk_item t old (its ! k)" using same_item_bk [OF sk] old by simp
  have n: "length xs + 6 < 65536" using ok by simp
  have "page_used d its + BKEYDATA_SIZE (length xs) \<le> pgsize d + length (its ! k)"
    using ok page_used_same [OF pg(2)] same_item_length [OF sk] by simp
  then have room: "P_OVERHEAD d + 2 * length its + BKEYDATA_SIZE (length xs) \<le> unat (hf_offset pg) + length (its ! k)"
    using holdsD(6) [OF pg(1)] by (simp add: page_used_def)
  have ty: "ptype pg \<noteq> P_IBTREE" using ok pg(3) by simp
  from ritem_items [OF pg(1) k(1) ty bk n room lg] obtain q it where
    q: "bam_ritem lg d pg k xs = Done (q, if lg = None then None else Some (repl_diff k t old xs))"
      "holds d q (its[k := it])" "bk_item (B_TYPE t) xs it" "ptype q = ptype pg"
      "lsn q = (case lg of Some (Inr l) \<Rightarrow> l | _ \<Rightarrow> LSN_NOT_LOGGED)" by auto
  have t: "items ! k ! 2 = t" using bk_itemD(3) [OF old] .
  have "bk_item (B_TYPE t) xs (padded (BKEYDATA_SIZE (length xs)) (le_enc 2 (length xs) @ [B_TYPE t] @ xs))"
    using n BKEYDATA_SIZE_bounds(1) [OF n] by (simp add: bk_item_def padded_def le_enc2 numeral_3_eq_3)
  then have "same_item it (padded (BKEYDATA_SIZE (length xs)) (le_enc 2 (length xs) @ [B_TYPE (items ! k ! 2)] @ xs))"
    using q(3) t unfolding same_item_def by blast
  then have "same_items (its[k := it]) (op_items ty (OpRepl k xs) items)" using same_items_update [OF pg(2)] by simp
  then show ?thesis using q pg(3) by (auto simp: log_lsn_of_def)
qed

lemma set_type_step:
  assumes pg: "holds d pg its" "same_items its items" and i: "i < length items" "2 < length (items ! i)"
  shows "\<exists>its'. holds d (set_type d pg i g) its' \<and> same_items its' (items[i := (items ! i)[2 := g (items ! i ! 2)]])
    \<and> ptype (set_type d pg i g) = ptype pg \<and> lsn (set_type d pg i g) = lsn pg"
proof -
  have k: "i < length its" using i list_all2_lengthD [OF pg(2)] by simp
  have sk: "same_item (its ! i) (items ! i)" using list_all2_nthD [OF pg(2) k] .
  have l: "2 < length (its ! i)" using i(2) same_item_length [OF sk] by simp
  have "holds d (set_type d pg i g) (its[i := (its ! i)[2 := g (its ! i ! 2)]])"
    using items_set [OF pg(1) k l, of "g (its ! i ! 2)"] holds_nth [OF pg(1) k l] by (simp add: set_type_def Let_def)
  moreover have "same_items (its[i := (its ! i)[2 := g (its ! i ! 2)]]) (items[i := (items ! i)[2 := g (items ! i ! 2)]])"
    using same_items_update [OF pg(2) same_item_set_type [OF sk]] same_item_type [OF sk] by simp
  ultimately show ?thesis by (auto simp: set_type_def Let_def)
qed

section \<open>Running, redoing and undoing an operation\<close>

lemma log_lsn_of_simps [simp]: "log_lsn_of (Some (Inr l)) = l" "log_lsn_of None = LSN_NOT_LOGGED"
  by (simp_all add: log_lsn_of_def)

lemma run_op_page:
  assumes pg: "page_is d ty l0 items pg" and ok: "op_ok d ty items op"
  shows "\<exists>q r. run_op d op l pg = Done (q, r) \<and> rec_pagelsn r = l0 \<and> rec_for items op (rec_body r)
    \<and> page_is d ty l (op_items ty op items) q"
proof -
  obtain its where its: "holds d pg its" "same_items its items" and ty: "ptype pg = ty" "lsn pg = l0"
    using pg by (auto simp: page_is_def)
  show ?thesis
  proof (cases op)
    case (OpAdd k nb hdr data)
    then show ?thesis using pitem_step [OF its ok [unfolded OpAdd], of "Some (Inr l)"] ty by (auto simp: page_is_def)
  next
    case (OpRem k nb)
    then have k: "k < length items" "nb = length (items ! k)" using ok by auto
    have k': "k < length its" using k(1) list_all2_lengthD [OF its(2)] by simp
    have sk: "same_item (its ! k) (items ! k)" using list_all2_nthD [OF its(2) k'] .
    have "buf_read (inp d (mem pg) k) nb (mem pg) = its ! k"
      using items_atD(4) [OF holdsD(7) [OF its(1)] k'] same_item_length [OF sk] k(2) by simp
    then show ?thesis using ditem_step [OF its k, of "Some (Inr l)"] OpRem ty sk by (auto simp: page_is_def)
  next
    case (OpRepl k xs)
    then obtain t old where bk: "bk_item t old (items ! k)" using ok by auto
    obtain q its' where q: "bam_ritem (Some (Inr l)) d pg k xs = Done (q, Some (repl_diff k t old xs))" "holds d q its'"
      "same_items its' (op_items ty op items)" "ptype q = ty" "lsn q = l"
      using ritem_step [OF its ty(1) ok [unfolded OpRepl], of "Some (Inr l)" t old] bk OpRepl by auto
    have "rec_for items op (Repl (repl_diff k t old xs))" using bk OpRepl by auto
    then show ?thesis using q OpRepl ty by (auto simp: page_is_def)
  next
    case (OpDel k)
    define i where "i = type_indx ty k"
    have i: "i < length items" "2 < length (items ! i)" using ok OpDel by (auto simp: i_def Let_def)
    have h: "holds d (pg\<lparr>lsn := l\<rparr>) its" using its(1) by simp
    from set_type_step [OF h its(2) i, of B_DSET] show ?thesis
      using OpDel ty by (auto simp: page_is_def i_def Let_def)
  qed
qed

lemma nonempty_bytes: "bytes_of (nonempty b) = b"
  by (simp add: nonempty_def bytes_of_def)

lemma nonempty_hdr: "hdr \<noteq> Some [] \<Longrightarrow> nonempty (bytes_of hdr) = hdr"
  by (cases hdr) (auto simp: nonempty_def bytes_of_def)

lemma item_bytes_data [simp]: "item_bytes hdr (nonempty (bytes_of data)) = item_bytes hdr data"
  by (cases hdr) (simp_all add: item_bytes_def nonempty_bytes)

lemma op_ok_data: "op_ok d ty items (OpAdd k nb hdr (nonempty (bytes_of data))) = op_ok d ty items (OpAdd k nb hdr data)"
  by (simp add: nonempty_bytes)

lemma op_items_data: "op_items ty (OpAdd k nb hdr (nonempty (bytes_of data))) items = op_items ty (OpAdd k nb hdr data) items"
  by (simp add: nonempty_bytes)

lemma LOG_COMPARE_refl [simp]: "LOG_COMPARE l l = 0" by (simp add: LOG_COMPARE_def)

lemma LOG_COMPARE_0 [simp]: "LOG_COMPARE a b = 0 \<longleftrightarrow> a = b"
  by (auto simp: LOG_COMPARE_def prod_eq_iff)

lemma redo_page:
  assumes pg: "page_is d ty (rec_pagelsn r) items pg" and ok: "op_ok d ty items op" and rf: "rec_for items op (rec_body r)"
    and op: "DB_REDO rop"
  shows "\<exists>q. recover rop d l r pg = Done q \<and> page_is d ty l (op_items ty op items) q"
proof -
  obtain its where its: "holds d pg its" "same_items its items" and ty: "ptype pg = ty" "lsn pg = rec_pagelsn r"
    using pg by (auto simp: page_is_def)
  have u: "\<not> DB_UNDO rop" using op by (auto simp: DB_REDO_def DB_UNDO_def)
  have chk: "\<not> CHECK_LSN rop 0 x" "\<not> CHECK_ABORT rop c x" for c x
    using op by (auto simp: CHECK_LSN_def CHECK_ABORT_def DB_REDO_def)
  note rec = recover_def [of rop d l r pg, unfolded Let_def ty(2) LOG_COMPARE_refl]
  show ?thesis
  proof (cases op)
    case (OpAdd k nb hdr data)
    then have h: "hdr \<noteq> Some []" "rec_body r = Addrem True k nb (bytes_of hdr) (bytes_of data)" using ok rf by auto
    have ok': "op_ok d ty items (OpAdd k nb hdr (nonempty (bytes_of data)))"
      unfolding op_ok_data using ok OpAdd by blast
    obtain q its' where q: "db_pitem None False d pg k nb hdr (nonempty (bytes_of data)) = Done q" "holds d q its'"
      "same_items its' (op_items ty op items)" "ptype q = ty"
      using pitem_step [OF its ok', of None] ty(1) OpAdd op_items_data by auto
    have "recover rop d l r pg = Done (q\<lparr>lsn := l\<rparr>)"
      using rec chk op u h q(1) nonempty_hdr [OF h(1)] by (simp add: addrem_change_def)
    then show ?thesis using q by (auto simp: page_is_def)
  next
    case (OpRem k nb)
    then obtain h where k: "k < length items" "nb = length (items ! k)" and h: "rec_body r = Addrem False k nb h []"
      using ok rf by auto
    obtain q its' where q: "db_ditem None d pg k nb = Done q" "holds d q its'" "same_items its' (op_items ty op items)" "ptype q = ty"
      using ditem_step [OF its k, of None] ty(1) OpRem by auto
    have "recover rop d l r pg = Done (q\<lparr>lsn := l\<rparr>)" using rec chk op u h q(1) by (simp add: addrem_change_def)
    then show ?thesis using q by (auto simp: page_is_def)
  next
    case (OpRepl k xs)
    then obtain t old where b: "rec_body r = Repl (repl_diff k t old xs)" and bk: "bk_item t old (items ! k)" using rf by auto
    have k: "k < length its" using ok OpRepl list_all2_lengthD [OF its(2)] by simp
    have "bk_item t old (its ! k)" using same_item_bk [OF list_all2_nthD [OF its(2) k]] bk by simp
    from bk_item_read(3) [OF its(1) k this] have dp: "bk_data (mem pg) (inp d (mem pg) k) = old" .
    have ri: "r_indx (repl_diff k t old xs) = k" by (simp add: repl_diff_def Let_def)
    obtain q its' where q: "bam_ritem None d pg k xs = Done (q, None)" "holds d q its'" "same_items its' (op_items ty op items)"
      "ptype q = ty"
      using ritem_step [OF its ty(1) ok [unfolded OpRepl], of None t old] bk OpRepl by auto
    have "recover rop d l r pg = Done (q\<lparr>lsn := l\<rparr>)"
      using rec chk op u b q(1) rebuild_diff(1) [OF refl, of k t old xs] by (simp add: repl_change_def Let_def ri dp)
    then show ?thesis using q by (auto simp: page_is_def)
  next
    case (OpDel k)
    define i where "i = type_indx ty k"
    have i: "i < length items" "2 < length (items ! i)" and b: "rec_body r = Cdel k" using ok rf OpDel by (auto simp: i_def Let_def)
    have "recover rop d l r pg = Done ((set_type d pg i B_DSET)\<lparr>lsn := l\<rparr>)"
      using rec chk op u b ty(1) by (simp add: cdel_change_def i_def)
    then show ?thesis using set_type_step [OF its i, of B_DSET] OpDel ty(1) by (auto simp: page_is_def i_def Let_def)
  qed
qed

lemma length_padded [simp]: "length xs \<le> n \<Longrightarrow> length (padded n xs) = n"
  by (simp add: padded_def)

lemma op_ok_item_bytes:
  assumes "op_ok d ty items (OpAdd k nb hdr data)"
  shows "length (item_bytes hdr data) \<le> nb"
  using assms BKEYDATA_SIZE_bounds(1) [of "length (bytes_of data)"]
  by (cases hdr) (auto simp: item_bytes_def bkeydata_hdr_def le_enc2)

lemma page_used_delete:
  assumes "k < length items"
  shows "page_used d (take k items @ drop (Suc k) items) + 2 + length (items ! k) = page_used d items"
proof -
  have "sum_list (map length items) = sum_list (map length (take k items @ drop (Suc k) items)) + length (items ! k)"
    by (rule sum_list_take_drop_nth [OF assms])
  then show ?thesis using assms by (simp add: page_used_def)
qed

lemma page_used_update:
  "k < length items \<Longrightarrow> page_used d (items[k := x]) + length (items ! k) = page_used d items + length x"
  using sum_list_update [of k items x] by (simp add: page_used_def)

lemma undo_page:
  assumes pg: "page_is d ty l (op_items ty op items) pg" and ok: "op_ok d ty items op" and rf: "rec_for items op (rec_body r)"
    and op: "DB_UNDO rop" and used: "page_used d items \<le> pgsize d"
  shows "\<exists>q. recover rop d l r pg = Done q \<and> page_is d ty (rec_pagelsn r) items q"
proof -
  obtain its where its: "holds d pg its" "same_items its (op_items ty op items)" and ty: "ptype pg = ty" "lsn pg = l"
    using pg by (auto simp: page_is_def)
  have u: "\<not> DB_REDO rop" using op by (auto simp: DB_REDO_def DB_UNDO_def)
  have chk: "\<not> CHECK_LSN rop c x" "\<not> CHECK_ABORT rop 0 x" for c x
    using u by (auto simp: CHECK_LSN_def CHECK_ABORT_def)
  note rec = recover_def [of rop d l r pg, unfolded Let_def ty(2) LOG_COMPARE_refl]
  have finok: "recover rop d l r pg = Done (q\<lparr>lsn := rec_pagelsn r\<rparr>) \<Longrightarrow> holds d q its' \<Longrightarrow> same_items its' items \<Longrightarrow> ptype q = ty
      \<Longrightarrow> ?thesis" for q its'
    by (auto simp: page_is_def)
  show ?thesis
  proof (cases op)
    case (OpAdd k nb hdr data)
    define its1 where "its1 = op_items ty op items"
    have k: "k \<le> length items" and b: "rec_body r = Addrem True k nb (bytes_of hdr) (bytes_of data)" using ok rf OpAdd by auto
    have i1: "its1 = take k items @ padded nb (item_bytes hdr data) # drop k items" using OpAdd by (simp add: its1_def)
    have "k < length its1" "nb = length (its1 ! k)" "take k its1 @ drop (Suc k) its1 = items"
      using k op_ok_item_bytes [OF ok [unfolded OpAdd]] by (simp_all add: i1 nth_append)
    then obtain q its' where q: "db_ditem None d pg k nb = Done q" "holds d q its'" "same_items its' items" "ptype q = ty"
      using ditem_step [OF its [folded its1_def], of k nb None] ty(1) by auto
    have "recover rop d l r pg = Done (q\<lparr>lsn := rec_pagelsn r\<rparr>)" using rec chk op u b q(1) by (simp add: addrem_change_def)
    then show ?thesis using finok q(2-4) by blast
  next
    case (OpRem k nb)
    then obtain h where k: "k < length items" "0 < nb" "nb = length (items ! k)" and b: "rec_body r = Addrem False k nb h []"
      and sh: "same_item h (items ! k)" using ok rf by auto
    define its1 where "its1 = take k items @ drop (Suc k) items"
    have h: "length h = nb" "h \<noteq> []" using same_item_length [OF sh] k(2,3) by auto
    have ok': "op_ok d ty its1 (OpAdd k nb (Some h) None)"
      using page_used_delete [OF k(1), of d] used k h by (simp add: its1_def item_bytes_def bytes_of_def)
    have "its1 = op_items ty op items" using OpRem by (simp add: its1_def)
    then obtain q its' where q: "db_pitem None False d pg k nb (Some h) None = Done q" "holds d q its'"
      "same_items its' (op_items ty (OpAdd k nb (Some h) None) its1)" "ptype q = ty"
      using pitem_step [OF its(1) _ ok', of None] its(2) ty(1) by auto
    have "recover rop d l r pg = Done (q\<lparr>lsn := rec_pagelsn r\<rparr>)"
      using rec chk op u b q(1) h by (simp add: addrem_change_def nonempty_def)
    moreover have "same_items its' items"
    proof -
      have e: "op_items ty (OpAdd k nb (Some h) None) its1 = take k items @ h # drop (Suc k) items"
        using k(1) h by (simp add: its1_def item_bytes_def bytes_of_def padded_def)
      have "same_items (take k items @ h # drop (Suc k) items) (take k items @ items ! k # drop (Suc k) items)"
        using sh by (intro list_all2_appendI) simp_all
      then show ?thesis using same_items_trans q(3) e id_take_nth_drop [OF k(1)] by metis
    qed
    ultimately show ?thesis using finok q(2,4) by blast
  next
    case (OpRepl k xs)
    then obtain t old where b: "rec_body r = Repl (repl_diff k t old xs)" and bk: "bk_item t old (items ! k)" using rf by auto
    have k: "k < length items" "ty \<noteq> P_IBTREE" "length xs + 6 < 65536" using ok OpRepl by auto
    have t: "items ! k ! 2 = t" using bk_itemD(3) [OF bk] .
    define it1 where "it1 = padded (BKEYDATA_SIZE (length xs)) (le_enc 2 (length xs) @ [B_TYPE t] @ xs)"
    define its1 where "its1 = items[k := it1]"
    have bk1: "bk_item (B_TYPE t) xs it1"
      using k(3) BKEYDATA_SIZE_bounds(1) [OF k(3)] by (simp add: it1_def bk_item_def padded_def le_enc2 numeral_3_eq_3)
    have i1: "its1 = op_items ty op items" using OpRepl t by (simp add: its1_def it1_def)
    have n: "length old + 6 < 65536" "BKEYDATA_SIZE (length old) = length (items ! k)" using bk by (simp_all add: bk_item_def)
    have its1k: "its1 ! k = it1" "length its1 = length items" using k(1) by (simp_all add: its1_def)
    have ok': "op_ok d ty its1 (OpRepl k old)"
      using k n bk1 its1k used page_used_update [OF k(1), of d it1] by (auto simp: its1_def)
    have kl: "k < length its" using k(1) list_all2_lengthD [OF its(2)] i1 its1k(2) by simp
    have "bk_item (B_TYPE t) xs (its ! k)"
      using same_item_bk [OF list_all2_nthD [OF its(2) kl]] bk1 i1 its1k(1) by simp
    from bk_item_read(3) [OF its(1) kl this] have dp: "bk_data (mem pg) (inp d (mem pg) k) = xs" .
    have ri: "r_indx (repl_diff k t old xs) = k" "r_deleted (repl_diff k t old xs) = B_DISSET t" by (simp_all add: repl_diff_def Let_def)
    define it2 where "it2 = padded (BKEYDATA_SIZE (length old)) (le_enc 2 (length old) @ [B_TYPE t] @ old)"
    have bk2: "bk_item (B_TYPE t) old it2"
      using n BKEYDATA_SIZE_bounds(1) [OF n(1)] by (simp add: it2_def bk_item_def padded_def le_enc2 numeral_3_eq_3)
    have "op_items ty (OpRepl k old) its1 = its1[k := it2]" using bk_itemD(3) [OF bk1] its1k(1) by (simp add: it2_def)
    then obtain q its' where q: "bam_ritem None d pg k old = Done (q, None)" "holds d q its'" "same_items its' (items[k := it2])"
      "ptype q = ty"
      using ritem_step [OF its(1) _ ty(1) ok', of None "B_TYPE t" xs] its(2) i1 bk1 its1k(1) by (auto simp: its1_def)
    have run: "recover rop d l r pg = Done ((if B_DISSET t then set_type d q k B_DSET else q)\<lparr>lsn := rec_pagelsn r\<rparr>)"
      using rec chk op u b q(1) rebuild_diff(2) [OF refl, of k t old xs] by (simp add: repl_change_def Let_def ri dp)
    have k2: "k < length (items[k := it2])" "2 < length (items[k := it2] ! k)" using k(1) bk_itemD(1) [OF bk2] by simp_all
    have fin: "\<exists>its2. holds d (if B_DISSET t then set_type d q k B_DSET else q) its2 \<and> same_items its2 items
      \<and> ptype (if B_DISSET t then set_type d q k B_DSET else q) = ty"
    proof (cases "B_DISSET t")
      case True
      have "bk_item t old (it2[2 := B_DSET (B_TYPE t)])"
        using bk_item_set_type [OF bk2, of t] B_TYPE_restore [of t] True by simp
      then have "same_items (items[k := it2[2 := B_DSET (it2 ! 2)]]) (items[k := items ! k])"
        using bk bk_itemD(3) [OF bk2] by (intro same_items_update) (auto simp: same_item_def)
      then show ?thesis
        using set_type_step [OF q(2,3) k2, of B_DSET] q(4) True k(1) same_items_trans by (auto simp del: list_update_id) (metis list_update_id)
    next
      case False
      then have "B_TYPE t = t" using B_TYPE_restore [of t] by simp
      then have "same_item it2 (items ! k)" using bk bk2 by (auto simp: same_item_def)
      then have "same_items (items[k := it2]) (items[k := items ! k])" by (intro same_items_update) simp
      then show ?thesis using q(2-4) False same_items_trans by auto
    qed
    then show ?thesis using run finok by auto
  next
    case (OpDel k)
    define i where "i = type_indx ty k"
    have i: "i < length items" "2 < length (items ! i)" "\<not> B_DISSET (items ! i ! 2)" and b: "rec_body r = Cdel k"
      using ok rf OpDel by (auto simp: i_def Let_def)
    define its1 where "its1 = items[i := (items ! i)[2 := B_DSET (items ! i ! 2)]]"
    have i1: "its1 = op_items ty op items" using OpDel by (simp add: its1_def i_def Let_def)
    have "recover rop d l r pg = Done ((set_type d pg i B_DCLR)\<lparr>lsn := rec_pagelsn r\<rparr>)"
      using rec chk op u b ty(1) by (simp add: cdel_change_def i_def)
    moreover have "its1[i := (its1 ! i)[2 := B_DCLR (its1 ! i ! 2)]] = items"
      using i B_DCLR_DSET [OF i(3)] by (simp add: its1_def)
    ultimately show ?thesis
      using set_type_step [OF its(1), of its1 i B_DCLR] its(2) i1 i ty(1) finok by (auto simp: its1_def)
  qed
qed

end
