(* ===== verification/Db_History.thy ===== *)
theory Db_History
  imports Db_Rec
begin

text \<open>
  Recovery of a page over a run of logged operations.  A history is the list of the operations with the
  positions of their records in the log; the log goes forward, and every operation is allowed when it is
  done.  The page on disk is that of some moment of the history, because a page is written whenever the cache
  decides to.  The properties say that the passes of recovery bring it to the committed part of the
  history, whatever that moment was, and that undoing all of a history gives the page of its beginning.
\<close>

section \<open>Histories\<close>

fun run_ops :: "dbh \<Rightarrow> (page_op \<times> db_lsn) list \<Rightarrow> page \<Rightarrow> (page \<times> (db_lsn \<times> log_rec) list) res" where
  "run_ops d [] pg = Done (pg, [])"
| "run_ops d ((op, l) # h) pg =
     (case run_op d op l pg of
        Fail e \<Rightarrow> Fail e
      | Done (q, r) \<Rightarrow> (case run_ops d h q of Fail e \<Rightarrow> Fail e | Done (q', rs) \<Rightarrow> Done (q', (l, r) # rs)))"

text \<open>Recovery calls the functions of the records one after the other, and stops at an error.\<close>

fun roll :: "db_recops \<Rightarrow> dbh \<Rightarrow> (db_lsn \<times> log_rec) list \<Rightarrow> page \<Rightarrow> page res" where
  "roll rop d [] pg = Done pg"
| "roll rop d ((l, r) # rs) pg = (case recover rop d l r pg of Fail e \<Rightarrow> Fail e | Done q \<Rightarrow> roll rop d rs q)"

definition lsn_less :: "db_lsn \<Rightarrow> db_lsn \<Rightarrow> bool" where
  "lsn_less a b \<longleftrightarrow> LOG_COMPARE a b < 0"

text \<open>The operations of a history are allowed when they are done, and the log goes forward.\<close>

fun history :: "dbh \<Rightarrow> byte \<Rightarrow> byte list list \<Rightarrow> db_lsn \<Rightarrow> (page_op \<times> db_lsn) list \<Rightarrow> bool" where
  "history d ty items l0 [] \<longleftrightarrow> True"
| "history d ty items l0 ((op, l) # h) \<longleftrightarrow>
     op_ok d ty items op \<and> lsn_less l0 l \<and> history d ty (op_items ty op items) l h"

fun items_after :: "byte \<Rightarrow> byte list list \<Rightarrow> (page_op \<times> db_lsn) list \<Rightarrow> byte list list" where
  "items_after ty items [] = items"
| "items_after ty items ((op, l) # h) = items_after ty (op_items ty op items) h"

fun lsn_after :: "db_lsn \<Rightarrow> (page_op \<times> db_lsn) list \<Rightarrow> db_lsn" where
  "lsn_after l0 [] = l0"
| "lsn_after l0 ((op, l) # h) = lsn_after l h"

fun log_of :: "byte \<Rightarrow> byte list list \<Rightarrow> db_lsn \<Rightarrow> (page_op \<times> db_lsn) list \<Rightarrow> (db_lsn \<times> log_rec) list \<Rightarrow> bool" where
  "log_of ty items l0 [] recs \<longleftrightarrow> recs = []"
| "log_of ty items l0 ((op, l) # h) recs \<longleftrightarrow>
     (\<exists>r rs. recs = (l, r) # rs \<and> rec_pagelsn r = l0 \<and> rec_for items op (rec_body r)
        \<and> log_of ty (op_items ty op items) l h rs)"

lemma history_append [simp]:
  "history d ty items l0 (g @ h) \<longleftrightarrow> history d ty items l0 g \<and> history d ty (items_after ty items g) (lsn_after l0 g) h"
  by (induction g arbitrary: items l0) auto

lemma log_of_append:
  "log_of ty items l0 (g @ h) recs \<longleftrightarrow>
     (\<exists>r1 r2. recs = r1 @ r2 \<and> log_of ty items l0 g r1 \<and> log_of ty (items_after ty items g) (lsn_after l0 g) h r2)"
proof (induction g arbitrary: items l0 recs)
  case Nil
  then show ?case by simp
next
  case (Cons a g)
  obtain op l where a: "a = (op, l)" by (cases a)
  show ?case unfolding a append_Cons log_of.simps items_after.simps lsn_after.simps Cons.IH by (metis append_Cons)
qed

lemma log_of_length: "log_of ty items l0 h recs \<Longrightarrow> length recs = length h"
  by (induction h arbitrary: items l0 recs) auto

lemma after_append [simp]:
  "items_after ty items (g @ h) = items_after ty (items_after ty items g) h"
  "lsn_after l0 (g @ h) = lsn_after (lsn_after l0 g) h"
  by (induction g arbitrary: items l0) auto

lemma roll_append: "roll rop d (r1 @ r2) pg = (case roll rop d r1 pg of Fail e \<Rightarrow> Fail e | Done q \<Rightarrow> roll rop d r2 q)"
  by (induction r1 arbitrary: pg) (auto split: res.splits)

lemma lsn_less_iff: "lsn_less a b \<longleftrightarrow> fst a < fst b \<or> fst a = fst b \<and> snd a < snd b"
  by (auto simp: lsn_less_def LOG_COMPARE_def)

lemma LOG_COMPARE_pos: "0 < LOG_COMPARE a b \<longleftrightarrow> lsn_less b a"
  by (auto simp: lsn_less_iff LOG_COMPARE_def)

lemma lsn_less_trans: "lsn_less a b \<Longrightarrow> lsn_less b c \<Longrightarrow> lsn_less a c"
  by (auto simp: lsn_less_iff)

lemma lsn_less_irrefl [simp]: "\<not> lsn_less a a" by (simp add: lsn_less_iff)

abbreviation lsn_le :: "db_lsn \<Rightarrow> db_lsn \<Rightarrow> bool" where "lsn_le a b \<equiv> a = b \<or> lsn_less a b"

lemma history_lsn: "history d ty items l0 h \<Longrightarrow> lsn_le l0 (lsn_after l0 h)"
proof (induction h arbitrary: items l0)
  case Nil
  then show ?case by simp
next
  case (Cons a h)
  obtain op l where a: "a = (op, l)" by (cases a)
  have "lsn_less l0 l" "lsn_le l (lsn_after l h)" using Cons.prems Cons.IH [of "op_items ty op items" l] by (simp_all add: a)
  then have "lsn_less l0 (lsn_after l h)" by (metis lsn_less_trans)
  then show ?case by (simp add: a)
qed

subsection \<open>The log of a history\<close>

lemma page_is_used: "page_is d ty l items pg \<Longrightarrow> page_used d items \<le> pgsize d"
proof -
  assume "page_is d ty l items pg"
  then obtain its where "holds d pg its" "same_items its items" by (auto simp: page_is_def)
  then show ?thesis
    using holdsD(3,4,6) [of d pg its] page_used_same [of its items d] by (simp add: page_used_def)
qed

lemma run_ops_log:
  "page_is d ty l0 items pg \<Longrightarrow> history d ty items l0 h \<Longrightarrow>
     \<exists>q recs. run_ops d h pg = Done (q, recs) \<and> log_of ty items l0 h recs
       \<and> page_is d ty (lsn_after l0 h) (items_after ty items h) q"
proof (induction h arbitrary: items l0 pg)
  case Nil
  then show ?case by simp
next
  case (Cons a h)
  obtain op l where a: "a = (op, l)" by (cases a)
  have h: "op_ok d ty items op" "history d ty (op_items ty op items) l h" using Cons.prems(2) by (simp_all add: a)
  obtain q r where q: "run_op d op l pg = Done (q, r)" "rec_pagelsn r = l0" "rec_for items op (rec_body r)"
    "page_is d ty l (op_items ty op items) q" using run_op_page [OF Cons.prems(1) h(1)] by blast
  show ?case using Cons.IH [OF q(4) h(2)] q by (auto simp: a)
qed

lemma redo_history:
  "page_is d ty l0 items pg \<Longrightarrow> history d ty items l0 h \<Longrightarrow> log_of ty items l0 h recs \<Longrightarrow> DB_REDO rop \<Longrightarrow>
     \<exists>q. roll rop d recs pg = Done q \<and> page_is d ty (lsn_after l0 h) (items_after ty items h) q"
proof (induction h arbitrary: items l0 pg recs)
  case Nil
  then show ?case by simp
next
  case (Cons a h)
  obtain op l where a: "a = (op, l)" by (cases a)
  have h: "op_ok d ty items op" "history d ty (op_items ty op items) l h" using Cons.prems(2) by (simp_all add: a)
  obtain r rs where r: "recs = (l, r) # rs" "rec_pagelsn r = l0" "rec_for items op (rec_body r)"
    "log_of ty (op_items ty op items) l h rs" using Cons.prems(3) by (auto simp: a)
  obtain q where q: "recover rop d l r pg = Done q" "page_is d ty l (op_items ty op items) q"
    using redo_page [OF _ h(1) r(3) Cons.prems(4), of pg l] Cons.prems(1) r(2) by blast
  show ?case using Cons.IH [OF q(2) h(2) r(4) Cons.prems(4)] q(1) by (simp add: a r(1))
qed

lemma undo_history:
  "page_is d ty l0 items p0 \<Longrightarrow> page_is d ty (lsn_after l0 h) (items_after ty items h) pg \<Longrightarrow> history d ty items l0 h \<Longrightarrow>
     log_of ty items l0 h recs \<Longrightarrow> DB_UNDO rop \<Longrightarrow>
     \<exists>q. roll rop d (rev recs) pg = Done q \<and> page_is d ty l0 items q"
proof (induction h arbitrary: items l0 p0 recs)
  case Nil
  then show ?case by simp
next
  case (Cons a h)
  obtain op l where a: "a = (op, l)" by (cases a)
  have h: "op_ok d ty items op" "history d ty (op_items ty op items) l h" using Cons.prems(3) by (simp_all add: a)
  obtain r rs where r: "recs = (l, r) # rs" "rec_pagelsn r = l0" "rec_for items op (rec_body r)"
    "log_of ty (op_items ty op items) l h rs" using Cons.prems(4) by (auto simp: a)
  obtain p1 where p1: "page_is d ty l (op_items ty op items) p1" using run_op_page [OF Cons.prems(1) h(1)] by blast
  obtain q where q: "roll rop d (rev rs) pg = Done q" "page_is d ty l (op_items ty op items) q"
    using Cons.IH [OF p1 _ h(2) r(4) Cons.prems(5)] Cons.prems(2) by (auto simp: a)
  obtain q' where "recover rop d l r q = Done q'" "page_is d ty l0 items q'"
    using undo_page [OF q(2) h(1) r(3) Cons.prems(5) page_is_used [OF Cons.prems(1)]] r(2) by blast
  then show ?case using q(1) by (simp add: r(1) roll_append)
qed

text \<open>A record whose change is on the page already, or not yet, changes nothing.\<close>

lemma change_none:
  assumes "\<not> (LOG_COMPARE (lsn pg) (rec_pagelsn r) = 0 \<and> DB_REDO rop)" "\<not> (LOG_COMPARE l (lsn pg) = 0 \<and> DB_UNDO rop)"
    "\<not> CHECK_LSN rop (LOG_COMPARE (lsn pg) (rec_pagelsn r)) (lsn pg)" "\<not> CHECK_ABORT rop (LOG_COMPARE l (lsn pg)) (lsn pg)"
  shows "recover rop d l r pg = Done pg"
  using assms
  by (auto simp: recover_def Let_def addrem_change_def repl_change_def cdel_change_def split: rec_body.split)

lemma redo_skip:
  "history d ty items l0 h \<Longrightarrow> log_of ty items l0 h recs \<Longrightarrow> lsn_le (lsn_after l0 h) (lsn pg) \<Longrightarrow>
     roll DB_TXN_FORWARD_ROLL d recs pg = Done pg"
proof (induction h arbitrary: items l0 recs)
  case Nil
  then show ?case by simp
next
  case (Cons a h)
  obtain op l where a: "a = (op, l)" by (cases a)
  have h: "lsn_less l0 l" "history d ty (op_items ty op items) l h" using Cons.prems(1) by (simp_all add: a)
  obtain r rs where r: "recs = (l, r) # rs" "rec_pagelsn r = l0" "log_of ty (op_items ty op items) l h rs"
    using Cons.prems(2) by (auto simp: a)
  have "lsn_less l0 (lsn pg)" using h history_lsn [OF h(2)] Cons.prems(3) by (auto simp: a intro: lsn_less_trans)
  then have "0 < LOG_COMPARE (lsn pg) l0" by (simp add: LOG_COMPARE_pos)
  then have "recover DB_TXN_FORWARD_ROLL d l r pg = Done pg"
    by (intro change_none) (simp_all add: r(2) CHECK_LSN_def CHECK_ABORT_def DB_UNDO_def del: LOG_COMPARE_0)
  then show ?case using Cons.IH [OF h(2) r(3)] Cons.prems(3) by (simp add: a r(1))
qed

lemma undo_skip:
  "history d ty items l0 h \<Longrightarrow> log_of ty items l0 h recs \<Longrightarrow> lsn_le (lsn pg) l0 \<Longrightarrow>
     roll DB_TXN_BACKWARD_ROLL d (rev recs) pg = Done pg"
proof (induction h arbitrary: items l0 recs)
  case Nil
  then show ?case by simp
next
  case (Cons a h)
  obtain op l where a: "a = (op, l)" by (cases a)
  have h: "lsn_less l0 l" "history d ty (op_items ty op items) l h" using Cons.prems(1) by (simp_all add: a)
  obtain r rs where r: "recs = (l, r) # rs" "rec_pagelsn r = l0" "log_of ty (op_items ty op items) l h rs"
    using Cons.prems(2) by (auto simp: a)
  have lt: "lsn_less (lsn pg) l" using h(1) Cons.prems(3) by (auto intro: lsn_less_trans)
  then have "0 < LOG_COMPARE l (lsn pg)" by (simp add: LOG_COMPARE_pos)
  then have "recover DB_TXN_BACKWARD_ROLL d l r pg = Done pg"
    by (intro change_none) (simp_all add: CHECK_LSN_def CHECK_ABORT_def DB_REDO_def del: LOG_COMPARE_0)
  then show ?case using Cons.IH [OF h(2) r(3)] lt by (simp add: r(1) roll_append)
qed

section \<open>Properties\<close>

text \<open>Two pages have the same type, the same sequence number and the same items up to the padding.\<close>

definition same_page :: "dbh \<Rightarrow> page \<Rightarrow> page \<Rightarrow> bool" where
  "same_page d p q \<longleftrightarrow> (\<exists>ty l items. page_is d ty l items p \<and> page_is d ty l items q)"

lemma log_take_drop:
  assumes "log_of ty items l0 h recs"
  shows "log_of ty items l0 (take c h) (take c recs)"
    "log_of ty (items_after ty items (take c h)) (lsn_after l0 (take c h)) (drop c h) (drop c recs)"
proof -
  obtain r1 r2 where r: "recs = r1 @ r2" "log_of ty items l0 (take c h) r1"
    "log_of ty (items_after ty items (take c h)) (lsn_after l0 (take c h)) (drop c h) r2"
    using assms log_of_append [of ty items l0 "take c h" "drop c h" recs] by auto
  have n: "length r1 = length (take c h)" "length recs = length h" using log_of_length r(2) assms by blast+
  have "take c recs = r1 \<and> drop c recs = r2"
    using r(1) n by (cases "c \<le> length h") auto
  then show "log_of ty items l0 (take c h) (take c recs)"
    "log_of ty (items_after ty items (take c h)) (lsn_after l0 (take c h)) (drop c h) (drop c recs)" using r by simp_all
qed

lemma history_take_drop:
  assumes "history d ty items l0 h"
  shows "history d ty items l0 (take c h)" "history d ty (items_after ty items (take c h)) (lsn_after l0 (take c h)) (drop c h)"
  using assms history_append [of d ty items l0 "take c h" "drop c h"] by simp_all

lemma recover_moment:
  assumes p0: "page_is d ty l0 items p0" and h: "history d ty items l0 h" and log: "log_of ty items l0 h recs"
    and pm: "page_is d ty (lsn_after l0 (take m h)) (items_after ty items (take m h)) pm"
  shows "\<exists>q1 q. roll DB_TXN_BACKWARD_ROLL d (rev (drop c recs)) pm = Done q1 \<and> roll DB_TXN_FORWARD_ROLL d (take c recs) q1 = Done q
    \<and> page_is d ty (lsn_after l0 (take c h)) (items_after ty items (take c h)) q"
proof (cases "c \<le> m")
  case True
  let ?it = "items_after ty items (take c h)" and ?l = "lsn_after l0 (take c h)"
  let ?mid = "take (m - c) (drop c h)"
  note hc = history_take_drop [OF h, of c] and lc = log_take_drop [OF log, of c]
  note hm = history_take_drop [OF hc(2), of "m - c"] and lm = log_take_drop [OF lc(2), of "m - c"]
  have tm: "take m h = take c h @ ?mid" using True by (metis le_add_diff_inverse take_add)
  have lsn: "lsn pm = lsn_after ?l ?mid" using pm by (simp add: page_is_def tm)
  obtain pc where pc: "page_is d ty ?l ?it pc" using run_ops_log [OF p0 hc(1)] by blast
  have s: "roll DB_TXN_BACKWARD_ROLL d (rev (drop (m - c) (drop c recs))) pm = Done pm"
    using undo_skip [OF hm(2) lm(2)] lsn by simp
  obtain q1 where q1: "roll DB_TXN_BACKWARD_ROLL d (rev (take (m - c) (drop c recs))) pm = Done q1" "page_is d ty ?l ?it q1"
    using undo_history [OF pc _ hm(1) lm(1), of pm DB_TXN_BACKWARD_ROLL] pm by (auto simp: tm DB_UNDO_def)
  have "rev (drop c recs) = rev (drop (m - c) (drop c recs)) @ rev (take (m - c) (drop c recs))"
    by (metis append_take_drop_id rev_append)
  then have "roll DB_TXN_BACKWARD_ROLL d (rev (drop c recs)) pm = Done q1" using s q1(1) by (simp add: roll_append)
  moreover have "roll DB_TXN_FORWARD_ROLL d (take c recs) q1 = Done q1"
    using redo_skip [OF hc(1) lc(1), of q1] q1(2) by (auto simp: page_is_def)
  ultimately show ?thesis using q1(2) by blast
next
  case False
  let ?it = "items_after ty items (take m h)" and ?l = "lsn_after l0 (take m h)"
  let ?mid = "take (c - m) (drop m h)"
  note hc = history_take_drop [OF h, of c] and lc = log_take_drop [OF log, of c]
  note hm = history_take_drop [OF h, of m] and lm = log_take_drop [OF log, of m]
  note hd = history_take_drop [OF hm(2), of "c - m"] and ld = log_take_drop [OF lm(2), of "c - m"]
  have tc: "take c h = take m h @ ?mid" "take c recs = take m recs @ take (c - m) (drop m recs)"
    using False by (metis le_add_diff_inverse nat_le_linear take_add)+
  have lsn: "lsn pm = ?l" using pm by (simp add: page_is_def)
  have "lsn_le (lsn pm) (lsn_after l0 (take c h))" using history_lsn [OF hd(1)] lsn by (simp add: tc(1))
  then have s: "roll DB_TXN_BACKWARD_ROLL d (rev (drop c recs)) pm = Done pm" by (rule undo_skip [OF hc(2) lc(2)])
  have f: "roll DB_TXN_FORWARD_ROLL d (take m recs) pm = Done pm" using redo_skip [OF hm(1) lm(1), of pm] lsn by simp
  obtain q where "roll DB_TXN_FORWARD_ROLL d (take (c - m) (drop m recs)) pm = Done q"
    "page_is d ty (lsn_after ?l ?mid) (items_after ty ?it ?mid) q"
    using redo_history [OF pm hd(1) ld(1), of DB_TXN_FORWARD_ROLL] by (auto simp: DB_REDO_def)
  then show ?thesis using s f by (simp add: tc roll_append)
qed

lemma run_ops_moment:
  assumes "page_is d ty l0 items p0" "history d ty items l0 h"
  obtains pm rm where "run_ops d (take m h) p0 = Done (pm, rm)"
    "page_is d ty (lsn_after l0 (take m h)) (items_after ty items (take m h)) pm"
  using run_ops_log [OF assms(1) history_take_drop(1) [OF assms(2), of m]] by blast

text \<open>C5: after a crash, the page on disk is that of any moment \<open>m\<close> of a history of logged operations, of which the
  first \<open>c\<close> are committed.  The backward pass over the others, then the forward pass over the committed ones, both run
  without error, no check of the sequence numbers included, and give the page that the committed operations had made.\<close>

theorem crash_recovery:
  assumes "page_is d ty l0 items p0" "history d ty items l0 h"
  shows "\<exists>pe recs pm rm pc rc q1 q.
     run_ops d h p0 = Done (pe, recs) \<and> run_ops d (take m h) p0 = Done (pm, rm) \<and> run_ops d (take c h) p0 = Done (pc, rc)
     \<and> roll DB_TXN_BACKWARD_ROLL d (rev (drop c recs)) pm = Done q1 \<and> roll DB_TXN_FORWARD_ROLL d (take c recs) q1 = Done q
     \<and> same_page d q pc"
proof -
  obtain pe recs where e: "run_ops d h p0 = Done (pe, recs)" "log_of ty items l0 h recs" using run_ops_log [OF assms] by blast
  obtain pm rm where m: "run_ops d (take m h) p0 = Done (pm, rm)"
    "page_is d ty (lsn_after l0 (take m h)) (items_after ty items (take m h)) pm" by (rule run_ops_moment [OF assms])
  obtain pc rc where c: "run_ops d (take c h) p0 = Done (pc, rc)"
    "page_is d ty (lsn_after l0 (take c h)) (items_after ty items (take c h)) pc" by (rule run_ops_moment [OF assms])
  show ?thesis using recover_moment [OF assms e(2) m(2), of c] e(1) m(1) c unfolding same_page_def by blast
qed

text \<open>C10: undoing a history from its last record to its first, as the abort of a transaction does, runs without error and
  gives back the page of the beginning, its sequence number included.\<close>

theorem abort_restores_page:
  assumes "page_is d ty l0 items p0" "history d ty items l0 h"
  shows "\<exists>pe recs q. run_ops d h p0 = Done (pe, recs) \<and> roll DB_TXN_ABORT d (rev recs) pe = Done q \<and> same_page d q p0"
proof -
  obtain pe recs where e: "run_ops d h p0 = Done (pe, recs)" "log_of ty items l0 h recs"
    "page_is d ty (lsn_after l0 h) (items_after ty items h) pe" using run_ops_log [OF assms] by blast
  have "DB_UNDO DB_TXN_ABORT" by (simp add: DB_UNDO_def)
  from undo_history [OF assms(1) e(3) assms(2) e(2) this] show ?thesis
    using e(1) assms(1) unfolding same_page_def by blast
qed

subsection \<open>A history\<close>

definition demo_history :: "(page_op \<times> db_lsn) list" where
  "demo_history = [(OpAdd 0 8 None (Some [65, 66]), (1, 100)), (OpAdd 1 4 None (Some [97]), (1, 160)),
     (OpRepl 1 [98, 99], (1, 220)), (OpDel 0, (2, 28)), (OpRem 0 8, (2, 80))]"

lemma demo_history_ok:
  "page_is small_db (ptype small_page) (lsn small_page) [] small_page"
  "history small_db (ptype small_page) [] (lsn small_page) demo_history"
proof -
  show "page_is small_db (ptype small_page) (lsn small_page) [] small_page"
    using small_page_holds by (auto simp: page_is_def)
  have "bk_item 1 [97] [1, 0, 1, 97]" by (simp add: bk_item_def BKEYDATA_SIZE_def le_enc2)
  then have "\<exists>t old. bk_item t old [1, 0, 1, 97]" by blast
  moreover have "\<not> B_DISSET (B_TYPE 1)" "\<not> B_DISSET 1" by code_simp+
  ultimately show "history small_db (ptype small_page) [] (lsn small_page) demo_history"
    by (auto simp: demo_history_def small_page_def small_db_def page_used_def P_OVERHEAD_def BKEYDATA_SIZE_def bytes_of_def
      item_bytes_def bkeydata_hdr_def padded_def le_enc2 lsn_less_iff type_indx_def
      P_LBTREE_def P_IBTREE_def B_KEYDATA_def)
qed

theorem crash_recovery_witness:
  "\<exists>pe recs pm rm pc rc q1 q.
     run_ops small_db demo_history small_page = Done (pe, recs) \<and> run_ops small_db (take 4 demo_history) small_page = Done (pm, rm)
     \<and> run_ops small_db (take 2 demo_history) small_page = Done (pc, rc)
     \<and> roll DB_TXN_BACKWARD_ROLL small_db (rev (drop 2 recs)) pm = Done q1 \<and> roll DB_TXN_FORWARD_ROLL small_db (take 2 recs) q1 = Done q
     \<and> same_page small_db q pc"
  by (rule crash_recovery [OF demo_history_ok])

theorem abort_restores_page_witness:
  "\<exists>pe recs q. run_ops small_db demo_history small_page = Done (pe, recs) \<and> roll DB_TXN_ABORT small_db (rev recs) pe = Done q
     \<and> same_page small_db q small_page"
  by (rule abort_restores_page [OF demo_history_ok])

end
