(* ===== verification/Bt_Cursor.thy ===== *)
theory Bt_Cursor
  imports Bt_Tree
begin

text \<open>
  The search of a cursor, \<open>__bamc_search\<close> of \<open>src/db/src/btree/bt_cursor.c\<close>: a search to insert first looks at
  the page of the last insertion, when that was the first or the last slot of the tree, and goes down
  from the root only when the key does not belong there.  The cursor is a fresh one of the tree itself
  (no bulk cursor, no record numbers, no tree of off-page duplicates, no subdatabase).  The property says
  that the shortcut is an optimisation: it finds the same place as the search from the root.
\<close>

section \<open>The code\<close>

datatype cflag = DB_SET | DB_SET_RANGE | DB_GET_BOTH_RANGE | DB_KEYFIRST | DB_KEYLAST | DB_NOOVERWRITE | DB_NODUPDATA
  | DB_OVERWRITE_DUP

definition DB_LOCK_DEADLOCK :: int where "DB_LOCK_DEADLOCK = - 30993"
definition DB_LOCK_NOTGRANTED :: int where "DB_LOCK_NOTGRANTED = - 30992"

definition SR_NONE :: "bool \<Rightarrow> sflags" where
  "SR_NONE w = \<lparr>sr_write = w, sr_min = False, sr_max = False, sr_exact = False, sr_dupfirst = False, sr_duplast = False,
     sr_delno = False\<rparr>"

definition SR_FIND :: "bool \<Rightarrow> sflags" where "SR_FIND w = (SR_NONE w)\<lparr>sr_dupfirst := True, sr_delno := True\<rparr>"
definition SR_KEYFIRST :: sflags where "SR_KEYFIRST = (SR_NONE True)\<lparr>sr_dupfirst := True\<rparr>"
definition SR_KEYLAST :: sflags where "SR_KEYLAST = (SR_NONE True)\<lparr>sr_duplast := True\<rparr>"

text \<open>The flags of the search, and whether the page of the last insertion is tried.\<close>

definition search_flags :: "bool \<Rightarrow> cflag \<Rightarrow> sflags \<times> bool" where
  "search_flags rmw fl =
     (case fl of
        DB_SET \<Rightarrow> ((SR_FIND rmw)\<lparr>sr_exact := True\<rparr>, False)
      | DB_GET_BOTH_RANGE \<Rightarrow> (SR_FIND rmw, False)
      | DB_SET_RANGE \<Rightarrow> ((SR_NONE rmw)\<lparr>sr_dupfirst := True\<rparr>, False)
      | DB_KEYFIRST \<Rightarrow> (SR_KEYFIRST, True) | DB_NOOVERWRITE \<Rightarrow> (SR_KEYFIRST, True)
      | DB_KEYLAST \<Rightarrow> (SR_KEYLAST, True) | DB_NODUPDATA \<Rightarrow> (SR_KEYLAST, True) | DB_OVERWRITE_DUP \<Rightarrow> (SR_KEYLAST, True))"

text \<open>The label \<open>fast_hit\<close>: the first or the last of the duplicates.\<close>

definition fast_edge :: "sflags \<Rightarrow> dbh \<Rightarrow> page \<Rightarrow> nat \<Rightarrow> nat" where
  "fast_edge fl d h i =
     (if sr_dupfirst fl then dup_down d (mem h) 2 (\<lambda>_. True) i
      else if sr_duplast fl then dup_up d (mem h) 2 (unat (entries h - 2)) (\<lambda>_. True) i else i)"

text \<open>A place on the page, or a miss, with the code that it returns.  A comparison without an offset starts at 0.\<close>

datatype fast = Hit nat bool | Miss int

definition bam_fast ::
    "btree_h \<Rightarrow> pager \<Rightarrow> stream \<Rightarrow> byte list \<Rightarrow> sflags \<Rightarrow> page \<Rightarrow> (pager \<times> stream \<times> fast) option" where
  "bam_fast B s c key fl h =
     (let d = pdb (bt_env B);
          low = (\<lambda>s c. if prev_pgno h = PGNO_INVALID then
                   (case bam_cmp B s c key h 0 (bt_cmp B) 0 of
                      None \<Rightarrow> None
                    | Some (s2, c2, e, r, l) \<Rightarrow>
                        Some (s2, c2, if e \<noteq> 0 then Miss e
                                      else if r \<le> 0 then Hit (if r = 0 then fast_edge fl d h 0 else 0) (r = 0) else Miss 0))
                 else Some (s, c, Miss 0))
      in if ptype h \<noteq> P_LBTREE \<or> NUM_ENT h = 0 then Some (s, c, Miss 0)
         else if next_pgno h = PGNO_INVALID then
           (let indx = NUM_ENT h - 2 in
            case bam_cmp B s c key h indx (bt_cmp B) 0 of
              None \<Rightarrow> None
            | Some (s1, c1, e, r, l) \<Rightarrow>
                if e \<noteq> 0 then Some (s1, c1, Miss e)
                else if r > 0 then Some (s1, c1, Hit (indx + 2) False)
                else if r = 0 then Some (s1, c1, Hit (fast_edge fl d h indx) True)
                else low s1 c1)
         else low s c)"

text \<open>\<open>lp\<close> is \<open>bt_lpgno\<close>, the page of the last insertion.  The label \<open>fast_miss\<close> gives the page back.\<close>

definition bamc_search ::
    "btree_h \<Rightarrow> bool \<Rightarrow> pager \<Rightarrow> stream \<Rightarrow> u32 \<Rightarrow> u32 \<Rightarrow> byte list \<Rightarrow> cflag
      \<Rightarrow> (pager \<times> stream \<times> int \<times> (u32 \<times> nat \<times> bool) option) option" where
  "bamc_search B rmw s c lp root key op =
     (let E = bt_env B; c0 = c\<lparr>stream_start := PGNO_INVALID\<rparr>; (fl, try) = search_flags rmw op;
          full = (\<lambda>s c. bam_search B False s c root key fl)
      in if \<not> try \<or> lp = PGNO_INVALID then full s c0
         else (case memp_fget E s lp of (s1, e) \<Rightarrow>
           if e \<noteq> 0 then
             (if e = DB_LOCK_DEADLOCK \<or> e = DB_LOCK_NOTGRANTED \<or> e = DB_PAGE_NOTFOUND then full s1 c0
              else Some (s1, c0, e, None))
           else (case bam_fast B s1 c0 key fl (pg_of s1 lp) of
               None \<Rightarrow> None
             | Some (s2, c2, Hit i ex) \<Rightarrow> Some (s2, c2, 0, Some (lp, i, ex))
             | Some (s2, c2, Miss r) \<Rightarrow>
                 (case memp_fput E s2 lp of (s3, t) \<Rightarrow>
                    let c3 = c2\<lparr>stream_start := PGNO_INVALID\<rparr>; e = keep r t in
                    if e \<noteq> 0 then Some (s3, c3, e, None) else full s3 c3))))"

section \<open>The shortcut finds the place of the key\<close>

text \<open>A page of the file that is a leaf is one of the tree; without a next page it is the last one, without a previous one the first.\<close>

definition edges_linked :: "pager \<Rightarrow> bt \<Rightarrow> bool" where
  "edges_linked s t \<longleftrightarrow>
     (\<forall>n h. pages s n = Some h \<longrightarrow> ptype h = P_LBTREE \<longrightarrow>
        (\<exists>us ks vs. bt_leaves t = us @ (n, ks) # vs \<and> (next_pgno h = PGNO_INVALID \<longrightarrow> vs = [])
           \<and> (prev_pgno h = PGNO_INVALID \<longrightarrow> us = [])))"

context key_order
begin

lemma fast_edge_edge:
  assumes "leaf_ok f E s h ks" "j < length ks" "\<not> (sr_dupfirst fl \<and> sr_duplast fl)"
  shows "fast_edge fl d h (2 * j) = dup_edge fl d h (2 * j)"
proof -
  have ty: "ptype h = P_LBTREE" "NUM_ENT h = 2 * length ks" using assms(1) by (simp_all add: leaf_ok_def)
  show ?thesis
  proof (cases "NUM_ENT h > 2")
    case False
    then have j: "j = 0" "length ks = 1" using assms(2) ty(2) by auto
    then have "unat (entries h - 2) = 0" using leaf_entries [OF assms(1)] by (cases ks) auto
    then show ?thesis
      using j False by (simp add: fast_edge_def dup_edge_def dup_down.simps [of d _ 2 _ 0] dup_up.simps [of d _ 2 0 _ 0])
  qed (use assms(3) ty(1) in \<open>auto simp: fast_edge_def dup_edge_def\<close>)
qed

lemma stop_above:
  assumes l: "leaf_ok f E s h ks" and "ks \<noteq> []" "0 < cmp_of f key (last ks)" "\<not> sr_exact fl"
  shows "stop_ok f fl d h key ks (length ks) False"
proof -
  have "0 < cmp_of f key (ks ! j)" if "j < length ks" for j
  proof -
    have lt: "cmp_of f (last ks) key < 0" using assms(3) cmp_less_swap by blast
    have "cmp_of f (ks ! j) (last ks) \<le> 0 \<or> j = length ks - 1"
      using leaf_sorted [OF l, of j "length ks - 1"] that assms(2) by (auto simp: last_conv_nth)
    then show ?thesis
      using le_less_trans [OF _ lt] cmp_less_swap assms(2,3) by (auto simp: last_conv_nth)
  qed
  then show ?thesis using assms(4) by (simp add: stop_ok_def splits_at_def)
qed

lemma stop_below:
  assumes l: "leaf_ok f E s h ks" and "ks \<noteq> []" "cmp_of f key (hd ks) < 0" "\<not> sr_exact fl"
  shows "stop_ok f fl d h key ks 0 False"
proof -
  have "cmp_of f key (ks ! j) < 0" if "j < length ks" for j
  proof (cases j)
    case (Suc i)
    then have "cmp_of f (hd ks) (ks ! j) \<le> 0" using leaf_sorted [OF l, of 0 j] that assms(2) by (simp add: hd_conv_nth)
    then show ?thesis using less_trans assms(3) by blast
  qed (use assms(2,3) in \<open>simp add: hd_conv_nth\<close>)
  moreover have "\<not> unread h j" for j using l by (simp add: leaf_ok_def unread_def P_IBTREE_def P_LBTREE_def)
  ultimately show ?thesis using assms(4) by (simp add: stop_ok_def splits_at_def)
qed

lemma stop_equal:
  assumes l: "leaf_ok f E s h ks" and j: "j < length ks" "cmp_of f key (ks ! j) = 0"
    and fl: "\<not> sr_delno fl" "\<not> (sr_dupfirst fl \<and> sr_duplast fl)"
  shows "\<exists>j'. fast_edge fl (pdb E) h (2 * j) = 2 * j' \<and> stop_ok f fl (pdb E) h key ks j' True"
  using dup_edge_spec [OF l j, of fl] fast_edge_edge [OF l j(1) fl(2)] fl by (auto simp: stop_ok_def)

text \<open>What a hit on a leaf means.\<close>

definition fast_ok :: "penv \<Rightarrow> sflags \<Rightarrow> page \<Rightarrow> byte list \<Rightarrow> byte list list \<Rightarrow> fast \<Rightarrow> bool" where
  "fast_ok E fl h key ks r \<longleftrightarrow>
     (case r of
        Miss e \<Rightarrow> no_io_errors E \<longrightarrow> e = 0
      | Hit i ex \<Rightarrow> (\<exists>j. i = 2 * j \<and> stop_ok f fl (pdb E) h key ks j ex) \<and> ks \<noteq> []
          \<and> (next_pgno h = PGNO_INVALID \<and> 0 \<le> cmp_of f key (last ks) \<or> prev_pgno h = PGNO_INVALID \<and> cmp_of f key (hd ks) \<le> 0))"

lemma fast_leaf:
  assumes l: "leaf_ok f (bt_env B) s h ks" and f: "f = bt_cmp B"
    and fl: "\<not> sr_delno fl" "\<not> (sr_dupfirst fl \<and> sr_duplast fl)" "\<not> sr_exact fl"
  shows "\<exists>t r. bam_fast B s c key fl h = Some (t, c, r) \<and> quiet (bt_env B) s t \<and> fast_ok (bt_env B) fl h key ks r"
proof -
  let ?E = "bt_env B"
  have ty: "ptype h = P_LBTREE" "NUM_ENT h = 2 * length ks" using l by (simp_all add: leaf_ok_def)
  have cmp: "\<exists>t e r l. bam_cmp B s c key h (2 * j) f 0 = Some (t, c, e, r, l) \<and> quiet ?E s t
      \<and> (no_io_errors ?E \<longrightarrow> e = 0) \<and> (e = 0 \<longrightarrow> sgn r = sgn (cmp_of f key (ks ! j)))"
    if "leaf_ok f ?E s h ks" "j < length ks" for s j
  proof -
    have "key_for f ?E s h (2 * j) (ks ! j)"
      using that by (simp add: leaf_ok_def page_keys_def unread_def P_IBTREE_def P_LBTREE_def mult.commute)
    moreover have "ptype h = P_LBTREE \<or> ptype h = P_IBTREE \<and> 0 < 2 * j" using ty(1) by simp
    ultimately show ?thesis using bam_cmp_for [of f B s h "2 * j" "ks ! j" 0 key c] by blast
  qed
  show ?thesis
  proof (cases "ks = []")
    case True
    then have "bam_fast B s c key fl h = Some (s, c, Miss 0)" using ty by (simp add: bam_fast_def Let_def)
    then show ?thesis by (auto simp: fast_ok_def)
  next
    case ks: False
    define low where "low = (\<lambda>s. if prev_pgno h = PGNO_INVALID then
        (case bam_cmp B s c key h 0 f 0 of None \<Rightarrow> None
         | Some (s2, c2, e, r, l) \<Rightarrow>
             Some (s2, c2, if e \<noteq> 0 then Miss e
                           else if r \<le> 0 then Hit (if r = 0 then fast_edge fl (pdb ?E) h 0 else 0) (r = 0) else Miss 0))
        else Some (s, c, Miss 0))"
    have low: "\<exists>t r. low s1 = Some (t, c, r) \<and> quiet ?E s1 t \<and> fast_ok ?E fl h key ks r" if l1: "leaf_ok f ?E s1 h ks" for s1
    proof (cases "prev_pgno h = PGNO_INVALID")
      case True
      have z: "2 * (0 :: nat) = 0" "0 < length ks" using ks by simp_all
      from cmp [OF l1 z(2), unfolded z(1)] obtain t e r lo where
        1: "bam_cmp B s1 c key h 0 f 0 = Some (t, c, e, r, lo)" "quiet ?E s1 t" "no_io_errors ?E \<longrightarrow> e = 0"
        "e = 0 \<longrightarrow> sgn r = sgn (cmp_of f key (ks ! 0))" by blast
      define R where "R = (if e \<noteq> 0 then Miss e
        else if r \<le> 0 then Hit (if r = 0 then fast_edge fl (pdb ?E) h 0 else 0) (r = 0) else Miss 0)"
      have "low s1 = Some (t, c, R)" using True 1(1) by (simp add: low_def R_def)
      moreover have "fast_ok ?E fl h key ks R"
      proof (cases "e = 0 \<and> r \<le> 0")
        case le: True
        have h0: "hd ks = ks ! 0" using ks by (simp add: hd_conv_nth)
        show ?thesis
        proof (cases "r = 0")
          case True
          then have "cmp_of f key (ks ! 0) = 0" using 1(4) le by (simp add: sgn_if split: if_splits)
          then show ?thesis
            using stop_equal [OF l1 z(2) _ fl(1,2)] le True h0 ks \<open>prev_pgno h = PGNO_INVALID\<close> by (auto simp: R_def fast_ok_def)
        next
          case False
          then have "cmp_of f key (ks ! 0) < 0" using 1(4) le by (auto simp: sgn_if split: if_splits)
          then show ?thesis
            using stop_below [OF l1 ks _ fl(3)] le False h0 ks \<open>prev_pgno h = PGNO_INVALID\<close>
            by (auto simp: R_def fast_ok_def intro: exI [of _ 0])
        qed
      qed (use 1(3) in \<open>auto simp: R_def fast_ok_def\<close>)
      ultimately show ?thesis using 1(2) by blast
    qed (auto simp: low_def fast_ok_def)
    show ?thesis
    proof (cases "next_pgno h = PGNO_INVALID")
      case False
      then have "bam_fast B s c key fl h = low s" using ty ks by (simp add: bam_fast_def Let_def low_def f)
      then show ?thesis using low [OF l] by simp
    next
      case True
      define j where "j = length ks - 1"
      have j: "j < length ks" "NUM_ENT h - 2 = 2 * j" "last ks = ks ! j" "Suc j = length ks"
        using ks ty(2) by (simp_all add: j_def last_conv_nth)
      from cmp [OF l j(1)] obtain s1 e r lo where
        1: "bam_cmp B s c key h (2 * j) f 0 = Some (s1, c, e, r, lo)" "quiet ?E s s1" "no_io_errors ?E \<longrightarrow> e = 0"
        "e = 0 \<longrightarrow> sgn r = sgn (cmp_of f key (ks ! j))" by blast
      have "same_pages s s1" using 1(2) by (simp add: quiet_def)
      from leaf_ok_same [OF this] l have l1: "leaf_ok f ?E s1 h ks" by blast
      have run: "bam_fast B s c key fl h =
          (if e \<noteq> 0 then Some (s1, c, Miss e) else if r > 0 then Some (s1, c, Hit (2 * j + 2) False)
           else if r = 0 then Some (s1, c, Hit (fast_edge fl (pdb ?E) h (2 * j)) True) else low s1)"
        using ty ks True 1(1) unfolding bam_fast_def Let_def j(2) low_def f by simp
      show ?thesis
      proof (cases "e = 0 \<and> 0 \<le> r")
        case False
        then show ?thesis
        proof (cases "e = 0")
          case True
          then have "bam_fast B s c key fl h = low s1" using run False by simp
          then show ?thesis using low [OF l1] quiet_trans [OF 1(2)] by auto
        qed (use run 1(2,3) in \<open>auto simp: fast_ok_def\<close>)
      next
        case ge: True
        show ?thesis
        proof (cases "r = 0")
          case r0: True
          then have z: "cmp_of f key (ks ! j) = 0" using 1(4) ge by (simp add: sgn_if split: if_splits)
          from stop_equal [OF l j(1) z fl(1,2)] have "fast_ok ?E fl h key ks (Hit (fast_edge fl (pdb ?E) h (2 * j)) True)"
            using z True ks j(3) by (auto simp: fast_ok_def)
          then show ?thesis using run r0 ge 1(2) by auto
        next
          case False
          then have z: "0 < cmp_of f key (ks ! j)" using 1(4) ge by (auto simp: sgn_if split: if_splits)
          have "fast_ok ?E fl h key ks (Hit (2 * j + 2) False)"
            using stop_above [OF l ks _ fl(3)] z True ks j(3,4) by (auto simp: fast_ok_def intro!: exI [of _ "Suc j"])
          then show ?thesis using run False ge 1(2) by auto
        qed
      qed
    qed
  qed
qed

end

section \<open>Properties\<close>

lemma stop_unique:
  assumes "stop_ok f fl d h key ks j ex" "stop_ok f fl d h key ks j' ex'" "\<not> sr_delno fl" "sr_dupfirst fl \<noteq> sr_duplast fl"
    and "leaf_ok f E s h ks"
  shows "j = j' \<and> ex = ex'"
proof -
  have un: "\<not> unread h i" for i using assms(5) by (simp add: leaf_ok_def unread_def P_IBTREE_def P_LBTREE_def)
  have mixed: False if "stop_ok f fl d h key ks a True" "stop_ok f fl d h key ks b False" for a b
  proof -
    have "a < length ks" "cmp_of f key (ks ! a) = 0" "splits_at f h key ks b b" using that by (simp_all add: stop_ok_def)
    then show False using un by (cases "a < b") (auto simp: splits_at_def)
  qed
  have both: "\<not> a < b" if "stop_ok f fl d h key ks a x" "stop_ok f fl d h key ks b x" for a b x
  proof (cases x)
    case True
    then show ?thesis using that assms(3,4) by (auto simp: stop_ok_def split: if_splits)
  next
    case False
    then have "splits_at f h key ks a a" "splits_at f h key ks b b" "b \<le> length ks" using that by (simp_all add: stop_ok_def)
    then show ?thesis using un by (auto simp: splits_at_def) (metis le_refl not_less_iff_gr_or_eq order_less_le_trans)
  qed
  have ex: "ex = ex'" using mixed assms(1,2) by (cases ex; cases ex') auto
  then have "\<not> j < j'" "\<not> j' < j" using both assms(1,2) by blast+
  then show ?thesis using ex by simp
qed

lemma leaf_keys_unique:
  assumes "leaf_ok f E s h ks" "leaf_ok f E s h ks'"
  shows "ks = ks'"
proof (rule nth_equalityI)
  show l: "length ks = length ks'" using assms by (simp add: leaf_ok_def)
  fix j assume j: "j < length ks"
  have "key_at E s h (2 * j) (xs ! j)" if "leaf_ok f E s h xs" "j < length xs" for xs
    using that by (simp add: leaf_ok_def page_keys_def unread_def key_for_def P_IBTREE_def P_LBTREE_def mult.commute)
  then show "ks ! j = ks' ! j" using key_at_unique assms j l by metis
qed

context key_order
begin

lemma routed_unique:
  "bt_rep f E s l t \<Longrightarrow> bt_sorted f t \<Longrightarrow> routed f key t n \<Longrightarrow> routed f key t n' \<Longrightarrow> n = n'"
proof (induction l arbitrary: t)
  case (Suc l)
  show ?case
  proof (cases t)
    case (Nd m ks ts)
    have len: "length ts = length ks" and rep: "\<And>j. j < length ts \<Longrightarrow> bt_rep f E s l (ts ! j)"
      and so: "\<And>j. j < length ts \<Longrightarrow> bt_sorted f (ts ! j)"
      and st: "\<And>i j. 0 < i \<Longrightarrow> i < j \<Longrightarrow> j < length ks \<Longrightarrow> cmp_of f (ks ! i) (ks ! j) < 0"
      using Suc.prems(1,2) Nd by auto
    have one: "\<not> i < j" if "i < length ts" "j < length ts" "Suc i < length ts \<longrightarrow> cmp_of f key (ks ! Suc i) < 0"
      "0 < j \<longrightarrow> cmp_of f (ks ! j) key \<le> 0" for i j
    proof
      assume ij: "i < j"
      then have a: "cmp_of f key (ks ! Suc i) < 0" and b: "cmp_of f (ks ! j) key \<le> 0" using that by auto
      have "cmp_of f (ks ! j) (ks ! Suc i) < 0" using le_less_trans [OF b a] .
      moreover have "cmp_of f (ks ! Suc i) (ks ! j) \<le> 0"
        using st [of "Suc i" j] ij that(2) len cmp_le_swap [of "ks ! j" "ks ! j"] swap [of "ks ! j" "ks ! j"]
        by (cases "Suc i = j") (auto simp: sgn_if split: if_splits)
      ultimately show False using cmp_less_swap [of "ks ! j" "ks ! Suc i"] by simp
    qed
    obtain j where j: "j < length ts" "0 < j \<longrightarrow> cmp_of f (ks ! j) key \<le> 0" "Suc j < length ts \<longrightarrow> cmp_of f key (ks ! Suc j) < 0"
      "routed f key (ts ! j) n" using Suc.prems(3) Nd by auto
    obtain j' where j': "j' < length ts" "0 < j' \<longrightarrow> cmp_of f (ks ! j') key \<le> 0"
      "Suc j' < length ts \<longrightarrow> cmp_of f key (ks ! Suc j') < 0" "routed f key (ts ! j') n'" using Suc.prems(4) Nd by auto
    have "j = j'" using one [OF j(1) j'(1) j(3) j'(2)] one [OF j'(1) j(1) j'(3) j(2)] by simp
    then show ?thesis using Suc.IH [OF rep [OF j(1)] so [OF j(1)] j(4)] j'(4) by simp
  qed (use Suc.prems in auto)
qed simp

end

text \<open>The place that a search finds is the only one.\<close>

lemma place_unique:
  assumes K: "key_order f" and rep: "bt_rep f E s l t" "bt_sorted f t" and fl: "\<not> sr_delno fl" "sr_dupfirst fl \<noteq> sr_duplast fl"
    and loc: "located f key t (\<lambda>m ks. m = n \<and> (\<exists>j. i = 2 * j \<and> stop_ok f fl (pdb E) (pg_of s n) key ks j ex))"
    and loc': "located f key t (\<lambda>m ks. m = n' \<and> (\<exists>j. i' = 2 * j \<and> stop_ok f fl (pdb E) (pg_of s n') key ks j ex'))"
  shows "(n, i, ex) = (n', i', ex')"
proof -
  obtain ks j where 1: "(n, ks) \<in> set (bt_leaves t)" "i = 2 * j" "stop_ok f fl (pdb E) (pg_of s n) key ks j ex" "routed f key t n"
    using loc unfolding located_def by force
  obtain ks' j' where 2: "(n', ks') \<in> set (bt_leaves t)" "i' = 2 * j'" "stop_ok f fl (pdb E) (pg_of s n') key ks' j' ex'" "routed f key t n'"
    using loc' unfolding located_def by force
  have n: "n = n'" using key_order.routed_unique [OF K rep 1(4) 2(4)] .
  have l: "leaf_ok f E s (pg_of s n) ks" "leaf_ok f E s (pg_of s n) ks'"
    using bt_rep_leaf [OF rep(1)] 1(1) 2(1) n by blast+
  have "ks = ks'" using leaf_keys_unique [OF l] .
  from stop_unique [OF 1(3) 2(3) [folded n this] fl l(1)] show ?thesis using n 1(2) 2(2) by simp
qed

lemma hit_is_found:
  assumes K: "key_order f" and rep: "bt_rep f E s l t" and fl: "\<not> sr_delno fl" "sr_dupfirst fl \<noteq> sr_duplast fl"
    and loc: "located f key t (\<lambda>m ks. m = n \<and> (\<exists>j. i = 2 * j \<and> stop_ok f fl (pdb E) (pg_of s n) key ks j ex))"
    and leaf: "bt_leaves t = us @ (lp, ks) # vs"
    and edge: "next_pgno (pg_of s lp) = PGNO_INVALID \<longrightarrow> vs = []" "prev_pgno (pg_of s lp) = PGNO_INVALID \<longrightarrow> us = []"
    and hit: "key_order.fast_ok f E fl (pg_of s lp) key ks (Hit i' ex')"
  shows "(n, i, ex) = (lp, i', ex')"
proof -
  obtain us' ks' vs' j where
    1: "bt_leaves t = us' @ (n, ks') # vs'" "i = 2 * j" "stop_ok f fl (pdb E) (pg_of s n) key ks' j ex"
    and lo: "\<forall>k \<in> set (concat (map snd us')). 0 < cmp_of f key k" and hi: "\<forall>k \<in> set (concat (map snd vs')). cmp_of f key k < 0"
    using loc unfolding located_def by blast
  obtain j' where 2: "ks \<noteq> []" "i' = 2 * j'" "stop_ok f fl (pdb E) (pg_of s lp) key ks j' ex'"
    and at: "next_pgno (pg_of s lp) = PGNO_INVALID \<and> 0 \<le> cmp_of f key (last ks)
      \<or> prev_pgno (pg_of s lp) = PGNO_INVALID \<and> cmp_of f key (hd ks) \<le> 0"
    using hit unfolding key_order.fast_ok_def [OF K] by auto
  have "(n, ks') = (lp, ks)"
    using at
  proof
    assume a: "next_pgno (pg_of s lp) = PGNO_INVALID \<and> 0 \<le> cmp_of f key (last ks)"
    then have eq: "us' @ (n, ks') # vs' = us @ [(lp, ks)]" using leaf edge(1) 1(1) by simp
    show ?thesis
    proof (cases vs' rule: rev_cases)
      case (snoc xs x)
      then have "x = (lp, ks)" using eq by (metis append_Cons append_assoc last_snoc)
      then have "last ks \<in> set (concat (map snd vs'))" using snoc 2(1) by simp
      then have "cmp_of f key (last ks) < 0" using hi by blast
      then show ?thesis using a by linarith
    qed (use eq in simp)
  next
    assume a: "prev_pgno (pg_of s lp) = PGNO_INVALID \<and> cmp_of f key (hd ks) \<le> 0"
    then have eq: "us' @ (n, ks') # vs' = (lp, ks) # vs" using leaf edge(2) 1(1) by simp
    show ?thesis
    proof (cases us')
      case (Cons x xs)
      then have "hd ks \<in> set (concat (map snd us'))" using eq 2(1) by simp
      then have "0 < cmp_of f key (hd ks)" using lo by blast
      then show ?thesis using a by linarith
    qed (use eq in simp)
  qed
  then have e: "n = lp" "ks' = ks" by simp_all
  have "leaf_ok f E s (pg_of s lp) ks" using bt_rep_leaf [OF rep, of lp ks] leaf by simp
  from stop_unique [OF 1(3) [unfolded e] 2(3) fl this] show ?thesis using e(1) 1(2) 2(2) by simp
qed

lemma full_search:
  assumes "bt_rep (bt_cmp B) (bt_env B) s l t" "bt_sorted (bt_cmp B) t" "key_order (bt_cmp B)" "no_io_errors (bt_env B)"
    and fl: "\<not> sr_delno fl" "\<not> sr_exact fl" "\<not> sr_min fl" "\<not> sr_max fl"
  shows "\<exists>u n i ex. bam_search B False s c (bt_pgno t) key fl = Some (u, c, 0, Some (n, i, ex)) \<and> same_pages s u
    \<and> m_locks u = m_locks s \<and> pins u = (pins s)(n := pins s n + 1)
    \<and> located (bt_cmp B) key t (\<lambda>m ks. m = n \<and> (\<exists>j. i = 2 * j \<and> stop_ok (bt_cmp B) fl (pdb (bt_env B)) (pg_of s n) key ks j ex))"
proof -
  have f: "bt_cmp B = (if False then dup_cmp B else bt_cmp B)" by simp
  from search_finds [OF assms(3,1,2) fl(3,4) f, of c key] obtain u e r where
    1: "bam_search B False s c (bt_pgno t) key fl = Some (u, c, e, r)"
       "search_result (bt_cmp B) (bt_env B) fl key t s u e r" by blast
  have "r \<noteq> None"
  proof
    assume "r = None"
    then have "located (bt_cmp B) key t (\<lambda>n ks. none_ok (bt_cmp B) fl (pdb (bt_env B)) (pg_of s n) key ks)"
      using 1(2) assms(4) by (simp add: search_result_def)
    then show False using fl(1,2) by (auto simp: located_def none_ok_def)
  qed
  then obtain n i ex where r: "r = Some (n, i, ex)" by (cases r) auto
  have "\<forall>k. put_io (bt_env B) k = 0" using assms(4) by (simp add: no_io_errors_def)
  then have "m_locks u = m_locks s" "pins u = (pins s)(n := pins s n + 1)" using 1(2) r by (auto simp: search_result_def)
  then show ?thesis using 1 r by (auto simp: search_result_def)
qed

text \<open>The search from the root finds the place again, from any state with the same pages.\<close>

lemma full_again:
  assumes rep: "bt_rep (bt_cmp B) (bt_env B) s l t" "bt_sorted (bt_cmp B) t" "key_order (bt_cmp B)" "no_io_errors (bt_env B)"
    and fl: "\<not> sr_delno fl" "\<not> sr_exact fl" "\<not> sr_min fl" "\<not> sr_max fl" "sr_dupfirst fl \<noteq> sr_duplast fl"
    and loc: "located (bt_cmp B) key t (\<lambda>m ks. m = n \<and> (\<exists>j. i = 2 * j \<and> stop_ok (bt_cmp B) fl (pdb (bt_env B)) (pg_of s n) key ks j ex))"
    and sp: "same_pages s s1" "pins s1 = pins s"
  shows "\<exists>u. bam_search B False s1 c1 (bt_pgno t) key fl = Some (u, c1, 0, Some (n, i, ex)) \<and> pages u = pages s
    \<and> pins u = (pins s)(n := pins s n + 1)"
proof -
  let ?E = "bt_env B"
  have rep1: "bt_rep (bt_cmp B) ?E s1 l t" using bt_rep_same [OF sp(1)] rep(1) by blast
  have pe: "pg_of s1 = pg_of s" using sp(1) by (intro ext) (simp add: same_pages_def pg_of_def)
  obtain u n' i' ex' where u: "bam_search B False s1 c1 (bt_pgno t) key fl = Some (u, c1, 0, Some (n', i', ex'))"
    "same_pages s1 u" "pins u = (pins s1)(n' := pins s1 n' + 1)"
    and loc': "located (bt_cmp B) key t (\<lambda>m ks. m = n' \<and> (\<exists>j. i' = 2 * j \<and> stop_ok (bt_cmp B) fl (pdb ?E) (pg_of s n') key ks j ex'))"
    using full_search [OF rep1 rep(2-4) fl(1-4), of c1 key] unfolding pe by blast
  have "(n', i', ex') = (n, i, ex)" by (rule place_unique [OF rep(3,1,2) fl(1,5) loc' loc])
  then show ?thesis using u sp by (auto simp: same_pages_def)
qed

text \<open>The page of the last insertion is missed, or it has the place.\<close>

lemma fast_agrees:
  assumes rep: "bt_rep (bt_cmp B) (bt_env B) s l t" "bt_sorted (bt_cmp B) t" "key_order (bt_cmp B)" "no_io_errors (bt_env B)"
    and links: "edges_linked s t"
    and fl: "\<not> sr_delno fl" "\<not> sr_exact fl" "\<not> sr_min fl" "\<not> sr_max fl" "sr_dupfirst fl \<noteq> sr_duplast fl"
    and loc: "located (bt_cmp B) key t (\<lambda>m ks. m = n \<and> (\<exists>j. i = 2 * j \<and> stop_ok (bt_cmp B) fl (pdb (bt_env B)) (pg_of s n) key ks j ex))"
    and sp: "same_pages s s1" and pg: "pages s lp \<noteq> None"
  shows "\<exists>s2 r. bam_fast B s1 c key fl (pg_of s1 lp) = Some (s2, c, r) \<and> quiet (bt_env B) s1 s2
    \<and> (r = Miss 0 \<or> (\<exists>i' ex'. r = Hit i' ex' \<and> (lp, i', ex') = (n, i, ex)))"
proof -
  let ?E = "bt_env B"
  obtain h where h: "pages s lp = Some h" using pg by blast
  have h1: "pg_of s1 lp = h" "pg_of s lp = h" using h sp by (simp_all add: same_pages_def pg_of_def)
  show ?thesis
  proof (cases "ptype h = P_LBTREE")
    case False
    then show ?thesis by (auto simp: bam_fast_def Let_def h1(1))
  next
    case True
    then obtain us ks vs where leaf: "bt_leaves t = us @ (lp, ks) # vs"
      and edge: "next_pgno h = PGNO_INVALID \<longrightarrow> vs = []" "prev_pgno h = PGNO_INVALID \<longrightarrow> us = []"
      using links h unfolding edges_linked_def by blast
    have lf: "leaf_ok (bt_cmp B) ?E s1 h ks"
      using bt_rep_leaf [OF rep(1), of lp ks] leaf leaf_ok_same [OF sp] h1 by simp
    have nd: "\<not> (sr_dupfirst fl \<and> sr_duplast fl)" using fl(5) by blast
    from key_order.fast_leaf [OF rep(3) lf refl fl(1) nd fl(2), of c key] obtain s2 r where
      2: "bam_fast B s1 c key fl h = Some (s2, c, r)" "quiet ?E s1 s2"
      and fo: "key_order.fast_ok (bt_cmp B) ?E fl h key ks r" by blast
    have "r = Miss 0 \<or> (\<exists>i' ex'. r = Hit i' ex' \<and> (lp, i', ex') = (n, i, ex))"
    proof (cases r)
      case (Hit i' ex')
      from hit_is_found [OF rep(3,1) fl(1,5) loc leaf edge [folded h1(2)] fo [folded h1(2), unfolded Hit]]
      show ?thesis using Hit by simp
    next
      case (Miss e)
      then show ?thesis using fo rep(4) by (simp add: key_order.fast_ok_def [OF rep(3)])
    qed
    then show ?thesis using 2 h1(1) by auto
  qed
qed

text \<open>C8: a search to insert that first tries the page of the last insertion, whatever page that is, returns
  the same place as the search from the root, in a tree whose first and last leaves are those without a
  neighbour; the pages are untouched and the page of the place is the only one that stays pinned.\<close>

theorem shortcut_agrees_with_search:
  assumes "bt_rep (bt_cmp B) (bt_env B) s l t" "bt_sorted (bt_cmp B) t" "key_order (bt_cmp B)" "no_io_errors (bt_env B)"
    and "edges_linked s t" "op \<noteq> DB_SET" "op \<noteq> DB_SET_RANGE" "op \<noteq> DB_GET_BOTH_RANGE"
  shows "\<exists>u v c' n i ex. bamc_search B rmw s c lp (bt_pgno t) key op = Some (u, c', 0, Some (n, i, ex))
    \<and> bam_search B False s c (bt_pgno t) key (fst (search_flags rmw op)) = Some (v, c, 0, Some (n, i, ex))
    \<and> pages u = pages s \<and> pins u = (pins s)(n := pins s n + 1)"
proof -
  let ?E = "bt_env B"
  define fl where "fl = fst (search_flags rmw op)"
  have fl: "\<not> sr_delno fl" "\<not> sr_exact fl" "\<not> sr_min fl" "\<not> sr_max fl" "sr_dupfirst fl \<noteq> sr_duplast fl"
    and sf: "search_flags rmw op = (fl, True)"
    using assms(6-8) by (cases op; simp add: fl_def search_flags_def SR_KEYFIRST_def SR_KEYLAST_def SR_NONE_def)+
  define c0 where "c0 = c\<lparr>stream_start := PGNO_INVALID\<rparr>"
  note io = assms(4) [unfolded no_io_errors_def]
  obtain v n i ex where v: "bam_search B False s c (bt_pgno t) key fl = Some (v, c, 0, Some (n, i, ex))"
    and loc: "located (bt_cmp B) key t (\<lambda>m ks. m = n \<and> (\<exists>j. i = 2 * j \<and> stop_ok (bt_cmp B) fl (pdb ?E) (pg_of s n) key ks j ex))"
    using full_search [OF assms(1-4) fl(1-4), of c key] by blast
  have full: "\<exists>u. bam_search B False s1 c1 (bt_pgno t) key fl = Some (u, c1, 0, Some (n, i, ex)) \<and> pages u = pages s
      \<and> pins u = (pins s)(n := pins s n + 1)" if "same_pages s s1" "pins s1 = pins s" for s1 c1
    by (rule full_again [OF assms(1-4) fl loc that])
  have "\<exists>u c'. bamc_search B rmw s c lp (bt_pgno t) key op = Some (u, c', 0, Some (n, i, ex)) \<and> pages u = pages s
      \<and> pins u = (pins s)(n := pins s n + 1)"
  proof (cases "lp = PGNO_INVALID")
    case True
    then show ?thesis using full [of s c0] by (auto simp: bamc_search_def Let_def sf c0_def)
  next
    case lp: False
    obtain s1 e1 where 1: "memp_fget ?E s lp = (s1, e1)" by fastforce
    note G = memp_fget_spec [OF 1]
    show ?thesis
    proof (cases "e1 = 0")
      case False
      then have e: "e1 = DB_PAGE_NOTFOUND" "pins s1 = pins s"
        using 1 io G(3) by (auto simp: memp_fget_def split: if_splits)
      then show ?thesis using full [of s1 c0] G(1) lp False 1 by (auto simp: bamc_search_def Let_def sf c0_def)
    next
      case True
      have pg: "pages s lp \<noteq> None" using G(4) True lp by (auto simp: PGNO_INVALID_def)
      then obtain h where h: "pages s lp = Some h" by blast
      have h1: "pg_of s1 lp = h" "pg_of s lp = h" using h G(1) by (simp_all add: same_pages_def pg_of_def)
      from fast_agrees [OF assms(1-5) fl loc G(1) pg, of c0, unfolded h1(1)] obtain s2 r where
        2: "bam_fast B s1 c0 key fl h = Some (s2, c0, r)" "quiet ?E s1 s2"
        and r: "r = Miss 0 \<or> (\<exists>i' ex'. r = Hit i' ex' \<and> (lp, i', ex') = (n, i, ex))" by blast
      have p2: "same_pages s s2" "pins s2 = (pins s)(lp := pins s lp + 1)"
        using 2(2) G(1,3) True io same_pages_trans by (auto simp: quiet_def)
      show ?thesis
        using r
      proof
        assume r: "r = Miss 0"
        obtain s3 e3 where 3: "memp_fput ?E s2 lp = (s3, e3)" by fastforce
        have e3: "e3 = 0" "same_pages s s3" "pins s3 = pins s"
          using memp_fput_spec [OF 3] io p2 same_pages_trans by auto
        from full [OF e3(2,3), of c0] obtain u where
          u: "bam_search B False s3 c0 (bt_pgno t) key fl = Some (u, c0, 0, Some (n, i, ex))" "pages u = pages s"
            "pins u = (pins s)(n := pins s n + 1)" by blast
        have "c0\<lparr>stream_start := PGNO_INVALID\<rparr> = c0" by (simp add: c0_def)
        then have "bamc_search B rmw s c lp (bt_pgno t) key op = Some (u, c0, 0, Some (n, i, ex))"
          using lp 1 True 2(1) r 3 e3(1) u(1) h1(1) by (simp add: bamc_search_def Let_def sf c0_def keep_def)
        then show ?thesis using u(2,3) by blast
      next
        assume "\<exists>i' ex'. r = Hit i' ex' \<and> (lp, i', ex') = (n, i, ex)"
        then have "r = Hit i ex" "lp = n" by auto
        then have "bamc_search B rmw s c lp (bt_pgno t) key op = Some (s2, c0, 0, Some (n, i, ex))"
          using lp 1 True 2(1) h1(1) by (simp add: bamc_search_def Let_def sf c0_def)
        then show ?thesis using p2 \<open>lp = n\<close> by (auto simp: same_pages_def)
      qed
    qed
  qed
  then show ?thesis using v unfolding fl_def by blast
qed

text \<open>The last leaf of the tree is the page of the last insertion, and the key goes behind its last item.\<close>

theorem shortcut_agrees_with_search_witness:
  "\<exists>u v c' n i ex. bamc_search demo_handle True demo_pages no_stream 3 1 [68] DB_KEYLAST = Some (u, c', 0, Some (n, i, ex))
    \<and> bam_search demo_handle False demo_pages no_stream 1 [68] SR_KEYLAST = Some (v, no_stream, 0, Some (n, i, ex))
    \<and> pages u = pages demo_pages"
proof -
  have e: "edges_linked demo_pages demo_tree"
    by (auto simp: edges_linked_def demo_pages_def demo_tree_def demo_leaf_def demo_root_def PGNO_INVALID_def
        P_IBTREE_def P_LBTREE_def Cons_eq_append_conv split: if_splits)
  have rep: "bt_rep (bt_cmp demo_handle) (bt_env demo_handle) demo_pages 2 demo_tree" "bt_sorted (bt_cmp demo_handle) demo_tree"
    "key_order (bt_cmp demo_handle)"
    using demo_rep demo_sorted default_order.key_order_axioms by simp_all
  have t: "bt_pgno demo_tree = 1" "fst (search_flags True DB_KEYLAST) = SR_KEYLAST"
    by (simp_all add: demo_tree_def search_flags_def)
  have op: "DB_KEYLAST \<noteq> DB_SET" "DB_KEYLAST \<noteq> DB_SET_RANGE" "DB_KEYLAST \<noteq> DB_GET_BOTH_RANGE" by simp_all
  show ?thesis
    using shortcut_agrees_with_search [OF rep demo_env(3) e op, of True no_stream 3 "[68]", unfolded t] by blast
qed

end
