(* ===== verification/Bt_Put.thy ===== *)
theory Bt_Put
  imports Bt_Cursor Bt_Item
begin

text \<open>
  Storing and reading a record of a btree: \<open>__bam_iitem\<close> and \<open>__bam_ovput\<close> of \<open>src/db/src/btree/bt_put.c\<close>,
  \<open>__bam_ditem\<close> and \<open>__bam_adjindx\<close> of \<open>bt_delete.c\<close>, \<open>__bamc_put\<close> and the \<open>DB_SET\<close> case of \<open>__bamc_get\<close> of
  \<open>bt_cursor.c\<close>, \<open>__db_ret\<close> and \<open>__db_retcopy\<close> of \<open>src/db/src/db/db_ret.c\<close>, and what \<open>__db_put\<close> and
  \<open>__db_get\<close> add to them.  The database has no duplicates and no record numbers, records are stored
  whole, and the cursor of the call is the only one, so that \<open>__bam_ca_di\<close> and \<open>__bam_ca_delete\<close> have
  nothing to adjust.  Where \<open>__bamc_put\<close> would split the leaf and start again, the model ends with
  \<open>DB_NEEDSPLIT\<close>.
\<close>

section \<open>Changing a page in the pool\<close>

definition P_IRECNO :: byte where "P_IRECNO = 4"
definition B_DUPLICATE :: byte where "B_DUPLICATE = 2"
definition BBLOB_SIZE :: nat where "BBLOB_SIZE = 80"
definition BBLOB_PSIZE :: nat where "BBLOB_PSIZE = BBLOB_SIZE + 2"
definition RINTERNAL_SIZE :: nat where "RINTERNAL_SIZE = 8"
definition DB_NEEDSPLIT :: int where "DB_NEEDSPLIT = - 30895"
definition DB_KEYEXIST :: int where "DB_KEYEXIST = - 30994"

text \<open>\<open>__db_pitem\<close>, \<open>__db_ditem\<close> and \<open>__bam_ritem\<close> on a page of the pool, with the log of the environment.\<close>

definition page_pitem :: "penv \<Rightarrow> pager \<Rightarrow> u32 \<Rightarrow> nat \<Rightarrow> nat \<Rightarrow> byte list option \<Rightarrow> byte list option \<Rightarrow> pager \<times> int" where
  "page_pitem E s n indx nbytes hdr data =
     (case log_put E s of (s1, e, l) \<Rightarrow>
        if e \<noteq> 0 then (s1, e)
        else (let pg = (pg_of s1 n)\<lparr>lsn := l\<rparr> in
              case db_pitem_nolog (pdb E) pg indx nbytes hdr data of
                None \<Rightarrow> (upd_pg s1 n (\<lambda>_. pg), 22)
              | Some q \<Rightarrow> (upd_pg s1 n (\<lambda>_. q), 0)))"

definition page_ditem :: "penv \<Rightarrow> pager \<Rightarrow> u32 \<Rightarrow> nat \<Rightarrow> nat \<Rightarrow> pager \<times> int" where
  "page_ditem E s n indx nbytes =
     (case log_put E s of (s1, e, l) \<Rightarrow>
        if e \<noteq> 0 then (s1, e) else (upd_pg s1 n (\<lambda>p. db_ditem_nolog (pdb E) (p\<lparr>lsn := l\<rparr>) indx nbytes), 0))"

definition page_ritem :: "penv \<Rightarrow> pager \<Rightarrow> u32 \<Rightarrow> nat \<Rightarrow> byte list \<Rightarrow> pager \<times> int" where
  "page_ritem E s n indx data =
     (let ty = bk_type (mem (pg_of s n)) (inp (pdb E) (mem (pg_of s n)) indx) in
      case log_put E s of (s1, e, l) \<Rightarrow>
        if e \<noteq> 0 then (s1, e)
        else (upd_pg s1 n (\<lambda>p. bam_ritem_nolog (pdb E) (p\<lparr>lsn := l\<rparr>) indx None (Some data) ty), 0))"

definition bam_adjindx :: "penv \<Rightarrow> pager \<Rightarrow> u32 \<Rightarrow> nat \<Rightarrow> nat \<Rightarrow> bool \<Rightarrow> pager \<times> int" where
  "bam_adjindx E s n indx indx_copy is_insert =
     (let d = pdb E; at = (\<lambda>i. P_OVERHEAD d + 2 * i) in
      case log_put E s of (s1, e, l) \<Rightarrow>
        if e \<noteq> 0 then (s1, e)
        else (upd_pg s1 n (\<lambda>p.
          let m = mem p; k = NUM_ENT p in
          if is_insert then
            (let m1 = (if indx \<noteq> k then memmove_in (at (indx + 1)) (at indx) (2 * (k - indx)) m else m)
             in p\<lparr>lsn := l, mem := set_inp d indx (inp d m indx_copy) m1, entries := entries p + 1\<rparr>)
          else
            (let k' = unat (entries p - 1);
                 m1 = (if indx \<noteq> k' then memmove_in (at indx) (at (indx + 1)) (2 * (k' - indx)) m else m)
             in p\<lparr>lsn := l, mem := m1, entries := entries p - 1\<rparr>)), 0))"

section \<open>Deleting an item\<close>

text \<open>What is off the page goes first: an overflow chain, or a blob, whose deletion is one call with a code.\<close>

definition item_ditem :: "penv \<Rightarrow> pager \<Rightarrow> u32 \<Rightarrow> nat \<Rightarrow> (pager \<times> int) option" where
  "item_ditem E s n indx =
     (let m = mem (pg_of s n); p = inp (pdb E) m indx; t = B_TYPE (bk_type m p) in
      if t = B_DUPLICATE then Some (page_ditem E s n indx BOVERFLOW_SIZE)
      else if t = B_OVERFLOW then
        (case db_doff E s (bo_pgno m p) of
           None \<Rightarrow> None
         | Some (s1, e) \<Rightarrow> if e \<noteq> 0 then Some (s1, e) else Some (page_ditem E s1 n indx BOVERFLOW_SIZE))
      else if t = B_BLOB then
        (if io E (tick s) \<noteq> 0 then Some (tock s, io E (tick s)) else Some (page_ditem E (tock s) n indx BBLOB_SIZE))
      else if t = B_KEYDATA then Some (page_ditem E s n indx (BKEYDATA_SIZE (bk_len m p)))
      else Some (s, DB_RUNRECOVERY))"

definition bam_ditem :: "penv \<Rightarrow> pager \<Rightarrow> u32 \<Rightarrow> nat \<Rightarrow> (pager \<times> int) option" where
  "bam_ditem E s n indx =
     (let d = pdb E; h = pg_of s n; m = mem h; p = inp d m indx; ty = ptype h; t = B_TYPE (bk_type m p) in
      if ty = P_IBTREE then
        (if t = B_DUPLICATE \<or> t = B_KEYDATA then Some (page_ditem E s n indx (BINTERNAL_SIZE (bk_len m p)))
         else if t = B_OVERFLOW then
           (case db_doff E s (bo_pgno m (p + 12)) of
              None \<Rightarrow> None
            | Some (s1, e) \<Rightarrow>
                if e \<noteq> 0 then Some (s1, e) else Some (page_ditem E s1 n indx (BINTERNAL_SIZE (bk_len m p))))
         else Some (s, DB_RUNRECOVERY))
      else if ty = P_IRECNO then Some (page_ditem E s n indx RINTERNAL_SIZE)
      else if ty = P_LBTREE \<and> indx mod 2 = 0 \<and> indx + 2 < NUM_ENT h \<and> inp d m indx = inp d m (indx + 2) then
        Some (bam_adjindx E s n indx (indx + 1) False)
      else if ty = P_LBTREE \<and> indx mod 2 = 0 \<and> 0 < indx \<and> inp d m indx = inp d m (indx - 2) then
        Some (bam_adjindx E s n indx (indx - 2) False)
      else if ty = P_LBTREE \<or> ty = P_LDUP \<or> ty = P_LRECNO then item_ditem E s n indx
      else Some (s, DB_RUNRECOVERY))"

section \<open>Inserting an item\<close>

text \<open>A \<open>BOVERFLOW\<close>; the unused bytes are zero here, nothing reads them.\<close>

definition boverflow :: "byte \<Rightarrow> u32 \<Rightarrow> nat \<Rightarrow> byte list" where
  "boverflow ty n tlen = [0, 0, B_TYPE ty, 0] @ le_enc 4 (unat n) @ le_enc 4 tlen"

definition whole :: "byte list \<Rightarrow> dbt" where
  "whole xs = \<lparr>dt_data = xs, dt_size = length xs, dt_ulen = 0, dt_dlen = 0, dt_doff = 0, dt_partial = False, dt_mode = RETBUF\<rparr>"

definition bam_ovput ::
    "penv \<Rightarrow> pager \<Rightarrow> stream \<Rightarrow> byte \<Rightarrow> u32 \<Rightarrow> u32 \<Rightarrow> nat \<Rightarrow> byte list \<Rightarrow> pager \<times> int \<times> stream" where
  "bam_ovput E s c ty pg n indx item =
     (if ty = B_OVERFLOW then
        (case db_poff E s c (whole item) False PGNO_INVALID of (s1, e, c1, p) \<Rightarrow>
           if e \<noteq> 0 then (s1, e, c1)
           else (case page_pitem E s1 n indx BOVERFLOW_SIZE (Some (boverflow ty p (length item))) None of
                   (s2, e) \<Rightarrow> (s2, e, c1)))
      else (case page_pitem E s n indx BOVERFLOW_SIZE (Some (boverflow ty pg 0)) None of (s2, e) \<Rightarrow> (s2, e, c)))"

text \<open>
  The size from which items go to overflow pages, whether the call is in a transaction, the page limit
  of the file, and the replacement of the data of an item that is a blob.
\<close>

record put_cfg =
  ovflsize :: nat
  in_txn :: bool
  maxpgno :: u32
  put_blob :: "pager \<Rightarrow> u32 \<Rightarrow> nat \<Rightarrow> byte list \<Rightarrow> pager \<times> int"

datatype iiop = II_KEYFIRST | II_CURRENT

definition data_slot :: "page \<Rightarrow> nat \<Rightarrow> nat" where
  "data_slot h indx = indx + (if ptype h = P_LBTREE then 1 else 0)"

definition slot_type :: "dbh \<Rightarrow> page \<Rightarrow> nat \<Rightarrow> byte" where
  "slot_type d h i = B_TYPE (bk_type (mem h) (inp d (mem h) i))"

definition item_psize :: "put_cfg \<Rightarrow> nat \<Rightarrow> nat" where
  "item_psize x len = (if len > ovflsize x then BOVERFLOW_PSIZE else BKEYDATA_PSIZE len)"

definition iitem_needed :: "put_cfg \<Rightarrow> dbh \<Rightarrow> page \<Rightarrow> nat \<Rightarrow> nat \<Rightarrow> nat \<Rightarrow> iiop \<Rightarrow> nat" where
  "iitem_needed x d h indx klen dlen op =
     (case op of
        II_KEYFIRST \<Rightarrow> item_psize x klen + item_psize x dlen
      | II_CURRENT \<Rightarrow>
          (let i = data_slot h indx; t = slot_type d h i;
               have_bytes = (if t = B_KEYDATA then BKEYDATA_PSIZE (bk_len (mem h) (inp d (mem h) i))
                             else if t = B_BLOB then BBLOB_PSIZE else BOVERFLOW_PSIZE);
               need_bytes = (if t = B_BLOB then BBLOB_PSIZE else item_psize x dlen)
           in if have_bytes < need_bytes then need_bytes - have_bytes else 0))"

definition iitem_pages :: "put_cfg \<Rightarrow> dbh \<Rightarrow> page \<Rightarrow> nat \<Rightarrow> nat \<Rightarrow> nat \<Rightarrow> iiop \<Rightarrow> nat" where
  "iitem_pages x d h indx klen dlen op =
     (let n = (\<lambda>len. (len - 1) div P_MAXSPACE d + 1);
          bigkey = (op = II_KEYFIRST \<and> klen > ovflsize x);
          bigdata = (dlen > ovflsize x \<and> \<not> (op = II_CURRENT \<and> slot_type d h (data_slot h indx) = B_BLOB))
      in (if bigdata then n dlen else 0) + (if bigkey then n klen else 0))"

definition ENOSPC :: int where "ENOSPC = 28"

definition put_item ::
    "put_cfg \<Rightarrow> penv \<Rightarrow> pager \<Rightarrow> stream \<Rightarrow> u32 \<Rightarrow> nat \<Rightarrow> byte list \<Rightarrow> pager \<times> int \<times> stream" where
  "put_item x E s c n indx item =
     (if length item > ovflsize x then bam_ovput E s c B_OVERFLOW PGNO_INVALID n indx item
      else (case page_pitem E s n indx (BKEYDATA_SIZE (length item)) None (Some item) of (s1, e) \<Rightarrow> (s1, e, c)))"

text \<open>The last component of the result says whether the page is still held.\<close>

definition bam_iitem ::
    "put_cfg \<Rightarrow> penv \<Rightarrow> pager \<Rightarrow> stream \<Rightarrow> u32 \<Rightarrow> nat \<Rightarrow> byte list \<Rightarrow> byte list \<Rightarrow> iiop
      \<Rightarrow> (pager \<times> stream \<times> int \<times> bool) option" where
  "bam_iitem x E s c n indx key data op =
     (let d = pdb E; h = pg_of s n; held = (\<lambda>(s, e, c). (s, c, e, True)) in
      if unat (P_FREESPACE d h) < iitem_needed x d h indx (length key) (length data) op then Some (s, c, DB_NEEDSPLIT, True)
      else if \<not> in_txn x \<and> maxpgno x \<noteq> 0
              \<and> word_of_nat (iitem_pages x d h indx (length key) (length data) op) > maxpgno x - m_last s
      then Some (s, c, ENOSPC, True)
      else case memp_dirty E s n of (s1, e, gone) \<Rightarrow>
        if e \<noteq> 0 then Some (s1, c, e, \<not> gone)
        else case op of
          II_KEYFIRST \<Rightarrow>
            (case put_item x E s1 c n indx key of (s2, e, c2) \<Rightarrow>
               if e \<noteq> 0 then Some (s2, c2, e, True) else Some (held (put_item x E s2 c2 n (indx + 1) data)))
        | II_CURRENT \<Rightarrow>
            (let i = data_slot h indx; t = slot_type d h i in
             if t = B_BLOB then (case put_blob x s1 n i data of (s2, e) \<Rightarrow> Some (s2, c, e, True))
             else if length data > ovflsize x \<or> t \<noteq> B_KEYDATA then
               (case bam_ditem E s1 n i of
                  None \<Rightarrow> None
                | Some (s2, e) \<Rightarrow> if e \<noteq> 0 then Some (s2, c, e, True) else Some (held (put_item x E s2 c n i data)))
             else (case page_ritem E s1 n i data of (s2, e) \<Rightarrow> Some (s2, c, e, True))))"

section \<open>Putting and getting\<close>

text \<open>\<open>lp\<close> is \<open>bt_lpgno\<close>: the page is remembered when the pair went to the first or the last slot of the tree.\<close>

definition edge_slot :: "page \<Rightarrow> nat \<Rightarrow> bool" where
  "edge_slot h indx \<longleftrightarrow>
     ptype h = P_LBTREE
   \<and> (next_pgno h = PGNO_INVALID \<and> int indx \<ge> int (NUM_ENT h) - 2 \<or> prev_pgno h = PGNO_INVALID \<and> indx = 0)"

text \<open>Result: the code, the page that the cursor still holds, and the new \<open>bt_lpgno\<close>.\<close>

definition bamc_put ::
    "put_cfg \<Rightarrow> btree_h \<Rightarrow> pager \<Rightarrow> stream \<Rightarrow> u32 \<Rightarrow> u32 \<Rightarrow> byte list \<Rightarrow> byte list \<Rightarrow> cflag
      \<Rightarrow> (pager \<times> stream \<times> int \<times> u32 option \<times> u32) option" where
  "bamc_put x B s c lp root key data flags =
     (let E = bt_env B; sop = (if flags = DB_KEYFIRST \<or> dup_cmp B \<noteq> None then DB_KEYFIRST else DB_KEYLAST) in
      case bamc_search B False s c lp root key sop of
        None \<Rightarrow> None
      | Some (s1, c1, e, None) \<Rightarrow> Some (s1, c1, e, None, PGNO_INVALID)
      | Some (s1, c1, e, Some (n, indx, exact)) \<Rightarrow>
          if exact \<and> flags = DB_NOOVERWRITE \<and> \<not> item_deleted (pdb E) (pg_of s1 n) (indx + 1)
          then Some (s1, c1, DB_KEYEXIST, Some n, PGNO_INVALID)
          else case bam_iitem x E s1 c1 n indx key data (if exact then II_CURRENT else II_KEYFIRST) of
            None \<Rightarrow> None
          | Some (s2, c2, e, hold) \<Rightarrow>
              Some (s2, c2, e, if hold then Some n else None,
                if e = 0 \<and> (flags = DB_KEYFIRST \<or> flags = DB_KEYLAST) \<and> edge_slot (pg_of s2 n) indx then n else PGNO_INVALID))"

text \<open>\<open>__db_put\<close>: a cursor for the call, which is closed at its end.\<close>

definition cursor_close :: "penv \<Rightarrow> pager \<Rightarrow> u32 option \<Rightarrow> int \<Rightarrow> pager \<times> int" where
  "cursor_close E s h ret = (case h of None \<Rightarrow> (s, ret) | Some n \<Rightarrow> (let (s1, t) = memp_fput E s n in (s1, keep ret t)))"

definition dbp_put ::
    "put_cfg \<Rightarrow> btree_h \<Rightarrow> u32 \<Rightarrow> pager \<times> u32 \<Rightarrow> byte list \<Rightarrow> byte list \<Rightarrow> cflag \<Rightarrow> ((pager \<times> u32) \<times> int) option" where
  "dbp_put x B root db key data flags =
     (case bamc_put x B (fst db) \<lparr>stream_start = 0, stream_curr = 0, stream_off = 0\<rparr> (snd db) root key data flags of
        None \<Rightarrow> None
      | Some (s1, c1, e, h, lp) \<Rightarrow> (case cursor_close (bt_env B) s1 h e of (s2, e) \<Rightarrow> Some ((s2, lp), e)))"

text \<open>\<open>__db_retcopy\<close>; a failed allocation forgets the buffer of the caller.\<close>

definition ret_part :: "dbt \<Rightarrow> byte list \<Rightarrow> byte list" where
  "ret_part d data = (if dt_partial d then take (dt_dlen d) (drop (dt_doff d) data) else data)"

definition db_retcopy ::
    "penv \<Rightarrow> pager \<Rightarrow> dbt \<Rightarrow> byte list \<Rightarrow> byte list option \<Rightarrow> pager \<times> int \<times> dbt \<times> byte list option" where
  "db_retcopy E s d data buf =
     (let xs = ret_part d data; len = length xs; e = io E (tick s); sized = (\<lambda>d. d\<lparr>dt_size := len\<rparr>);
          copy = (\<lambda>d. sized (d\<lparr>dt_data := buf_write 0 xs (dt_data d)\<rparr>))
      in case dt_mode d of
           USERCOPY \<Rightarrow> if len = 0 then (s, 0, sized d, buf)
                        else if e \<noteq> 0 then (tock s, e, sized d, buf) else (tock s, 0, copy d, buf)
         | MALLOC \<Rightarrow> if e \<noteq> 0 then (tock s, e, sized d, buf) else (tock s, 0, copy (d\<lparr>dt_data := new_mem [] len\<rparr>), buf)
         | REALLOC \<Rightarrow> if dt_data d = [] \<or> dt_size d = 0 \<or> dt_size d < len then
                        (if e \<noteq> 0 then (tock s, e, sized d, buf) else (tock s, 0, copy (d\<lparr>dt_data := new_mem (dt_data d) len\<rparr>), buf))
                      else (s, 0, copy d, buf)
         | USERMEM \<Rightarrow> if len \<noteq> 0 \<and> (dt_data d = [] \<or> dt_ulen d < len) then (s, DB_BUFFER_SMALL, sized d, buf) else (s, 0, copy d, buf)
         | RETBUF \<Rightarrow> (case buf of
               None \<Rightarrow> (s, 22, sized d, buf)
             | Some b \<Rightarrow>
                 if len \<noteq> 0 \<and> (b = [] \<or> length b < len) then
                   (if e \<noteq> 0 then (tock s, e, sized d, Some [])
                    else (let d' = copy (d\<lparr>dt_data := new_mem b len\<rparr>) in (tock s, 0, d', Some (dt_data d'))))
                 else (let d' = copy (d\<lparr>dt_data := b\<rparr>) in (s, 0, d', Some (dt_data d')))))"

text \<open>\<open>__db_ret\<close> on the pages of a btree; a blob is read by one call.\<close>

definition db_ret ::
    "btree_h \<Rightarrow> pager \<Rightarrow> stream \<Rightarrow> page \<Rightarrow> nat \<Rightarrow> dbt \<Rightarrow> byte list option
      \<Rightarrow> (pager \<times> int \<times> dbt \<times> byte list option \<times> stream) option" where
  "db_ret B s c h indx dbt buf =
     (let E = bt_env B; m = mem h; p = inp (pdb E) m indx; t = B_TYPE (bk_type m p); ty = ptype h in
      if ty \<noteq> P_LBTREE \<and> ty \<noteq> P_LDUP \<and> ty \<noteq> P_LRECNO then Some (s, DB_RUNRECOVERY, dbt, buf, c)
      else if t = B_OVERFLOW then db_goff E s c dbt (bo_tlen m p) (bo_pgno m p) buf
      else if t = B_BLOB then
        (case blob B (le_dec (buf_read (p + 48) 8 m)) (le_dec (buf_read (p + 56) 8 m)) of
           Inl e \<Rightarrow> Some (s, e, dbt, buf, c)
         | Inr b \<Rightarrow> (case db_retcopy E s dbt b buf of (s1, e, d, b) \<Rightarrow> Some (s1, e, d, b, c)))
      else (case db_retcopy E s dbt (bk_data m p) buf of (s1, e, d, b) \<Rightarrow> Some (s1, e, d, b, c)))"

text \<open>\<open>__db_get\<close> with \<open>DB_SET\<close>: the data of a key, into the memory of the handle.\<close>

definition dbp_get :: "btree_h \<Rightarrow> u32 \<Rightarrow> pager \<times> u32 \<Rightarrow> byte list \<Rightarrow> dbt \<Rightarrow> byte list option \<Rightarrow> (pager \<times> int \<times> dbt) option" where
  "dbp_get B root db key dbt buf =
     (let E = bt_env B in
      case bamc_search B False (fst db) \<lparr>stream_start = 0, stream_curr = 0, stream_off = 0\<rparr> (snd db) root key DB_SET of
        None \<Rightarrow> None
      | Some (s1, c1, e, None) \<Rightarrow> Some (s1, e, dbt)
      | Some (s1, c1, e, Some (n, indx, exact)) \<Rightarrow>
          (case db_ret B s1 c1 (pg_of s1 n) (indx + 1) dbt buf of
             None \<Rightarrow> None
           | Some (s2, e, d, buf, c2) \<Rightarrow> (case cursor_close E s2 (Some n) e of (s3, e) \<Rightarrow> Some (s3, e, d))))"

end
