(* ===== verification/Bt_Leaf.thy ===== *)
theory Bt_Leaf
  imports Bt_Put
begin

text \<open>
  The records of a leaf.  A leaf holds key and data items in pairs; the data of a big record is a chain of
  overflow pages that the leaf owns.  The lemmas show that \<open>__bam_iitem\<close> refines the insertion of a record
  into the list of records of the leaf, and the replacement of the data of a record, and that it takes and
  gives back overflow pages accordingly and leaves every other page alone.
\<close>

section \<open>Records\<close>

type_synonym chain = "(u32 \<times> byte list) list"
type_synonym leaf_rec = "byte list \<times> byte list \<times> chain"

definition val_item :: "penv \<Rightarrow> pager \<Rightarrow> byte list \<Rightarrow> byte list \<Rightarrow> chain \<Rightarrow> bool" where
  "val_item E s it v ps \<longleftrightarrow>
     ps = [] \<and> bk_item B_KEYDATA v it
   \<or> ps \<noteq> [] \<and> (\<exists>p. it = boverflow B_OVERFLOW p (length v) \<and> ov_chain E s p ps) \<and> chain_bytes ps = v \<and> length v < 2 ^ 32"

fun pairs_ok :: "penv \<Rightarrow> pager \<Rightarrow> byte list list \<Rightarrow> leaf_rec list \<Rightarrow> bool" where
  "pairs_ok E s (a # b # items) ((k, v, ps) # rs) \<longleftrightarrow>
     bk_item B_KEYDATA k a \<and> val_item E s b v ps \<and> pairs_ok E s items rs"
| "pairs_ok E s [] [] \<longleftrightarrow> True"
| "pairs_ok E s _ _ \<longleftrightarrow> False"

definition chain_pages :: "leaf_rec list \<Rightarrow> u32 list" where
  "chain_pages rs = concat (map (\<lambda>(k, v, ps). map fst ps) rs)"

lemma chain_pages_simps [simp]:
  "chain_pages [] = []" "chain_pages ((k, v, ps) # rs) = map fst ps @ chain_pages rs"
  "chain_pages (rs @ qs) = chain_pages rs @ chain_pages qs"
  by (simp_all add: chain_pages_def)

definition leaf_recs :: "penv \<Rightarrow> pager \<Rightarrow> u32 \<Rightarrow> leaf_rec list \<Rightarrow> bool" where
  "leaf_recs E s n rs \<longleftrightarrow>
     pages s n \<noteq> None \<and> ptype (pg_of s n) = P_LBTREE \<and> level (pg_of s n) = LEAFLEVEL
   \<and> (\<exists>items. holds (pdb E) (pg_of s n) items \<and> pairs_ok E s items rs)"

lemma val_item_cong: "(\<And>p. p \<in> fst ` set ps \<Longrightarrow> pages u p = pages s p) \<Longrightarrow> val_item E u it v ps = val_item E s it v ps"
  by (simp add: val_item_def ov_chain_cong [of ps u s])

lemma pairs_ok_cong:
  "(\<And>p. p \<in> set (chain_pages rs) \<Longrightarrow> pages u p = pages s p) \<Longrightarrow> pairs_ok E u items rs = pairs_ok E s items rs"
proof (induction E s items rs rule: pairs_ok.induct)
  case (1 E s a b items k v ps rs)
  then show ?case using val_item_cong [of ps u s E b v] by simp
qed auto

lemma pairs_ok_length: "pairs_ok E s items rs \<Longrightarrow> length items = 2 * length rs"
  by (induction E s items rs rule: pairs_ok.induct) auto

lemma pairs_ok_append: "pairs_ok E s a r \<Longrightarrow> pairs_ok E s b q \<Longrightarrow> pairs_ok E s (a @ b) (r @ q)"
  by (induction E s a r rule: pairs_ok.induct) auto

lemma pairs_ok_split:
  "pairs_ok E s items rs \<Longrightarrow> j \<le> length rs \<Longrightarrow>
     pairs_ok E s (take (2 * j) items) (take j rs) \<and> pairs_ok E s (drop (2 * j) items) (drop j rs)"
proof (induction j arbitrary: items rs)
  case (Suc j)
  then obtain r rs' where rs: "rs = r # rs'" by (cases rs) auto
  obtain k v ps where r: "r = (k, v, ps)" by (cases r)
  obtain a b items' where it: "items = a # b # items'" using Suc.prems(1) by (cases "(E, s, items, rs)" rule: pairs_ok.cases) (auto simp: rs)
  show ?case using Suc.IH [of items' rs'] Suc.prems by (simp add: rs r it)
qed auto

lemma pairs_ok_nth:
  assumes "pairs_ok E s items rs" "j < length rs"
  shows "bk_item B_KEYDATA (fst (rs ! j)) (items ! (2 * j))" "val_item E s (items ! (2 * j + 1)) (fst (snd (rs ! j))) (snd (snd (rs ! j)))"
    "2 * j + 1 < length items"
proof -
  have p: "pairs_ok E s (drop (2 * j) items) (drop j rs)" using pairs_ok_split [OF assms(1), of j] assms(2) by simp
  obtain k v ps where r: "rs ! j = (k, v, ps)" by (cases "rs ! j")
  have d: "drop j rs = (k, v, ps) # drop (Suc j) rs" using assms(2) r by (metis Cons_nth_drop_Suc)
  obtain a b items' where it: "drop (2 * j) items = a # b # items'"
    using p unfolding d by (cases "drop (2 * j) items" rule: remdups_adj.cases) auto
  show l: "2 * j + 1 < length items" using pairs_ok_length [OF assms(1)] assms(2) by simp
  have "items ! (2 * j) = a" "items ! (2 * j + 1) = b"
    using arg_cong [OF it, of "\<lambda>x. x ! 0"] arg_cong [OF it, of "\<lambda>x. x ! 1"] l by simp_all
  then show "bk_item B_KEYDATA (fst (rs ! j)) (items ! (2 * j))" "val_item E s (items ! (2 * j + 1)) (fst (snd (rs ! j))) (snd (snd (rs ! j)))"
    using p by (simp_all add: d it r)
qed

text \<open>A pair inserted into the items, and another data item in a pair.\<close>

lemma pairs_ok_insert:
  assumes "pairs_ok E s items rs" "j \<le> length rs" "bk_item B_KEYDATA k a" "val_item E s b v ps"
  shows "pairs_ok E s (take (2 * j) items @ [a, b] @ drop (2 * j) items) (take j rs @ (k, v, ps) # drop j rs)"
  using pairs_ok_append [of E s "take (2 * j) items" "take j rs" "a # b # drop (2 * j) items" "(k, v, ps) # drop j rs"]
    pairs_ok_split [OF assms(1,2)] assms(3,4) by simp

lemma pairs_ok_update:
  assumes "pairs_ok E s items rs" "j < length rs" "rs ! j = (k, v0, ps0)" "val_item E u b v ps"
    and same: "\<And>p. p \<in> set (chain_pages (take j rs @ drop (Suc j) rs)) \<Longrightarrow> pages u p = pages s p"
  shows "pairs_ok E u (items[2 * j + 1 := b]) (rs[j := (k, v, ps)])"
proof -
  have l: "length items = 2 * length rs" using pairs_ok_length [OF assms(1)] .
  have "drop j rs = (k, v0, ps0) # drop (Suc j) rs" using assms(2,3) by (metis Cons_nth_drop_Suc)
  moreover have "drop (2 * j) items = items ! (2 * j) # items ! (2 * j + 1) # drop (2 * Suc j) items"
    using l assms(2) by (simp add: Cons_nth_drop_Suc)
  ultimately have p: "pairs_ok E s (take (2 * j) items) (take j rs)" "bk_item B_KEYDATA k (items ! (2 * j))"
    "pairs_ok E s (drop (2 * Suc j) items) (drop (Suc j) rs)"
    using pairs_ok_split [OF assms(1), of j] assms(2) by auto
  have q: "pairs_ok E u (take (2 * j) items) (take j rs)" "pairs_ok E u (drop (2 * Suc j) items) (drop (Suc j) rs)"
    using p(1,3) pairs_ok_cong [of "take j rs" u s E] pairs_ok_cong [of "drop (Suc j) rs" u s E] same by auto
  have x: "items[2 * j + 1 := b] = take (2 * j) items @ items ! (2 * j) # b # drop (2 * Suc j) items"
    using l assms(2) by (simp add: upd_conv_take_nth_drop take_Suc_conv_app_nth)
  have "rs[j := (k, v, ps)] = take j rs @ (k, v, ps) # drop (Suc j) rs" using assms(2) by (rule upd_conv_take_nth_drop)
  then show ?thesis
    unfolding x using pairs_ok_append [OF q(1), of "items ! (2 * j) # b # drop (2 * Suc j) items" "(k, v, ps) # drop (Suc j) rs"]
      p(2) q(2) assms(4) by simp
qed

section \<open>Steps on a leaf\<close>

definition same_head :: "page \<Rightarrow> page \<Rightarrow> bool" where
  "same_head p q \<longleftrightarrow> ptype q = ptype p \<and> level q = level p \<and> next_pgno q = next_pgno p \<and> prev_pgno q = prev_pgno p \<and> pgno q = pgno p"

text \<open>
  A step on page \<open>n\<close>: it gives the pages of \<open>gone\<close> back and takes those of \<open>new\<close>, and leaves the other pages
  in use and the pins alone.
\<close>

definition stepped ::
    "penv \<Rightarrow> u32 list \<Rightarrow> pager \<Rightarrow> u32 \<Rightarrow> u32 list \<Rightarrow> pager \<Rightarrow> u32 set \<Rightarrow> u32 set \<Rightarrow> bool" where
  "stepped E fs s n fs' u gone new \<longleftrightarrow>
     pager_ok E fs' u \<and> in_use fs' u = in_use fs s - gone \<union> new \<and> new \<inter> (in_use fs s - gone) = {}
   \<and> (\<forall>m \<in> in_use fs s - gone - {n}. pages u m = pages s m)
   \<and> pages u n \<noteq> None \<and> same_head (pg_of s n) (pg_of u n) \<and> pins u = pins s \<and> m_locks u = m_locks s"

lemma same_head_trans: "same_head p q \<Longrightarrow> same_head q r \<Longrightarrow> same_head p r"
  by (simp add: same_head_def)

lemma stepped_trans:
  assumes "stepped E fs s n fs1 t g {}" "stepped E fs1 t n fs2 u {} w"
  shows "stepped E fs s n fs2 u g w"
  using assms unfolding stepped_def by (auto intro: same_head_trans)

lemma stepped_same: "same_pages s t \<Longrightarrow> pins t = pins s \<Longrightarrow> m_locks t = m_locks s \<Longrightarrow> stepped E fs t n fs' u g w \<Longrightarrow> stepped E fs s n fs' u g w"
  by (simp add: stepped_def same_pages_def in_use_def pg_of_def)

lemma stepped_keeps: "stepped E fs s n fs' u g w \<Longrightarrow> m \<in> in_use fs s \<Longrightarrow> m \<noteq> n \<Longrightarrow> m \<notin> g \<Longrightarrow> pages u m = pages s m"
  by (simp add: stepped_def)

lemma upd_stepped:
  assumes "pager_ok E fs s" "n \<in> in_use fs s" "same_head (pg_of s n) (f (pg_of s n))" "length (mem (f (pg_of s n))) = pgsize (pdb E)"
  shows "stepped E fs s n fs (upd_pg s n f) {} {}"
proof -
  obtain pg where pg: "pages s n = Some pg" using assms(2) by (auto simp: in_use_def)
  have ok: "pgno pg = n" "length (mem pg) = pgsize (pdb E)" using assms(1) pg by (auto simp: pager_ok_def)
  define g where "g = (\<lambda>p. if p = pg then f pg else p)"
  have g: "upd_pg s n f = upd_pg s n g" using pg by (simp add: upd_pg_def g_def pg_of_def)
  have h: "pgno (g p) = pgno p" for p using assms(3) pg by (simp add: g_def same_head_def pg_of_def)
  have l: "length (mem (g (pg_of s n))) = length (mem (pg_of s n))" using assms(4) pg ok by (simp add: g_def pg_of_def)
  from upd_in_use [OF assms(1,2) h l] show ?thesis
    unfolding g using assms(3) pg by (auto simp: stepped_def g_def pg_of_def)
qed

lemma pitem_head: "db_pitem_nolog d pg k nb hdr data = Some q \<Longrightarrow> same_head pg q"
  by (auto simp: db_pitem_nolog_def Let_def same_head_def split: if_splits)

lemma ditem_head: "same_head pg (db_ditem_nolog d pg k nb)"
  by (simp add: db_ditem_nolog_def Let_def same_head_def)

lemma ritem_head: "same_head pg (bam_ritem_nolog d pg k hdr data ty)"
  by (auto simp: bam_ritem_nolog_def ritem_room_def Let_def same_head_def split: prod.split)

text \<open>The calls that change a page of the pool work when no call fails.\<close>

lemma page_pitem_step:
  assumes io: "no_io_errors E" and ok: "pager_ok E fs s" "n \<in> in_use fs s" and h: "holds (pdb E) (pg_of s n) items"
    and k: "k \<le> length items" and room: "page_used (pdb E) items + 2 + nb \<le> pgsize (pdb E)" "0 < nb"
    and dat: "dat = (case data of None \<Rightarrow> [] | Some x \<Rightarrow> x)"
    and hb: "hb = (case hdr of None \<Rightarrow> bkeydata_hdr B_KEYDATA (length dat) | Some x \<Rightarrow> x)" and fits: "length hb + length dat \<le> nb"
  shows "\<exists>u. page_pitem E s n k nb hdr data = (u, 0) \<and> stepped E fs s n fs u {} {} \<and> m_last u = m_last s
    \<and> holds (pdb E) (pg_of u n) (take k items @ new_item (pg_of s n) nb (hb @ dat) # drop k items)"
proof -
  obtain s1 e l where 1: "log_put E s = (s1, e, l)" by (cases "log_put E s") auto
  note L = log_put_spec [OF 1] and F = log_put_frame [OF 1 ok(1)]
  have e: "e = 0" using L(5) io by (simp add: no_io_errors_def)
  have pg: "pg_of s1 n = pg_of s n" using F(3) by (simp add: pg_of_def)
  let ?p = "(pg_of s n)\<lparr>lsn := l\<rparr>"
  have "P_OVERHEAD (pdb E) + 2 * length items + 2 + nb \<le> unat (hf_offset ?p)"
    using used_room [OF h, of "2 + nb"] room(1) by simp
  from pitem_refines [of "pdb E" ?p items k nb dat data hb hdr] h k this room(2) dat hb fits
  obtain q where q: "db_pitem_nolog (pdb E) ?p k nb hdr data = Some q"
    "holds (pdb E) q (take k items @ new_item ?p nb (hb @ dat) # drop k items)" by auto
  have ni: "new_item ?p nb (hb @ dat) = new_item (pg_of s n) nb (hb @ dat)" by (simp add: new_item_def)
  have run: "page_pitem E s n k nb hdr data = (upd_pg s1 n (\<lambda>_. q), 0)"
    unfolding page_pitem_def 1 prod.case Let_def pg q(1) using e by simp
  have "stepped E fs s1 n fs (upd_pg s1 n (\<lambda>_. q)) {} {}"
    using upd_stepped [OF F(1), of n "\<lambda>_. q"] ok(2) F(2) pg pitem_head [OF q(1)] holdsD(1) [OF q(2)] by (simp add: same_head_def)
  then have "stepped E fs s n fs (upd_pg s1 n (\<lambda>_. q)) {} {}" by (rule stepped_same [OF L(1-3)])
  then show ?thesis using run q(2) ni F(4) by (simp add: pg_of_def)
qed

lemma page_ditem_step:
  assumes io: "no_io_errors E" and ok: "pager_ok E fs s" "n \<in> in_use fs s" and h: "holds (pdb E) (pg_of s n) items"
    and k: "k < length items" "nb = length (items ! k)"
  shows "\<exists>u. page_ditem E s n k nb = (u, 0) \<and> stepped E fs s n fs u {} {} \<and> m_last u = m_last s
    \<and> holds (pdb E) (pg_of u n) (take k items @ drop (Suc k) items)"
proof -
  obtain s1 e l where 1: "log_put E s = (s1, e, l)" by (cases "log_put E s") auto
  note L = log_put_spec [OF 1] and F = log_put_frame [OF 1 ok(1)]
  have e: "e = 0" using L(5) io by (simp add: no_io_errors_def)
  have pg: "pg_of s1 n = pg_of s n" using F(3) by (simp add: pg_of_def)
  define f where "f = (\<lambda>p. db_ditem_nolog (pdb E) (p\<lparr>lsn := l\<rparr>) k nb)"
  have q: "holds (pdb E) (f (pg_of s n)) (take k items @ drop (Suc k) items)"
    using ditem_refines [of "pdb E" "(pg_of s n)\<lparr>lsn := l\<rparr>" items k] h k by (simp add: f_def)
  have hd: "same_head (pg_of s n) (f (pg_of s n))"
    using ditem_head [of "(pg_of s n)\<lparr>lsn := l\<rparr>" "pdb E" k nb] by (simp add: f_def same_head_def)
  have run: "page_ditem E s n k nb = (upd_pg s1 n f, 0)" unfolding page_ditem_def 1 prod.case f_def using e by simp
  have "stepped E fs s1 n fs (upd_pg s1 n f) {} {}"
    using upd_stepped [OF F(1), of n f] ok(2) F(2) pg hd holdsD(1) [OF q] by simp
  then have "stepped E fs s n fs (upd_pg s1 n f) {} {}" by (rule stepped_same [OF L(1-3)])
  then show ?thesis using run q F(4) pg by (simp add: pg_of_def)
qed

lemma page_ritem_step:
  assumes io: "no_io_errors E" and ok: "pager_ok E fs s" "n \<in> in_use fs s" and h: "holds (pdb E) (pg_of s n) items"
    and k: "k < length items" and old: "bk_item t old (items ! k)" and n: "length xs + 6 < 65536" and ty: "ptype (pg_of s n) \<noteq> P_IBTREE"
    and room: "page_used (pdb E) items + BKEYDATA_SIZE (length xs) \<le> pgsize (pdb E) + length (items ! k)"
  shows "\<exists>u it. page_ritem E s n k xs = (u, 0) \<and> stepped E fs s n fs u {} {}
    \<and> holds (pdb E) (pg_of u n) (items[k := it]) \<and> bk_item (B_TYPE t) xs it"
proof -
  obtain s1 e l where 1: "log_put E s = (s1, e, l)" by (cases "log_put E s") auto
  note L = log_put_spec [OF 1] and F = log_put_frame [OF 1 ok(1)]
  have e: "e = 0" using L(5) io by (simp add: no_io_errors_def)
  have pg: "pg_of s1 n = pg_of s n" using F(3) by (simp add: pg_of_def)
  have bt: "bk_type (mem (pg_of s n)) (inp (pdb E) (mem (pg_of s n)) k) = t" using bk_item_read(2) [OF h k old] .
  define f where "f = (\<lambda>p. bam_ritem_nolog (pdb E) (p\<lparr>lsn := l\<rparr>) k None (Some xs) t)"
  have r: "P_OVERHEAD (pdb E) + 2 * length items + BKEYDATA_SIZE (length xs) \<le> unat (hf_offset (pg_of s n)) + length (items ! k)"
    using room holdsD(6) [OF h] by (simp add: page_used_def)
  obtain it where it: "holds (pdb E) (f (pg_of s n)) (items[k := it])" "bk_item (B_TYPE t) xs it"
    using ritem_nolog_items [of "pdb E" "(pg_of s n)\<lparr>lsn := l\<rparr>" items k t old xs] h k ty old n r by (auto simp: f_def)
  have hd: "same_head (pg_of s n) (f (pg_of s n))"
    using ritem_head [of "(pg_of s n)\<lparr>lsn := l\<rparr>" "pdb E" k] by (simp add: f_def same_head_def)
  have run: "page_ritem E s n k xs = (upd_pg s1 n f, 0)" unfolding page_ritem_def bt Let_def 1 prod.case f_def using e by simp
  have "stepped E fs s1 n fs (upd_pg s1 n f) {} {}"
    using upd_stepped [OF F(1), of n f] ok(2) F(2) pg hd holdsD(1) [OF it(1)] by simp
  then have "stepped E fs s n fs (upd_pg s1 n f) {} {}" by (rule stepped_same [OF L(1-3)])
  then show ?thesis using run it pg by (auto simp: pg_of_def)
qed

lemma stepped_trans_new:
  assumes "stepped E fs s n fs1 t g w" "stepped E fs1 t n fs2 u {} {}"
  shows "stepped E fs s n fs2 u g w"
  using assms unfolding stepped_def by (auto intro: same_head_trans)

lemma same_stepped: "pager_ok E fs s \<Longrightarrow> n \<in> in_use fs s \<Longrightarrow> stepped E fs s n fs s {} {}"
  by (auto simp: stepped_def same_head_def in_use_def)

section \<open>New items\<close>

lemma new_key_item:
  assumes "length xs + 6 < 65536" "nb = BKEYDATA_SIZE (length xs)" "nb \<le> unat (hf_offset pg)" "unat (hf_offset pg) \<le> length (mem pg)"
  shows "bk_item B_KEYDATA xs (new_item pg nb (bkeydata_hdr B_KEYDATA (length xs) @ xs))"
    "length (new_item pg nb (bkeydata_hdr B_KEYDATA (length xs) @ xs)) = nb"
proof -
  let ?w = "bkeydata_hdr B_KEYDATA (length xs) @ xs"
  have w: "?w = le_enc 2 (length xs) @ [B_KEYDATA] @ xs" by (simp add: bkeydata_hdr_def)
  have l: "length ?w = 3 + length xs" unfolding w by (simp add: le_enc2)
  have r: "length (buf_read (unat (hf_offset pg) - nb) nb (mem pg)) = nb" using assms(3,4) by (simp add: buf_read_def)
  show "length (new_item pg nb ?w) = nb" unfolding new_item_def length_append length_drop r
    using l BKEYDATA_SIZE_bounds(1) [OF assms(1)] assms(2) by simp
  then show "bk_item B_KEYDATA xs (new_item pg nb ?w)"
    using assms(1,2) l unfolding bk_item_def by (simp add: new_item_def l) (simp add: bkeydata_hdr_def)
qed

lemma boverflow_length [simp]: "length (boverflow ty p n) = BOVERFLOW_SIZE"
  by (simp add: boverflow_def BOVERFLOW_SIZE_def)

lemma new_big_item: "new_item pg BOVERFLOW_SIZE (boverflow ty p n) = boverflow ty p n"
  by (simp add: new_item_def buf_read_def)

lemma le_dec_enc4: "n < 2 ^ 32 \<Longrightarrow> le_dec (le_enc 4 n) = n"
  by (simp add: le_dec_enc)

lemma take4: "take 4 (le_enc 4 n @ ys) = le_enc 4 n"
  by simp

lemma boverflow_read:
  assumes "holds d pg items" "k < length items" "items ! k = boverflow ty p n" "n < 2 ^ 32"
  shows "bk_type (mem pg) (inp d (mem pg) k) = B_TYPE ty" "bo_pgno (mem pg) (inp d (mem pg) k) = p"
    "bo_tlen (mem pg) (inp d (mem pg) k) = n"
proof -
  have l: "length (boverflow ty p n) = 12" by (simp add: BOVERFLOW_SIZE_def)
  show "bk_type (mem pg) (inp d (mem pg) k) = B_TYPE ty"
    using holds_nth [OF assms(1,2), of 2] by (simp add: assms(3) l bk_type_def boverflow_def)
  have "unat p < 2 ^ 32" using unsigned_less [of p] by simp
  then show "bo_pgno (mem pg) (inp d (mem pg) k) = p"
    using holds_read [OF assms(1,2), of 4 4] le_dec_enc4 [of "unat p"]
    by (simp add: assms(3) l bo_pgno_def u32_at_def boverflow_def)
  show "bo_tlen (mem pg) (inp d (mem pg) k) = n"
    using holds_read [OF assms(1,2), of 8 4] le_dec_enc4 [OF assms(4)]     by (simp add: assms(3) l bo_tlen_def u32_at_def boverflow_def unat_of_nat take_bit_nat_def)
qed

section \<open>Storing an item\<close>

lemma item_psize_pos: "0 < item_psize x n - 2" if "ovflsize x + 6 < 65536"
  using BKEYDATA_SIZE_bounds(4) [of n] that by (auto simp: item_psize_def BOVERFLOW_PSIZE_def BOVERFLOW_SIZE_def BKEYDATA_PSIZE_def)

lemma put_item_step:
  assumes io: "no_io_errors E" and env: "env_ok E" and ok: "pager_ok E fs s" "n \<in> in_use fs s"
    and h: "holds (pdb E) (pg_of s n) items" and k: "k \<le> length items"
    and x: "ovflsize x + 6 < 65536" and len: "ovflsize x < length v \<Longrightarrow> unat (m_last s) + length v < 2 ^ 32"
    and room: "page_used (pdb E) items + item_psize x (length v) \<le> pgsize (pdb E)"
  shows "\<exists>u c' it ps fs'. put_item x E s c n k v = (u, 0, c') \<and> stepped E fs s n fs' u {} (fst ` set ps) \<and> val_item E u it v ps
    \<and> holds (pdb E) (pg_of u n) (take k items @ it # drop k items) \<and> length it + 2 = item_psize x (length v)
    \<and> (length v \<le> ovflsize x \<longrightarrow> ps = [] \<and> m_last u = m_last s \<and> c' = c)"
proof (cases "length v > ovflsize x")
  case False
  let ?nb = "BKEYDATA_SIZE (length v)"
  have n: "length v + 6 < 65536" using False x by simp
  have r: "page_used (pdb E) items + 2 + ?nb \<le> pgsize (pdb E)" using room False by (simp add: item_psize_def BKEYDATA_PSIZE_def)
  have hd: "length (bkeydata_hdr B_KEYDATA (length v)) + length v \<le> ?nb"
    using BKEYDATA_SIZE_bounds(1) [OF n] by (simp add: bkeydata_hdr_def le_enc2)
  let ?it = "new_item (pg_of s n) ?nb (bkeydata_hdr B_KEYDATA (length v) @ v)"
  from page_pitem_step [OF io ok h k r BKEYDATA_SIZE_bounds(4) [OF n], of v "Some v" "bkeydata_hdr B_KEYDATA (length v)" None] hd
  obtain u where u: "page_pitem E s n k ?nb None (Some v) = (u, 0)" "stepped E fs s n fs u {} {}" "m_last u = m_last s"
    "holds (pdb E) (pg_of u n) (take k items @ ?it # drop k items)" by auto
  have hf: "?nb \<le> unat (hf_offset (pg_of s n))" "unat (hf_offset (pg_of s n)) \<le> length (mem (pg_of s n))"
    using used_room [OF h, of "2 + ?nb"] r holdsD(1,6) [OF h] by simp_all
  note it = new_key_item [OF n refl hf]
  have "put_item x E s c n k v = (u, 0, c)" using False u(1) by (simp add: put_item_def)
  moreover have "val_item E u ?it v []" using it(1) by (simp add: val_item_def)
  moreover have "length ?it + 2 = item_psize x (length v)" using it(2) False by (simp add: item_psize_def BKEYDATA_PSIZE_def)
  moreover have "stepped E fs s n fs u {} (fst ` set ([] :: chain))" using u(2) by simp
  ultimately show ?thesis using u(3,4) by blast
next
  case True
  then have v: "v \<noteq> []" by auto
  obtain s1 e c1 p where 1: "db_poff E s c (whole v) False PGNO_INVALID = (s1, e, c1, p)"
    by (cases "db_poff E s c (whole v) False PGNO_INVALID") auto
  have w: "dt_size (whole v) = length (dt_data (whole v))" "dt_data (whole v) = v" by (simp_all add: whole_def)
  have P: "released None s s1" "e = 0"
    using db_poff_pins [OF 1 ok(1) env w(1)] len [OF True] w(2) io by (simp_all add: no_io_errors_def)
  from db_poff_chain [OF 1 [unfolded P(2)] ok(1) env w(1)] v len [OF True] w(2) obtain ps fs1 where
    ps: "ps \<noteq> []" "chain_bytes ps = v" "ov_chain E s1 p ps" "fst ` set ps \<inter> in_use fs s = {}" "pager_ok E fs1 s1"
    "in_use fs1 s1 = in_use fs s \<union> fst ` set ps" "\<forall>m \<in> in_use fs s. pages s1 m = pages s m" by auto
  have pg: "pg_of s1 n = pg_of s n" "pages s1 n = pages s n" using ps(7) ok(2) by (simp_all add: pg_of_def)
  have st1: "stepped E fs s n fs1 s1 {} (fst ` set ps)"
    using ps(4-7) ok(2) pg P(1) by (auto simp: stepped_def same_head_def in_use_def released_def)
  have n1: "n \<in> in_use fs1 s1" "n \<notin> fst ` set ps" using ok(2) ps(4,6) by auto
  have r: "page_used (pdb E) items + 2 + BOVERFLOW_SIZE \<le> pgsize (pdb E)" "0 < BOVERFLOW_SIZE"
    using room True by (simp_all add: item_psize_def BOVERFLOW_PSIZE_def BOVERFLOW_SIZE_def)
  let ?it = "boverflow B_OVERFLOW p (length v)"
  from page_pitem_step [OF io ps(5) n1(1) h [folded pg(1)] k r, of "[]" None ?it "Some ?it"]
  obtain u where u: "page_pitem E s1 n k BOVERFLOW_SIZE (Some ?it) None = (u, 0)" "stepped E fs1 s1 n fs1 u {} {}"
    "holds (pdb E) (pg_of u n) (take k items @ ?it # drop k items)" by (auto simp: new_big_item)
  have "put_item x E s c n k v = (u, 0, c1)" using True 1 P(2) u(1) by (simp add: put_item_def bam_ovput_def)
  moreover have "stepped E fs s n fs1 u {} (fst ` set ps)" using stepped_trans_new [OF st1 u(2)] .
  moreover have "ov_chain E u p ps"
    using ps(3) ov_chain_cong [of ps u s1 E p] stepped_keeps [OF u(2)] ps(6) n1(2) by blast
  then have "val_item E u ?it v ps" using ps(1,2) len [OF True] by (auto simp: val_item_def)
  moreover have "length ?it + 2 = item_psize x (length v)" using True by (simp add: item_psize_def BOVERFLOW_PSIZE_def)
  moreover have "\<not> length v \<le> ovflsize x" using True by simp
  ultimately show ?thesis using u(3) by blast
qed

section \<open>Deleting the data of a record\<close>

lemma pager_last_unique:
  assumes "pager_ok E fs s" "pager_ok E fs' t" "dom (pages t) = dom (pages s)"
  shows "m_last t = m_last s"
proof -
  have d: "pages s m \<noteq> None \<longleftrightarrow> pages t m \<noteq> None" for m using assms(3) by blast
  have s: "pages s m \<noteq> None \<longleftrightarrow> 0 < m \<and> m \<le> m_last s" and t: "pages t m \<noteq> None \<longleftrightarrow> 0 < m \<and> m \<le> m_last t" for m
    using assms(1,2) by (simp_all add: pager_ok_def)
  have iff: "(0 < m \<and> m \<le> m_last s) \<longleftrightarrow> (0 < m \<and> m \<le> m_last t)" for m using s t d by blast
  show ?thesis
  proof (rule order_antisym)
    show "m_last t \<le> m_last s" using iff [of "m_last t"] by (cases "m_last t = 0") (auto simp: word_neq_0_conv)
    show "m_last s \<le> m_last t" using iff [of "m_last s"] by (cases "m_last s = 0") (auto simp: word_neq_0_conv)
  qed
qed

lemma free_list_dom: "free_list s n fs \<Longrightarrow> set fs \<subseteq> dom (pages s)"
  by (induction fs arbitrary: n) auto

lemma use_dom: "pager_ok E fs s \<Longrightarrow> dom (pages s) = in_use fs s \<union> set fs"
  using free_list_dom [of s "m_free s" fs] by (auto simp: pager_ok_def in_use_def)

lemma val_item_read:
  assumes "holds d pg items" "i < length items" "val_item E s (items ! i) v ps"
  shows "ps = [] \<Longrightarrow> bk_type (mem pg) (inp d (mem pg) i) = B_KEYDATA \<and> bk_len (mem pg) (inp d (mem pg) i) = length v
      \<and> bk_data (mem pg) (inp d (mem pg) i) = v \<and> length (items ! i) = BKEYDATA_SIZE (length v)"
    "ps \<noteq> [] \<Longrightarrow> bk_type (mem pg) (inp d (mem pg) i) = B_OVERFLOW \<and> bo_tlen (mem pg) (inp d (mem pg) i) = length v
      \<and> ov_chain E s (bo_pgno (mem pg) (inp d (mem pg) i)) ps \<and> length (items ! i) = BOVERFLOW_SIZE"
proof -
  assume "ps = []"
  then have b: "bk_item B_KEYDATA v (items ! i)" using assms(3) by (simp add: val_item_def)
  show "bk_type (mem pg) (inp d (mem pg) i) = B_KEYDATA \<and> bk_len (mem pg) (inp d (mem pg) i) = length v
      \<and> bk_data (mem pg) (inp d (mem pg) i) = v \<and> length (items ! i) = BKEYDATA_SIZE (length v)"
    using bk_item_read [OF assms(1,2) b] b by (simp add: bk_item_def)
next
  assume "ps \<noteq> []"
  then obtain p where p: "items ! i = boverflow B_OVERFLOW p (length v)" "ov_chain E s p ps" "length v < 2 ^ 32"
    using assms(3) by (auto simp: val_item_def)
  show "bk_type (mem pg) (inp d (mem pg) i) = B_OVERFLOW \<and> bo_tlen (mem pg) (inp d (mem pg) i) = length v
      \<and> ov_chain E s (bo_pgno (mem pg) (inp d (mem pg) i)) ps \<and> length (items ! i) = BOVERFLOW_SIZE"
    using boverflow_read [OF assms(1,2) p(1,3)] p by (simp add: B_TYPE_def B_OVERFLOW_def)
qed

lemma B_TYPE_types [simp]: "B_TYPE B_KEYDATA = B_KEYDATA" "B_TYPE B_OVERFLOW = B_OVERFLOW"
  by (simp_all add: B_TYPE_def B_KEYDATA_def B_OVERFLOW_def)

lemma types_differ [simp]:
  "B_KEYDATA \<noteq> B_OVERFLOW" "B_KEYDATA \<noteq> B_BLOB" "B_OVERFLOW \<noteq> B_BLOB" "B_KEYDATA \<noteq> B_DUPLICATE" "B_OVERFLOW \<noteq> B_DUPLICATE"
  "B_OVERFLOW \<noteq> B_KEYDATA"
  by (simp_all add: B_KEYDATA_def B_OVERFLOW_def B_BLOB_def B_DUPLICATE_def)

lemma ditem_data_step:
  assumes io: "no_io_errors E" and ok: "pager_ok E fs s" "n \<in> in_use fs s"
    and h: "holds (pdb E) (pg_of s n) items" and i: "i < length items" "odd i" and ty: "ptype (pg_of s n) = P_LBTREE"
    and v: "val_item E s (items ! i) v ps" and own: "fst ` set ps \<subseteq> in_use fs s - {n}"
  shows "\<exists>u fs'. bam_ditem E s n i = Some (u, 0) \<and> stepped E fs s n fs' u (fst ` set ps) {} \<and> m_last u = m_last s
    \<and> holds (pdb E) (pg_of u n) (take i items @ drop (Suc i) items)"
proof -
  have go: "bam_ditem E s n i = item_ditem E s n i"
    using i(2) ty by (simp add: bam_ditem_def Let_def P_LBTREE_def P_IBTREE_def P_IRECNO_def odd_iff_mod_2_eq_one)
  note R = val_item_read [OF h i(1) v]
  show ?thesis
  proof (cases "ps = []")
    case True
    note r = R(1) [OF True]
    from page_ditem_step [OF io ok h i(1) refl] obtain u where
      "page_ditem E s n i (length (items ! i)) = (u, 0)" "stepped E fs s n fs u {} {}" "m_last u = m_last s"
      "holds (pdb E) (pg_of u n) (take i items @ drop (Suc i) items)" by blast
    then show ?thesis unfolding go using r True by (auto simp: item_ditem_def Let_def)
  next
    case False
    note r = R(2) [OF False]
    let ?p = "bo_pgno (mem (pg_of s n)) (inp (pdb E) (mem (pg_of s n)) i)"
    have "fst ` set ps \<subseteq> in_use fs s" using own by blast
    from doff_chain [OF _ False ok(1) this, of ?p] r io obtain s1 where 1: "db_doff E s ?p = Some (s1, 0)"
      "pins s1 = pins s" "m_locks s1 = m_locks s" "pager_ok E (rev (map fst ps) @ fs) s1"
      "in_use (rev (map fst ps) @ fs) s1 = in_use fs s - fst ` set ps" "\<forall>m. m \<notin> fst ` set ps \<longrightarrow> pages s1 m = pages s m"
      by (auto simp: no_io_errors_def)
    have nn: "n \<notin> fst ` set ps" using own by blast
    then have n: "n \<notin> fst ` set ps" "pages s1 n = pages s n" "pg_of s1 n = pg_of s n" using 1(6) by (simp_all add: pg_of_def)
    have pn: "pages s n \<noteq> None" using ok(2) by (auto simp: in_use_def)
    have "dom (pages s1) = dom (pages s)" unfolding use_dom [OF 1(4)] use_dom [OF ok(1)] 1(5) using own by auto
    then have last: "m_last s1 = m_last s" using pager_last_unique [OF ok(1) 1(4)] by blast
    have st1: "stepped E fs s n (rev (map fst ps) @ fs) s1 (fst ` set ps) {}"
      unfolding stepped_def same_head_def using 1(2-6) n pn by auto
    have n1: "n \<in> in_use (rev (map fst ps) @ fs) s1" using 1(5) n ok(2) by blast
    from page_ditem_step [OF io 1(4) n1 h [folded n(3)] i(1) refl] obtain u where
      u: "page_ditem E s1 n i (length (items ! i)) = (u, 0)" "stepped E (rev (map fst ps) @ fs) s1 n (rev (map fst ps) @ fs) u {} {}"
      "m_last u = m_last s1" "holds (pdb E) (pg_of u n) (take i items @ drop (Suc i) items)" by blast
    have "item_ditem E s n i = Some (u, 0)" using r 1(1) u(1) by (simp add: item_ditem_def Let_def)
    then show ?thesis unfolding go using stepped_trans [OF st1 u(2)] u(3,4) last by auto
  qed
qed

section \<open>Inserting a record, and replacing its data\<close>

lemma freespace_room:
  assumes "holds d pg items"
  shows "unat (P_FREESPACE d pg) < k \<longleftrightarrow> pgsize d < page_used d items + k"
  using freespace_value [of d pg] holdsD(3,4,6) [OF assms] by (auto simp: page_used_def)

lemma used_after_insert:
  "k \<le> length items \<Longrightarrow> page_used d (take k items @ it # drop k items) = page_used d items + 2 + length it"
  using arg_cong [OF append_take_drop_id [of k items], of "\<lambda>xs. sum_list (map length xs)"]
  by (simp add: page_used_def del: append_take_drop_id)

lemma used_after_delete:
  "k < length items \<Longrightarrow> page_used d (take k items @ drop (Suc k) items) + 2 + length (items ! k) = page_used d items"
  using sum_list_take_drop_nth [of k items] by (simp add: page_used_def)

definition limited :: "put_cfg \<Rightarrow> penv \<Rightarrow> pager \<Rightarrow> page \<Rightarrow> nat \<Rightarrow> nat \<Rightarrow> nat \<Rightarrow> iiop \<Rightarrow> bool" where
  "limited x E s h indx klen dlen op \<longleftrightarrow>
     \<not> in_txn x \<and> maxpgno x \<noteq> 0 \<and> word_of_nat (iitem_pages x (pdb E) h indx klen dlen op) > maxpgno x - m_last s"

lemma limited_fold:
  "(\<not> in_txn x \<and> maxpgno x \<noteq> 0 \<and> word_of_nat (iitem_pages x (pdb E) h indx klen dlen op) > maxpgno x - m_last s)
    = limited x E s h indx klen dlen op"
  by (simp add: limited_def)

text \<open>What \<open>__bam_iitem\<close> does to the records: all or nothing.\<close>

definition iitem_post ::
    "put_cfg \<Rightarrow> penv \<Rightarrow> u32 list \<Rightarrow> pager \<Rightarrow> u32 \<Rightarrow> bool \<Rightarrow> bool \<Rightarrow> chain \<Rightarrow> (chain \<Rightarrow> leaf_rec list) \<Rightarrow> pager \<Rightarrow> int \<Rightarrow> bool" where
  "iitem_post x E fs s n full lim old rs' u e \<longleftrightarrow>
     (if full then e = DB_NEEDSPLIT \<and> quiet E s u
      else if lim then e = ENOSPC \<and> quiet E s u
      else e = 0 \<and> (\<exists>fs' ps. stepped E fs s n fs' u (fst ` set old) (fst ` set ps) \<and> distinct (map fst ps) \<and> leaf_recs E u n (rs' ps)))"

lemma ov_chain_distinct: "ov_chain E s p ps \<Longrightarrow> distinct (map fst ps)"
proof (induction ps arbitrary: p)
  case (Cons a ps)
  then show ?case using Cons.IH by (cases a) auto
qed simp

lemma val_item_distinct: "val_item E s it v ps \<Longrightarrow> distinct (map fst ps)"
  using ov_chain_distinct by (auto simp: val_item_def)

lemma iitem_insert:
  assumes io: "no_io_errors E" and env: "env_ok E" and ok: "pager_ok E fs s" "n \<in> in_use fs s"
    and rs: "holds (pdb E) (pg_of s n) items" "pairs_ok E s items rs" "ptype (pg_of s n) = P_LBTREE" "level (pg_of s n) = LEAFLEVEL"
    and own: "set (chain_pages rs) \<subseteq> in_use fs s - {n}" and j: "j \<le> length rs"
    and x: "ovflsize x + 6 < 65536" "length key \<le> ovflsize x"
    and len: "ovflsize x < length data \<Longrightarrow> unat (m_last s) + length data < 2 ^ 32"
  shows "\<exists>u c' e. bam_iitem x E s c n (2 * j) key data II_KEYFIRST = Some (u, c', e, True)
    \<and> iitem_post x E fs s n (pgsize (pdb E) < page_used (pdb E) items + item_psize x (length key) + item_psize x (length data))
        (limited x E s (pg_of s n) (2 * j) (length key) (length data) II_KEYFIRST) []
        (\<lambda>ps. take j rs @ (key, data, ps) # drop j rs) u e"
proof -
  let ?h = "pg_of s n"
  have nd: "unat (P_FREESPACE (pdb E) ?h) < iitem_needed x (pdb E) ?h (2 * j) (length key) (length data) II_KEYFIRST
    \<longleftrightarrow> pgsize (pdb E) < page_used (pdb E) items + item_psize x (length key) + item_psize x (length data)"
    unfolding freespace_room [OF rs(1)] by (simp add: iitem_needed_def add.assoc)
  show ?thesis
  proof (cases "pgsize (pdb E) < page_used (pdb E) items + item_psize x (length key) + item_psize x (length data)
      \<or> limited x E s ?h (2 * j) (length key) (length data) II_KEYFIRST")
    case True
    then show ?thesis unfolding bam_iitem_def Let_def limited_fold nd by (auto simp: iitem_post_def)
  next
    case False
    obtain s1 e1 g1 where 1: "memp_dirty E s n = (s1, e1, g1)" by (cases "memp_dirty E s n") auto
    note D = memp_dirty_spec [OF 1]
    have e1: "e1 = 0" "\<not> g1" using D(4,6) io by (auto simp: no_io_errors_def)
    note F = same_pages_frame [OF D(1)]
    have pg: "pg_of s1 n = ?h" using F(1) by (simp add: pg_of_def)
    have ok1: "pager_ok E fs s1" "n \<in> in_use fs s1" using F ok by simp_all
    have il: "length items = 2 * length rs" using pairs_ok_length [OF rs(2)] .
    have m1: "m_last s1 = m_last s" using D(1) by (simp add: same_pages_def)
    have r1: "page_used (pdb E) items + item_psize x (length key) \<le> pgsize (pdb E)" using False by simp
    have k1: "2 * j \<le> length items" "ovflsize x < length key \<Longrightarrow> unat (m_last s1) + length key < 2 ^ 32" using j il x(2) by simp_all
    from put_item_step [OF io env ok1 rs(1) [folded pg] k1(1) x(1) k1(2) r1, of c] x(2) obtain s2 a fs2 ps where
      2: "put_item x E s1 c n (2 * j) key = (s2, 0, c)" "stepped E fs s1 n fs2 s2 {} {}" "val_item E s2 a key []"
      "holds (pdb E) (pg_of s2 n) (take (2 * j) items @ a # drop (2 * j) items)" "length a + 2 = item_psize x (length key)"
      "m_last s2 = m_last s1" by auto
    let ?its = "take (2 * j) items @ a # drop (2 * j) items"
    have ok2: "pager_ok E fs2 s2" "n \<in> in_use fs2 s2" using 2(2) ok1(2) by (auto simp: stepped_def)
    have k2: "2 * j + 1 \<le> length ?its" using k1(1) by simp
    have r2: "page_used (pdb E) ?its + item_psize x (length data) \<le> pgsize (pdb E)"
      using False 2(5) unfolding used_after_insert [OF k1(1)] by simp
    have l2: "ovflsize x < length data \<Longrightarrow> unat (m_last s2) + length data < 2 ^ 32" using len m1 2(6) by simp
    from put_item_step [OF io env ok2 2(4) k2 x(1) l2 r2, of c] obtain u c' b qs fs3 where
      3: "put_item x E s2 c n (2 * j + 1) data = (u, 0, c')" "stepped E fs2 s2 n fs3 u {} (fst ` set qs)" "val_item E u b data qs"
      "holds (pdb E) (pg_of u n) (take (2 * j + 1) ?its @ b # drop (2 * j + 1) ?its)" by blast
    have its: "take (2 * j + 1) ?its @ b # drop (2 * j + 1) ?its = take (2 * j) items @ [a, b] @ drop (2 * j) items"
      using k1(1) by (simp add: min_def)
    have st: "stepped E fs s n fs3 u {} (fst ` set qs)"
      using stepped_same [OF D(1) _ D(2) stepped_trans [OF 2(2) 3(2)]] D(3) e1 by simp
    have "\<And>p. p \<in> set (chain_pages rs) \<Longrightarrow> pages u p = pages s p" using own stepped_keeps [OF st] by blast
    then have "pairs_ok E u items rs" using pairs_ok_cong [of rs u s E items] rs(2) by simp
    moreover have "bk_item B_KEYDATA key a" using 2(3) by (simp add: val_item_def)
    ultimately have p: "pairs_ok E u (take (2 * j) items @ [a, b] @ drop (2 * j) items) (take j rs @ (key, data, qs) # drop j rs)"
      using pairs_ok_insert [OF _ j _ 3(3)] by blast
    have hd: "same_head ?h (pg_of u n)" "pages u n \<noteq> None" using st by (simp_all add: stepped_def)
    have "leaf_recs E u n (take j rs @ (key, data, qs) # drop j rs)"
      unfolding leaf_recs_def using p 3(4) [unfolded its] hd rs(3,4) by (auto simp: same_head_def)
    moreover have "bam_iitem x E s c n (2 * j) key data II_KEYFIRST = Some (u, c', 0, True)"
      unfolding bam_iitem_def Let_def limited_fold nd using False 1 e1 2(1) 3(1) by simp
    ultimately show ?thesis using st val_item_distinct [OF 3(3)] False unfolding iitem_post_def by fastforce
  qed
qed

lemma used_fits: "holds d pg items \<Longrightarrow> page_used d items \<le> pgsize d"
  using holdsD(4,6) [of d pg items] by (simp add: page_used_def)

lemma needed_current:
  assumes h: "holds d pg items" and k: "2 * j + 1 < length items" and v: "val_item E s (items ! (2 * j + 1)) v ps" and ty: "ptype pg = P_LBTREE"
  shows "unat (P_FREESPACE d pg) < iitem_needed x d pg (2 * j) klen dlen II_CURRENT
    \<longleftrightarrow> pgsize d + length (items ! (2 * j + 1)) + 2 < page_used d items + item_psize x dlen"
proof -
  note R = val_item_read [OF h k v]
  let ?t = "slot_type d pg (2 * j + 1)"
  have ds: "data_slot pg (2 * j) = 2 * j + 1" using ty by (simp add: data_slot_def)
  have hv: "?t \<noteq> B_BLOB"
    "(if ?t = B_KEYDATA then BKEYDATA_PSIZE (bk_len (mem pg) (inp d (mem pg) (2 * j + 1))) else BOVERFLOW_PSIZE) = length (items ! (2 * j + 1)) + 2"
    using R by (cases "ps = []"; simp add: slot_type_def BKEYDATA_PSIZE_def BOVERFLOW_PSIZE_def)+
  have "iitem_needed x d pg (2 * j) klen dlen II_CURRENT =
      (if length (items ! (2 * j + 1)) + 2 < item_psize x dlen then item_psize x dlen - (length (items ! (2 * j + 1)) + 2) else 0)"
    using hv by (simp add: iitem_needed_def ds Let_def split: if_splits)
  then show ?thesis unfolding freespace_room [OF h] using used_fits [OF h] by auto
qed

lemma iitem_replace:
  assumes io: "no_io_errors E" and env: "env_ok E" and ok: "pager_ok E fs s" "n \<in> in_use fs s"
    and rs: "holds (pdb E) (pg_of s n) items" "pairs_ok E s items rs" "ptype (pg_of s n) = P_LBTREE" "level (pg_of s n) = LEAFLEVEL"
    and own: "distinct (chain_pages rs)" "set (chain_pages rs) \<subseteq> in_use fs s - {n}" and j: "j < length rs" "rs ! j = (k, v0, ps0)"
    and x: "ovflsize x + 6 < 65536" and len: "ovflsize x < length data \<Longrightarrow> unat (m_last s) + length data < 2 ^ 32"
  shows "\<exists>u c' e. bam_iitem x E s c n (2 * j) key data II_CURRENT = Some (u, c', e, True)
    \<and> iitem_post x E fs s n (pgsize (pdb E) + length (items ! (2 * j + 1)) + 2 < page_used (pdb E) items + item_psize x (length data))
        (limited x E s (pg_of s n) (2 * j) (length key) (length data) II_CURRENT) ps0 (\<lambda>ps. rs[j := (k, data, ps)]) u e"
proof -
  let ?h = "pg_of s n" and ?i = "2 * j + 1"
  let ?full = "pgsize (pdb E) + length (items ! ?i) + 2 < page_used (pdb E) items + item_psize x (length data)"
  note N = pairs_ok_nth [OF rs(2) j(1)]
  have v: "val_item E s (items ! ?i) v0 ps0" using N(2) j(2) by simp
  note nd = needed_current [OF rs(1) N(3) v rs(3)]
  show ?thesis
  proof (cases "?full \<or> limited x E s ?h (2 * j) (length key) (length data) II_CURRENT")
    case True
    then show ?thesis unfolding bam_iitem_def Let_def limited_fold nd by (auto simp: iitem_post_def)
  next
    case False
    obtain s1 e1 g1 where 1: "memp_dirty E s n = (s1, e1, g1)" by (cases "memp_dirty E s n") auto
    note D = memp_dirty_spec [OF 1]
    have e1: "e1 = 0" "\<not> g1" using D(4,6) io by (auto simp: no_io_errors_def)
    note F = same_pages_frame [OF D(1)]
    have pg: "pg_of s1 n = ?h" using F(1) by (simp add: pg_of_def)
    have ok1: "pager_ok E fs s1" "n \<in> in_use fs s1" using F ok by simp_all
    have il: "length items = 2 * length rs" using pairs_ok_length [OF rs(2)] .
    have m1: "m_last s1 = m_last s" using D(1) by (simp add: same_pages_def)
    have v1: "val_item E s1 (items ! ?i) v0 ps0" using v val_item_cong [of ps0 s1 s] F(1) by simp
    have dj: "rs = take j rs @ (k, v0, ps0) # drop (Suc j) rs" using j id_take_nth_drop by fastforce
    have cp: "chain_pages rs = chain_pages (take j rs) @ map fst ps0 @ chain_pages (drop (Suc j) rs)"
      by (subst dj) simp
    have o0: "fst ` set ps0 \<subseteq> in_use fs s1 - {n}" using own F(2) unfolding cp by auto
    have o1: "p \<in> in_use fs s \<and> p \<noteq> n \<and> p \<notin> fst ` set ps0" if "p \<in> set (chain_pages (take j rs @ drop (Suc j) rs))" for p
      using own that unfolding cp by auto
    have h1: "holds (pdb E) (pg_of s1 n) items" "ptype (pg_of s1 n) = P_LBTREE" using rs(1,3) pg by simp_all
    have ds: "data_slot ?h (2 * j) = ?i" using rs(3) by (simp add: data_slot_def)
    have st: "slot_type (pdb E) ?h ?i = (if ps0 = [] then B_KEYDATA else B_OVERFLOW)"
      using val_item_read [OF rs(1) N(3) v] by (simp add: slot_type_def)
    have fin: "\<exists>u c' e. bam_iitem x E s c n (2 * j) key data II_CURRENT = Some (u, c', e, True)
        \<and> iitem_post x E fs s n ?full (limited x E s ?h (2 * j) (length key) (length data) II_CURRENT) ps0 (\<lambda>ps. rs[j := (k, data, ps)]) u e"
      if run: "bam_iitem x E s c n (2 * j) key data II_CURRENT = Some (u, c', 0, True)"
        and step: "stepped E fs s1 n fs' u (fst ` set ps0) (fst ` set qs)" and it: "val_item E u b data qs"
        and hu: "holds (pdb E) (pg_of u n) (items[?i := b])" for u c' fs' qs b
    proof -
      have st: "stepped E fs s n fs' u (fst ` set ps0) (fst ` set qs)"
        using stepped_same [OF D(1) _ D(2) step] D(3) e1 by simp
      have "\<And>p. p \<in> set (chain_pages (take j rs @ drop (Suc j) rs)) \<Longrightarrow> pages u p = pages s p"
        using o1 stepped_keeps [OF st] by blast
      from pairs_ok_update [OF rs(2) j it this] have p: "pairs_ok E u (items[?i := b]) (rs[j := (k, data, qs)])" by blast
      have "same_head ?h (pg_of u n)" "pages u n \<noteq> None" using st by (simp_all add: stepped_def)
      then have "leaf_recs E u n (rs[j := (k, data, qs)])"
        unfolding leaf_recs_def using p hu rs(3,4) by (auto simp: same_head_def)
      then show ?thesis using run st val_item_distinct [OF it] False unfolding iitem_post_def by fastforce
    qed
    show ?thesis
    proof (cases "length data > ovflsize x \<or> ps0 \<noteq> []")
      case True
      from ditem_data_step [OF io ok1 h1(1) N(3) _ h1(2) v1 o0] obtain s2 fs2 where
        2: "bam_ditem E s1 n ?i = Some (s2, 0)" "stepped E fs s1 n fs2 s2 (fst ` set ps0) {}" "m_last s2 = m_last s1"
        "holds (pdb E) (pg_of s2 n) (take ?i items @ drop (Suc ?i) items)" by auto
      let ?its = "take ?i items @ drop (Suc ?i) items"
      have n0: "n \<notin> fst ` set ps0" using o0 by blast
      have ok2: "pager_ok E fs2 s2" "n \<in> in_use fs2 s2" using 2(2) ok1(2) n0 by (auto simp: stepped_def)
      have k2: "?i \<le> length ?its" using N(3) by simp
      have r2: "page_used (pdb E) ?its + item_psize x (length data) \<le> pgsize (pdb E)"
        using False used_after_delete [OF N(3), of "pdb E"] by simp
      have l2: "ovflsize x < length data \<Longrightarrow> unat (m_last s2) + length data < 2 ^ 32" using len m1 2(3) by simp
      from put_item_step [OF io env ok2 2(4) k2 x l2 r2, of c] obtain u c' b qs fs3 where
        3: "put_item x E s2 c n ?i data = (u, 0, c')" "stepped E fs2 s2 n fs3 u {} (fst ` set qs)" "val_item E u b data qs"
        "holds (pdb E) (pg_of u n) (take ?i ?its @ b # drop ?i ?its)" by blast
      have its: "take ?i ?its @ b # drop ?i ?its = items[?i := b]"
        using N(3) by (simp add: upd_conv_take_nth_drop min_def)
      have "slot_type (pdb E) ?h ?i \<noteq> B_BLOB" "length data > ovflsize x \<or> slot_type (pdb E) ?h ?i \<noteq> B_KEYDATA"
        using st True by auto
      then have "bam_iitem x E s c n (2 * j) key data II_CURRENT = Some (u, c', 0, True)"
        unfolding bam_iitem_def Let_def limited_fold nd ds using False 1 e1 2(1) 3(1) by simp
      from fin [OF this stepped_trans [OF 2(2) 3(2)] 3(3) 3(4) [unfolded its]] show ?thesis .
    next
      case small: False
      have b0: "bk_item B_KEYDATA v0 (items ! ?i)" using v small by (simp add: val_item_def)
      have n: "length data + 6 < 65536" using small x by simp
      have ty: "ptype (pg_of s1 n) \<noteq> P_IBTREE" using h1(2) by (simp add: P_LBTREE_def P_IBTREE_def)
      have r: "page_used (pdb E) items + BKEYDATA_SIZE (length data) \<le> pgsize (pdb E) + length (items ! ?i)"
        using False small by (simp add: item_psize_def BKEYDATA_PSIZE_def)
      from page_ritem_step [OF io ok1 h1(1) N(3) b0 n ty r] obtain u b where
        2: "page_ritem E s1 n ?i data = (u, 0)" "stepped E fs s1 n fs u {} {}"
        "holds (pdb E) (pg_of u n) (items[?i := b])" "bk_item B_KEYDATA data b" by auto
      have "slot_type (pdb E) ?h ?i = B_KEYDATA" using st small by simp
      then have run: "bam_iitem x E s c n (2 * j) key data II_CURRENT = Some (u, c, 0, True)"
        unfolding bam_iitem_def Let_def limited_fold nd ds using False 1 e1 2(1) small by simp
      have e: "stepped E fs s1 n fs u (fst ` set ps0) (fst ` set ([] :: chain))" "val_item E u b data []"
        using 2(2,4) small by (simp_all add: val_item_def)
      from fin [OF run e 2(3)] show ?thesis .
    qed
  qed
qed

end
