(* ===== verification/Bt_Store.thy ===== *)
theory Bt_Store
  imports Bt_Leaf Kv_Store
begin

text \<open>
  A btree as a store of records.  The records of the leaves, in the order of the tree, are a map from keys
  to data; \<open>__db_get\<close> reads it and \<open>__db_put\<close> updates it.  The invariant says what the pages hold: a sorted tree
  whose separators are plain items, leaves with their records, and chains of overflow pages that no two
  records share; the leaves are linked in both directions.  The btree provides the contract \<open>kv_store\<close> of the file system.
\<close>

section \<open>The tree of keys\<close>

abbreviation LEX :: "(byte list \<Rightarrow> byte list \<Rightarrow> int) option" where "LEX \<equiv> Some lex3"

fun bt_pages :: "bt \<Rightarrow> u32 list" where
  "bt_pages (Lf n ks) = [n]"
| "bt_pages (Nd n ks ts) = n # concat (map bt_pages ts)"

text \<open>Other keys in a leaf.\<close>

fun bt_upd :: "u32 \<Rightarrow> byte list list \<Rightarrow> bt \<Rightarrow> bt" where
  "bt_upd n ks' (Lf m ks) = Lf m (if m = n then ks' else ks)"
| "bt_upd n ks' (Nd m ks ts) = Nd m ks (map (bt_upd n ks') ts)"

lemma bt_upd_pgno [simp]: "bt_pgno (bt_upd n ks' t) = bt_pgno t"
  by (cases t) simp_all

lemma bt_upd_pages [simp]: "bt_pages (bt_upd n ks' t) = bt_pages t"
proof (induction t rule: bt_pages.induct)
  case (2 m ks ts)
  then have "map (\<lambda>t. bt_pages (bt_upd n ks' t)) ts = map bt_pages ts" by simp
  then show ?case by (simp add: comp_def del: map_eq_conv)
qed simp

lemma bt_upd_leaves:
  "bt_leaves (bt_upd n ks' t) = map (\<lambda>(m, ks). (m, if m = n then ks' else ks)) (bt_leaves t)"
proof (induction t rule: bt_leaves.induct)
  case (2 m ks ts)
  then have "map (\<lambda>t. bt_leaves (bt_upd n ks' t)) ts = map (\<lambda>t. map (\<lambda>(m, ks). (m, if m = n then ks' else ks)) (bt_leaves t)) ts"
    by simp
  then show ?case by (simp add: comp_def map_concat del: map_eq_conv)
qed simp

lemma bt_leaf_page: "fst ` set (bt_leaves t) \<subseteq> set (bt_pages t)"
  by (induction t rule: bt_leaves.induct) auto

lemma bt_upd_other: "n \<notin> fst ` set (bt_leaves t) \<Longrightarrow> bt_upd n ks' t = t"
  by (induction t rule: bt_leaves.induct) (auto intro: map_idI)

lemma distinct_concat_part: "distinct (concat xs) \<Longrightarrow> x \<in> set xs \<Longrightarrow> distinct x"
  by (induction xs) auto

lemma distinct_concat_one:
  "distinct (concat xs) \<Longrightarrow> i < length xs \<Longrightarrow> j < length xs \<Longrightarrow> z \<in> set (xs ! i) \<Longrightarrow> z \<in> set (xs ! j) \<Longrightarrow> i = j"
proof (induction xs arbitrary: i j)
  case (Cons x xs)
  have "z \<notin> set x" if "k < length xs" "z \<in> set (xs ! k)" for k
    using Cons.prems(1) nth_mem [OF that(1)] that(2) by auto
  then show ?case using Cons by (cases i; cases j) auto
qed simp

lemma bt_leaves_distinct: "distinct (bt_pages t) \<Longrightarrow> distinct (map fst (bt_leaves t))"
proof (induction t rule: bt_leaves.induct)
  case (2 m ks ts)
  have "distinct (concat (map bt_pages ts)) \<Longrightarrow> (\<And>t. t \<in> set ts \<Longrightarrow> distinct (map fst (bt_leaves t))) \<Longrightarrow>
      distinct (concat (map (\<lambda>t. map fst (bt_leaves t)) ts))" for ts
  proof (induction ts)
    case (Cons t ts)
    have "set (concat (map (\<lambda>t. map fst (bt_leaves t)) ts)) \<subseteq> set (concat (map bt_pages ts))"
      using bt_leaf_page by fastforce
    then show ?case using Cons bt_leaf_page [of t] by fastforce
  qed simp
  moreover have "distinct (concat (map bt_pages ts))" using "2.prems" by simp
  moreover have "distinct (map fst (bt_leaves t))" if "t \<in> set ts" for t
    using "2.IH" [OF that] distinct_concat_part [of "map bt_pages ts" "bt_pages t"] "2.prems" that by simp
  ultimately show ?case by (simp add: map_concat comp_def)
qed simp

section \<open>Separators that are plain items\<close>

lemma key_for_plain: "key_for (Some g) E s h i k = key_for (Some g) E u h i k"
  by (auto simp: key_for_def key_at_def Let_def)

lemma page_keys_plain: "page_keys (Some g) E s h w ks = page_keys (Some g) E u h w ks"
  unfolding page_keys_def key_for_plain [where s = s and u = u] ..

lemma leaf_ok_plain: "leaf_ok (Some g) E s h ks = leaf_ok (Some g) E u h ks"
  unfolding leaf_ok_def page_keys_plain [where s = s and u = u] ..

lemma cmp_of_lex [simp]: "cmp_of LEX = lex3"
  by (intro ext) (simp add: cmp_of_def)

lemma page_keys_default: "page_keys LEX E s h w ks \<Longrightarrow> page_keys None E s h w ks"
  by (auto simp: page_keys_def key_for_def)

lemma bt_rep_default: "bt_rep LEX E s l t \<Longrightarrow> bt_rep None E s l t"
proof (induction l arbitrary: t)
  case (Suc l)
  then show ?case by (cases t) (auto simp: leaf_ok_def intro: page_keys_default)
qed simp

lemma bt_sorted_default: "bt_sorted LEX t = bt_sorted None t"
  by (induction t rule: bt_leaves.induct) auto

text \<open>The pages of the tree with another leaf.\<close>

lemma bt_rep_upd:
  assumes "\<And>m. m \<in> set (bt_pages t) \<Longrightarrow> m \<noteq> n \<Longrightarrow> pages u m = pages s m" "ptype (pg_of s n) = P_LBTREE"
    and "pages u n \<noteq> None" "leaf_ok LEX E u (pg_of u n) ks'"
  shows "bt_rep LEX E s l t \<Longrightarrow> bt_rep LEX E u l (bt_upd n ks' t)"
  using assms(1)
proof (induction l arbitrary: t)
  case (Suc l)
  show ?case
  proof (cases t)
    case (Lf m ks)
    show ?thesis
    proof (cases "m = n")
      case True
      then show ?thesis using Suc.prems(1) Lf assms(3,4) by (auto simp: leaf_ok_def LEAFLEVEL_def)
    next
      case False
      then have "pages u m = pages s m" "pg_of u m = pg_of s m" using Suc.prems(2) [of m] Lf by (simp_all add: pg_of_def)
      then show ?thesis using Suc.prems(1) Lf False leaf_ok_plain [of lex3 E s "pg_of s m" ks u] by simp
    qed
  next
    case (Nd m ks ts)
    have rep: "ptype (pg_of s m) = P_IBTREE" "page_keys LEX E s (pg_of s m) 1 ks" using Suc.prems(1) Nd by auto
    have "m \<noteq> n" using rep(1) assms(2) by (auto simp: P_IBTREE_def P_LBTREE_def)
    then have m: "pages u m = pages s m" "pg_of u m = pg_of s m" using Suc.prems(2) [of m] Nd by (simp_all add: pg_of_def)
    have "bt_rep LEX E u l (bt_upd n ks' t')" if "t' \<in> set ts" for t'
      using Suc.IH [of t'] Suc.prems that Nd by auto
    moreover have "page_keys LEX E u (pg_of s m) 1 ks" using rep(2) page_keys_plain [of lex3 E s "pg_of s m" 1 ks u] by blast
    ultimately show ?thesis using Suc.prems(1) Nd m by auto
  qed
qed simp

lemma routed_leaf: "routed f key t n \<Longrightarrow> n \<in> fst ` set (bt_leaves t)"
proof (induction t rule: bt_leaves.induct)
  case (2 m ks ts)
  then obtain j where "j < length ts" "routed f key (ts ! j) n" by auto
  then show ?case using "2.IH" [of "ts ! j"] by force
qed simp

lemma bt_upd_all:
  assumes "\<And>ks. (n, ks) \<in> set (bt_leaves t) \<Longrightarrow> set ks' \<subseteq> insert key (set ks)"
  shows "bt_all (bt_upd n ks' t) \<subseteq> insert key (bt_all t)"
  using assms
proof (induction t rule: bt_leaves.induct)
  case (2 m ks ts)
  have "bt_all (bt_upd n ks' t) \<subseteq> insert key (bt_all t)" if "t \<in> set ts" for t
    using "2.IH" [OF that] "2.prems" that by auto
  then show ?case by fastforce
qed (auto split: if_splits)

lemma bt_sorted_upd:
  assumes "bt_sorted f t" "distinct (map fst (bt_leaves t))"
    and "\<And>ks. (n, ks) \<in> set (bt_leaves t) \<Longrightarrow> set ks' \<subseteq> insert key (set ks)"
    and "n \<in> fst ` set (bt_leaves t) \<Longrightarrow> routed f key t n"
  shows "bt_sorted f (bt_upd n ks' t)"
  using assms
proof (induction t rule: bt_leaves.induct)
  case (2 m ks ts)
  have so: "\<forall>j<length ts. \<forall>k \<in> bt_all (ts ! j).
      (0 < j \<longrightarrow> cmp_of f (ks ! j) k \<le> 0) \<and> (Suc j < length ts \<longrightarrow> cmp_of f k (ks ! Suc j) < 0)"
    and st: "\<forall>t \<in> set ts. bt_sorted f t" using "2.prems"(1) by auto
  have d: "distinct (concat (map (\<lambda>t. map fst (bt_leaves t)) ts))" using "2.prems"(2) by (simp add: map_concat comp_def)
  have one: "i = j" if "i < length ts" "j < length ts" "n \<in> fst ` set (bt_leaves (ts ! i))" "n \<in> fst ` set (bt_leaves (ts ! j))" for i j
    using distinct_concat_one [OF d, of i j n] that by simp
  have child: "(0 < j \<longrightarrow> cmp_of f (ks ! j) key \<le> 0) \<and> (Suc j < length ts \<longrightarrow> cmp_of f key (ks ! Suc j) < 0) \<and> routed f key (ts ! j) n"
    if j: "j < length ts" "n \<in> fst ` set (bt_leaves (ts ! j))" for j
  proof -
    have "n \<in> fst ` set (bt_leaves (Nd m ks ts))" using j by force
    from "2.prems"(4) [OF this] obtain i where i: "i < length ts" "0 < i \<longrightarrow> cmp_of f (ks ! i) key \<le> 0"
      "Suc i < length ts \<longrightarrow> cmp_of f key (ks ! Suc i) < 0" "routed f key (ts ! i) n" by auto
    have "i = j" using one [OF i(1) j(1) routed_leaf [OF i(4)] j(2)] .
    then show ?thesis using i by blast
  qed
  have up: "(\<forall>k \<in> bt_all (bt_upd n ks' (ts ! j)). (0 < j \<longrightarrow> cmp_of f (ks ! j) k \<le> 0) \<and> (Suc j < length ts \<longrightarrow> cmp_of f k (ks ! Suc j) < 0))
      \<and> bt_sorted f (bt_upd n ks' (ts ! j))" if j: "j < length ts" for j
  proof (cases "n \<in> fst ` set (bt_leaves (ts ! j))")
    case True
    have sub: "set ks' \<subseteq> insert key (set k)" if "(n, k) \<in> set (bt_leaves (ts ! j))" for k
      using "2.prems"(3) [of k] that j by force
    have "bt_all (bt_upd n ks' (ts ! j)) \<subseteq> insert key (bt_all (ts ! j))" using bt_upd_all [OF sub] .
    moreover have "distinct (map fst (bt_leaves (ts ! j)))" 
      using distinct_concat_part [OF d, of "map fst (bt_leaves (ts ! j))"] j by simp
    then have "bt_sorted f (bt_upd n ks' (ts ! j))" using "2.IH" [of "ts ! j"] j st sub child [OF j True] by auto
    ultimately show ?thesis using so child [OF j True] j by blast
  next
    case False
    then show ?thesis using bt_upd_other [OF False] so st j by simp
  qed
  then show ?case using "2.prems"(1) by (auto simp: in_set_conv_nth)
qed simp

section \<open>The invariant\<close>

definition tree_recs :: "(u32 \<Rightarrow> leaf_rec list) \<Rightarrow> bt \<Rightarrow> leaf_rec list" where
  "tree_recs R t = concat (map (\<lambda>(n, ks). R n) (bt_leaves t))"

definition content :: "(u32 \<Rightarrow> leaf_rec list) \<Rightarrow> bt \<Rightarrow> byte list \<rightharpoonup> byte list" where
  "content R t = map_of (map (\<lambda>(k, v, ps). (k, v)) (tree_recs R t))"

definition store_env :: "put_cfg \<Rightarrow> btree_h \<Rightarrow> bool" where
  "store_env x B \<longleftrightarrow> bt_cmp B = None \<and> env_ok (bt_env B) \<and> no_io_errors (bt_env B) \<and> ovflsize x + 6 < 65536 \<and> in_txn x"

text \<open>The leaves are linked in the order of the tree, from the first to the last; 0 stands for no page.\<close>

fun linked :: "pager \<Rightarrow> u32 list \<Rightarrow> bool" where
  "linked s (x # y # zs) \<longleftrightarrow>
     (x \<noteq> PGNO_INVALID \<longrightarrow> next_pgno (pg_of s x) = y) \<and> (y \<noteq> PGNO_INVALID \<longrightarrow> prev_pgno (pg_of s y) = x) \<and> linked s (y # zs)"
| "linked s _ \<longleftrightarrow> True"

definition leaf_chain :: "pager \<Rightarrow> bt \<Rightarrow> bool" where
  "leaf_chain s t \<longleftrightarrow> linked s (PGNO_INVALID # map fst (bt_leaves t) @ [PGNO_INVALID])"

lemma linked_append: "linked s (xs @ y # zs) \<longleftrightarrow> linked s (xs @ [y]) \<and> linked s (y # zs)"
proof (induction xs)
  case (Cons x xs)
  then show ?case by (cases xs) auto
qed simp

lemma linked_cong:
  "(\<And>m. m \<in> set ns \<Longrightarrow> m \<noteq> PGNO_INVALID \<Longrightarrow> next_pgno (pg_of u m) = next_pgno (pg_of s m) \<and> prev_pgno (pg_of u m) = prev_pgno (pg_of s m)) \<Longrightarrow>
    linked s ns \<Longrightarrow> linked u ns"
  by (induction s ns rule: linked.induct) auto

lemma leaf_chain_cong:
  assumes "map fst (bt_leaves t') = map fst (bt_leaves t)"
    and "\<And>m. m \<in> fst ` set (bt_leaves t) \<Longrightarrow> next_pgno (pg_of u m) = next_pgno (pg_of s m) \<and> prev_pgno (pg_of u m) = prev_pgno (pg_of s m)"
  shows "leaf_chain s t \<Longrightarrow> leaf_chain u t'"
  unfolding leaf_chain_def assms(1) by (erule linked_cong [rotated]) (use assms(2) in auto)

lemma leaf_chain_same: "same_pages s u \<Longrightarrow> leaf_chain s t \<Longrightarrow> leaf_chain u t"
  by (rule leaf_chain_cong [of t t]) (simp_all add: same_pages_def pg_of_def)

definition store_inv :: "btree_h \<Rightarrow> u32 \<Rightarrow> pager \<times> u32 \<Rightarrow> nat \<Rightarrow> bt \<Rightarrow> (u32 \<Rightarrow> leaf_rec list) \<Rightarrow> u32 list \<Rightarrow> bool" where
  "store_inv B root db l t R fs \<longleftrightarrow>
     (let E = bt_env B; s = fst db; ps = bt_pages t @ chain_pages (tree_recs R t) in
      snd db = PGNO_INVALID \<and> pager_ok E fs s \<and> bt_pgno t = root \<and> bt_rep LEX E s l t \<and> bt_sorted LEX t
    \<and> distinct (bt_keys t) \<and> (\<forall>(n, ks) \<in> set (bt_leaves t). ks = map fst (R n) \<and> leaf_recs E s n (R n))
    \<and> leaf_chain s t \<and> distinct ps \<and> set ps \<subseteq> in_use fs s)"

lemma tree_recs_keys:
  "(\<And>n ks. (n, ks) \<in> set (bt_leaves t) \<Longrightarrow> ks = map fst (R n)) \<Longrightarrow> map fst (tree_recs R t) = bt_keys t"
  unfolding tree_recs_def bt_keys_def map_concat map_map by (rule arg_cong [of _ _ concat]) (auto intro!: map_cong)

lemma content_keys: "map fst (map (\<lambda>(k, v, ps). (k, v)) rs) = map fst rs"
  by (induction rs) auto

lemma content_at:
  assumes "distinct (map fst (tree_recs R t))" "(n, ks) \<in> set (bt_leaves t)" "j < length (R n)" "R n ! j = (k, v, ps)"
  shows "content R t k = Some v"
proof -
  have "(k, v, ps) \<in> set (R n)" using assms(3,4) nth_mem by metis
  then have "(k, v, ps) \<in> set (tree_recs R t)" using assms(2) by (force simp: tree_recs_def)
  then have "(k, v) \<in> set (map (\<lambda>(k, v, ps). (k, v)) (tree_recs R t))" by force
  moreover have "distinct (map fst (map (\<lambda>(k, v, ps). (k, v)) (tree_recs R t)))" unfolding content_keys by (rule assms(1))
  ultimately show ?thesis unfolding content_def by (intro map_of_is_SomeI)
qed

lemma content_none: "k \<notin> set (map fst (tree_recs R t)) \<Longrightarrow> content R t k = None"
  unfolding content_def map_of_eq_None_iff by (metis content_keys set_map)

text \<open>No data item is marked deleted.\<close>

lemma val_not_deleted:
  assumes "holds d pg items" "i < length items" "val_item E s (items ! i) v ps"
  shows "\<not> item_deleted d pg i"
  using val_item_read [OF assms] by (cases "ps = []") (simp_all add: item_deleted_def B_DISSET_def B_KEYDATA_def B_OVERFLOW_def)

lemma leaf_not_deleted:
  assumes "leaf_recs E s n rs" "j < length rs"
  shows "\<not> item_deleted (pdb E) (pg_of s n) (2 * j + 1)"
proof -
  obtain items where "holds (pdb E) (pg_of s n) items" "pairs_ok E s items rs" using assms(1) by (auto simp: leaf_recs_def)
  then show ?thesis using val_not_deleted pairs_ok_nth(2,3) [of E s items rs j] assms(2) by blast
qed

section \<open>Reading a record\<close>

lemma ret_data:
  assumes io: "no_io_errors (bt_env B)" and lr: "leaf_recs (bt_env B) s n rs" "j < length rs" "rs ! j = (k, v, ps)"
    and c: "stream_start c = PGNO_INVALID" and d: "\<not> dt_partial dbt" "dt_mode dbt = RETBUF"
  shows "\<exists>u d' buf' c'. db_ret B s c (pg_of s n) (2 * j + 1) dbt (Some b) = Some (u, 0, d', buf', c') \<and> quiet (bt_env B) s u
    \<and> dt_size d' = length v \<and> take (length v) (dt_data d') = v"
proof -
  let ?E = "bt_env B" and ?h = "pg_of s n" and ?i = "2 * j + 1"
  obtain items where 1: "holds (pdb ?E) ?h items" "pairs_ok ?E s items rs" and ty: "ptype ?h = P_LBTREE"
    using lr(1) by (auto simp: leaf_recs_def)
  note N = pairs_ok_nth [OF 1(2) lr(2)]
  have v: "val_item ?E s (items ! ?i) v ps" using N(2) lr(3) by simp
  note R = val_item_read [OF 1(1) N(3) v]
  have e: "io ?E k = 0" and pe: "put_io ?E k = 0" for k using io by (simp_all add: no_io_errors_def)
  show ?thesis
  proof (cases "ps = []")
    case True
    note r = R(1) [OF True]
    let ?new = "length v \<noteq> 0 \<and> (b = [] \<or> length b < length v)"
    define u where "u = (if ?new then tock s else s)"
    define w where "w = (if ?new then new_mem b (length v) else b)"
    have w: "length v \<le> length w" by (auto simp: w_def new_mem_def)
    let ?d = "dbt\<lparr>dt_size := length v, dt_data := buf_write 0 v w\<rparr>"
    have "db_retcopy ?E s dbt v (Some b) = (u, 0, ?d, Some (buf_write 0 v w))"
      using d e by (simp add: db_retcopy_def Let_def ret_part_def u_def w_def)
    then have "db_ret B s c ?h ?i dbt (Some b) = Some (u, 0, ?d, Some (buf_write 0 v w), c)"
      using r ty by (simp add: db_ret_def Let_def)
    moreover have "quiet ?E s u" by (simp add: u_def quiet_def same_pages_def)
    moreover have "take (length v) (buf_write 0 v w) = v" using take_buf_write_all [OF refl w] .
    ultimately show ?thesis by auto
  next
    case False
    note r = R(2) [OF False]
    let ?p = "bo_pgno (mem ?h) (inp (pdb ?E) (mem ?h) ?i)"
    have cb: "chain_bytes ps = v" using v False by (simp add: val_item_def)
    obtain q b0 qs where ps: "ps = (q, b0) # qs" using False by (cases ps) auto
    have "?p \<noteq> PGNO_INVALID" using r ps by simp
    then have st: "stream_ok c ?p ps" using c by (auto simp: stream_ok_def)
    have al: "alloc_needed dbt (length v) = (length v, 0)" using d(1) by (simp add: alloc_needed_def)
    have rm: "goff_room dbt (length v) (Some b)" using d(2) by (simp add: goff_room_def)
    from goff_chain [OF _ False _ st rm al, of ?E s] r cb obtain u e' d' buf' c' where
      2: "db_goff ?E s c dbt (length v) ?p (Some b) = Some (u, e', d', buf', c')" "same_pages s u"
      "pins u = pins s" "m_locks u = m_locks s" "e' = 0"
      "dt_size d' = length v" "take (length v) (dt_data d') = v"
      using d(2) e pe by auto
    have "db_ret B s c ?h ?i dbt (Some b) = Some (u, 0, d', buf', c')"
      using r ty 2(1,5) by (simp add: db_ret_def Let_def)
    then show ?thesis using 2 by (auto simp: quiet_def)
  qed
qed

text \<open>The place of a key, in the records of the leaf.\<close>

lemma store_place:
  assumes inv: "store_inv B root db l t R fs"
    and loc: "located None key t (\<lambda>m ks. m = n \<and> Q ks)"
  shows "\<exists>us ks vs. bt_leaves t = us @ (n, ks) # vs \<and> Q ks \<and> ks = map fst (R n) \<and> leaf_recs (bt_env B) (fst db) n (R n)
    \<and> routed None key t n \<and> key \<notin> set (concat (map snd us)) \<and> key \<notin> set (concat (map snd vs))"
proof -
  obtain us ks vs where 1: "bt_leaves t = us @ (n, ks) # vs" "Q ks" "routed None key t n"
    and k: "\<forall>k \<in> set (concat (map snd us)). 0 < lex3 key k" "\<forall>k \<in> set (concat (map snd vs)). lex3 key k < 0"
    using loc unfolding located_def cmp_of_default by blast
  have "ks = map fst (R n)" "leaf_recs (bt_env B) (fst db) n (R n)"
    using inv 1(1) by (auto simp: store_inv_def Let_def)
  moreover have "key \<notin> set (concat (map snd us))" "key \<notin> set (concat (map snd vs))" using k lex3_refl [of key] by (metis less_irrefl)+
  ultimately show ?thesis using 1 by blast
qed

lemma store_keys:
  assumes "store_inv B root db l t R fs"
  shows "map fst (tree_recs R t) = bt_keys t" "distinct (map fst (tree_recs R t))"
proof -
  show "map fst (tree_recs R t) = bt_keys t" using assms by (intro tree_recs_keys) (auto simp: store_inv_def Let_def)
  then show "distinct (map fst (tree_recs R t))" using assms by (simp add: store_inv_def Let_def)
qed

lemma split_keys: "bt_leaves t = us @ (n, ks) # vs \<Longrightarrow> bt_keys t = concat (map snd us) @ ks @ concat (map snd vs)"
  by (simp add: bt_keys_def)

lemma get_spec:
  assumes env: "store_env x B" and inv: "store_inv B root db l t R fs" and d: "\<not> dt_partial dbt" "dt_mode dbt = RETBUF"
  shows "\<exists>u e d'. dbp_get B root db key dbt (Some b) = Some (u, e, d') \<and> quiet (bt_env B) (fst db) u
    \<and> (case content R t key of
         None \<Rightarrow> e = DB_NOTFOUND
       | Some v \<Rightarrow> e = 0 \<and> dt_size d' = length v \<and> take (length v) (dt_data d') = v)"
proof -
  let ?E = "bt_env B" and ?s = "fst db"
  define fl where "fl = fst (search_flags False DB_SET)"
  have sf: "search_flags False DB_SET = (fl, False)" and fl: "\<not> sr_min fl" "\<not> sr_max fl" "sr_exact fl"
    by (simp_all add: fl_def search_flags_def SR_FIND_def SR_NONE_def)
  define c0 where "c0 = \<lparr>stream_start = 0, stream_curr = 0, stream_off = 0\<rparr>\<lparr>stream_start := PGNO_INVALID\<rparr>"
  have io: "no_io_errors ?E" "\<forall>k. put_io ?E k = 0" and f: "None = (if False then dup_cmp B else bt_cmp B)"
    using env by (simp_all add: store_env_def no_io_errors_def)
  have rep: "bt_rep None ?E ?s l t" "bt_sorted None t" "bt_pgno t = root"
    using inv bt_rep_default by (auto simp: store_inv_def Let_def bt_sorted_default)
  from search_finds [OF default_order.key_order_axioms rep(1,2) fl(1,2) f, of c0 key] obtain u e r where
    1: "bam_search B False ?s c0 root key fl = Some (u, c0, e, r)" "search_result None ?E fl key t ?s u e r"
    unfolding rep(3) by blast
  have run: "bamc_search B False ?s \<lparr>stream_start = 0, stream_curr = 0, stream_off = 0\<rparr> (snd db) root key DB_SET = Some (u, c0, e, r)"
    using sf 1(1) by (simp add: bamc_search_def Let_def c0_def)
  have su: "same_pages ?s u" "m_locks u = m_locks ?s"
    "pins u = (\<lambda>m. pins ?s m + (if \<exists>i ex. r = Some (m, i, ex) then 1 else 0))" "(e = 0) = (r \<noteq> None)"
    using 1(2) io(2) by (auto simp: search_result_def)
  show ?thesis
  proof (cases r)
    case None
    then have e: "e = DB_NOTFOUND" and loc: "located None key t (\<lambda>n ks. none_ok None fl (pdb ?E) (pg_of ?s n) key ks)"
      using 1(2) io(1) by (auto simp: search_result_def)
    then obtain n where "located None key t (\<lambda>m ks. m = n \<and> none_ok None fl (pdb ?E) (pg_of ?s n) key ks)"
      unfolding located_def by blast
    from store_place [OF inv this] obtain us ks vs where
      2: "bt_leaves t = us @ (n, ks) # vs" "none_ok None fl (pdb ?E) (pg_of ?s n) key ks" "ks = map fst (R n)"
      "leaf_recs ?E ?s n (R n)" "key \<notin> set (concat (map snd us))" "key \<notin> set (concat (map snd vs))" by blast
    have "key \<notin> set ks"
      using 2(2) leaf_not_deleted [OF 2(4)] 2(3) lex3_refl [of key] unfolding none_ok_def cmp_of_default by auto
    then have "key \<notin> set (map fst (tree_recs R t))" unfolding store_keys [OF inv] split_keys [OF 2(1)] using 2(5,6) by simp
    then have "content R t key = None" by (rule content_none)
    moreover have "dbp_get B root db key dbt (Some b) = Some (u, e, dbt)" using run None by (simp add: dbp_get_def)
    moreover have "quiet ?E ?s u" using su None by (simp add: quiet_def)
    ultimately show ?thesis using e by auto
  next
    case (Some a)
    obtain n i ex where a: "r = Some (n, i, ex)" using Some by (cases a) auto
    then have "located None key t (\<lambda>m ks. m = n \<and> (\<exists>j. i = 2 * j \<and> stop_ok None fl (pdb ?E) (pg_of ?s n) key ks j ex))"
      using 1(2) by (simp add: search_result_def)
    from store_place [OF inv this] obtain us ks vs j where
      2: "bt_leaves t = us @ (n, ks) # vs" "i = 2 * j" "stop_ok None fl (pdb ?E) (pg_of ?s n) key ks j ex" "ks = map fst (R n)"
      "leaf_recs ?E ?s n (R n)" by blast
    have j: "j < length (R n)" "fst (R n ! j) = key" using 2(3,4) fl(3) by (auto simp: stop_ok_def split: if_splits)
    obtain v ps where v: "R n ! j = (key, v, ps)" using j(2) by (cases "R n ! j") auto
    have ct: "content R t key = Some v" using content_at [OF store_keys(2) [OF inv], of n ks] 2(1) j(1) v by auto
    have pe: "pg_of u n = pg_of ?s n" using su(1) by (simp add: same_pages_def pg_of_def)
    have lr: "leaf_recs ?E u n (R n)"
    proof -
      have "pages u = pages ?s" using su(1) by (simp add: same_pages_def)
      then show ?thesis using 2(5) pe pairs_ok_cong [of "R n" u ?s] by (simp add: leaf_recs_def)
    qed
    from ret_data [OF io(1) lr j(1) v _ d, of c0 b] obtain w d' buf' c' where
      3: "db_ret B u c0 (pg_of u n) (2 * j + 1) dbt (Some b) = Some (w, 0, d', buf', c')" "quiet ?E u w"
      "dt_size d' = length v" "take (length v) (dt_data d') = v" by (auto simp: c0_def)
    obtain z e' where 4: "memp_fput ?E w n = (z, e')" by fastforce
    note P = memp_fput_spec [OF 4]
    have e': "e' = 0" using P(4) io(2) by simp
    have "dbp_get B root db key dbt (Some b) = Some (z, 0, d')"
      using run a su(4) 3(1) 2(2) 4 e' by (simp add: dbp_get_def cursor_close_def keep_def)
    moreover have "same_pages ?s z" using same_pages_trans [OF same_pages_trans [OF su(1)] P(1)] 3(2) by (simp add: quiet_def)
    moreover have "pins z = pins ?s" "m_locks z = m_locks ?s" using P(2,3) e' 3(2) su(2,3) a io(2) by (auto simp: quiet_def)
    ultimately show ?thesis using ct 3(3,4) by (auto simp: quiet_def)
  qed
qed

section \<open>Changing a record\<close>

lemma routed_default: "routed LEX key t n = routed None key t n"
  by (induction t rule: bt_leaves.induct) auto

lemma leaf_recs_ok:
  assumes "leaf_recs E s n rs" "sorted_wrt (\<lambda>x y. lex3 x y < 0) (map fst rs)"
  shows "leaf_ok LEX E s (pg_of s n) (map fst rs)"
proof -
  obtain items where 1: "holds (pdb E) (pg_of s n) items" "pairs_ok E s items rs" and ty: "ptype (pg_of s n) = P_LBTREE" "level (pg_of s n) = LEAFLEVEL"
    using assms(1) by (auto simp: leaf_recs_def)
  have so: "lex3 (map fst rs ! i) (map fst rs ! j) < 0" if "i < j" "j < length rs" for i j
    using assms(2) that unfolding sorted_wrt_iff_nth_less by simp
  have "key_for LEX E s (pg_of s n) (j * 2) (map fst rs ! j)" if j: "j < length rs" for j
  proof -
    note N = pairs_ok_nth [OF 1(2) j]
    have "2 * j < length items" using N(3) by simp
    from bk_item_read [OF 1(1) this N(1)] show ?thesis
      using ty j by (simp add: key_for_def key_at_def Let_def mult.commute P_LBTREE_def P_IBTREE_def)
  qed
  then have "page_keys LEX E s (pg_of s n) 2 (map fst rs)"
    using so ty by (auto simp: page_keys_def intro: less_imp_le)
  moreover have "NUM_ENT (pg_of s n) = 2 * length rs" using holdsD(3) [OF 1(1)] pairs_ok_length [OF 1(2)] by (simp add: NUM_ENT_def)
  moreover have "map fst rs ! j \<noteq> map fst rs ! Suc j" if "Suc j < length rs" for j
    using so [of j "Suc j"] that by auto
  ultimately show ?thesis using ty by (simp add: leaf_ok_def)
qed

lemma map_of_middle: "k \<notin> fst ` set xs \<Longrightarrow> map_of (xs @ (k, v) # ys) = (map_of (xs @ ys))(k \<mapsto> v)"
  by (induction xs) (auto simp: fun_upd_twist)

lemma tree_recs_split:
  assumes "bt_leaves t = us @ (n, ks) # vs" "distinct (map fst (bt_leaves t))"
  shows "tree_recs (R(n := rs)) (bt_upd n ks' t) = concat (map (\<lambda>(n, ks). R n) us) @ rs @ concat (map (\<lambda>(n, ks). R n) vs)"
    "tree_recs R t = concat (map (\<lambda>(n, ks). R n) us) @ R n @ concat (map (\<lambda>(n, ks). R n) vs)"
proof -
  have o: "n \<notin> fst ` set us" "n \<notin> fst ` set vs" using assms by auto
  have "map (\<lambda>(m, ks). (R(n := rs)) m) (map (\<lambda>(m, ks). (m, if m = n then ks' else ks)) xs) = map (\<lambda>(n, ks). R n) xs"
    if "n \<notin> fst ` set xs" for xs
    using that by (induction xs) auto
  from this [OF o(1)] this [OF o(2)]
  show "tree_recs (R(n := rs)) (bt_upd n ks' t) = concat (map (\<lambda>(n, ks). R n) us) @ rs @ concat (map (\<lambda>(n, ks). R n) vs)"
    unfolding tree_recs_def bt_upd_leaves assms(1) by (simp del: map_map)
  show "tree_recs R t = concat (map (\<lambda>(n, ks). R n) us) @ R n @ concat (map (\<lambda>(n, ks). R n) vs)"
    by (simp add: tree_recs_def assms(1))
qed

lemma leaf_recs_keep:
  assumes "leaf_recs E s m rs" "\<And>p. p \<in> insert m (set (chain_pages rs)) \<Longrightarrow> pages u p = pages s p"
  shows "leaf_recs E u m rs"
proof -
  have "pages u m = pages s m" using assms(2) by simp
  then show ?thesis using assms(1) pairs_ok_cong [of rs u s E] assms(2) by (simp add: leaf_recs_def pg_of_def)
qed

lemma store_upd:
  assumes inv: "store_inv B root (s, lp) l t R fs"
    and leaf: "bt_leaves t = us @ (n, ks) # vs" and Rn: "R n = a @ mid @ b"
    and mid: "mid = [] \<or> (\<exists>v0 ps0. mid = [(key, v0, ps0)])"
    and st: "stepped (bt_env B) fs s n fs' u (set (chain_pages mid)) (fst ` set qs)" and qs: "distinct (map fst qs)"
    and lr: "leaf_recs (bt_env B) u n (a @ (key, v, qs) # b)"
    and so: "sorted_wrt (\<lambda>x y. lex3 x y < 0) (map fst a @ key # map fst b)"
    and ro: "routed LEX key t n" and fresh: "key \<notin> set (concat (map snd us))" "key \<notin> set (concat (map snd vs))"
  shows "\<exists>t' R'. store_inv B root (u, PGNO_INVALID) l t' R' fs' \<and> content R' t' = (content R t)(key \<mapsto> v)"
proof -
  let ?E = "bt_env B" and ?rs = "a @ (key, v, qs) # b"
  let ?ks = "map fst ?rs"
  let ?t = "bt_upd n ?ks t" and ?R = "R(n := ?rs)"
  note I = inv [unfolded store_inv_def Let_def fst_conv snd_conv]
  have lv: "k = map fst (R m)" "leaf_recs ?E s m (R m)" if "(m, k) \<in> set (bt_leaves t)" for m k using I that by auto
  define A where "A = concat (map (\<lambda>(n, ks). R n) us)"
  define C where "C = concat (map (\<lambda>(n, ks). R n) vs)"
  have dl: "distinct (map fst (bt_leaves t))" using I bt_leaves_distinct by auto
  note T = tree_recs_split [OF leaf dl, of R, folded A_def C_def]
  have kks: "ks = map fst (a @ mid @ b)" using lv(1) [of n ks] leaf Rn by simp
  have AC: "map fst A = concat (map snd us)" "map fst C = concat (map snd vs)"
  proof -
    have "map fst (R m) = k" if "(m, k) \<in> set us \<union> set vs" for m k
      using lv(1) [of m k] leaf that by auto
    then have "map (\<lambda>(m, k). map fst (R m)) us = map snd us" "map (\<lambda>(m, k). map fst (R m)) vs = map snd vs"
      by (auto intro!: map_cong)
    then show "map fst A = concat (map snd us)" "map fst C = concat (map snd vs)"
      unfolding A_def C_def map_concat map_map by (simp_all add: comp_def case_prod_unfold del: map_eq_conv)
  qed
  have kab: "key \<notin> fst ` set a" "key \<notin> fst ` set b"
    using so lex3_refl [of key] by (auto simp: sorted_wrt_append)
  have kAC: "key \<notin> fst ` set A" "key \<notin> fst ` set C" using fresh AC by (metis set_map)+
  \<comment> \<open>the map\<close>
  have ct: "content ?R ?t = (content R t)(key \<mapsto> v)"
  proof -
    let ?g = "\<lambda>(k, v, ps). (k, v)"
    have kx: "key \<notin> fst ` set (map ?g (A @ a))" using kab kAC by (auto simp: image_iff case_prod_unfold)
    have "content ?R ?t = map_of (map ?g (A @ a) @ (key, v) # map ?g (b @ C))" by (simp add: content_def T(1))
    also have "\<dots> = (map_of (map ?g (A @ a) @ map ?g (b @ C)))(key \<mapsto> v)" by (rule map_of_middle [OF kx])
    also have "\<dots> = (content R t)(key \<mapsto> v)"
      using mid
    proof
      assume "\<exists>v0 ps0. mid = [(key, v0, ps0)]"
      then obtain v0 ps0 where "mid = [(key, v0, ps0)]" by blast
      then have "content R t = map_of (map ?g (A @ a) @ (key, v0) # map ?g (b @ C))" by (simp add: content_def T(2) Rn)
      then show ?thesis by (simp only: map_of_middle [OF kx] fun_upd_upd)
    qed (simp add: content_def T(2) Rn)
    finally show ?thesis .
  qed
  \<comment> \<open>the pages\<close>
  have cp: "chain_pages (tree_recs R t) = chain_pages A @ chain_pages a @ chain_pages mid @ chain_pages b @ chain_pages C"
    "chain_pages (tree_recs ?R ?t) = chain_pages A @ chain_pages a @ map fst qs @ chain_pages b @ chain_pages C"
    by (simp_all add: T Rn)
  have d: "distinct (bt_pages t @ chain_pages A @ chain_pages a @ chain_pages mid @ chain_pages b @ chain_pages C)"
    "set (bt_pages t @ chain_pages A @ chain_pages a @ chain_pages mid @ chain_pages b @ chain_pages C) \<subseteq> in_use fs s"
    using I unfolding cp by auto
  have keep: "set (bt_pages t @ chain_pages A @ chain_pages a @ chain_pages b @ chain_pages C) \<subseteq> in_use fs s - set (chain_pages mid)"
    using d by auto
  have iu: "in_use fs' u = in_use fs s - set (chain_pages mid) \<union> fst ` set qs" "fst ` set qs \<inter> (in_use fs s - set (chain_pages mid)) = {}"
    and ok: "pager_ok ?E fs' u" using st by (simp_all add: stepped_def)
  have nq: "set (bt_pages t @ chain_pages A @ chain_pages a @ chain_pages b @ chain_pages C) \<inter> fst ` set qs = {}" using keep iu(2) by blast
  have ps: "distinct (bt_pages ?t @ chain_pages (tree_recs ?R ?t))" "set (bt_pages ?t @ chain_pages (tree_recs ?R ?t)) \<subseteq> in_use fs' u"
    using d(1) nq qs keep unfolding cp iu(1) by auto
  have same: "pages u m = pages s m" if "m \<in> set (bt_pages t @ chain_pages A @ chain_pages a @ chain_pages b @ chain_pages C)" "m \<noteq> n" for m
    using stepped_keeps [OF st] that keep by blast
  have nt: "n \<in> set (bt_pages t)" using bt_leaf_page [of t] leaf by auto
  \<comment> \<open>the tree\<close>
  have "ptype (pg_of s n) = P_LBTREE" "pages u n \<noteq> None" using I leaf st by (auto simp: leaf_recs_def stepped_def)
  moreover have "leaf_ok LEX ?E u (pg_of u n) ?ks" using leaf_recs_ok [OF lr] so by simp
  ultimately have rep: "bt_rep LEX ?E u l ?t" using bt_rep_upd [of t n u s ?E ?ks l] same I by auto
  have sub: "set ?ks \<subseteq> insert key (set k)" if "(n, k) \<in> set (bt_leaves t)" for k
  proof -
    have "k = ks" using dl that leaf by (metis eq_key_imp_eq_value in_set_conv_decomp)
    then show ?thesis using kks by auto
  qed
  have sorted: "bt_sorted LEX ?t" using bt_sorted_upd [OF _ dl sub ro] I by blast
  have lrs: "k = map fst (?R m) \<and> leaf_recs ?E u m (?R m)" if "(m, k) \<in> set (bt_leaves ?t)" for m k
  proof (cases "m = n")
    case True
    then show ?thesis using that lr by (auto simp: bt_upd_leaves split: if_splits)
  next
    case False
    then have mk: "(m, k) \<in> set (bt_leaves t)" using that by (auto simp: bt_upd_leaves)
    then have mk2: "(m, k) \<in> set us \<union> set vs" using leaf False by auto
    have cm: "set (chain_pages (R m)) \<subseteq> set (chain_pages A) \<union> set (chain_pages C)"
      using mk2 by (force simp: A_def C_def chain_pages_def)
    have mt: "m \<in> set (bt_pages t)" using bt_leaf_page [of t] mk by force
    have nAC: "n \<notin> set (chain_pages A) \<union> set (chain_pages C)" using nt d(1) by auto
    have "pages u p = pages s p" if p: "p \<in> insert m (set (chain_pages (R m)))" for p
    proof (rule same)
      show "p \<in> set (bt_pages t @ chain_pages A @ chain_pages a @ chain_pages b @ chain_pages C)" using p cm mt by auto
      show "p \<noteq> n" using p cm nAC False by blast
    qed
    then show ?thesis using leaf_recs_keep [of ?E s m "R m" u] lv [OF mk] False by auto
  qed
  have chain: "leaf_chain u ?t"
  proof (rule leaf_chain_cong)
    show "leaf_chain s t" using I by blast
    show "map fst (bt_leaves ?t) = map fst (bt_leaves t)" by (simp add: bt_upd_leaves comp_def case_prod_unfold)
    fix m assume "m \<in> fst ` set (bt_leaves t)"
    then have "m \<in> set (bt_pages t)" using bt_leaf_page [of t] by blast
    then show "next_pgno (pg_of u m) = next_pgno (pg_of s m) \<and> prev_pgno (pg_of u m) = prev_pgno (pg_of s m)"
      using same [of m] st by (cases "m = n") (auto simp: stepped_def same_head_def pg_of_def)
  qed
  have "map fst (tree_recs ?R ?t) = bt_keys ?t" using lrs by (intro tree_recs_keys) blast
  moreover have "distinct (map fst (tree_recs ?R ?t))"
    using store_keys(2) [OF inv] kab kAC mid unfolding T Rn by auto
  ultimately have "distinct (bt_keys ?t)" by simp
  then have "store_inv B root (u, PGNO_INVALID) l ?t ?R fs'"
    unfolding store_inv_def Let_def fst_conv snd_conv using I ok rep sorted lrs ps chain by auto
  then show ?thesis using ct by blast
qed

lemma leaf_recs_same: "same_pages s u \<Longrightarrow> leaf_recs E u n rs = leaf_recs E s n rs"
  using pairs_ok_cong [of rs u s E] by (simp add: leaf_recs_def same_pages_def pg_of_def)

lemma store_inv_same:
  assumes "same_pages s u" "store_inv B root (s, lp) l t R fs"
  shows "store_inv B root (u, lp) l t R fs"
  using assms(2) leaf_chain_same [OF assms(1)] unfolding store_inv_def Let_def fst_conv snd_conv bt_rep_same [OF assms(1)]
    leaf_recs_same [OF assms(1)] same_pages_frame(2,3) [OF assms(1)] by blast

lemma strict_keys:
  assumes "store_inv B root (s, lp) l t R fs" "(n, ks) \<in> set (bt_leaves t)"
  shows "sorted_wrt (\<lambda>x y. lex3 x y < 0) ks"
  unfolding sorted_wrt_iff_nth_less
proof (intro allI impI)
  fix i j assume ij: "i < j" "j < length ks"
  note I = assms(1) [unfolded store_inv_def Let_def fst_conv snd_conv]
  have lo: "leaf_ok LEX (bt_env B) s (pg_of s n) ks" using bt_rep_leaf [OF _ assms(2)] I by blast
  then have "lex3 (ks ! i) (ks ! j) \<le> 0"
    using ij by (auto simp: leaf_ok_def page_keys_def unread_def P_IBTREE_def P_LBTREE_def)
  moreover have "ks ! i \<noteq> ks ! j"
  proof -
    obtain us vs where "bt_leaves t = us @ (n, ks) # vs" using split_list [OF assms(2)] by blast
  then have ks: "bt_keys t = concat (map snd us) @ ks @ concat (map snd vs)" by (rule split_keys)
  have "distinct (bt_keys t)" using I by blast
  then have "distinct ks" unfolding ks by simp
  then show ?thesis using ij nth_eq_iff_index_eq by (metis less_imp_neq order_less_trans)
  qed
  ultimately show "lex3 (ks ! i) (ks ! j) < 0" by (simp add: order_less_le)
qed

lemma stop_split:
  assumes "stop_ok None fl d h key ks j False" "ptype h = P_LBTREE" "sorted_wrt (\<lambda>x y. lex3 x y < 0) ks"
  shows "j \<le> length ks" "sorted_wrt (\<lambda>x y. lex3 x y < 0) (take j ks @ key # drop j ks)"
proof -
  have s: "splits_at None h key ks j j" "j \<le> length ks" using assms(1) by (simp_all add: stop_ok_def)
  have lo: "lex3 k key < 0" if "k \<in> set (take j ks)" for k
  proof -
    from that [unfolded in_set_conv_nth] obtain i where "i < length (take j ks)" "take j ks ! i = k" by blast
    then show ?thesis using s assms(2) lex3_swap [of key k] by (auto simp: splits_at_def unread_def P_IBTREE_def P_LBTREE_def)
  qed
  have hi: "lex3 key k < 0" if "k \<in> set (drop j ks)" for k
  proof -
    from that [unfolded in_set_conv_nth] obtain i where "i < length (drop j ks)" "drop j ks ! i = k" by blast
    then show ?thesis using s by (auto simp: splits_at_def)
  qed
  have c: "lex3 k k' < 0" if "k \<in> set (take j ks)" "k' \<in> set (drop j ks)" for k k'
    using lex3_less_trans [OF lo [OF that(1)]] hi [OF that(2)] by simp
  have "sorted_wrt (\<lambda>x y. lex3 x y < 0) (take j ks @ drop j ks)" using assms(3) by simp
  then show "sorted_wrt (\<lambda>x y. lex3 x y < 0) (take j ks @ key # drop j ks)"
    using lo hi c by (auto simp: sorted_wrt_append simp del: append_take_drop_id)
  show "j \<le> length ks" by (rule s(2))
qed

section \<open>Storing a record\<close>

text \<open>Some leaf has no room for the record.\<close>

definition crowded :: "put_cfg \<Rightarrow> penv \<Rightarrow> pager \<Rightarrow> bt \<Rightarrow> byte list \<Rightarrow> byte list \<Rightarrow> bool" where
  "crowded x E s t key v \<longleftrightarrow>
     (\<exists>n ks items. (n, ks) \<in> set (bt_leaves t) \<and> holds (pdb E) (pg_of s n) items
        \<and> pgsize (pdb E) < page_used (pdb E) items + item_psize x (length key) + item_psize x (length v))"

lemma put_spec:
  assumes env: "store_env x B" and inv: "store_inv B root db l t R fs" and key: "length key \<le> ovflsize x"
    and len: "ovflsize x < length v \<Longrightarrow> unat (m_last (fst db)) + length v < 2 ^ 32"
  shows "\<exists>u e. dbp_put x B root db key v DB_OVERWRITE_DUP = Some ((u, PGNO_INVALID), e) \<and> pins u = pins (fst db) \<and> m_locks u = m_locks (fst db)
    \<and> (if e = 0 then \<exists>t' R' fs'. store_inv B root (u, PGNO_INVALID) l t' R' fs' \<and> content R' t' = (content R t)(key \<mapsto> v)
       else e = DB_NEEDSPLIT \<and> crowded x (bt_env B) (fst db) t key v \<and> store_inv B root (u, PGNO_INVALID) l t R fs)"
proof -
  let ?E = "bt_env B"
  obtain s where db: "db = (s, PGNO_INVALID)" using inv by (cases db) (simp add: store_inv_def Let_def)
  note inv = inv [unfolded db]
  note I = inv [unfolded store_inv_def Let_def fst_conv snd_conv]
  define op where "op = (if DB_OVERWRITE_DUP = DB_KEYFIRST \<or> dup_cmp B \<noteq> None then DB_KEYFIRST else DB_KEYLAST)"
  define fl where "fl = fst (search_flags False op)"
  have sf: "search_flags False op = (fl, True)" and fl: "\<not> sr_delno fl" "\<not> sr_exact fl" "\<not> sr_min fl" "\<not> sr_max fl"
    by (simp_all add: fl_def op_def search_flags_def SR_KEYFIRST_def SR_KEYLAST_def SR_NONE_def)
  define c where "c = \<lparr>stream_start = 0, stream_curr = 0, stream_off = 0\<rparr>"
  define c0 where "c0 = c\<lparr>stream_start := PGNO_INVALID\<rparr>"
  have io: "no_io_errors ?E" "\<forall>k. put_io ?E k = 0" and cmp: "bt_cmp B = None" and eo: "env_ok ?E" and x: "ovflsize x + 6 < 65536" "in_txn x"
    using env by (simp_all add: store_env_def no_io_errors_def)
  have rep: "bt_rep (bt_cmp B) ?E s l t" "bt_sorted (bt_cmp B) t" "bt_pgno t = root"
    using I bt_rep_default by (auto simp: bt_sorted_default cmp)
  have ko: "key_order (bt_cmp B)" using default_order.key_order_axioms by (simp add: cmp)
  from full_search [OF rep(1,2) ko io(1) fl, of c0 key] obtain s1 n i ex where
    1: "bam_search B False s c0 root key fl = Some (s1, c0, 0, Some (n, i, ex))" "same_pages s s1" "m_locks s1 = m_locks s"
      "pins s1 = (pins s)(n := pins s n + 1)"
    and loc: "located None key t (\<lambda>m ks. m = n \<and> (\<exists>j. i = 2 * j \<and> stop_ok None fl (pdb ?E) (pg_of s n) key ks j ex))"
    unfolding rep(3) cmp by blast
  have srch: "bamc_search B False s c PGNO_INVALID root key op = Some (s1, c0, 0, Some (n, i, ex))"
    using sf 1(1) by (simp add: bamc_search_def Let_def c0_def)
  have inv1: "store_inv B root (s1, PGNO_INVALID) l t R fs" using store_inv_same [OF 1(2) inv] .
  from store_place [OF inv loc] obtain us ks vs j where
    2: "bt_leaves t = us @ (n, ks) # vs" "i = 2 * j" "stop_ok None fl (pdb ?E) (pg_of s n) key ks j ex" "ks = map fst (R n)"
    "leaf_recs ?E s n (R n)" "routed None key t n" "key \<notin> set (concat (map snd us))" "key \<notin> set (concat (map snd vs))"
    unfolding fst_conv by blast
  have nl: "(n, ks) \<in> set (bt_leaves t)" using 2(1) by simp
  note so = strict_keys [OF inv nl]
  have lr: "leaf_recs ?E s1 n (R n)" using 2(5) leaf_recs_same [OF 1(2)] by blast
  then obtain items where it: "holds (pdb ?E) (pg_of s1 n) items" "pairs_ok ?E s1 items (R n)" "ptype (pg_of s1 n) = P_LBTREE"
    "level (pg_of s1 n) = LEAFLEVEL" by (auto simp: leaf_recs_def)
  note I1 = inv1 [unfolded store_inv_def Let_def fst_conv snd_conv]
  have ps: "distinct (bt_pages t @ chain_pages (tree_recs R t))" "set (bt_pages t @ chain_pages (tree_recs R t)) \<subseteq> in_use fs s1"
    "pager_ok ?E fs s1" using I1 by blast+
  have np: "n \<in> set (bt_pages t)" using bt_leaf_page [of t] nl by force
  have ok: "pager_ok ?E fs s1" "n \<in> in_use fs s1" using ps np by auto
  have "tree_recs R t = concat (map (\<lambda>(n, ks). R n) us) @ R n @ concat (map (\<lambda>(n, ks). R n) vs)"
    by (simp add: tree_recs_def 2(1))
  then have own: "distinct (chain_pages (R n))" "set (chain_pages (R n)) \<subseteq> in_use fs s1 - {n}"
    using ps np by auto
  have m1: "m_last s1 = m_last s" using 1(2) by (simp add: same_pages_def)
  have ln: "ovflsize x < length v \<Longrightarrow> unat (m_last s1) + length v < 2 ^ 32" using len m1 by (simp add: db)
  have nlim: "\<not> limited x ?E s1 h a b d op" for h a b d op using x(2) by (simp add: limited_def)
  have pe: "pg_of s1 n = pg_of s n" using 1(2) by (simp add: same_pages_def pg_of_def)
  have cr: "crowded x ?E s t key v" if "pgsize (pdb ?E) < page_used (pdb ?E) items + item_psize x (length key) + item_psize x (length v)"
    using that nl it(1) unfolding crowded_def pe by blast
  \<comment> \<open>what \<open>__bam_iitem\<close> does\<close>
  have step: "\<exists>u c' e. bam_iitem x ?E s1 c0 n i key v (if ex then II_CURRENT else II_KEYFIRST) = Some (u, c', e, True)
      \<and> pins u = pins s1 \<and> m_locks u = m_locks s1
      \<and> (if e = 0 then \<exists>t' R' fs'. store_inv B root (u, PGNO_INVALID) l t' R' fs' \<and> content R' t' = (content R t)(key \<mapsto> v)
         else e = DB_NEEDSPLIT \<and> crowded x ?E s t key v \<and> store_inv B root (u, PGNO_INVALID) l t R fs)"
  proof (cases ex)
    case True
    then have j: "j < length (R n)" "fst (R n ! j) = key" using 2(3,4) by (auto simp: stop_ok_def)
    obtain v0 ps0 where v0: "R n ! j = (key, v0, ps0)" using j(2) by (cases "R n ! j") auto
    have Rn: "R n = take j (R n) @ [(key, v0, ps0)] @ drop (Suc j) (R n)" using id_take_nth_drop [OF j(1)] v0 by simp
    define full where "full = (pgsize (pdb ?E) + length (items ! (2 * j + 1)) + 2 < page_used (pdb ?E) items + item_psize x (length v))"
    from iitem_replace [OF io(1) eo ok it own j(1) v0 x(1) ln, of c0 key] obtain u c' e where
      3: "bam_iitem x ?E s1 c0 n (2 * j) key v II_CURRENT = Some (u, c', e, True)"
      "iitem_post x ?E fs s1 n full False ps0 (\<lambda>ps. (R n)[j := (key, v, ps)]) u e" using nlim unfolding full_def by auto
    have up: "(R n)[j := (key, v, ps)] = take j (R n) @ (key, v, ps) # drop (Suc j) (R n)" for ps
      using j(1) by (rule upd_conv_take_nth_drop)
    have srt: "sorted_wrt (\<lambda>x y. lex3 x y < 0) (map fst (take j (R n)) @ key # map fst (drop (Suc j) (R n)))"
      using so unfolding 2(4) by (subst (asm) Rn) simp
    show ?thesis
    proof (cases full)
      case f: True
      then have "e = DB_NEEDSPLIT" "quiet ?E s1 u" using 3(2) by (simp_all add: iitem_post_def)
      moreover have "crowded x ?E s t key v" using f cr unfolding full_def by simp
      ultimately show ?thesis using True 3(1) 2(2) store_inv_same [OF _ inv1] io(2) by (auto simp: quiet_def DB_NEEDSPLIT_def)
    next
      case False
      then obtain fs' qs where st: "e = 0" "stepped ?E fs s1 n fs' u (fst ` set ps0) (fst ` set qs)" "distinct (map fst qs)"
        "leaf_recs ?E u n (take j (R n) @ (key, v, qs) # drop (Suc j) (R n))" using 3(2) by (auto simp: iitem_post_def up)
      have "stepped ?E fs s1 n fs' u (set (chain_pages [(key, v0, ps0)])) (fst ` set qs)" using st(2) by simp
      from store_upd [OF inv1 2(1) Rn _ this st(3,4) srt _ 2(7,8)] 2(6) show ?thesis
        using True 3(1) 2(2) st(1,2) by (auto simp: routed_default stepped_def)
    qed
  next
    case False
    have ty: "ptype (pg_of s n) = P_LBTREE" using 2(5) by (simp add: leaf_recs_def)
    note S = stop_split [OF 2(3) [unfolded eq_False [THEN iffD2, OF False]] ty so]
    have j: "j \<le> length (R n)" using S(1) 2(4) by simp
    define full where "full = (pgsize (pdb ?E) < page_used (pdb ?E) items + item_psize x (length key) + item_psize x (length v))"
    from iitem_insert [OF io(1) eo ok it own(2) j x(1) key ln, of c0] obtain u c' e where
      3: "bam_iitem x ?E s1 c0 n (2 * j) key v II_KEYFIRST = Some (u, c', e, True)"
      "iitem_post x ?E fs s1 n full False [] (\<lambda>ps. take j (R n) @ (key, v, ps) # drop j (R n)) u e" using nlim unfolding full_def by auto
    have srt: "sorted_wrt (\<lambda>x y. lex3 x y < 0) (map fst (take j (R n)) @ key # map fst (drop j (R n)))"
      using S(2) by (simp add: 2(4) take_map drop_map)
    show ?thesis
    proof (cases full)
      case f: True
      then have "e = DB_NEEDSPLIT" "quiet ?E s1 u" using 3(2) by (simp_all add: iitem_post_def)
      moreover have "crowded x ?E s t key v" using f cr unfolding full_def by simp
      ultimately show ?thesis using False 3(1) 2(2) store_inv_same [OF _ inv1] io(2) by (auto simp: quiet_def DB_NEEDSPLIT_def)
    next
      case nf: False
      then obtain fs' qs where st: "e = 0" "stepped ?E fs s1 n fs' u {} (fst ` set qs)" "distinct (map fst qs)"
        "leaf_recs ?E u n (take j (R n) @ (key, v, qs) # drop j (R n))" using 3(2) by (auto simp: iitem_post_def)
      have Rn: "R n = take j (R n) @ [] @ drop j (R n)" by simp
      have "stepped ?E fs s1 n fs' u (set (chain_pages [])) (fst ` set qs)" using st(2) by simp
      from store_upd [OF inv1 2(1) Rn _ this st(3,4) srt _ 2(7,8)] 2(6) show ?thesis
        using False 3(1) 2(2) st(1,2) by (auto simp: routed_default stepped_def)
    qed
  qed
  then obtain u c' e where 3: "bam_iitem x ?E s1 c0 n i key v (if ex then II_CURRENT else II_KEYFIRST) = Some (u, c', e, True)"
    "pins u = pins s1" "m_locks u = m_locks s1"
    "if e = 0 then \<exists>t' R' fs'. store_inv B root (u, PGNO_INVALID) l t' R' fs' \<and> content R' t' = (content R t)(key \<mapsto> v)
      else e = DB_NEEDSPLIT \<and> crowded x ?E s t key v \<and> store_inv B root (u, PGNO_INVALID) l t R fs" by blast
  have put: "bamc_put x B s c PGNO_INVALID root key v DB_OVERWRITE_DUP = Some (u, c', e, Some n, PGNO_INVALID)"
    using srch 3(1) by (simp add: bamc_put_def Let_def op_def)
  obtain z e' where 4: "memp_fput ?E u n = (z, e')" by fastforce
  note P = memp_fput_spec [OF 4]
  have e': "e' = 0" using P(4) io(2) by simp
  have run: "dbp_put x B root db key v DB_OVERWRITE_DUP = Some ((z, PGNO_INVALID), e)"
    using put 4 e' by (simp add: dbp_put_def db c_def [symmetric] cursor_close_def keep_def)
  have "pins z = pins s" "m_locks z = m_locks s" using P(2,3) e' 3(2,3) 1(3,4) by auto
  moreover have "if e = 0 then \<exists>t' R' fs'. store_inv B root (z, PGNO_INVALID) l t' R' fs' \<and> content R' t' = (content R t)(key \<mapsto> v)
      else e = DB_NEEDSPLIT \<and> crowded x ?E s t key v \<and> store_inv B root (z, PGNO_INVALID) l t R fs"
    using 3(4) store_inv_same [OF P(1)] by (cases "e = 0") (simp_all, blast+)
  ultimately show ?thesis using run by (auto simp: db)
qed

section \<open>The contract of a key/value store\<close>

text \<open>
  The calls of the file system: a get with a \<open>DBT\<close> without flags, whose data comes back in the memory of the
  handle, and a put that overwrites.
\<close>

definition ret_dbt :: dbt where
  "ret_dbt = \<lparr>dt_data = [], dt_size = 0, dt_ulen = 0, dt_dlen = 0, dt_doff = 0, dt_partial = False, dt_mode = RETBUF\<rparr>"

definition st_get :: "btree_h \<Rightarrow> u32 \<Rightarrow> pager \<times> u32 \<Rightarrow> byte list \<Rightarrow> int + byte list" where
  "st_get B root db key =
     (case dbp_get B root db key ret_dbt (Some []) of
        None \<Rightarrow> Inl DB_RUNRECOVERY
      | Some (s, e, d) \<Rightarrow> if e = 0 then Inr (take (dt_size d) (dt_data d)) else Inl e)"

definition st_put :: "put_cfg \<Rightarrow> btree_h \<Rightarrow> u32 \<Rightarrow> pager \<times> u32 \<Rightarrow> byte list \<Rightarrow> byte list \<Rightarrow> (pager \<times> u32) \<times> int" where
  "st_put x B root db key v =
     (case dbp_put x B root db key v DB_OVERWRITE_DUP of None \<Rightarrow> (db, DB_RUNRECOVERY) | Some r \<Rightarrow> r)"

definition st_ok :: "put_cfg \<Rightarrow> btree_h \<Rightarrow> u32 \<Rightarrow> pager \<times> u32 \<Rightarrow> bool" where
  "st_ok x B root db \<longleftrightarrow> store_env x B \<and> (\<exists>l t R fs. store_inv B root db l t R fs)"

definition st_fits :: "put_cfg \<Rightarrow> pager \<times> u32 \<Rightarrow> byte list \<Rightarrow> byte list \<Rightarrow> bool" where
  "st_fits x db key v \<longleftrightarrow>
     length key \<le> ovflsize x \<and> (ovflsize x < length v \<longrightarrow> unat (m_last (fst db)) + length v < 2 ^ 32)"

lemma st_get_content:
  assumes "store_env x B" "store_inv B root db l t R fs"
  shows "st_get B root db key = (case content R t key of None \<Rightarrow> Inl DB_NOTFOUND | Some v \<Rightarrow> Inr v)"
proof -
  have "\<not> dt_partial ret_dbt" "dt_mode ret_dbt = RETBUF" by (simp_all add: ret_dbt_def)
  from get_spec [OF assms this, of key "[]"] obtain u e d' where
    1: "dbp_get B root db key ret_dbt (Some []) = Some (u, e, d')"
    "case content R t key of None \<Rightarrow> e = DB_NOTFOUND | Some v \<Rightarrow> e = 0 \<and> dt_size d' = length v \<and> take (length v) (dt_data d') = v"
    by blast
  have "DB_NOTFOUND \<noteq> 0" by (simp add: DB_NOTFOUND_def)
  then show ?thesis using 1 by (auto simp: st_get_def split: option.splits)
qed

lemma st_put_cases:
  assumes "st_ok x B root db" "st_fits x db key v" "st_put x B root db key v = (db', e)"
  obtains l t R fs where "store_inv B root db l t R fs" "e \<noteq> 0" "crowded x (bt_env B) (fst db) t key v" "store_inv B root db' l t R fs"
  | l t R fs t' R' fs' where "store_inv B root db l t R fs" "e = 0" "store_inv B root db' l t' R' fs'"
      "content R' t' = (content R t)(key \<mapsto> v)"
proof -
  obtain l t R fs where inv: "store_inv B root db l t R fs" and env: "store_env x B" using assms(1) by (auto simp: st_ok_def)
  have fits: "length key \<le> ovflsize x" "ovflsize x < length v \<Longrightarrow> unat (m_last (fst db)) + length v < 2 ^ 32"
    using assms(2) by (simp_all add: st_fits_def)
  from put_spec [OF env inv fits] obtain u where
    1: "dbp_put x B root db key v DB_OVERWRITE_DUP = Some ((u, PGNO_INVALID), e)" "db' = (u, PGNO_INVALID)"
    "if e = 0 then \<exists>t' R' fs'. store_inv B root (u, PGNO_INVALID) l t' R' fs' \<and> content R' t' = (content R t)(key \<mapsto> v)
       else e = DB_NEEDSPLIT \<and> crowded x (bt_env B) (fst db) t key v \<and> store_inv B root (u, PGNO_INVALID) l t R fs"
    using assms(3) by (auto simp: st_put_def)
  show thesis
  proof (cases "e = 0")
    case True
    then show ?thesis using that(2) inv 1 by auto
  next
    case False
    then show ?thesis using that(1) inv 1 by auto
  qed
qed

interpretation btree: kv_store "st_ok x B root" "st_fits x" "st_get B root" "st_put x B root"
proof unfold_locales
  fix d d' :: "pager \<times> u32" and k v k' :: "byte list" and e :: int
  assume ok: "st_ok x B root d" and fits: "st_fits x d k v"
  have env: "store_env x B" using ok by (simp add: st_ok_def)
  note G = st_get_content [OF env]
  {
    assume p: "st_put x B root d k v = (d', 0)"
    obtain l t R fs t' R' fs' where
      "store_inv B root d l t R fs" "store_inv B root d' l t' R' fs'" "content R' t' = (content R t)(k \<mapsto> v)"
      by (rule st_put_cases [OF ok fits p]) auto
    then show "st_get B root d' k = Inr v" "k' \<noteq> k \<Longrightarrow> st_get B root d' k' = st_get B root d k'" by (simp_all add: G)
  }
  {
    assume p: "st_put x B root d k v = (d', e)"
    show "st_ok x B root d'" by (rule st_put_cases [OF ok fits p]) (auto simp: st_ok_def env)
    assume e: "e \<noteq> 0"
    obtain l t R fs where "store_inv B root d l t R fs" "store_inv B root d' l t R fs"
      by (rule st_put_cases [OF ok fits p]) (use e in auto)
    then show "st_get B root d' k' = st_get B root d k'" by (simp add: G)
  }
qed

section \<open>An empty tree\<close>

text \<open>A file of one page of 512 bytes, an empty leaf.\<close>

definition wide_db :: dbh where "wide_db = \<lparr>pgsize = 512, prot = Plain\<rparr>"

definition wide_handle :: btree_h where
  "wide_handle = \<lparr>bt_env = calm\<lparr>pdb := wide_db, junk := \<lambda>_. replicate 512 0\<rparr>, bt_cmp = None, dup_cmp = None, blob = (\<lambda>_ _. Inl 2)\<rparr>"

definition empty_leaf :: page where
  "empty_leaf = P_INIT \<lparr>lsn = (0, 0), pgno = 0, prev_pgno = 0, next_pgno = 0, entries = 0, hf_offset = 0, level = 0,
     ptype = 0, mem = replicate 512 0\<rparr> 512 1 PGNO_INVALID PGNO_INVALID LEAFLEVEL P_LBTREE"

definition empty_file :: "pager \<times> u32" where
  "empty_file = (fresh_file\<lparr>pages := [1 \<mapsto> empty_leaf], m_last := 1\<rparr>, PGNO_INVALID)"

definition wide_cfg :: put_cfg where
  "wide_cfg = \<lparr>ovflsize = 100, in_txn = True, maxpgno = 0, put_blob = (\<lambda>s _ _ _. (s, 0))\<rparr>"

lemma wide_env: "store_env wide_cfg wide_handle"
  by (simp add: store_env_def wide_cfg_def wide_handle_def env_ok_def no_io_errors_def calm_def wide_db_def P_OVERHEAD_def)

lemma empty_leaf_holds: "holds wide_db empty_leaf []"
  unfolding empty_leaf_def using holds_init [of _ wide_db] by (simp add: wide_db_def P_OVERHEAD_def)

lemma empty_inv: "store_inv wide_handle 1 empty_file 1 (Lf 1 []) (\<lambda>_. []) []"
proof -
  have d: "pdb (bt_env wide_handle) = wide_db" by (simp add: wide_handle_def)
  have h: "ptype empty_leaf = P_LBTREE" "level empty_leaf = LEAFLEVEL" "NUM_ENT empty_leaf = 0" "pgno empty_leaf = 1"
    "length (mem empty_leaf) = 512" "next_pgno empty_leaf = 0" "prev_pgno empty_leaf = 0"
    by (simp_all add: empty_leaf_def P_INIT_def NUM_ENT_def PGNO_INVALID_def)
  have p: "pages (fst empty_file) = [1 \<mapsto> empty_leaf]" "pg_of (fst empty_file) 1 = empty_leaf" "m_last (fst empty_file) = 1"
    "m_free (fst empty_file) = 0" "snd empty_file = PGNO_INVALID"
    by (simp_all add: empty_file_def fresh_file_def pg_of_def)
  have "0 < n \<and> n \<le> (1 :: u32) \<longleftrightarrow> n = 1" for n 
    by (auto simp: word_le_nat_alt word_less_nat_alt word_unat_eq_iff)
  then have "pager_ok (bt_env wide_handle) [] (fst empty_file)" using p h d by (auto simp: pager_ok_def PGNO_INVALID_def wide_db_def)
  moreover have "leaf_recs (bt_env wide_handle) (fst empty_file) 1 []" using p h empty_leaf_holds d by (auto simp: leaf_recs_def)
  moreover have "bt_rep LEX (bt_env wide_handle) (fst empty_file) 1 (Lf 1 [])"
    using p h by (simp add: leaf_ok_def page_keys_def LEAFLEVEL_def)
  moreover have "leaf_chain (fst empty_file) (Lf 1 [])" using p h by (simp add: leaf_chain_def PGNO_INVALID_def)
  ultimately show ?thesis using p by (simp add: store_inv_def Let_def bt_keys_def tree_recs_def in_use_def)
qed

lemma empty_ok: "st_ok wide_cfg wide_handle 1 empty_file"
  using wide_env empty_inv by (auto simp: st_ok_def)


section \<open>Properties\<close>

text \<open>C2: \<open>__db_get\<close> with \<open>DB_SET\<close> on a btree returns, gives the data of the record of the key, from the leaf or
  from a chain of overflow pages, or \<open>DB_NOTFOUND\<close> when no record has the key; it changes no page and gives every
  page and lock back.\<close>

theorem get_reads_record:
  assumes "store_env x B" "store_inv B root db l t R fs" "\<not> dt_partial dbt" "dt_mode dbt = RETBUF"
  shows "\<exists>u e d'. dbp_get B root db key dbt (Some b) = Some (u, e, d') \<and> quiet (bt_env B) (fst db) u
    \<and> (case content R t key of
         None \<Rightarrow> e = DB_NOTFOUND
       | Some v \<Rightarrow> e = 0 \<and> dt_size d' = length v \<and> take (length v) (dt_data d') = v)"
  by (rule get_spec [OF assms])

theorem get_reads_record_witness:
  "\<exists>u d'. dbp_get wide_handle 1 empty_file [7] ret_dbt (Some []) = Some (u, DB_NOTFOUND, d')"
proof -
  have d: "\<not> dt_partial ret_dbt" "dt_mode ret_dbt = RETBUF" by (simp_all add: ret_dbt_def)
  have "content (\<lambda>_. []) (Lf 1 []) [7] = None" by (simp add: content_def tree_recs_def)
  then show ?thesis using get_reads_record [OF wide_env empty_inv d, of "[7]" "[]"] by auto
qed



end
