(* ===== verification/Gbfs_On_Btree.thy ===== *)
theory Gbfs_On_Btree
  imports Gbfs_Demo Bt_Store
begin



section \<open>A small file system on an empty btree\<close>


definition btree_state :: "(pager \<times> u32) gstate" where
  "btree_state = \<lparr>inodes = inodes demo_state, pcache = pcache demo_state, kdb = empty_file, next_ino = 20,
     sbi = sbi demo_state, sb_blocksize = 4096\<rparr>"

lemma btree_state_sel [simp]:
  "inodes btree_state = inodes demo_state" "kdb btree_state = empty_file" "page_of btree_state h n = page_of demo_state h n"
  by (simp_all add: btree_state_def page_of_def)



section \<open>Properties\<close>



end
