(* ===== verification/Bt_Split.thy ===== *)
theory Bt_Split
  imports Bt_Store
begin

text \<open>
  How the items of a full btree page are distributed over two new pages, \<open>src/db/src/btree/bt_split.c\<close>:
  \<open>__bam_psplit\<close>, which looks for the split point, and \<open>__bam_copy\<close>, which copies the items.  The lemmas: the split
  point lies inside the page and not within a set of duplicates, when the duplicates end on the page; each of the two
  pages holds its part of the items.
\<close>

section \<open>The code\<close>

subsection \<open>The split point\<close>

definition adjust_of :: "page \<Rightarrow> nat" where
  "adjust_of h = (if ptype h = P_LBTREE then 2 else 1)"

text \<open>An \<open>int\<close> that is stored in a \<open>db_indx_t\<close>.\<close>

definition indx16 :: "int \<Rightarrow> nat" where "indx16 i = nat (i mod 65536)"

text \<open>The bytes of an item of an internal page and of a leaf.\<close>

definition bi_bytes :: "dbh \<Rightarrow> page \<Rightarrow> nat \<Rightarrow> nat" where
  "bi_bytes d h i =
     (let m = mem h; p = inp d m i in
      if B_TYPE (bk_type m p) = B_KEYDATA then BINTERNAL_SIZE (bk_len m p) else BINTERNAL_SIZE BOVERFLOW_SIZE)"

definition bk_bytes :: "dbh \<Rightarrow> page \<Rightarrow> nat \<Rightarrow> nat" where
  "bk_bytes d h i =
     (let m = mem h; p = inp d m i; t = B_TYPE (bk_type m p) in
      if t = B_KEYDATA then BKEYDATA_SIZE (bk_len m p) else if t = B_BLOB then BBLOB_SIZE else BOVERFLOW_SIZE)"

text \<open>The loop that looks for half of the data; on a leaf it takes a key and its data in one turn.\<close>

function half_loop :: "dbh \<Rightarrow> page \<Rightarrow> nat \<Rightarrow> nat \<Rightarrow> nat \<Rightarrow> nat \<Rightarrow> nat option" where
  "half_loop d h last_off half nbytes off =
     (if off < last_off \<and> nbytes < half then
        (if ptype h = P_IBTREE then half_loop d h last_off half ((nbytes + bi_bytes d h off) mod 65536) (off + 1)
         else if ptype h = P_LBTREE then
           half_loop d h last_off half ((nbytes + bk_bytes d h off + bk_bytes d h (off + 1)) mod 65536) (off + 2)
         else if ptype h = P_LDUP \<or> ptype h = P_LRECNO then
           half_loop d h last_off half ((nbytes + bk_bytes d h off) mod 65536) (off + 1)
         else if ptype h = P_IRECNO then half_loop d h last_off half ((nbytes + RINTERNAL_SIZE) mod 65536) (off + 1)
         else None)
      else Some off)"
  by pat_completeness auto
termination by (relation "measure (\<lambda>(d, h, last_off, half, nbytes, off). last_off - off)") auto

declare half_loop.simps [simp del]

text \<open>The first choice: one item apart when the page grows at an end of its level, else half of the data.\<close>

definition split_start :: "dbh \<Rightarrow> page \<Rightarrow> nat \<Rightarrow> nat option" where
  "split_start d h indx =
     (let n = int (NUM_ENT h); adjust = adjust_of h;
          off = (if next_pgno h = PGNO_INVALID \<and> int indx \<ge> n - int adjust then indx16 (n - int adjust)
                 else if prev_pgno h = PGNO_INVALID \<and> indx = 0 then adjust else 0);
          half = unat (word_of_nat (pgsize d) - ucast (hf_offset h) :: u32) div 2 mod 65536
      in if off \<noteq> 0 then Some off else half_loop d h (indx16 (n - int adjust)) half 0 0)"

text \<open>
  A key close by that is not an overflow key.  A \<open>BINTERNAL\<close> has its type where a \<open>BKEYDATA\<close> has it, so that
  the two tests of the code are one.
\<close>

definition plain_item :: "dbh \<Rightarrow> page \<Rightarrow> nat \<Rightarrow> bool" where
  "plain_item d h i \<longleftrightarrow> B_TYPE (bk_type (mem h) (inp d (mem h) i)) = B_KEYDATA"

function small_key :: "dbh \<Rightarrow> page \<Rightarrow> nat \<Rightarrow> nat \<Rightarrow> nat" where
  "small_key d h splitp cnt =
     (if cnt > 3 then splitp
      else (let up = (splitp + cnt * adjust_of h) mod 65536; down = splitp - cnt * adjust_of h in
        if up < NUM_ENT h \<and> plain_item d h up then up
        else if splitp \<le> cnt * adjust_of h then small_key d h splitp (cnt + 1)
        else if plain_item d h down then down
        else small_key d h splitp (cnt + 1)))"
  by pat_completeness auto
termination by (relation "measure (\<lambda>(d, h, splitp, cnt). 4 - cnt)") auto

declare small_key.simps [simp del]

text \<open>
  The end of the set of duplicates that the split point is in.  The loop has no bound: it ends when an index
  of the array differs, and \<open>cnt * adjust\<close> is cut to 16 bits.
\<close>

partial_function (option) dup_point :: "dbh \<Rightarrow> page \<Rightarrow> nat \<Rightarrow> nat \<Rightarrow> nat option" where
  "dup_point d h splitp cnt =
     (let ix = inp d (mem h); up = indx16 (int splitp + int cnt * 2); down = indx16 (int splitp - int cnt * 2) in
      if up < NUM_ENT h \<and> ix splitp \<noteq> ix up then Some up
      else if splitp \<le> indx16 (int cnt * 2) then dup_point d h splitp (cnt + 1)
      else if ix splitp \<noteq> ix down then Some (indx16 (int down + 2))
      else dup_point d h splitp (cnt + 1))"

text \<open>\<open>None\<close>: it does not end.  On a leaf of one pair, which is never full, the code would read before the array.\<close>

definition split_point :: "dbh \<Rightarrow> page \<Rightarrow> nat \<Rightarrow> nat res option" where
  "split_point d h indx =
     (case split_start d h indx of
        None \<Rightarrow> Some (Fail DB_RUNRECOVERY)
      | Some off \<Rightarrow>
          (let keyed = (ptype h = P_IBTREE \<or> ptype h = P_LBTREE \<or> ptype h = P_LDUP);
               splitp = (if keyed \<and> \<not> plain_item d h off then small_key d h off 1 else off)
           in if ptype h = P_LBTREE \<and> inp d (mem h) splitp = inp d (mem h) (splitp - 2)
              then map_option Done (dup_point d h splitp 1)
              else Some (Done splitp)))"

subsection \<open>Copying the items\<close>

text \<open>The header of a \<open>BINTERNAL\<close>.\<close>

definition binternal :: "byte \<Rightarrow> nat \<Rightarrow> u32 \<Rightarrow> u32 \<Rightarrow> byte list" where
  "binternal ty len n nrecs = le_enc 2 len @ [B_TYPE ty, 0] @ le_enc 4 (unat n) @ le_enc 4 (unat nrecs)"

definition bi_nrecs :: "byte list \<Rightarrow> nat \<Rightarrow> u32" where "bi_nrecs m p = u32_at m (p + 8)"

text \<open>The first key of an internal page is not used, and is dropped.\<close>

definition copy_bytes :: "dbh \<Rightarrow> page \<Rightarrow> nat \<Rightarrow> nat \<Rightarrow> nat option" where
  "copy_bytes d h off nxt =
     (if ptype h = P_IBTREE then Some (if off = 0 \<and> nxt \<noteq> 0 then BINTERNAL_SIZE 0 else bi_bytes d h nxt)
      else if ptype h = P_LBTREE \<or> ptype h = P_LDUP \<or> ptype h = P_LRECNO then Some (bk_bytes d h nxt)
      else if ptype h = P_IRECNO then Some RINTERNAL_SIZE
      else None)"

definition copied :: "dbh \<Rightarrow> page \<Rightarrow> nat \<Rightarrow> nat \<Rightarrow> nat \<Rightarrow> byte list" where
  "copied d h off nxt nb =
     (let m = mem h; p = inp d m nxt in
      if off = 0 \<and> nxt \<noteq> 0 \<and> ptype h = P_IBTREE then binternal B_KEYDATA 0 (bi_pgno m p) (bi_nrecs m p)
      else buf_read p nb m)"

definition copy_item :: "dbh \<Rightarrow> page \<Rightarrow> nat \<Rightarrow> nat \<Rightarrow> nat \<Rightarrow> page \<Rightarrow> page" where
  "copy_item d h off nxt nb q =
     (let hoff = hf_offset q - word_of_nat nb; m = set_inp d off (unat hoff) (mem q)
      in q\<lparr>mem := buf_write (inp d m off) (copied d h off nxt nb) m, hf_offset := hoff, entries := entries q + 1\<rparr>)"

function copy_loop :: "dbh \<Rightarrow> page \<Rightarrow> nat \<Rightarrow> nat \<Rightarrow> nat \<Rightarrow> page \<Rightarrow> page res" where
  "copy_loop d h off nxt stop q =
     (if \<not> nxt < stop then Done q
      else if ptype h = P_LBTREE \<and> off \<noteq> 0 \<and> nxt mod 2 = 0 \<and> inp d (mem h) nxt = inp d (mem h) (nxt - 2) then
        copy_loop d h (off + 1) (nxt + 1) stop
          (q\<lparr>mem := set_inp d off (inp d (mem q) (off - 2)) (mem q), entries := entries q + 1\<rparr>)
      else (case copy_bytes d h off nxt of
              None \<Rightarrow> Fail DB_RUNRECOVERY
            | Some nb \<Rightarrow> copy_loop d h (off + 1) (nxt + 1) stop (copy_item d h off nxt nb q)))"
  by pat_completeness auto
termination by (relation "measure (\<lambda>(d, h, off, nxt, stop, q). stop - nxt)") auto

declare copy_loop.simps [simp del]

definition bam_copy :: "dbh \<Rightarrow> page \<Rightarrow> page \<Rightarrow> nat \<Rightarrow> nat \<Rightarrow> page res" where
  "bam_copy d pp cp nxt stop = copy_loop d pp 0 nxt stop cp"

text \<open>The pages and the split point.\<close>

definition bam_psplit :: "dbh \<Rightarrow> page \<Rightarrow> nat \<Rightarrow> page \<Rightarrow> page \<Rightarrow> (page \<times> page \<times> nat) res option" where
  "bam_psplit d pp indx lp rp =
     (case split_point d pp indx of
        None \<Rightarrow> None
      | Some (Fail e) \<Rightarrow> Some (Fail e)
      | Some (Done splitp) \<Rightarrow>
          Some (case bam_copy d pp lp 0 splitp of
                  Fail e \<Rightarrow> Fail e
                | Done lp' \<Rightarrow> (case bam_copy d pp rp splitp (NUM_ENT pp) of
                                Fail e \<Rightarrow> Fail e
                              | Done rp' \<Rightarrow> Done (lp', rp', splitp))))"

section \<open>The split point\<close>

lemma indx16_small [simp]: "i < 65536 \<Longrightarrow> indx16 (int i) = i"
  by (simp add: indx16_def)

lemma indx16_plus [simp]: "i + j < 65536 \<Longrightarrow> indx16 (int i + int j) = i + j"
  using indx16_small [of "i + j"] by simp

lemma indx16_minus [simp]: "j \<le> i \<Longrightarrow> i < 65536 \<Longrightarrow> indx16 (int i - int j) = i - j"
  using indx16_small [of "i - j"] by (simp add: of_nat_diff)

text \<open>The index array of a leaf changes where a set of duplicates ends.\<close>

definition clean_split :: "dbh \<Rightarrow> page \<Rightarrow> nat \<Rightarrow> bool" where
  "clean_split d h s \<longleftrightarrow> adjust_of h dvd s \<and> 0 < s \<and> s < NUM_ENT h
     \<and> (ptype h = P_LBTREE \<longrightarrow> inp d (mem h) s \<noteq> inp d (mem h) (s - 2))"

lemma dup_point_ends:
  assumes "ptype h = P_LBTREE" "even (NUM_ENT h)" "2 * NUM_ENT h \<le> 65536" "even s" "s < NUM_ENT h"
    and "even k" "2 \<le> k" "k < NUM_ENT h" "inp d (mem h) k \<noteq> inp d (mem h) s"
    and "0 < cnt" "2 * cnt \<le> (if k < s then s - k else k - s)"
    and "\<forall>i<cnt. (s + 2 * i < NUM_ENT h \<longrightarrow> inp d (mem h) (s + 2 * i) = inp d (mem h) s)
           \<and> (2 * i < s \<longrightarrow> inp d (mem h) (s - 2 * i) = inp d (mem h) s)"
  shows "\<exists>t. dup_point d h s cnt = Some t \<and> clean_split d h t"
  using assms(10-)
proof (induction "32768 - cnt" arbitrary: cnt)
  case 0
  then show ?case using assms(3,5,8) by (auto split: if_splits)
next
  case (Suc q)
  let ?ix = "inp d (mem h)" and ?n = "NUM_ENT h"
  have c: "2 * cnt < ?n" "2 * cnt + s < 65536" using Suc.prems(2) assms(3,5,8) by (auto split: if_splits)
  have i: "indx16 (int s + int cnt * 2) = s + 2 * cnt" "indx16 (int cnt * 2) = 2 * cnt"
    using indx16_plus [of s "2 * cnt"] indx16_small [of "2 * cnt"] c by (simp_all add: mult.commute)
  have dn: "indx16 (int s - int cnt * 2) = s - 2 * cnt" if "2 * cnt < s"
    using indx16_minus [of "2 * cnt" s] that c by (simp add: mult.commute)
  note P = Suc.prems(3) [rule_format]
  obtain p where p: "cnt = Suc p" using Suc.prems(1) by (cases cnt) auto
  show ?case
  proof (cases "s + 2 * cnt < ?n \<and> ?ix s \<noteq> ?ix (s + 2 * cnt)")
    case True
    have "?ix (s + 2 * cnt - 2) = ?ix s" using P [of p] True by (simp add: p)
    then have "clean_split d h (s + 2 * cnt)" using True assms(1,4) Suc.prems(1) by (auto simp: clean_split_def adjust_of_def)
    moreover have "dup_point d h s cnt = Some (s + 2 * cnt)" by (subst dup_point.simps) (simp add: Let_def i True)
    ultimately show ?thesis by blast
  next
    case up: False
    show ?thesis
    proof (cases "2 * cnt < s \<and> ?ix s \<noteq> ?ix (s - 2 * cnt)")
      case True
      have "s - 2 * cnt + 2 = s - 2 * p" using True p by linarith
      then have "?ix (s - 2 * cnt + 2) = ?ix s" using P [of p] True by (simp add: p)
      then have "clean_split d h (s - 2 * cnt + 2)" using True assms(1,4,5) Suc.prems(1) by (auto simp: clean_split_def adjust_of_def)
      moreover have e: "indx16 (int (s - 2 * cnt) + 2) = s - 2 * cnt + 2"
        using indx16_plus [of "s - 2 * cnt" 2] c True Suc.prems(1) by simp
      have "dup_point d h s cnt = Some (s - 2 * cnt + 2)"
        using up True
        by (subst dup_point.simps, unfold Let_def i dn [OF conjunct1 [OF True]] e) auto
      ultimately show ?thesis by blast
    next
      case False
      have "k \<noteq> s + 2 * cnt \<and> (2 * cnt < s \<longrightarrow> k \<noteq> s - 2 * cnt)" using up False assms(8,9) by auto
      then have "2 * cnt \<noteq> (if k < s then s - k else k - s)" using assms(7) by (auto split: if_splits)
      moreover have "even (if k < s then s - k else k - s)" using assms(4,6) by simp
      ultimately have d2: "2 * Suc cnt \<le> (if k < s then s - k else k - s)" using Suc.prems(2) by presburger
      have all: "\<forall>i<Suc cnt. (s + 2 * i < ?n \<longrightarrow> ?ix (s + 2 * i) = ?ix s) \<and> (2 * i < s \<longrightarrow> ?ix (s - 2 * i) = ?ix s)"
        using P up False by (auto simp: less_Suc_eq)
      have "q = 32768 - Suc cnt" using Suc.hyps(2) by simp
      from Suc.hyps(1) [OF this _ d2 all] show ?thesis
        using up False dn by (subst dup_point.simps) (auto simp: Let_def i)
    qed
  qed
qed

definition split_type :: "page \<Rightarrow> bool" where
  "split_type h \<longleftrightarrow> ptype h \<in> {P_IBTREE, P_LBTREE, P_LDUP, P_LRECNO, P_IRECNO}"

lemma split_types_differ [simp]:
  "P_LBTREE \<noteq> P_IRECNO" "P_LBTREE \<noteq> P_LDUP" "P_LBTREE \<noteq> P_LRECNO" "P_IBTREE \<noteq> P_LBTREE" "P_LBTREE \<noteq> P_IBTREE" "P_LDUP \<noteq> P_LBTREE" "P_LRECNO \<noteq> P_LBTREE" "P_IRECNO \<noteq> P_LBTREE"
  "P_LDUP \<noteq> P_IBTREE" "P_LRECNO \<noteq> P_IBTREE" "P_IRECNO \<noteq> P_IBTREE" "P_IRECNO \<noteq> P_LDUP" "P_IRECNO \<noteq> P_LRECNO"
  by (simp_all add: P_IBTREE_def P_LBTREE_def P_LDUP_def P_LRECNO_def P_IRECNO_def)

lemma half_loop_step:
  assumes "split_type h" "off < l" "nbytes < half"
  shows "\<exists>nb. half_loop d h l half nbytes off = half_loop d h l half nb (off + adjust_of h)"
  by (subst half_loop.simps) (use assms in \<open>auto simp: split_type_def adjust_of_def\<close>)

lemma half_loop_range:
  assumes "split_type h" "adjust_of h dvd l"
  shows "off \<le> l \<Longrightarrow> adjust_of h dvd off \<Longrightarrow>
    \<exists>r. half_loop d h l half nbytes off = Some r \<and> adjust_of h dvd r \<and> r \<le> l \<and> (if off < l \<and> nbytes < half then off < r else r = off)"
proof (induction "l - off" arbitrary: off nbytes rule: less_induct)
  case less
  show ?case
  proof (cases "off < l \<and> nbytes < half")
    case True
    then obtain nb where nb: "half_loop d h l half nbytes off = half_loop d h l half nb (off + adjust_of h)"
      using half_loop_step [OF assms(1)] by blast
    have a: "0 < adjust_of h" by (simp add: adjust_of_def)
    have dv: "adjust_of h dvd off + adjust_of h" using less.prems(2) by simp
    have "off + adjust_of h \<le> l"
    proof -
      have "adjust_of h dvd l - off" using assms(2) less.prems(2) by (rule dvd_diff_nat)
      then have "adjust_of h \<le> l - off" using True by (intro dvd_imp_le) auto
      then show ?thesis using True by linarith
    qed
    from less.hyps [OF _ this dv, of nb] True a show ?thesis unfolding nb by (fastforce split: if_splits)
  next
    case False
    then show ?thesis using less.prems by (subst half_loop.simps) auto
  qed
qed

text \<open>The split point before duplicates are looked at.\<close>

lemma small_key_range:
  assumes "adjust_of h dvd s" "0 < s" "s < NUM_ENT h" "2 * NUM_ENT h \<le> 65536" "0 < cnt"
  shows "adjust_of h dvd small_key d h s cnt \<and> 0 < small_key d h s cnt \<and> small_key d h s cnt < NUM_ENT h"
  using assms
proof (induction d h s cnt rule: small_key.induct)
  case (1 d h s cnt)
  note IH = "1.IH"(1) [OF _ refl refl _ _ "1.prems"(1-4)] "1.IH"(2) [OF _ refl refl _ _ _ "1.prems"(1-4)]
  let ?a = "adjust_of h" let ?up = "s + cnt * ?a" let ?down = "s - cnt * ?a"
  have b: "cnt * ?a \<le> 6" if "\<not> 3 < cnt" using that mult_le_mono [of cnt 3 ?a 2] by (simp add: adjust_of_def)
  have u: "?up mod 65536 = ?up" if "\<not> 3 < cnt" using b [OF that] "1.prems"(3,4) by simp
  have d: "?a dvd ?up" "?a dvd ?down" using "1.prems"(1) by (auto intro: dvd_diff_nat)
  have "\<not> 3 < cnt \<Longrightarrow> s \<le> cnt * ?a \<or> \<not> plain_item d h ?down \<Longrightarrow> \<not> (?up < NUM_ENT h \<and> plain_item d h ?up) \<Longrightarrow>
      ?a dvd small_key d h s (cnt + 1) \<and> 0 < small_key d h s (cnt + 1) \<and> small_key d h s (cnt + 1) < NUM_ENT h"
    using IH u by auto
  then show ?case unfolding small_key.simps [of d h s cnt] Let_def using u d "1.prems" by auto
qed

lemma split_start_range:
  assumes "split_type h" "adjust_of h dvd NUM_ENT h" "2 * adjust_of h \<le> NUM_ENT h" "2 * NUM_ENT h \<le> 65536"
    and "unat (hf_offset h) + 2 \<le> pgsize d" "pgsize d < 65536"
  shows "\<exists>r. split_start d h indx = Some r \<and> adjust_of h dvd r \<and> 0 < r \<and> r < NUM_ENT h"
proof -
  let ?a = "adjust_of h" and ?n = "NUM_ENT h"
  define half where "half = unat (word_of_nat (pgsize d) - ucast (hf_offset h) :: u32) div 2 mod 65536"
  have a: "?a = 1 \<or> ?a = 2" by (simp add: adjust_of_def)
  have i: "indx16 (int ?n - int ?a) = ?n - ?a" using assms(3,4) by (intro indx16_minus) auto
  have r: "?a dvd ?n - ?a" "0 < ?n - ?a" "?n - ?a < ?n" using assms(2,3) a by (auto intro: dvd_diff_nat)
  have h: "unat (ucast (hf_offset h) :: u32) = unat (hf_offset h)"
    using assms(5,6) by (simp add: unsigned_ucast_eq take_bit_nat_eq_self_iff)
  have p: "unat (word_of_nat (pgsize d) :: u32) = pgsize d" using assms(6) by (simp add: unat_of_nat)
  have "(ucast (hf_offset h) :: u32) \<le> word_of_nat (pgsize d)" unfolding word_le_nat_alt h p using assms(5) by simp
  then have "half = (pgsize d - unat (hf_offset h)) div 2 mod 65536" by (simp add: half_def unat_sub h p)
  then have "0 < half" using assms(5,6) by simp
  from half_loop_range [OF assms(1) r(1), of 0 d half 0] r this obtain t where
    t: "half_loop d h (?n - ?a) half 0 0 = Some t" "?a dvd t" "t \<le> ?n - ?a" "0 < t" by auto
  have "t < ?n" using t(3) r(2,3) by linarith
  moreover have "?a < ?n" using r(2) by simp
  ultimately show ?thesis using t r a by (auto simp: split_start_def Let_def i half_def [symmetric])
qed

text \<open>When a leaf has duplicates, its second key is not that of all the others.\<close>

definition dups_end :: "dbh \<Rightarrow> page \<Rightarrow> bool" where
  "dups_end d h \<longleftrightarrow>
     (ptype h = P_LBTREE \<longrightarrow> (\<exists>i<NUM_ENT h. 2 \<le> i \<and> even i \<and> inp d (mem h) i = inp d (mem h) (i - 2)) \<longrightarrow>
        (\<exists>k<NUM_ENT h. 2 \<le> k \<and> even k \<and> inp d (mem h) k \<noteq> inp d (mem h) 2))"

lemma split_point_range:
  assumes "split_type h" "adjust_of h dvd NUM_ENT h" "2 * adjust_of h \<le> NUM_ENT h" "2 * NUM_ENT h \<le> 65536"
    and "unat (hf_offset h) + 2 \<le> pgsize d" "pgsize d < 65536"
    and dups: "dups_end d h"
  shows "\<exists>s. split_point d h indx = Some (Done s) \<and> clean_split d h s"
proof -
  let ?a = "adjust_of h" and ?n = "NUM_ENT h"
  from split_start_range [OF assms(1-6)] obtain r where
    r: "split_start d h indx = Some r" "?a dvd r" "0 < r" "r < ?n" by blast
  define s where "s = (if (ptype h = P_IBTREE \<or> ptype h = P_LBTREE \<or> ptype h = P_LDUP) \<and> \<not> plain_item d h r then small_key d h r 1 else r)"
  have sp: "split_point d h indx = (if ptype h = P_LBTREE \<and> inp d (mem h) s = inp d (mem h) (s - 2)
      then map_option Done (dup_point d h s 1) else Some (Done s))"
    unfolding split_point_def r(1) option.case Let_def s_def ..
  have s: "?a dvd s" "0 < s" "s < ?n" using small_key_range [OF r(2-4) assms(4), of 1 d] r(2-4) by (auto simp: s_def)
  show ?thesis
  proof (cases "ptype h = P_LBTREE \<and> inp d (mem h) s = inp d (mem h) (s - 2)")
    case True
    then have l: "?a = 2" "even s" "even ?n" using s(1) assms(2) by (auto simp: adjust_of_def)
    then have s2: "2 \<le> s" using s(2) by presburger
    from dups True s2 s(3) l(2) obtain k where k: "even k" "2 \<le> k" "k < ?n" "inp d (mem h) k \<noteq> inp d (mem h) 2"
      unfolding dups_end_def by blast
    obtain j where j: "even j" "2 \<le> j" "j < ?n" "inp d (mem h) j \<noteq> inp d (mem h) s"
    proof (cases "inp d (mem h) s = inp d (mem h) 2")
      case True
      then show ?thesis using that [of k] k by simp
    next
      case False
      then show ?thesis using that [of 2] s2 s(3) by simp
    qed
    have "j \<noteq> s" using j(4) by auto
    then have d: "2 * 1 \<le> (if j < s then s - j else j - s)" using j(1) l(2) by presburger
    from dup_point_ends [OF conjunct1 [OF True] l(3) assms(4) l(2) s(3) j _ d]
    obtain t where "dup_point d h s 1 = Some t" "clean_split d h t" by auto
    then show ?thesis using True by (auto simp: sp)
  next
    case False
    then have "clean_split d h s" using s by (simp add: clean_split_def)
    moreover have "split_point d h indx = Some (Done s)" using False by (auto simp: sp)
    ultimately show ?thesis by blast
  qed
qed

section \<open>Copying the items\<close>

text \<open>The page holds items of the lengths that the code computes from their headers.\<close>

definition sized :: "dbh \<Rightarrow> page \<Rightarrow> byte list list \<Rightarrow> bool" where
  "sized d h items \<longleftrightarrow>
     (\<forall>i<length items. copy_bytes d h 1 i = Some (length (items ! i)) \<and> (ptype h = P_IBTREE \<longrightarrow> 12 \<le> length (items ! i)))"

text \<open>The items that a page gets: the first one of an internal page loses its key, unless it is the first of all.\<close>

definition keyless :: "byte list \<Rightarrow> byte list" where
  "keyless it = binternal B_KEYDATA 0 (u32_at it 4) (u32_at it 8)"

definition part :: "page \<Rightarrow> nat \<Rightarrow> byte list list \<Rightarrow> byte list list" where
  "part h a xs = (if ptype h = P_IBTREE \<and> a \<noteq> 0 \<and> xs \<noteq> [] then keyless (xs ! 0) # tl xs else xs)"

lemma length_part [simp]: "length (part h a xs) = length xs"
  by (auto simp: part_def)

lemma nth_part: "i < length xs \<Longrightarrow> part h a xs ! i = (if ptype h = P_IBTREE \<and> a \<noteq> 0 \<and> i = 0 then keyless (xs ! 0) else xs ! i)"
  by (cases xs) (auto simp: part_def nth_Cons split: nat.split)

lemma length_binternal [simp]: "length (binternal ty n p r) = 12"
  by (simp add: binternal_def)

lemma take_Suc_nth_sum: "i < length xs \<Longrightarrow> page_used d (take i xs) + (2 + length (xs ! i)) = page_used d (take (Suc i) xs)"
  by (simp add: page_used_def take_Suc_conv_app_nth)

lemma page_used_append: "page_used d (xs @ ys) = page_used d xs + (2 * length ys + sum_list (map length ys))"
  by (simp add: page_used_def)

lemma page_used_take: "page_used d (take i xs) \<le> page_used d xs"
  using page_used_append [of d "take i xs" "drop i xs"] by simp

lemma page_used_drop: "page_used d (drop i xs) \<le> page_used d xs"
  using page_used_append [of d "take i xs" "drop i xs"] by (simp add: page_used_def)

lemma copy_step:
  assumes hq: "holds d q its" and off: "off = length its" and b: "copied d h off nxt nb = b" "length b = nb" "0 < nb"
    and room: "page_used d its + (2 + nb) \<le> pgsize d"
  shows "holds d (copy_item d h off nxt nb q) (its @ [b])" "same_head q (copy_item d h off nxt nb q)"
    "lsn (copy_item d h off nxt nb q) = lsn q"
proof -
  have n: "unat (entries q) = off" using holdsD(3) [OF hq] off by simp
  have r: "P_OVERHEAD d + 2 * length its + 2 + nb \<le> unat (hf_offset q)" using used_room [OF hq room] by simp
  obtain q' where q': "db_pitem_nolog d q off nb (Some b) None = Some q'"
    "holds d q' (take off its @ new_item q nb (b @ []) # drop off its)"
    using pitem_refines [OF hq _ r b(3) refl refl, of off None "Some b"] off b(2) by auto
  have "q' = copy_item d h off nxt nb q"
    using q'(1) b(1) by (auto simp: db_pitem_nolog_def copy_item_def Let_def n split: if_splits)
  moreover have "new_item q nb (b @ []) = b" using b(2) by (simp add: new_item_def buf_read_def)
  ultimately show "holds d (copy_item d h off nxt nb q) (its @ [b])" using q'(2) off by simp
  show "same_head q (copy_item d h off nxt nb q)" "lsn (copy_item d h off nxt nb q) = lsn q"
    by (simp_all add: copy_item_def Let_def same_head_def)
qed

lemma holds_inp_inj:
  assumes "holds d h items" "i < length items" "j < length items" "i \<noteq> j"
  shows "inp d (mem h) i \<noteq> inp d (mem h) j"
  using items_at_apart [OF holdsD(7) [OF assms(1)] assms(2-4)] items_atD(1) [OF holdsD(7) [OF assms(1)]] assms(2,3)
  by (auto simp: apart_def)

lemma copied_part:
  assumes "holds d h items" "sized d h items" "off = nxt - a" "a \<le> nxt" "nxt < stop" "stop \<le> length items"
    and "ys = part h a (take (stop - a) (drop a items))"
  shows "copy_bytes d h off nxt = Some (length (ys ! off))" "copied d h off nxt (length (ys ! off)) = ys ! off" "0 < length (ys ! off)"
proof -
  let ?xs = "take (stop - a) (drop a items)"
  have k: "nxt < length items" "off < length ?xs" "?xs ! off = items ! nxt" using assms(3-6) by auto
  have y: "ys ! off = (if ptype h = P_IBTREE \<and> a \<noteq> 0 \<and> off = 0 then keyless (items ! nxt) else items ! nxt)"
    unfolding assms(7) nth_part [OF k(2)] using k(3) by auto
  have z: "off = 0 \<and> nxt \<noteq> 0 \<longleftrightarrow> a \<noteq> 0 \<and> off = 0" using assms(3,4) by auto
  note S = assms(2) [unfolded sized_def, rule_format, OF k(1)]
  note I = items_atD [OF holdsD(7) [OF assms(1)] k(1)]
  show "copy_bytes d h off nxt = Some (length (ys ! off))"
    using S z unfolding y by (cases "ptype h = P_IBTREE") (auto simp: copy_bytes_def keyless_def BINTERNAL_SIZE_def)
  show "copied d h off nxt (length (ys ! off)) = ys ! off"
  proof (cases "ptype h = P_IBTREE \<and> a \<noteq> 0 \<and> off = 0")
    case True
    have "12 \<le> length (items ! nxt)" using S True by blast
    then have "u32_at (mem h) (inp d (mem h) nxt + 4) = u32_at (items ! nxt) 4" "u32_at (mem h) (inp d (mem h) nxt + 8) = u32_at (items ! nxt) 8"
      using holds_read [OF assms(1) k(1), of 4 4] holds_read [OF assms(1) k(1), of 8 4] by (simp_all add: u32_at_def buf_read_def)
    then show ?thesis using True z y by (simp add: copied_def Let_def keyless_def bi_pgno_def bi_nrecs_def)
  next
    case False
    then show ?thesis using y z I(4) by (auto simp: copied_def Let_def)
  qed
  show "0 < length (ys ! off)" using y I(1) by (auto simp: keyless_def binternal_def)
qed

lemma copy_loop_part:
  assumes hh: "holds d h items" and sz: "sized d h items" and le: "stop \<le> length items"
    and ys: "ys = part h a (take (stop - a) (drop a items))" and room: "page_used d ys \<le> pgsize d"
  shows "holds d q (take off ys) \<Longrightarrow> nxt = a + off \<Longrightarrow> nxt \<le> stop \<Longrightarrow>
    \<exists>q'. copy_loop d h off nxt stop q = Done q' \<and> holds d q' ys \<and> same_head q q' \<and> lsn q' = lsn q"
proof (induction "stop - nxt" arbitrary: off nxt q)
  case 0
  then have "length ys = off" using le by (simp add: ys)
  then show ?case using 0 by (subst copy_loop.simps) (simp add: same_head_def)
next
  case (Suc k)
  have lt: "nxt < stop" using Suc.hyps(2) by simp
  have o: "off = nxt - a" "a \<le> nxt" using Suc.prems(2) by auto
  note C = copied_part [OF hh sz o lt le ys]
  have ol: "off < length ys" using lt le Suc.prems(2) by (simp add: ys)
  have oo: "off = length (take off ys)" using ol by simp
  have "page_used d (take off ys) + (2 + length (ys ! off)) \<le> pgsize d"
    unfolding take_Suc_nth_sum [OF ol] using page_used_take [of d "Suc off" ys] room by linarith
  note T = copy_step [OF Suc.prems(1) oo C(2) refl C(3) this]
  let ?q = "copy_item d h off nxt (length (ys ! off)) q"
  have "take off ys @ [ys ! off] = take (off + 1) ys" using ol by (simp add: take_Suc_conv_app_nth)
  then have h1: "holds d ?q (take (off + 1) ys)" using T(1) by simp
  have nd: "\<not> (ptype h = P_LBTREE \<and> off \<noteq> 0 \<and> nxt mod 2 = 0 \<and> inp d (mem h) nxt = inp d (mem h) (nxt - 2))"
  proof
    assume c: "ptype h = P_LBTREE \<and> off \<noteq> 0 \<and> nxt mod 2 = 0 \<and> inp d (mem h) nxt = inp d (mem h) (nxt - 2)"
    then have "nxt - 2 \<noteq> nxt" using o by linarith
    moreover have "nxt - 2 < length items" using lt le by linarith
    ultimately show False using holds_inp_inj [OF hh, of nxt "nxt - 2"] c lt le by auto
  qed
  have "copy_loop d h off nxt stop q = copy_loop d h (off + 1) (nxt + 1) stop ?q"
    using lt nd C(1) by (subst copy_loop.simps) auto
  moreover have "k = stop - (nxt + 1)" using Suc.hyps(2) by simp
  ultimately show ?case using Suc.hyps(1) [OF _ h1] Suc.prems(2) lt T(2,3) same_head_trans by fastforce
qed

lemma page_used_part:
  assumes "holds d h items" "sized d h items"
  shows "page_used d (part h a (take n (drop a items))) \<le> pgsize d"
proof -
  let ?xs = "take n (drop a items)"
  have "sum_list (map length (part h a ?xs)) \<le> sum_list (map length ?xs)"
  proof (cases "ptype h = P_IBTREE \<and> a \<noteq> 0 \<and> ?xs \<noteq> []")
    case True
    then obtain x xs where x: "?xs = x # xs" by (cases ?xs) auto
    have "a < length items" using True by (cases "a < length items") auto
    moreover have "x = items ! a" using arg_cong [OF x, of "\<lambda>z. z ! 0"] calculation True by (cases n) auto
    ultimately have "12 \<le> length x" using assms(2) True by (simp add: sized_def)
    then show ?thesis using True x by (simp add: part_def keyless_def)
  qed (auto simp: part_def)
  then have "page_used d (part h a ?xs) \<le> page_used d ?xs" by (simp add: page_used_def)
  also have "\<dots> \<le> page_used d (drop a items)" by (rule page_used_take)
  also have "\<dots> \<le> page_used d items" by (rule page_used_drop)
  also have "\<dots> \<le> pgsize d" using holdsD(4,6) [OF assms(1)] by (simp add: page_used_def)
  finally show ?thesis .
qed

text \<open>\<open>__bam_psplit\<close> on a page without duplicates.\<close>

lemma psplit_parts:
  assumes hh: "holds d h items" and sz: "sized d h items" and ty: "split_type h"
    and n: "adjust_of h dvd length items" "2 * adjust_of h \<le> length items"
    and lp: "holds d lp []" and rp: "holds d rp []"
  shows "\<exists>s lp' rp'. bam_psplit d h indx lp rp = Some (Done (lp', rp', s)) \<and> adjust_of h dvd s \<and> 0 < s \<and> s < length items
    \<and> holds d lp' (take s items) \<and> holds d rp' (part h s (drop s items))
    \<and> same_head lp lp' \<and> lsn lp' = lsn lp \<and> same_head rp rp' \<and> lsn rp' = lsn rp"
proof -
  note H = holdsD [OF hh]
  have N: "NUM_ENT h = length items" using H(3) by (simp add: NUM_ENT_def)
  have a: "adjust_of h = 1 \<or> adjust_of h = 2" by (simp add: adjust_of_def)
  have two: "2 \<le> length items" using n(2) a by auto
  have n16: "2 * NUM_ENT h \<le> 65536" using H(2,4,5) N by simp
  have hf: "unat (hf_offset h) + 2 \<le> pgsize d"
  proof -
    obtain x y zs where i: "items = x # y # zs" using two by (cases items rule: remdups_adj.cases) auto
    have "x \<noteq> []" "y \<noteq> []" using items_atD(1) [OF H(7), of 0] items_atD(1) [OF H(7), of 1] i by auto
    then have "2 \<le> sum_list (map length items)" unfolding i by (cases x; cases y) auto
    then show ?thesis using H(6) by linarith
  qed
  have de: "dups_end d h" using holds_inp_inj [OF hh] N by (fastforce simp: dups_end_def)
  obtain s where s: "split_point d h indx = Some (Done s)" "adjust_of h dvd s" "0 < s" "s < length items"
    using split_point_range [OF ty _ _ n16 hf H(2) de, of indx] n by (auto simp: clean_split_def N)
  have p: "part h 0 xs = xs" for xs and h :: page by (simp add: part_def)
  have l: "take (s - 0) (drop 0 items) = take s items" "take (length items - s) (drop s items) = drop s items" by simp_all
  note room = page_used_part [OF hh sz]
  from copy_loop_part [OF hh sz _ refl room, where stop = s and a = 0 and q = lp and off = 0 and nxt = 0] s(4) lp obtain lp' where
    lp': "bam_copy d h lp 0 s = Done lp'" "holds d lp' (take s items)" "same_head lp lp'" "lsn lp' = lsn lp"
    unfolding l p by (auto simp: bam_copy_def)
  from copy_loop_part [OF hh sz order_refl refl room, where a = s and q = rp and off = 0 and nxt = s] s(4) rp obtain rp' where
    rp': "bam_copy d h rp s (length items) = Done rp'" "holds d rp' (part h s (drop s items))" "same_head rp rp'" "lsn rp' = lsn rp"
    unfolding l by (auto simp: bam_copy_def)
  show ?thesis using s lp' rp' by (simp add: bam_psplit_def N)
qed

text \<open>A set of duplicates that reaches from the second key of the page to its end.\<close>

lemma dup_point_wraps:
  assumes "even (NUM_ENT h)" "2 * NUM_ENT h \<le> 65536" "even s" "4 \<le> s" "s < NUM_ENT h"
    and eq: "\<And>i. 2 \<le> i \<Longrightarrow> even i \<Longrightarrow> i < NUM_ENT h \<Longrightarrow> inp d (mem h) i = inp d (mem h) s" and ne: "inp d (mem h) 0 \<noteq> inp d (mem h) s"
  shows "0 < cnt \<Longrightarrow> 2 * cnt + s \<le> 65536 \<Longrightarrow> dup_point d h s cnt = Some 0"
proof (induction "32768 - cnt" arbitrary: cnt)
  case 0
  then show ?case using assms(4) by simp
next
  case (Suc q)
  have sm: "indx16 (2 * int cnt) = 2 * cnt" using indx16_small [of "2 * cnt"] Suc.prems assms(4) by simp
  show ?case
  proof (cases "2 * cnt + s = 65536")
    case True
    then have "int s + int cnt * 2 = 65536" by linarith
    then have "indx16 (int s + int cnt * 2) = 0" by (simp add: indx16_def)
    then show ?thesis using ne assms(5) by (subst dup_point.simps) (simp add: Let_def)
  next
    case False
    then have lt: "2 * cnt + s < 65536" using Suc.prems(2) by simp
    have up: "indx16 (int s + int cnt * 2) = s + 2 * cnt" using indx16_plus [of s "2 * cnt"] lt by (simp add: mult.commute)
    have ixu: "s + 2 * cnt < NUM_ENT h \<Longrightarrow> inp d (mem h) (s + 2 * cnt) = inp d (mem h) s" using eq [of "s + 2 * cnt"] assms(3,4) by simp
    have "2 * (cnt + 1) + s \<le> 65536" using lt assms(3) False by presburger
    then have IH: "dup_point d h s (cnt + 1) = Some 0" using Suc.hyps(1) [of "cnt + 1"] Suc.hyps(2) by simp
    show ?thesis
    proof (cases "s \<le> 2 * cnt")
      case True
      then show ?thesis using IH ixu sm by (subst dup_point.simps) (auto simp: Let_def up mult.commute)
    next
      case False
      then have dn: "indx16 (int s - int cnt * 2) = s - 2 * cnt" using indx16_minus [of "2 * cnt" s] lt by (simp add: mult.commute)
      have "2 \<le> s - 2 * cnt" "even (s - 2 * cnt)" using False assms(3) by presburger+
      then have "inp d (mem h) (s - 2 * cnt) = inp d (mem h) s" using eq [of "s - 2 * cnt"] assms(5) by simp
      then show ?thesis using IH ixu sm False by (subst dup_point.simps) (auto simp: Let_def up dn mult.commute)
    qed
  qed
qed

lemma split_point_empty:
  assumes ty: "ptype h = P_LBTREE" and n: "even (NUM_ENT h)" "6 \<le> NUM_ENT h" "2 * NUM_ENT h \<le> 65536"
    and at: "next_pgno h = PGNO_INVALID" "NUM_ENT h - 2 \<le> indx" "plain_item d h (NUM_ENT h - 2)"
    and eq: "\<And>i. 2 \<le> i \<Longrightarrow> even i \<Longrightarrow> i < NUM_ENT h \<Longrightarrow> inp d (mem h) i = inp d (mem h) 2" and ne: "inp d (mem h) 0 \<noteq> inp d (mem h) 2"
  shows "split_point d h indx = Some (Done 0)"
proof -
  let ?n = "NUM_ENT h" and ?ix = "inp d (mem h)"
  have i: "indx16 (int ?n - 2) = ?n - 2" using indx16_minus [of 2 ?n] n by simp
  have le: "int ?n - 2 \<le> int indx" using at(2) by linarith
  have st: "split_start d h indx = Some (?n - 2)" using ty at n le by (simp add: split_start_def Let_def adjust_of_def i)
  have e: "?ix j = ?ix (?n - 2)" if "2 \<le> j" "even j" "j < ?n" for j using eq [OF that] eq [of "?n - 2"] n by simp
  have "?ix (?n - 2) = ?ix (?n - 2 - 2)" using e [of "?n - 2 - 2"] n by simp
  moreover have "dup_point d h (?n - 2) 1 = Some 0"
  proof (rule dup_point_wraps [OF n(1,3) _ _ _ e])
    show "?ix 0 \<noteq> ?ix (?n - 2)" using ne e [of 2] n(2) by simp
  qed (use n in auto)
  ultimately show ?thesis using at(3) ty by (simp add: split_point_def st Let_def)
qed

section \<open>Small pages\<close>

text \<open>Leaves of 64 bytes with an index array; the items are one byte each.\<close>

definition demo_page :: "nat list \<Rightarrow> u16 \<Rightarrow> page" where
  "demo_page ix hf = \<lparr>lsn = (0, 0), pgno = 1, prev_pgno = 0, next_pgno = 0, entries = word_of_nat (length ix), hf_offset = hf,
     level = LEAFLEVEL, ptype = P_LBTREE,
     mem = replicate 26 0 @ concat (map (le_enc 2) ix) @ replicate (18 - 2 * length ix) 0
       @ [1, 0, 1, 5, 1, 0, 1, 4, 1, 0, 1, 3, 1, 0, 1, 2, 1, 0, 1, 1]\<rparr>"

lemma demo_inp:
  "inp small_db (mem (demo_page [60, 56, 52, 48] 48)) 0 = 60" "inp small_db (mem (demo_page [60, 56, 52, 48] 48)) 1 = 56"
  "inp small_db (mem (demo_page [60, 56, 52, 48] 48)) 2 = 52" "inp small_db (mem (demo_page [60, 56, 52, 48] 48)) 3 = 48"
  "inp small_db (mem (demo_page [60, 56, 60, 52, 48, 44] 44)) 0 = 60" "inp small_db (mem (demo_page [60, 56, 60, 52, 48, 44] 44)) 2 = 60"
  "inp small_db (mem (demo_page [60, 56, 60, 52, 48, 44] 44)) 4 = 48"
  "inp small_db (mem (demo_page [60, 56, 52, 48, 52, 44] 44)) 0 = 60" "inp small_db (mem (demo_page [60, 56, 52, 48, 52, 44] 44)) 2 = 52"
  "inp small_db (mem (demo_page [60, 56, 52, 48, 52, 44] 44)) 4 = 52"
  "bk_type (mem (demo_page [60, 56, 52, 48, 52, 44] 44)) 52 = B_KEYDATA"
  by code_simp+

lemma demo_reads:
  "length (mem (demo_page [60, 56, 52, 48] 48)) = 64"
  "buf_read 60 4 (mem (demo_page [60, 56, 52, 48] 48)) = [1, 0, 1, 1]" "buf_read 56 4 (mem (demo_page [60, 56, 52, 48] 48)) = [1, 0, 1, 2]"
  "buf_read 52 4 (mem (demo_page [60, 56, 52, 48] 48)) = [1, 0, 1, 3]" "buf_read 48 4 (mem (demo_page [60, 56, 52, 48] 48)) = [1, 0, 1, 4]"
  by code_simp+

definition two_pairs :: "byte list list" where "two_pairs = [[1, 0, 1, 1], [1, 0, 1, 2], [1, 0, 1, 3], [1, 0, 1, 4]]"

lemma less_4: "(\<forall>i<4. P i) \<longleftrightarrow> P 0 \<and> P 1 \<and> P 2 \<and> P (3 :: nat)"
  by (auto simp: less_Suc_eq numeral_eq_Suc)

lemma demo_holds: "holds small_db (demo_page [60, 56, 52, 48] 48) two_pairs"
proof -
  have n: "length two_pairs = 4" "two_pairs ! 0 = [1, 0, 1, 1]" "two_pairs ! 1 = [1, 0, 1, 2]" "two_pairs ! 2 = [1, 0, 1, 3]"
    "two_pairs ! 3 = [1, 0, 1, 4]" by (simp_all add: two_pairs_def)
  have ln: "length [1, 0, 1, x] = 4" for x :: byte by simp
  have "items_at small_db (mem (demo_page [60, 56, 52, 48] 48)) 48 two_pairs"
    unfolding items_at_def n(1) less_4 n demo_inp ln by (simp add: demo_reads apart_def)
  moreover have "entries (demo_page [60, 56, 52, 48] 48) = 4" "hf_offset (demo_page [60, 56, 52, 48] 48) = 48" by (simp_all add: demo_page_def)
  ultimately show ?thesis by (simp add: holds_def demo_reads small_db_def P_OVERHEAD_def two_pairs_def)
qed

section \<open>Properties\<close>

text \<open>C11: the split point of \<open>__bam_psplit\<close> is strictly inside the page, between a
  data item and a key on a leaf, and not within a set of duplicates, whenever the page has room for two parts and the
  duplicates of its second key do not reach to its end.\<close>

theorem split_point_keeps_duplicates:
  assumes "split_type h" "adjust_of h dvd NUM_ENT h" "2 * adjust_of h \<le> NUM_ENT h" "2 * NUM_ENT h \<le> 65536"
    and "unat (hf_offset h) + 2 \<le> pgsize d" "pgsize d < 65536" "dups_end d h"
  shows "\<exists>s. split_point d h indx = Some (Done s) \<and> clean_split d h s"
  by (rule split_point_range [OF assms])

text \<open>Two pairs with the same key, and a third one: the page is split before the third.\<close>

theorem split_point_keeps_duplicates_witness:
  "\<exists>s. split_point small_db (demo_page [60, 56, 60, 52, 48, 44] 44) 6 = Some (Done s) \<and> clean_split small_db (demo_page [60, 56, 60, 52, 48, 44] 44) s"
proof -
  let ?h = "demo_page [60, 56, 60, 52, 48, 44] 44"
  have h: "ptype ?h = P_LBTREE" "NUM_ENT ?h = 6" "hf_offset ?h = 44" by (simp_all add: demo_page_def NUM_ENT_def)
  have "dups_end small_db ?h" unfolding dups_end_def h(2) using demo_inp(6,7) by (intro impI exI [of _ 4]) simp
  then show ?thesis
    by (intro split_point_keeps_duplicates) (simp_all add: h split_type_def adjust_of_def small_db_def)
qed

text \<open>C40: when an item is added at the end of the last leaf and all keys of that leaf
  but the first are duplicates of each other, the search for the end of the duplicates runs until the product of its
  counter has wrapped at 16 bits and the split point is 0: the left page gets no item.\<close>

theorem split_among_duplicates_empties_left:
  assumes "ptype h = P_LBTREE" "even (NUM_ENT h)" "6 \<le> NUM_ENT h" "2 * NUM_ENT h \<le> 65536"
    and "next_pgno h = PGNO_INVALID" "NUM_ENT h - 2 \<le> indx" "plain_item d h (NUM_ENT h - 2)"
    and "\<And>i. 2 \<le> i \<Longrightarrow> even i \<Longrightarrow> i < NUM_ENT h \<Longrightarrow> inp d (mem h) i = inp d (mem h) 2" "inp d (mem h) 0 \<noteq> inp d (mem h) 2"
  shows "split_point d h indx = Some (Done 0) \<and> bam_copy d h lp 0 0 = Done lp"
proof
  show "split_point d h indx = Some (Done 0)" by (rule split_point_empty [OF assms])
  show "bam_copy d h lp 0 0 = Done lp" by (subst bam_copy_def, subst copy_loop.simps) simp
qed

theorem split_among_duplicates_empties_left_witness:
  "split_point small_db (demo_page [60, 56, 52, 48, 52, 44] 44) 6 = Some (Done 0)"
proof -
  let ?h = "demo_page [60, 56, 52, 48, 52, 44] 44"
  have h: "ptype ?h = P_LBTREE" "NUM_ENT ?h = 6" "next_pgno ?h = PGNO_INVALID" by (simp_all add: demo_page_def NUM_ENT_def PGNO_INVALID_def)
  have eq: "inp small_db (mem ?h) i = inp small_db (mem ?h) 2" if "2 \<le> i" "even i" "i < 6" for i
  proof -
    have "i = 2 \<or> i = 4" using that by presburger
    then show ?thesis using demo_inp(9,10) by auto
  qed
  have pl: "plain_item small_db ?h (6 - 2)" using demo_inp(10,11) by (simp add: plain_item_def)
  have ne: "inp small_db (mem ?h) 0 \<noteq> inp small_db (mem ?h) 2" using demo_inp(8,9) by simp
  have "split_point small_db ?h 6 = Some (Done 0) \<and> bam_copy small_db ?h ?h 0 0 = Done ?h"
  proof (rule split_among_duplicates_empties_left)
    show "even (NUM_ENT ?h)" "6 \<le> NUM_ENT ?h" "2 * NUM_ENT ?h \<le> 65536" "NUM_ENT ?h - 2 \<le> 6" by (simp_all add: h(2))
    show "plain_item small_db ?h (NUM_ENT ?h - 2)" unfolding h(2) by (rule pl)
    show "inp small_db (mem ?h) i = inp small_db (mem ?h) 2" if "2 \<le> i" "even i" "i < NUM_ENT ?h" for i
      using that unfolding h(2) by (rule eq)
  qed (fact h(1) h(3) ne)+
  then show ?thesis by blast
qed

end
