(* ===== verification/Bt_Root.thy ===== *)
theory Bt_Root
  imports Bt_Split
begin

text \<open>
  Splitting the root of a btree, \<open>src/db/src/btree/bt_split.c\<close>: \<open>__bam_broot\<close>, which makes the root an internal page
  with two children, and \<open>__bam_root\<close>, which takes two new pages, distributes the items of the root over them and
  calls \<open>__bam_broot\<close>.  There are no record numbers and no other cursor; the page locks are granted at once.  The lemmas
  follow the invariant of the tree: the new tree is one level higher, well formed, and has the same records.
\<close>

section \<open>The code\<close>

subsection \<open>The new root\<close>

definition no_dbt :: dbt where
  "no_dbt = \<lparr>dt_data = [], dt_size = 0, dt_ulen = 0, dt_dlen = 0, dt_doff = 0, dt_partial = False, dt_mode = RETBUF\<rparr>"

text \<open>
  The entry of the right page: its type and its bytes, from the item that the pages are split at.  The key of
  a leaf that is on overflow pages is copied to new ones, that of an internal page is taken over.
\<close>

definition root_entry ::
    "penv \<Rightarrow> pager \<Rightarrow> stream \<Rightarrow> page \<Rightarrow> nat \<Rightarrow> (pager \<times> stream \<times> (int + byte \<times> byte list)) option" where
  "root_entry E s c rootp split =
     (let m = mem rootp; p = inp (pdb E) m split; t = B_TYPE (bk_type m p);
          inner = (ptype rootp = P_IBTREE); leaf = (ptype rootp = P_LDUP \<or> ptype rootp = P_LBTREE);
          e = io E (tick s)
      in if (inner \<or> leaf) \<and> t = B_KEYDATA then
           (if e \<noteq> 0 then Some (tock s, c, Inl e) else Some (tock s, c, Inr (B_KEYDATA, if inner then bi_data m p else bk_data m p)))
         else if inner \<and> t = B_OVERFLOW then
           Some (s, c, Inr (B_OVERFLOW, boverflow B_OVERFLOW (bo_pgno m (p + 12)) (bo_tlen m (p + 12))))
         else if leaf \<and> t = B_OVERFLOW then
           (case db_goff E s c no_dbt (bo_tlen m p) (bo_pgno m p) (Some []) of
              None \<Rightarrow> None
            | Some (s1, e, hdr, buf, c1) \<Rightarrow>
                if e \<noteq> 0 then Some (s1, c1, Inl e)
                else (case db_poff E s1 c1 hdr False PGNO_INVALID of (s2, e, c2, n) \<Rightarrow>
                        if e \<noteq> 0 then Some (s2, c2, Inl e)
                        else Some (s2, c2, Inr (B_OVERFLOW, boverflow B_OVERFLOW n (bo_tlen m p)))))
         else Some (s, c, Inl DB_RUNRECOVERY))"

text \<open>The root page with its two entries.\<close>

definition root_page :: "dbh \<Rightarrow> page \<Rightarrow> u32 \<Rightarrow> byte \<Rightarrow> u32 \<Rightarrow> u32 \<Rightarrow> byte \<Rightarrow> byte list \<Rightarrow> page \<times> int" where
  "root_page d rootp root lv ln rn ty dat =
     (let q = P_INIT rootp (pgsize d) root PGNO_INVALID PGNO_INVALID (lv + 1) P_IBTREE in
      case db_pitem_nolog d q 0 (BINTERNAL_SIZE 0) (Some (binternal B_KEYDATA 0 ln 0)) None of
        None \<Rightarrow> (q, 22)
      | Some q1 \<Rightarrow>
          (case db_pitem_nolog d q1 1 (BINTERNAL_SIZE (length dat)) (Some (binternal ty (length dat) rn 0)) (Some dat) of
             None \<Rightarrow> (q1, 22)
           | Some q2 \<Rightarrow> (q2, 0)))"

definition bam_broot ::
    "penv \<Rightarrow> pager \<Rightarrow> stream \<Rightarrow> u32 \<Rightarrow> u32 \<Rightarrow> nat \<Rightarrow> u32 \<Rightarrow> u32 \<Rightarrow> (pager \<times> stream \<times> int) option" where
  "bam_broot E s c root n split ln rn =
     (case root_entry E s c (pg_of s n) split of
        None \<Rightarrow> None
      | Some (s1, c1, Inl e) \<Rightarrow> Some (s1, c1, e)
      | Some (s1, c1, Inr (ty, dat)) \<Rightarrow>
          (case root_page (pdb E) (pg_of s1 n) root (level (pg_of s1 ln)) ln rn ty dat of
             (q, e) \<Rightarrow> Some (upd_pg s1 n (\<lambda>_. q), c1, e)))"

subsection \<open>Splitting the root\<close>

definition MAXBTREELEVEL :: nat where "MAXBTREELEVEL = 255"

text \<open>The label \<open>err\<close>: the pages that are held are given back.\<close>

definition give_back :: "penv \<Rightarrow> pager \<Rightarrow> u32 option \<Rightarrow> int \<Rightarrow> pager \<times> int" where
  "give_back E s h ret =
     (case h of None \<Rightarrow> (s, ret) | Some n \<Rightarrow> (case memp_fput E s n of (s1, t) \<Rightarrow> (s1, keep ret t)))"

definition root_err ::
    "penv \<Rightarrow> pager \<Rightarrow> stream \<Rightarrow> u32 option \<Rightarrow> u32 option \<Rightarrow> u32 option \<Rightarrow> int \<Rightarrow> (pager \<times> stream \<times> int) option" where
  "root_err E s c h lp rp ret =
     (case give_back E s h ret of (s1, r1) \<Rightarrow>
      case give_back E s1 lp r1 of (s2, r2) \<Rightarrow>
      case give_back E s2 rp r2 of (s3, r3) \<Rightarrow> Some (s3, c, r3))"

text \<open>The log record; when it cannot be written, the root gets its old contents back.\<close>

definition root_log :: "penv \<Rightarrow> pager \<Rightarrow> u32 \<Rightarrow> u32 \<Rightarrow> u32 \<Rightarrow> page \<Rightarrow> pager \<times> int" where
  "root_log E s n ln rn old =
     (case log_put E s of (s1, e, l) \<Rightarrow>
        if e \<noteq> 0 then (upd_pg s1 n (\<lambda>_. old), e)
        else (upd_pg (upd_pg (upd_pg s1 n (\<lambda>p. p\<lparr>lsn := l\<rparr>)) ln (\<lambda>p. p\<lparr>lsn := l\<rparr>)) rn (\<lambda>p. p\<lparr>lsn := l\<rparr>), 0))"

text \<open>The two new pages, and their place in the chain of leaves.\<close>

definition root_parts :: "penv \<Rightarrow> pager \<Rightarrow> u32 \<Rightarrow> u32 \<Rightarrow> u32 \<Rightarrow> pager" where
  "root_parts E s n ln rn =
     (let h = pg_of s n; inner = (ptype h = P_IBTREE \<or> ptype h = P_IRECNO); sz = pgsize (pdb E);
          s1 = upd_pg s ln (\<lambda>p. P_INIT p sz (pgno p) PGNO_INVALID (if inner then PGNO_INVALID else pgno (pg_of s rn)) (level h) (ptype h))
      in upd_pg s1 rn (\<lambda>p. P_INIT p sz (pgno p) (if inner then PGNO_INVALID else pgno (pg_of s1 ln)) PGNO_INVALID (level h) (ptype h)))"

text \<open>
  The root \<open>n\<close> is held, \<open>indx\<close> is where the item goes that does not fit.  A tree that is too high leaves the
  root held.
\<close>

definition bam_root :: "penv \<Rightarrow> pager \<Rightarrow> stream \<Rightarrow> u32 \<Rightarrow> u32 \<Rightarrow> nat \<Rightarrow> (pager \<times> stream \<times> int) option" where
  "bam_root E s c root n indx =
     (if unat (level (pg_of s n)) \<ge> MAXBTREELEVEL then Some (s, c, ENOSPC)
      else case memp_dirty E s n of (s1, e, gone) \<Rightarrow>
        if e \<noteq> 0 then root_err E s1 c (if gone then None else Some n) None None e
        else case db_new E s1 (ptype (pg_of s1 n)) False of
          (s2, e, None) \<Rightarrow> root_err E s2 c (Some n) None None e
        | (s2, e, Some ln) \<Rightarrow>
            if e \<noteq> 0 then root_err E s2 c (Some n) (Some ln) None e
            else case db_new E s2 (ptype (pg_of s2 n)) False of
              (s3, e, None) \<Rightarrow> root_err E s3 c (Some n) (Some ln) None e
            | (s3, e, Some rn) \<Rightarrow>
                let done = (\<lambda>s c e. root_err E s c (Some n) (Some ln) (Some rn) e); s4 = root_parts E s3 n ln rn in
                if e \<noteq> 0 then done s3 c e
                else case bam_psplit (pdb E) (pg_of s4 n) indx (pg_of s4 ln) (pg_of s4 rn) of
                  None \<Rightarrow> None
                | Some (Fail e) \<Rightarrow> done s4 c e
                | Some (Done (lp, rp, split)) \<Rightarrow>
                    let s5 = upd_pg (upd_pg s4 ln (\<lambda>_. lp)) rn (\<lambda>_. rp); old = pg_of s5 n;
                        s6 = (if logging E then tock s5 else s5) in
                    if logging E \<and> io E (tick s5) \<noteq> 0 then done s6 c (io E (tick s5))
                    else case bam_broot E s6 c root n split ln rn of
                      None \<Rightarrow> None
                    | Some (s7, c1, e) \<Rightarrow>
                        if e \<noteq> 0 then done s7 c1 e
                        else case root_log E s7 n ln rn old of (s8, e) \<Rightarrow> done s8 c1 e)"

section \<open>The new root\<close>

text \<open>An item of an internal page with a key on the page.\<close>

definition int_item :: "byte list \<Rightarrow> byte list \<Rightarrow> bool" where
  "int_item k it \<longleftrightarrow> length k + 15 < 65536 \<and> length it = BINTERNAL_SIZE (length k) \<and> take 2 it = le_enc 2 (length k)
     \<and> it ! 2 = B_KEYDATA \<and> take (length k) (drop 12 it) = k"

lemma BINTERNAL_SIZE_bounds:
  assumes "n + 15 < 65536"
  shows "n + 12 \<le> BINTERNAL_SIZE n" "BINTERNAL_SIZE n < n + 16" "0 < BINTERNAL_SIZE n"
proof -
  have "BINTERNAL_SIZE n = (n + 15) div 4 * 4" using assms by (simp add: BINTERNAL_SIZE_def)
  then show "n + 12 \<le> BINTERNAL_SIZE n" "BINTERNAL_SIZE n < n + 16" "0 < BINTERNAL_SIZE n" by presburger+
qed

lemma int_itemD: "int_item k it \<Longrightarrow> 12 + length k \<le> length it"
  using BINTERNAL_SIZE_bounds(1) [of "length k"] by (simp add: int_item_def)

lemma int_item_read:
  assumes "holds d h items" "i < length items" "int_item k (items ! i)"
  shows "bk_len (mem h) (inp d (mem h) i) = length k" "bk_type (mem h) (inp d (mem h) i) = B_KEYDATA"
    "bi_data (mem h) (inp d (mem h) i) = k" "bi_pgno (mem h) (inp d (mem h) i) = u32_at (items ! i) 4"
    "bi_bytes d h i = length (items ! i)"
proof -
  have n: "length k < 65536" and l: "12 + length k \<le> length (items ! i)" using assms(3) int_itemD by (auto simp: int_item_def)
  note r = holds_read [OF assms(1,2)]
  show len: "bk_len (mem h) (inp d (mem h) i) = length k"
    using r [of 0 2] assms(3) l le_dec_enc2 [OF n] by (simp add: bk_len_def int_item_def)
  show ty: "bk_type (mem h) (inp d (mem h) i) = B_KEYDATA"
    using holds_nth [OF assms(1,2), of 2] assms(3) l by (simp add: bk_type_def int_item_def)
  show "bi_data (mem h) (inp d (mem h) i) = k" using r [of 12 "length k"] assms(3) l by (simp add: bi_data_def len int_item_def)
  show "bi_pgno (mem h) (inp d (mem h) i) = u32_at (items ! i) 4"
    using r [of 4 4] l by (simp add: bi_pgno_def u32_at_def buf_read_def)
  show "bi_bytes d h i = length (items ! i)" using assms(3) by (simp add: bi_bytes_def Let_def len ty int_item_def)
qed

lemma le4: "length (le_enc 4 v) = 4" "length (le_enc 2 v) = 2" by simp_all

text \<open>The items that the code makes.\<close>

lemma int_item_new:
  assumes "length k + 15 < 65536" "length it = BINTERNAL_SIZE (length k)" "take (12 + length k) it = binternal B_KEYDATA (length k) n r @ k"
  shows "int_item k it" "u32_at it 4 = n"
proof -
  let ?w = "binternal B_KEYDATA (length k) n r @ k"
  have l: "12 + length k \<le> length it" using BINTERNAL_SIZE_bounds(1) [OF assms(1)] assms(2) by simp
  have e: "le_enc 2 (length k) = [word_of_nat (length k mod 256), word_of_nat (length k div 256 mod 256)]" by (rule le_enc2)
  have t: "take 2 it = take 2 ?w" "it ! 2 = ?w ! 2" "take (length k) (drop 12 it) = drop 12 ?w" "take 4 (drop 4 it) = take 4 (drop 4 ?w)"
    unfolding assms(3) [symmetric] using l by (simp_all add: drop_take take_drop [symmetric] min_def)
  show "int_item k it" unfolding int_item_def t using assms(1,2) by (simp add: binternal_def e)
  have "take 4 (drop 4 it) = le_enc 4 (unat n)" unfolding t(4) by (simp add: binternal_def e)
  moreover have "unat n < 256 ^ 4" using unsigned_less [of n] by simp
  ultimately show "u32_at it 4 = n" by (simp add: u32_at_def buf_read_def le_dec_enc)
qed

definition two_entries :: "dbh \<Rightarrow> page \<Rightarrow> u32 \<Rightarrow> u32 \<Rightarrow> byte list \<Rightarrow> bool" where
  "two_entries d q ln rn k \<longleftrightarrow>
     (\<exists>e0 e1. holds d q [e0, e1] \<and> int_item [] e0 \<and> int_item k e1 \<and> u32_at e0 4 = ln \<and> u32_at e1 4 = rn)"

lemma root_page_entries:
  assumes "length (mem rootp) = pgsize d" "pgsize d < 65536" "length k + 15 < 65536"
    and room: "P_OVERHEAD d + 16 + BINTERNAL_SIZE (length k) \<le> pgsize d"
  shows "\<exists>q. root_page d rootp root lv ln rn B_KEYDATA k = (q, 0) \<and> two_entries d q ln rn k
    \<and> ptype q = P_IBTREE \<and> level q = lv + 1 \<and> pgno q = root"
proof -
  let ?i = "P_INIT rootp (pgsize d) root PGNO_INVALID PGNO_INVALID (lv + 1) P_IBTREE"
  have h0: "holds d ?i []" using holds_init [of rootp d] assms(1,2) room by simp
  have b0: "BINTERNAL_SIZE 0 = 12" by (simp add: BINTERNAL_SIZE_def)
  have r0: "P_OVERHEAD d + 2 * length ([] :: byte list list) + 2 + BINTERNAL_SIZE 0 \<le> unat (hf_offset ?i)"
    using used_room [OF h0, of "2 + BINTERNAL_SIZE 0"] room by (simp add: page_used_def b0)
  let ?h0 = "binternal B_KEYDATA 0 ln 0" and ?h1 = "binternal B_KEYDATA (length k) rn 0"
  obtain q1 where q1: "db_pitem_nolog d ?i 0 (BINTERNAL_SIZE 0) (Some ?h0) None = Some q1"
    "holds d q1 [new_item ?i (BINTERNAL_SIZE 0) (?h0 @ [])]"
    using pitem_refines [OF h0 _ r0 _ refl refl, of 0 None "Some ?h0"] by (auto simp: b0)
  define e0 where "e0 = new_item ?i (BINTERNAL_SIZE 0) (?h0 @ [])"
  have e0: "length e0 = 12" "take 12 e0 = ?h0"
    using holdsD(1,5) [OF h0] r0 by (auto simp: e0_def new_item_def b0)
  have r1: "P_OVERHEAD d + 2 * length [e0] + 2 + BINTERNAL_SIZE (length k) \<le> unat (hf_offset q1)"
    using used_room [OF q1(2) [folded e0_def], of "2 + BINTERNAL_SIZE (length k)"] room e0(1) by (simp add: page_used_def)
  note bb = BINTERNAL_SIZE_bounds [OF assms(3)]
  obtain q2 where q2: "db_pitem_nolog d q1 1 (BINTERNAL_SIZE (length k)) (Some ?h1) (Some k) = Some q2"
    "holds d q2 (take 1 [e0] @ new_item q1 (BINTERNAL_SIZE (length k)) (?h1 @ k) # drop 1 [e0])"
    using pitem_refines [OF q1(2) [folded e0_def] _ r1 bb(3) refl refl, of 1 "Some k" "Some ?h1"] bb(1) by auto
  define e1 where "e1 = new_item q1 (BINTERNAL_SIZE (length k)) (?h1 @ k)"
  have e1: "length e1 = BINTERNAL_SIZE (length k)" "take (12 + length k) e1 = ?h1 @ k"
    using holdsD(1,5) [OF q1(2)] r1 bb(1) by (auto simp: e1_def new_item_def)
  have "two_entries d q2 ln rn k"
    unfolding two_entries_def using q2(2) int_item_new [of "[]" e0 ln 0] e0 int_item_new [OF assms(3) e1]
    by (intro exI [of _ e0] exI [of _ e1]) (simp add: e1_def b0)
  moreover have "root_page d rootp root lv ln rn B_KEYDATA k = (q2, 0)" by (simp add: root_page_def Let_def q1(1) q2(1) [unfolded One_nat_def])
  moreover have "ptype ?i = P_IBTREE" "level ?i = lv + 1" "pgno ?i = root" by (simp_all add: P_INIT_def)
  ultimately show ?thesis using pitem_head [OF q1(1)] pitem_head [OF q2(1)] by (auto simp: same_head_def)
qed

section \<open>Splitting the root\<close>

lemma set_page:
  assumes "pager_ok E fs s" "n \<in> in_use fs s" "pages u = (pages s)(n \<mapsto> q)" "m_free u = m_free s" "m_last u = m_last s"
    and "pgno q = n" "length (mem q) = pgsize (pdb E)"
  shows "pager_ok E fs u \<and> in_use fs u = in_use fs s"
proof -
  let ?f = "\<lambda>p. q\<lparr>pgno := pgno p\<rparr>"
  obtain pg where pg: "pages s n = Some pg" using assms(2) by (auto simp: in_use_def)
  then have ok: "pgno pg = n" "length (mem pg) = pgsize (pdb E)" using assms(1) by (auto simp: pager_ok_def)
  have "q\<lparr>pgno := n\<rparr> = q" unfolding assms(6) [symmetric] by simp
  then have sp: "same_pages (upd_pg s n ?f) u" using assms(3-5) ok(1) pg by (simp add: same_pages_def pg_of_def)
  have "pager_ok E fs (upd_pg s n ?f) \<and> in_use fs (upd_pg s n ?f) = in_use fs s"
    using assms(7) ok(2) pg by (intro upd_in_use [OF assms(1,2)]) (simp_all add: pg_of_def)
  moreover have "in_use fs u = in_use fs (upd_pg s n ?f)" using sp by (simp add: same_pages_def in_use_def)
  ultimately show ?thesis using same_pages_ok [OF sp] by simp
qed

lemma db_new_fine:
  assumes io: "no_io_errors E" and ok: "pager_ok E fs s" "env_ok E" "m_last s + 1 \<noteq> 0"
  shows "\<exists>t n pg. db_new E s ty False = (t, 0, Some n) \<and> n \<notin> in_use fs s \<and> n \<noteq> 0 \<and> pages t = (pages s)(n \<mapsto> pg) \<and> new_one E ty n pg
    \<and> pager_ok E (drop 1 fs) t \<and> in_use (drop 1 fs) t = insert n (in_use fs s) \<and> unat (m_last t) \<le> unat (m_last s) + 1
    \<and> pins t = (pins s)(n := pins s n + 1) \<and> m_locks t = m_locks s"
proof -
  obtain t e r where t: "db_new E s ty False = (t, e, r)" by (cases "db_new E s ty False") auto
  have z: "put_io E k = 0" "io E k = 0" for k using io by (simp_all add: no_io_errors_def)
  have e: "e = 0" using db_new_calm [OF t ok(1) z] .
  from db_new_pages [OF t [unfolded e] ok] db_new_pins [OF t ok(1) z(1)] show ?thesis
    using t e by (auto simp: unat_succ [OF ok(3)] split: if_splits)
qed

lemma root_err_fine:
  assumes "\<And>k. put_io E k = 0"
  shows "\<exists>u. root_err E s c (Some n) (Some ln) (Some rn) e = Some (u, c, e) \<and> same_pages s u \<and> m_locks u = m_locks s
    \<and> pins u = (\<lambda>m. pins s m - (if m = n then 1 else 0) - (if m = ln then 1 else 0) - (if m = rn then 1 else 0))"
proof -
  obtain s1 e1 where 1: "memp_fput E s n = (s1, e1)" by fastforce
  obtain s2 e2 where 2: "memp_fput E s1 ln = (s2, e2)" by fastforce
  obtain s3 e3 where 3: "memp_fput E s2 rn = (s3, e3)" by fastforce
  note P = memp_fput_spec [OF 1] memp_fput_spec [OF 2] memp_fput_spec [OF 3]
  have e: "e1 = 0" "e2 = 0" "e3 = 0" using P assms by simp_all
  have "root_err E s c (Some n) (Some ln) (Some rn) e = Some (s3, c, e)"
    by (simp add: root_err_def give_back_def 1 2 3 e keep_def)
  moreover have "same_pages s s3" using P(1,6,11) by (blast intro: same_pages_trans)
  ultimately show ?thesis using P(2,3,7,8,12,13) e by auto
qed

text \<open>The key that separates the parts of a page at an index.\<close>

definition entry_key :: "dbh \<Rightarrow> page \<Rightarrow> nat \<Rightarrow> byte list" where
  "entry_key d h i = (let p = inp d (mem h) i in if ptype h = P_IBTREE then bi_data (mem h) p else bk_data (mem h) p)"

text \<open>A page that can be a root with two halves: its keys are on the page, and short.\<close>

definition parted :: "dbh \<Rightarrow> page \<Rightarrow> byte list list \<Rightarrow> bool" where
  "parted d h items \<longleftrightarrow>
     holds d h items \<and> sized d h items \<and> (ptype h = P_IBTREE \<or> ptype h = P_LBTREE) \<and> adjust_of h dvd length items
   \<and> 2 * adjust_of h \<le> length items
   \<and> (\<forall>i<length items. 0 < i \<longrightarrow> adjust_of h dvd i \<longrightarrow> plain_item d h i \<and> length (entry_key d h i) + 15 < 65536
        \<and> P_OVERHEAD d + 16 + BINTERNAL_SIZE (length (entry_key d h i)) \<le> pgsize d)"

text \<open>Two pages that hold the items of a page before and from an index.\<close>

definition parts :: "dbh \<Rightarrow> page \<Rightarrow> byte list list \<Rightarrow> nat \<Rightarrow> page \<Rightarrow> page \<Rightarrow> bool" where
  "parts d h items split lp rp \<longleftrightarrow>
     adjust_of h dvd split \<and> 0 < split \<and> split < length items
   \<and> holds d lp (take split items) \<and> ptype lp = ptype h \<and> level lp = level h
   \<and> holds d rp (part h split (drop split items)) \<and> ptype rp = ptype h \<and> level rp = level h"

text \<open>Two leaves that are linked to each other only.\<close>

definition paired :: "u32 \<Rightarrow> u32 \<Rightarrow> page \<Rightarrow> page \<Rightarrow> bool" where
  "paired ln rn lp rp \<longleftrightarrow> prev_pgno lp = PGNO_INVALID \<and> next_pgno lp = rn \<and> prev_pgno rp = ln \<and> next_pgno rp = PGNO_INVALID"

definition halves :: "dbh \<Rightarrow> page \<Rightarrow> byte list list \<Rightarrow> nat \<Rightarrow> u32 \<Rightarrow> u32 \<Rightarrow> page \<Rightarrow> page \<Rightarrow> page \<Rightarrow> bool" where
  "halves d h items split ln rn lp rp q \<longleftrightarrow>
     parts d h items split lp rp \<and> pgno lp = ln \<and> pgno rp = rn \<and> (ptype h = P_LBTREE \<longrightarrow> paired ln rn lp rp)
   \<and> two_entries d q ln rn (entry_key d h split) \<and> ptype q = P_IBTREE \<and> level q = level h + 1 \<and> pgno q = pgno h"

lemma two_entries_lsn [simp]: "two_entries d (q\<lparr>lsn := l\<rparr>) ln rn k = two_entries d q ln rn k"
  by (simp add: two_entries_def)

lemma broot_halves:
  assumes io: "no_io_errors E" and h: "parted (pdb E) (pg_of s n) items" and d: "pgsize (pdb E) < 65536"
    and k: "adjust_of (pg_of s n) dvd k" "0 < k" "k < length items" and lv: "level (pg_of s ln) = level (pg_of s n)"
  shows "\<exists>u q. bam_broot E s c root n k ln rn = Some (u, c, 0) \<and> pages u = (pages s)(n \<mapsto> q)
    \<and> m_free u = m_free s \<and> m_last u = m_last s \<and> pins u = pins s \<and> m_locks u = m_locks s
    \<and> two_entries (pdb E) q ln rn (entry_key (pdb E) (pg_of s n) k) \<and> ptype q = P_IBTREE \<and> level q = level (pg_of s n) + 1 \<and> pgno q = root"
proof -
  let ?h = "pg_of s n" and ?key = "entry_key (pdb E) (pg_of s n) k"
  have p: "plain_item (pdb E) ?h k" "length ?key + 15 < 65536" "P_OVERHEAD (pdb E) + 16 + BINTERNAL_SIZE (length ?key) \<le> pgsize (pdb E)"
    and ty: "ptype ?h = P_IBTREE \<or> ptype ?h = P_LBTREE" and hh: "holds (pdb E) ?h items" using h k by (auto simp: parted_def)
  have re: "root_entry E s c ?h k = Some (tock s, c, Inr (B_KEYDATA, ?key))"
    using p(1) ty io by (auto simp: root_entry_def Let_def plain_item_def entry_key_def no_io_errors_def)
  have "pg_of (tock s) n = ?h" "level (pg_of (tock s) ln) = level ?h" using lv by (simp_all add: pg_of_def)
  with root_page_entries [OF holdsD(1) [OF hh] d p(2,3), of root "level ?h" ln rn] show ?thesis
    unfolding bam_broot_def re by auto
qed

lemma root_log_fine:
  assumes "no_io_errors E"
  shows "\<exists>u l. root_log E s n ln rn old = (u, 0) \<and> m_free u = m_free s \<and> m_last u = m_last s \<and> pins u = pins s \<and> m_locks u = m_locks s
    \<and> pages u = pages (upd_pg (upd_pg (upd_pg s n (\<lambda>p. p\<lparr>lsn := l\<rparr>)) ln (\<lambda>p. p\<lparr>lsn := l\<rparr>)) rn (\<lambda>p. p\<lparr>lsn := l\<rparr>))"
proof -
  obtain s1 e l where 1: "log_put E s = (s1, e, l)" by (cases "log_put E s") auto
  note L = log_put_spec [OF 1]
  have e: "e = 0" using L(5) assms by (simp add: no_io_errors_def)
  let ?f = "\<lambda>s. upd_pg (upd_pg (upd_pg s n (\<lambda>p. p\<lparr>lsn := l\<rparr>)) ln (\<lambda>p. p\<lparr>lsn := l\<rparr>)) rn (\<lambda>p. p\<lparr>lsn := l\<rparr>)"
  have s1: "pages s1 = pages s" "m_free s1 = m_free s" "m_last s1 = m_last s" using L(1) by (simp_all add: same_pages_def)
  then have "pages (?f s1) = pages (?f s)" by (simp add: pg_of_def)
  moreover have "root_log E s n ln rn old = (?f s1, 0)" using e by (simp add: root_log_def 1)
  ultimately show ?thesis using s1 L(2,3) by (intro exI [of _ "?f s1"] exI [of _ l]) simp
qed

lemma pg_of_upd: "pg_of (upd_pg s m f) k = (if k = m then f (pg_of s m) else pg_of s k)"
  by (simp add: pg_of_def)

lemma root_parts_pages:
  assumes "n \<noteq> ln" "n \<noteq> rn" "ln \<noteq> rn" "new_one E ty ln a" "new_one E ty' rn b" "pages s ln = Some a" "pages s rn = Some b" "env_ok E"
    and u: "u = root_parts E s n ln rn"
  shows "\<exists>lp rp. pages u = (pages s)(ln \<mapsto> lp, rn \<mapsto> rp) \<and> m_free u = m_free s \<and> m_last u = m_last s \<and> pins u = pins s \<and> m_locks u = m_locks s
    \<and> holds (pdb E) lp [] \<and> ptype lp = ptype (pg_of s n) \<and> level lp = level (pg_of s n) \<and> pgno lp = ln
    \<and> holds (pdb E) rp [] \<and> ptype rp = ptype (pg_of s n) \<and> level rp = level (pg_of s n) \<and> pgno rp = rn
    \<and> (ptype (pg_of s n) = P_LBTREE \<longrightarrow> paired ln rn lp rp)"
proof -
  have d: "pgsize (pdb E) < 65536" "P_OVERHEAD (pdb E) \<le> pgsize (pdb E)" using assms(8) by (auto simp: env_ok_def)
  have ab: "length (mem a) = pgsize (pdb E)" "pgno a = ln" "length (mem b) = pgsize (pdb E)" "pgno b = rn"
    using assms(4,5) by (auto simp: new_one_def)
  have P: "pg_of s ln = a" "pg_of s rn = b" using assms(6,7) by (simp_all add: pg_of_def)
  have g: "ptype (P_INIT p z x y w lv t) = t" "level (P_INIT p z x y w lv t) = lv" "pgno (P_INIT p z x y w lv t) = x"
    "prev_pgno (P_INIT p z x y w lv t) = y" "next_pgno (P_INIT p z x y w lv t) = w" for p z x y w lv t
    by (simp_all add: P_INIT_def)
  let ?inner = "ptype (pg_of s n) = P_IBTREE \<or> ptype (pg_of s n) = P_IRECNO"
  let ?lp = "P_INIT a (pgsize (pdb E)) ln PGNO_INVALID (if ?inner then PGNO_INVALID else rn) (level (pg_of s n)) (ptype (pg_of s n))"
  let ?rp = "P_INIT b (pgsize (pdb E)) rn (if ?inner then PGNO_INVALID else ln) PGNO_INVALID (level (pg_of s n)) (ptype (pg_of s n))"
  have "pages u = (pages s)(ln \<mapsto> ?lp, rn \<mapsto> ?rp)"
    unfolding u root_parts_def Let_def using assms(3) by (simp add: pg_of_upd P ab g)
  moreover have "m_free u = m_free s" "m_last u = m_last s" "pins u = pins s" "m_locks u = m_locks s"
    by (simp_all add: u root_parts_def Let_def)
  ultimately show ?thesis
    using holds_init [OF ab(1) d] holds_init [OF ab(3) d] by (rule_tac x = ?lp in exI, rule_tac x = ?rp in exI) (simp add: g paired_def)
qed

lemma pager_pgno: "pager_ok E fs s \<Longrightarrow> n \<in> in_use fs s \<Longrightarrow> pgno (pg_of s n) = n"
  by (auto simp: pager_ok_def in_use_def pg_of_def)

lemma bam_root_run:
  assumes io: "no_io_errors E" and ok: "pager_ok E fs s" "env_ok E" and n: "n \<in> in_use fs s"
    and lim: "unat (m_last s) + 2 < 2 ^ 32" "unat (level (pg_of s n)) < MAXBTREELEVEL"
    and h: "parted (pdb E) (pg_of s n) items"
  shows "\<exists>u split ln rn lp rp q. bam_root E s c n n indx = Some (u, c, 0)
    \<and> halves (pdb E) (pg_of s n) items split ln rn lp rp q
    \<and> ln \<noteq> rn \<and> ln \<notin> in_use fs s \<and> rn \<notin> in_use fs s \<and> pages u = (pages s)(ln \<mapsto> lp, rn \<mapsto> rp, n \<mapsto> q)
    \<and> pager_ok E (drop 2 fs) u \<and> in_use (drop 2 fs) u = insert ln (insert rn (in_use fs s))
    \<and> pins u = (pins s)(n := pins s n - 1) \<and> m_locks u = m_locks s"
proof -
  let ?h = "pg_of s n" and ?d = "pdb E"
  have d: "pgsize ?d < 65536" using ok(2) by (simp add: env_ok_def)
  have z: "put_io E k = 0" "io E k = 0" for k using io by (simp_all add: no_io_errors_def)
  obtain s1 e1 g where 1: "memp_dirty E s n = (s1, e1, g)" by (cases "memp_dirty E s n") auto
  note D = memp_dirty_spec [OF 1]
  have e1: "e1 = 0" "\<not> g" using D(4,6) z by auto
  have s1: "pages s1 = pages s" "m_last s1 = m_last s" "in_use fs s1 = in_use fs s" "pager_ok E fs s1" "pins s1 = pins s" "m_locks s1 = m_locks s"
    using D(1-3) e1 same_pages_ok [OF D(1)] ok(1) by (simp_all add: same_pages_def in_use_def)
  have "m_last s + 1 \<noteq> 0" using lim(1) by (intro succ_nonzero) simp
  then obtain s2 ln a where 2: "db_new E s1 (ptype ?h) False = (s2, 0, Some ln)" "ln \<notin> in_use fs s" "pages s2 = (pages s)(ln \<mapsto> a)"
    "new_one E (ptype ?h) ln a" "pager_ok E (drop 1 fs) s2" "in_use (drop 1 fs) s2 = insert ln (in_use fs s)"
    "unat (m_last s2) \<le> unat (m_last s) + 1" "pins s2 = (pins s)(ln := pins s ln + 1)" "m_locks s2 = m_locks s"
    using db_new_fine [OF io s1(4) ok(2), of "ptype ?h"] s1 by auto
  have "m_last s2 + 1 \<noteq> 0" using lim(1) 2(7) by (intro succ_nonzero) simp
  then obtain s3 rn b where 3: "db_new E s2 (ptype ?h) False = (s3, 0, Some rn)" "rn \<notin> insert ln (in_use fs s)" "pages s3 = (pages s)(ln \<mapsto> a, rn \<mapsto> b)"
    "new_one E (ptype ?h) rn b" "pager_ok E (drop 2 fs) s3" "in_use (drop 2 fs) s3 = insert rn (insert ln (in_use fs s))"
    "pins s3 = (pins s)(ln := pins s ln + 1, rn := pins s rn + 1)" "m_locks s3 = m_locks s"
    using db_new_fine [OF io 2(5) ok(2), of "ptype ?h"] 2 by (auto simp: numeral_2_eq_2)
  have ne: "n \<noteq> ln" "n \<noteq> rn" "ln \<noteq> rn" using n 2(2) 3(2) by auto
  have P3: "pg_of s1 n = ?h" "pg_of s2 n = ?h" "pg_of s3 n = ?h" using ne by (simp_all add: pg_of_def s1 2(3) 3(3))
  define s4 where "s4 = root_parts E s3 n ln rn"
  obtain l0 r0 where 4: "pages s4 = (pages s3)(ln \<mapsto> l0, rn \<mapsto> r0)" "m_free s4 = m_free s3" "m_last s4 = m_last s3" "pins s4 = pins s3" "m_locks s4 = m_locks s3"
    "holds ?d l0 []" "ptype l0 = ptype ?h" "level l0 = level ?h" "pgno l0 = ln"
    "holds ?d r0 []" "ptype r0 = ptype ?h" "level r0 = level ?h" "pgno r0 = rn"
    "ptype ?h = P_LBTREE \<longrightarrow> paired ln rn l0 r0"
    using root_parts_pages [OF ne 2(4) 3(4) _ _ ok(2) s4_def] 3(3) ne(3) P3(3) by auto
  have P4: "pg_of s4 n = ?h" "pg_of s4 ln = l0" "pg_of s4 rn = r0" using ne by (simp_all add: pg_of_def 4(1) 3(3))
  have hh: "holds ?d ?h items" "sized ?d ?h items" "split_type ?h" "adjust_of ?h dvd length items" "2 * adjust_of ?h \<le> length items"
    using h by (auto simp: parted_def split_type_def)
  obtain k lp rp where 5: "bam_psplit ?d ?h indx l0 r0 = Some (Done (lp, rp, k))" "adjust_of ?h dvd k" "0 < k" "k < length items"
    "holds ?d lp (take k items)" "holds ?d rp (part ?h k (drop k items))" "same_head l0 lp" "same_head r0 rp"
    using psplit_parts [OF hh 4(6,10)] by blast
  define s5 where "s5 = upd_pg (upd_pg s4 ln (\<lambda>_. lp)) rn (\<lambda>_. rp)"
  define s6 where "s6 = (if logging E then tock s5 else s5)"
  have s6: "pages s6 = (pages s3)(ln \<mapsto> lp, rn \<mapsto> rp)" "m_free s6 = m_free s3" "m_last s6 = m_last s3" "pins s6 = pins s3" "m_locks s6 = m_locks s3"
    using 4(1-5) by (auto simp: s6_def s5_def fun_upd_twist)
  have P6: "pg_of s6 n = ?h" "level (pg_of s6 ln) = level ?h"
    using ne 5(7) 4(8) by (simp_all add: pg_of_def s6(1) 3(3) same_head_def)
  from broot_halves [OF io, of s6 n items k ln c n rn] h d 5(2-4) P6 obtain s7 q where
    7: "bam_broot E s6 c n n k ln rn = Some (s7, c, 0)" "pages s7 = (pages s6)(n \<mapsto> q)" "m_free s7 = m_free s6" "m_last s7 = m_last s6"
    "pins s7 = pins s6" "m_locks s7 = m_locks s6" "two_entries ?d q ln rn (entry_key ?d ?h k)" "ptype q = P_IBTREE" "level q = level ?h + 1" "pgno q = n"
    by auto
  obtain s8 l where 8: "root_log E s7 n ln rn (pg_of s5 n) = (s8, 0)" "m_free s8 = m_free s7" "m_last s8 = m_last s7" "pins s8 = pins s7"
    "m_locks s8 = m_locks s7" "pages s8 = pages (upd_pg (upd_pg (upd_pg s7 n (\<lambda>p. p\<lparr>lsn := l\<rparr>)) ln (\<lambda>p. p\<lparr>lsn := l\<rparr>)) rn (\<lambda>p. p\<lparr>lsn := l\<rparr>))"
    using root_log_fine [OF io] by blast
  obtain u where 9: "root_err E s8 c (Some n) (Some ln) (Some rn) 0 = Some (u, c, 0)" "same_pages s8 u" "m_locks u = m_locks s8"
    "pins u = (\<lambda>m. pins s8 m - (if m = n then 1 else 0) - (if m = ln then 1 else 0) - (if m = rn then 1 else 0))"
    using root_err_fine [OF z(1)] by blast
  have run: "bam_root E s c n n indx = Some (u, c, 0)"
    using lim(2) unfolding bam_root_def 1 prod.case e1 P3 2(1) 3(1) option.case s4_def [symmetric] Let_def P4 5(1) res.case
      s5_def [symmetric] s6_def [symmetric] 7(1) 8(1) 9(1) by (simp add: z)
  define Q where "Q = q\<lparr>lsn := l\<rparr>" define LP where "LP = lp\<lparr>lsn := l\<rparr>" define RP where "RP = rp\<lparr>lsn := l\<rparr>"
  have pu: "pages u = (pages s)(ln \<mapsto> LP, rn \<mapsto> RP, n \<mapsto> Q)"
    using 9(2) ne by (auto simp: same_pages_def 8(6) 7(2) s6(1) 3(3) pg_of_def Q_def LP_def RP_def)
  have hv: "halves ?d ?h items k ln rn LP RP Q"
    using 4(7-9,11-13) 5 7(7-10) pager_pgno [OF ok(1) n] 4(14)
    unfolding Q_def LP_def RP_def halves_def parts_def by (simp add: same_head_def paired_def)
  have mm: "length (mem LP) = pgsize ?d" "length (mem RP) = pgsize ?d" "length (mem Q) = pgsize ?d" "pgno LP = ln" "pgno RP = rn" "pgno Q = n"
    using hv holdsD(1) pager_pgno [OF ok(1) n] by (auto simp: halves_def parts_def two_entries_def)
  let ?x1 = "upd_pg s3 ln (\<lambda>_. LP)" let ?x2 = "upd_pg ?x1 rn (\<lambda>_. RP)"
  have x1: "pager_ok E (drop 2 fs) ?x1 \<and> in_use (drop 2 fs) ?x1 = in_use (drop 2 fs) s3"
    using mm 3(6) by (intro set_page [OF 3(5)]) auto
  have x2: "pager_ok E (drop 2 fs) ?x2 \<and> in_use (drop 2 fs) ?x2 = in_use (drop 2 fs) s3"
    using mm x1 3(6) set_page [OF conjunct1 [OF x1], of rn ?x2 RP] by auto
  have "pager_ok E (drop 2 fs) u \<and> in_use (drop 2 fs) u = in_use (drop 2 fs) s3"
    using mm x2 3(6) n set_page [OF conjunct1 [OF x2], of n u Q] 9(2) 8(2,3) 7(3,4) s6(2,3) by (auto simp: pu 3(3) same_pages_def)
  moreover have "pins u = (pins s)(n := pins s n - 1)" using ne by (auto simp: 9(4) 8(4) 7(5) s6(4) 3(7))
  moreover have "m_locks u = m_locks s" by (simp add: 9(3) 8(5) 7(6) s6(5) 3(8))
  ultimately show ?thesis using run hv ne(3) 2(2) 3(2,6) pu
    by (intro exI [of _ u] exI [of _ k] exI [of _ ln] exI [of _ rn] exI [of _ LP] exI [of _ RP] exI [of _ Q]) auto
qed

section \<open>The tree with a split root\<close>

text \<open>A key that fits on a page of two entries.\<close>

definition short_key :: "dbh \<Rightarrow> byte list \<Rightarrow> bool" where
  "short_key d k \<longleftrightarrow> length k + 15 < 65536 \<and> P_OVERHEAD d + 16 + BINTERNAL_SIZE (length k) \<le> pgsize d"

text \<open>The internal pages hold items with keys on the page.\<close>

definition node_ok :: "dbh \<Rightarrow> page \<Rightarrow> bool" where
  "node_ok d h \<longleftrightarrow> (\<exists>items. holds d h items \<and> (\<forall>it \<in> set items. \<exists>k. int_item k it))"

fun bt_nodes :: "bt \<Rightarrow> u32 list" where
  "bt_nodes (Lf n ks) = []"
| "bt_nodes (Nd n ks ts) = n # concat (map bt_nodes ts)"

lemma bt_nodes_pages: "set (bt_nodes t) \<subseteq> set (bt_pages t)"
  by (induction t rule: bt_nodes.induct) auto

fun splittable :: "dbh \<Rightarrow> bt \<Rightarrow> bool" where
  "splittable d (Lf n ks) \<longleftrightarrow> 2 \<le> length ks \<and> (\<forall>k \<in> set ks. short_key d k)"
| "splittable d (Nd n ks ts) \<longleftrightarrow> 2 \<le> length ks \<and> (\<forall>k \<in> set (tl ks). short_key d k)"

lemma leaf_parted:
  assumes lr: "leaf_recs E s n rs" and n: "2 \<le> length rs" and sh: "\<forall>k \<in> set (map fst rs). short_key (pdb E) k"
  shows "\<exists>items. parted (pdb E) (pg_of s n) items \<and> pairs_ok E s items rs
    \<and> (\<forall>j<length rs. entry_key (pdb E) (pg_of s n) (2 * j) = fst (rs ! j))"
proof -
  let ?h = "pg_of s n" and ?d = "pdb E"
  obtain items where 1: "holds ?d ?h items" "pairs_ok E s items rs" and ty: "ptype ?h = P_LBTREE" using lr by (auto simp: leaf_recs_def)
  have l: "length items = 2 * length rs" using pairs_ok_length [OF 1(2)] .
  have ev: "bk_type (mem ?h) (inp ?d (mem ?h) (2 * j)) = B_KEYDATA \<and> bk_data (mem ?h) (inp ?d (mem ?h) (2 * j)) = fst (rs ! j)
      \<and> bk_bytes ?d ?h (2 * j) = length (items ! (2 * j))" if j: "j < length rs" for j
  proof -
    note b = pairs_ok_nth(1) [OF 1(2) j]
    have "2 * j < length items" using j l by simp
    from bk_item_read [OF 1(1) this b] b show ?thesis by (simp add: bk_bytes_def Let_def bk_item_def)
  qed
  have od: "bk_bytes ?d ?h (2 * j + 1) = length (items ! (2 * j + 1))" if j: "j < length rs" for j
  proof -
    have "B_OVERFLOW \<noteq> B_KEYDATA" "B_OVERFLOW \<noteq> B_BLOB" by (simp_all add: B_OVERFLOW_def B_KEYDATA_def B_BLOB_def)
    then show ?thesis using val_item_read [OF 1(1) pairs_ok_nth(3,2) [OF 1(2) j]]
      by (cases "snd (snd (rs ! j)) = []") (simp_all add: bk_bytes_def Let_def)
  qed
  have "bk_bytes ?d ?h i = length (items ! i)" if "i < length items" for i
  proof (cases "even i")
    case True
    then obtain j where "i = 2 * j" by (elim evenE)
    then show ?thesis using ev [of j] that l by auto
  next
    case False
    then obtain j where "i = 2 * j + 1" by (elim oddE)
    then show ?thesis using od [of j] that l by auto
  qed
  then have sz: "sized ?d ?h items" using ty by (simp add: sized_def copy_bytes_def)
  have ek: "entry_key ?d ?h (2 * j) = fst (rs ! j)" if "j < length rs" for j using ev [OF that] ty by (simp add: entry_key_def Let_def)
  have "plain_item ?d ?h i \<and> length (entry_key ?d ?h i) + 15 < 65536 \<and> P_OVERHEAD ?d + 16 + BINTERNAL_SIZE (length (entry_key ?d ?h i)) \<le> pgsize ?d"
    if i: "i < length items" "even i" for i
  proof -
    obtain j where j: "i = 2 * j" using i(2) by (elim evenE)
    then have j: "i = 2 * j" "j < length rs" using i(1) l by auto
    then have "fst (rs ! j) \<in> set (map fst rs)" by simp
    then have "short_key ?d (entry_key ?d ?h i)" using sh ek j by metis
    then show ?thesis using ev [OF j(2)] j(1) by (simp add: short_key_def plain_item_def)
  qed
  then have "parted ?d ?h items" using 1(1) sz ty l n by (auto simp: parted_def adjust_of_def)
  then show ?thesis using 1(2) ek by blast
qed

lemma node_parted:
  assumes rep: "bt_rep LEX E s l (Nd n ks ts)" and no: "node_ok (pdb E) (pg_of s n)" and sp: "splittable (pdb E) (Nd n ks ts)"
  shows "\<exists>items. parted (pdb E) (pg_of s n) items \<and> length items = length ks \<and> (\<forall>it \<in> set items. \<exists>k. int_item k it)
    \<and> (\<forall>j<length ks. 0 < j \<longrightarrow> int_item (ks ! j) (items ! j)) \<and> (\<forall>j<length ks. 0 < j \<longrightarrow> entry_key (pdb E) (pg_of s n) j = ks ! j)
    \<and> (\<forall>j<length ks. u32_at (items ! j) 4 = bt_pgno (ts ! j))"
proof -
  let ?h = "pg_of s n" and ?d = "pdb E"
  obtain items where 1: "holds ?d ?h items" "\<forall>it \<in> set items. \<exists>k. int_item k it" using no by (auto simp: node_ok_def)
  obtain l' where r: "l = Suc l'" using rep by (cases l) auto
  have ty: "ptype ?h = P_IBTREE" and ent: "NUM_ENT ?h = length ks" "length ts = length ks" and pk: "page_keys LEX E s ?h 1 ks"
    and ch: "\<forall>j<length ts. bi_pgno (mem ?h) (inp ?d (mem ?h) j) = bt_pgno (ts ! j)"
    using rep by (auto simp: r)
  have len: "length items = length ks" using holdsD(3) [OF 1(1)] ent(1) by (simp add: NUM_ENT_def)
  have rd: "\<exists>k. int_item k (items ! i) \<and> bk_type (mem ?h) (inp ?d (mem ?h) i) = B_KEYDATA \<and> bi_data (mem ?h) (inp ?d (mem ?h) i) = k
      \<and> bi_pgno (mem ?h) (inp ?d (mem ?h) i) = u32_at (items ! i) 4 \<and> bi_bytes ?d ?h i = length (items ! i)" if i: "i < length items" for i
  proof -
    obtain k where k: "int_item k (items ! i)" using 1(2) nth_mem [OF i] by blast
    show ?thesis using k int_item_read [OF 1(1) i k] by blast
  qed
  have sz: "sized ?d ?h items" unfolding sized_def
  proof (intro allI impI conjI)
    fix i assume i: "i < length items"
    from rd [OF i] obtain k where k: "int_item k (items ! i)" "bi_bytes ?d ?h i = length (items ! i)" by blast
    show "copy_bytes ?d ?h 1 i = Some (length (items ! i))" using k(2) ty by (simp add: copy_bytes_def)
    show "12 \<le> length (items ! i)" using int_itemD [OF k(1)] by simp
  qed
  have key: "bi_data (mem ?h) (inp ?d (mem ?h) j) = ks ! j" if j: "j < length ks" "0 < j" for j
  proof -
    have "key_for LEX E s ?h (j * 1) (ks ! j)" using pk j by (auto simp: page_keys_def unread_def)
    then show ?thesis using ty by (auto simp: key_for_def key_at_def Let_def)
  qed
  have ek: "entry_key ?d ?h j = ks ! j" if "j < length ks" "0 < j" for j using key [OF that] ty by (simp add: entry_key_def Let_def)
  have it: "int_item (ks ! j) (items ! j)" if "j < length ks" "0 < j" for j using rd [of j] key [OF that] that len by auto
  have "plain_item ?d ?h i \<and> length (entry_key ?d ?h i) + 15 < 65536 \<and> P_OVERHEAD ?d + 16 + BINTERNAL_SIZE (length (entry_key ?d ?h i)) \<le> pgsize ?d"
    if "i < length items" "0 < i" for i
  proof -
    have "ks ! i = tl ks ! (i - 1)" "i - 1 < length (tl ks)" using that len by (auto simp: nth_tl)
    then have "ks ! i \<in> set (tl ks)" by simp
    then have "short_key ?d (ks ! i)" using sp by simp
    then show ?thesis using ek [of i] rd [OF that(1)] that len by (auto simp: short_key_def plain_item_def)
  qed
  then have "parted ?d ?h items" using 1(1) sz ty len sp by (auto simp: parted_def adjust_of_def)
  then show ?thesis using len 1(2) ek it rd ch ent(2) by (intro exI [of _ items]) auto
qed

lemma bt_rep_cong:
  assumes "\<And>m. m \<in> set (bt_pages t) \<Longrightarrow> pages u m = pages s m"
  shows "bt_rep LEX E s l t \<Longrightarrow> bt_rep LEX E u l t"
  using assms
proof (induction l arbitrary: t)
  case (Suc l)
  have m: "pages u (bt_pgno t) = pages s (bt_pgno t)" using Suc.prems(2) by (cases t) auto
  then have p: "pg_of u (bt_pgno t) = pg_of s (bt_pgno t)" by (simp add: pg_of_def)
  show ?case
  proof (cases t)
    case (Lf n ks)
    then show ?thesis using Suc.prems(1) m p leaf_ok_plain [of lex3 E s "pg_of s n" ks u] by simp
  next
    case (Nd n ks ts)
    have "bt_rep LEX E u l t'" if "t' \<in> set ts" for t' using Suc.IH [of t'] Suc.prems that Nd by auto
    then show ?thesis using Suc.prems(1) m p page_keys_plain [of lex3 E s "pg_of s n" 1 ks u] by (auto simp: Nd)
  qed
qed simp

lemma int_keys:
  assumes "holds (pdb E) q ys" "ptype q = P_IBTREE" "length ks = length ys"
    and "\<And>j. 0 < j \<Longrightarrow> j < length ys \<Longrightarrow> int_item (ks ! j) (ys ! j)"
    and "\<And>i j. 0 < i \<Longrightarrow> i < j \<Longrightarrow> j < length ks \<Longrightarrow> lex3 (ks ! i) (ks ! j) < 0"
  shows "NUM_ENT q = length ks" "page_keys LEX E s q 1 ks"
proof -
  show "NUM_ENT q = length ks" using holdsD(3) [OF assms(1)] assms(3) by (simp add: NUM_ENT_def)
  have kf: "key_for LEX E s q j (ks ! j)" if "j < length ks" "0 < j" for j
  proof -
    have j: "j < length ys" "int_item (ks ! j) (ys ! j)" using that assms(3,4) by simp_all
    have "B_OVERFLOW \<noteq> B_KEYDATA" by (simp add: B_OVERFLOW_def B_KEYDATA_def)
    then show ?thesis using int_item_read(2,3) [OF assms(1) j] assms(2) by (simp add: key_for_def key_at_def Let_def)
  qed
  have le: "lex3 (ks ! i) (ks ! j) \<le> 0" if "0 < i" "i < j" "j < length ks" for i j
    using assms(5) [OF that] by simp
  show "page_keys LEX E s q 1 ks" unfolding page_keys_def
  proof (intro conjI allI impI)
    show "ptype q = P_LBTREE \<or> ptype q = P_IBTREE" "0 < (1 :: nat)" using assms(2) by simp_all
    show "key_for LEX E s q (j * 1) (ks ! j)" if "j < length ks" "\<not> unread q j" for j
      using kf [OF that(1)] that(2) assms(2) by (simp add: unread_def)
    show "cmp_of LEX (ks ! i) (ks ! j) \<le> 0" if "i < j" "j < length ks" "\<not> unread q i" for i j
      using le [of i j] that assms(2) by (simp add: unread_def)
  qed
qed

text \<open>The new root and its two children.\<close>

lemma two_entries_rep:
  assumes "two_entries (pdb E) (pg_of u n) (bt_pgno a) (bt_pgno b) k" "pages u n \<noteq> None" "ptype (pg_of u n) = P_IBTREE"
    and "unat (level (pg_of u n)) = Suc (Suc l)" "bt_rep LEX E u (Suc l) a" "bt_rep LEX E u (Suc l) b"
  shows "bt_rep LEX E u (Suc (Suc l)) (Nd n [[], k] [a, b])" "node_ok (pdb E) (pg_of u n)"
proof -
  obtain e0 e1 where e: "holds (pdb E) (pg_of u n) [e0, e1]" "int_item [] e0" "int_item k e1" "u32_at e0 4 = bt_pgno a" "u32_at e1 4 = bt_pgno b"
    using assms(1) by (auto simp: two_entries_def)
  show "node_ok (pdb E) (pg_of u n)" unfolding node_ok_def using e(1-3) by (intro exI [of _ "[e0, e1]"]) auto
  note K = int_keys(1) [where ks = "[[], k]", OF e(1) assms(3)] int_keys(2) [where s = u and ks = "[[], k]", OF e(1) assms(3)]
  have "bi_pgno (mem (pg_of u n)) (inp (pdb E) (mem (pg_of u n)) j) = bt_pgno ([a, b] ! j)" if "j < 2" for j
  proof (cases j)
    case 0
    then show ?thesis using int_item_read(4) [OF e(1), of 0] e by simp
  next
    case (Suc i)
    then show ?thesis using int_item_read(4) [OF e(1), of 1] e that by simp
  qed
  moreover have "NUM_ENT (pg_of u n) = 2 \<and> page_keys LEX E u (pg_of u n) 1 [[], k]"
    using K e(3) by (auto simp: less_Suc_eq_0_disj nth_Cons')
  ultimately show "bt_rep LEX E u (Suc (Suc l)) (Nd n [[], k] [a, b])" using assms(2-6) by simp
qed

lemma int_item_keyless: "int_item [] (keyless it)" "u32_at (keyless it) 4 = u32_at it 4"
  using int_item_new [of "[]" "keyless it" "u32_at it 4" "u32_at it 8"]
  by (simp_all add: keyless_def BINTERNAL_SIZE_def) 

text \<open>The half of an internal page.\<close>

lemma half_node:
  assumes h: "holds (pdb E) q ys" and q: "pages u n \<noteq> None" "pg_of u n = q" "ptype q = P_IBTREE" "unat (level q) = Suc l" "0 < l"
    and ys: "ys = part h a (take m (drop a items))" "ptype h = P_IBTREE" and len: "length items = length ks" "length ts = length ks"
    and am: "a < length ks" "0 < m"
    and it: "\<And>j. 0 < j \<Longrightarrow> j < length ks \<Longrightarrow> int_item (ks ! j) (items ! j)" "\<forall>it \<in> set items. \<exists>k. int_item k it"
    and ch: "\<And>j. j < length ks \<Longrightarrow> u32_at (items ! j) 4 = bt_pgno (ts ! j)"
    and so: "\<And>i j. 0 < i \<Longrightarrow> i < j \<Longrightarrow> j < length ks \<Longrightarrow> lex3 (ks ! i) (ks ! j) < 0"
    and rep: "\<And>t. t \<in> set ts \<Longrightarrow> bt_rep LEX E u l t"
  shows "bt_rep LEX E u (Suc l) (Nd n (take m (drop a ks)) (take m (drop a ts)))" "node_ok (pdb E) (pg_of u n)"
proof -
  let ?xs = "take m (drop a items)" and ?ks = "take m (drop a ks)" and ?ts = "take m (drop a ts)"
  have l: "length ys = length ?ks" "length ?ts = length ?ks" using len by (simp_all add: ys(1))
  have y: "ys ! j = (if a \<noteq> 0 \<and> j = 0 then keyless (items ! a) else items ! (a + j))" if "j < length ?ks" for j
    using nth_part [of j ?xs h a] that ys len by auto
  have ks: "?ks ! j = ks ! (a + j)" "?ts ! j = ts ! (a + j)" "a + j < length ks" if "j < length ?ks" for j using that len by auto
  have i: "int_item (?ks ! j) (ys ! j)" if "0 < j" "j < length ys" for j using that y [of j] ks [of j] it(1) [of "a + j"] l(1) by auto
  have s: "lex3 (?ks ! i) (?ks ! j) < 0" if "0 < i" "i < j" "j < length ?ks" for i j using that ks [of i] ks [of j] so [of "a + i" "a + j"] by auto
  note K = int_keys(1) [OF h q(3) l(1) [symmetric] i s] int_keys(2) [where s = u, OF h q(3) l(1) [symmetric] i s]
  have ex: "\<exists>k. int_item k (ys ! j)" if "j < length ys" for j
    using that y [of j] ks(3) [of j] it(2) len(1) l(1) int_item_keyless(1) by (auto split: if_splits)
  show "node_ok (pdb E) (pg_of u n)" unfolding node_ok_def q(2) using h ex by (intro exI [of _ ys]) (auto simp: in_set_conv_nth)
  have "bi_pgno (mem q) (inp (pdb E) (mem q) j) = bt_pgno (?ts ! j)" if j: "j < length ?ts" for j
  proof -
    have jl: "j < length ys" "j < length ?ks" using j l by auto
    obtain k where k: "int_item k (ys ! j)" using ex [OF jl(1)] by blast
    have "u32_at (ys ! j) 4 = u32_at (items ! (a + j)) 4" using y [OF jl(2)] int_item_keyless(2) by auto
    then show ?thesis using int_item_read(4) [OF h jl(1) k] ch [OF ks(3) [OF jl(2)]] ks(2) [OF jl(2)] by simp
  qed
  moreover have "?ts \<noteq> []" using am len by auto
  moreover have "bt_rep LEX E u l t" if "t \<in> set ?ts" for t using that rep by (meson in_set_dropD in_set_takeD)
  ultimately show "bt_rep LEX E u (Suc l) (Nd n ?ks ?ts)" using K q l len by simp
qed

definition nodes_ok :: "dbh \<Rightarrow> pager \<Rightarrow> bt \<Rightarrow> bool" where
  "nodes_ok d s t \<longleftrightarrow> (\<forall>n \<in> set (bt_nodes t). node_ok d (pg_of s n))"

lemma bt_sorted_two:
  assumes "\<forall>x \<in> bt_all a. lex3 x k < 0" "\<forall>x \<in> bt_all b. lex3 k x \<le> 0" "bt_sorted LEX a" "bt_sorted LEX b"
  shows "bt_sorted LEX (Nd n [[], k] [a, b])"
  using assms by (auto simp: less_Suc_eq_0_disj)

text \<open>The tree after the split of its root: the pages, and the tree of keys.\<close>

lemma store_inv_root:
  assumes inv: "store_inv B root (s, lp0) l t R fs"
    and u: "pager_ok (bt_env B) fs' u" "in_use fs' u = insert ln (insert rn (in_use fs s))" "ln \<noteq> rn" "ln \<notin> in_use fs s" "rn \<notin> in_use fs s"
    and same: "\<And>m. m \<in> in_use fs s \<Longrightarrow> m \<noteq> root \<Longrightarrow> pages u m = pages s m"
    and ch: "two_entries (pdb (bt_env B)) (pg_of u root) ln rn k" "bt_pgno a = ln" "bt_pgno b = rn" "pages u root \<noteq> None"
      "ptype (pg_of u root) = P_IBTREE" "unat (level (pg_of u root)) = Suc l"
    and rep: "bt_rep LEX (bt_env B) u l a" "bt_rep LEX (bt_env B) u l b" "bt_sorted LEX a" "bt_sorted LEX b"
    and sep: "\<forall>x \<in> bt_all a. lex3 x k < 0" "\<forall>x \<in> bt_all b. lex3 k x \<le> 0"
    and pg: "set (bt_pages a) \<union> set (bt_pages b) = insert ln (insert rn (set (bt_pages t) - {root}))" "distinct (bt_pages a @ bt_pages b)"
    and recs: "tree_recs R' a @ tree_recs R' b = tree_recs R t"
    and lv: "\<forall>(n, ks) \<in> set (bt_leaves a) \<union> set (bt_leaves b). ks = map fst (R' n) \<and> leaf_recs (bt_env B) u n (R' n)"
    and chain: "leaf_chain u (Nd root [[], k] [a, b])"
  shows "store_inv B root (u, lp0) (Suc l) (Nd root [[], k] [a, b]) R' fs' \<and> content R' (Nd root [[], k] [a, b]) = content R t"
proof -
  let ?t = "Nd root [[], k] [a, b]"
  note I = inv [unfolded store_inv_def Let_def fst_conv snd_conv]
  obtain l' where l: "l = Suc l'" using rep(1) by (cases l) auto
  have tr: "tree_recs R' ?t = tree_recs R t" using recs by (simp add: tree_recs_def)
  then have ct: "content R' ?t = content R t" by (simp add: content_def)
  have "bt_keys ?t = map fst (tree_recs R' ?t)" using lv by (intro tree_recs_keys [symmetric]) auto
  also have "\<dots> = map fst (tree_recs R t)" by (simp only: tr)
  also have "\<dots> = bt_keys t" using I by (intro tree_recs_keys) auto
  finally have dk: "distinct (bt_keys ?t)" using I by simp
  have rp: "bt_rep LEX (bt_env B) u (Suc l) ?t"
    using two_entries_rep(1) [of "bt_env B" u root a b k l'] ch rep(1,2) by (simp add: l)
  have rt: "root \<in> set (bt_pages t)" using I by (cases t) auto
  have iu: "set (bt_pages t) \<union> set (chain_pages (tree_recs R t)) \<subseteq> in_use fs s" "distinct (chain_pages (tree_recs R t))"
    "set (bt_pages t) \<inter> set (chain_pages (tree_recs R t)) = {}" using I by auto
  have new: "root \<notin> set (bt_pages a) \<union> set (bt_pages b)" using pg(1) u(4,5) rt iu(1) by auto
  have "distinct (bt_pages ?t @ chain_pages (tree_recs R' ?t))"
    using new pg iu u(4,5) rt unfolding tr by auto
  moreover have "set (bt_pages ?t @ chain_pages (tree_recs R' ?t)) \<subseteq> in_use fs' u"
    using pg(1) iu(1) rt unfolding tr u(2) by auto
  ultimately have "store_inv B root (u, lp0) (Suc l) ?t R' fs'"
    unfolding store_inv_def Let_def fst_conv snd_conv using I u(1) rp bt_sorted_two [OF sep rep(3,4)] dk lv chain by auto
  then show ?thesis using ct by blast
qed

text \<open>The root was a leaf.\<close>

lemma split_leaf:
  assumes inv: "store_inv B root (s, lp0) l (Lf root ks) R fs"
    and it: "pairs_ok (bt_env B) s items (R root)" "\<forall>j<length (R root). entry_key (pdb (bt_env B)) (pg_of s root) (2 * j) = fst (R root ! j)"
    and hv: "halves (pdb (bt_env B)) (pg_of s root) items split ln rn (pg_of u ln) (pg_of u rn) (pg_of u root)"
    and u: "pager_ok (bt_env B) fs' u" "in_use fs' u = insert ln (insert rn (in_use fs s))" "ln \<noteq> rn" "ln \<notin> in_use fs s" "rn \<notin> in_use fs s"
    and same: "\<And>m. m \<in> in_use fs s \<Longrightarrow> m \<noteq> root \<Longrightarrow> pages u m = pages s m"
  shows "\<exists>t' R'. store_inv B root (u, lp0) (Suc l) t' R' fs' \<and> content R' t' = content R (Lf root ks) \<and> nodes_ok (pdb (bt_env B)) u t'"
proof -
  let ?E = "bt_env B" and ?d = "pdb (bt_env B)" and ?h = "pg_of s root" and ?rs = "R root"
  note I = inv [unfolded store_inv_def Let_def fst_conv snd_conv]
  have lr: "leaf_recs ?E s root ?rs" and ks: "ks = map fst ?rs" using I by auto
  have ty: "ptype ?h = P_LBTREE" "level ?h = LEAFLEVEL" using lr by (auto simp: leaf_recs_def)
  have l: "l = 1" using I by (cases l) auto
  note H = hv [unfolded halves_def parts_def]
  obtain j where j: "split = 2 * j" using H ty(1) by (auto simp: adjust_of_def)
  have len: "length items = 2 * length ?rs" using pairs_ok_length [OF it(1)] .
  have jr: "0 < j" "j < length ?rs" using H j len by auto
  have so: "sorted_wrt (\<lambda>x y. lex3 x y < 0) (map fst ?rs)" using strict_keys [OF inv, of root ks] by (simp add: ks)
  define a where "a = Lf ln (map fst (take j ?rs))"
  define b where "b = Lf rn (map fst (drop j ?rs))"
  define R' where "R' = R(ln := take j ?rs, rn := drop j ?rs)"
  have rt: "root \<in> in_use fs s" "set (chain_pages ?rs) \<subseteq> in_use fs s" "root \<notin> set (chain_pages ?rs)"
    using I by (auto simp: tree_recs_def)
  have ne: "root \<noteq> ln" "root \<noteq> rn" using rt u(4,5) by auto
  have pn: "pages u ln \<noteq> None" "pages u rn \<noteq> None" "pages u root \<noteq> None" using u(2) rt(1) by (auto simp: in_use_def)
  have cp: "pages u p = pages s p" if "p \<in> set (chain_pages ?rs)" for p using same [of p] that rt by blast
  have sub: "set (chain_pages (take j ?rs)) \<subseteq> set (chain_pages ?rs)" "set (chain_pages (drop j ?rs)) \<subseteq> set (chain_pages ?rs)"
    using chain_pages_simps(3) [of "take j ?rs" "drop j ?rs"] by auto
  have c1: "pages u p = pages s p" if "p \<in> set (chain_pages (take j ?rs))" for p using cp sub(1) that by blast
  have c2: "pages u p = pages s p" if "p \<in> set (chain_pages (drop j ?rs))" for p using cp sub(2) that by blast
  note P = pairs_ok_split [OF it(1), of j]
  have pl: "pairs_ok ?E u (take (2 * j) items) (take j ?rs)" and pr: "pairs_ok ?E u (drop (2 * j) items) (drop j ?rs)"
    using P jr pairs_ok_cong [OF c1] pairs_ok_cong [OF c2] by auto
  have part: "part ?h split (drop split items) = drop split items" using ty by (simp add: part_def)
  have la: "leaf_recs ?E u ln (take j ?rs)" and lb: "leaf_recs ?E u rn (drop j ?rs)"
    using H pl pr pn ty j unfolding part leaf_recs_def by auto
  have sa: "sorted_wrt (\<lambda>x y. lex3 x y < 0) (map fst (take j ?rs))" "sorted_wrt (\<lambda>x y. lex3 x y < 0) (map fst (drop j ?rs))"
    using so by (simp_all add: take_map [symmetric] drop_map [symmetric] sorted_wrt_take sorted_wrt_drop)
  have rep: "bt_rep LEX ?E u 1 a" "bt_rep LEX ?E u 1 b"
    using leaf_recs_ok [OF la sa(1)] leaf_recs_ok [OF lb sa(2)] pn H ty by (simp_all add: a_def b_def LEAFLEVEL_def)
  let ?k = "fst (?rs ! j)"
  have two: "two_entries ?d (pg_of u root) ln rn ?k" using H it(2) jr j by auto
  have s1: "lex3 x ?k < 0" if x: "x \<in> set (map fst (take j ?rs))" for x
  proof -
    obtain i where i: "i < length (map fst (take j ?rs))" "map fst (take j ?rs) ! i = x" using x by (metis in_set_conv_nth)
    then show ?thesis using so jr unfolding sorted_wrt_iff_nth_less by auto
  qed
  have s2: "lex3 ?k x \<le> 0" if x: "x \<in> set (map fst (drop j ?rs))" for x
  proof -
    obtain i where i: "i < length ?rs - j" "fst (?rs ! (j + i)) = x"
      using x by (auto simp: in_set_conv_nth)
    show ?thesis
    proof (cases i)
      case 0
      then show ?thesis using i(2) lex3_refl [of x] by simp
    next
      case (Suc i')
      then have "lex3 ?k x < 0" using so jr i unfolding sorted_wrt_iff_nth_less by auto
      then show ?thesis by simp
    qed
  qed
  have lvl: "unat (level (pg_of u root)) = Suc 1" using H ty by (simp add: LEAFLEVEL_def)
  have "store_inv B root (u, lp0) (Suc l) (Nd root [[], ?k] [a, b]) R' fs' \<and> content R' (Nd root [[], ?k] [a, b]) = content R (Lf root ks)"
  proof (rule store_inv_root [OF inv u same two])
    show "tree_recs R' a @ tree_recs R' b = tree_recs R (Lf root ks)"
      using u(3) by (simp add: tree_recs_def a_def b_def R'_def)
    show "\<forall>(n, ks) \<in> set (bt_leaves a) \<union> set (bt_leaves b). ks = map fst (R' n) \<and> leaf_recs ?E u n (R' n)"
      using la lb u(3) by (simp add: a_def b_def R'_def)
    show "leaf_chain u (Nd root [[], ?k] [a, b])" using H ty(1) by (simp add: leaf_chain_def a_def b_def paired_def)
  qed (use rep H pn lvl u(3) s1 s2 in \<open>auto simp: a_def b_def l\<close>)
  moreover have "nodes_ok ?d u (Nd root [[], ?k] [a, b])"
    using two_entries_rep(2) [of ?E u root a b ?k 0] two pn H lvl rep by (simp add: nodes_ok_def a_def b_def)
  ultimately show ?thesis by blast
qed

text \<open>The root was an internal page: its parts keep their children.\<close>

lemma bt_sorted_part:
  assumes "bt_sorted f (Nd n ks ts)" "length ts = length ks"
  shows "bt_sorted f (Nd m (take i (drop a ks)) (take i (drop a ts)))"
  unfolding bt_sorted.simps
proof (intro conjI allI impI ballI)
  fix p q assume "0 < p" "p < q" "q < length (take i (drop a ks))"
  then show "cmp_of f (take i (drop a ks) ! p) (take i (drop a ks) ! q) < 0" using assms by auto
next
  fix j k assume j: "j < length (take i (drop a ts))" and k: "k \<in> bt_all (take i (drop a ts) ! j)"
  then have "a + j < length ts" "k \<in> bt_all (ts ! (a + j))" using assms(2) by auto
  then show "0 < j \<Longrightarrow> cmp_of f (take i (drop a ks) ! j) k \<le> 0"
    "Suc j < length (take i (drop a ts)) \<Longrightarrow> cmp_of f k (take i (drop a ks) ! Suc j) < 0"
    using assms j by (auto simp: add.assoc)
next
  fix t assume "t \<in> set (take i (drop a ts))"
  then have "t \<in> set ts" by (meson in_set_dropD in_set_takeD)
  then show "bt_sorted f t" using assms(1) by simp
qed

lemma bt_all_part:
  assumes so: "bt_sorted LEX (Nd n ks ts)" and len: "length ts = length ks" and j: "0 < j" "j < length ks"
  shows "x \<in> bt_all (Nd m (take j ks) (take j ts)) \<Longrightarrow> lex3 x (ks ! j) < 0"
    "x \<in> bt_all (Nd m (drop j ks) (drop j ts)) \<Longrightarrow> lex3 (ks ! j) x \<le> 0"
proof -
  have sk: "lex3 (ks ! p) (ks ! q) < 0" if "0 < p" "p < q" "q < length ks" for p q using so that by auto
  have ch: "0 < i \<Longrightarrow> lex3 (ks ! i) k \<le> 0" "Suc i < length ks \<Longrightarrow> lex3 k (ks ! Suc i) < 0"
    if "i < length ks" "k \<in> bt_all (ts ! i)" for i k using so that len by auto
  {
    assume "x \<in> bt_all (Nd m (take j ks) (take j ts))"
    then consider "x \<in> set (tl (take j ks))" | t where "t \<in> set (take j ts)" "x \<in> bt_all t" by auto
    then show "lex3 x (ks ! j) < 0"
    proof cases
      case 1
      then obtain i where "i < length (tl (take j ks))" "tl (take j ks) ! i = x" by (metis in_set_conv_nth)
      then show ?thesis using sk [of "Suc i" j] j by (auto simp: nth_tl)
    next
      case 2
      then obtain i where i: "i < j" "ts ! i = t" by (auto simp: in_set_conv_nth)
      have "lex3 x (ks ! Suc i) < 0" using ch(2) [of i x] i 2(2) j by auto
      then show ?thesis using sk [of "Suc i" j] i(1) j lex3_less_trans [of x "ks ! Suc i" "ks ! j"] by (cases "Suc i = j") auto
    qed
  }
  assume "x \<in> bt_all (Nd m (drop j ks) (drop j ts))"
  then consider "x \<in> set (tl (drop j ks))" | t where "t \<in> set (drop j ts)" "x \<in> bt_all t" by auto
  then show "lex3 (ks ! j) x \<le> 0"
  proof cases
    case 1
    then obtain i where "i < length (tl (drop j ks))" "tl (drop j ks) ! i = x" by (metis in_set_conv_nth)
    then show ?thesis using sk [of j "Suc (j + i)"] j by (auto simp: nth_tl less_imp_le)
  next
    case 2
    then obtain i where "i < length (drop j ts)" "drop j ts ! i = t" by (metis in_set_conv_nth)
    then have i: "j + i < length ts" "ts ! (j + i) = t" by auto
    have "lex3 (ks ! (j + i)) x \<le> 0" using ch(1) [of "j + i" x] i 2(2) j len by auto
    then show ?thesis using sk [of j "j + i"] i(1) j len lex3_trans [of "ks ! j" "ks ! (j + i)" x] by (cases i) (auto simp: less_imp_le)
  qed
qed

lemma concat_map_halves: "concat (map f (take j xs)) @ concat (map f (drop j xs)) = concat (map f xs)"
  by (metis append_take_drop_id concat_append map_append)

lemma tree_recs_Nd: "tree_recs R (Nd n ks ts) = concat (map (tree_recs R) ts)"
  by (induction ts) (simp_all add: tree_recs_def)

lemma split_node:
  assumes inv: "store_inv B root (s, lp0) l (Nd root ks ts) R fs" and no: "nodes_ok (pdb (bt_env B)) s (Nd root ks ts)"
    and it: "length items = length ks" "\<forall>it \<in> set items. \<exists>k. int_item k it" "\<forall>j<length ks. 0 < j \<longrightarrow> int_item (ks ! j) (items ! j)"
      "\<forall>j<length ks. 0 < j \<longrightarrow> entry_key (pdb (bt_env B)) (pg_of s root) j = ks ! j"
      "\<forall>j<length ks. u32_at (items ! j) 4 = bt_pgno (ts ! j)"
    and hv: "halves (pdb (bt_env B)) (pg_of s root) items j ln rn (pg_of u ln) (pg_of u rn) (pg_of u root)"
    and lim: "l < MAXBTREELEVEL"
    and u: "pager_ok (bt_env B) fs' u" "in_use fs' u = insert ln (insert rn (in_use fs s))" "ln \<noteq> rn" "ln \<notin> in_use fs s" "rn \<notin> in_use fs s"
    and same: "\<And>m. m \<in> in_use fs s \<Longrightarrow> m \<noteq> root \<Longrightarrow> pages u m = pages s m"
  shows "\<exists>t' R'. store_inv B root (u, lp0) (Suc l) t' R' fs' \<and> content R' t' = content R (Nd root ks ts) \<and> nodes_ok (pdb (bt_env B)) u t'"
proof -
  let ?E = "bt_env B" and ?d = "pdb (bt_env B)" and ?h = "pg_of s root" and ?t = "Nd root ks ts"
  note I = inv [unfolded store_inv_def Let_def fst_conv snd_conv]
  obtain l' where l: "l = Suc l'" using I by (cases l) auto
  have r: "ptype ?h = P_IBTREE" "length ts = length ks" "0 < l'" "unat (level ?h) = l" "\<forall>t \<in> set ts. bt_rep LEX ?E s l' t"
    and so: "bt_sorted LEX ?t" using I by (auto simp: l)
  note H = hv [unfolded halves_def parts_def]
  have jr: "0 < j" "j < length ks" using H it(1) by auto
  have rt: "root \<in> in_use fs s" using I by auto
  have ne: "root \<noteq> ln" "root \<noteq> rn" using rt u(4,5) by auto
  have pn: "pages u ln \<noteq> None" "pages u rn \<noteq> None" "pages u root \<noteq> None" using u(2) rt by (auto simp: in_use_def)
  have tp: "set (bt_pages t) \<subseteq> in_use fs s - {root}" if "t \<in> set ts" for t using I that by auto
  have keep: "pages u m = pages s m" if "t \<in> set ts" "m \<in> set (bt_pages t)" for t m using tp [OF that(1)] that(2) same by blast
  have rep: "bt_rep LEX ?E u l' t" if "t \<in> set ts" for t using bt_rep_cong [OF keep [OF that]] r(5) that by blast
  have sk: "lex3 (ks ! p) (ks ! q) < 0" if "0 < p" "p < q" "q < length ks" for p q using so that by auto
  define a where "a = Nd ln (take j ks) (take j ts)"
  define b where "b = Nd rn (drop j ks) (drop j ts)"
  have whole: "take j (drop 0 ks) = take j ks" "take j (drop 0 ts) = take j ts" "take (length ks) (drop j ks) = drop j ks"
    "take (length ks) (drop j ts) = drop j ts" "take (length ks) (drop j items) = drop j items" using r(2) it(1) by simp_all
  have pa: "take j items = part ?h 0 (take j (drop 0 items))" by (simp add: part_def)
  have pb: "part ?h j (drop j items) = part ?h j (take (length ks) (drop j items))" by (simp add: whole)
  have k0: "0 < length ks" using jr by linarith
  have hl: "holds ?d (pg_of u ln) (take j items)" "ptype (pg_of u ln) = P_IBTREE" "unat (level (pg_of u ln)) = Suc l'"
    and hr: "holds ?d (pg_of u rn) (part ?h j (drop j items))" "ptype (pg_of u rn) = P_IBTREE" "unat (level (pg_of u rn)) = Suc l'"
    using H r(1,4) l by simp_all
  have iti: "\<And>i. 0 < i \<Longrightarrow> i < length ks \<Longrightarrow> int_item (ks ! i) (items ! i)" "\<And>i. i < length ks \<Longrightarrow> u32_at (items ! i) 4 = bt_pgno (ts ! i)"
    using it(3,5) by blast+
  note A = half_node [OF hl(1) pn(1) refl hl(2,3) r(3) pa r(1) it(1) r(2) k0 jr(1) iti(1) it(2) iti(2) sk rep, unfolded whole]
    and C = half_node [OF hr(1) pn(2) refl hr(2,3) r(3) pb r(1) it(1) r(2) jr(2) k0 iti(1) it(2) iti(2) sk rep, unfolded whole]
  have ra: "bt_rep LEX ?E u l a" "node_ok ?d (pg_of u ln)" and rb: "bt_rep LEX ?E u l b" "node_ok ?d (pg_of u rn)"
    using A C by (simp_all only: a_def b_def l)
  have two: "two_entries ?d (pg_of u root) ln rn (ks ! j)" using H it(4) jr by auto
  have lvl: "unat (level (pg_of u root)) = Suc l" using H r(4) lim by (simp add: unat_word_ariths MAXBTREELEVEL_def)
  have cp: "concat (map bt_pages (take j ts)) @ concat (map bt_pages (drop j ts)) = concat (map bt_pages ts)" (is "?p @ ?q = ?r")
    by (rule concat_map_halves)
  have dr: "distinct ?r" "root \<notin> set ?r" "set ?r \<subseteq> in_use fs s" using I by auto
  have dpq: "distinct (?p @ ?q)" "set ?p \<union> set ?q = set ?r" using dr(1) cp by (simp_all only: flip: set_append)
  have "store_inv B root (u, lp0) (Suc l) (Nd root [[], ks ! j] [a, b]) R fs' \<and> content R (Nd root [[], ks ! j] [a, b]) = content R ?t"
  proof (rule store_inv_root [OF inv u same two])
    show "bt_pgno a = ln" "bt_pgno b = rn" by (simp_all add: a_def b_def)
    show "bt_sorted LEX a" "bt_sorted LEX b"
      using bt_sorted_part [OF so r(2), of ln j 0] bt_sorted_part [OF so r(2), of rn "length ks" j] by (simp_all only: a_def b_def whole)
    show "\<forall>x \<in> bt_all a. lex3 x (ks ! j) < 0" "\<forall>x \<in> bt_all b. lex3 (ks ! j) x \<le> 0"
      using bt_all_part [OF so r(2) jr] by (auto simp only: a_def b_def)
    have "bt_pages a = ln # ?p" "bt_pages b = rn # ?q" by (simp_all add: a_def b_def)
    then show "set (bt_pages a) \<union> set (bt_pages b) = insert ln (insert rn (set (bt_pages ?t) - {root}))"
      "distinct (bt_pages a @ bt_pages b)"
      using dpq dr u(3-5) by auto
    show "tree_recs R a @ tree_recs R b = tree_recs R ?t" unfolding a_def b_def tree_recs_Nd by (rule concat_map_halves)
    show "\<forall>(n, ks) \<in> set (bt_leaves a) \<union> set (bt_leaves b). ks = map fst (R n) \<and> leaf_recs ?E u n (R n)"
    proof (intro ballI, clarify)
      fix n k assume "(n, k) \<in> set (bt_leaves a) \<union> set (bt_leaves b)"
      then obtain t where t: "t \<in> set ts" "(n, k) \<in> set (bt_leaves t)" by (auto simp: a_def b_def dest: in_set_takeD in_set_dropD)
      then have nk: "(n, k) \<in> set (bt_leaves ?t)" by auto
      have "n \<in> set (bt_pages t)" using bt_leaf_page [of t] t(2) by force
      moreover have "set (chain_pages (R n)) \<subseteq> in_use fs s - {root}"
      proof -
        have "set (chain_pages (R n)) \<subseteq> set (chain_pages (tree_recs R ?t))" using nk by (force simp: tree_recs_def chain_pages_def)
        then show ?thesis using I by auto
      qed
      ultimately have "pages u p = pages s p" if "p \<in> insert n (set (chain_pages (R n)))" for p
        using keep [OF t(1)] same that by blast
      then show "k = map fst (R n) \<and> leaf_recs ?E u n (R n)" using leaf_recs_keep [of ?E s n "R n" u] I nk by blast
    qed
    show "leaf_chain u (Nd root [[], ks ! j] [a, b])"
    proof (rule leaf_chain_cong)
      show "leaf_chain s ?t" using I by blast
      show "map fst (bt_leaves (Nd root [[], ks ! j] [a, b])) = map fst (bt_leaves ?t)"
        using concat_map_halves [of bt_leaves j ts] by (simp add: a_def b_def flip: map_append)
      fix m assume "m \<in> fst ` set (bt_leaves ?t)"
      then obtain t where "t \<in> set ts" "m \<in> fst ` set (bt_leaves t)" by auto
      then have "pages u m = pages s m" using keep bt_leaf_page [of t] by blast
      then show "next_pgno (pg_of u m) = next_pgno (pg_of s m) \<and> prev_pgno (pg_of u m) = prev_pgno (pg_of s m)" by (simp add: pg_of_def)
    qed
  qed (use ra rb H pn lvl in simp_all)
  moreover have "nodes_ok ?d u (Nd root [[], ks ! j] [a, b])"
    unfolding nodes_ok_def
  proof
    fix n assume "n \<in> set (bt_nodes (Nd root [[], ks ! j] [a, b]))"
    then consider "n = root" | "n = ln" | "n = rn" | t where "t \<in> set ts" "n \<in> set (bt_nodes t)"
      by (auto simp: a_def b_def dest: in_set_takeD in_set_dropD)
    then show "node_ok ?d (pg_of u n)"
    proof cases
      case 1
      then show ?thesis using two_entries_rep(2) [of ?E u root a b "ks ! j" l'] two pn H lvl ra rb by (simp add: a_def b_def l)
    next
      case 4
      then have "pg_of u n = pg_of s n" using keep bt_nodes_pages [of t] by (auto simp: pg_of_def)
      then show ?thesis using no 4 by (auto simp: nodes_ok_def)
    qed (use ra rb in auto)
  qed
  ultimately show ?thesis by blast
qed

lemma root_split_spec:
  assumes env: "store_env x B" and inv: "store_inv B root db l t R fs" and no: "nodes_ok (pdb (bt_env B)) (fst db) t"
    and sp: "splittable (pdb (bt_env B)) t" and lim: "l < MAXBTREELEVEL" "unat (m_last (fst db)) + 2 < 2 ^ 32"
  shows "\<exists>u t' R'. bam_root (bt_env B) (fst db) c root root indx = Some (u, c, 0)
    \<and> store_inv B root (u, snd db) (Suc l) t' R' (drop 2 fs) \<and> content R' t' = content R t \<and> nodes_ok (pdb (bt_env B)) u t'
    \<and> pins u = (pins (fst db))(root := pins (fst db) root - 1) \<and> m_locks u = m_locks (fst db)"
proof -
  let ?E = "bt_env B" and ?d = "pdb (bt_env B)"
  obtain s lp0 where db: "db = (s, lp0)" by (cases db)
  note inv = inv [unfolded db]
  note I = inv [unfolded store_inv_def Let_def fst_conv snd_conv]
  have io: "no_io_errors ?E" "env_ok ?E" using env by (simp_all add: store_env_def)
  have rt: "root \<in> in_use fs s" using I by (cases t) auto
  have lv: "unat (level (pg_of s root)) = l" using I by (cases l) auto
  define good where "good items \<longleftrightarrow> (case t of
      Lf n ks \<Rightarrow> pairs_ok ?E s items (R root) \<and> (\<forall>j<length (R root). entry_key ?d (pg_of s root) (2 * j) = fst (R root ! j))
    | Nd n ks ts \<Rightarrow> length items = length ks \<and> (\<forall>it \<in> set items. \<exists>k. int_item k it)
        \<and> (\<forall>j<length ks. 0 < j \<longrightarrow> int_item (ks ! j) (items ! j)) \<and> (\<forall>j<length ks. 0 < j \<longrightarrow> entry_key ?d (pg_of s root) j = ks ! j)
        \<and> (\<forall>j<length ks. u32_at (items ! j) 4 = bt_pgno (ts ! j)))" for items
  obtain items where it: "parted ?d (pg_of s root) items" "good items"
  proof (cases t)
    case (Lf n ks)
    then have "leaf_recs ?E s root (R root)" "2 \<le> length (R root)" "\<forall>k \<in> set (map fst (R root)). short_key ?d k" using I sp by auto
    from leaf_parted [OF this] show ?thesis using that Lf by (auto simp: good_def)
  next
    case (Nd n ks ts)
    then have n: "n = root" using I by simp
    have "bt_rep LEX ?E s l (Nd root ks ts)" "node_ok ?d (pg_of s root)" "splittable ?d (Nd root ks ts)"
      using I no sp Nd n by (auto simp: nodes_ok_def db)
    from node_parted [OF this] show ?thesis using that Nd by (auto simp: good_def)
  qed
  have "unat (m_last s) + 2 < 2 ^ 32" "unat (level (pg_of s root)) < MAXBTREELEVEL" using lim lv by (simp_all add: db)
  from bam_root_run [OF io(1) _ io(2) rt this it(1), of c indx] I obtain u split ln rn lp rp q where
    1: "bam_root ?E s c root root indx = Some (u, c, 0)" "halves ?d (pg_of s root) items split ln rn lp rp q"
      "ln \<noteq> rn" "ln \<notin> in_use fs s" "rn \<notin> in_use fs s" "pages u = (pages s)(ln \<mapsto> lp, rn \<mapsto> rp, root \<mapsto> q)"
      "pager_ok ?E (drop 2 fs) u" "in_use (drop 2 fs) u = insert ln (insert rn (in_use fs s))"
      "pins u = (pins s)(root := pins s root - 1)" "m_locks u = m_locks s" by blast
  have ne: "root \<noteq> ln" "root \<noteq> rn" using rt 1(4,5) by auto
  have "pg_of u ln = lp" "pg_of u rn = rp" "pg_of u root = q" using ne 1(3) by (simp_all add: pg_of_def 1(6))
  with 1(2) have hv: "halves ?d (pg_of s root) items split ln rn (pg_of u ln) (pg_of u rn) (pg_of u root)" by simp
  have same: "pages u m = pages s m" if "m \<in> in_use fs s" "m \<noteq> root" for m using that 1(4,5) by (auto simp: 1(6))
  have "\<exists>t' R'. store_inv B root (u, lp0) (Suc l) t' R' (drop 2 fs) \<and> content R' t' = content R t \<and> nodes_ok ?d u t'"
  proof (cases t)
    case (Lf n ks)
    then have t: "t = Lf root ks" using I by simp
    from it(2) have g: "pairs_ok ?E s items (R root)" "\<forall>j<length (R root). entry_key ?d (pg_of s root) (2 * j) = fst (R root ! j)"
      by (simp_all add: good_def t)
    show ?thesis using split_leaf [OF inv [unfolded t] g hv 1(7,8,3-5) same] by (simp add: t)
  next
    case (Nd n ks ts)
    then have t: "t = Nd root ks ts" using I by simp
    have no': "nodes_ok ?d s (Nd root ks ts)" using no by (simp add: db t)
    from it(2) have g: "length items = length ks" "\<forall>it \<in> set items. \<exists>k. int_item k it" "\<forall>j<length ks. 0 < j \<longrightarrow> int_item (ks ! j) (items ! j)"
      "\<forall>j<length ks. 0 < j \<longrightarrow> entry_key ?d (pg_of s root) j = ks ! j" "\<forall>j<length ks. u32_at (items ! j) 4 = bt_pgno (ts ! j)"
      by (simp_all add: good_def t)
    show ?thesis using split_node [OF inv [unfolded t] no' g hv lim(1) 1(7,8,3-5) same] by (simp add: t)
  qed
  then show ?thesis using 1(1,9,10) by (auto simp: db)
qed

section \<open>A small tree\<close>

definition tiny_handle :: btree_h where
  "tiny_handle = \<lparr>bt_env = calm\<lparr>pdb := small_db, junk := \<lambda>_. replicate 64 0\<rparr>, bt_cmp = None, dup_cmp = None, blob = (\<lambda>_ _. Inl 2)\<rparr>"

definition tiny_file :: "pager \<times> u32" where
  "tiny_file = (fresh_file\<lparr>pages := [1 \<mapsto> demo_page [60, 56, 52, 48] 48], m_last := 1\<rparr>, PGNO_INVALID)"

definition tiny_recs :: "leaf_rec list" where "tiny_recs = [([1], [2], []), ([3], [4], [])]"

lemma tiny_env: "store_env wide_cfg tiny_handle"
  by (simp add: store_env_def wide_cfg_def tiny_handle_def env_ok_def no_io_errors_def calm_def small_db_def P_OVERHEAD_def)

lemma tiny_inv: "store_inv tiny_handle 1 tiny_file 1 (Lf 1 [[1], [3]]) (\<lambda>_. tiny_recs) []"
proof -
  let ?E = "bt_env tiny_handle"
  define pg where "pg = demo_page [60, 56, 52, 48] 48"
  have d: "pdb ?E = small_db" by (simp add: tiny_handle_def)
  have h: "ptype pg = P_LBTREE" "level pg = LEAFLEVEL" "pgno pg = 1" "length (mem pg) = 64" "next_pgno pg = 0" "prev_pgno pg = 0" by (simp_all add: pg_def demo_page_def)
  have p: "pages (fst tiny_file) = [1 \<mapsto> pg]" "pg_of (fst tiny_file) 1 = pg" "m_last (fst tiny_file) = 1"
    "m_free (fst tiny_file) = 0" "snd tiny_file = PGNO_INVALID"
    by (simp_all add: tiny_file_def fresh_file_def pg_of_def pg_def)
  have "0 < n \<and> n \<le> (1 :: u32) \<longleftrightarrow> n = 1" for n
    by (auto simp: word_le_nat_alt word_less_nat_alt word_unat_eq_iff)
  then have ok: "pager_ok ?E [] (fst tiny_file)" using p h d by (auto simp: pager_ok_def PGNO_INVALID_def small_db_def)
  have "bk_item B_KEYDATA [x] [1, 0, 1, x]" for x by (simp add: bk_item_def BKEYDATA_SIZE_def le_enc2 B_KEYDATA_def)
  then have "pairs_ok ?E (fst tiny_file) two_pairs tiny_recs" by (simp add: two_pairs_def tiny_recs_def val_item_def)
  then have lr: "leaf_recs ?E (fst tiny_file) 1 tiny_recs" using p h demo_holds [folded pg_def] d by (auto simp: leaf_recs_def)
  have "leaf_ok LEX ?E (fst tiny_file) (pg_of (fst tiny_file) 1) [[1], [3]]"
    using leaf_recs_ok [OF lr] by (simp add: tiny_recs_def)
  moreover have "leaf_chain (fst tiny_file) (Lf 1 [[1], [3]])" using p h by (simp add: leaf_chain_def PGNO_INVALID_def)
  ultimately show ?thesis using ok lr p h by (simp add: store_inv_def Let_def bt_keys_def tree_recs_def in_use_def tiny_recs_def LEAFLEVEL_def)
qed

section \<open>Properties\<close>

text \<open>C4: \<open>__bam_root\<close> on a well-formed tree, whose keys leave room for two of them on a page,
  returns 0; the tree is one level higher and well formed again, with its leaves linked in order, it has the same
  records, and the root page has been given back.\<close>

theorem root_split_keeps_records:
  assumes "store_env x B" "store_inv B root db l t R fs" "nodes_ok (pdb (bt_env B)) (fst db) t"
    and "splittable (pdb (bt_env B)) t" "l < MAXBTREELEVEL" "unat (m_last (fst db)) + 2 < 2 ^ 32"
  shows "\<exists>u t' R'. bam_root (bt_env B) (fst db) c root root indx = Some (u, c, 0)
    \<and> store_inv B root (u, snd db) (Suc l) t' R' (drop 2 fs) \<and> content R' t' = content R t \<and> nodes_ok (pdb (bt_env B)) u t'
    \<and> pins u = (pins (fst db))(root := pins (fst db) root - 1) \<and> m_locks u = m_locks (fst db)"
  by (rule root_split_spec [OF assms])

theorem root_split_keeps_records_witness:
  "\<exists>u t' R'. bam_root (bt_env tiny_handle) (fst tiny_file) \<lparr>stream_start = 0, stream_curr = 0, stream_off = 0\<rparr> 1 1 4
      = Some (u, \<lparr>stream_start = 0, stream_curr = 0, stream_off = 0\<rparr>, 0)
    \<and> store_inv tiny_handle 1 (u, PGNO_INVALID) 2 t' R' [] \<and> content R' t' = [[1] \<mapsto> [2], [3] \<mapsto> [4]]"
proof -
  have "short_key small_db [x]" for x
    by (simp add: short_key_def small_db_def P_OVERHEAD_def BINTERNAL_SIZE_def)
  then have sp: "splittable (pdb (bt_env tiny_handle)) (Lf 1 [[1], [3]])" by (simp add: tiny_handle_def)
  have ct: "content (\<lambda>_. tiny_recs) (Lf 1 [[1], [3]]) = [[1] \<mapsto> [2], [3] \<mapsto> [4]]"
    by (auto simp: content_def tree_recs_def tiny_recs_def fun_upd_twist)
  have m: "snd tiny_file = PGNO_INVALID" "unat (m_last (fst tiny_file)) + 2 < 2 ^ 32"
    by (simp_all add: tiny_file_def fresh_file_def)
  have n: "nodes_ok (pdb (bt_env tiny_handle)) (fst tiny_file) (Lf 1 [[1], [3]])" "1 < MAXBTREELEVEL"
    by (simp_all add: nodes_ok_def MAXBTREELEVEL_def)
  let ?c = "\<lparr>stream_start = 0, stream_curr = 0, stream_off = 0\<rparr>"
  from root_split_keeps_records [OF tiny_env tiny_inv n(1) sp n(2) m(2), of ?c 4] obtain u t' R' where
    "bam_root (bt_env tiny_handle) (fst tiny_file) ?c 1 1 4 = Some (u, ?c, 0)"
    "store_inv tiny_handle 1 (u, snd tiny_file) (Suc 1) t' R' (drop 2 [])" "content R' t' = content (\<lambda>_. tiny_recs) (Lf 1 [[1], [3]])"
    by blast
  then show ?thesis unfolding ct m(1) by (simp add: numeral_2_eq_2) blast
qed

end
