(* ===== verification/Bt_Path.thy ===== *)
theory Bt_Path
  imports Bt_Tree
begin

text \<open>
  The path of a key through a tree of keys, in the default order: the child to which the separators of an
  internal page lead, the subtree at a depth, and the tree with another subtree there.  The lemmas say what
  becomes of the leaves, the pages, the keys and their order.
\<close>

section \<open>The path of a key\<close>

definition child_at :: "byte list \<Rightarrow> byte list list \<Rightarrow> nat" where
  "child_at key ks = length (takeWhile (\<lambda>k. lex3 k key \<le> 0) (tl ks))"

fun sub_at :: "byte list \<Rightarrow> nat \<Rightarrow> bt \<Rightarrow> bt" where
  "sub_at key (Suc d) (Nd n ks ts) = sub_at key d (ts ! child_at key ks)"
| "sub_at key d t = t"

fun graft :: "byte list \<Rightarrow> nat \<Rightarrow> bt \<Rightarrow> bt \<Rightarrow> bt" where
  "graft key (Suc d) t' (Nd n ks ts) = Nd n ks (ts[child_at key ks := graft key d t' (ts ! child_at key ks)])"
| "graft key d t' t = t'"

text \<open>All leaves are at the same depth, and each internal page has as many keys as children, at least one.\<close>

fun bt_shape :: "nat \<Rightarrow> bt \<Rightarrow> bool" where
  "bt_shape l (Lf n ks) \<longleftrightarrow> l = 1"
| "bt_shape l (Nd n ks ts) \<longleftrightarrow> 1 < l \<and> length ts = length ks \<and> ts \<noteq> [] \<and> (\<forall>t \<in> set ts. bt_shape (l - 1) t)"

lemma bt_rep_shape: "bt_rep f E s l t \<Longrightarrow> bt_shape l t"
proof (induction l arbitrary: t)
  case (Suc l)
  then show ?case by (cases t) auto
qed simp

lemma child_at_less: "ks \<noteq> [] \<Longrightarrow> child_at key ks < length ks"
  unfolding child_at_def using length_takeWhile_le [of "\<lambda>k. lex3 k key \<le> 0" "tl ks"] by (cases ks) auto

lemma child_at_bounds:
  assumes "ks \<noteq> []"
  shows "0 < child_at key ks \<Longrightarrow> lex3 (ks ! child_at key ks) key \<le> 0"
    "Suc (child_at key ks) < length ks \<Longrightarrow> lex3 key (ks ! Suc (child_at key ks)) < 0"
proof -
  let ?P = "\<lambda>k. lex3 k key \<le> 0" and ?j = "child_at key ks"
  have j: "?j = length (takeWhile ?P (tl ks))" by (simp add: child_at_def)
  {
    assume p: "0 < ?j"
    then have i: "?j - 1 < length (takeWhile ?P (tl ks))" using j by simp
    then have "takeWhile ?P (tl ks) ! (?j - 1) = tl ks ! (?j - 1)" by (rule takeWhile_nth)
    moreover have "tl ks ! (?j - 1) = ks ! ?j" using p child_at_less [OF assms, of key] by (simp add: nth_tl)
    ultimately show "lex3 (ks ! ?j) key \<le> 0" using nth_mem [OF i] set_takeWhileD by metis
  }
  assume s: "Suc ?j < length ks"
  then have "length (takeWhile ?P (tl ks)) < length (tl ks)" using j by simp
  then have "\<not> ?P (tl ks ! ?j)" unfolding j by (rule nth_length_takeWhile)
  then have "\<not> lex3 (ks ! Suc ?j) key \<le> 0" using s by (simp add: nth_tl)
  then show "lex3 key (ks ! Suc ?j) < 0" using lex3_swap [of key "ks ! Suc ?j"] by simp
qed

lemma child_at_unique:
  assumes so: "\<And>i j. 0 < i \<Longrightarrow> i < j \<Longrightarrow> j < length ks \<Longrightarrow> lex3 (ks ! i) (ks ! j) < 0"
    and j: "j < length ks" "0 < j \<Longrightarrow> lex3 (ks ! j) key \<le> 0" "Suc j < length ks \<Longrightarrow> lex3 key (ks ! Suc j) < 0"
  shows "j = child_at key ks"
proof -
  have ne: "ks \<noteq> []" using j(1) by auto
  have no: False
    if "a < b" "b < length ks" "0 < b \<Longrightarrow> lex3 (ks ! b) key \<le> 0" "Suc a < length ks \<Longrightarrow> lex3 key (ks ! Suc a) < 0" for a b
  proof -
    have x: "lex3 (ks ! b) key \<le> 0" "lex3 key (ks ! Suc a) < 0" using that by auto
    show False
    proof (cases "Suc a = b")
      case True
      then show ?thesis using x lex3_swap [of key "ks ! b"] by simp
    next
      case False
      then have "lex3 (ks ! Suc a) (ks ! b) < 0" using so [of "Suc a" b] that by simp
      then have "lex3 (ks ! Suc a) key \<le> 0" using x(1) lex3_trans [of "ks ! Suc a" "ks ! b" key] by simp
      then show ?thesis using x(2) lex3_swap [of key "ks ! Suc a"] by simp
    qed
  qed
  show ?thesis
    using no [of j "child_at key ks"] no [of "child_at key ks" j] j child_at_bounds [OF ne, of key] child_at_less [OF ne, of key]
    by (metis linorder_neqE_nat)
qed

text \<open>Induction along the path of a key.\<close>

lemma path_induct [consumes 2, case_names Here Down]:
  assumes "bt_shape (d + l) t" "0 < l" "\<And>t. bt_shape l t \<Longrightarrow> P 0 t"
    and "\<And>d n ks ts. child_at key ks < length ts \<Longrightarrow> length ts = length ks \<Longrightarrow> ks \<noteq> [] \<Longrightarrow> bt_shape (Suc d + l) (Nd n ks ts)
      \<Longrightarrow> bt_shape (d + l) (ts ! child_at key ks) \<Longrightarrow> P d (ts ! child_at key ks) \<Longrightarrow> P (Suc d) (Nd n ks ts)"
  shows "P d t"
  using assms(1)
proof (induction d arbitrary: t)
  case (Suc d)
  show ?case
  proof (cases t)
    case (Nd n ks ts)
    then have 1: "length ts = length ks" "ks \<noteq> []" "\<forall>t \<in> set ts. bt_shape (d + l) t" using Suc.prems by auto
    then have "child_at key ks < length ts" using child_at_less [of ks key] by simp
    then show ?thesis using 1 Suc Nd by (auto intro!: assms(4))
  qed (use Suc.prems assms(2) in auto)
qed (use assms(3) in simp)

lemma sub_at_rep: "bt_rep f E s (d + l) t \<Longrightarrow> 0 < l \<Longrightarrow> bt_rep f E s l (sub_at key d t)"
proof -
  assume r: "bt_rep f E s (d + l) t" and l: "0 < l"
  from bt_rep_shape [OF r] l r show ?thesis by (induction rule: path_induct [where key = key]) auto
qed

lemma sub_at_shape: "bt_shape (d + l) t \<Longrightarrow> 0 < l \<Longrightarrow> bt_shape l (sub_at key d t)"
  by (induction rule: path_induct [where key = key]) auto

lemma sub_at_sorted: "bt_shape (d + l) t \<Longrightarrow> 0 < l \<Longrightarrow> bt_sorted f t \<Longrightarrow> bt_sorted f (sub_at key d t)"
  by (induction rule: path_induct [where key = key]) auto

lemma sub_at_all: "bt_shape (d + l) t \<Longrightarrow> 0 < l \<Longrightarrow> bt_all (sub_at key d t) \<subseteq> bt_all t"
  by (induction rule: path_induct [where key = key]) (auto simp: subset_iff)

lemma sub_at_step: "bt_shape (d + l) t \<Longrightarrow> 0 < l \<Longrightarrow> sub_at key d t = Nd n ks ts \<Longrightarrow> sub_at key (Suc d) t = ts ! child_at key ks"
  by (induction rule: path_induct [where key = key]) auto

text \<open>A key that is located in the subtree is located in the tree.\<close>

lemma located_sub:
  "bt_shape (d + l) t \<Longrightarrow> 0 < l \<Longrightarrow> bt_sorted None t \<Longrightarrow> located None key (sub_at key d t) Q \<Longrightarrow> located None key t Q"
proof (induction rule: path_induct [where key = key])
  case (Down d n ks ts)
  let ?j = "child_at key ks"
  have b: "0 < ?j \<Longrightarrow> cmp_of None (ks ! ?j) key \<le> 0" "Suc ?j < length ts \<Longrightarrow> cmp_of None key (ks ! Suc ?j) < 0"
    using child_at_bounds [OF Down(3), of key] Down(2) by auto
  have so: "bt_sorted None (Nd n ks ts)" by (rule Down)
  have "located None key (ts ! ?j) Q" using Down by auto
  moreover have "default_order.child_ok key ks ts 0 0 ?j"
    using default_order.child_okI [OF so Down(1,2) _ near_0 b, of "\<lparr>lsn = (0, 0), pgno = 0, prev_pgno = 0, next_pgno = 0, entries = 0,
       hf_offset = 0, level = 0, ptype = P_IBTREE, mem = []\<rparr>"] by simp
  ultimately show ?case
    unfolding default_order.child_ok_def by (intro located_child [OF _ Down(1) b]) auto
qed simp

section \<open>Another subtree\<close>

lemma graft_same: "bt_shape (d + l) t \<Longrightarrow> 0 < l \<Longrightarrow> graft key d (sub_at key d t) t = t"
  by (induction rule: path_induct [where key = key]) auto

lemma sub_graft: "bt_shape (d + l) t \<Longrightarrow> 0 < l \<Longrightarrow> sub_at key d (graft key d t' t) = t'"
  by (induction rule: path_induct [where key = key]) auto

lemma graft_pgno: "bt_shape (d + l) t \<Longrightarrow> 0 < l \<Longrightarrow> bt_pgno t' = bt_pgno (sub_at key d t) \<Longrightarrow> bt_pgno (graft key d t' t) = bt_pgno t"
  by (cases d; cases t) auto

text \<open>The pages above the subtree stay on the path.\<close>

lemma graft_path:
  "bt_shape (d + l) t \<Longrightarrow> 0 < l \<Longrightarrow> bt_pgno t' = bt_pgno (sub_at key d t) \<Longrightarrow> i \<le> d \<Longrightarrow>
    bt_pgno (sub_at key i (graft key d t' t)) = bt_pgno (sub_at key i t)"
proof (induction arbitrary: i rule: path_induct [where key = key])
  case (Down d n ks ts)
  then show ?case by (cases i) auto
qed simp

lemma concat_update: "j < length xs \<Longrightarrow> concat (map f (xs[j := y])) = concat (map f (take j xs)) @ f y @ concat (map f (drop (Suc j) xs))"
  by (simp add: upd_conv_take_nth_drop)

text \<open>What a tree collects from its subtrees in order: its leaves, its pages, its internal pages.\<close>

lemma graft_collect:
  assumes "\<And>n ks ts. F (Nd n ks ts) = h n @ concat (map F ts)"
  shows "bt_shape (d + l) t \<Longrightarrow> 0 < l \<Longrightarrow> \<exists>us vs. \<forall>t'. F (graft key d t' t) = us @ F t' @ vs"
proof (induction rule: path_induct [where key = key])
  case (Here t)
  have "\<forall>t'. F (graft key 0 t' t) = [] @ F t' @ []" by simp
  then show ?case by blast
next
  case (Down d n ks ts)
  let ?j = "child_at key ks"
  obtain us vs where u: "\<And>t'. F (graft key d t' (ts ! ?j)) = us @ F t' @ vs" using Down by blast
  show ?case
    by (intro exI [of _ "h n @ concat (map F (take ?j ts)) @ us"] exI [of _ "vs @ concat (map F (drop (Suc ?j) ts))"])
      (simp add: assms concat_update [OF Down(1)] u)
qed

lemma graft_all: "bt_shape (d + l) t \<Longrightarrow> 0 < l \<Longrightarrow> \<exists>A. \<forall>t'. bt_all (graft key d t' t) = A \<union> bt_all t'"
proof (induction rule: path_induct [where key = key])
  case (Here t)
  have "\<forall>t'. bt_all (graft key 0 t' t) = {} \<union> bt_all t'" by simp
  then show ?case by blast
next
  case (Down d n ks ts)
  let ?j = "child_at key ks"
  obtain A where A: "\<And>t'. bt_all (graft key d t' (ts ! ?j)) = A \<union> bt_all t'" using Down by blast
  have u: "set (ts[?j := x]) = set (take ?j ts) \<union> {x} \<union> set (drop (Suc ?j) ts)" for x using Down(1) by (auto simp: upd_conv_take_nth_drop)
  define P where "P = (\<Union>t \<in> set (take ?j ts). bt_all t)"
  define Q where "Q = (\<Union>t \<in> set (drop (Suc ?j) ts). bt_all t)"
  have "bt_all (graft key (Suc d) t' (Nd n ks ts)) = set (tl ks) \<union> (P \<union> (A \<union> bt_all t') \<union> Q)" for t'
  proof -
    have "(\<Union>t \<in> set (ts[?j := graft key d t' (ts ! ?j)]). bt_all t) = P \<union> bt_all (graft key d t' (ts ! ?j)) \<union> Q"
      unfolding u P_def Q_def by (simp add: Un_ac)
    then show ?thesis unfolding graft.simps(1) bt_all.simps(2) A [of t'] by simp
  qed
  then have "\<forall>t'. bt_all (graft key (Suc d) t' (Nd n ks ts)) = (set (tl ks) \<union> P \<union> A \<union> Q) \<union> bt_all t'" by (simp only: Un_ac) simp
  then show ?case by blast
qed

text \<open>Keys between keys of the old subtree stay in its place.\<close>

definition within :: "byte list set \<Rightarrow> byte list set \<Rightarrow> bool" where
  "within X Y \<longleftrightarrow> (\<forall>k \<in> X. \<exists>a \<in> Y. \<exists>b \<in> Y. lex3 a k \<le> 0 \<and> lex3 k b \<le> 0)"

lemma within_subset: "X \<subseteq> Y \<Longrightarrow> within X Y"
  unfolding within_def using lex3_refl by (auto intro!: bexI)

lemma within_Un:
  assumes "within X Y"
  shows "within (A \<union> X) (A \<union> Y)"
  unfolding within_def
proof
  fix k assume "k \<in> A \<union> X"
  then show "\<exists>a \<in> A \<union> Y. \<exists>b \<in> A \<union> Y. lex3 a k \<le> 0 \<and> lex3 k b \<le> 0"
  proof
    assume "k \<in> A"
    then show ?thesis using lex3_refl [of k] by (intro bexI [of _ k]) auto
  next
    assume "k \<in> X"
    then show ?thesis using assms unfolding within_def by blast
  qed
qed

lemma within_bounds:
  assumes "within X Y" "\<forall>k \<in> Y. (p \<longrightarrow> lex3 lo k \<le> 0) \<and> (q \<longrightarrow> lex3 k hi < 0)"
  shows "\<forall>k \<in> X. (p \<longrightarrow> lex3 lo k \<le> 0) \<and> (q \<longrightarrow> lex3 k hi < 0)"
proof
  fix k assume "k \<in> X"
  then obtain a b where ab: "a \<in> Y" "b \<in> Y" "lex3 a k \<le> 0" "lex3 k b \<le> 0" using assms(1) by (auto simp: within_def)
  show "(p \<longrightarrow> lex3 lo k \<le> 0) \<and> (q \<longrightarrow> lex3 k hi < 0)"
  proof -
    have "p \<longrightarrow> lex3 lo a \<le> 0" "q \<longrightarrow> lex3 b hi < 0" using assms(2) ab(1,2) by blast+
    moreover have "lex3 lo a \<le> 0 \<Longrightarrow> lex3 lo k \<le> 0" using lex3_trans [of lo a k] ab(3) by blast
    moreover have "lex3 b hi < 0 \<Longrightarrow> lex3 k hi < 0"
      by (rule default_order.le_less_trans [unfolded cmp_of_default, OF ab(4)])
    ultimately show ?thesis by blast
  qed
qed

lemma graft_sorted:
  assumes t': "bt_sorted LX t'" and lx: "cmp_of LX = lex3" and sh: "bt_shape (d + l) t" and l: "0 < l"
  shows "bt_sorted LX t \<Longrightarrow> within (bt_all t') (bt_all (sub_at key d t)) \<Longrightarrow> bt_sorted LX (graft key d t' t)"
  using sh l
proof (induction rule: path_induct [where key = key])
  case (Down d n ks ts)
  let ?j = "child_at key ks" let ?g = "graft key d t' (ts ! child_at key ks)"
  note j = Down(1) and sh = Down(5)
  have wi: "within (bt_all t') (bt_all (sub_at key d (ts ! ?j)))" using Down(8) by simp
  have "bt_sorted LX (ts ! ?j)" using Down(7) j by simp
  then have g: "bt_sorted LX ?g" using Down(6) wi by blast
  obtain A where A: "\<And>t'. bt_all (graft key d t' (ts ! ?j)) = A \<union> bt_all t'" using graft_all [OF sh l] by blast
  have "bt_all (ts ! ?j) = A \<union> bt_all (sub_at key d (ts ! ?j))" using A [of "sub_at key d (ts ! ?j)"] unfolding graft_same [OF sh l] .
  then have "within (bt_all ?g) (bt_all (ts ! ?j))" using within_Un [OF wi, of A] unfolding A by (simp only:)
  moreover have "\<forall>k \<in> bt_all (ts ! ?j). (0 < ?j \<longrightarrow> lex3 (ks ! ?j) k \<le> 0) \<and> (Suc ?j < length ts \<longrightarrow> lex3 k (ks ! Suc ?j) < 0)"
    using Down(7) j by (simp add: lx)
  ultimately have "\<forall>k \<in> bt_all ?g. (0 < ?j \<longrightarrow> lex3 (ks ! ?j) k \<le> 0) \<and> (Suc ?j < length ts \<longrightarrow> lex3 k (ks ! Suc ?j) < 0)"
    by (rule within_bounds)
  moreover have "\<forall>t \<in> set (ts[?j := ?g]). bt_sorted LX t" using Down(7) g by (auto dest: set_update_subset_insert [THEN subsetD])
  moreover have "(0 < i \<longrightarrow> lex3 (ks ! i) k \<le> 0) \<and> (Suc i < length ts \<longrightarrow> lex3 k (ks ! Suc i) < 0)"
    if "i < length ts" "k \<in> bt_all (ts[?j := ?g] ! i)" for i k
    using calculation(1) Down(7) that by (cases "i = ?j") (simp_all add: lx)
  ultimately show ?case using Down(7) by (simp add: lx)
qed (use t' in simp)

lemma graft_shape: "bt_shape (d + l) t \<Longrightarrow> 0 < l \<Longrightarrow> bt_shape l t' \<Longrightarrow> bt_shape (d + l) (graft key d t' t)"
  by (induction rule: path_induct [where key = key]) (auto dest: set_update_subset_insert [THEN subsetD])

end
