(* ===== verification/Bt_Pair.thy ===== *)
theory Bt_Pair
  imports Bt_Cursor Bt_Path
begin

text \<open>
  The search for a page and its parent, both held, that a split begins with: \<open>__bam_search\<close> of
  \<open>src/db/src/btree/bt_search.c\<close> with \<open>SR_WRPAIR\<close> and the level of the page, and \<open>__bam_stkrel\<close>, which gives the
  pages of the stack back.  The cursor's stack is the list of pages below the page that is found; it never
  grows beyond its first entries here, so that \<open>BT_STK_PUSH\<close> takes no memory.  As in \<open>Bt_Search\<close> the page locks are
  granted at once.  The lemma: the search holds the page of the level on the path of the key, and its parent with
  the index of the page.
\<close>

section \<open>The code\<close>

definition SR_WRPAIR :: sflags where "SR_WRPAIR = (SR_NONE True)\<lparr>sr_duplast := True\<rparr>"

text \<open>\<open>__bam_stkrel\<close>.\<close>

fun bam_stkrel :: "penv \<Rightarrow> pager \<Rightarrow> u32 list \<Rightarrow> int \<Rightarrow> pager \<times> int" where
  "bam_stkrel E s [] ret = (s, ret)"
| "bam_stkrel E s (n # ns) ret = (case memp_fput E s n of (s1, t) \<Rightarrow> bam_stkrel E s1 ns (keep ret t))"

text \<open>\<open>__bam_get_root\<close>: the root is dirtied when it is on the stack, as the page or as its parent.\<close>

definition pair_root :: "penv \<Rightarrow> pager \<Rightarrow> u32 \<Rightarrow> nat \<Rightarrow> pager \<times> int \<times> bool" where
  "pair_root E s root lv =
     (case memp_fget E s root of (s1, e) \<Rightarrow>
        if e \<noteq> 0 then (s1, e, False)
        else if (lv + 1) mod 256 \<ge> unat (level (pg_of s1 root)) \<or> level (pg_of s1 root) = LEAFLEVEL then
          (case memp_dirty E s1 root of (s2, e, gone) \<Rightarrow>
             if e \<noteq> 0 then (if gone then s2 else fst (memp_fput E s2 root), e, False) else (s2, 0, True))
        else (s1, 0, False))"

text \<open>The body of the loop on a page; it stops at a leaf and at the level.\<close>

definition pair_turn ::
    "btree_h \<Rightarrow> pager \<Rightarrow> stream \<Rightarrow> byte list \<Rightarrow> (byte list \<Rightarrow> byte list \<Rightarrow> int) option \<Rightarrow> page \<Rightarrow> nat
      \<Rightarrow> nat \<Rightarrow> nat \<Rightarrow> (pager \<times> stream \<times> turn \<times> nat \<times> nat) option" where
  "pair_turn B s c key f h lv pos_l pos_h =
     (let adjust = (if ptype h = P_LBTREE then 2 else 1); stop = (level h = LEAFLEVEL \<or> unat (level h) = lv) in
      case bam_bsearch B s c key h f adjust 0 (NUM_ENT h div adjust) pos_l pos_h of
        None \<Rightarrow> None
      | Some (s1, c1, p, pl, ph) \<Rightarrow>
          Some (s1, c1,
            (case p of
               Bad e \<Rightarrow> Fails e
             | Equal i \<Rightarrow>
                 if stop then (case bam_found (pdb (bt_env B)) SR_WRPAIR h i of (e, i') \<Rightarrow> if e \<noteq> 0 then Fails e else Stop i' True)
                 else Child i
             | Between base \<Rightarrow> if stop then Stop base False else Child (if base > 0 then base - 1 else base)), pl, ph))"

text \<open>
  One turn of the loop, on the page \<open>n\<close>: the result of the search, or the next page.  \<open>stack\<close>: the pages from
  here on are kept; \<open>ps\<close> are those kept so far, with the index of the child.
\<close>

type_synonym pair_result = "pager \<times> stream \<times> int \<times> ((u32 \<times> nat) list \<times> u32 \<times> nat) option"
type_synonym pair_state = "pager \<times> stream \<times> bool \<times> (u32 \<times> nat) list \<times> u32 \<times> nat \<times> nat"

definition pair_err :: "penv \<Rightarrow> pager \<Rightarrow> stream \<Rightarrow> (u32 \<times> nat) list \<Rightarrow> u32 option \<Rightarrow> u32 option \<Rightarrow> int \<Rightarrow> pair_result" where
  "pair_err E s c ps h parent ret =
     (case search_err E s h parent ret of (t, e) \<Rightarrow> (fst (bam_stkrel E t (map fst ps) 0), c, e, None))"

fun pair_step ::
    "btree_h \<Rightarrow> byte list \<Rightarrow> (byte list \<Rightarrow> byte list \<Rightarrow> int) option \<Rightarrow> nat \<Rightarrow> pair_state \<Rightarrow> (pair_result + pair_state) option" where
  "pair_step B key f lv (s, c, stack, ps, n, pos_l, pos_h) =
     (let E = bt_env B; h = pg_of s n; lev = unat (level h); fail = (\<lambda>s c ps g p e. Some (Inl (pair_err E s c ps g p e))) in
      if ptype h \<noteq> P_LBTREE \<and> ptype h \<noteq> P_LDUP \<and> NUM_ENT h = 0 then
        (case memp_fput E s n of
           (s1, e) \<Rightarrow> if e \<noteq> 0 then fail s1 c ps (Some n) None e
                     else (case memp_fget E s1 n of
                             (s2, e) \<Rightarrow> if e \<noteq> 0 then fail s2 c ps None None e
                                       else Some (Inr (s2, c, stack, ps, n, pos_l, pos_h))))
      else case pair_turn B s c key f h lv pos_l pos_h of
        None \<Rightarrow> None
      | Some (s1, c1, Fails e, pl, ph) \<Rightarrow> fail s1 c1 ps (Some n) None e
      | Some (s1, c1, Stop i ex, pl, ph) \<Rightarrow> Some (Inl (s1, c1, 0, Some (ps, n, i)))
      | Some (s1, c1, Child i, pl, ph) \<Rightarrow>
          (let pg = bi_pgno (mem h) (inp (pdb E) (mem h) i) in
           case memp_fget E s1 pg of
             (s2, e) \<Rightarrow>
               if stack then
                 (if e \<noteq> 0 then fail s2 c1 (ps @ [(n, i)]) None None e
                  else Some (Inr (s2, c1, True, ps @ [(n, i)], pg, pl, ph)))
               else if e \<noteq> 0 then fail s2 c1 ps None (Some n) e
               else (case memp_fput E s2 n of
                       (s3, e) \<Rightarrow> if e \<noteq> 0 then fail s3 c1 ps (Some pg) (Some n) e
                                 else Some (Inr (s3, c1, (lv + 1) mod 256 \<ge> lev - 1 \<or> lev - 1 = 1, ps, pg, pl, ph)))))"

declare pair_step.simps [simp del]

partial_function (option) pair_descend ::
    "btree_h \<Rightarrow> byte list \<Rightarrow> (byte list \<Rightarrow> byte list \<Rightarrow> int) option \<Rightarrow> nat \<Rightarrow> pair_state \<Rightarrow> pair_result option" where
  "pair_descend B key f lv x =
     (case pair_step B key f lv x of
        None \<Rightarrow> None | Some (Inl r) \<Rightarrow> Some r | Some (Inr x') \<Rightarrow> pair_descend B key f lv x')"

definition pair_search :: "btree_h \<Rightarrow> pager \<Rightarrow> stream \<Rightarrow> u32 \<Rightarrow> byte list \<Rightarrow> nat \<Rightarrow> pair_result option" where
  "pair_search B s c root key lv =
     (case pair_root (bt_env B) s root lv of (s1, e, stack) \<Rightarrow>
        if e \<noteq> 0 then Some (s1, c, e, None)
        else if unat (level (pg_of s1 root)) < lv then Some (s1, c, 0, Some ([], root, 0))
        else pair_descend B key (bt_cmp B) lv (s1, c, stack, [], root, 0, 0))"

section \<open>What the search holds\<close>

text \<open>Where it does not stop, or stops at a leaf, the body is that of the search of a leaf.\<close>

lemma pair_turn_page:
  assumes "level h = LEAFLEVEL \<or> unat (level h) \<noteq> lv"
  shows "pair_turn B s c key f h lv pl ph = bam_page B s c key SR_WRPAIR f h pl ph"
proof -
  have "\<not> sr_min SR_WRPAIR" "\<not> sr_max SR_WRPAIR" "\<not> sr_exact SR_WRPAIR" by (simp_all add: SR_WRPAIR_def SR_NONE_def)
  then show ?thesis using assms by (auto simp: pair_turn_def bam_page_def Let_def split: option.splits pos.splits)
qed

lemma pair_turn_stop:
  assumes "level h \<noteq> LEAFLEVEL" "unat (level h) = lv" "bam_page B s c key SR_WRPAIR f h pl ph = Some (t, c', Child i, pl', ph')"
  shows "\<exists>j ex. pair_turn B s c key f h lv pl ph = Some (t, c', Stop j ex, pl', ph')"
proof -
  have f: "\<not> sr_min SR_WRPAIR" "\<not> sr_max SR_WRPAIR" "\<not> sr_delno SR_WRPAIR" by (simp_all add: SR_WRPAIR_def SR_NONE_def)
  obtain r where r: "bam_bsearch B s c key h f (if ptype h = P_LBTREE then 2 else 1) 0 (NUM_ENT h div (if ptype h = P_LBTREE then 2 else 1)) pl ph = r"
    by blast
  show ?thesis
    using assms f unfolding pair_turn_def bam_page_def Let_def r
    by (auto simp: bam_found_def Let_def split: option.splits pos.splits)
qed

lemma child_ok_at:
  assumes "default_order.child_ok key ks ts pl ph j" "bt_sorted None (Nd n ks ts)" "length ts = length ks"
  shows "j = child_at key ks"
  using assms by (intro child_at_unique) (auto simp: default_order.child_ok_def)

text \<open>The parent of a level on the path of the key, with the index of the child.\<close>

definition path_parent :: "byte list \<Rightarrow> nat \<Rightarrow> bt \<Rightarrow> (u32 \<times> nat) list" where
  "path_parent key d t =
     (case d of 0 \<Rightarrow> [] | Suc d' \<Rightarrow> (case sub_at key d' t of Nd n ks ts \<Rightarrow> [(n, child_at key ks)] | Lf n ks \<Rightarrow> []))"

text \<open>The state after a search that holds pages.\<close>

definition holding :: "pager \<Rightarrow> pager \<Rightarrow> (u32 \<Rightarrow> int) \<Rightarrow> bool" where
  "holding s u p \<longleftrightarrow> same_pages s u \<and> m_locks u = m_locks s \<and> pins u = (\<lambda>m. pins s m + p m)"

definition one :: "u32 \<Rightarrow> u32 \<Rightarrow> int" where "one n m = (if m = n then 1 else 0)"

lemma quiet_holding: "quiet E s u \<Longrightarrow> no_io_errors E \<Longrightarrow> holding s u (\<lambda>_. 0)"
  by (simp add: quiet_def no_io_errors_def holding_def)

lemma holding_trans: "holding s u p \<Longrightarrow> holding u v q \<Longrightarrow> holding s v (\<lambda>m. p m + q m)"
  using same_pages_trans by (auto simp: holding_def add.assoc)

lemma fget_holding:
  assumes "no_io_errors E" "pages s n \<noteq> None" "memp_fget E s n = (t, e)"
  shows "e = 0 \<and> holding s t (one n)"
  using memp_fget_spec [OF assms(3)] assms(1,2) by (auto simp: no_io_errors_def holding_def one_def)

lemma fput_holding:
  assumes "no_io_errors E" "memp_fput E s n = (t, e)"
  shows "e = 0 \<and> holding s t (\<lambda>m. - one n m)"
  using memp_fput_spec [OF assms(2)] assms(1) by (auto simp: no_io_errors_def holding_def one_def)

lemma holding_rep: "holding s u p \<Longrightarrow> bt_rep f E u l t = bt_rep f E s l t"
  by (simp add: holding_def bt_rep_same)

lemma holding_pg: "holding s u p \<Longrightarrow> pg_of u = pg_of s"
  by (auto simp: holding_def same_pages_def pg_of_def)

text \<open>The turn of the loop above the level: it goes on to the child on the path.\<close>

lemma pair_step_child:
  assumes io: "no_io_errors (bt_env B)" and rep: "bt_rep None (bt_env B) s (Suc l) (Nd n ks ts)" and so: "bt_sorted None (Nd n ks ts)"
    and nr: "near None key pl ph (bt_all (Nd n ks ts))" and lv: "lv \<noteq> Suc l"
  shows "\<exists>u pl' ph'. near None key pl' ph' (bt_all (ts ! child_at key ks)) \<and>
      pair_step B key None lv (s, c, stack, ps, n, pl, ph) =
        Some (Inr (u, c, if stack then True else (lv + 1) mod 256 \<ge> l \<or> l = 1,
          if stack then ps @ [(n, child_at key ks)] else ps, bt_pgno (ts ! child_at key ks), pl', ph'))
    \<and> holding s u (\<lambda>m. one (bt_pgno (ts ! child_at key ks)) m - (if stack then 0 else one n m))"
proof -
  let ?E = "bt_env B" and ?h = "pg_of s n"
  have f: "\<not> sr_min SR_WRPAIR" "\<not> sr_max SR_WRPAIR" by (simp_all add: SR_WRPAIR_def SR_NONE_def)
  have ty: "ptype ?h = P_IBTREE" "NUM_ENT ?h \<noteq> 0" "unat (level ?h) = Suc l" "0 < l" "length ts = length ks"
    and ch: "\<And>j. j < length ts \<Longrightarrow> bi_pgno (mem ?h) (inp (pdb ?E) (mem ?h) j) = bt_pgno (ts ! j)"
    and sub: "\<And>j. j < length ts \<Longrightarrow> bt_rep None ?E s l (ts ! j)"
    using rep by auto
  from default_order.page_node [OF rep so nr f, of c] obtain s1 r pl' ph' where
    1: "bam_page B s c key SR_WRPAIR None ?h pl ph = Some (s1, c, r, pl', ph')" "quiet ?E s s1"
    and res: "case r of Fails e \<Rightarrow> e \<noteq> 0 \<and> \<not> no_io_errors ?E | Stop i ex \<Rightarrow> False | Child i \<Rightarrow> default_order.child_ok key ks ts pl' ph' i"
    by blast
  then obtain j where j: "r = Child j" "default_order.child_ok key ks ts pl' ph' j" using io by (cases r) auto
  have jj: "j = child_at key ks" using child_ok_at [OF j(2) so ty(5)] .
  have jl: "j < length ts" and nr': "near None key pl' ph' (bt_all (ts ! j))" using j(2) by (simp_all add: default_order.child_ok_def)
  have turn: "pair_turn B s c key None ?h lv pl ph = Some (s1, c, Child j, pl', ph')"
    using pair_turn_page [of ?h lv B s c key None pl ph] 1(1) j(1) ty(3) lv by simp
  define g where "g = bt_pgno (ts ! j)"
  obtain s2 e2 where 2: "memp_fget ?E s1 g = (s2, e2)" by fastforce
  note h1 = quiet_holding [OF 1(2) io]
  have "pages s1 g \<noteq> None" using bt_rep_notin [OF sub [OF jl]] h1 by (simp add: g_def holding_def same_pages_def)
  from fget_holding [OF io this 2] have e2: "e2 = 0" and h2: "holding s1 s2 (one g)" by simp_all
  obtain s3 e3 where 3: "memp_fput ?E s2 n = (s3, e3)" by fastforce
  from fput_holding [OF io 3] have e3: "e3 = 0" and h3: "holding s2 s3 (\<lambda>m. - one n m)" by simp_all
  have cg: "bi_pgno (mem ?h) (inp (pdb ?E) (mem ?h) j) = g" using ch [OF jl] by (simp add: g_def)
  have nl: "\<not> (ptype ?h \<noteq> P_LBTREE \<and> ptype ?h \<noteq> P_LDUP \<and> NUM_ENT ?h = 0)" using ty(2) by simp
  have step: "pair_step B key None lv (s, c, stack, ps, n, pl, ph) =
      Some (Inr (if stack then s2 else s3, c, if stack then True else (lv + 1) mod 256 \<ge> l \<or> l = 1,
          if stack then ps @ [(n, j)] else ps, g, pl', ph'))"
    unfolding pair_step.simps Let_def if_not_P [OF nl] turn option.case prod.case turn.case cg 2 e2 3 e3 ty(3) by simp
  have "holding s (if stack then s2 else s3) (\<lambda>m. one g m - (if stack then 0 else one n m))"
    using holding_trans [OF h1 h2] holding_trans [OF holding_trans [OF h1 h2] h3] by (cases stack) simp_all
  then show ?thesis using step nr' unfolding jj g_def by blast
qed

text \<open>The turn at the level stops.\<close>

lemma pair_step_stop:
  assumes io: "no_io_errors (bt_env B)" and rep: "bt_rep None (bt_env B) s lv t" and so: "bt_sorted None t"
    and nr: "near None key pl ph (bt_all t)"
  shows "\<exists>u i. pair_step B key None lv (s, c, stack, ps, bt_pgno t, pl, ph) = Some (Inl (u, c, 0, Some (ps, bt_pgno t, i)))
    \<and> holding s u (\<lambda>_. 0)"
proof (cases t)
  case (Lf n ks)
  let ?E = "bt_env B" and ?h = "pg_of s n"
  have f: "\<not> sr_min SR_WRPAIR" "\<not> sr_max SR_WRPAIR" "\<not> sr_exact SR_WRPAIR" "\<not> sr_delno SR_WRPAIR" by (simp_all add: SR_WRPAIR_def SR_NONE_def)
  obtain l where l: "lv = Suc l" using rep by (cases lv) auto
  have lo: "leaf_ok None ?E s ?h ks" using rep Lf l by simp
  have ty: "ptype ?h = P_LBTREE" "level ?h = LEAFLEVEL" using lo by (simp_all add: leaf_ok_def)
  have "near None key pl ph (set ks)" using nr Lf by simp
  from default_order.page_leaf [OF lo this f(1,2), of c] obtain s1 r pl' ph' where
    1: "bam_page B s c key SR_WRPAIR None ?h pl ph = Some (s1, c, r, pl', ph')" "quiet ?E s s1"
    and res: "case r of
         Fails e \<Rightarrow> e \<noteq> 0 \<and> (no_io_errors ?E \<longrightarrow> e = DB_NOTFOUND \<and> none_ok None SR_WRPAIR (pdb ?E) ?h key ks)
       | Child i \<Rightarrow> False | Stop i ex \<Rightarrow> \<exists>j. i = 2 * j \<and> stop_ok None SR_WRPAIR (pdb ?E) ?h key ks j ex" by blast
  then obtain i ex where r: "r = Stop i ex" using io f(3,4) by (cases r) (auto simp: none_ok_def)
  have "pair_turn B s c key None ?h lv pl ph = Some (s1, c, Stop i ex, pl', ph')"
    using pair_turn_page [of ?h lv B s c key None pl ph] 1(1) r ty(2) by simp
  then show ?thesis using quiet_holding [OF 1(2) io] ty by (auto simp: Lf pair_step.simps Let_def)
next
  case (Nd n ks ts)
  let ?E = "bt_env B" and ?h = "pg_of s n"
  have f: "\<not> sr_min SR_WRPAIR" "\<not> sr_max SR_WRPAIR" by (simp_all add: SR_WRPAIR_def SR_NONE_def)
  obtain l where l: "lv = Suc l" using rep by (cases lv) auto
  have ty: "ptype ?h = P_IBTREE" "NUM_ENT ?h \<noteq> 0" "unat (level ?h) = lv" "0 < l" using rep Nd l by auto
  have lf: "level ?h \<noteq> LEAFLEVEL"
  proof
    assume "level ?h = LEAFLEVEL"
    then show False using ty(3,4) l by (simp add: LEAFLEVEL_def)
  qed
  from default_order.page_node [OF _ _ _ f, of B s l n ks ts key pl ph c] rep so nr obtain s1 r pl' ph' where
    1: "bam_page B s c key SR_WRPAIR None ?h pl ph = Some (s1, c, r, pl', ph')" "quiet ?E s s1"
    and res: "case r of Fails e \<Rightarrow> e \<noteq> 0 \<and> \<not> no_io_errors ?E | Stop i ex \<Rightarrow> False | Child i \<Rightarrow> default_order.child_ok key ks ts pl' ph' i"
    unfolding Nd l by blast
  then obtain j where j: "r = Child j" using io by (cases r) auto
  from pair_turn_stop [OF lf ty(3), of B s c key None pl ph s1 c j pl' ph'] 1(1) j obtain i ex where
    "pair_turn B s c key None ?h lv pl ph = Some (s1, c, Stop i ex, pl', ph')" by blast
  then show ?thesis using quiet_holding [OF 1(2) io] ty by (auto simp: Nd pair_step.simps Let_def)
qed

lemma pair_at:
  assumes "no_io_errors (bt_env B)" "bt_rep None (bt_env B) s lv t" "bt_sorted None t" "near None key pl ph (bt_all t)"
  shows "\<exists>u i. pair_descend B key None lv (s, c, stack, ps, bt_pgno t, pl, ph) = Some (u, c, 0, Some (ps, bt_pgno t, i))
    \<and> holding s u (\<lambda>_. 0)"
proof -
  from pair_step_stop [OF assms, of c stack ps] obtain u i where
    "pair_step B key None lv (s, c, stack, ps, bt_pgno t, pl, ph) = Some (Inl (u, c, 0, Some (ps, bt_pgno t, i)))" "holding s u (\<lambda>_. 0)"
    by blast
  then show ?thesis by (subst pair_descend.simps) simp
qed

lemma pair_above:
  assumes io: "no_io_errors (bt_env B)" and lv: "0 < lv"
  shows "bt_rep None (bt_env B) s (Suc k + lv) t \<Longrightarrow> bt_sorted None t \<Longrightarrow> near None key pl ph (bt_all t) \<Longrightarrow> Suc k + lv \<le> 255 \<Longrightarrow>
    \<exists>u i. pair_descend B key None lv (s, c, k = 0, [], bt_pgno t, pl, ph) =
        Some (u, c, 0, Some (path_parent key (Suc k) t, bt_pgno (sub_at key (Suc k) t), i))
    \<and> holding s u (\<lambda>m. one (bt_pgno (sub_at key (Suc k) t)) m + one (bt_pgno (sub_at key k t)) m - one (bt_pgno t) m)"
proof (induction k arbitrary: s t pl ph)
  case 0
  then obtain n ks ts where t: "t = Nd n ks ts" using lv by (cases t) auto
  have rep: "bt_rep None (bt_env B) s (Suc lv) (Nd n ks ts)" "bt_sorted None (Nd n ks ts)" "near None key pl ph (bt_all (Nd n ks ts))"
    using 0 by (simp_all add: t)
  let ?g = "ts ! child_at key ks"
  obtain u pl' ph' where 1: "near None key pl' ph' (bt_all ?g)"
    "pair_step B key None lv (s, c, True, [], n, pl, ph) = Some (Inr (u, c, True, [(n, child_at key ks)], bt_pgno ?g, pl', ph'))"
    "holding s u (one (bt_pgno ?g))"
    using pair_step_child [OF io rep, of lv c True "[]"] by auto
  have sh: "bt_shape (1 + lv) (Nd n ks ts)" using bt_rep_shape [OF rep(1)] by simp
  have g: "bt_rep None (bt_env B) s lv ?g" "bt_sorted None ?g"
    using sub_at_rep [of None "bt_env B" s 1 lv "Nd n ks ts" key] sub_at_sorted [OF sh lv rep(2), of key] rep(1) lv by simp_all
  from pair_at [where s = u and lv = lv and c = c and stack = True and ps = "[(n, child_at key ks)]", OF io _ g(2) 1(1)] g(1) holding_rep [OF 1(3)] obtain v i where
    2: "pair_descend B key None lv (u, c, True, [(n, child_at key ks)], bt_pgno ?g, pl', ph') =
      Some (v, c, 0, Some ([(n, child_at key ks)], bt_pgno ?g, i))" "holding u v (\<lambda>_. 0)" by blast
  have "pair_descend B key None lv (s, c, True, [], n, pl, ph) = Some (v, c, 0, Some ([(n, child_at key ks)], bt_pgno ?g, i))"
    by (subst pair_descend.simps) (simp add: 1(2) 2(1))
  then show ?case using holding_trans [OF 1(3) 2(2)] by (simp add: t path_parent_def)
next
  case (Suc k)
  then obtain n ks ts where t: "t = Nd n ks ts" using lv by (cases t) auto
  have rep: "bt_rep None (bt_env B) s (Suc (Suc k + lv)) (Nd n ks ts)" "bt_sorted None (Nd n ks ts)" "near None key pl ph (bt_all (Nd n ks ts))"
    using Suc.prems by (simp_all add: t)
  let ?g = "ts ! child_at key ks"
  have st: "((lv + 1) mod 256 \<ge> Suc k + lv \<or> Suc k + lv = 1) = (k = 0)" using Suc.prems(4) lv by auto
  obtain u pl' ph' where 1: "near None key pl' ph' (bt_all ?g)"
    "pair_step B key None lv (s, c, False, [], n, pl, ph) = Some (Inr (u, c, k = 0, [], bt_pgno ?g, pl', ph'))"
    "holding s u (\<lambda>m. one (bt_pgno ?g) m - one n m)"
    using pair_step_child [OF io rep, of lv c False "[]"] unfolding st by auto
  have sh: "bt_shape (1 + (Suc k + lv)) (Nd n ks ts)" using bt_rep_shape [OF rep(1)] by simp
  have g: "bt_rep None (bt_env B) s (Suc k + lv) ?g" "bt_sorted None ?g"
    using sub_at_rep [of None "bt_env B" s 1 "Suc k + lv" "Nd n ks ts" key] sub_at_sorted [OF sh _ rep(2), of key] rep(1) by simp_all
  have gu: "bt_rep None (bt_env B) u (Suc k + lv) ?g" "Suc k + lv \<le> 255"
    using g(1) Suc.prems(4) unfolding holding_rep [OF 1(3)] by simp_all
  from Suc.IH [OF gu(1) g(2) 1(1) gu(2)] obtain v i where
    2: "pair_descend B key None lv (u, c, k = 0, [], bt_pgno ?g, pl', ph') =
      Some (v, c, 0, Some (path_parent key (Suc k) ?g, bt_pgno (sub_at key (Suc k) ?g), i))"
    "holding u v (\<lambda>m. one (bt_pgno (sub_at key (Suc k) ?g)) m + one (bt_pgno (sub_at key k ?g)) m - one (bt_pgno ?g) m)" by blast
  have "pair_descend B key None lv (s, c, False, [], n, pl, ph) = Some (v, c, 0, Some (path_parent key (Suc k) ?g, bt_pgno (sub_at key (Suc k) ?g), i))"
    by (subst pair_descend.simps) (simp add: 1(2) 2(1))
  then show ?case using holding_trans [OF 1(3) 2(2)] by (simp add: t path_parent_def algebra_simps)
qed

lemma pair_root_spec:
  assumes io: "no_io_errors E" and n: "pages s root \<noteq> None" "unat (level (pg_of s root)) = l"
  shows "\<exists>u. pair_root E s root lv = (u, 0, (lv + 1) mod 256 \<ge> l \<or> l = 1) \<and> holding s u (one root)"
proof -
  obtain s1 e1 where 1: "memp_fget E s root = (s1, e1)" by fastforce
  obtain s2 e2 g where 2: "memp_dirty E s1 root = (s2, e2, g)" by (cases "memp_dirty E s1 root") auto
  note D = memp_dirty_spec [OF 2]
  have h: "e1 = 0" "holding s s1 (one root)" using fget_holding [OF io n(1) 1] by simp_all
  have e: "e2 = 0" "\<not> g" using D(4,6) io by (auto simp: no_io_errors_def)
  have "holding s1 s2 (\<lambda>_. 0)" using D(1-3) e by (simp add: holding_def)
  then have h2: "holding s s2 (one root)" using holding_trans [OF h(2)] by fastforce
  have lf: "level (pg_of s1 root) = LEAFLEVEL \<longleftrightarrow> l = 1"
    using n(2) by (auto simp: holding_pg [OF h(2)] LEAFLEVEL_def word_unat_eq_iff)
  show ?thesis
  proof (cases "(lv + 1) mod 256 \<ge> l \<or> l = 1")
    case True
    then have "pair_root E s root lv = (s2, 0, True)" using h(1) e by (simp add: pair_root_def 1 2 holding_pg [OF h(2)] n(2) lf [unfolded holding_pg [OF h(2)]])
    then show ?thesis using True h2 by auto
  next
    case False
    then have "pair_root E s root lv = (s1, 0, False)" using h(1) by (simp add: pair_root_def 1 holding_pg [OF h(2)] n(2) lf [unfolded holding_pg [OF h(2)]])
    then show ?thesis using False h(2) by auto
  qed
qed

text \<open>The search finds the page at the level on the path of the key, and its parent.\<close>

lemma pair_search_finds:
  assumes io: "no_io_errors (bt_env B)" and cmp: "bt_cmp B = None" and rep: "bt_rep None (bt_env B) s (k + lv) t" "bt_sorted None t"
    and lv: "0 < lv" "k + lv \<le> 255"
  shows "\<exists>u i. pair_search B s c (bt_pgno t) key lv = Some (u, c, 0, Some (path_parent key k t, bt_pgno (sub_at key k t), i))
    \<and> holding s u (\<lambda>m. one (bt_pgno (sub_at key k t)) m + (if k = 0 then 0 else one (bt_pgno (sub_at key (k - 1) t)) m))"
proof -
  let ?E = "bt_env B" and ?n = "bt_pgno t"
  have n: "pages s ?n \<noteq> None" "unat (level (pg_of s ?n)) = k + lv" using rep(1) lv(1) by (cases "k + lv"; auto)+
  from pair_root_spec [OF io n, of lv] obtain s1 where
    1: "pair_root ?E s ?n lv = (s1, 0, (lv + 1) mod 256 \<ge> k + lv \<or> k + lv = 1)" "holding s s1 (one ?n)" by blast
  have rep1: "bt_rep None ?E s1 (k + lv) t" using rep(1) holding_rep [OF 1(2)] by blast
  have run: "pair_search B s c ?n key lv = pair_descend B key None lv (s1, c, (lv + 1) mod 256 \<ge> k + lv \<or> k + lv = 1, [], ?n, 0, 0)"
    using n(2) by (simp add: pair_search_def 1(1) cmp holding_pg [OF 1(2)])
  show ?thesis
  proof (cases k)
    case 0
    have "bt_rep None ?E s1 lv t" using rep1 0 by simp
    from pair_at [where key = key and c = c, OF io this rep(2) near_0] obtain u i where
      "pair_search B s c ?n key lv = Some (u, c, 0, Some ([], ?n, i))" "holding s1 u (\<lambda>_. 0)" unfolding run by blast
    then show ?thesis using holding_trans [OF 1(2)] 0 by (fastforce simp: path_parent_def)
  next
    case (Suc k')
    have "((lv + 1) mod 256 \<ge> k + lv \<or> k + lv = 1) = (k' = 0)" using lv Suc by auto
    then have run: "pair_search B s c ?n key lv = pair_descend B key None lv (s1, c, k' = 0, [], ?n, 0, 0)" using run by simp
    have "bt_rep None ?E s1 (Suc k' + lv) t" "Suc k' + lv \<le> 255" using rep1 lv Suc by simp_all
    from pair_above [where key = key and c = c, OF io lv(1) this(1) rep(2) near_0 this(2)] obtain u i where
      "pair_search B s c ?n key lv = Some (u, c, 0, Some (path_parent key (Suc k') t, bt_pgno (sub_at key (Suc k') t), i))"
      "holding s1 u (\<lambda>m. one (bt_pgno (sub_at key (Suc k') t)) m + one (bt_pgno (sub_at key k' t)) m - one ?n m)" unfolding run by blast
    then show ?thesis using holding_trans [OF 1(2)] Suc by (fastforce simp: algebra_simps)
  qed
qed

lemma bam_stkrel_fine:
  assumes "no_io_errors E"
  shows "\<exists>u. bam_stkrel E s ns ret = (u, ret) \<and> holding s u (\<lambda>m. - (\<Sum>n \<leftarrow> ns. one n m))"
proof (induction ns arbitrary: s)
  case (Cons n ns)
  obtain s1 e where 1: "memp_fput E s n = (s1, e)" by fastforce
  have h: "e = 0" "holding s s1 (\<lambda>m. - one n m)" using fput_holding [OF assms 1] by simp_all
  obtain u where 2: "bam_stkrel E s1 ns ret = (u, ret)" "holding s1 u (\<lambda>m. - (\<Sum>n \<leftarrow> ns. one n m))" using Cons.IH by blast
  have "holding s u (\<lambda>m. - one n m + - (\<Sum>n \<leftarrow> ns. one n m))" using holding_trans [OF h(2) 2(2)] .
  moreover have "(\<lambda>m. - one n m + - (\<Sum>n \<leftarrow> ns. one n m)) = (\<lambda>m. - (\<Sum>n \<leftarrow> n # ns. one n m))" by (intro ext) simp
  ultimately show ?case using 1 2(1) h(1) by (simp add: keep_def)
qed (simp add: holding_def same_pages_def)

section \<open>Properties\<close>

text \<open>C9: the search that a split begins with returns 0 on every tree of at most 255 levels.  It
  has changed no page, and holds the page of the asked level on the path of the key and, unless that is the root, its
  parent, with the index of the page in the parent; every other page that it has read is given back.\<close>

theorem split_search_holds_pair:
  assumes "no_io_errors (bt_env B)" "bt_cmp B = None" "bt_rep None (bt_env B) s (k + lv) t" "bt_sorted None t"
    and "0 < lv" "k + lv \<le> 255"
  shows "\<exists>u i. pair_search B s c (bt_pgno t) key lv = Some (u, c, 0, Some (path_parent key k t, bt_pgno (sub_at key k t), i))
    \<and> holding s u (\<lambda>m. one (bt_pgno (sub_at key k t)) m + (if k = 0 then 0 else one (bt_pgno (sub_at key (k - 1) t)) m))"
  by (rule pair_search_finds [OF assms])

text \<open>The leaf of the key \<open>D\<close> in a tree of two levels, and the root above it.\<close>

theorem split_search_holds_pair_witness:
  "\<exists>u i. pair_search demo_handle demo_pages \<lparr>stream_start = 0, stream_curr = 0, stream_off = 0\<rparr> 1 [68] 1
      = Some (u, \<lparr>stream_start = 0, stream_curr = 0, stream_off = 0\<rparr>, 0, Some ([(1, 1)], 3, i))
    \<and> pages u = pages demo_pages \<and> pins u 1 = 1 \<and> pins u 2 = 0 \<and> pins u 3 = 1"
proof -
  have at: "child_at [68] [[], [66]] = 1" by (simp add: child_at_def)
  have p: "path_parent [68] 1 demo_tree = [(1, 1)]" "bt_pgno (sub_at [68] 1 demo_tree) = 3" "bt_pgno demo_tree = 1"
    "sub_at [68] 0 demo_tree = demo_tree"
    using at by (simp_all add: demo_tree_def path_parent_def)
  have "bt_rep None (bt_env demo_handle) demo_pages (1 + 1) demo_tree" using demo_rep by (simp add: numeral_2_eq_2)
  from split_search_holds_pair [OF demo_env(3,2) this demo_sorted, of "\<lparr>stream_start = 0, stream_curr = 0, stream_off = 0\<rparr>" "[68]"]
  obtain u i where u: "pair_search demo_handle demo_pages \<lparr>stream_start = 0, stream_curr = 0, stream_off = 0\<rparr> 1 [68] 1
      = Some (u, \<lparr>stream_start = 0, stream_curr = 0, stream_off = 0\<rparr>, 0, Some ([(1, 1)], 3, i))"
    "holding demo_pages u (\<lambda>m. one 3 m + one 1 m)"
    unfolding p diff_self_eq_0 by auto
  have "pins demo_pages m = 0" for m by (simp add: demo_pages_def)
  then have "pages u = pages demo_pages" "pins u 1 = 1" "pins u 2 = 0" "pins u 3 = 1"
    using u(2) by (simp_all add: holding_def same_pages_def one_def)
  then show ?thesis using u(1) by blast
qed

end
