(* ===== verification/Spec2Isabelle.thy ===== *)
theory Spec2Isabelle
  imports Gbfs_Properties Db_Compint Db_Ids Clib_Sort Kport_Path Db_History Gbfs_On_Btree Bt_Root Bt_Pair
begin

text \<open>
  A verification development for gbfs, a Linux file system that keeps its inodes and pages as records
  of a Berkeley DB database, and for the kernel port of Berkeley DB under it.

  The program.  \<open>src/fs\<close> is the file system: \<open>dir.c\<close> keeps directories as arrays of entries in the page
  cache, \<open>namei.c\<close> and \<open>file.c\<close> are the inode operations of the VFS, \<open>inode.c\<close> and \<open>bitmap.c\<close> read and
  write inodes and pages as database records under the keys of \<open>keys.h\<close> and mount the file system.
  \<open>src/db/src\<close> is Berkeley DB 6.2; \<open>src/db/build_kernel\<close> is the layer that lets it run in the kernel: a
  C library and system calls (\<open>syscalls.c\<close>) over the VFS.  A call of the file system goes from
  \<open>namei.c\<close> over \<open>dir.c\<close> to pages, whose reads and writes become \<open>DB->get\<close> and \<open>DB->put\<close>; these search and
  change pages of a btree, which the library reads and writes with the system calls of the port.

  Theories, each with the C code it models:

  \<open>Prelude\<close>: machine integers, byte buffers, little-endian integers, pointer-stepping loops, and the
  lexicographic order of byte strings.

  \<open>Gbfs_Types\<close>, \<open>Gbfs_Dir\<close>, \<open>Gbfs_Slots\<close>, \<open>Gbfs_Dir_Refine\<close>: \<open>fs/dir.c\<close>.  The state is the page cache, the
  in-core inodes and the database (\<open>gstate\<close>), the kernel's functions are the record \<open>kernel\<close>.  Each
  function of \<open>dir.c\<close> is one definition and each loop body another.  \<open>Gbfs_Slots\<close> is the abstract
  directory, a list of slots and the map of names it stands for, with the locale \<open>name_space\<close>;
  \<open>Gbfs_Dir_Refine\<close> shows that each function acts on the slots as the abstract operation does.

  \<open>Gbfs_Inode\<close>, \<open>Gbfs_Store\<close>: keys, records, pages and inodes of \<open>fs/inode.c\<close>, \<open>fs/bitmap.c\<close> and \<open>fs/keys.h\<close>
  over a key/value store.  \<open>Kv_Store\<close> is its contract, a locale.

  \<open>Gbfs_Namei\<close>, \<open>Gbfs_Namei_Refine\<close>: \<open>fs/namei.c\<close> and \<open>fs/file.c\<close>, every operation with its error paths,
  and what each does to the map of names and to the link counts.

  \<open>Gbfs_Super\<close>: mount and unmount of \<open>fs/inode.c\<close> with the resources they hold, and \<open>fs/gbfs.h\<close>.

  \<open>Gbfs_Demo\<close>, \<open>Gbfs_Properties\<close>: a small file system for the witnesses, and the properties of \<open>src/fs\<close>.

  \<open>Kport_Ftable\<close>, \<open>Kport_Io\<close>, \<open>Kport_Lock\<close>, \<open>Kport_Path\<close>: \<open>db/build_kernel/syscalls.c\<close>: the descriptor table
  with its free list (the locale \<open>descriptor_table\<close>), the calls on descriptors, record locks, and the
  calls on paths with their retry loops.  The VFS is a record of functions.  A file pointer is an
  address, which the table tells from a link of its free list as the code does.

  \<open>Clib_Sort\<close>: \<open>db/src/clib/qsort.c\<close> and \<open>bsearch.c\<close>; \<open>Db_Compint\<close>: \<open>common/db_compint.c\<close>; \<open>Db_Ids\<close>:
  \<open>common/db_idspace.c\<close> with its callers \<open>lock/lock_id.c\<close> and \<open>txn/txn.c\<close> (the locale \<open>id_space\<close>).

  \<open>Db_Page\<close>: the layout of a page (\<open>dbinc/db_page.h\<close>) and the insertion and deletion of its items
  (\<open>db/db_dup.c\<close>), over the bytes of the page; \<open>holds\<close> is the list of items a page stores.

  \<open>Db_Alloc\<close>: \<open>__db_new\<close> and \<open>__db_free\<close> of \<open>db/db_meta.c\<close>; any call may fail, and the pins and the lock
  that are held are part of the state.  \<open>Db_Overflow\<close>: \<open>db/db_overflow.c\<close>, chains of overflow pages.

  \<open>Bt_Compare\<close>: comparing a key with an item of a page, also one on overflow pages (\<open>__bam_cmp\<close>,
  \<open>__dbt_defcmp\<close>).  \<open>Bt_Search\<close>, \<open>Bt_Tree\<close>: \<open>btree/bt_search.c\<close> on the tree that the pages hold, for any
  comparison that is a total preorder (the locale \<open>key_order\<close>).  \<open>Bt_Cursor\<close>: \<open>__bamc_search\<close>, with its shortcut over
  the page of the last insertion.

  \<open>Bt_Item\<close>: replacing an item (\<open>__bam_ritem\<close>).  \<open>Bt_Put\<close>: \<open>DB->put\<close> and \<open>DB->get\<close> down to the pages: \<open>__bamc_put\<close>,
  \<open>__bam_iitem\<close>, \<open>__bam_ditem\<close>, \<open>__db_ret\<close> (\<open>btree/bt_put.c\<close>, \<open>bt_delete.c\<close>, \<open>bt_cursor.c\<close>, \<open>db/db_ret.c\<close>).  \<open>Bt_Leaf\<close>
  shows that these insert and replace records of a leaf, \<open>Bt_Store\<close> that the records of all leaves are a map which
  a get reads and a put updates, and that the btree keeps the contract \<open>kv_store\<close>.  \<open>Gbfs_On_Btree\<close> puts the file
  system on it: what \<open>gbfs_writepage\<close> stores in overflow pages of the btree, \<open>gbfs_readpage\<close> reads.

  \<open>Bt_Split\<close>, \<open>Bt_Root\<close>: \<open>btree/bt_split.c\<close>: the split point of a full page and the copy of its items to two new
  ones, and the split of the root; a well-formed tree becomes one that is a level higher and has the same records.  \<open>Bt_Path\<close> is the path of a key through the tree, with the subtree at a depth of it, and the tree
  with another subtree there.  \<open>Bt_Pair\<close> is the search that a split below the root begins with, for the page at a
  level of that path and its parent, both held (\<open>__bam_search\<close> with \<open>SR_WRPAIR\<close>), and \<open>__bam_stkrel\<close>, which gives them back.

  \<open>Db_Rec\<close>, \<open>Db_History\<close>: the recovery functions of the log records that change items of a page
  (\<open>db/db_rec.c\<close>, \<open>btree/bt_rec.c\<close>), and what recovery after a crash and an abort make of a page.

  Termination and bounds.  Loops over a list, a number of pages or a range are structural or have a
  measure.  A loop that the code does not bound (a chain of pages, a retry, a wait) is a partial
  function into an option; the properties about it state that it returns.  Machine integers are
  words where the code can wrap around; lengths and offsets that the code keeps below the size of a
  page or a file are natural numbers, with the bound stated where it is used.

  Not modelled.  Splitting a page below the root (\<open>__bam_page\<close>, \<open>__bam_pinsert\<close>) and the loop that splits the
  pages on the way to a full leaf (\<open>__bam_split\<close>): a put that needs them ends with \<open>DB_NEEDSPLIT\<close> here.
  Duplicates, record numbers, partial puts and blobs, which gbfs does not use.  The buffer pool, the log, locks,
  mutexes, transactions and the environment of Berkeley DB work on shared memory with concurrent processes; the
  parts modelled here take their return codes as parameters.  Replication, the hash, heap and queue methods, slices
  and partitions are not configured in the kernel port.  Offline tools, generated code, language bindings and code
  for other systems are left out.  Concurrency inside the kernel is left out: every operation runs alone, and what
  other tasks do between two steps is a parameter.
\<close>

end
